(* ===== verification/Mambo_Prelude.thy ===== *)
theory Mambo_Prelude
  imports Main "HOL-Library.Word"
begin

text \<open>
  Shared vocabulary of the development: the machine types of the 64-bit builds, the
  outcome type in which every assertion, endless error loop and out-of-bounds access of the
  C code is a value, checked array accesses, and the interface that both of MAMBO's hash
  tables implement.
\<close>

unbundle bit_operations_syntax

named_theorems mambo_simps \<open>unfolding rules of the checked primitives\<close>

lemmas nat_ac = add.assoc [where 'a = nat] add.commute [where 'a = nat] add.left_commute [where 'a = nat]

section \<open>Machine types\<close>

type_synonym uintptr = "64 word"
type_synonym u32 = "32 word"
type_synonym u8 = "8 word"

text \<open>\<open>UINT_MAX\<close> is the largest 32-bit unsigned value; in a \<open>uintptr_t\<close> it is zero extended.\<close>

definition UINT_MAX :: uintptr where
  "UINT_MAX = 0xFFFFFFFF"

text \<open>Assigning a \<open>uintptr_t\<close> to an \<open>int\<close> keeps the low 32 bits, read as two's complement.\<close>

definition c_int :: "uintptr \<Rightarrow> int" where
  "c_int w = sint (ucast w :: 32 word)"

text \<open>The architectures the conditional compilation distinguishes.\<close>

datatype arch = AArch32 | AArch64 | RISCV_Compressed | RISCV

section \<open>Outcomes\<close>

text \<open>
  \<^item> \<open>Ok x\<close>: the function returned \<open>x\<close>;
  \<^item> \<open>Assert_Fail\<close>: a C \<open>assert\<close> failed and the process aborts;
  \<^item> \<open>Spin\<close>: the code never goes on: it entered one of its \<open>while(1);\<close> error loops, or waits for a mutex it holds itself;
  \<^item> \<open>Mem_Fault\<close>: an access outside the object the code is working on;
  \<^item> \<open>Undef\<close>: another undefined operation of C (a shift by the operand's width or more, a division by zero);
  \<^item> \<open>No_Fuel\<close>: a definition that bounds its recursion reached the bound. It is not an outcome of the program:
    the lemmas about such a definition show that it is never returned.
\<close>

datatype 'a res = Ok 'a | Assert_Fail | Spin | Mem_Fault | Undef | No_Fuel

fun res_bind :: "'a res \<Rightarrow> ('a \<Rightarrow> 'b res) \<Rightarrow> 'b res" where
  "res_bind (Ok x) f = f x"
| "res_bind Assert_Fail f = Assert_Fail"
| "res_bind Spin f = Spin"
| "res_bind Mem_Fault f = Mem_Fault"
| "res_bind Undef f = Undef"
| "res_bind No_Fuel f = No_Fuel"

definition res_assert :: "bool \<Rightarrow> unit res" where
  "res_assert b = (if b then Ok () else Assert_Fail)"

lemma res_bind_eq_Ok: "res_bind m f = Ok y \<longleftrightarrow> (\<exists>x. m = Ok x \<and> f x = Ok y)"
  by (cases m) auto

lemma res_bind_cong [fundef_cong]:
  "m = m' \<Longrightarrow> (\<And>x. m' = Ok x \<Longrightarrow> f x = g x) \<Longrightarrow> res_bind m f = res_bind m' g"
  by (cases m') auto

lemma res_bind_Ok_right [simp]: "res_bind m Ok = m"
  by (cases m) auto

lemma res_bind_assoc: "res_bind (res_bind m f) g = res_bind m (\<lambda>x. res_bind (f x) g)"
  by (cases m) auto

lemma res_assert_True [simp]: "res_assert True = Ok ()"
  by (simp add: res_assert_def)

lemma res_assert_eq_Ok [simp]: "res_assert b = Ok u \<longleftrightarrow> b"
  by (simp add: res_assert_def)

lemma res_assert_if: "b \<Longrightarrow> res_assert b = Ok ()"
  by simp

section \<open>Arrays\<close>

text \<open>Reading and writing a C array of known length.\<close>

definition arr_get :: "'a list \<Rightarrow> int \<Rightarrow> 'a res" where
  "arr_get xs i = (if 0 \<le> i \<and> i < int (length xs) then Ok (xs ! nat i) else Mem_Fault)"

definition arr_set :: "'a list \<Rightarrow> int \<Rightarrow> 'a \<Rightarrow> 'a list res" where
  "arr_set xs i x = (if 0 \<le> i \<and> i < int (length xs) then Ok (xs[nat i := x]) else Mem_Fault)"

lemma arr_get_in [simp]: "0 \<le> i \<Longrightarrow> i < int (length xs) \<Longrightarrow> arr_get xs i = Ok (xs ! nat i)"
  by (simp add: arr_get_def)

lemma arr_set_in [simp]: "0 \<le> i \<Longrightarrow> i < int (length xs) \<Longrightarrow> arr_set xs i x = Ok (xs[nat i := x])"
  by (simp add: arr_set_def)

lemma arr_get_eq_Ok: "arr_get xs i = Ok x \<longleftrightarrow> 0 \<le> i \<and> i < int (length xs) \<and> x = xs ! nat i"
  by (auto simp: arr_get_def)

lemma arr_set_eq_Ok:
  "arr_set xs i x = Ok ys \<longleftrightarrow> 0 \<le> i \<and> i < int (length xs) \<and> ys = xs[nat i := x]"
  by (auto simp: arr_set_def)

lemma arr_word_index: "unat w < n \<Longrightarrow> uint w < int n"
  by (simp flip: of_nat_less_iff [where 'a = int])

lemma arr_get_word [simp]: "unat w < length xs \<Longrightarrow> arr_get xs (uint w) = Ok (xs ! unat w)"
  by (simp add: arr_get_def arr_word_index)

lemma arr_set_word [simp]: "unat w < length xs \<Longrightarrow> arr_set xs (uint w) x = Ok (xs[unat w := x])"
  by (simp add: arr_set_def arr_word_index)

section \<open>Association lists and filters\<close>

lemma least_witness:
  fixes P :: "nat \<Rightarrow> bool"
  assumes "P n"
  obtains d where "P d" "d \<le> n" "\<And>e. e < d \<Longrightarrow> \<not> P e"
proof
  show "P (LEAST d. P d)" using assms by (rule LeastI)
  show "(LEAST d. P d) \<le> n" using assms by (rule Least_le)
  show "\<not> P e" if "e < (LEAST d. P d)" for e using that by (rule not_less_Least)
qed

lemma map_of_unique:
  assumes "(k, v) \<in> set xs" "\<And>v'. (k, v') \<in> set xs \<Longrightarrow> v' = v"
  shows "map_of xs k = Some v"
proof -
  obtain v' where "map_of xs k = Some v'"
    using weak_map_of_SomeI [OF assms(1)] by blast
  moreover from this have "v' = v"
    by (intro assms(2) map_of_SomeD)
  ultimately show ?thesis by simp
qed

lemma length_filter_update:
  assumes "i < length xs"
  shows "int (length (filter P (xs[i := y]))) =
    int (length (filter P xs)) - (if P (xs ! i) then 1 else 0) + (if P y then 1 else 0)"
proof -
  have "filter P xs = filter P (take i xs) @ filter P (xs ! i # drop (Suc i) xs)"
    by (metis assms filter_append id_take_nth_drop)
  then show ?thesis
    using assms by (simp add: upd_conv_take_nth_drop)
qed

lemma UN_pick: "k \<in> A \<Longrightarrow> (\<Union>i \<in> A. f i) = f k \<union> (\<Union>i \<in> A - {k}. f i)"
  by blast

section \<open>Words\<close>

lemma uint_and_mask_le: "uint (w AND word_of_int m :: 'a::len word) \<le> m"
  if "0 \<le> m"
proof -
  have "w AND word_of_int m \<le> word_of_int m"
    by (rule word_and_le1)
  then have "uint (w AND word_of_int m) \<le> uint (word_of_int m :: 'a word)"
    by (simp add: word_le_def)
  also have "\<dots> \<le> m"
    using that by (simp add: unsigned_of_int take_bit_int_less_eq_self_iff)
  finally show ?thesis .
qed

lemma unat_of_nat64: "n < 2 ^ 64 \<Longrightarrow> unat (of_nat n :: uintptr) = n"
  by (simp add: unsigned_of_nat take_bit_nat_eq_self)

lemma c_int_small: "uint w < 2 ^ 31 \<Longrightarrow> c_int w = uint w"
proof -
  assume a: "uint w < 2 ^ 31"
  have "uint (ucast w :: 32 word) = uint w"
    using a by (simp add: unsigned_ucast_eq take_bit_int_eq_self)
  moreover have "- (2 ^ 31) \<le> uint w"
    by (rule order_trans [of _ 0]) simp_all
  ultimately show ?thesis
    using a by (simp add: c_int_def sint_uint signed_take_bit_int_eq_self)
qed

section \<open>Key-value tables\<close>

text \<open>
  What MAMBO's clients rely on in a table: a successful insertion is a map update and keeps
  the table well formed; a lookup reads the map.
\<close>

locale kv_table =
  fixes invar :: "'t \<Rightarrow> bool"
    and key_ok :: "'k \<Rightarrow> bool"
    and view :: "'t \<Rightarrow> 'k \<rightharpoonup> 'v"
    and put :: "'t \<Rightarrow> 'k \<Rightarrow> 'v \<Rightarrow> 't res"
  assumes put_invar: "invar t \<Longrightarrow> key_ok k \<Longrightarrow> put t k v = Ok t' \<Longrightarrow> invar t'"
    and put_view: "invar t \<Longrightarrow> key_ok k \<Longrightarrow> put t k v = Ok t' \<Longrightarrow> view t' = (view t)(k \<mapsto> v)"
begin

primrec puts :: "'t \<Rightarrow> ('k \<times> 'v) list \<Rightarrow> 't res" where
  "puts t [] = Ok t"
| "puts t (kv # kvs) = res_bind (put t (fst kv) (snd kv)) (\<lambda>t'. puts t' kvs)"

lemma puts_refine:
  "invar t \<Longrightarrow> \<forall>kv \<in> set kvs. key_ok (fst kv) \<Longrightarrow> puts t kvs = Ok t' \<Longrightarrow>
    invar t' \<and> view t' = view t ++ map_of (rev kvs)"
proof (induction kvs arbitrary: t)
  case Nil
  then show ?case by simp
next
  case (Cons kv kvs)
  obtain t1 where p: "put t (fst kv) (snd kv) = Ok t1" and ps: "puts t1 kvs = Ok t'"
    using Cons.prems(3) by (auto simp: res_bind_eq_Ok)
  have 1: "invar t1" "view t1 = (view t)(fst kv \<mapsto> snd kv)"
    using put_invar [OF _ _ p] put_view [OF _ _ p] Cons.prems by auto
  have "invar t' \<and> view t' = view t1 ++ map_of (rev kvs)"
    using Cons.IH [OF 1(1) _ ps] Cons.prems(2) by auto
  with 1(2) show ?case
    by (cases kv) (auto simp: map_add_def fun_eq_iff split: option.splits)
qed

end

end
