(* ===== verification/Code_Cache_Hash.thy ===== *)
theory Code_Cache_Hash
  imports Mambo_Prelude
begin

text \<open>
  The hash table that maps source addresses to code cache addresses (\<open>common.c\<close>, \<open>common.h\<close>):
  open addressing with linear probing that never wraps around, a few overprovisioned slots at
  the end and the last slot reserved empty. The table size is a field, so the same definitions
  cover the build's \<open>CODE_CACHE_HASH_SIZE\<close> and small tables. The invariant is the probe-chain
  property; the refinement is to a finite map.
\<close>

section \<open>Data\<close>

definition CODE_CACHE_HASH_SIZE :: int where
  "CODE_CACHE_HASH_SIZE = 0x7FFFF"

definition CODE_CACHE_HASH_OVERP :: int where
  "CODE_CACHE_HASH_OVERP = 10"

fun HT_SHIFT :: "arch \<Rightarrow> nat" where
  "HT_SHIFT AArch32 = 0"
| "HT_SHIFT AArch64 = 2"
| "HT_SHIFT RISCV_Compressed = 1"
| "HT_SHIFT RISCV = 2"

record hash_entry =
  he_key :: uintptr
  he_value :: uintptr

record hash_table =
  ht_size :: int
  ht_collisions :: int
  ht_count :: int
  ht_entries :: "hash_entry list"

definition GET_INDEX :: "arch \<Rightarrow> hash_table \<Rightarrow> uintptr \<Rightarrow> int" where
  "GET_INDEX a table key =
     c_int (drop_bit (HT_SHIFT a) key AND word_of_int (ht_size table - CODE_CACHE_HASH_OVERP))"

section \<open>Operations\<close>

text \<open>The \<open>do ... while\<close> of \<open>hash_lookup\<close>, from the index it has reached.\<close>

function hash_lookup_loop :: "hash_table \<Rightarrow> uintptr \<Rightarrow> int \<Rightarrow> uintptr res" where
  "hash_lookup_loop table key index =
     res_bind (arr_get (ht_entries table) index) (\<lambda>e.
       if he_key e = key then Ok (he_value e)
       else if index + 1 < ht_size table - 1 \<and> he_key e \<noteq> 0
            then hash_lookup_loop table key (index + 1)
            else Ok UINT_MAX)"
  by pat_completeness auto
termination
  by (relation "measure (\<lambda>(table, key, index). nat (ht_size table - 1 - index))") auto

definition hash_lookup :: "arch \<Rightarrow> hash_table \<Rightarrow> uintptr \<Rightarrow> uintptr res" where
  "hash_lookup a table key = hash_lookup_loop table key (GET_INDEX a table key)"

text \<open>
  The loop of \<open>hash_add\<close>. Running off the last usable slot enters the \<open>while(1)\<close> loop
  (the "Hash table index overflow" error), before \<open>collisions\<close> is incremented.
\<close>

function hash_add_loop :: "hash_table \<Rightarrow> uintptr \<Rightarrow> uintptr \<Rightarrow> int \<Rightarrow> (hash_table \<times> bool) res" where
  "hash_add_loop table key val index =
     res_bind (arr_get (ht_entries table) index) (\<lambda>e.
       if he_key e = 0 \<or> he_key e = key then
         res_bind (arr_set (ht_entries table) index \<lparr>he_key = key, he_value = val\<rparr>) (\<lambda>es.
           Ok (table\<lparr>ht_count := (if he_key e = 0 then ht_count table + 1 else ht_count table),
                     ht_entries := es\<rparr>, True))
       else if index + 1 \<ge> ht_size table - 1 then Spin
       else hash_add_loop (table\<lparr>ht_collisions := ht_collisions table + 1\<rparr>) key val (index + 1))"
  by pat_completeness auto
termination
  by (relation "measure (\<lambda>(table, key, val, index). nat (ht_size table - 1 - index))") auto

definition hash_add :: "arch \<Rightarrow> hash_table \<Rightarrow> uintptr \<Rightarrow> uintptr \<Rightarrow> (hash_table \<times> bool) res" where
  "hash_add a table key val = hash_add_loop table key val (GET_INDEX a table key)"

text \<open>\<open>hash_init\<close> clears the keys of the first \<open>size\<close> slots and leaves the values alone.\<close>

definition hash_init :: "hash_table \<Rightarrow> int \<Rightarrow> hash_table res" where
  "hash_init table sz =
     (if sz \<le> int (length (ht_entries table)) then
        Ok (table\<lparr>ht_size := sz, ht_collisions := 0, ht_count := 0,
             ht_entries := map (\<lambda>e. e\<lparr>he_key := 0\<rparr>) (take (nat sz) (ht_entries table))
                           @ drop (nat sz) (ht_entries table)\<rparr>)
      else Mem_Fault)"

declare hash_lookup_loop.simps [simp del] hash_add_loop.simps [simp del]

section \<open>Well-formedness and abstraction\<close>

abbreviation key_at :: "hash_table \<Rightarrow> nat \<Rightarrow> uintptr" where
  "key_at t i \<equiv> he_key (ht_entries t ! i)"

text \<open>
  Every occupied slot is reachable from its key's home slot: all slots from the home slot up to it
  hold other keys; the last slot of the table is empty.
\<close>

definition hash_size_ok :: "hash_table \<Rightarrow> bool" where
  "hash_size_ok t \<longleftrightarrow> CODE_CACHE_HASH_OVERP \<le> ht_size t \<and> ht_size t < 2 ^ 31 \<and>
     ht_size t \<le> int (length (ht_entries t))"

definition hash_used :: "hash_table \<Rightarrow> nat" where
  "hash_used t = length (filter (\<lambda>e. he_key e \<noteq> 0) (take (nat (ht_size t)) (ht_entries t)))"

definition hash_inv :: "arch \<Rightarrow> hash_table \<Rightarrow> bool" where
  "hash_inv a t \<longleftrightarrow> hash_size_ok t \<and> ht_count t = int (hash_used t) \<and>
     (\<forall>i < nat (ht_size t). key_at t i \<noteq> 0 \<longrightarrow>
        i < nat (ht_size t - 1) \<and> nat (GET_INDEX a t (key_at t i)) \<le> i \<and>
        (\<forall>j. nat (GET_INDEX a t (key_at t i)) \<le> j \<and> j < i \<longrightarrow>
             key_at t j \<noteq> 0 \<and> key_at t j \<noteq> key_at t i))"

definition hash_view :: "hash_table \<Rightarrow> uintptr \<rightharpoonup> uintptr" where
  "hash_view t = map_of (map (\<lambda>e. (he_key e, he_value e))
     (filter (\<lambda>e. he_key e \<noteq> 0) (take (nat (ht_size t)) (ht_entries t))))"

section \<open>The home slot\<close>

lemma GET_INDEX_range:
  assumes "hash_size_ok t"
  shows "0 \<le> GET_INDEX a t k" "GET_INDEX a t k \<le> ht_size t - CODE_CACHE_HASH_OVERP"
proof -
  let ?w = "drop_bit (HT_SHIFT a) k AND word_of_int (ht_size t - CODE_CACHE_HASH_OVERP)"
  have le: "uint ?w \<le> ht_size t - CODE_CACHE_HASH_OVERP"
    using assms by (intro uint_and_mask_le) (simp add: hash_size_ok_def)
  then have "GET_INDEX a t k = uint ?w"
    using assms unfolding GET_INDEX_def
    by (intro c_int_small) (simp add: hash_size_ok_def CODE_CACHE_HASH_OVERP_def)
  with le show "0 \<le> GET_INDEX a t k" "GET_INDEX a t k \<le> ht_size t - CODE_CACHE_HASH_OVERP"
    by simp_all
qed

lemma GET_INDEX_usable: "hash_size_ok t \<Longrightarrow> GET_INDEX a t k < ht_size t - 1"
  using GET_INDEX_range(2) [of t a k] by (simp add: CODE_CACHE_HASH_OVERP_def)

lemma GET_INDEX_size: "ht_size t' = ht_size t \<Longrightarrow> GET_INDEX a t' k = GET_INDEX a t k"
  by (simp add: GET_INDEX_def)

section \<open>What the probe loops do\<close>

abbreviation probed :: "hash_table \<Rightarrow> uintptr \<Rightarrow> int \<Rightarrow> int \<Rightarrow> bool" where
  "probed t k lo hi \<equiv> \<forall>j. lo \<le> j \<and> j < hi \<longrightarrow> key_at t (nat j) \<noteq> 0 \<and> key_at t (nat j) \<noteq> k"

lemma hash_lookup_loop_hit:
  assumes "hash_size_ok t" "0 \<le> index" "index \<le> i" "i < ht_size t - 1"
    "key_at t (nat i) = k" "probed t k index i"
  shows "hash_lookup_loop t k index = Ok (he_value (ht_entries t ! nat i))"
  using assms
proof (induction t k index rule: hash_lookup_loop.induct)
  case (1 t k index)
  have in_range: "arr_get (ht_entries t) index = Ok (ht_entries t ! nat index)"
    using 1 by (simp add: hash_size_ok_def)
  show ?case
  proof (cases "index = i")
    case True
    with 1 in_range show ?thesis by (subst hash_lookup_loop.simps) simp
  next
    case False
    with 1 in_range have "hash_lookup_loop t k (index + 1) = Ok (he_value (ht_entries t ! nat i))"
      by (intro "1.IH") (auto simp: hash_size_ok_def)
    with False 1 show ?thesis by (simp add: hash_lookup_loop.simps [of t k index] in_range)
  qed
qed

lemma hash_lookup_loop_miss:
  assumes "hash_size_ok t" "0 \<le> index" "index < ht_size t - 1"
    "\<forall>j. index \<le> j \<and> j < ht_size t - 1 \<longrightarrow>
       (\<forall>l. index \<le> l \<and> l < j \<longrightarrow> key_at t (nat l) \<noteq> 0) \<longrightarrow> key_at t (nat j) \<noteq> k"
  shows "hash_lookup_loop t k index = Ok UINT_MAX"
  using assms
proof (induction t k index rule: hash_lookup_loop.induct)
  case (1 t k index)
  have in_range: "arr_get (ht_entries t) index = Ok (ht_entries t ! nat index)"
    using 1 by (simp add: hash_size_ok_def)
  have ne: "key_at t (nat index) \<noteq> k"
    using "1.prems"(3,4) by auto
  show ?case
  proof (cases "index + 1 < ht_size t - 1 \<and> key_at t (nat index) \<noteq> 0")
    case True
    have "hash_lookup_loop t k (index + 1) = Ok UINT_MAX"
    proof (rule "1.IH" [OF in_range ne True])
      show "\<forall>j. index + 1 \<le> j \<and> j < ht_size t - 1 \<longrightarrow>
         (\<forall>l. index + 1 \<le> l \<and> l < j \<longrightarrow> key_at t (nat l) \<noteq> 0) \<longrightarrow> key_at t (nat j) \<noteq> k"
        using "1.prems"(4) True by (smt (verit))
    qed (use "1.prems" True in auto)
    with True ne show ?thesis by (simp add: hash_lookup_loop.simps [of t k index] in_range)
  next
    case False
    with ne show ?thesis by (auto simp: hash_lookup_loop.simps [of t k index] in_range)
  qed
qed

lemma hash_add_loop_slot:
  assumes "hash_size_ok t" "0 \<le> index" "index < ht_size t - 1"
    "index \<le> i" "i < ht_size t - 1" "probed t k index i" "key_at t (nat i) \<in> {0, k}"
  shows "hash_add_loop t k v index = Ok (t\<lparr>
     ht_collisions := ht_collisions t + (i - index),
     ht_count := (if key_at t (nat i) = 0 then ht_count t + 1 else ht_count t),
     ht_entries := (ht_entries t)[nat i := \<lparr>he_key = k, he_value = v\<rparr>]\<rparr>, True)"
  using assms
proof (induction t k v index rule: hash_add_loop.induct)
  case (1 t k v index)
  have in_range: "arr_get (ht_entries t) index = Ok (ht_entries t ! nat index)"
    using 1 by (simp add: hash_size_ok_def)
  show ?case
  proof (cases "index = i")
    case True
    with 1 in_range show ?thesis
      by (subst hash_add_loop.simps) (auto simp: hash_size_ok_def)
  next
    case False
    then have nz: "\<not> (key_at t (nat index) = 0 \<or> key_at t (nat index) = k)"
      using "1.prems" by auto
    have lt: "\<not> index + 1 \<ge> ht_size t - 1"
      using "1.prems" False by auto
    let ?t = "t\<lparr>ht_collisions := ht_collisions t + 1\<rparr>"
    have "hash_add_loop ?t k v (index + 1) = Ok (?t\<lparr>
       ht_collisions := ht_collisions ?t + (i - (index + 1)),
       ht_count := (if key_at ?t (nat i) = 0 then ht_count ?t + 1 else ht_count ?t),
       ht_entries := (ht_entries ?t)[nat i := \<lparr>he_key = k, he_value = v\<rparr>]\<rparr>, True)"
      by (rule "1.IH" [OF in_range nz lt])
        (use "1.prems" False in \<open>auto simp: hash_size_ok_def\<close>)
    with nz lt show ?thesis
      by (simp add: hash_add_loop.simps [of t k v index] in_range)
  qed
qed

lemma hash_add_loop_full:
  assumes "hash_size_ok t" "0 \<le> index" "index < ht_size t - 1"
    "probed t k index (ht_size t - 1)"
  shows "hash_add_loop t k v index = Spin"
  using assms
proof (induction t k v index rule: hash_add_loop.induct)
  case (1 t k v index)
  have in_range: "arr_get (ht_entries t) index = Ok (ht_entries t ! nat index)"
    using 1 by (simp add: hash_size_ok_def)
  have nz: "\<not> (key_at t (nat index) = 0 \<or> key_at t (nat index) = k)"
    using "1.prems" by auto
  show ?case
  proof (cases "index + 1 \<ge> ht_size t - 1")
    case True
    with nz show ?thesis by (simp add: hash_add_loop.simps [of t k v index] in_range)
  next
    case False
    have "hash_add_loop (t\<lparr>ht_collisions := ht_collisions t + 1\<rparr>) k v (index + 1) = Spin"
      by (rule "1.IH" [OF in_range nz False])
        (use "1.prems" False in \<open>auto simp: hash_size_ok_def\<close>)
    with nz False show ?thesis
      by (simp add: hash_add_loop.simps [of t k v index] in_range)
  qed
qed

section \<open>Refinement to a map\<close>

lemma hash_inv_size: "hash_inv a t \<Longrightarrow> hash_size_ok t"
  by (simp add: hash_inv_def)

lemma hash_inv_slot:
  assumes "hash_inv a t" "i < nat (ht_size t)" "key_at t i \<noteq> 0"
  shows "i < nat (ht_size t - 1)" "nat (GET_INDEX a t (key_at t i)) \<le> i"
    "nat (GET_INDEX a t (key_at t i)) \<le> j \<Longrightarrow> j < i \<Longrightarrow> key_at t j \<noteq> 0 \<and> key_at t j \<noteq> key_at t i"
  using assms unfolding hash_inv_def by blast+

lemma hash_inv_unique:
  assumes "hash_inv a t" "i < nat (ht_size t)" "j < nat (ht_size t)"
    "key_at t i = key_at t j" "key_at t i \<noteq> 0"
  shows "i = j"
proof (rule ccontr)
  assume "i \<noteq> j"
  then consider "i < j" | "j < i" by linarith
  then show False
  proof cases
    case 1
    show False
      using hash_inv_slot(3) [OF assms(1,3), of i] hash_inv_slot(2) [OF assms(1,2,5)] assms(4,5) 1
      by auto
  next
    case 2
    show False
      using hash_inv_slot(3) [OF assms(1,2,5), of j] hash_inv_slot(2) [OF assms(1,3)] assms(4,5) 2
      by auto
  qed
qed

lemma hash_view_Some:
  assumes "hash_inv a t"
  shows "hash_view t k = Some v \<longleftrightarrow>
    k \<noteq> 0 \<and> (\<exists>i < nat (ht_size t). key_at t i = k \<and> he_value (ht_entries t ! i) = v)"
    (is "_ \<longleftrightarrow> ?R v")
proof -
  let ?xs = "map (\<lambda>e. (he_key e, he_value e))
    (filter (\<lambda>e. he_key e \<noteq> 0) (take (nat (ht_size t)) (ht_entries t)))"
  have len: "nat (ht_size t) \<le> length (ht_entries t)"
    using hash_inv_size [OF assms] by (simp add: hash_size_ok_def nat_le_iff)
  have mem: "(k, v) \<in> set ?xs \<longleftrightarrow> ?R v" for v
    using len by (auto simp: image_iff in_set_conv_nth)
  have "?R v \<Longrightarrow> ?R v' \<Longrightarrow> v' = v" for v v'
    using hash_inv_unique [OF assms] by metis
  then have "?R v \<Longrightarrow> map_of ?xs k = Some v"
    using mem by (intro map_of_unique) blast+
  then show ?thesis
    using mem [of v] by (auto simp: hash_view_def dest: map_of_SomeD)
qed

lemma hash_view_None:
  assumes "hash_inv a t" "k \<noteq> 0"
  shows "hash_view t k = None \<longleftrightarrow> (\<forall>i < nat (ht_size t). key_at t i \<noteq> k)"
  using hash_view_Some [OF assms(1), of k] assms(2) by (metis not_Some_eq)

lemma hash_lookup_view:
  assumes inv: "hash_inv a t" and nz: "k \<noteq> 0"
  shows "hash_lookup a t k = Ok (case hash_view t k of Some v \<Rightarrow> v | None \<Rightarrow> UINT_MAX)"
proof (cases "hash_view t k")
  case (Some v)
  then obtain i where i: "i < nat (ht_size t)" "key_at t i = k" "he_value (ht_entries t ! i) = v"
    using hash_view_Some [OF inv] by blast
  note slot = hash_inv_slot [OF inv i(1)]
  have "hash_lookup_loop t k (GET_INDEX a t k) = Ok (he_value (ht_entries t ! nat (int i)))"
    using slot i nz GET_INDEX_range(1) [OF hash_inv_size [OF inv], of a k]
    by (intro hash_lookup_loop_hit [OF hash_inv_size [OF inv]]) auto
  with i Some show ?thesis by (simp add: hash_lookup_def)
next
  case None
  then have "\<forall>i < nat (ht_size t). key_at t i \<noteq> k"
    using hash_view_None [OF inv nz] by blast
  then have "hash_lookup_loop t k (GET_INDEX a t k) = Ok UINT_MAX"
    using GET_INDEX_range(1) [OF hash_inv_size [OF inv], of a k] GET_INDEX_usable [OF hash_inv_size [OF inv], of a k]
    by (intro hash_lookup_loop_miss [OF hash_inv_size [OF inv]]) auto
  with None show ?thesis by (simp add: hash_lookup_def)
qed

section \<open>Insertion\<close>

text \<open>The slot \<open>hash_add\<close> ends at, when there is one.\<close>

definition hash_free_slot :: "arch \<Rightarrow> hash_table \<Rightarrow> uintptr \<Rightarrow> int \<Rightarrow> bool" where
  "hash_free_slot a t k i \<longleftrightarrow> GET_INDEX a t k \<le> i \<and> i < ht_size t - 1 \<and>
     probed t k (GET_INDEX a t k) i \<and> key_at t (nat i) \<in> {0, k}"

lemma hash_free_slot_exists:
  assumes "hash_size_ok t"
  shows "(\<exists>i. hash_free_slot a t k i) \<longleftrightarrow> \<not> probed t k (GET_INDEX a t k) (ht_size t - 1)"
proof
  assume "\<exists>i. hash_free_slot a t k i"
  then show "\<not> probed t k (GET_INDEX a t k) (ht_size t - 1)"
    by (auto simp: hash_free_slot_def)
next
  let ?P = "\<lambda>n. GET_INDEX a t k + int n < ht_size t - 1 \<and> key_at t (nat (GET_INDEX a t k + int n)) \<in> {0, k}"
  assume "\<not> probed t k (GET_INDEX a t k) (ht_size t - 1)"
  then obtain j where "GET_INDEX a t k \<le> j" "j < ht_size t - 1" "key_at t (nat j) \<in> {0, k}"
    by auto
  then have ex: "?P (nat (j - GET_INDEX a t k))" by simp
  have "\<exists>n. ?P n \<and> (\<forall>m < n. \<not> ?P m)"
    using ex by (subst exists_least_iff [symmetric]) (rule exI)
  then obtain n where n: "?P n" and least: "\<forall>m < n. \<not> ?P m" by blast
  have before: "key_at t (nat j) \<noteq> 0 \<and> key_at t (nat j) \<noteq> k"
    if j: "GET_INDEX a t k \<le> j" "j < GET_INDEX a t k + int n" for j
  proof -
    have "\<not> ?P (nat (j - GET_INDEX a t k))"
      using j by (intro least [rule_format]) linarith
    moreover have "GET_INDEX a t k + int (nat (j - GET_INDEX a t k)) = j"
      using j by simp
    moreover have "j < ht_size t - 1"
      using j n by linarith
    ultimately show ?thesis by simp
  qed
  have "hash_free_slot a t k (GET_INDEX a t k + int n)"
    unfolding hash_free_slot_def using n before by simp
  then show "\<exists>i. hash_free_slot a t k i" ..
qed

lemma hash_add_slot:
  assumes "hash_size_ok t" "hash_free_slot a t k i"
  shows "hash_add a t k v = Ok (t\<lparr>
     ht_collisions := ht_collisions t + (i - GET_INDEX a t k),
     ht_count := (if key_at t (nat i) = 0 then ht_count t + 1 else ht_count t),
     ht_entries := (ht_entries t)[nat i := \<lparr>he_key = k, he_value = v\<rparr>]\<rparr>, True)"
  using assms GET_INDEX_range(1) [OF assms(1)] unfolding hash_add_def hash_free_slot_def
  by (intro hash_add_loop_slot) auto

lemma hash_add_Spin:
  assumes "hash_size_ok t" "\<nexists>i. hash_free_slot a t k i"
  shows "hash_add a t k v = Spin"
  using assms hash_free_slot_exists [OF assms(1), of a k] GET_INDEX_range(1) [OF assms(1)]
    GET_INDEX_usable [OF assms(1)]
  unfolding hash_add_def by (intro hash_add_loop_full) auto

text \<open>
  Everything the preservation proofs need of a successful insertion: the slot it wrote and what
  every slot holds before and after.
\<close>

lemma hash_add_Ok_cases:
  assumes inv: "hash_inv a t" and add: "hash_add a t k v = Ok (t', b)"
  obtains i where "b" "ht_size t' = ht_size t" "nat (GET_INDEX a t k) \<le> i" "i < nat (ht_size t - 1)"
    "i < nat (ht_size t)" "i < length (ht_entries t)"
    "\<And>j. nat (GET_INDEX a t k) \<le> j \<Longrightarrow> j < i \<Longrightarrow> key_at t j \<noteq> 0 \<and> key_at t j \<noteq> k"
    "key_at t i = 0 \<or> key_at t i = k"
    "ht_count t' = (if key_at t i = 0 then ht_count t + 1 else ht_count t)"
    "ht_entries t' = (ht_entries t)[i := \<lparr>he_key = k, he_value = v\<rparr>]"
proof -
  note sz = hash_inv_size [OF inv]
  obtain i where slot: "hash_free_slot a t k i"
    using add hash_add_Spin [OF sz] by fastforce
  then have i: "0 \<le> i" "i < ht_size t - 1" "GET_INDEX a t k \<le> i" "0 \<le> GET_INDEX a t k"
    using GET_INDEX_range(1) [OF sz, of a k] by (auto simp: hash_free_slot_def)
  have chain: "key_at t j \<noteq> 0 \<and> key_at t j \<noteq> k" if "nat (GET_INDEX a t k) \<le> j" "j < nat i" for j
    using slot that i(1) unfolding hash_free_slot_def
    by (metis nat_int nat_le_iff zless_nat_eq_int_zless)
  show thesis
    using add hash_add_slot [OF sz slot, of v] i slot sz chain
    by (intro that [of "nat i"]) (auto simp: hash_free_slot_def hash_size_ok_def)
qed

lemma hash_add_inv:
  assumes inv: "hash_inv a t" and nz: "k \<noteq> 0" and add: "hash_add a t k v = Ok (t', b)"
  shows "hash_inv a t'"
proof (rule hash_add_Ok_cases [OF inv add])
  fix i
  assume size: "ht_size t' = ht_size t" and i: "nat (GET_INDEX a t k) \<le> i" "i < nat (ht_size t - 1)"
      "i < nat (ht_size t)" "i < length (ht_entries t)"
    and chain: "\<And>j. nat (GET_INDEX a t k) \<le> j \<Longrightarrow> j < i \<Longrightarrow> key_at t j \<noteq> 0 \<and> key_at t j \<noteq> k"
    and old: "key_at t i = 0 \<or> key_at t i = k"
    and count: "ht_count t' = (if key_at t i = 0 then ht_count t + 1 else ht_count t)"
    and es: "ht_entries t' = (ht_entries t)[i := \<lparr>he_key = k, he_value = v\<rparr>]"
  have keys: "key_at t' j = (if j = i then k else key_at t j)" for j
    using i by (simp add: es nth_list_update)
  note home = GET_INDEX_size [OF size, of a]
  have "int (hash_used t') = int (hash_used t) + (if key_at t i = 0 then 1 else 0)"
    using i nz length_filter_update [of i "take (nat (ht_size t)) (ht_entries t)" "\<lambda>e. he_key e \<noteq> 0"]
    by (simp add: hash_used_def size es take_update_swap)
  then have cnt: "ht_count t' = int (hash_used t')"
    using inv by (auto simp: hash_inv_def count)
  have ok: "hash_size_ok t'"
    using hash_inv_size [OF inv] by (simp add: hash_size_ok_def size es)
  show ?thesis
    unfolding hash_inv_def
  proof (intro conjI ok cnt allI impI)
    fix j assume j: "j < nat (ht_size t')" "key_at t' j \<noteq> 0"
    show "j < nat (ht_size t' - 1)"
      using j i hash_inv_slot(1) [OF inv, of j] by (auto simp: keys size split: if_splits)
    show "nat (GET_INDEX a t' (key_at t' j)) \<le> j"
      using j i hash_inv_slot(2) [OF inv, of j] by (auto simp: keys size home split: if_splits)
    fix l assume l: "nat (GET_INDEX a t' (key_at t' j)) \<le> l \<and> l < j"
    show "key_at t' l \<noteq> 0" "key_at t' l \<noteq> key_at t' j"
      using j l nz old chain [of l] hash_inv_slot(3) [OF inv, of j l]
      by (auto simp: keys size home split: if_splits)
  qed
qed

lemma hash_add_view:
  assumes inv: "hash_inv a t" and nz: "k \<noteq> 0" and add: "hash_add a t k v = Ok (t', b)"
  shows "hash_view t' = (hash_view t)(k \<mapsto> v)"
proof (rule hash_add_Ok_cases [OF inv add])
  fix i
  assume size: "ht_size t' = ht_size t" and i: "i < nat (ht_size t)" "i < length (ht_entries t)"
    and old: "key_at t i = 0 \<or> key_at t i = k"
    and es: "ht_entries t' = (ht_entries t)[i := \<lparr>he_key = k, he_value = v\<rparr>]"
  note inv' = hash_add_inv [OF inv nz add]
  show ?thesis
  proof
    fix k'
    show "hash_view t' k' = ((hash_view t)(k \<mapsto> v)) k'"
    proof (cases "k' = k")
      case True
      have "hash_view t' k = Some v"
        using i nz unfolding hash_view_Some [OF inv'] by (auto simp: es size)
      with True show ?thesis by simp
    next
      case False
      have "hash_view t' k' = Some w \<longleftrightarrow> hash_view t k' = Some w" for w
        using False i old unfolding hash_view_Some [OF inv'] hash_view_Some [OF inv] size es
        by (intro conj_cong refl ex_cong1) (auto simp: nth_list_update)
      with False show ?thesis by (metis fun_upd_other option.exhaust)
    qed
  qed
qed

lemma hash_init_inv:
  assumes "CODE_CACHE_HASH_OVERP \<le> sz" "sz < 2 ^ 31" "sz \<le> int (length (ht_entries t))"
  shows "\<exists>t'. hash_init t sz = Ok t' \<and> hash_inv a t' \<and> hash_view t' = Map.empty \<and> ht_size t' = sz
    \<and> length (ht_entries t') = length (ht_entries t)"
proof -
  let ?t = "t\<lparr>ht_size := sz, ht_collisions := 0, ht_count := 0,
     ht_entries := map (\<lambda>e. e\<lparr>he_key := 0\<rparr>) (take (nat sz) (ht_entries t)) @ drop (nat sz) (ht_entries t)\<rparr>"
  have zero: "key_at ?t i = 0" if "i < nat sz" for i
    using that assms(3) by (simp add: nth_append)
  have none: "filter (\<lambda>e. he_key e \<noteq> 0) (take (nat sz) (ht_entries ?t)) = []"
    using assms(3) by (auto simp: filter_empty_conv nat_le_iff min_def)
  have "hash_inv a ?t"
    using assms zero none by (simp add: hash_inv_def hash_size_ok_def hash_used_def nat_le_iff)
  moreover have "hash_view ?t = Map.empty"
    using none by (simp add: hash_view_def)
  moreover have "hash_init t sz = Ok ?t"
    using assms(3) by (simp add: hash_init_def)
  ultimately show ?thesis
    using assms(3) by (intro exI [of _ ?t]) (simp add: nat_le_iff)
qed

section \<open>The table as a provider of the key-value interface\<close>

definition hash_put :: "arch \<Rightarrow> hash_table \<Rightarrow> uintptr \<Rightarrow> uintptr \<Rightarrow> hash_table res" where
  "hash_put a t k v = res_bind (hash_add a t k v) (\<lambda>(t', done). if done then Ok t' else Spin)"

interpretation cc_hash: kv_table "hash_inv a" "\<lambda>k. k \<noteq> 0" hash_view "hash_put a" for a
  by unfold_locales
    (auto simp: hash_put_def res_bind_eq_Ok split: if_splits intro: hash_add_inv hash_add_view)

section \<open>A small table for the witnesses\<close>

definition small_table :: hash_table where
  "small_table = \<lparr>ht_size = 17, ht_collisions = 0, ht_count = 0,
     ht_entries = replicate 17 \<lparr>he_key = 0, he_value = 0\<rparr>\<rparr>"

lemma small_table_inv: "hash_inv a small_table"
  by (auto simp: hash_inv_def hash_size_ok_def hash_used_def small_table_def CODE_CACHE_HASH_OVERP_def)

lemma small_table_add:
  "\<exists>t. hash_add AArch64 small_table 0x1004 7 = Ok (t, True) \<and> hash_inv AArch64 t \<and> hash_view t 0x1004 = Some 7"
proof -
  have "(case hash_add AArch64 small_table 0x1004 7 of Ok (t, b) \<Rightarrow> b | _ \<Rightarrow> False)"
    by code_simp
  then obtain t where t: "hash_add AArch64 small_table 0x1004 7 = Ok (t, True)"
    by (auto split: res.splits)
  have nz: "(0x1004 :: uintptr) \<noteq> 0" by simp
  show ?thesis
    using t hash_add_inv [OF small_table_inv nz t] hash_add_view [OF small_table_inv nz t]
    by (intro exI [of _ t]) simp
qed

section \<open>Properties\<close>

text \<open>The key 0 marks empty slots: looking it up finds the first empty slot from the start of the table.\<close>

lemma hash_lookup_zero:
  assumes inv: "hash_inv a t"
  shows "if \<forall>i < nat (ht_size t - 1). key_at t i \<noteq> 0 then hash_lookup a t 0 = Ok UINT_MAX
    else \<exists>i < nat (ht_size t - 1). key_at t i = 0 \<and> (\<forall>j < i. key_at t j \<noteq> 0) \<and> hash_lookup a t 0 = Ok (he_value (ht_entries t ! i))"
proof -
  note size = hash_inv_size [OF inv]
  have home: "GET_INDEX a t 0 = 0" by (simp add: GET_INDEX_def c_int_def)
  have pos: "0 < ht_size t - 1" using size by (simp add: hash_size_ok_def CODE_CACHE_HASH_OVERP_def)
  show ?thesis
  proof (cases "\<forall>i < nat (ht_size t - 1). key_at t i \<noteq> 0")
    case True
    then have "hash_lookup_loop t 0 0 = Ok UINT_MAX" using pos by (intro hash_lookup_loop_miss [OF size]) auto
    then show ?thesis using True home by (simp add: hash_lookup_def)
  next
    case False
    then obtain i where i: "i < nat (ht_size t - 1)" "key_at t i = 0" by blast
    define l where "l = (LEAST i. key_at t i = 0)"
    have l: "key_at t l = 0" "l \<le> i" "\<forall>j < l. key_at t j \<noteq> 0"
      unfolding l_def using i(2) by (auto intro: LeastI Least_le dest: not_less_Least)
    then have lt: "l < nat (ht_size t - 1)" using i(1) by simp
    have "hash_lookup_loop t 0 0 = Ok (he_value (ht_entries t ! nat (int l)))"
      using l(1,3) lt by (intro hash_lookup_loop_hit [OF size]) auto
    then have "key_at t l = 0 \<and> (\<forall>j < l. key_at t j \<noteq> 0) \<and> hash_lookup a t 0 = Ok (he_value (ht_entries t ! l))"
      using l home by (simp add: hash_lookup_def)
    then show ?thesis unfolding if_not_P [OF False] using lt by blast
  qed
qed

text \<open>C16: A lookup in a well-formed table terminates and stays inside the array. For a nonzero key it returns the value last stored
  for the key and \<open>UINT_MAX\<close> when there is none. The key 0 is not a key but marks empty slots: looking it up returns the
  value field of the first empty slot, which nothing initialises, or \<open>UINT_MAX\<close> if every usable slot is taken.\<close>

theorem hash_lookup_refines:
  assumes "hash_inv a t"
  shows "if k \<noteq> 0 then hash_lookup a t k = Ok (case hash_view t k of Some v \<Rightarrow> v | None \<Rightarrow> UINT_MAX)
    else if \<forall>i < nat (ht_size t - 1). key_at t i \<noteq> 0 then hash_lookup a t k = Ok UINT_MAX
    else \<exists>i < nat (ht_size t - 1). key_at t i = 0 \<and> (\<forall>j < i. key_at t j \<noteq> 0) \<and> hash_lookup a t k = Ok (he_value (ht_entries t ! i))"
  using hash_lookup_view [OF assms, of k] hash_lookup_zero [OF assms] by (cases "k = 0") simp_all

theorem hash_lookup_refines_witness:
  "\<exists>t. hash_inv AArch64 t \<and> hash_lookup AArch64 t 0x1004 = Ok 7 \<and> hash_lookup AArch64 small_table 0x1004 = Ok UINT_MAX"
proof -
  obtain t where t: "hash_inv AArch64 t" "hash_view t 0x1004 = Some 7"
    using small_table_add by blast
  have "hash_lookup AArch64 t 0x1004 = Ok 7"
    using hash_lookup_refines [OF t(1), of "0x1004"] t(2) by simp
  moreover have "hash_lookup AArch64 small_table 0x1004 = Ok UINT_MAX"
    by code_simp
  ultimately show ?thesis using t(1) by blast
qed

text \<open>C8: Inserting a nonzero key into a well-formed table either is a map update that keeps the
  table well formed, or, exactly when every usable slot from the key's home slot on holds another
  key, never returns (the \<open>while(1)\<close> of the overflow error). It never touches memory outside the
  table.\<close>

theorem hash_add_refines:
  assumes "hash_inv a t" "k \<noteq> 0"
  shows "if probed t k (GET_INDEX a t k) (ht_size t - 1) then hash_add a t k v = Spin
    else \<exists>t'. hash_add a t k v = Ok (t', True) \<and> hash_inv a t' \<and> hash_view t' = (hash_view t)(k \<mapsto> v)"
proof (cases "probed t k (GET_INDEX a t k) (ht_size t - 1)")
  case True
  then show ?thesis
    using hash_add_Spin hash_free_slot_exists hash_inv_size [OF assms(1)] by fastforce
next
  case False
  then obtain t' where "hash_add a t k v = Ok (t', True)"
    using hash_add_slot hash_free_slot_exists hash_inv_size [OF assms(1)] by metis
  with False show ?thesis
    using hash_add_inv [OF assms] hash_add_view [OF assms] by auto
qed

theorem hash_add_refines_witness:
  "\<exists>t'. hash_add AArch64 small_table 0x1004 7 = Ok (t', True) \<and> hash_view t' 0x1004 = Some 7"
proof -
  have "key_at small_table (nat (GET_INDEX AArch64 small_table 0x1004)) = 0"
      "GET_INDEX AArch64 small_table 0x1004 < ht_size small_table - 1"
    by code_simp+
  then have "\<not> probed small_table 0x1004 (GET_INDEX AArch64 small_table 0x1004) (ht_size small_table - 1)"
    by blast
  moreover have nz: "(0x1004 :: uintptr) \<noteq> 0" by simp
  ultimately obtain t' where "hash_add AArch64 small_table 0x1004 7 = Ok (t', True)"
      "hash_view t' = (hash_view small_table)(0x1004 \<mapsto> 7)"
    using hash_add_refines [OF small_table_inv nz, of AArch64 7] by (simp only: if_False) blast
  then show ?thesis by simp
qed

text \<open>Initialising (and so flushing) the table gives a well-formed table with no entries,
  whatever the array held before.\<close>

theorem hash_init_empty:
  assumes "CODE_CACHE_HASH_OVERP \<le> sz" "sz < 2 ^ 31" "sz \<le> int (length (ht_entries t))"
  shows "\<exists>t'. hash_init t sz = Ok t' \<and> hash_inv a t' \<and> hash_view t' = Map.empty"
  using hash_init_inv [OF assms] by blast

theorem hash_init_empty_witness:
  "\<exists>t'. hash_init small_table 17 = Ok t' \<and> hash_inv RISCV t' \<and> hash_view t' = Map.empty"
  by (rule hash_init_empty) (simp_all add: small_table_def CODE_CACHE_HASH_OVERP_def)

end
