(* ===== verification/Interval_Map.thy ===== *)
theory Interval_Map
  imports Mambo_Prelude
begin

text \<open>
  The interval map of \<open>common.c\<close>, which records the executable mappings of the application:
  a bounded array of half-open address ranges, each with an optional file descriptor. The array
  keeps its full \<open>mem_size\<close> length, so that reads and writes of slots past \<open>entry_count\<close> are
  visible in the model. The mutex calls and \<open>dup\<close> are operating-system services: their results
  are parameters (\<open>os_lock\<close>, \<open>os_unlock\<close>, \<open>os_dup\<close>); descriptors handed to \<open>close\<close> are logged.
\<close>

section \<open>Data\<close>

record interval_map_entry =
  im_start :: uintptr
  im_end :: uintptr
  im_fd :: int

record interval_map =
  mem_size :: int
  entry_count :: int
  im_entries :: "interval_map_entry list"
  im_closed :: "int list"

record os_calls =
  os_lock :: int
  os_unlock :: int
  os_dup :: "int \<Rightarrow> int"

section \<open>Operations\<close>

definition interval_map_delete_entry :: "interval_map \<Rightarrow> int \<Rightarrow> (int \<times> interval_map) res" where
  "interval_map_delete_entry imap index =
     (if index < 0 \<or> index \<ge> entry_count imap then Ok (-1, imap)
      else res_bind (arr_get (im_entries imap) index) (\<lambda>e.
        let imap = (if im_fd e \<ge> 0 then imap\<lparr>im_closed := im_fd e # im_closed imap\<rparr> else imap) in
        res_bind
          (if entry_count imap \<ge> 2 then
             res_bind (arr_get (im_entries imap) (entry_count imap - 1)) (\<lambda>l.
             res_bind (arr_set (im_entries imap) index l) (\<lambda>es. Ok (imap\<lparr>im_entries := es\<rparr>)))
           else Ok imap) (\<lambda>imap.
        Ok (0, imap\<lparr>entry_count := entry_count imap - 1\<rparr>))))"

definition interval_map_add_entry ::
  "interval_map \<Rightarrow> uintptr \<Rightarrow> uintptr \<Rightarrow> int \<Rightarrow> (int \<times> interval_map) res" where
  "interval_map_add_entry imap s e fd =
     (if entry_count imap \<ge> mem_size imap \<or> s \<ge> e then Ok (-1, imap)
      else res_bind (arr_set (im_entries imap) (entry_count imap)
             \<lparr>im_start = s, im_end = e, im_fd = fd\<rparr>) (\<lambda>es.
        Ok (0, imap\<lparr>entry_count := entry_count imap + 1, im_entries := es\<rparr>)))"

text \<open>\<open>malloc\<close> and \<open>pthread_mutex_init\<close> are parameters: the block obtained, or \<open>None\<close>.\<close>

definition EBUSY :: int where "EBUSY = 16"

definition interval_map_init ::
  "interval_map_entry list option \<Rightarrow> int \<Rightarrow> interval_map \<Rightarrow> int \<Rightarrow> (int \<times> interval_map) res" where
  "interval_map_init block mutex_init imap sz =
     res_bind (res_assert (sz > 0)) (\<lambda>_.
       case block of
         None \<Rightarrow> Ok (-1, imap)
       | Some entries \<Rightarrow>
           (let imap = imap\<lparr>mem_size := sz, entry_count := 0, im_entries := entries\<rparr> in
            if mutex_init \<noteq> 0 \<and> mutex_init \<noteq> EBUSY then Ok (-1, imap) else Ok (0, imap)))"

definition overlaps :: "uintptr \<Rightarrow> uintptr \<Rightarrow> interval_map_entry \<Rightarrow> bool" where
  "overlaps s e x \<longleftrightarrow> s < im_end x \<and> e > im_start x"

text \<open>
  The merging loop of \<open>interval_map_add\<close>, for the indices below \<open>n\<close>, downwards. The last two
  assignments of the loop body widen the entry at \<open>overlap_ind\<close>, wherever that index now points.
\<close>

definition widen_entry :: "interval_map \<Rightarrow> int \<Rightarrow> uintptr \<Rightarrow> uintptr \<Rightarrow> interval_map res" where
  "widen_entry imap ind s e =
     res_bind (arr_get (im_entries imap) ind) (\<lambda>x.
     res_bind (arr_set (im_entries imap) ind
        (x\<lparr>im_start := min (im_start x) s, im_end := max (im_end x) e\<rparr>)) (\<lambda>es.
     Ok (imap\<lparr>im_entries := es\<rparr>)))"

fun interval_map_add_loop ::
  "nat \<Rightarrow> interval_map \<Rightarrow> uintptr \<Rightarrow> uintptr \<Rightarrow> int \<Rightarrow> int \<Rightarrow>
     (interval_map \<times> uintptr \<times> uintptr \<times> int) res" where
  "interval_map_add_loop 0 imap s e fd overlap_ind = Ok (imap, s, e, overlap_ind)"
| "interval_map_add_loop (Suc i) imap s e fd overlap_ind =
     res_bind (arr_get (im_entries imap) (int i)) (\<lambda>x.
       if overlaps s e x then
         res_bind (res_assert (fd < 0 \<and> im_fd x < 0)) (\<lambda>_.
         if overlap_ind = -1 then
           res_bind (widen_entry imap (int i) s e) (\<lambda>imap.
             interval_map_add_loop i imap s e fd (int i))
         else
           (let s = min (im_start x) s; e = max (im_end x) e in
            res_bind (interval_map_delete_entry imap (int i)) (\<lambda>(ret, imap).
            res_bind (res_assert (ret = 0)) (\<lambda>_.
            res_bind (widen_entry imap overlap_ind s e) (\<lambda>imap.
              interval_map_add_loop i imap s e fd overlap_ind)))))
       else interval_map_add_loop i imap s e fd overlap_ind)"

definition interval_map_add ::
  "os_calls \<Rightarrow> interval_map \<Rightarrow> uintptr \<Rightarrow> uintptr \<Rightarrow> int \<Rightarrow> (int \<times> interval_map) res" where
  "interval_map_add os imap s e fd =
     (if s \<ge> e then Ok (-1, imap)
      else
        res_bind (if fd \<ge> 0
                  then res_bind (res_assert (os_dup os fd \<ge> 0)) (\<lambda>_. Ok (os_dup os fd))
                  else Ok fd) (\<lambda>fd.
        if os_lock os \<noteq> 0 then Ok (-1, imap)
        else
          res_bind (interval_map_add_loop (nat (entry_count imap)) imap s e fd (-1))
            (\<lambda>(imap, s, e, overlap_ind).
          res_bind
            (if overlap_ind = -1 then
               res_bind (interval_map_add_entry imap s e fd) (\<lambda>(ret, imap).
               res_bind (res_assert (ret = 0)) (\<lambda>_. Ok imap))
             else Ok imap) (\<lambda>imap.
          if os_unlock os \<noteq> 0 then Ok (-1, imap) else Ok (0, imap)))))"

fun interval_map_search_loop :: "nat \<Rightarrow> interval_map \<Rightarrow> uintptr \<Rightarrow> uintptr \<Rightarrow> int \<Rightarrow> int res" where
  "interval_map_search_loop 0 imap s e status = Ok status"
| "interval_map_search_loop (Suc i) imap s e status =
     res_bind (arr_get (im_entries imap) (int i)) (\<lambda>x.
       interval_map_search_loop i imap s e (if overlaps s e x then status + 1 else status))"

definition interval_map_search :: "os_calls \<Rightarrow> interval_map \<Rightarrow> uintptr \<Rightarrow> uintptr \<Rightarrow> int res" where
  "interval_map_search os imap s e =
     (if s \<ge> e then Ok (-1)
      else if os_lock os \<noteq> 0 then Ok (-1)
      else res_bind (interval_map_search_loop (nat (entry_count imap)) imap s e 0) (\<lambda>status.
        if os_unlock os \<noteq> 0 then Ok (-1) else Ok status))"

text \<open>\<open>entry\<close> is the caller's buffer: \<open>None\<close> for a null pointer, else its previous contents.\<close>

fun interval_map_search_by_addr_loop ::
  "nat \<Rightarrow> interval_map \<Rightarrow> uintptr \<Rightarrow> interval_map_entry \<Rightarrow> (bool \<times> interval_map_entry) res" where
  "interval_map_search_by_addr_loop 0 imap addr buf = Ok (False, buf)"
| "interval_map_search_by_addr_loop (Suc i) imap addr buf =
     res_bind (arr_get (im_entries imap) (int i)) (\<lambda>x.
       if addr \<ge> im_start x \<and> addr < im_end x then Ok (True, x)
       else interval_map_search_by_addr_loop i imap addr buf)"

definition interval_map_search_by_addr ::
  "os_calls \<Rightarrow> interval_map \<Rightarrow> uintptr \<Rightarrow> interval_map_entry option \<Rightarrow>
     (int \<times> interval_map_entry option) res" where
  "interval_map_search_by_addr os imap addr entry =
     (case entry of
        None \<Rightarrow> Ok (-1, None)
      | Some buf \<Rightarrow>
          if os_lock os \<noteq> 0 then Ok (-1, Some buf)
          else
            res_bind (interval_map_search_by_addr_loop (nat (entry_count imap)) imap addr buf)
              (\<lambda>(found, buf).
            res_bind (res_assert (os_unlock os = 0)) (\<lambda>_.
            Ok (if found then 1 else 0, Some buf))))"

fun interval_map_delete_loop ::
  "os_calls \<Rightarrow> nat \<Rightarrow> interval_map \<Rightarrow> uintptr \<Rightarrow> uintptr \<Rightarrow> int \<Rightarrow> (interval_map \<times> int) res" where
  "interval_map_delete_loop os 0 imap s e status = Ok (imap, status)"
| "interval_map_delete_loop os (Suc i) imap s e status =
     res_bind (arr_get (im_entries imap) (int i)) (\<lambda>x.
       if overlaps s e x then
         res_bind
           (if s \<le> im_start x \<and> e \<ge> im_end x then
              res_bind (interval_map_delete_entry imap (int i)) (\<lambda>(ret, imap).
              res_bind (res_assert (ret = 0)) (\<lambda>_. Ok imap))
            else if s = im_start x \<and> e < im_end x then
              res_bind (arr_set (im_entries imap) (int i) (x\<lparr>im_start := e\<rparr>)) (\<lambda>es.
              Ok (imap\<lparr>im_entries := es\<rparr>))
            else if e = im_end x \<and> s > im_start x then
              res_bind (arr_set (im_entries imap) (int i) (x\<lparr>im_end := s\<rparr>)) (\<lambda>es.
              Ok (imap\<lparr>im_entries := es\<rparr>))
            else
              res_bind (arr_set (im_entries imap) (int i) (x\<lparr>im_end := s\<rparr>)) (\<lambda>es.
              res_bind (if im_fd x \<ge> 0
                        then res_bind (res_assert (os_dup os (im_fd x) \<ge> 0))
                               (\<lambda>_. Ok (os_dup os (im_fd x)))
                        else Ok (im_fd x)) (\<lambda>fd.
              res_bind (interval_map_add_entry (imap\<lparr>im_entries := es\<rparr>) e (im_end x) fd)
                (\<lambda>(ret, imap).
              res_bind (res_assert (ret = 0)) (\<lambda>_. Ok imap)))))
         (\<lambda>imap. interval_map_delete_loop os i imap s e (status + 1))
       else interval_map_delete_loop os i imap s e status)"

definition interval_map_delete ::
  "os_calls \<Rightarrow> interval_map \<Rightarrow> uintptr \<Rightarrow> uintptr \<Rightarrow> (int \<times> interval_map) res" where
  "interval_map_delete os imap s e =
     (if s \<ge> e then Ok (-1, imap)
      else if os_lock os \<noteq> 0 then Ok (-1, imap)
      else
        res_bind (interval_map_delete_loop os (nat (entry_count imap)) imap s e 0)
          (\<lambda>(imap, status).
        if os_unlock os \<noteq> 0 then Ok (-1, imap) else Ok (status, imap)))"

section \<open>Well-formedness and the covered addresses\<close>

definition ival :: "interval_map_entry \<Rightarrow> uintptr set" where
  "ival x = {im_start x ..< im_end x}"

definition im_live :: "interval_map \<Rightarrow> interval_map_entry list" where
  "im_live m = take (nat (entry_count m)) (im_entries m)"

definition im_cov :: "interval_map \<Rightarrow> uintptr set" where
  "im_cov m = (\<Union>x \<in> set (im_live m). ival x)"

definition disjoint_list :: "interval_map_entry list \<Rightarrow> bool" where
  "disjoint_list xs \<longleftrightarrow> (\<forall>i < length xs. \<forall>j < length xs. i \<noteq> j \<longrightarrow>
     im_end (xs ! i) \<le> im_start (xs ! j) \<or> im_end (xs ! j) \<le> im_start (xs ! i))"

definition im_bounds :: "interval_map \<Rightarrow> bool" where
  "im_bounds m \<longleftrightarrow> 0 \<le> entry_count m \<and> entry_count m \<le> mem_size m \<and>
     mem_size m = int (length (im_entries m))"

definition im_wf :: "interval_map \<Rightarrow> bool" where
  "im_wf m \<longleftrightarrow> im_bounds m \<and> (\<forall>x \<in> set (im_live m). im_start x < im_end x) \<and>
     disjoint_list (im_live m)"

section \<open>Intervals\<close>

lemma overlaps_iff:
  "s < e \<Longrightarrow> im_start x < im_end x \<Longrightarrow> overlaps s e x \<longleftrightarrow> {s ..< e} \<inter> ival x \<noteq> {}"
  unfolding overlaps_def ival_def
  by (auto simp: disjoint_iff intro: exI [of _ "max s (im_start x)"])

lemma ival_hull:
  "s < e \<Longrightarrow> im_start x < im_end x \<Longrightarrow> overlaps s e x \<Longrightarrow>
    {min (im_start x) s ..< max (im_end x) e} = ival x \<union> {s ..< e}"
  unfolding overlaps_def ival_def by (auto simp: min_def max_def)

lemma disjoint_ivals:
  "im_start x < im_end x \<Longrightarrow> im_start y < im_end y \<Longrightarrow>
    (im_end x \<le> im_start y \<or> im_end y \<le> im_start x) \<longleftrightarrow> ival x \<inter> ival y = {}"
  using overlaps_iff [of "im_start x" "im_end x" y] by (auto simp: overlaps_def ival_def)

section \<open>The live entries after an update\<close>

lemma im_live_nth: "im_bounds m \<Longrightarrow> i < nat (entry_count m) \<Longrightarrow> im_live m ! i = im_entries m ! i"
  by (simp add: im_live_def)

lemma length_im_live: "im_bounds m \<Longrightarrow> length (im_live m) = nat (entry_count m)"
  by (simp add: im_live_def im_bounds_def nat_le_iff)

lemma im_get:
  "im_bounds m \<Longrightarrow> i < nat (entry_count m) \<Longrightarrow> arr_get (im_entries m) (int i) = Ok (im_live m ! i)"
  by (auto simp: im_live_nth im_bounds_def)

lemma im_set:
  assumes "im_bounds m" "i < nat (entry_count m)"
  shows "arr_set (im_entries m) (int i) x = Ok ((im_entries m)[i := x])"
    "im_bounds (m\<lparr>im_entries := (im_entries m)[i := x]\<rparr>)"
    "im_live (m\<lparr>im_entries := (im_entries m)[i := x]\<rparr>) = (im_live m)[i := x]"
  using assms by (auto simp: im_bounds_def im_live_def take_update_swap)

lemma delete_entry_live:
  assumes "im_bounds m" "i < nat (entry_count m)"
  obtains m' where "interval_map_delete_entry m (int i) = Ok (0, m')" "im_bounds m'"
    "entry_count m' = entry_count m - 1" "mem_size m' = mem_size m"
    "im_live m' = butlast ((im_live m)[i := last (im_live m)])"
proof -
  let ?c = "if im_fd (im_live m ! i) \<ge> 0 then im_fd (im_live m ! i) # im_closed m else im_closed m"
  let ?es = "if entry_count m \<ge> 2 then (im_entries m)[i := im_entries m ! (nat (entry_count m) - 1)]
    else im_entries m"
  let ?m = "m\<lparr>im_closed := ?c, im_entries := ?es, entry_count := entry_count m - 1\<rparr>"
  have n: "0 < entry_count m" "nat (entry_count m) \<le> length (im_entries m)"
    using assms by (auto simp: im_bounds_def)
  have "interval_map_delete_entry m (int i) = Ok (0, ?m)"
    using assms n im_get [OF assms]
    by (auto simp: interval_map_delete_entry_def Let_def im_bounds_def nat_diff_distrib')
  moreover have "im_bounds ?m"
    using assms n by (auto simp: im_bounds_def)
  moreover have "im_live ?m = butlast ((im_live m)[i := last (im_live m)])"
  proof (cases "entry_count m \<ge> 2")
    case True
    then have "last (im_live m) = im_entries m ! (nat (entry_count m) - 1)"
      using n by (subst last_conv_nth) (auto simp: im_live_def min_def)
    with True n show ?thesis
      by (simp add: im_live_def take_update_swap butlast_conv_take min_def nat_diff_distrib' take_take)
  next
    case False
    with n have "entry_count m = 1" by simp
    with n show ?thesis by (simp add: im_live_def butlast_conv_take min_def)
  qed
  ultimately show ?thesis by (intro that [of ?m]) simp_all
qed

lemma add_entry_live:
  assumes "im_bounds m" "entry_count m < mem_size m" "s < e"
  obtains m' where "interval_map_add_entry m s e fd = Ok (0, m')" "im_bounds m'"
    "entry_count m' = entry_count m + 1" "mem_size m' = mem_size m"
    "im_live m' = im_live m @ [\<lparr>im_start = s, im_end = e, im_fd = fd\<rparr>]"
proof -
  let ?x = "\<lparr>im_start = s, im_end = e, im_fd = fd\<rparr>"
  let ?m = "m\<lparr>entry_count := entry_count m + 1, im_entries := (im_entries m)[nat (entry_count m) := ?x]\<rparr>"
  have "interval_map_add_entry m s e fd = Ok (0, ?m)"
    using assms by (simp add: interval_map_add_entry_def im_bounds_def)
  moreover have "im_live ?m = im_live m @ [?x]"
  proof -
    have "nat (entry_count m + 1) = Suc (nat (entry_count m))" "nat (entry_count m) < length (im_entries m)"
      using assms by (auto simp: im_bounds_def)
    then show ?thesis
      by (simp add: im_live_def take_Suc_conv_app_nth)
  qed
  ultimately show ?thesis
    using assms by (intro that [of ?m]) (simp_all add: im_bounds_def)
qed

section \<open>Searching\<close>

lemma search_loop_count:
  "im_bounds m \<Longrightarrow> n \<le> nat (entry_count m) \<Longrightarrow>
    interval_map_search_loop n m s e st = Ok (st + int (length (filter (overlaps s e) (take n (im_live m)))))"
proof (induction n arbitrary: st)
  case 0
  then show ?case by simp
next
  case (Suc n)
  then have "take (Suc n) (im_live m) = take n (im_live m) @ [im_live m ! n]"
    by (intro take_Suc_conv_app_nth) (simp add: length_im_live)
  with Suc show ?case
    by (simp add: im_get)
qed

lemma search_by_addr_loop_spec:
  "im_bounds m \<Longrightarrow> n \<le> nat (entry_count m) \<Longrightarrow>
    (\<exists>x \<in> set (take n (im_live m)). addr \<in> ival x \<and> interval_map_search_by_addr_loop n m addr buf = Ok (True, x)) \<or>
    (\<forall>x \<in> set (take n (im_live m)). addr \<notin> ival x) \<and> interval_map_search_by_addr_loop n m addr buf = Ok (False, buf)"
proof (induction n)
  case 0
  then show ?case by simp
next
  case (Suc n)
  then have "take (Suc n) (im_live m) = take n (im_live m) @ [im_live m ! n]"
    by (intro take_Suc_conv_app_nth) (simp add: length_im_live)
  with Suc show ?case
    by (auto simp: im_get ival_def)
qed

lemma im_live_take [simp]: "take (nat (entry_count m)) (im_live m) = im_live m"
  by (simp add: im_live_def)

section \<open>Deleting\<close>

text \<open>The effect of each kind of update on the covered addresses and on well-formedness.\<close>

lemma disjoint_list_nth:
  "im_wf m \<Longrightarrow> i < length (im_live m) \<Longrightarrow> j < length (im_live m) \<Longrightarrow> i \<noteq> j \<Longrightarrow>
    ival (im_live m ! i) \<inter> ival (im_live m ! j) = {}"
  by (simp add: im_wf_def disjoint_list_def disjoint_ivals [symmetric])

lemma nonempty_nth: "im_wf m \<Longrightarrow> i < length (im_live m) \<Longrightarrow> im_start (im_live m ! i) < im_end (im_live m ! i)"
  by (simp add: im_wf_def)

lemma im_wf_bounds: "im_wf m \<Longrightarrow> im_bounds m"
  by (simp add: im_wf_def)

lemma im_wfI:
  assumes "im_bounds m" "\<And>i. i < length (im_live m) \<Longrightarrow> im_start (im_live m ! i) < im_end (im_live m ! i)"
    "\<And>i j. i < length (im_live m) \<Longrightarrow> j < length (im_live m) \<Longrightarrow> i \<noteq> j \<Longrightarrow>
       ival (im_live m ! i) \<inter> ival (im_live m ! j) = {}"
  shows "im_wf m"
  using assms by (auto simp: im_wf_def disjoint_list_def disjoint_ivals all_set_conv_all_nth)

lemma im_cov_nth: "im_cov m = (\<Union>i < length (im_live m). ival (im_live m ! i))"
  unfolding im_cov_def by (auto simp: set_conv_nth)

lemma replace_nth:
  assumes wf: "im_wf m" and i: "i < length (im_live m)" and b: "im_bounds m'"
    and live: "im_live m' = (im_live m)[i := x]" and x: "im_start x < im_end x" "ival x \<subseteq> ival (im_live m ! i)"
  shows "im_wf m'" "im_cov m' = im_cov m - (ival (im_live m ! i) - ival x)"
proof -
  note disj = disjoint_list_nth [OF wf]
  show "im_wf m'"
  proof (rule im_wfI [OF b])
    fix j assume "j < length (im_live m')"
    then show "im_start (im_live m' ! j) < im_end (im_live m' ! j)"
      using x nonempty_nth [OF wf, of j] by (cases "j = i") (simp_all add: live)
  next
    fix j l assume jl: "j < length (im_live m')" "l < length (im_live m')" "j \<noteq> l"
    then have "ival (im_live m' ! j) \<subseteq> ival (im_live m ! j)" "ival (im_live m' ! l) \<subseteq> ival (im_live m ! l)"
      using x(2) i by (auto simp: live nth_list_update)
    with disj [of j l] jl show "ival (im_live m' ! j) \<inter> ival (im_live m' ! l) = {}"
      by (auto simp: live)
  qed
  have "ival (im_live m' ! j) = ival (im_live m ! j) - (ival (im_live m ! i) - ival x)"
    if "j < length (im_live m)" for j
    using that disj [OF that i] x(2) i by (cases "j = i") (auto simp: live)
  then show "im_cov m' = im_cov m - (ival (im_live m ! i) - ival x)"
    unfolding im_cov_nth live by auto
qed

text \<open>
  Deleting slot \<open>i\<close> of \<open>n\<close> moves the last slot there: the position from which each
  remaining slot comes.
\<close>

definition moved :: "nat \<Rightarrow> nat \<Rightarrow> nat \<Rightarrow> nat" where
  "moved i n j = (if j = i then n - 1 else j)"

lemma moved_range: "i < n \<Longrightarrow> j < n - 1 \<Longrightarrow> moved i n j < n \<and> moved i n j \<noteq> i"
  by (auto simp: moved_def)

lemma moved_inj: "j < n - 1 \<Longrightarrow> l < n - 1 \<Longrightarrow> moved i n j = moved i n l \<longleftrightarrow> j = l"
  by (auto simp: moved_def)

lemma moved_image: "i < n \<Longrightarrow> moved i n ` {..< n - 1} = {..< n} - {i}"
  by (auto simp: moved_def image_iff)

lemma moved_nth:
  assumes "i < length xs" "j < length xs - 1"
  shows "butlast (xs[i := last xs]) ! j = xs ! moved i (length xs) j"
  using assms last_conv_nth [of xs]
  by (cases "xs = []") (auto simp: moved_def nth_butlast nth_list_update)

lemma remove_nth:
  assumes wf: "im_wf m" and i: "i < length (im_live m)" and b: "im_bounds m'"
    and live: "im_live m' = butlast ((im_live m)[i := last (im_live m)])"
  shows "im_wf m'" "im_cov m' = im_cov m - ival (im_live m ! i)"
proof -
  note disj = disjoint_list_nth [OF wf]
  let ?n = "length (im_live m)"
  have len: "length (im_live m') = ?n - 1" by (simp add: live)
  have nth: "im_live m' ! j = im_live m ! moved i ?n j" if "j < ?n - 1" for j
    using moved_nth [OF i that] by (simp add: live)
  show "im_wf m'"
    using moved_range [OF i] moved_inj [of _ ?n _ i] disj nonempty_nth [OF wf]
    by (intro im_wfI [OF b]) (simp_all add: len nth)
  have "im_cov m' = (\<Union>l \<in> moved i ?n ` {..< ?n - 1}. ival (im_live m ! l))"
    unfolding im_cov_nth len by (simp add: nth)
  also have "\<dots> = im_cov m - ival (im_live m ! i)"
    unfolding im_cov_nth moved_image [OF i] using disj [OF _ i] by auto
  finally show "im_cov m' = im_cov m - ival (im_live m ! i)" .
qed

lemma append_entry:
  assumes wf: "im_wf m" and b: "im_bounds m'" and live: "im_live m' = im_live m @ [x]"
    and x: "im_start x < im_end x" "ival x \<inter> im_cov m = {}"
  shows "im_wf m'" "im_cov m' = im_cov m \<union> ival x"
proof -
  let ?n = "length (im_live m)"
  have new: "ival (im_live m ! j) \<inter> ival x = {}" "ival x \<inter> ival (im_live m ! j) = {}" if "j < ?n" for j
    using that x(2) unfolding im_cov_nth by auto
  have nth: "im_live m' ! j = (if j < ?n then im_live m ! j else x)" if "j < Suc ?n" for j
    using that by (auto simp: live nth_append)
  show "im_wf m'"
  proof (rule im_wfI [OF b])
    fix j l assume jl: "j < length (im_live m')" "l < length (im_live m')" "j \<noteq> l"
    then have "j < Suc ?n" "l < Suc ?n" by (simp_all add: live)
    then show "ival (im_live m' ! j) \<inter> ival (im_live m' ! l) = {}"
      using jl(3) disjoint_list_nth [OF wf, of j l] new by (simp add: nth)
  qed (use nonempty_nth [OF wf] x(1) in \<open>simp add: live nth_append\<close>)
  show "im_cov m' = im_cov m \<union> ival x"
    by (auto simp: im_cov_def live)
qed

text \<open>
  \<open>interval_map_delete\<close> distinguishes four cases; its last one is meant for a range strictly
  inside the entry, so an entry is \<^emph>\<open>clean\<close> for a deletion when the range covers it or lies
  within it. The split needs a free slot.
\<close>

definition clean :: "uintptr \<Rightarrow> uintptr \<Rightarrow> interval_map_entry \<Rightarrow> bool" where
  "clean s e x \<longleftrightarrow> (overlaps s e x \<longrightarrow>
     (s \<le> im_start x \<and> im_end x \<le> e) \<or> (im_start x \<le> s \<and> e \<le> im_end x))"

definition splits :: "uintptr \<Rightarrow> uintptr \<Rightarrow> interval_map_entry \<Rightarrow> bool" where
  "splits s e x \<longleftrightarrow> im_start x < s \<and> e < im_end x"

lemma delete_covered_step:
  assumes wf: "im_wf m" and i: "i < nat (entry_count m)"
    and all: "s \<le> im_start (im_live m ! i)" "im_end (im_live m ! i) \<le> e"
  obtains m' where "interval_map_delete_entry m (int i) = Ok (0, m')" "im_wf m'"
    "im_cov m' = im_cov m - (ival (im_live m ! i) \<inter> {s ..< e})"
    "entry_count m' = entry_count m - 1" "mem_size m' = mem_size m"
    "take i (im_live m') = take i (im_live m)"
proof -
  have len: "i < length (im_live m)" using i im_wf_bounds [OF wf] by (simp add: length_im_live)
  obtain m' where m': "interval_map_delete_entry m (int i) = Ok (0, m')" "im_bounds m'"
    "entry_count m' = entry_count m - 1" "mem_size m' = mem_size m"
    "im_live m' = butlast ((im_live m)[i := last (im_live m)])"
    using delete_entry_live [OF im_wf_bounds [OF wf] i] by blast
  have "ival (im_live m ! i) \<inter> {s ..< e} = ival (im_live m ! i)"
    using all by (auto simp: ival_def)
  moreover have "take i (im_live m') = take i (im_live m)"
    using len by (auto simp: m'(5) butlast_conv_take take_update_cancel min_def)
  ultimately show thesis
    using m' remove_nth [OF wf len m'(2,5)] by (intro that [of m']) simp_all
qed

lemma delete_trim_step:
  assumes wf: "im_wf m" and i: "i < nat (entry_count m)"
    and x: "im_start x < im_end x" "ival (im_live m ! i) - ival x = ival (im_live m ! i) \<inter> {s ..< e}"
      "ival x \<subseteq> ival (im_live m ! i)"
    and m': "m' = m\<lparr>im_entries := (im_entries m)[i := x]\<rparr>"
  shows "arr_set (im_entries m) (int i) x = Ok ((im_entries m)[i := x])" "im_wf m'"
    "im_cov m' = im_cov m - (ival (im_live m ! i) \<inter> {s ..< e})"
    "entry_count m' = entry_count m" "mem_size m' = mem_size m"
    "take i (im_live m') = take i (im_live m)"
proof -
  note b = im_wf_bounds [OF wf]
  have len: "i < length (im_live m)" using i b by (simp add: length_im_live)
  note st = im_set [OF b i, of x]
  show "im_wf m'" "im_cov m' = im_cov m - (ival (im_live m ! i) \<inter> {s ..< e})"
    using replace_nth [OF wf len st(2,3) x(1,3)] x(2) by (simp_all add: m')
qed (use im_set [OF im_wf_bounds [OF wf] i, of x] in \<open>simp_all add: m' take_update_cancel\<close>)

lemma delete_split_step:
  assumes wf: "im_wf m" and i: "i < nat (entry_count m)" and se: "s < e"
    and inside: "im_start (im_live m ! i) < s" "e < im_end (im_live m ! i)"
    and room: "entry_count m < mem_size m"
  obtains m' where
    "arr_set (im_entries m) (int i) ((im_live m ! i)\<lparr>im_end := s\<rparr>) = Ok ((im_entries m)[i := (im_live m ! i)\<lparr>im_end := s\<rparr>])"
    "interval_map_add_entry (m\<lparr>im_entries := (im_entries m)[i := (im_live m ! i)\<lparr>im_end := s\<rparr>]\<rparr>)
       e (im_end (im_live m ! i)) fd = Ok (0, m')"
    "im_wf m'" "im_cov m' = im_cov m - (ival (im_live m ! i) \<inter> {s ..< e})"
    "entry_count m' = entry_count m + 1" "take i (im_live m') = take i (im_live m)"
proof -
  let ?x = "im_live m ! i" and ?y = "(im_live m ! i)\<lparr>im_end := s\<rparr>"
  let ?m = "m\<lparr>im_entries := (im_entries m)[i := ?y]\<rparr>"
  let ?z = "\<lparr>im_start = e, im_end = im_end ?x, im_fd = fd\<rparr>"
  note b = im_wf_bounds [OF wf]
  have len: "i < length (im_live m)" using i b by (simp add: length_im_live)
  note st = im_set [OF b i, of ?y]
  have y: "im_start ?y < im_end ?y" "ival ?y \<subseteq> ival ?x" and diff: "ival ?x - ival ?y = {s ..< im_end ?x}"
    using inside se by (auto simp: ival_def)
  note rep = replace_nth [OF wf len st(2,3) y]
  obtain m' where m': "interval_map_add_entry ?m e (im_end ?x) fd = Ok (0, m')" "im_bounds m'"
    "entry_count m' = entry_count ?m + 1" "im_live m' = im_live ?m @ [?z]"
    using add_entry_live [OF st(2), of e "im_end ?x" fd] room inside(2) by auto
  have z: "im_start ?z < im_end ?z" "ival ?z \<inter> im_cov ?m = {}"
    using inside(2) se unfolding rep(2) diff by (auto simp: ival_def)
  note app = append_entry [OF rep(1) m'(2,4) z]
  have "ival ?x \<subseteq> im_cov m" using len unfolding im_cov_def by (auto intro: nth_mem)
  moreover have "{s ..< im_end ?x} = (ival ?x \<inter> {s ..< e}) \<union> ival ?z" "ival ?z \<subseteq> ival ?x"
    "ival ?z \<inter> {s ..< e} = {}"
    using inside se by (auto simp: ival_def)
  ultimately have "im_cov m' = im_cov m - (ival ?x \<inter> {s ..< e})"
    unfolding app(2) rep(2) diff by blast
  then show thesis
    using st app(1) m' len by (intro that [of m']) (simp_all add: take_update_cancel)
qed

lemma splits_alone:
  assumes "im_wf m" "i < length (im_live m)" "splits s e (im_live m ! i)" "s < e"
    "x \<in> set (take i (im_live m))"
  shows "\<not> splits s e x"
proof
  assume "splits s e x"
  obtain j where j: "j < i" "x = im_live m ! j"
    using assms(2,5) by (auto simp: in_set_conv_nth)
  have "s \<in> ival (im_live m ! j) \<inter> ival (im_live m ! i)"
    using \<open>splits s e x\<close> assms(3,4) j(2) by (auto simp: splits_def ival_def)
  with disjoint_list_nth [OF assms(1), of j i] assms(2) j(1) show False by auto
qed

text \<open>What a deletion needs of the entries it meets.\<close>

definition deletable :: "os_calls \<Rightarrow> interval_map \<Rightarrow> uintptr \<Rightarrow> uintptr \<Rightarrow> interval_map_entry \<Rightarrow> bool" where
  "deletable os m s e x \<longleftrightarrow> clean s e x \<and> (splits s e x \<longrightarrow>
     entry_count m < mem_size m \<and> (im_fd x \<ge> 0 \<longrightarrow> os_dup os (im_fd x) \<ge> 0))"

lemma delete_loop_step:
  assumes wf: "im_wf m" and i: "i < nat (entry_count m)" and se: "s < e"
    and ov: "overlaps s e (im_live m ! i)" and del: "deletable os m s e (im_live m ! i)"
  obtains m' where "\<And>st. interval_map_delete_loop os (Suc i) m s e st = interval_map_delete_loop os i m' s e (st + 1)"
    "im_wf m'" "im_cov m' = im_cov m - (ival (im_live m ! i) \<inter> {s ..< e})"
    "i \<le> nat (entry_count m')" "take i (im_live m') = take i (im_live m)"
    "splits s e (im_live m ! i) \<or> (entry_count m' \<le> entry_count m \<and> mem_size m' = mem_size m)"
proof -
  let ?x = "im_live m ! i"
  have get: "arr_get (im_entries m) (int i) = Ok ?x" using im_get [OF im_wf_bounds [OF wf] i] .
  have ne: "im_start ?x < im_end ?x"
    using nonempty_nth [OF wf] i im_wf_bounds [OF wf] by (simp add: length_im_live)
  have cl: "clean s e ?x" using del by (simp add: deletable_def)
  consider (all) "s \<le> im_start ?x" "im_end ?x \<le> e"
    | (low) "s = im_start ?x" "e < im_end ?x"
    | (high) "e = im_end ?x" "im_start ?x < s"
    | (inside) "im_start ?x < s" "e < im_end ?x"
    using cl ov unfolding clean_def by fastforce
  then show thesis
  proof cases
    case all
    then show thesis
      by (rule delete_covered_step [OF wf i]) (use all get ov i in \<open>auto intro!: that\<close>)
  next
    case low
    have iv: "ival ?x - ival (?x\<lparr>im_start := e\<rparr>) = ival ?x \<inter> {s ..< e}" "ival (?x\<lparr>im_start := e\<rparr>) \<subseteq> ival ?x"
      using low se by (auto simp: ival_def)
    have "im_start (?x\<lparr>im_start := e\<rparr>) < im_end (?x\<lparr>im_start := e\<rparr>)" using low by simp
    note trim = delete_trim_step [OF wf i this iv refl]
    have step: "interval_map_delete_loop os (Suc i) m s e st = interval_map_delete_loop os i
        (m\<lparr>im_entries := (im_entries m)[i := ?x\<lparr>im_start := e\<rparr>]\<rparr>) s e (st + 1)" for st
      using low get ov trim(1) by auto
    show thesis by (rule that [OF step trim(2,3)]) (use i trim(4-6) in simp_all)
  next
    case high
    have iv: "ival ?x - ival (?x\<lparr>im_end := s\<rparr>) = ival ?x \<inter> {s ..< e}" "ival (?x\<lparr>im_end := s\<rparr>) \<subseteq> ival ?x"
      using high se by (auto simp: ival_def)
    have "im_start (?x\<lparr>im_end := s\<rparr>) < im_end (?x\<lparr>im_end := s\<rparr>)" using high by simp
    note trim = delete_trim_step [OF wf i this iv refl]
    have step: "interval_map_delete_loop os (Suc i) m s e st = interval_map_delete_loop os i
        (m\<lparr>im_entries := (im_entries m)[i := ?x\<lparr>im_end := s\<rparr>]\<rparr>) s e (st + 1)" for st
      using high get ov trim(1) by auto
    show thesis by (rule that [OF step trim(2,3)]) (use i trim(4-6) in simp_all)
  next
    case inside
    then have sp: "splits s e ?x" by (simp add: splits_def)
    let ?fd = "if im_fd ?x \<ge> 0 then os_dup os (im_fd ?x) else im_fd ?x"
    from inside show thesis
      by (rule delete_split_step [OF wf i se _ _ , of ?fd])
        (use inside sp del get ov i in \<open>auto simp: deletable_def intro!: that\<close>)
  qed
qed

lemma delete_loop_spec:
  "im_wf m \<Longrightarrow> n \<le> nat (entry_count m) \<Longrightarrow> s < e \<Longrightarrow> \<forall>x \<in> set (take n (im_live m)). deletable os m s e x \<Longrightarrow>
    \<exists>m'. interval_map_delete_loop os n m s e st =
        Ok (m', st + int (length (filter (overlaps s e) (take n (im_live m))))) \<and>
      im_wf m' \<and> im_cov m' = im_cov m - ((\<Union>x \<in> set (take n (im_live m)). ival x) \<inter> {s ..< e})"
proof (induction n arbitrary: m st)
  case 0
  then show ?case by simp
next
  case (Suc n)
  let ?x = "im_live m ! n"
  have len: "n < length (im_live m)" using Suc.prems by (simp add: length_im_live im_wf_bounds)
  then have snoc: "take (Suc n) (im_live m) = take n (im_live m) @ [?x]"
    by (rule take_Suc_conv_app_nth)
  show ?case
  proof (cases "overlaps s e ?x")
    case False
    then have "ival ?x \<inter> {s ..< e} = {}"
      using overlaps_iff [OF Suc.prems(3) nonempty_nth [OF Suc.prems(1) len]] by auto
    moreover have "interval_map_delete_loop os (Suc n) m s e st = interval_map_delete_loop os n m s e st"
      using False im_get [OF im_wf_bounds [OF Suc.prems(1)], of n] Suc.prems(2) by simp
    ultimately show ?thesis
      using Suc.IH [OF Suc.prems(1) _ Suc.prems(3), of st] Suc.prems(2,4) False
      by (simp add: snoc Int_Un_distrib2)
  next
    case True
    have "deletable os m s e ?x" using Suc.prems(4) by (simp add: snoc)
    then obtain m' where m': "\<And>st. interval_map_delete_loop os (Suc n) m s e st = interval_map_delete_loop os n m' s e (st + 1)"
      "im_wf m'" "im_cov m' = im_cov m - (ival ?x \<inter> {s ..< e})"
      "n \<le> nat (entry_count m')" "take n (im_live m') = take n (im_live m)"
      "splits s e ?x \<or> (entry_count m' \<le> entry_count m \<and> mem_size m' = mem_size m)"
      using delete_loop_step [OF Suc.prems(1) _ Suc.prems(3) True] Suc.prems(2) by (metis Suc_le_lessD)
    have "\<forall>x \<in> set (take n (im_live m')). deletable os m' s e x"
      using m'(5,6) Suc.prems(4) splits_alone [OF Suc.prems(1) len _ Suc.prems(3)]
      by (auto simp: snoc deletable_def)
    from Suc.IH [OF m'(2,4) Suc.prems(3) this, of "st + 1"] show ?thesis
      unfolding m'(1,3,5) using True by (auto simp: snoc)
  qed
qed

section \<open>Adding\<close>

text \<open>
  The state of the merging loop once an overlapping entry has been found at index \<open>k\<close>: every
  other entry is disjoint from the rest, and meets the (already widened) entry \<open>k\<close> only if the
  loop still has to visit it and will see it overlap the current range.
\<close>

definition merge_inv :: "nat \<Rightarrow> nat \<Rightarrow> uintptr \<Rightarrow> uintptr \<Rightarrow> interval_map \<Rightarrow> bool" where
  "merge_inv n k s e m \<longleftrightarrow> im_bounds m \<and> s < e \<and> n \<le> k \<and>
     k + length (filter (overlaps s e) (take n (im_live m))) < length (im_live m) \<and>
     (\<forall>j < length (im_live m). im_start (im_live m ! j) < im_end (im_live m ! j)) \<and>
     im_start (im_live m ! k) \<le> s \<and> e \<le> im_end (im_live m ! k) \<and>
     (\<forall>j < length (im_live m). \<forall>l < length (im_live m). j \<noteq> k \<longrightarrow> l \<noteq> k \<longrightarrow> j \<noteq> l \<longrightarrow>
        ival (im_live m ! j) \<inter> ival (im_live m ! l) = {}) \<and>
     (\<forall>j < length (im_live m). j \<noteq> k \<longrightarrow> ival (im_live m ! j) \<inter> ival (im_live m ! k) \<noteq> {} \<longrightarrow>
        j < n \<and> overlaps s e (im_live m ! j)) \<and>
     (\<forall>j < n. overlaps s e (im_live m ! j) \<longrightarrow> im_fd (im_live m ! j) < 0)"

lemma merge_inv_D:
  assumes "merge_inv n k s e m"
  shows "im_bounds m" "s < e" "n \<le> k" "k < length (im_live m)"
    "k + length (filter (overlaps s e) (take n (im_live m))) < length (im_live m)"
    "\<And>j. j < length (im_live m) \<Longrightarrow> im_start (im_live m ! j) < im_end (im_live m ! j)"
    "im_start (im_live m ! k) \<le> s" "e \<le> im_end (im_live m ! k)"
    "\<And>j l. j < length (im_live m) \<Longrightarrow> l < length (im_live m) \<Longrightarrow> j \<noteq> k \<Longrightarrow> l \<noteq> k \<Longrightarrow> j \<noteq> l \<Longrightarrow>
        ival (im_live m ! j) \<inter> ival (im_live m ! l) = {}"
    "\<And>j. j < length (im_live m) \<Longrightarrow> j \<noteq> k \<Longrightarrow> ival (im_live m ! j) \<inter> ival (im_live m ! k) \<noteq> {} \<Longrightarrow>
        j < n \<and> overlaps s e (im_live m ! j)"
    "\<And>j. j < n \<Longrightarrow> overlaps s e (im_live m ! j) \<Longrightarrow> im_fd (im_live m ! j) < 0"
  using assms by (simp_all add: merge_inv_def)

lemma widen_live:
  assumes "im_bounds m" "k < length (im_live m)"
  obtains m' where "widen_entry m (int k) s e = Ok m'" "im_bounds m'"
    "entry_count m' = entry_count m" "mem_size m' = mem_size m"
    "im_live m' = (im_live m)[k := (im_live m ! k)\<lparr>im_start := min (im_start (im_live m ! k)) s,
       im_end := max (im_end (im_live m ! k)) e\<rparr>]"
proof -
  have k: "k < nat (entry_count m)" using assms by (simp add: length_im_live)
  let ?y = "(im_live m ! k)\<lparr>im_start := min (im_start (im_live m ! k)) s, im_end := max (im_end (im_live m ! k)) e\<rparr>"
  show thesis
    using im_get [OF assms(1) k] im_set [OF assms(1) k, of ?y]
    by (intro that [of "m\<lparr>im_entries := (im_entries m)[k := ?y]\<rparr>"]) (simp_all add: widen_entry_def)
qed

lemma overlaps_grow:
  assumes "s < e" "im_start x < im_end x" "overlaps s e x" "im_start y < im_end y" "ival x \<inter> ival y = {}"
  shows "overlaps (min (im_start x) s) (max (im_end x) e) y \<longleftrightarrow> overlaps s e y"
proof -
  have "min (im_start x) s < max (im_end x) e"
    using assms(1) by (metis max.strict_coboundedI2 min.strict_coboundedI2)
  then show ?thesis
    using overlaps_iff [OF _ assms(4)] assms ival_hull [OF assms(1-3)] by (simp add: Int_Un_distrib2)
qed

text \<open>
  One merging step: the entry at \<open>n\<close> is swapped out and entry \<open>k\<close> is widened by it.
\<close>

definition merged :: "nat \<Rightarrow> nat \<Rightarrow> uintptr \<Rightarrow> uintptr \<Rightarrow> interval_map \<Rightarrow> interval_map \<Rightarrow> bool" where
  "merged n k s e m m' \<longleftrightarrow> im_bounds m' \<and> length (im_live m') = length (im_live m) - 1 \<and>
     (\<forall>j < length (im_live m) - 1. im_live m' ! j = (if j = k
       then (im_live m ! k)\<lparr>im_start := min (im_start (im_live m ! k)) (min (im_start (im_live m ! n)) s),
              im_end := max (im_end (im_live m ! k)) (max (im_end (im_live m ! n)) e)\<rparr>
       else im_live m ! moved n (length (im_live m)) j))"

lemma merged_facts:
  assumes inv: "merge_inv (Suc n) k s e m" and ov: "overlaps s e (im_live m ! n)" and mg: "merged n k s e m m'"
  shows "n < k" "n < length (im_live m)" "k < length (im_live m) - 1"
    "k + length (filter (overlaps s e) (take n (im_live m))) < length (im_live m) - 1"
    "ival (im_live m' ! k) = ival (im_live m ! k) \<union> ival (im_live m ! n)"
    "im_start (im_live m' ! k) < im_end (im_live m' ! k)"
    "im_start (im_live m' ! k) \<le> min (im_start (im_live m ! n)) s"
    "max (im_end (im_live m ! n)) e \<le> im_end (im_live m' ! k)"
    "\<And>j. j < length (im_live m) - 1 \<Longrightarrow> j \<noteq> k \<Longrightarrow> im_live m' ! j = im_live m ! moved n (length (im_live m)) j"
    "\<And>j. j < length (im_live m) - 1 \<Longrightarrow> j \<noteq> k \<Longrightarrow> moved n (length (im_live m)) j \<noteq> k"
proof -
  let ?x = "im_live m ! n" and ?h = "im_live m ! k" and ?N = "length (im_live m)"
  let ?s = "min (im_start ?x) s" and ?e = "max (im_end ?x) e"
  note D = merge_inv_D [OF inv]
  show n: "n < k" "n < ?N" using D(3,4) by auto
  have "take (Suc n) (im_live m) = take n (im_live m) @ [?x]"
    using n(2) by (rule take_Suc_conv_app_nth)
  with ov D(5) show r: "k + length (filter (overlaps s e) (take n (im_live m))) < ?N - 1"
    by simp
  then show k: "k < ?N - 1" by simp
  have h: "im_live m' ! k = ?h\<lparr>im_start := min (im_start ?h) ?s, im_end := max (im_end ?h) ?e\<rparr>"
    using mg k by (simp add: merged_def)
  have ovh: "overlaps (im_start ?h) (im_end ?h) ?x"
    using ov D(7,8) by (auto simp: overlaps_def)
  have "min (im_start ?h) ?s = min (im_start ?x) (im_start ?h)" "max (im_end ?h) ?e = max (im_end ?x) (im_end ?h)"
    using D(7,8) by (auto simp: min_def max_def)
  then show "ival (im_live m' ! k) = ival ?h \<union> ival ?x" "im_start (im_live m' ! k) < im_end (im_live m' ! k)"
    using h ival_hull [OF D(6) [OF D(4)] D(6) [OF n(2)] ovh] D(6) [OF D(4)]
    by (auto simp: ival_def min_less_iff_disj less_max_iff_disj)
  show "im_start (im_live m' ! k) \<le> ?s" "?e \<le> im_end (im_live m' ! k)"
    using h by (auto simp: min_le_iff_disj le_max_iff_disj)
  show "im_live m' ! j = im_live m ! moved n ?N j" "moved n ?N j \<noteq> k" if "j < ?N - 1" "j \<noteq> k" for j
    using mg that k by (auto simp: merged_def moved_def)
qed

lemma merge_step_inv:
  assumes inv: "merge_inv (Suc n) k s e m" and ov: "overlaps s e (im_live m ! n)" and mg: "merged n k s e m m'"
  shows "merge_inv n k (min (im_start (im_live m ! n)) s) (max (im_end (im_live m ! n)) e) m'"
proof -
  let ?x = "im_live m ! n" and ?h = "im_live m ! k" and ?N = "length (im_live m)"
  let ?s = "min (im_start ?x) s" and ?e = "max (im_end ?x) e"
  note D = merge_inv_D [OF inv] and F = merged_facts [OF inv ov mg]
  have f: "moved n ?N j < ?N" "moved n ?N j \<noteq> n" "moved n ?N j \<noteq> k" if "j < ?N - 1" "j \<noteq> k" for j
    using moved_range [OF F(2) that(1)] F(10) [OF that] by auto
  have fn: "moved n ?N j < n \<Longrightarrow> moved n ?N j = j" for j
    using F(1-3) by (auto simp: moved_def split: if_splits)
  have xd: "ival ?x \<inter> ival (im_live m ! j) = {}" if "j < ?N" "j \<noteq> k" "j \<noteq> n" for j
    using D(9) [OF F(2) that(1)] that F(1) by auto
  have grow: "overlaps ?s ?e (im_live m ! j) \<longleftrightarrow> overlaps s e (im_live m ! j)" if "j < ?N" "j \<noteq> k" "j \<noteq> n" for j
    by (rule overlaps_grow [OF D(2) D(6) [OF F(2)] ov D(6) [OF that(1)] xd [OF that]])
  have se: "?s < ?e" using D(2) by (metis max.strict_coboundedI2 min.strict_coboundedI2)
  have len: "length (im_live m') = ?N - 1" "im_bounds m'" using mg by (simp_all add: merged_def)
  have take_n: "take n (im_live m') = take n (im_live m)"
    using F(1-3,9) len by (intro nth_equalityI) (auto simp: moved_def)
  have same: "filter (overlaps ?s ?e) (take n (im_live m')) = filter (overlaps s e) (take n (im_live m))"
    unfolding take_n using grow F(1,2) by (intro filter_cong) (auto simp: in_set_conv_nth)
  show ?thesis
    unfolding merge_inv_def len
  proof (intro conjI allI impI se len)
    show "n \<le> k" using F(1) by simp
    show "k + length (filter (overlaps ?s ?e) (take n (im_live m'))) < ?N - 1"
      unfolding same by (rule F(4))
    show "im_start (im_live m' ! k) \<le> ?s" "?e \<le> im_end (im_live m' ! k)" by (fact F(7,8))+
  next
    fix j assume "j < ?N - 1"
    then show "im_start (im_live m' ! j) < im_end (im_live m' ! j)"
      using F(6,9) D(6) f by (cases "j = k") simp_all
  next
    fix j l assume "j < ?N - 1" "l < ?N - 1" "j \<noteq> k" "l \<noteq> k" "j \<noteq> l"
    then show "ival (im_live m' ! j) \<inter> ival (im_live m' ! l) = {}"
      using f F(9) D(9) moved_inj by simp
  next
    fix j assume j: "j < ?N - 1" "j \<noteq> k" and meet: "ival (im_live m' ! j) \<inter> ival (im_live m' ! k) \<noteq> {}"
    then have "ival (im_live m ! moved n ?N j) \<inter> ival ?h \<noteq> {}"
      using xd f [OF j] by (auto simp: F(5) F(9) [OF j])
    then have "moved n ?N j < Suc n \<and> overlaps s e (im_live m ! moved n ?N j)"
      using D(10) f [OF j] by blast
    then show "j < n" "overlaps ?s ?e (im_live m' ! j)"
      using f [OF j] fn [of j] grow [of "moved n ?N j"] by (auto simp: F(9) [OF j])
  next
    fix j assume "j < n" "overlaps ?s ?e (im_live m' ! j)"
    then show "im_fd (im_live m' ! j) < 0"
      using F(1-3) F(9) [of j] grow [of j] D(11) [of j] by (auto simp: moved_def)
  qed
qed

lemma merge_step_cov:
  assumes inv: "merge_inv (Suc n) k s e m" and ov: "overlaps s e (im_live m ! n)" and mg: "merged n k s e m m'"
  shows "im_cov m' = im_cov m"
proof -
  let ?N = "length (im_live m)"
  note F = merged_facts [OF inv ov mg]
  have "moved n ?N ` ({..< ?N - 1} - {k}) = moved n ?N ` {..< ?N - 1} - {k}"
    using F(1-3,10) by (auto simp: moved_def)
  then have im: "moved n ?N ` ({..< ?N - 1} - {k}) = {..< ?N} - {n, k}"
    unfolding moved_image [OF F(2)] by auto
  have "length (im_live m') = ?N - 1" using mg by (simp add: merged_def)
  then have "im_cov m' = (\<Union>j \<in> {..< ?N - 1} - {k}. ival (im_live m' ! j)) \<union> ival (im_live m' ! k)"
    using F(3) unfolding im_cov_nth by auto
  also have "\<dots> = (\<Union>l \<in> moved n ?N ` ({..< ?N - 1} - {k}). ival (im_live m ! l)) \<union> (ival (im_live m ! k) \<union> ival (im_live m ! n))"
    using F(5,9) by auto
  also have "\<dots> = im_cov m"
  proof -
    have all: "{..< ?N} = insert k (insert n ({..< ?N} - {n, k}))" using F(1-3) by auto
    show ?thesis unfolding im im_cov_nth by (subst (2) all) auto
  qed
  finally show ?thesis .
qed

lemma merge_done:
  assumes "merge_inv 0 k s e m"
  shows "im_wf m"
proof (rule im_wfI)
  note D = merge_inv_D [OF assms]
  show "im_bounds m" by (rule D(1))
  show "\<And>i. i < length (im_live m) \<Longrightarrow> im_start (im_live m ! i) < im_end (im_live m ! i)" by (rule D(6))
  fix i j assume "i < length (im_live m)" "j < length (im_live m)" "i \<noteq> j"
  then show "ival (im_live m ! i) \<inter> ival (im_live m ! j) = {}"
    using D(9) [of i j] D(10) [of i] D(10) [of j] by (cases "i = k"; cases "j = k") auto
qed

lemma merge_loop:
  "merge_inv n k s e m \<Longrightarrow> fd < 0 \<Longrightarrow>
    \<exists>m' s' e'. interval_map_add_loop n m s e fd (int k) = Ok (m', s', e', int k) \<and> im_wf m' \<and> im_cov m' = im_cov m"
proof (induction n arbitrary: m s e)
  case 0
  then show ?case using merge_done by simp
next
  case (Suc n)
  let ?x = "im_live m ! n" and ?N = "length (im_live m)"
  note D = merge_inv_D [OF Suc.prems(1)]
  have n: "n < ?N" "n < nat (entry_count m)" using D(3,4) length_im_live [OF D(1)] by auto
  have get: "arr_get (im_entries m) (int n) = Ok ?x" using im_get [OF D(1) n(2)] .
  have snoc: "take (Suc n) (im_live m) = take n (im_live m) @ [?x]"
    using n(1) by (rule take_Suc_conv_app_nth)
  show ?case
  proof (cases "overlaps s e ?x")
    case False
    have "j < n \<and> overlaps s e (im_live m ! j)"
      if "j < ?N" "j \<noteq> k" "ival (im_live m ! j) \<inter> ival (im_live m ! k) \<noteq> {}" for j
      using D(10) [OF that] False by (metis less_Suc_eq)
    then have "merge_inv n k s e m"
      using D False by (simp add: merge_inv_def snoc)
    from Suc.IH [OF this Suc.prems(2)] show ?thesis
      using get False by simp
  next
    case True
    let ?s = "min (im_start ?x) s" and ?e = "max (im_end ?x) e"
    obtain m1 where m1: "interval_map_delete_entry m (int n) = Ok (0, m1)" "im_bounds m1"
      "im_live m1 = butlast ((im_live m)[n := last (im_live m)])"
      using delete_entry_live [OF D(1) n(2)] by blast
    have k: "k < ?N - 1" "n < k" using D(3,5) True by (auto simp: snoc)
    then have kl: "k < length (im_live m1)" "im_live m1 ! k = im_live m ! k"
      using moved_nth [OF n(1) k(1)] by (simp_all add: m1(3) moved_def)
    obtain m2 where m2: "widen_entry m1 (int k) ?s ?e = Ok m2" "im_bounds m2"
      "im_live m2 = (im_live m1)[k := (im_live m1 ! k)\<lparr>im_start := min (im_start (im_live m1 ! k)) ?s,
         im_end := max (im_end (im_live m1 ! k)) ?e\<rparr>]"
      using widen_live [OF m1(2) kl(1), of ?s ?e] by blast
    have mg: "merged n k s e m m2"
      using m2 kl moved_nth [OF n(1)] by (simp add: merged_def m1(3))
    have "interval_map_add_loop (Suc n) m s e fd (int k) = interval_map_add_loop n m2 ?s ?e fd (int k)"
      using get True m1(1) m2(1) Suc.prems(2) D(11) by (simp add: Let_def)
    then show ?thesis
      using Suc.IH [OF merge_step_inv [OF Suc.prems(1) True mg] Suc.prems(2)]
        merge_step_cov [OF Suc.prems(1) True mg] by simp
  qed
qed

text \<open>
  The first overlapping entry found, at index \<open>k\<close>, survives the deletions that follow only if
  none of them moves it: with \<open>r\<close> overlapping entries in all, \<open>k + r\<close> must not exceed the number
  of entries.
\<close>

definition hit_indices :: "uintptr \<Rightarrow> uintptr \<Rightarrow> interval_map_entry list \<Rightarrow> nat list" where
  "hit_indices s e xs = filter (\<lambda>i. overlaps s e (xs ! i)) [0..<length xs]"

definition merge_safe :: "uintptr \<Rightarrow> uintptr \<Rightarrow> interval_map \<Rightarrow> bool" where
  "merge_safe s e m \<longleftrightarrow> (let h = hit_indices s e (im_live m) in
     h = [] \<or> last h + length h \<le> length (im_live m))"

lemma first_merge_inv:
  assumes wf: "im_wf m" and k: "k < length (im_live m)" and se: "s < e" and ov: "overlaps s e (im_live m ! k)"
    and later: "\<And>j. k < j \<Longrightarrow> j < length (im_live m) \<Longrightarrow> \<not> overlaps s e (im_live m ! j)"
    and room: "k + length (filter (overlaps s e) (take k (im_live m))) < length (im_live m)"
    and fds: "\<And>j. j < k \<Longrightarrow> overlaps s e (im_live m ! j) \<Longrightarrow> im_fd (im_live m ! j) < 0"
    and m': "im_bounds m'" "im_live m' = (im_live m)[k := (im_live m ! k)\<lparr>im_start := min (im_start (im_live m ! k)) s,
       im_end := max (im_end (im_live m ! k)) e\<rparr>]"
  shows "merge_inv k k s e m'" "im_cov m' = im_cov m \<union> {s ..< e}"
proof -
  let ?x = "im_live m ! k" and ?N = "length (im_live m)"
  note ne = nonempty_nth [OF wf] and disj = disjoint_list_nth [OF wf]
  have h: "ival (im_live m' ! k) = ival ?x \<union> {s ..< e}"
    using k ival_hull [OF se ne [OF k] ov] by (simp add: m'(2) ival_def)
  have old: "im_live m' ! j = im_live m ! j" if "j \<noteq> k" for j using that by (simp add: m'(2))
  have len: "length (im_live m') = ?N" by (simp add: m'(2))
  show "merge_inv k k s e m'"
    unfolding merge_inv_def len
  proof (intro conjI allI impI m'(1) se)
    fix j assume "j < ?N"
    then show "im_start (im_live m' ! j) < im_end (im_live m' ! j)"
      using ne [of j] k by (cases "j = k") (auto simp: m'(2) min_less_iff_disj less_max_iff_disj)
  next
    fix j assume j: "j < ?N" "j \<noteq> k" and "ival (im_live m' ! j) \<inter> ival (im_live m' ! k) \<noteq> {}"
    then have "overlaps s e (im_live m ! j)"
      using disj [of j k] k overlaps_iff [OF se ne [OF j(1)]] by (auto simp: h old)
    then show "j < k" "overlaps s e (im_live m' ! j)"
      using later [of j] j by (cases j k rule: linorder_cases; simp add: old)+
  qed (use room k disj old m'(2) fds in auto)
  have kN: "k \<in> {..< ?N}" using k by simp
  show "im_cov m' = im_cov m \<union> {s ..< e}"
    unfolding im_cov_nth len UN_pick [OF kN] by (auto simp: h old)
qed

lemma hits_take: "n \<le> length xs \<Longrightarrow>
    length (filter (\<lambda>i. P (xs ! i)) [0..<n]) = length (filter P (take n xs))"
proof -
  assume "n \<le> length xs"
  then have "take n xs = map ((!) xs) [0..<n]" by (intro nth_equalityI) auto
  then show ?thesis by (simp add: filter_map o_def)
qed

lemma add_loop_find:
  assumes wf: "im_wf m" and se: "s < e" and fd: "fd < 0 \<or> hit_indices s e (im_live m) = []"
    and fds: "\<forall>x \<in> set (im_live m). overlaps s e x \<longrightarrow> im_fd x < 0"
  shows "n \<le> length (im_live m) \<Longrightarrow> \<forall>j. n \<le> j \<longrightarrow> j < length (im_live m) \<longrightarrow> \<not> overlaps s e (im_live m ! j) \<Longrightarrow>
    h = filter (\<lambda>i. overlaps s e (im_live m ! i)) [0..<n] \<Longrightarrow>
    h = [] \<or> last h + length h \<le> length (im_live m) \<Longrightarrow>
    if h = [] then interval_map_add_loop n m s e fd (-1) = Ok (m, s, e, -1)
    else \<exists>m' s' e' k. interval_map_add_loop n m s e fd (-1) = Ok (m', s', e', int k) \<and>
      im_wf m' \<and> im_cov m' = im_cov m \<union> {s ..< e}"
proof (induction n arbitrary: h)
  case 0
  then show ?case by simp
next
  case (Suc n)
  let ?x = "im_live m ! n"
  note b = im_wf_bounds [OF wf]
  have n: "n < length (im_live m)" "n < nat (entry_count m)"
    using Suc.prems(1) by (auto simp: length_im_live [OF b])
  have get: "arr_get (im_entries m) (int n) = Ok ?x" using im_get [OF b n(2)] .
  show ?case
  proof (cases "overlaps s e ?x")
    case False
    have later: "\<forall>j. n \<le> j \<longrightarrow> j < length (im_live m) \<longrightarrow> \<not> overlaps s e (im_live m ! j)"
      using Suc.prems(2) False by (metis Suc_leI le_neq_implies_less)
    have loop: "interval_map_add_loop (Suc n) m s e fd (-1) = interval_map_add_loop n m s e fd (-1)"
      using get False by simp
    have "h = filter (\<lambda>i. overlaps s e (im_live m ! i)) [0..<n]"
      using Suc.prems(3) False by simp
    then show ?thesis
      unfolding loop using Suc.prems(1) by (intro Suc.IH later Suc.prems(4)) simp_all
  next
    case True
    let ?h = "filter (\<lambda>i. overlaps s e (im_live m ! i)) [0..<n]"
    have h: "h = ?h @ [n]" using Suc.prems(3) True by simp
    have ne: "hit_indices s e (im_live m) \<noteq> []"
      using n(1) True by (auto simp: hit_indices_def filter_empty_conv)
    have room: "n + length (filter (overlaps s e) (take n (im_live m))) < length (im_live m)"
      using Suc.prems(4) n(1) hits_take [of n "im_live m" "overlaps s e"] by (simp add: h)
    obtain m' where m': "widen_entry m (int n) s e = Ok m'" "im_bounds m'"
      "im_live m' = (im_live m)[n := ?x\<lparr>im_start := min (im_start ?x) s, im_end := max (im_end ?x) e\<rparr>]"
      using widen_live [OF b n(1), of s e] by blast
    have inv: "merge_inv n n s e m'" "im_cov m' = im_cov m \<union> {s ..< e}"
      using Suc.prems(2) fds n(1) by (intro first_merge_inv [OF wf n(1) se True _ room _ m'(2,3)]; simp)+
    have "im_fd ?x < 0" "fd < 0" using fds True n(1) fd ne by auto
    then have "interval_map_add_loop (Suc n) m s e fd (-1) = interval_map_add_loop n m' s e fd (int n)"
      using get True m'(1) by simp
    then show ?thesis
      using merge_loop [OF inv(1) \<open>fd < 0\<close>] inv(2) h by fastforce
  qed
qed

section \<open>A deletion that cuts an entry at its end\<close>

text \<open>Whatever the entries are, a step of the deletion loop leaves the unvisited ones alone or aborts.\<close>

lemma delete_entry_frame:
  assumes "im_bounds m" "i < nat (entry_count m)"
  shows "\<exists>m'. interval_map_delete_entry m (int i) = Ok (0, m') \<and> im_bounds m' \<and> i \<le> nat (entry_count m') \<and>
    take i (im_live m') = take i (im_live m)"
proof (rule delete_entry_live [OF assms])
  fix m' assume m': "interval_map_delete_entry m (int i) = Ok (0, m')" "im_bounds m'"
    "entry_count m' = entry_count m - 1" "im_live m' = butlast ((im_live m)[i := last (im_live m)])"
  have "i < length (im_live m)" using assms by (simp add: length_im_live)
  then have "take i (im_live m') = take i (im_live m)"
    by (auto simp: m'(4) butlast_conv_take take_update_cancel min_def)
  then show ?thesis using m' assms(2) by (intro exI [of _ m']) auto
qed

lemma add_entry_frame:
  assumes "im_bounds m" "i \<le> nat (entry_count m)"
  shows "(\<exists>m'. interval_map_add_entry m s e fd = Ok (0, m') \<and> im_bounds m' \<and> i \<le> nat (entry_count m') \<and>
      take i (im_live m') = take i (im_live m)) \<or> interval_map_add_entry m s e fd = Ok (-1, m)"
proof (cases "entry_count m < mem_size m \<and> s < e")
  case True
  obtain m' where "interval_map_add_entry m s e fd = Ok (0, m')" "im_bounds m'"
    "entry_count m' = entry_count m + 1" "im_live m' = im_live m @ [\<lparr>im_start = s, im_end = e, im_fd = fd\<rparr>]"
    using add_entry_live [OF assms(1), of s e fd] True by blast
  then show ?thesis using assms by (intro disjI1 exI [of _ m']) (auto simp: length_im_live)
next
  case False
  then show ?thesis by (auto simp: interval_map_add_entry_def not_less)
qed

lemma delete_loop_frame:
  assumes b: "im_bounds m" and i: "i < nat (entry_count m)"
  shows "interval_map_delete_loop os (Suc i) m s e st = Assert_Fail \<or>
    (\<exists>m' st'. interval_map_delete_loop os (Suc i) m s e st = interval_map_delete_loop os i m' s e st' \<and>
      im_bounds m' \<and> i \<le> nat (entry_count m') \<and> take i (im_live m') = take i (im_live m))"
proof -
  let ?x = "im_live m ! i"
  let ?m = "\<lambda>y. m\<lparr>im_entries := (im_entries m)[i := y]\<rparr>"
  let ?fd = "if im_fd ?x \<ge> 0 then os_dup os (im_fd ?x) else im_fd ?x"
  have get: "arr_get (im_entries m) (int i) = Ok ?x" using im_get [OF b i] .
  have set: "arr_set (im_entries m) (int i) y = Ok ((im_entries m)[i := y])" "im_bounds (?m y)"
      "take i (im_live (?m y)) = take i (im_live m)" for y
    using im_set [OF b i, of y] by (simp_all add: take_update_cancel)
  have del: "\<exists>m'. interval_map_delete_entry m (int i) = Ok (0, m') \<and> im_bounds m' \<and> i \<le> nat (entry_count m') \<and>
      take i (im_live m') = take i (im_live m)"
    by (rule delete_entry_frame [OF b i])
  have add: "(\<exists>m'. interval_map_add_entry (?m y) e (im_end ?x) ?fd = Ok (0, m') \<and> im_bounds m' \<and>
      i \<le> nat (entry_count m') \<and> take i (im_live m') = take i (im_live m)) \<or>
      interval_map_add_entry (?m y) e (im_end ?x) ?fd = Ok (-1, ?m y)" for y
    using add_entry_frame [OF set(2), of i y e "im_end ?x" ?fd] i set(3) by simp
  show ?thesis
  proof (cases "overlaps s e ?x")
    case False
    then show ?thesis using get b i by auto
  next
    case True
    consider "s \<le> im_start ?x \<and> e \<ge> im_end ?x"
      | "\<not> (s \<le> im_start ?x \<and> e \<ge> im_end ?x)" "s = im_start ?x \<and> e < im_end ?x \<or> e = im_end ?x \<and> s > im_start ?x"
      | "\<not> (s \<le> im_start ?x \<and> e \<ge> im_end ?x)" "\<not> (s = im_start ?x \<and> e < im_end ?x)" "\<not> (e = im_end ?x \<and> s > im_start ?x)"
      by blast
    then show ?thesis
    proof cases
      case 1
      from del obtain m' where m': "interval_map_delete_entry m (int i) = Ok (0, m')" "im_bounds m'"
        "i \<le> nat (entry_count m')" "take i (im_live m') = take i (im_live m)" by blast
      have "interval_map_delete_loop os (Suc i) m s e st = interval_map_delete_loop os i m' s e (st + 1)"
        using 1 get True m'(1) by simp
      with m' show ?thesis by blast
    next
      case 2
      then show ?thesis using get True set i by fastforce
    next
      case 3
      let ?y = "?x\<lparr>im_end := s\<rparr>"
      have eq: "interval_map_delete_loop os (Suc i) m s e st =
          (if im_fd ?x \<ge> 0 \<and> os_dup os (im_fd ?x) < 0 then Assert_Fail
           else res_bind (interval_map_add_entry (?m ?y) e (im_end ?x) ?fd)
             (\<lambda>(ret, m'). if ret = 0 then interval_map_delete_loop os i m' s e (st + 1) else Assert_Fail))"
        using 3 get True set(1) add [of ?y] by (auto simp: res_assert_def)
      from add [of ?y] show ?thesis
      proof
        assume "interval_map_add_entry (?m ?y) e (im_end ?x) ?fd = Ok (-1, ?m ?y)"
        then show ?thesis unfolding eq by simp
      next
        assume "\<exists>m'. interval_map_add_entry (?m ?y) e (im_end ?x) ?fd = Ok (0, m') \<and> im_bounds m' \<and>
          i \<le> nat (entry_count m') \<and> take i (im_live m') = take i (im_live m)"
        then obtain m' where m': "interval_map_add_entry (?m ?y) e (im_end ?x) ?fd = Ok (0, m')"
          "im_bounds m'" "i \<le> nat (entry_count m')" "take i (im_live m') = take i (im_live m)" by blast
        have "interval_map_delete_loop os (Suc i) m s e st = Assert_Fail \<or>
            interval_map_delete_loop os (Suc i) m s e st = interval_map_delete_loop os i m' s e (st + 1)"
          unfolding eq m'(1) by simp
        with m'(2-4) show ?thesis by blast
      qed
    qed
  qed
qed

lemma delete_loop_cut:
  "im_bounds m \<Longrightarrow> n \<le> nat (entry_count m) \<Longrightarrow>
    \<exists>x \<in> set (take n (im_live m)). im_start x < s \<and> s < im_end x \<and> im_end x < e \<Longrightarrow>
    interval_map_delete_loop os n m s e st = Assert_Fail"
proof (induction n arbitrary: m st)
  case 0
  then show ?case by simp
next
  case (Suc n)
  let ?x = "im_live m ! n"
  have n: "n < nat (entry_count m)" "n < length (im_live m)"
    using Suc.prems(1,2) by (auto simp: length_im_live)
  have snoc: "take (Suc n) (im_live m) = take n (im_live m) @ [?x]"
    using n(2) by (rule take_Suc_conv_app_nth)
  show ?case
  proof (cases "im_start ?x < s \<and> s < im_end ?x \<and> im_end ?x < e")
    case True
    then have ov: "overlaps s e ?x" by (auto simp: overlaps_def)
    have "arr_set (im_entries m) (int n) (?x\<lparr>im_end := s\<rparr>) = Ok ((im_entries m)[n := ?x\<lparr>im_end := s\<rparr>])"
      using im_set(1) [OF Suc.prems(1) n(1)] .
    moreover have "e \<noteq> im_end ?x" "\<not> s \<le> im_start ?x" "s \<noteq> im_start ?x" "\<not> e < im_end ?x" using True by auto
    ultimately show ?thesis
      using im_get [OF Suc.prems(1) n(1)] ov True
      by (auto simp: interval_map_add_entry_def res_assert_def)
  next
    case False
    then have "\<exists>x \<in> set (take n (im_live m)). im_start x < s \<and> s < im_end x \<and> im_end x < e"
      using Suc.prems(3) by (auto simp: snoc)
    then show ?thesis
      using delete_loop_frame [OF Suc.prems(1) n(1), of os s e st] Suc.IH by fastforce
  qed
qed

section \<open>Properties\<close>

text \<open>A map of two executable mappings, and operating-system calls that succeed, for the witnesses.\<close>

definition two_maps :: interval_map where
  "two_maps = \<lparr>mem_size = 4, entry_count = 2,
     im_entries = [\<lparr>im_start = 0x1000, im_end = 0x2000, im_fd = -1\<rparr>, \<lparr>im_start = 0x3000, im_end = 0x4000, im_fd = -1\<rparr>,
       \<lparr>im_start = 0, im_end = 0, im_fd = 0\<rparr>, \<lparr>im_start = 0, im_end = 0, im_fd = 0\<rparr>], im_closed = []\<rparr>"

definition os_ok :: os_calls where
  "os_ok = \<lparr>os_lock = 0, os_unlock = 0, os_dup = (\<lambda>fd. fd + 1)\<rparr>"

lemma two_maps_live: "im_live two_maps =
    [\<lparr>im_start = 0x1000, im_end = 0x2000, im_fd = -1\<rparr>, \<lparr>im_start = 0x3000, im_end = 0x4000, im_fd = -1\<rparr>]"
  by (simp add: im_live_def two_maps_def)

lemma two_maps_wf: "im_wf two_maps"
  unfolding im_wf_def two_maps_live disjoint_list_def
  by (auto simp: im_bounds_def two_maps_def less_Suc_eq)

text \<open>C17: Adding a range to a well-formed map makes exactly that range newly covered and keeps the map
  well formed (entries nonempty and pairwise disjoint), merging the entries it overlaps, provided the
  merge does not move the entry it is widening (\<open>merge_safe\<close>), a free slot is there when nothing
  overlaps, and no overlapping entry or the new range carries a file descriptor.\<close>

theorem interval_map_add_covers:
  assumes "im_wf m" "s < e" "merge_safe s e m" "os_lock os = 0" "os_unlock os = 0" "fd \<ge> 0 \<longrightarrow> os_dup os fd \<ge> 0"
    "fd < 0 \<or> hit_indices s e (im_live m) = []"
    "\<forall>x \<in> set (im_live m). overlaps s e x \<longrightarrow> im_fd x < 0"
    "hit_indices s e (im_live m) = [] \<longrightarrow> entry_count m < mem_size m"
  shows "\<exists>m'. interval_map_add os m s e fd = Ok (0, m') \<and> im_wf m' \<and> im_cov m' = im_cov m \<union> {s ..< e}"
proof -
  let ?h = "hit_indices s e (im_live m)" and ?fd = "if fd \<ge> 0 then os_dup os fd else fd"
  note b = im_wf_bounds [OF assms(1)]
  have fd: "?fd < 0 \<or> ?h = []" using assms(7) by auto
  have loop: "if ?h = [] then interval_map_add_loop (nat (entry_count m)) m s e ?fd (-1) = Ok (m, s, e, -1)
    else \<exists>m' s' e' k. interval_map_add_loop (nat (entry_count m)) m s e ?fd (-1) = Ok (m', s', e', int k) \<and>
      im_wf m' \<and> im_cov m' = im_cov m \<union> {s ..< e}"
    using assms(3) by (intro add_loop_find [OF assms(1,2) fd assms(8)])
      (auto simp: length_im_live [OF b] hit_indices_def merge_safe_def Let_def)
  show ?thesis
  proof (cases "?h = []")
    case True
    obtain m' where m': "interval_map_add_entry m s e ?fd = Ok (0, m')" "im_bounds m'"
      "im_live m' = im_live m @ [\<lparr>im_start = s, im_end = e, im_fd = ?fd\<rparr>]"
      using add_entry_live [OF b, of s e ?fd] assms(2,9) True by blast
    have "ival (im_live m ! i) \<inter> {s ..< e} = {}" if "i < length (im_live m)" for i
      using True that overlaps_iff [OF assms(2) nonempty_nth [OF assms(1) that]]
      by (auto simp: hit_indices_def filter_empty_conv)
    then have "{s ..< e} \<inter> im_cov m = {}" unfolding im_cov_nth by blast
    then have "im_wf m'" "im_cov m' = im_cov m \<union> {s ..< e}"
      using append_entry [OF assms(1) m'(2,3)] assms(2) by (simp_all add: ival_def)
    then show ?thesis
      using True loop m'(1) assms(2,4-6) by (auto simp: interval_map_add_def)
  next
    case False
    then show ?thesis
      using loop assms(2,4-6) by (auto simp: interval_map_add_def)
  qed
qed

theorem interval_map_add_covers_witness:
  "\<exists>m'. interval_map_add os_ok two_maps 0x1800 0x2800 (-1) = Ok (0, m') \<and> im_wf m' \<and>
    im_cov m' = im_cov two_maps \<union> {0x1800 ..< 0x2800}"
  by (rule interval_map_add_covers [OF two_maps_wf])
    (simp_all add: merge_safe_def hit_indices_def two_maps_live overlaps_def os_ok_def)

text \<open>C19: When the range overlaps both entries of a two-entry map, the addition succeeds but drops the
  first entry: the surviving entry spans only the second entry and the new range, so every address of
  the first entry below both is no longer covered although nothing was unmapped.\<close>

theorem interval_map_add_drops:
  assumes "im_wf m" "im_live m = [a, b]" "s < e" "overlaps s e a" "overlaps s e b"
    "im_fd a < 0" "im_fd b < 0" "fd < 0" "os_lock os = 0" "os_unlock os = 0"
  shows "\<exists>m'. interval_map_add os m s e fd = Ok (0, m') \<and> im_cov m' = ival b \<union> {s ..< e}"
proof -
  let ?b = "b\<lparr>im_start := min (im_start b) s, im_end := max (im_end b) e\<rparr>"
  note bd = im_wf_bounds [OF assms(1)]
  have len: "length (im_live m) = 2" "nat (entry_count m) = Suc (Suc 0)"
    using length_im_live [OF bd] assms(2) by auto
  obtain m1 where m1: "widen_entry m (int 1) s e = Ok m1" "im_bounds m1" "im_live m1 = [a, ?b]"
    using widen_live [OF bd, of 1 s e] len assms(2) by auto
  have c1: "nat (entry_count m1) = 2" using length_im_live [OF m1(2)] m1(3) by simp
  obtain m2 where m2: "interval_map_delete_entry m1 (int 0) = Ok (0, m2)" "im_bounds m2"
    "entry_count m2 = entry_count m1 - 1" "im_live m2 = [?b]" "mem_size m2 = mem_size m1"
    using delete_entry_live [OF m1(2), of 0] c1 m1(3) by auto
  let ?s = "min (im_start a) s" and ?e = "max (im_end a) e"
  obtain m' where m': "widen_entry m2 (int 1) ?s ?e = Ok m'" "im_live m' = [?b]"
    using m2(2-5) c1 m1(2) by (auto simp: widen_entry_def im_bounds_def im_live_def nat_diff_distrib')
  have get: "arr_get (im_entries m) (int 1) = Ok b" "arr_get (im_entries m1) (int 0) = Ok a"
    using im_get [OF bd, of 1] im_get [OF m1(2), of 0] len c1 assms(2) m1(3) by auto
  have "interval_map_add_loop (nat (entry_count m)) m s e fd (-1) = Ok (m', ?s, ?e, 1)"
    using get m1(1) m2(1) m'(1) assms(4-8) unfolding len by (simp add: Let_def)
  then have "interval_map_add os m s e fd = Ok (0, m')"
    using assms(3,8-10) by (simp add: interval_map_add_def)
  note m' = this m'(2)
  have "im_start b < im_end b" using nonempty_nth [OF assms(1), of 1] assms(2) by simp
  then have "im_cov m' = ival b \<union> {s ..< e}"
    using ival_hull [OF assms(3) _ assms(5)] by (simp add: im_cov_def m'(2) ival_def)
  with m'(1) show ?thesis by blast
qed

theorem interval_map_add_drops_witness:
  "\<exists>m'. interval_map_add os_ok two_maps 0x1800 0x3800 (-1) = Ok (0, m') \<and>
    0x1000 \<in> im_cov two_maps \<and> 0x1000 \<notin> im_cov m'"
proof -
  have "\<exists>m'. interval_map_add os_ok two_maps 0x1800 0x3800 (-1) = Ok (0, m') \<and>
      im_cov m' = ival \<lparr>im_start = 0x3000, im_end = 0x4000, im_fd = -1\<rparr> \<union> {0x1800 ..< 0x3800}"
    by (rule interval_map_add_drops [OF two_maps_wf two_maps_live])
      (simp_all add: overlaps_def os_ok_def)
  moreover have "0x1000 \<in> im_cov two_maps"
    by (simp add: im_cov_def two_maps_live ival_def)
  ultimately show ?thesis by (auto simp: ival_def)
qed

text \<open>C18: Deleting a range from a well-formed map removes exactly the addresses of the range, keeps the
  map well formed and returns the number of entries it met, when every entry it meets is covered by
  the range or contains it, and a split has a free slot and can duplicate the descriptor.\<close>

theorem interval_map_delete_removes:
  assumes "im_wf m" "s < e" "os_lock os = 0" "os_unlock os = 0" "\<forall>x \<in> set (im_live m). deletable os m s e x"
  shows "\<exists>m'. interval_map_delete os m s e = Ok (int (length (filter (overlaps s e) (im_live m))), m') \<and>
    im_wf m' \<and> im_cov m' = im_cov m - {s ..< e}"
proof -
  obtain m' where "interval_map_delete_loop os (nat (entry_count m)) m s e 0 =
      Ok (m', int (length (filter (overlaps s e) (im_live m))))"
    "im_wf m'" "im_cov m' = im_cov m - (im_cov m \<inter> {s ..< e})"
    using delete_loop_spec [OF assms(1) _ assms(2), of "nat (entry_count m)" os 0] assms(5)
    by (auto simp: im_cov_def)
  then show ?thesis
    using assms(2-4) by (intro exI [of _ m']) (auto simp: interval_map_delete_def)
qed

theorem interval_map_delete_removes_witness:
  "\<exists>m'. interval_map_delete os_ok two_maps 0x1400 0x1800 = Ok (1, m') \<and> im_wf m' \<and>
    im_cov m' = im_cov two_maps - {0x1400 ..< 0x1800}"
proof -
  have del: "\<forall>x \<in> set (im_live two_maps). deletable os_ok two_maps 0x1400 0x1800 x"
    by (simp add: two_maps_live deletable_def clean_def splits_def overlaps_def) (simp add: two_maps_def)
  have "\<exists>m'. interval_map_delete os_ok two_maps 0x1400 0x1800 =
        Ok (int (length (filter (overlaps 0x1400 0x1800) (im_live two_maps))), m') \<and>
      im_wf m' \<and> im_cov m' = im_cov two_maps - {0x1400 ..< 0x1800}"
    by (rule interval_map_delete_removes [OF two_maps_wf]) (simp_all add: os_ok_def del [unfolded os_ok_def])
  then show ?thesis by (simp add: two_maps_live overlaps_def)
qed

text \<open>Unmapping a range that starts inside an entry and ends beyond it is not handled: the split
  case tries to add an empty entry and the assertion on its result aborts the process.\<close>

theorem interval_map_delete_aborts:
  assumes "im_wf m" "x \<in> set (im_live m)" "im_start x < s" "s < im_end x" "im_end x < e" "os_lock os = 0"
  shows "interval_map_delete os m s e = Assert_Fail"
proof -
  have "interval_map_delete_loop os (nat (entry_count m)) m s e 0 = Assert_Fail"
    using assms(2-5) by (intro delete_loop_cut im_wf_bounds [OF assms(1)]) auto
  moreover have "s < e" using assms(4,5) by simp
  ultimately show ?thesis using assms(6) by (simp add: interval_map_delete_def)
qed

theorem interval_map_delete_aborts_witness:
  "interval_map_delete os_ok two_maps 0x1800 0x2800 = Assert_Fail"
  by (rule interval_map_delete_aborts [OF two_maps_wf, of "\<lparr>im_start = 0x1000, im_end = 0x2000, im_fd = -1\<rparr>"])
    (simp_all add: two_maps_live os_ok_def)

text \<open>A range search counts the entries the range meets, and is positive exactly when the range
  contains a covered address.\<close>

theorem interval_map_search_counts:
  assumes "im_wf m" "s < e" "os_lock os = 0" "os_unlock os = 0"
  shows "interval_map_search os m s e = Ok (int (length (filter (overlaps s e) (im_live m)))) \<and>
    (0 < length (filter (overlaps s e) (im_live m)) \<longleftrightarrow> {s ..< e} \<inter> im_cov m \<noteq> {})"
proof -
  have "interval_map_search os m s e = Ok (int (length (filter (overlaps s e) (im_live m))))"
    using assms(2-4) search_loop_count [OF im_wf_bounds [OF assms(1)], of "nat (entry_count m)" s e 0]
    by (simp add: interval_map_search_def)
  moreover have "overlaps s e x \<longleftrightarrow> {s ..< e} \<inter> ival x \<noteq> {}" if "x \<in> set (im_live m)" for x
    using assms(1,2) that by (intro overlaps_iff) (auto simp: im_wf_def)
  ultimately show ?thesis
    by (auto simp: im_cov_def filter_empty_conv)
qed

theorem interval_map_search_counts_witness:
  "interval_map_search os_ok two_maps 0x1800 0x3800 = Ok 2 \<and> {0x1800 ..< 0x3800} \<inter> im_cov two_maps \<noteq> {}"
  using interval_map_search_counts [OF two_maps_wf, of "0x1800" "0x3800" os_ok]
  by (simp add: two_maps_live overlaps_def os_ok_def)

text \<open>A search by address succeeds exactly for covered addresses, and then returns an entry of the map
  that contains the address; otherwise the caller's buffer is unchanged.\<close>

theorem interval_map_search_by_addr_finds:
  assumes "im_bounds m" "os_lock os = 0" "os_unlock os = 0"
  shows "if addr \<in> im_cov m
    then \<exists>x \<in> set (im_live m). addr \<in> ival x \<and> interval_map_search_by_addr os m addr (Some buf) = Ok (1, Some x)
    else interval_map_search_by_addr os m addr (Some buf) = Ok (0, Some buf)"
  using search_by_addr_loop_spec [OF assms(1), of "nat (entry_count m)" addr buf] assms(2,3)
  by (auto simp: interval_map_search_by_addr_def im_cov_def)

theorem interval_map_search_by_addr_finds_witness:
  "interval_map_search_by_addr os_ok two_maps 0x5000 (Some \<lparr>im_start = 0, im_end = 0, im_fd = 9\<rparr>) =
     Ok (0, Some \<lparr>im_start = 0, im_end = 0, im_fd = 9\<rparr>)"
  using interval_map_search_by_addr_finds [OF im_wf_bounds [OF two_maps_wf], of os_ok "0x5000"
      "\<lparr>im_start = 0, im_end = 0, im_fd = 9\<rparr>"]
  by (simp add: os_ok_def im_cov_def two_maps_live ival_def)

end
