(* ===== verification/Reg_List.thy ===== *)
theory Reg_List
  imports Mambo_Prelude
begin

text \<open>
  The register-list helpers of \<open>common.c\<close> (a register list is a 32-bit mask), the bit counter, and
  the address-rounding helpers of \<open>common.h\<close> and \<open>dbm.h\<close>.
\<close>

section \<open>Operations\<close>

fun last_reg :: "arch \<Rightarrow> u32" where
  "last_reg AArch32 = 15"
| "last_reg _ = 31"

fun reg_invalid :: "arch \<Rightarrow> u32" where
  "reg_invalid AArch32 = 16"
| "reg_invalid _ = 32"

function next_reg_in_list :: "arch \<Rightarrow> u32 \<Rightarrow> u32 \<Rightarrow> u32" where
  "next_reg_in_list a reglist start =
     (if start \<le> last_reg a then
        if reglist AND push_bit (unat start) 1 \<noteq> 0 then start
        else next_reg_in_list a reglist (start + 1)
      else reg_invalid a)"
  by pat_completeness auto
termination
proof (relation "measure (\<lambda>(a, reglist, start). 32 - unat start)", goal_cases)
  case (2 a reglist start)
  have "last_reg a \<le> 31" by (cases a) simp_all
  with 2 have "start \<le> 31" by (rule_tac order_trans)
  then have "unat start \<le> 31" by (simp add: word_le_nat_alt)
  then have "unat (start + 1) = unat start + 1" by (simp add: unat_word_ariths)
  with \<open>unat start \<le> 31\<close> show ?case by simp
qed simp

declare next_reg_in_list.simps [simp del]

text \<open>
  \<open>first_reg\<close> is register 0 on every architecture and \<open>start\<close> is unsigned, so the loop condition
  \<open>start >= first_reg\<close> always holds: after register 0 the counter wraps and the next shift is
  undefined.
\<close>

function last_reg_in_list :: "u32 \<Rightarrow> u32 \<Rightarrow> u32 res" where
  "last_reg_in_list reglist start =
     (if start \<ge> 32 then Undef
      else if reglist AND push_bit (unat start) 1 \<noteq> 0 then Ok start
      else if start = 0 then Undef
      else last_reg_in_list reglist (start - 1))"
  by pat_completeness auto
termination
  by (relation "measure (\<lambda>(reglist, start). unat start)") (auto simp: unat_gt_0 measure_unat)

declare last_reg_in_list.simps [simp del]

fun get_lowest_n_regs_loop :: "arch \<Rightarrow> u32 \<Rightarrow> nat \<Rightarrow> u32 \<Rightarrow> nat \<times> u32 list" where
  "get_lowest_n_regs_loop a reglist 0 prev = (0, [])"
| "get_lowest_n_regs_loop a reglist (Suc n) prev =
     (let r = next_reg_in_list a reglist (prev + 1);
          (count, regs) = get_lowest_n_regs_loop a reglist n r
      in ((if r < reg_invalid a then Suc count else count), r # regs))"

definition get_lowest_n_regs :: "arch \<Rightarrow> u32 \<Rightarrow> int \<Rightarrow> nat \<times> u32 list" where
  "get_lowest_n_regs a reglist n =
     (if n < 1 then (0, []) else get_lowest_n_regs_loop a reglist (nat n) (-1))"

fun get_highest_n_regs_loop :: "arch \<Rightarrow> u32 \<Rightarrow> nat \<Rightarrow> u32 \<Rightarrow> (nat \<times> u32 list) res" where
  "get_highest_n_regs_loop a reglist 0 prev = Ok (0, [])"
| "get_highest_n_regs_loop a reglist (Suc n) prev =
     res_bind (last_reg_in_list reglist (prev - 1)) (\<lambda>r.
     res_bind (get_highest_n_regs_loop a reglist n r) (\<lambda>(count, regs).
     Ok ((if r < reg_invalid a then Suc count else count), r # regs)))"

definition get_highest_n_regs :: "arch \<Rightarrow> u32 \<Rightarrow> int \<Rightarrow> (nat \<times> u32 list) res" where
  "get_highest_n_regs a reglist n =
     (if n < 1 then Ok (0, []) else get_highest_n_regs_loop a reglist (nat n) (reg_invalid a))"

lemma clear_lowest_less: "(n :: u32) \<noteq> 0 \<Longrightarrow> unat (n AND (n - 1)) < unat n"
proof -
  assume "n \<noteq> 0"
  then have "n - 1 < n" by (simp add: word_less_nat_alt measure_unat)
  moreover have "n AND (n - 1) \<le> n - 1" by (rule word_and_le1)
  ultimately show ?thesis by (simp add: word_less_nat_alt word_le_nat_alt)
qed

function count_bits_loop :: "u32 \<Rightarrow> nat \<Rightarrow> nat" where
  "count_bits_loop n c = (if n \<noteq> 0 then count_bits_loop (n AND (n - 1)) (Suc c) else c)"
  by pat_completeness auto
termination
  by (relation "measure (\<lambda>(n, c). unat n)") (auto simp: clear_lowest_less)

definition count_bits :: "u32 \<Rightarrow> nat" where
  "count_bits n = count_bits_loop n 0"

definition align_lower :: "uintptr \<Rightarrow> uintptr \<Rightarrow> uintptr res" where
  "align_lower address alignment =
     (if alignment = 0 then Undef else Ok (address div alignment * alignment))"

definition align_higher :: "uintptr \<Rightarrow> uintptr \<Rightarrow> uintptr res" where
  "align_higher address alignment =
     res_bind (align_lower address alignment) (\<lambda>aligned_address.
     Ok (if aligned_address \<noteq> address then aligned_address + alignment else aligned_address))"

definition is_offset_within_range :: "int \<Rightarrow> int \<Rightarrow> bool" where
  "is_offset_within_range off rng \<longleftrightarrow> off \<le> rng - 4 \<and> off \<ge> - rng"

definition ROUND_UP :: "uintptr \<Rightarrow> uintptr \<Rightarrow> uintptr res" where
  "ROUND_UP input multiple_of =
     (if multiple_of = 0 then Undef
      else Ok (input div multiple_of * multiple_of + (if input mod multiple_of \<noteq> 0 then multiple_of else 0)))"

declare count_bits_loop.simps [simp del]

section \<open>Registers of a list\<close>

text \<open>The registers of a mask in ascending order.\<close>

definition regs_from :: "arch \<Rightarrow> u32 \<Rightarrow> nat \<Rightarrow> nat list" where
  "regs_from a reglist n = filter (bit reglist) [n ..< Suc (unat (last_reg a))]"

lemma mask_bit: "(reglist :: u32) AND push_bit n 1 \<noteq> 0 \<longleftrightarrow> bit reglist n"
  by (simp add: bit_iff_and_push_bit_not_eq_0)

lemma next_reg_step:
  "next_reg_in_list a reglist start =
     (if start \<le> last_reg a then
        if bit reglist (unat start) then start else next_reg_in_list a reglist (start + 1)
      else reg_invalid a)"
  by (subst next_reg_in_list.simps) (simp only: mask_bit)

lemma last_reg_step:
  "last_reg_in_list reglist start =
     (if start \<ge> 32 then Undef
      else if bit reglist (unat start) then Ok start
      else if start = 0 then Undef
      else last_reg_in_list reglist (start - 1))"
  by (subst last_reg_in_list.simps) (simp only: mask_bit)

lemma last_reg_le: "unat (last_reg a) \<le> 31" "unat (last_reg a) < unat (reg_invalid a)"
  by (cases a; simp)+

lemma next_reg_in_list_hd:
  "case regs_from a reglist (unat start) of
     [] \<Rightarrow> next_reg_in_list a reglist start = reg_invalid a
   | x # xs \<Rightarrow> unat (next_reg_in_list a reglist start) = x \<and> xs = regs_from a reglist (Suc x)"
proof (induction a reglist start rule: next_reg_in_list.induct)
  case (1 a reglist start)
  show ?case
  proof (cases "start \<le> last_reg a")
    case True
    then have le: "unat start \<le> unat (last_reg a)" by (simp add: word_le_nat_alt)
    then have nxt: "unat (start + 1) = Suc (unat start)"
      using last_reg_le(1) [of a] by (simp add: unat_word_ariths)
    have split: "regs_from a reglist (unat start) =
        (if bit reglist (unat start) then [unat start] else []) @ regs_from a reglist (Suc (unat start))"
      using le by (simp add: regs_from_def upt_conv_Cons del: upt_Suc)
    show ?thesis
    proof (cases "bit reglist (unat start)")
      case bit: True
      then have "next_reg_in_list a reglist start = start" using True by (simp add: next_reg_step)
      with bit show ?thesis by (simp add: split)
    next
      case bit: False
      then have "next_reg_in_list a reglist start = next_reg_in_list a reglist (start + 1)"
        using True by (simp add: next_reg_step [of a reglist start])
      with bit "1.IH" [OF True] show ?thesis unfolding mask_bit by (simp only: split nxt) simp
    qed
  next
    case False
    then have "regs_from a reglist (unat start) = []"
      by (simp add: regs_from_def word_le_nat_alt)
    with False show ?thesis by (simp add: next_reg_step [of a reglist start])
  qed
qed

lemma lowest_loop:
  "get_lowest_n_regs_loop a reglist n prev = (count, regs) \<Longrightarrow> unat prev \<le> 32 \<or> prev = - 1 \<Longrightarrow>
    map unat regs = take n (regs_from a reglist (unat (prev + 1)))
      @ replicate (n - length (regs_from a reglist (unat (prev + 1)))) (unat (reg_invalid a)) \<and>
    count = min n (length (regs_from a reglist (unat (prev + 1))))"
proof (induction n arbitrary: prev count regs)
  case 0
  then show ?case by simp
next
  case (Suc n)
  let ?r = "next_reg_in_list a reglist (prev + 1)"
  let ?L = "regs_from a reglist (unat (prev + 1))"
  obtain c rs where rec: "get_lowest_n_regs_loop a reglist n ?r = (c, rs)"
    by (cases "get_lowest_n_regs_loop a reglist n ?r")
  have out: "regs = ?r # rs" "count = (if ?r < reg_invalid a then Suc c else c)"
    using Suc.prems(1) rec by (auto simp: Let_def)
  note hd = next_reg_in_list_hd [of a reglist "prev + 1"]
  show ?case
  proof (cases ?L)
    case Nil
    then have r: "?r = reg_invalid a" using hd by simp
    then have "unat ?r \<le> 32" "regs_from a reglist (unat (?r + 1)) = []"
      by (cases a; simp add: regs_from_def)+
    with Suc.IH [OF rec] Nil show ?thesis by (simp add: out r)
  next
    case (Cons x xs)
    then have r: "unat ?r = x" "xs = regs_from a reglist (Suc x)" using hd by simp_all
    have "x \<in> set ?L" using Cons by simp
    then have x: "x \<le> unat (last_reg a)" by (auto simp: regs_from_def)
    then have "unat (?r + 1) = Suc x" "?r < reg_invalid a"
      using r(1) last_reg_le [of a] by (simp_all add: unat_word_ariths word_less_nat_alt)
    with Suc.IH [OF rec] Cons r x last_reg_le(1) [of a] show ?thesis by (simp add: out)
  qed
qed

lemma last_reg_in_list_last:
  "unat start < 32 \<Longrightarrow>
    (case rev (filter (bit reglist) [0 ..< Suc (unat start)]) of
       [] \<Rightarrow> last_reg_in_list reglist start = Undef
     | x # xs \<Rightarrow> \<exists>r. last_reg_in_list reglist start = Ok r \<and> unat r = x \<and> xs = rev (filter (bit reglist) [0 ..< x]))"
proof (induction reglist start rule: last_reg_in_list.induct)
  case (1 reglist start)
  have lt: "\<not> start \<ge> 32" using "1.prems" by (simp add: word_le_nat_alt)
  show ?case
  proof (cases "bit reglist (unat start)")
    case True
    with lt show ?thesis by (simp add: last_reg_step [of reglist start])
  next
    case False
    show ?thesis
    proof (cases "start = 0")
      case True
      with False lt show ?thesis by (simp add: last_reg_step [of reglist 0])
    next
      case nz: False
      then have pred: "Suc (unat (start - 1)) = unat start"
        by (simp add: unat_gt_0 unat_minus_one)
      have "case rev (filter (bit reglist) [0 ..< unat start]) of
         [] \<Rightarrow> last_reg_in_list reglist (start - 1) = Undef
       | x # xs \<Rightarrow> \<exists>r. last_reg_in_list reglist (start - 1) = Ok r \<and> unat r = x \<and> xs = rev (filter (bit reglist) [0 ..< x])"
        using "1.IH" [OF lt _ nz] False "1.prems" pred unfolding mask_bit by simp
      moreover have "last_reg_in_list reglist start = last_reg_in_list reglist (start - 1)"
        using False nz lt by (simp add: last_reg_step [of reglist start])
      ultimately show ?thesis using False by (simp split: list.splits)
    qed
  qed
qed

text \<open>Counting bits: clearing the lowest set bit removes exactly one bit.\<close>

definition bits_of :: "nat \<Rightarrow> nat set" where
  "bits_of n = {i. bit n i}"

lemma bits_of_0 [simp]: "bits_of 0 = {}"
  by (simp add: bits_of_def)

lemma bits_of_double: "bits_of (2 * n) = Suc ` bits_of n" "bits_of (Suc (2 * n)) = insert 0 (Suc ` bits_of n)"
proof -
  have "bit (2 * n) i \<longleftrightarrow> i \<in> Suc ` {i. bit n i}" for i
    by (cases i) (auto simp: bit_Suc bit_0)
  moreover have "bit (Suc (2 * n)) i \<longleftrightarrow> i = 0 \<or> i \<in> Suc ` {i. bit n i}" for i
    by (cases i) (auto simp: bit_Suc bit_0)
  ultimately show "bits_of (2 * n) = Suc ` bits_of n" "bits_of (Suc (2 * n)) = insert 0 (Suc ` bits_of n)"
    by (auto simp: bits_of_def)
qed

lemma finite_bits_of: "finite (bits_of n)"
proof (induction n rule: less_induct)
  case (less n)
  show ?case
  proof (cases "n = 0")
    case False
    then have "finite (bits_of (n div 2))" by (intro less.IH) simp
    then show ?thesis using bits_of_double [of "n div 2"] by (cases "even n") (auto elim!: evenE oddE)
  qed simp
qed

lemma card_bits_of_double: "card (bits_of (2 * n)) = card (bits_of n)" "card (bits_of (Suc (2 * n))) = Suc (card (bits_of n))"
  by (simp_all add: bits_of_double card_image finite_bits_of)

lemma clear_lowest_card: "n \<noteq> 0 \<Longrightarrow> Suc (card (bits_of (n AND (n - 1)))) = card (bits_of n)"
proof (induction n rule: less_induct)
  case (less n)
  show ?case
  proof (cases "even n")
    case True
    then obtain m where m: "n = 2 * m" by (auto elim: evenE)
    with less.prems have "m \<noteq> 0" "2 * m - 1 = Suc (2 * (m - 1))" by auto
    then have "n AND (n - 1) = 2 * (m AND (m - 1))"
      unfolding m by (simp add: and_rec [of "2 * m"])
    with less.IH [of m] \<open>m \<noteq> 0\<close> m show ?thesis by (simp add: card_bits_of_double)
  next
    case False
    then obtain m where m: "n = Suc (2 * m)" by (auto elim: oddE)
    have "n AND (n - 1) = 2 * m"
      unfolding m by (simp add: and_rec [of "Suc (2 * m)"])
    with m show ?thesis by (simp add: card_bits_of_double)
  qed
qed

lemma count_bits_loop_card: "count_bits_loop n c = c + card (bits_of (unat n))"
proof (induction n c rule: count_bits_loop.induct)
  case (1 n c)
  show ?case
  proof (cases "n = 0")
    case False
    have "unat (n AND (n - 1)) = unat n AND (unat n - 1)"
      using False by (simp add: unsigned_and_eq unat_minus_one)
    with 1 [OF False] clear_lowest_card [of "unat n"] False show ?thesis
      by (subst count_bits_loop.simps) (simp add: unat_eq_0)
  qed (simp add: count_bits_loop.simps)
qed

lemma highest_loop:
  "unat prev \<le> 32 \<Longrightarrow> prev \<noteq> 0 \<or> n = 0 \<Longrightarrow> unat prev \<le> unat (reg_invalid a) \<Longrightarrow>
    (let L = rev (filter (bit reglist) [0 ..< unat prev]) in
     if n \<le> length L then \<exists>regs. get_highest_n_regs_loop a reglist n prev = Ok (n, regs) \<and> map unat regs = take n L
     else get_highest_n_regs_loop a reglist n prev = Undef)"
proof (induction n arbitrary: prev)
  case 0
  then show ?case by simp
next
  case (Suc n)
  let ?L = "rev (filter (bit reglist) [0 ..< unat prev])"
  have nz: "prev \<noteq> 0" using Suc.prems(2) by simp
  then have pred: "Suc (unat (prev - 1)) = unat prev" "unat (prev - 1) < 32"
    using Suc.prems(1) by (simp_all add: unat_gt_0 unat_minus_one)
  note last = last_reg_in_list_last [OF pred(2), of reglist, unfolded pred(1)]
  show ?case
  proof (cases ?L)
    case Nil
    then have "last_reg_in_list reglist (prev - 1) = Undef" using last by simp
    with Nil show ?thesis by simp
  next
    case (Cons x xs)
    then obtain r where r: "last_reg_in_list reglist (prev - 1) = Ok r" "unat r = x"
        "xs = rev (filter (bit reglist) [0 ..< x])"
      using last by auto
    have "x \<in> set ?L" using Cons by simp
    then have x: "x < unat prev" by simp
    then have inv: "r < reg_invalid a" using r(2) Suc.prems(3) by (simp add: word_less_nat_alt)
    show ?thesis
    proof (cases "r = 0")
      case True
      then have "xs = []" using r by simp
      then show ?thesis
        using Cons r inv True by (cases n) (simp_all add: Let_def last_reg_step)
    next
      case False
      have "unat r \<le> 32" "unat r \<le> unat (reg_invalid a)" using x r(2) Suc.prems(1,3) by auto
      with Suc.IH [of r] False Cons r inv show ?thesis by (auto simp: Let_def split: if_splits)
    qed
  qed
qed

section \<open>Properties\<close>

text \<open>\<open>get_lowest_n_regs\<close> delivers the lowest registers of the list in ascending order, padded with
  \<open>reg_invalid\<close>, and counts how many are real.\<close>

theorem get_lowest_n_regs_sorted:
  assumes "get_lowest_n_regs a reglist n = (count, regs)"
  shows "map unat regs = take (nat n) (regs_from a reglist 0)
      @ replicate (nat n - length (regs_from a reglist 0)) (unat (reg_invalid a))
    \<and> count = min (nat n) (length (regs_from a reglist 0))"
proof (cases "n < 1")
  case True
  with assms show ?thesis by (simp add: get_lowest_n_regs_def)
next
  case False
  with assms lowest_loop [of a reglist "nat n" "- 1" count regs] show ?thesis
    by (simp add: get_lowest_n_regs_def)
qed

theorem get_lowest_n_regs_sorted_witness:
  "map unat (snd (get_lowest_n_regs AArch64 0x80000012 4)) = [1, 4, 31, 32]"
proof -
  have "get_lowest_n_regs AArch64 0x80000012 4 = (fst (get_lowest_n_regs AArch64 0x80000012 4), snd (get_lowest_n_regs AArch64 0x80000012 4))"
    by simp
  from get_lowest_n_regs_sorted [OF this] have
    "map unat (snd (get_lowest_n_regs AArch64 0x80000012 4)) = take 4 (regs_from AArch64 0x80000012 0)
      @ replicate (4 - length (regs_from AArch64 0x80000012 0)) 32" by simp
  moreover have "regs_from AArch64 0x80000012 0 = [1, 4, 31]" by code_simp
  ultimately show ?thesis by simp
qed

text \<open>\<open>get_highest_n_regs\<close> delivers the highest registers in descending order when the list has at
  least as many as asked for; otherwise the search for the next one runs past register 0 and the
  counter wraps, so the function never reports \<open>reg_invalid\<close>.\<close>

theorem get_highest_n_regs_sorted:
  assumes "1 \<le> n"
  shows "let L = rev (filter (bit reglist) [0 ..< unat (reg_invalid a)]) in
    if nat n \<le> length L then \<exists>regs. get_highest_n_regs a reglist n = Ok (nat n, regs) \<and> map unat regs = take (nat n) L
    else get_highest_n_regs a reglist n = Undef"
proof -
  have "unat (reg_invalid a) \<le> 32" "reg_invalid a \<noteq> 0" by (cases a; simp)+
  with assms highest_loop [of "reg_invalid a" "nat n" a reglist] show ?thesis
    by (simp add: get_highest_n_regs_def)
qed

theorem get_highest_n_regs_sorted_witness:
  "get_highest_n_regs AArch64 0x10 2 = Undef"
proof -
  have "rev (filter (bit (0x10 :: u32)) [0 ..< unat (reg_invalid AArch64)]) = [4]" by code_simp
  then show ?thesis
    using get_highest_n_regs_sorted [of 2 "0x10" AArch64] by simp
qed

text \<open>The bit counter's loop terminates and counts the set bits of its argument.\<close>

theorem count_bits_card: "count_bits n = card {i. bit (unat n) i}"
  by (simp add: count_bits_def count_bits_loop_card bits_of_def)

lemma unat_align_lower: "unat (address div n * n) = unat address div unat n * unat n" for address n :: uintptr
proof -
  have "unat address div unat n * unat n \<le> unat address"
    by (rule div_times_less_eq_dividend)
  also have "unat address < 2 ^ LENGTH(64)"
    by (rule unsigned_less)
  finally have "unat address div unat n * unat n < 2 ^ 64" by simp
  then show ?thesis by (simp add: unat_word_ariths unat_div mod_mult_left_eq)
qed

text \<open>Both of MAMBO's ways of rounding an address up agree: \<open>align_higher\<close> and the macro \<open>ROUND_UP\<close>
  give the least multiple of the alignment that is not below the address, unless that multiple
  does not fit the address space.\<close>

theorem align_higher_least:
  assumes "n \<noteq> 0" "unat address + unat n \<le> 2 ^ 64"
  shows "\<exists>r. align_higher address n = Ok r \<and> ROUND_UP address n = Ok r \<and>
    unat n dvd unat r \<and> unat address \<le> unat r \<and> unat r < unat address + unat n"
proof -
  let ?a = "unat address" and ?n = "unat n" and ?l = "address div n * n"
  have n: "0 < ?n" using assms(1) by (simp add: unat_gt_0)
  have l: "unat ?l = ?a div ?n * ?n" by (rule unat_align_lower)
  have am: "?a = ?a div ?n * ?n + ?a mod ?n" by simp
  have eq: "?l = address \<longleftrightarrow> address mod n = 0"
    by (metis add.right_neutral add_left_imp_eq word_mod_div_equality div_mult_mod_eq)
  have "?a div ?n * ?n + ?n < 2 ^ 64 \<or> ?a mod ?n = 0"
    using assms(2) am by linarith
  then have up: "unat (?l + n) = ?a div ?n * ?n + ?n" if "?a mod ?n \<noteq> 0"
    using that l by (simp add: unat_word_ariths)
  have md: "address mod n = 0 \<longleftrightarrow> ?a mod ?n = 0"
    by (metis unat_eq_0 unat_mod)
  show ?thesis
  proof (cases "?a mod ?n = 0")
    case True
    then have "?l = address" using eq md by simp
    with True n md assms(1) show ?thesis
      by (intro exI [of _ address]) (auto simp: align_higher_def align_lower_def ROUND_UP_def dvd_eq_mod_eq_0)
  next
    case False
    then have "?l \<noteq> address" "address mod n \<noteq> 0" using eq md by simp_all
    moreover have "?a \<le> ?a div ?n * ?n + ?n" "?a div ?n * ?n < ?a"
      using mod_less_divisor [OF n, of ?a] False am by linarith+
    ultimately show ?thesis
      using False up assms(1)
      by (intro exI [of _ "?l + n"]) (auto simp: align_higher_def align_lower_def ROUND_UP_def)
  qed
qed

theorem align_higher_least_witness: "align_higher 0x50000001 0x1000 = Ok 0x50001000"
proof -
  obtain r where "align_higher 0x50000001 0x1000 = Ok r" "unat (0x1000 :: uintptr) dvd unat r"
      "unat (0x50000001 :: uintptr) \<le> unat r" "unat r < unat (0x50000001 :: uintptr) + unat (0x1000 :: uintptr)"
    using align_higher_least [of "0x1000" "0x50000001"] by auto
  moreover have "align_higher 0x50000001 0x1000 = Ok 0x50001000" by code_simp
  ultimately show ?thesis by simp
qed

end
