(* ===== verification/Link_Pool.thy ===== *)
theory Link_Pool
  imports Mambo_Prelude
begin

text \<open>
  The pool allocator for code cache links (\<open>common.c\<close>): a fixed array of list cells, threaded into a
  free list by \<open>linked_list_init\<close> and handed out by \<open>linked_list_alloc\<close>. A pointer to a cell is its
  index in the pool, a null pointer is \<open>None\<close>.
\<close>

section \<open>Data and operations\<close>

record ll_entry =
  ll_next :: "nat option"
  ll_data :: uintptr

record ll =
  free_list :: "nat option"
  ll_size :: int
  pool :: "ll_entry list"

text \<open>The loop of \<open>linked_list_init\<close> over the cells below \<open>i\<close>; every cell but the last points to the next one.\<close>

definition linked_list_init :: "ll \<Rightarrow> int \<Rightarrow> ll res" where
  "linked_list_init list sz =
     res_bind (res_assert (sz \<ge> 1)) (\<lambda>_.
       if sz \<le> int (length (pool list)) then
         Ok (list\<lparr>ll_size := sz, free_list := Some 0,
           pool := map (\<lambda>(i, c). if int i < sz - 1 then c\<lparr>ll_next := Some (Suc i)\<rparr>
                                 else if int i = sz - 1 then c\<lparr>ll_next := None\<rparr> else c)
                     (enumerate 0 (pool list))\<rparr>)
       else Mem_Fault)"

definition linked_list_alloc :: "ll \<Rightarrow> (nat option \<times> ll) res" where
  "linked_list_alloc list =
     (case free_list list of
        None \<Rightarrow> Ok (None, list)
      | Some entry \<Rightarrow>
          res_bind (arr_get (pool list) (int entry)) (\<lambda>c.
          res_bind (arr_set (pool list) (int entry) (c\<lparr>ll_next := None\<rparr>)) (\<lambda>p.
          Ok (Some entry, list\<lparr>free_list := ll_next c, pool := p\<rparr>))))"

section \<open>Chains\<close>

text \<open>The cells reached from a pointer, in order, until a null pointer.\<close>

fun chain :: "ll_entry list \<Rightarrow> nat option \<Rightarrow> nat list \<Rightarrow> bool" where
  "chain p ptr [] \<longleftrightarrow> ptr = None"
| "chain p ptr (i # is) \<longleftrightarrow> ptr = Some i \<and> i < length p \<and> chain p (ll_next (p ! i)) is"

lemma chain_cells: "chain p ptr is \<Longrightarrow> set is \<subseteq> {..< length p}"
  by (induction "is" arbitrary: ptr) auto

lemma chain_frame: "chain p ptr is \<Longrightarrow> k \<notin> set is \<Longrightarrow> chain (p[k := c]) ptr is"
  by (induction "is" arbitrary: ptr) auto

lemma chain_data: "chain p ptr is \<Longrightarrow> ll_next c = ll_next (p ! k) \<Longrightarrow> chain (p[k := c]) ptr is"
proof (induction "is" arbitrary: ptr)
  case (Cons i "is")
  then show ?case by (cases "k = i") auto
qed simp

lemma chain_upt:
  assumes "\<And>i. m \<le> i \<Longrightarrow> i < n - 1 \<Longrightarrow> ll_next (p ! i) = Some (Suc i)" "ll_next (p ! (n - 1)) = None"
    "n \<le> length p" "m < n"
  shows "chain p (Some m) [m ..< n]"
  using assms
proof (induction "n - m" arbitrary: m)
  case (Suc d)
  show ?case
  proof (cases "Suc m < n")
    case True
    have "chain p (Some (Suc m)) [Suc m ..< n]"
      using Suc.hyps(2) Suc.prems True by (intro Suc.hyps(1)) auto
    with True Suc.prems(1) [of m] Suc.prems(3) show ?thesis by (simp add: upt_conv_Cons)
  next
    case False
    with Suc.prems have "n = Suc m" by simp
    with Suc.prems(2,3) show ?thesis by simp
  qed
qed simp

text \<open>The free cells are a chain without repetitions.\<close>

definition pool_ok :: "ll \<Rightarrow> nat list \<Rightarrow> bool" where
  "pool_ok l free \<longleftrightarrow> chain (pool l) (free_list l) free \<and> distinct free"

lemma linked_list_init_ok:
  assumes "1 \<le> sz" "sz \<le> int (length (pool l))"
  shows "\<exists>l'. linked_list_init l sz = Ok l' \<and> pool_ok l' [0 ..< nat sz] \<and> length (pool l') = length (pool l)"
proof -
  let ?p = "map (\<lambda>(i, c). if int i < sz - 1 then c\<lparr>ll_next := Some (Suc i)\<rparr>
      else if int i = sz - 1 then c\<lparr>ll_next := None\<rparr> else c) (enumerate 0 (pool l))"
  have nth: "ll_next (?p ! i) = Some (Suc i)" if "i < nat sz - 1" for i
    using that assms by (auto simp: nth_enumerate_eq)
  have last: "ll_next (?p ! (nat sz - 1)) = None"
    using assms by (auto simp: nth_enumerate_eq of_nat_diff)
  have "chain ?p (Some 0) [0 ..< nat sz]"
    by (rule chain_upt) (use nth last assms in auto)
  then show ?thesis
    using assms by (simp add: linked_list_init_def pool_ok_def)
qed

lemma linked_list_alloc_ok:
  assumes "pool_ok l (i # free)"
  shows "\<exists>l'. linked_list_alloc l = Ok (Some i, l') \<and> pool_ok l' free \<and> length (pool l') = length (pool l) \<and>
    pool l' = (pool l)[i := (pool l ! i)\<lparr>ll_next := None\<rparr>]"
  using assms by (auto simp: pool_ok_def linked_list_alloc_def intro: chain_frame)

lemma linked_list_alloc_empty: "pool_ok l [] \<Longrightarrow> linked_list_alloc l = Ok (None, l)"
  by (simp add: pool_ok_def linked_list_alloc_def)

section \<open>Properties\<close>

fun alloc_n :: "nat \<Rightarrow> ll \<Rightarrow> (nat option list \<times> ll) res" where
  "alloc_n 0 l = Ok ([], l)"
| "alloc_n (Suc n) l =
     res_bind (linked_list_alloc l) (\<lambda>(p, l').
     res_bind (alloc_n n l') (\<lambda>(ps, l''). Ok (p # ps, l'')))"

lemma alloc_n_spec:
  "pool_ok l free \<Longrightarrow>
    \<exists>l'. alloc_n n l = Ok (map Some (take n free) @ replicate (n - length free) None, l') \<and> pool_ok l' (drop n free)"
proof (induction n arbitrary: l free)
  case 0
  then show ?case by simp
next
  case (Suc n)
  show ?case
  proof (cases free)
    case Nil
    with Suc.IH [of l "[]"] Suc.prems linked_list_alloc_empty [of l] show ?thesis by auto
  next
    case (Cons i rest)
    then obtain l' where l': "linked_list_alloc l = Ok (Some i, l')" "pool_ok l' rest"
      using linked_list_alloc_ok [of l i rest] Suc.prems by auto
    with Suc.IH [OF l'(2)] Cons show ?thesis by auto
  qed
qed

text \<open>C20: After initialisation with \<open>size\<close> cells, allocating repeatedly hands out every cell of the pool
  exactly once, in index order, and a null pointer once the pool is exhausted.\<close>

theorem pool_allocates_all:
  assumes "1 \<le> sz" "sz \<le> int (length (pool l))"
  shows "\<exists>l'. res_bind (linked_list_init l sz) (alloc_n n) =
    Ok (map Some [0 ..< min n (nat sz)] @ replicate (n - nat sz) None, l')"
proof -
  obtain l1 where l1: "linked_list_init l sz = Ok l1" "pool_ok l1 [0 ..< nat sz]"
    using linked_list_init_ok [OF assms] by blast
  obtain l' where "alloc_n n l1 = Ok (map Some (take n [0 ..< nat sz]) @ replicate (n - nat sz) None, l')"
    using alloc_n_spec [OF l1(2), of n] by auto
  with l1(1) show ?thesis by (simp add: take_upt min_def)
qed

theorem pool_allocates_all_witness:
  "\<exists>l'. res_bind (linked_list_init \<lparr>free_list = None, ll_size = 0, pool = replicate 2 \<lparr>ll_next = None, ll_data = 0\<rparr>\<rparr> 2)
     (alloc_n 3) = Ok ([Some 0, Some 1, None], l')"
  using pool_allocates_all [of 2 "\<lparr>free_list = None, ll_size = 0, pool = replicate 2 \<lparr>ll_next = None, ll_data = 0\<rparr>\<rparr>" 3]
  by (simp add: upt_rec numeral_eq_Suc)

end
