(* ===== verification/Plugin_Hash.thy ===== *)
theory Plugin_Hash
  imports Mambo_Prelude
begin

text \<open>
  The resizable hash table offered to plugins (\<open>api/hash_table.c\<close>): open addressing with cyclic linear
  probing over a power-of-two array. Rehashing reuses the insertion, which may resize again, so the two
  are mutually recursive. \<open>calloc\<close> is a parameter that says which element counts can be allocated; the
  results of the pthread calls are parameters too.
\<close>

section \<open>Data\<close>

record mambo_ht_entry =
  hte_key :: uintptr
  hte_value :: uintptr

record mambo_ht =
  mht_size :: uintptr
  entry_count :: uintptr
  index_shift :: int
  allow_resize :: bool
  fill_factor :: int
  resize_threshold :: uintptr
  mht_entries :: "mambo_ht_entry list"

definition zero_entry :: mambo_ht_entry where
  "zero_entry = \<lparr>hte_key = 0, hte_value = 0\<rparr>"

definition calloc_entries :: "(uintptr \<Rightarrow> bool) \<Rightarrow> uintptr \<Rightarrow> mambo_ht_entry list option" where
  "calloc_entries calloc_ok n = (if calloc_ok n then Some (replicate (unat n) zero_entry) else None)"

section \<open>Initialisation\<close>

text \<open>The number of left shifts after which a word is zero bounds the rounding loop.\<close>

definition shifts_left :: "uintptr \<Rightarrow> nat" where
  "shifts_left w = (LEAST n. push_bit n w = 0)"

lemma shifts_left_push: "w \<noteq> 0 \<Longrightarrow> shifts_left (push_bit 1 w) < shifts_left w"
proof -
  assume nz: "w \<noteq> 0"
  have "push_bit 64 w = 0" by (simp add: bit_eq_iff bit_simps)
  then have z: "push_bit (shifts_left w) w = 0"
    unfolding shifts_left_def by (rule LeastI)
  with nz obtain n where n: "shifts_left w = Suc n" by (cases "shifts_left w") auto
  have "push_bit n (push_bit 1 w) = 0"
    using z n by (simp add: push_bit_push_bit)
  then have "shifts_left (push_bit 1 w) \<le> n"
    unfolding shifts_left_def by (rule Least_le)
  with n show ?thesis by simp
qed

text \<open>Once the shifted size is zero the loop \<open>while (size < initial_size) size <<= 1\<close> never ends.\<close>

function round_size :: "uintptr \<Rightarrow> uintptr \<Rightarrow> uintptr res" where
  "round_size initial_size sz =
     (if sz < initial_size then
        if sz = 0 then Spin else round_size initial_size (push_bit 1 sz)
      else Ok sz)"
  by pat_completeness auto
termination
  by (relation "measure (\<lambda>(initial_size, sz). shifts_left sz)") (simp_all add: shifts_left_push del: One_nat_def)

declare round_size.simps [simp del]

definition threshold_of :: "uintptr \<Rightarrow> int \<Rightarrow> uintptr" where
  "threshold_of sz ff = sz * word_of_int ff div 100"

definition mambo_ht_init ::
    "(uintptr \<Rightarrow> bool) \<Rightarrow> int \<Rightarrow> mambo_ht \<Rightarrow> uintptr \<Rightarrow> int \<Rightarrow> int \<Rightarrow> bool \<Rightarrow> (int \<times> mambo_ht) res" where
  "mambo_ht_init calloc_ok mutex_ret ht initial_size shift ff resize =
     (if ff < 10 \<or> ff > 90 then Ok (-1, ht)
      else if shift < 0 \<or> shift > 20 then Ok (-1, ht)
      else res_bind (round_size initial_size 1) (\<lambda>sz.
        if mutex_ret \<noteq> 0 then Ok (-1, ht)
        else (case calloc_entries calloc_ok sz of
            None \<Rightarrow> Ok (-1, ht\<lparr>mht_entries := []\<rparr>)
          | Some es \<Rightarrow> Ok (0, ht\<lparr>mht_entries := es, entry_count := 0, mht_size := sz, allow_resize := resize,
              fill_factor := ff, index_shift := shift, resize_threshold := threshold_of sz ff\<rparr>))))"

section \<open>Probing\<close>

definition home_index :: "mambo_ht \<Rightarrow> uintptr \<Rightarrow> uintptr" where
  "home_index ht key = drop_bit (nat (index_shift ht)) key AND (mht_size ht - 1)"

text \<open>
  The probe loop shared by insertion and lookup: it stops at a free slot or at the key. After as many
  steps as there are slots it is back at its start with nothing changed, so it runs forever.
\<close>

fun probe :: "nat \<Rightarrow> mambo_ht \<Rightarrow> uintptr \<Rightarrow> uintptr \<Rightarrow> uintptr res" where
  "probe 0 ht key index = Spin"
| "probe (Suc n) ht key index =
     res_bind (arr_get (mht_entries ht) (uint index)) (\<lambda>e.
       if hte_key e \<noteq> 0 \<and> hte_key e \<noteq> key
       then probe n ht key ((index + 1) AND (mht_size ht - 1))
       else Ok index)"

definition mambo_ht_get_nolock :: "mambo_ht \<Rightarrow> uintptr \<Rightarrow> (int \<times> uintptr option) res" where
  "mambo_ht_get_nolock ht key =
     (if key = 0 then Ok (-1, None)
      else res_bind (probe (Suc (unat (mht_size ht))) ht key (home_index ht key)) (\<lambda>index.
        res_bind (arr_get (mht_entries ht) (uint index)) (\<lambda>e.
          if hte_key e = key then Ok (0, Some (hte_value e)) else Ok (-1, None))))"

text \<open>The end of \<open>mambo_ht_add_nolock\<close>, after the capacity check.\<close>

definition ht_insert :: "mambo_ht \<Rightarrow> uintptr \<Rightarrow> uintptr \<Rightarrow> (int \<times> mambo_ht) res" where
  "ht_insert ht key val =
     res_bind (probe (Suc (unat (mht_size ht))) ht key (home_index ht key)) (\<lambda>index.
     res_bind (arr_get (mht_entries ht) (uint index)) (\<lambda>e.
     res_bind (arr_set (mht_entries ht) (uint index) \<lparr>hte_key = key, hte_value = val\<rparr>) (\<lambda>es.
       Ok (0, ht\<lparr>entry_count := (if hte_key e = 0 then entry_count ht + 1 else entry_count ht),
                 mht_entries := es\<rparr>))))"

section \<open>Insertion and resizing\<close>

text \<open>The loop of \<open>__mambo_ht_resize\<close> over the previous entries; the insertion it calls is an argument.\<close>

fun rehash :: "(mambo_ht \<Rightarrow> uintptr \<Rightarrow> uintptr \<Rightarrow> (int \<times> mambo_ht) res) \<Rightarrow> mambo_ht_entry list \<Rightarrow> mambo_ht \<Rightarrow> mambo_ht res" where
  "rehash add [] ht = Ok ht"
| "rehash add (e # es) ht =
     (if hte_key e \<noteq> 0 then
        res_bind (add ht (hte_key e) (hte_value e)) (\<lambda>(ret, ht').
        res_bind (res_assert (ret = 0)) (\<lambda>_. rehash add es ht'))
      else rehash add es ht)"

definition resize_with ::
    "(uintptr \<Rightarrow> bool) \<Rightarrow> (mambo_ht \<Rightarrow> uintptr \<Rightarrow> uintptr \<Rightarrow> (int \<times> mambo_ht) res) \<Rightarrow> mambo_ht \<Rightarrow> (int \<times> mambo_ht) res" where
  "resize_with calloc_ok add ht =
     (let new_size = push_bit 1 (mht_size ht) in
      case calloc_entries calloc_ok new_size of
        None \<Rightarrow> Ok (-1, ht)
      | Some new_entries \<Rightarrow>
          res_bind (rehash add (take (unat (mht_size ht)) (mht_entries ht))
            (ht\<lparr>mht_entries := new_entries, entry_count := 0, mht_size := new_size,
               resize_threshold := threshold_of new_size (fill_factor ht)\<rparr>)) (\<lambda>ht'. Ok (0, ht')))"

text \<open>The first argument bounds how deep resizes nest.\<close>

fun add_nolock :: "nat \<Rightarrow> (uintptr \<Rightarrow> bool) \<Rightarrow> mambo_ht \<Rightarrow> uintptr \<Rightarrow> uintptr \<Rightarrow> (int \<times> mambo_ht) res" where
  "add_nolock 0 calloc_ok ht key val = No_Fuel"
| "add_nolock (Suc n) calloc_ok ht key val =
     (if key = 0 then Ok (-1, ht)
      else if entry_count ht \<ge> resize_threshold ht then
        if allow_resize ht then
          res_bind (resize_with calloc_ok (add_nolock n calloc_ok) ht) (\<lambda>(ret, ht').
          res_bind (res_assert (ret = 0)) (\<lambda>_. ht_insert ht' key val))
        else Ok (-1, ht)
      else ht_insert ht key val)"

text \<open>Every nested resize doubles the size, so no more than 64 of them nest.\<close>

definition mambo_ht_add_nolock :: "(uintptr \<Rightarrow> bool) \<Rightarrow> mambo_ht \<Rightarrow> uintptr \<Rightarrow> uintptr \<Rightarrow> (int \<times> mambo_ht) res" where
  "mambo_ht_add_nolock = add_nolock 65"

definition mambo_ht_resize :: "(uintptr \<Rightarrow> bool) \<Rightarrow> mambo_ht \<Rightarrow> (int \<times> mambo_ht) res" where
  "mambo_ht_resize calloc_ok = resize_with calloc_ok (mambo_ht_add_nolock calloc_ok)"

definition mambo_ht_add ::
    "(uintptr \<Rightarrow> bool) \<Rightarrow> int \<Rightarrow> int \<Rightarrow> mambo_ht \<Rightarrow> uintptr \<Rightarrow> uintptr \<Rightarrow> (int \<times> mambo_ht) res" where
  "mambo_ht_add calloc_ok lock_ret unlock_ret ht key val =
     res_bind (res_assert (lock_ret = 0)) (\<lambda>_.
     res_bind (mambo_ht_add_nolock calloc_ok ht key val) (\<lambda>r.
     res_bind (res_assert (unlock_ret = 0)) (\<lambda>_. Ok r)))"

definition mambo_ht_get :: "int \<Rightarrow> int \<Rightarrow> mambo_ht \<Rightarrow> uintptr \<Rightarrow> (int \<times> uintptr option) res" where
  "mambo_ht_get lock_ret unlock_ret ht key =
     res_bind (res_assert (lock_ret = 0)) (\<lambda>_.
     res_bind (mambo_ht_get_nolock ht key) (\<lambda>r.
     res_bind (res_assert (unlock_ret = 0)) (\<lambda>_. Ok r)))"

section \<open>Well-formedness and abstraction\<close>

abbreviation slots :: "mambo_ht \<Rightarrow> nat" where
  "slots ht \<equiv> unat (mht_size ht)"

abbreviation slot_key :: "mambo_ht \<Rightarrow> nat \<Rightarrow> uintptr" where
  "slot_key ht i \<equiv> hte_key (mht_entries ht ! i)"

text \<open>The slot a probe for \<open>key\<close> visits after \<open>d\<close> steps.\<close>

definition visit :: "mambo_ht \<Rightarrow> uintptr \<Rightarrow> nat \<Rightarrow> nat" where
  "visit ht key d = (unat (home_index ht key) + d) mod slots ht"

abbreviation live :: "mambo_ht_entry list \<Rightarrow> mambo_ht_entry list" where
  "live es \<equiv> filter (\<lambda>e. hte_key e \<noteq> 0) es"

definition ht_view :: "mambo_ht \<Rightarrow> uintptr \<rightharpoonup> uintptr" where
  "ht_view ht = map_of (map (\<lambda>e. (hte_key e, hte_value e)) (live (mht_entries ht)))"

definition ht_config_ok :: "mambo_ht \<Rightarrow> bool" where
  "ht_config_ok ht \<longleftrightarrow> (\<exists>k \<le> 57. mht_size ht = 2 ^ k) \<and> 10 \<le> fill_factor ht \<and> fill_factor ht \<le> 90 \<and>
     resize_threshold ht = threshold_of (mht_size ht) (fill_factor ht) \<and> length (mht_entries ht) = slots ht"

definition ht_ok :: "mambo_ht \<Rightarrow> bool" where
  "ht_ok ht \<longleftrightarrow> ht_config_ok ht \<and>
     unat (entry_count ht) = length (live (mht_entries ht)) \<and> unat (entry_count ht) < slots ht \<and>
     (\<forall>i < slots ht. slot_key ht i \<noteq> 0 \<longrightarrow> (\<exists>d < slots ht. i = visit ht (slot_key ht i) d \<and>
        (\<forall>e < d. slot_key ht (visit ht (slot_key ht i) e) \<noteq> 0 \<and>
                 slot_key ht (visit ht (slot_key ht i) e) \<noteq> slot_key ht i)))"

lemma ht_ok_config: "ht_ok ht \<Longrightarrow> ht_config_ok ht"
  by (simp add: ht_ok_def)

lemma ht_ok_length [simp]: "ht_ok ht \<Longrightarrow> length (mht_entries ht) = slots ht"
  by (simp add: ht_ok_def ht_config_ok_def)

lemma ht_ok_count:
  "ht_ok ht \<Longrightarrow> unat (entry_count ht) = length (live (mht_entries ht)) \<and> unat (entry_count ht) < slots ht"
  by (simp add: ht_ok_def)

lemma ht_ok_slot:
  assumes "ht_ok ht" "i < slots ht" "slot_key ht i \<noteq> 0"
  obtains d where "d < slots ht" "i = visit ht (slot_key ht i) d"
    "\<And>e. e < d \<Longrightarrow> slot_key ht (visit ht (slot_key ht i) e) \<noteq> 0 \<and>
       slot_key ht (visit ht (slot_key ht i) e) \<noteq> slot_key ht i"
  using assms unfolding ht_ok_def by blast

lemma ht_ok_key:
  assumes "ht_ok ht" "i < slots ht" "slot_key ht i = key" "key \<noteq> 0"
  obtains d where "d < slots ht" "i = visit ht key d" "\<And>e. e < d \<Longrightarrow> slot_key ht (visit ht key e) \<notin> {0, key}"
proof -
  have nz: "slot_key ht i \<noteq> 0" using assms by simp
  show thesis
  proof (rule ht_ok_slot [OF assms(1,2) nz], unfold assms(3))
    fix d
    assume "d < slots ht" "i = visit ht key d"
      "\<And>e. e < d \<Longrightarrow> slot_key ht (visit ht key e) \<noteq> 0 \<and> slot_key ht (visit ht key e) \<noteq> key"
    then show thesis by (intro that [of d]) simp_all
  qed
qed

lemma slots_pow:
  assumes "ht_config_ok ht"
  obtains k where "k \<le> 57" "mht_size ht = 2 ^ k" "slots ht = 2 ^ k"
proof -
  obtain k where k: "k \<le> 57" "mht_size ht = 2 ^ k"
    using assms by (auto simp: ht_config_ok_def)
  have "(2 :: nat) ^ k < 2 ^ 64"
    using k by (intro power_strict_increasing) auto
  then have "unat (of_nat (2 ^ k) :: uintptr) = 2 ^ k"
    using k by (simp only: unsigned_of_nat take_bit_nat_eq_self_iff) simp
  with k have "slots ht = 2 ^ k" by simp
  with k that show thesis by blast
qed

lemma slots_bounds: "ht_config_ok ht \<Longrightarrow> 0 < slots ht \<and> slots ht \<le> 2 ^ 57"
  by (erule slots_pow) (metis one_le_numeral power_increasing zero_less_numeral zero_less_power)

text \<open>Masking with the size minus one is reduction modulo the size.\<close>

lemma unat_and_size:
  assumes "ht_config_ok ht"
  shows "unat (w AND (mht_size ht - 1)) = unat w mod slots ht"
proof -
  obtain k where k: "k \<le> 57" "mht_size ht = 2 ^ k" "slots ht = 2 ^ k"
    using assms by (rule slots_pow)
  then have "w AND (mht_size ht - 1) = take_bit k w"
    by (simp add: take_bit_eq_mask mask_eq_exp_minus_1)
  moreover have "unat (take_bit k w) = take_bit k (unat w)"
    by (simp only: unsigned_take_bit_eq)
  ultimately show ?thesis
    by (simp only: k(3) take_bit_eq_mod [of k "unat w"])
qed

lemma home_index_less: "ht_config_ok ht \<Longrightarrow> unat (home_index ht key) < slots ht"
  using slots_bounds by (simp add: home_index_def unat_and_size)

lemma visit_less: "ht_config_ok ht \<Longrightarrow> visit ht key d < slots ht"
  using slots_bounds by (simp add: visit_def)

lemma visit_onto:
  assumes "ht_config_ok ht" "i < slots ht"
  obtains d where "d < slots ht" "visit ht key d = i"
proof (cases "unat (home_index ht key) \<le> i")
  case True
  with assms show thesis
    by (intro that [of "i - unat (home_index ht key)"]) (auto simp: visit_def)
next
  case False
  with assms home_index_less [OF assms(1), of key] show thesis
    by (intro that [of "i + slots ht - unat (home_index ht key)"]) (auto simp: visit_def)
qed

lemma visit_step:
  assumes "ht_config_ok ht" "unat w = visit ht key d"
  shows "unat ((w + 1) AND (mht_size ht - 1)) = visit ht key (Suc d)"
proof -
  have "unat (w + 1) = unat w + 1"
    using assms visit_less [OF assms(1), of key d] slots_bounds [OF assms(1)] by (simp add: unat_word_ariths)
  then show ?thesis
    using assms by (simp add: unat_and_size visit_def mod_Suc_eq)
qed

lemma visit_cong:
  "mht_size ht' = mht_size ht \<Longrightarrow> index_shift ht' = index_shift ht \<Longrightarrow> visit ht' = visit ht"
  by (simp add: fun_eq_iff visit_def home_index_def)

section \<open>The probe loop\<close>

lemma probe_stops:
  assumes "ht_ok ht" "unat w = visit ht key d0" "d0 \<le> d" "d - d0 < n"
    "\<And>e. d0 \<le> e \<Longrightarrow> e < d \<Longrightarrow> slot_key ht (visit ht key e) \<notin> {0, key}"
    "slot_key ht (visit ht key d) \<in> {0, key}"
  shows "\<exists>w'. probe n ht key w = Ok w' \<and> unat w' = visit ht key d"
  using assms(2-)
proof (induction n arbitrary: w d0)
  case 0
  then show ?case by simp
next
  case (Suc n)
  note cfg = ht_ok_config [OF assms(1)]
  have get: "arr_get (mht_entries ht) (uint w) = Ok (mht_entries ht ! visit ht key d0)"
    using Suc.prems(1) visit_less [OF cfg, of key d0] assms(1) by simp
  show ?case
  proof (cases "d0 = d")
    case True
    then show ?thesis using Suc.prems get by auto
  next
    case False
    then have "\<exists>w'. probe n ht key ((w + 1) AND (mht_size ht - 1)) = Ok w' \<and> unat w' = visit ht key d"
      using Suc.prems visit_step [OF cfg Suc.prems(1)] by (intro Suc.IH [of _ "Suc d0"]) auto
    moreover have "slot_key ht (visit ht key d0) \<notin> {0, key}"
      using Suc.prems False by simp
    ultimately show ?thesis using get by simp
  qed
qed

lemma free_slot:
  assumes "ht_ok ht"
  obtains i where "i < slots ht" "slot_key ht i = 0"
proof -
  have "\<exists>i < slots ht. slot_key ht i = 0"
  proof (rule ccontr)
    assume "\<not> ?thesis"
    then have "live (mht_entries ht) = mht_entries ht"
      unfolding filter_id_conv using ht_ok_length [OF assms] by (metis in_set_conv_nth)
    with ht_ok_count [OF assms] ht_ok_length [OF assms] show False by auto
  qed
  then show thesis using that by blast
qed

text \<open>The slot at which the probe for a key ends.\<close>

lemma probe_end:
  assumes "ht_ok ht"
  obtains d w where "d < slots ht" "slot_key ht (visit ht key d) \<in> {0, key}"
    "\<And>e. e < d \<Longrightarrow> slot_key ht (visit ht key e) \<notin> {0, key}"
    "probe (Suc (slots ht)) ht key (home_index ht key) = Ok w" "unat w = visit ht key d"
proof -
  note cfg = ht_ok_config [OF assms]
  obtain i where i: "i < slots ht" "slot_key ht i = 0" using assms by (rule free_slot)
  obtain d0 where "d0 < slots ht" "visit ht key d0 = i" using cfg i(1) by (rule visit_onto)
  with i have P: "d0 < slots ht \<and> slot_key ht (visit ht key d0) \<in> {0, key}" by simp
  then obtain d where d: "slot_key ht (visit ht key d) \<in> {0, key}" "d \<le> d0"
      and least: "\<And>e. e < d \<Longrightarrow> slot_key ht (visit ht key e) \<notin> {0, key}"
    using least_witness [of "\<lambda>d. slot_key ht (visit ht key d) \<in> {0, key}" d0] by blast
  have dl: "d < slots ht" using d P by simp
  have "unat (home_index ht key) = visit ht key 0"
    using home_index_less [OF cfg] by (simp add: visit_def)
  then obtain w where "probe (Suc (slots ht)) ht key (home_index ht key) = Ok w" "unat w = visit ht key d"
    using probe_stops [OF assms, of "home_index ht key" key 0 d "Suc (slots ht)"] d dl least by auto
  with d dl least that show thesis by blast
qed

section \<open>The table as a map\<close>

lemma distinct_filter_nth:
  assumes "\<And>i j. i < j \<Longrightarrow> j < length xs \<Longrightarrow> P (xs ! i) \<Longrightarrow> P (xs ! j) \<Longrightarrow> f (xs ! i) \<noteq> f (xs ! j)"
  shows "distinct (map f (filter P xs))"
  using assms
proof (induction xs)
  case Nil
  then show ?case by simp
next
  case (Cons x xs)
  have "distinct (map f (filter P xs))"
    using Cons.prems [of "Suc i" "Suc j" for i j] by (intro Cons.IH) auto
  moreover have "f x \<noteq> f y" if "y \<in> set xs" "P x" "P y" for y
    using Cons.prems [of 0 "Suc j" for j] that by (auto simp: in_set_conv_nth)
  ultimately show ?case by auto
qed

lemma ht_ok_unique:
  assumes ok: "ht_ok ht" and ij: "i < slots ht" "j < slots ht" "slot_key ht i = slot_key ht j" "slot_key ht i \<noteq> 0"
  shows "i = j"
proof -
  obtain d where d: "i = visit ht (slot_key ht i) d"
      "\<And>e. e < d \<Longrightarrow> slot_key ht (visit ht (slot_key ht i) e) \<noteq> slot_key ht i"
    using ht_ok_slot [OF ok ij(1,4)] by metis
  obtain d' where d': "j = visit ht (slot_key ht j) d'"
      "\<And>e. e < d' \<Longrightarrow> slot_key ht (visit ht (slot_key ht j) e) \<noteq> slot_key ht j"
    using ht_ok_slot [OF ok ij(2)] ij(3,4) by metis
  have "d = d'"
    using d d' ij(3) by (metis linorder_neqE_nat)
  then show ?thesis using d(1) d'(1) ij(3) by metis
qed

lemma ht_ok_distinct:
  assumes "ht_ok ht"
  shows "distinct (map hte_key (live (mht_entries ht)))"
proof (rule distinct_filter_nth)
  fix i j
  assume "i < j" "j < length (mht_entries ht)" "slot_key ht i \<noteq> 0"
  then show "slot_key ht i \<noteq> slot_key ht j"
    using ht_ok_unique [OF assms, of i j] ht_ok_length [OF assms] by auto
qed

lemma ht_view_Some:
  assumes "ht_ok ht"
  shows "ht_view ht k = Some v \<longleftrightarrow>
    k \<noteq> 0 \<and> (\<exists>i < slots ht. slot_key ht i = k \<and> hte_value (mht_entries ht ! i) = v)"
proof -
  have "distinct (map fst (map (\<lambda>e. (hte_key e, hte_value e)) (live (mht_entries ht))))"
    using ht_ok_distinct [OF assms] by (simp add: comp_def)
  then show ?thesis
    using ht_ok_length [OF assms] unfolding ht_view_def by (auto simp: image_iff in_set_conv_nth)
qed

lemma ht_view_None:
  assumes "ht_ok ht"
  shows "ht_view ht k = None \<longleftrightarrow> k = 0 \<or> (\<forall>i < slots ht. slot_key ht i \<noteq> k)"
  using ht_view_Some [OF assms, of k] by (metis not_Some_eq)

lemma ht_count_view:
  assumes "ht_ok ht"
  shows "unat (entry_count ht) = card (dom (ht_view ht))"
proof -
  have "dom (ht_view ht) = set (map hte_key (live (mht_entries ht)))"
    by (simp add: ht_view_def dom_map_of_conv_image_fst image_image)
  then show ?thesis
    using distinct_card [OF ht_ok_distinct [OF assms]] ht_ok_count [OF assms] by simp
qed

text \<open>A probe for a key ends at the key's slot exactly when the key is stored.\<close>

lemma probe_end_view:
  assumes ok: "ht_ok ht" and nz: "key \<noteq> 0" and d: "d < slots ht" "slot_key ht (visit ht key d) \<in> {0, key}"
    and least: "\<And>e. e < d \<Longrightarrow> slot_key ht (visit ht key e) \<notin> {0, key}"
  shows "ht_view ht key = (if slot_key ht (visit ht key d) = key then Some (hte_value (mht_entries ht ! visit ht key d)) else None)"
proof (cases "slot_key ht (visit ht key d) = key")
  case True
  then have "ht_view ht key = Some (hte_value (mht_entries ht ! visit ht key d))"
    unfolding ht_view_Some [OF ok] using nz visit_less [OF ht_ok_config [OF ok]] by blast
  with True show ?thesis by simp
next
  case False
  have "slot_key ht i \<noteq> key" if i: "i < slots ht" for i
  proof
    assume k: "slot_key ht i = key"
    then obtain d' where d': "i = visit ht key d'" "\<And>e. e < d' \<Longrightarrow> slot_key ht (visit ht key e) \<notin> {0, key}"
      using ht_ok_key [OF ok i k nz] by blast
    have "d' = d"
      using d(2) least d' k by (metis insertI1 insertI2 linorder_neqE_nat)
    with d' k False show False by simp
  qed
  with False show ?thesis using ht_view_None [OF ok] by simp
qed

lemma ht_get_view:
  assumes ok: "ht_ok ht"
  shows "mambo_ht_get_nolock ht key =
    Ok (case ht_view ht key of None \<Rightarrow> (-1, None) | Some v \<Rightarrow> (0, Some v))"
proof (cases "key = 0")
  case True
  then show ?thesis using ht_view_None [OF ok, of 0] by (simp add: mambo_ht_get_nolock_def)
next
  case False
  obtain d w where d: "d < slots ht" "slot_key ht (visit ht key d) \<in> {0, key}"
      "\<And>e. e < d \<Longrightarrow> slot_key ht (visit ht key e) \<notin> {0, key}"
    and w: "probe (Suc (slots ht)) ht key (home_index ht key) = Ok w" "unat w = visit ht key d"
    using probe_end [OF ok] by metis
  show ?thesis
    using probe_end_view [OF ok False d] False w visit_less [OF ht_ok_config [OF ok], of key d] ok
    by (simp add: mambo_ht_get_nolock_def del: probe.simps)
qed

section \<open>Insertion into a table with room\<close>

lemma ht_insert_ok:
  assumes ok: "ht_ok ht" and nz: "key \<noteq> 0" and room: "unat (entry_count ht) + 1 < slots ht"
  shows "\<exists>ht'. ht_insert ht key val = Ok (0, ht') \<and> ht_ok ht' \<and> ht_view ht' = (ht_view ht)(key \<mapsto> val) \<and>
    mht_size ht' = mht_size ht \<and> allow_resize ht' = allow_resize ht"
proof -
  note cfg = ht_ok_config [OF ok]
  obtain d w where d: "d < slots ht" "slot_key ht (visit ht key d) \<in> {0, key}"
      "\<And>e. e < d \<Longrightarrow> slot_key ht (visit ht key e) \<notin> {0, key}"
    and w: "probe (Suc (slots ht)) ht key (home_index ht key) = Ok w" "unat w = visit ht key d"
    using probe_end [OF ok] by metis
  define i where "i = visit ht key d"
  have i: "i < slots ht" "slot_key ht i \<in> {0, key}" using visit_less [OF cfg] d by (simp_all add: i_def)
  define ht' where "ht' = ht\<lparr>entry_count := (if slot_key ht i = 0 then entry_count ht + 1 else entry_count ht),
    mht_entries := (mht_entries ht)[i := \<lparr>hte_key = key, hte_value = val\<rparr>]\<rparr>"
  have ins: "ht_insert ht key val = Ok (0, ht')"
    using w i ok by (simp add: ht_insert_def ht'_def i_def del: probe.simps)
  have keys: "slot_key ht' j = (if j = i then key else slot_key ht j)" for j
    using i ok by (simp add: ht'_def nth_list_update)
  have vis: "visit ht' = visit ht" by (rule visit_cong) (simp_all add: ht'_def)
  have cnt: "unat (entry_count ht') = unat (entry_count ht) + (if slot_key ht i = 0 then 1 else 0)"
    using room slots_bounds [OF cfg] by (simp add: ht'_def unat_word_ariths)
  have "int (length (live (mht_entries ht'))) = int (length (live (mht_entries ht))) + (if slot_key ht i = 0 then 1 else 0)"
    using length_filter_update [of i "mht_entries ht" "\<lambda>e. hte_key e \<noteq> 0"] i nz ok by (simp add: ht'_def)
  then have len: "length (live (mht_entries ht')) = length (live (mht_entries ht)) + (if slot_key ht i = 0 then 1 else 0)"
    by (simp split: if_splits)
  have chains: "\<exists>d < slots ht. j = visit ht (slot_key ht' j) d \<and> (\<forall>e < d. slot_key ht' (visit ht (slot_key ht' j) e) \<noteq> 0 \<and>
       slot_key ht' (visit ht (slot_key ht' j) e) \<noteq> slot_key ht' j)"
    if j: "j < slots ht" "slot_key ht' j \<noteq> 0" for j
  proof (cases "j = i")
    case True
    have "visit ht key e \<noteq> i" if "e < d" for e using d(3) [OF that] i(2) by auto
    then show ?thesis using d True unfolding i_def by (intro exI [of _ d]) (auto simp: keys i_def)
  next
    case False
    then have j0: "slot_key ht j \<noteq> 0" using j keys by simp
    obtain d' where d': "d' < slots ht" "j = visit ht (slot_key ht j) d'"
        "\<And>e. e < d' \<Longrightarrow> slot_key ht (visit ht (slot_key ht j) e) \<noteq> 0 \<and> slot_key ht (visit ht (slot_key ht j) e) \<noteq> slot_key ht j"
      using ht_ok_slot [OF ok j(1) j0] by blast
    have "slot_key ht j \<noteq> key"
      if "e < d'" "visit ht (slot_key ht j) e = i" for e
    proof
      assume "slot_key ht j = key"
      moreover from this have "slot_key ht i = key" using d'(3) [OF that(1)] that(2) i(2) by auto
      ultimately show False using ht_ok_unique [OF ok j(1) i(1)] False nz by simp
    qed
    then show ?thesis
      using d' False nz by (intro exI [of _ d']) (auto simp: keys)
  qed
  have ok': "ht_ok ht'"
    unfolding ht_ok_def
  proof (intro conjI)
    show "ht_config_ok ht'" using cfg by (simp add: ht_config_ok_def ht'_def)
    show "unat (entry_count ht') = length (live (mht_entries ht'))"
      using cnt len ht_ok_count [OF ok] by simp
    show "unat (entry_count ht') < slots ht'"
      using cnt room by (simp add: ht'_def)
    show "\<forall>i < slots ht'. slot_key ht' i \<noteq> 0 \<longrightarrow> (\<exists>d < slots ht'. i = visit ht' (slot_key ht' i) d \<and>
        (\<forall>e < d. slot_key ht' (visit ht' (slot_key ht' i) e) \<noteq> 0 \<and> slot_key ht' (visit ht' (slot_key ht' i) e) \<noteq> slot_key ht' i))"
      using chains unfolding vis by (simp add: ht'_def)
  qed
  have val: "hte_value (mht_entries ht' ! j) = (if j = i then val else hte_value (mht_entries ht ! j))" for j
    using i ok by (simp add: ht'_def nth_list_update)
  have sz: "mht_size ht' = mht_size ht" by (simp add: ht'_def)
  have "ht_view ht' k = ((ht_view ht)(key \<mapsto> val)) k" for k
  proof (cases "k = key")
    case True
    have "ht_view ht' key = Some val"
      unfolding ht_view_Some [OF ok'] sz keys val using i nz by auto
    with True show ?thesis by simp
  next
    case False
    have "ht_view ht' k = Some u \<longleftrightarrow> ht_view ht k = Some u" for u
      unfolding ht_view_Some [OF ok'] ht_view_Some [OF ok] sz keys val using False i by auto
    with False show ?thesis by (metis fun_upd_other option.exhaust)
  qed
  with ins ok' sz show ?thesis by (intro exI [of _ ht']) (auto simp: ht'_def)
qed

section \<open>Empty tables\<close>

lemma ht_ok_empty:
  assumes "ht_config_ok ht" "mht_entries ht = replicate (slots ht) zero_entry" "entry_count ht = 0"
  shows "ht_ok ht \<and> ht_view ht = Map.empty"
proof -
  have "live (mht_entries ht) = []"
    by (simp add: assms(2) zero_entry_def filter_empty_conv)
  moreover have "slot_key ht i = 0" if "i < slots ht" for i
    using that by (simp add: assms(2) zero_entry_def)
  ultimately show ?thesis
    using assms slots_bounds [OF assms(1)] by (simp add: ht_ok_def ht_view_def)
qed

lemma unat_threshold:
  assumes "10 \<le> ff" "ff \<le> 90" "unat sz \<le> 2 ^ 57"
  shows "unat (threshold_of sz ff) = unat sz * nat ff div 100"
proof -
  have ff: "unat (word_of_int ff :: uintptr) = nat ff"
    using assms by (simp add: unsigned_of_int take_bit_int_eq_self)
  have "unat sz * nat ff \<le> 2 ^ 57 * 90"
    using assms by (intro mult_le_mono) auto
  then have "unat (sz * word_of_int ff) = unat sz * nat ff"
    by (simp add: unat_word_ariths ff)
  then show ?thesis by (simp add: threshold_of_def unat_div_distrib)
qed

text \<open>Below the threshold there is room for one more entry; at the threshold the table is at least a tenth full.\<close>

lemma below_threshold:
  assumes "ht_ok ht"
  shows "entry_count ht < resize_threshold ht \<Longrightarrow> unat (entry_count ht) + 1 < slots ht"
    and "resize_threshold ht \<le> entry_count ht \<Longrightarrow> slots ht < 10 * (unat (entry_count ht) + 1)"
proof -
  note cfg = ht_ok_config [OF assms]
  let ?ff = "nat (fill_factor ht)"
  have ff: "10 \<le> ?ff" "?ff \<le> 90" using cfg by (auto simp: ht_config_ok_def)
  have thr: "unat (resize_threshold ht) = slots ht * ?ff div 100"
    using cfg slots_bounds [OF cfg] unat_threshold [of "fill_factor ht" "mht_size ht"] by (simp add: ht_config_ok_def)
  have "slots ht * ?ff \<le> slots ht * 90" using ff by simp
  moreover have "slots ht * 10 \<le> slots ht * ?ff" using ff by simp
  ultimately have b: "slots ht * ?ff div 100 \<le> slots ht * 90 div 100" "slots ht * 10 div 100 \<le> slots ht * ?ff div 100"
    using div_le_mono by blast+
  show "unat (entry_count ht) + 1 < slots ht" if "entry_count ht < resize_threshold ht"
  proof -
    have "unat (entry_count ht) < slots ht * 90 div 100"
      using that thr b by (simp add: word_less_nat_alt)
    then show ?thesis by linarith
  qed
  show "slots ht < 10 * (unat (entry_count ht) + 1)" if "resize_threshold ht \<le> entry_count ht"
  proof -
    have "slots ht * 10 div 100 \<le> unat (entry_count ht)"
      using that thr b by (simp add: word_le_nat_alt)
    then have "slots ht div 10 < unat (entry_count ht) + 1" by simp
    then show ?thesis by (simp only: div_less_iff_less_mult zero_less_numeral mult.commute)
  qed
qed

lemma round_size_step:
  "round_size n sz = (if sz < n then if sz = 0 then Spin else round_size n (push_bit 1 sz) else Ok sz)"
  by (rule round_size.simps)

lemma unat_pow64: "k < 64 \<Longrightarrow> unat (2 ^ k :: uintptr) = 2 ^ k"
proof -
  assume k: "k < 64"
  have "unat (of_nat (2 ^ k) :: uintptr) = 2 ^ k"
    using k by (simp only: unsigned_of_nat take_bit_nat_eq_self_iff) simp
  then show ?thesis by simp
qed

text \<open>The rounding loop finds the least power of two that is large enough; there is none above \<open>2^63\<close>.\<close>

lemma round_size_pow:
  assumes "j \<le> 63"
  shows "if unat n \<le> 2 ^ 63
    then \<exists>k. j \<le> k \<and> k \<le> 63 \<and> round_size n (2 ^ j) = Ok (2 ^ k) \<and> unat n \<le> 2 ^ k \<and> (j < k \<longrightarrow> 2 ^ (k - 1) < unat n)
    else round_size n (2 ^ j) = Spin"
  using assms
proof (induction rule: inc_induct)
  case base
  have z: "push_bit 1 (2 ^ 63 :: uintptr) = 0" by simp
  have nz: "(2 ^ 63 :: uintptr) \<noteq> 0" by simp
  have less: "(2 ^ 63 :: uintptr) < n \<longleftrightarrow> 2 ^ 63 < unat n"
    by (simp only: word_less_nat_alt unat_pow64)
  have step63: "round_size n (2 ^ 63) = (if 2 ^ 63 < unat n then round_size n 0 else Ok (2 ^ 63))"
    using nz by (subst round_size_step) (simp only: z less if_False)
  have "round_size n 0 = Spin" if "2 ^ 63 < unat n"
    using that by (subst round_size_step) (simp add: word_less_nat_alt)
  then show ?case
    by (simp only: step63 not_less [symmetric]) (auto intro: exI [of _ 63])
next
  case (step j)
  have p: "unat (2 ^ j :: uintptr) = 2 ^ j" using step by (intro unat_pow64) simp
  have shift: "push_bit 1 (2 ^ j :: uintptr) = 2 ^ Suc j" by (simp add: push_bit_eq_mult)
  show ?case
  proof (cases "2 ^ j < unat n")
    case True
    have "(2 ^ j :: uintptr) \<noteq> 0" using p by (metis power_not_zero unsigned_0 zero_neq_numeral)
    with True p have eq: "round_size n (2 ^ j) = round_size n (2 ^ Suc j)"
      using round_size_step [of n "2 ^ j"] shift by (simp add: word_less_nat_alt del: One_nat_def power_Suc)
    show ?thesis
    proof (cases "unat n \<le> 2 ^ 63")
      case T: True
      then obtain k where "Suc j \<le> k" "k \<le> 63" "round_size n (2 ^ Suc j) = Ok (2 ^ k)" "unat n \<le> 2 ^ k"
          "Suc j < k \<longrightarrow> 2 ^ (k - 1) < unat n"
        using step.IH by auto
      moreover from this True have "2 ^ (k - 1) < unat n" by (cases "k = Suc j") auto
      ultimately have "j \<le> k \<and> k \<le> 63 \<and> round_size n (2 ^ j) = Ok (2 ^ k) \<and> unat n \<le> 2 ^ k \<and> (j < k \<longrightarrow> 2 ^ (k - 1) < unat n)"
        using eq by (intro conjI) simp_all
      with T show ?thesis unfolding if_P [OF T] by (intro exI [of _ k])
    qed (use step.IH eq in simp)
  next
    case False
    then have "unat n \<le> 2 ^ 63"
      using step.hyps by (meson le_less_linear less_imp_le order_trans one_le_numeral power_increasing)
    with False p show ?thesis
      using round_size_step [of n "2 ^ j"] step.hyps by (auto simp: word_less_nat_alt intro: exI [of _ j])
  qed
qed

section \<open>Resizing insertion\<close>

text \<open>
  Either the pair has been put, in a table that is no smaller, or an allocation failed: one of at
  most twenty times the number of entries the table was to hold.
\<close>

definition put_outcome :: "(uintptr \<Rightarrow> bool) \<Rightarrow> mambo_ht \<Rightarrow> (uintptr \<rightharpoonup> uintptr) \<Rightarrow> nat \<Rightarrow> mambo_ht res \<Rightarrow> bool" where
  "put_outcome calloc_ok ht m c r \<longleftrightarrow>
     (\<exists>ht'. r = Ok ht' \<and> ht_ok ht' \<and> ht_view ht' = m \<and> slots ht \<le> slots ht' \<and> allow_resize ht' = allow_resize ht) \<or>
     (r = Assert_Fail \<and> (\<exists>n. \<not> calloc_ok n \<and> unat n \<le> 20 * c))"

text \<open>What the insertion passed to \<open>rehash\<close> has to satisfy: tables of \<open>lo\<close> slots and more.\<close>

definition put_spec :: "(uintptr \<Rightarrow> bool) \<Rightarrow> nat \<Rightarrow> (mambo_ht \<Rightarrow> uintptr \<Rightarrow> uintptr \<Rightarrow> (int \<times> mambo_ht) res) \<Rightarrow> bool" where
  "put_spec calloc_ok lo add \<longleftrightarrow>
     (\<forall>ht k v. ht_ok ht \<longrightarrow> k \<noteq> 0 \<longrightarrow> allow_resize ht \<longrightarrow> lo \<le> slots ht \<longrightarrow>
        put_outcome calloc_ok ht ((ht_view ht)(k \<mapsto> v)) (unat (entry_count ht) + 1)
          (res_bind (add ht k v) (\<lambda>(ret, ht'). res_bind (res_assert (ret = 0)) (\<lambda>_. Ok ht'))))"

lemma rehash_outcome:
  assumes spec: "put_spec calloc_ok lo add"
  shows "ht_ok ht \<Longrightarrow> allow_resize ht \<Longrightarrow> lo \<le> slots ht \<Longrightarrow>
    distinct (map hte_key (live es)) \<Longrightarrow> dom (ht_view ht) \<inter> hte_key ` set (live es) = {} \<Longrightarrow>
    put_outcome calloc_ok ht (ht_view ht ++ map_of (map (\<lambda>e. (hte_key e, hte_value e)) (live es)))
      (card (dom (ht_view ht)) + length (live es)) (rehash add es ht)"
proof (induction es arbitrary: ht)
  case Nil
  then show ?case by (simp add: put_outcome_def)
next
  case (Cons e es)
  show ?case
  proof (cases "hte_key e = 0")
    case True
    with Cons show ?thesis by simp
  next
    case False
    let ?r = "res_bind (add ht (hte_key e) (hte_value e)) (\<lambda>(ret, ht'). res_bind (res_assert (ret = 0)) (\<lambda>_. Ok ht'))"
    let ?m = "(ht_view ht)(hte_key e \<mapsto> hte_value e)"
    have eq: "rehash add (e # es) ht = res_bind ?r (rehash add es)"
      using False by (simp add: res_bind_assoc split_def)
    have fin: "finite (dom (ht_view ht))" by (simp add: ht_view_def finite_dom_map_of)
    have card: "card (dom ?m) = card (dom (ht_view ht)) + 1"
      using Cons.prems(5) False fin by (auto simp: card_insert_if)
    have "put_outcome calloc_ok ht ?m (card (dom (ht_view ht)) + 1) ?r"
      using spec Cons.prems False ht_count_view [OF Cons.prems(1)] unfolding put_spec_def by metis
    then consider (ok) ht' where "?r = Ok ht'" "ht_ok ht'" "ht_view ht' = ?m" "slots ht \<le> slots ht'"
        "allow_resize ht'" | (fail) n where "?r = Assert_Fail" "\<not> calloc_ok n" "unat n \<le> 20 * (card (dom (ht_view ht)) + 1)"
      using Cons.prems(2) unfolding put_outcome_def by metis
    then show ?thesis
    proof cases
      case ok
      have disj: "dom (ht_view ht') \<inter> hte_key ` set (live es) = {}"
      proof -
        have "hte_key e \<notin> hte_key ` set (live es)" "dom (ht_view ht) \<inter> hte_key ` set (live es) = {}"
          using Cons.prems(4,5) False by auto
        moreover have "dom (ht_view ht') = insert (hte_key e) (dom (ht_view ht))"
          by (simp add: ok(3))
        ultimately show ?thesis by (simp only: Int_insert_left if_False)
      qed
      have "put_outcome calloc_ok ht' (ht_view ht' ++ map_of (map (\<lambda>e. (hte_key e, hte_value e)) (live es)))
          (card (dom (ht_view ht')) + length (live es)) (rehash add es ht')"
        using Cons.prems(3,4) ok False by (intro Cons.IH disj) auto
      moreover have "ht_view ht' ++ map_of (map (\<lambda>e. (hte_key e, hte_value e)) (live es))
          = ht_view ht ++ map_of (map (\<lambda>e. (hte_key e, hte_value e)) (live (e # es)))"
      proof -
        have "hte_key e \<notin> dom (map_of (map (\<lambda>e. (hte_key e, hte_value e)) (live es)))"
          using Cons.prems(4) False by (auto simp: dom_map_of_conv_image_fst image_image)
        then show ?thesis
          using False ok(3) by (simp add: map_add_upd_left)
      qed
      moreover have "card (dom (ht_view ht')) + length (live es) = card (dom (ht_view ht)) + length (live (e # es))"
        using card ok(3) False by simp
      ultimately show ?thesis
        using ok Cons.prems(2) unfolding eq put_outcome_def by auto
    next
      case fail
      have "\<exists>n. \<not> calloc_ok n \<and> unat n \<le> 20 * (card (dom (ht_view ht)) + length (live (e # es)))"
        using fail False by (intro exI [of _ n]) auto
      then show ?thesis
        using fail(1) unfolding eq put_outcome_def by simp
    qed
  qed
qed

lemma slots_double:
  assumes "ht_config_ok ht"
  shows "unat (push_bit 1 (mht_size ht)) = 2 * slots ht"
proof -
  obtain k where k: "k \<le> 57" "mht_size ht = 2 ^ k" "slots ht = 2 ^ k" using assms by (rule slots_pow)
  have "push_bit 1 (mht_size ht) = 2 ^ Suc k" by (simp add: k push_bit_eq_mult)
  then show ?thesis using unat_pow64 [of "Suc k"] k(1,3) by (simp only:) simp
qed

lemma resize_outcome:
  assumes bound: "\<And>n. calloc_ok n \<Longrightarrow> unat n \<le> 2 ^ 57"
    and spec: "put_spec calloc_ok (2 * slots ht) add" and ok: "ht_ok ht" and allow: "allow_resize ht"
    and full: "resize_threshold ht \<le> entry_count ht"
  shows "put_outcome calloc_ok (ht\<lparr>mht_size := push_bit 1 (mht_size ht)\<rparr>) (ht_view ht) (unat (entry_count ht) + 1)
    (res_bind (resize_with calloc_ok add ht) (\<lambda>(ret, ht'). res_bind (res_assert (ret = 0)) (\<lambda>_. Ok ht')))"
proof -
  note cfg = ht_ok_config [OF ok]
  obtain k where k: "k \<le> 57" "mht_size ht = 2 ^ k" "slots ht = 2 ^ k" using cfg by (rule slots_pow)
  let ?sz = "push_bit 1 (mht_size ht)"
  have sz: "?sz = 2 ^ Suc k" by (simp add: k push_bit_eq_mult)
  note slots' = slots_double [OF cfg]
  show ?thesis
  proof (cases "calloc_ok ?sz")
    case False
    then show ?thesis
      using below_threshold(2) [OF ok full] slots'
      by (auto simp: put_outcome_def resize_with_def calloc_entries_def res_assert_def Let_def intro!: exI [of _ ?sz])
  next
    case True
    define ht0 where "ht0 = ht\<lparr>mht_entries := replicate (unat ?sz) zero_entry, entry_count := 0, mht_size := ?sz,
      resize_threshold := threshold_of ?sz (fill_factor ht)\<rparr>"
    have "(2 :: nat) ^ Suc k \<le> 2 ^ 57"
      using bound [OF True] unfolding slots' k(3) by simp
    then have "Suc k \<le> 57"
      by (rule power_le_imp_le_exp [rotated]) simp
    then have "\<exists>j \<le> 57. ?sz = 2 ^ j" using sz by blast
    then have "ht_config_ok ht0"
      using cfg by (simp add: ht_config_ok_def ht0_def)
    then have ok0: "ht_ok ht0" "ht_view ht0 = Map.empty"
      using ht_ok_empty [of ht0] by (simp_all add: ht0_def)
    have out: "put_outcome calloc_ok ht0 (ht_view ht) (unat (entry_count ht)) (rehash add (mht_entries ht) ht0)"
      using rehash_outcome [OF spec ok0(1), of "mht_entries ht"] ok0(2) allow slots' ht_ok_distinct [OF ok]
        ht_ok_count [OF ok]
      by (simp add: ht_view_def) (simp add: ht0_def)
    have "resize_with calloc_ok add ht = res_bind (rehash add (mht_entries ht) ht0) (\<lambda>ht'. Ok (0, ht'))"
      using True ok by (simp add: resize_with_def calloc_entries_def Let_def ht0_def)
    then have "res_bind (resize_with calloc_ok add ht) (\<lambda>(ret, ht'). res_bind (res_assert (ret = 0)) (\<lambda>_. Ok ht'))
        = rehash add (mht_entries ht) ht0"
      by (simp add: res_bind_assoc)
    with out show ?thesis
      unfolding put_outcome_def by (auto simp: ht0_def intro: order_trans)
  qed
qed

lemma add_nolock_spec:
  assumes bound: "\<And>n. calloc_ok n \<Longrightarrow> unat n \<le> 2 ^ 57"
  shows "2 ^ 58 \<le> lo * 2 ^ f \<Longrightarrow> put_spec calloc_ok lo (add_nolock f calloc_ok)"
proof (induction f arbitrary: lo)
  case 0
  then show ?case
    unfolding put_spec_def using slots_bounds [OF ht_ok_config] by force
next
  case (Suc f)
  show ?case
    unfolding put_spec_def
  proof (intro allI impI)
    fix ht :: mambo_ht and k v :: uintptr
    assume ok: "ht_ok ht" and nz: "k \<noteq> 0" and allow: "allow_resize ht" and lo: "lo \<le> slots ht"
    let ?chk = "\<lambda>(ret, ht'). res_bind (res_assert (ret = 0)) (\<lambda>_. Ok ht')"
    let ?r = "res_bind (add_nolock (Suc f) calloc_ok ht k v) ?chk"
    show "put_outcome calloc_ok ht ((ht_view ht)(k \<mapsto> v)) (unat (entry_count ht) + 1) ?r"
    proof (cases "resize_threshold ht \<le> entry_count ht")
      case False
      then obtain ht' where "ht_insert ht k v = Ok (0, ht')" "ht_ok ht'" "ht_view ht' = (ht_view ht)(k \<mapsto> v)"
          "mht_size ht' = mht_size ht" "allow_resize ht' = allow_resize ht"
        using ht_insert_ok [OF ok nz] below_threshold(1) [OF ok] by (metis not_less)
      with False nz show ?thesis by (auto simp: put_outcome_def)
    next
      case True
      have "put_spec calloc_ok (2 * slots ht) (add_nolock f calloc_ok)"
        using Suc.prems lo by (intro Suc.IH) (auto intro: order_trans)
      note out = resize_outcome [OF bound this ok allow True]
      let ?rs = "res_bind (resize_with calloc_ok (add_nolock f calloc_ok) ht) ?chk"
      note sz = slots_double [OF ht_ok_config [OF ok]]
      have eq: "?r = res_bind ?rs (\<lambda>ht'. res_bind (ht_insert ht' k v) ?chk)"
        using True nz allow by (simp add: res_bind_assoc split_def)
      from out consider (ok) ht' where "?rs = Ok ht'" "ht_ok ht'" "ht_view ht' = ht_view ht" "2 * slots ht \<le> slots ht'"
          "allow_resize ht'" | (fail) "?rs = Assert_Fail" "\<exists>n. \<not> calloc_ok n \<and> unat n \<le> 20 * (unat (entry_count ht) + 1)"
        using allow sz unfolding put_outcome_def by auto
      then show ?thesis
      proof cases
        case ok': ok
        have "unat (entry_count ht') + 1 < slots ht'"
          using ht_count_view [OF ok] ht_count_view [OF ok'(2)] ok'(3,4) ht_ok_count [OF ok] by simp
        then obtain ht'' where "ht_insert ht' k v = Ok (0, ht'')" "ht_ok ht''" "ht_view ht'' = (ht_view ht')(k \<mapsto> v)"
            "mht_size ht'' = mht_size ht'" "allow_resize ht'' = allow_resize ht'"
          using ht_insert_ok [OF ok'(2) nz] by blast
        with ok' allow show ?thesis unfolding eq put_outcome_def by auto
      next
        case fail
        then show ?thesis unfolding eq put_outcome_def by simp
      qed
    qed
  qed
qed

lemma mambo_ht_add_nolock_unfold:
  "mambo_ht_add_nolock calloc_ok ht key val =
     (if key = 0 then Ok (-1, ht)
      else if entry_count ht \<ge> resize_threshold ht then
        if allow_resize ht then
          res_bind (resize_with calloc_ok (add_nolock 64 calloc_ok) ht) (\<lambda>(ret, ht').
          res_bind (res_assert (ret = 0)) (\<lambda>_. ht_insert ht' key val))
        else Ok (-1, ht)
      else ht_insert ht key val)"
proof -
  have "(65 :: nat) = Suc 64" by simp
  then show ?thesis unfolding mambo_ht_add_nolock_def by (simp only: add_nolock.simps)
qed

lemma add_nolock_refused:
  "key \<noteq> 0 \<Longrightarrow> resize_threshold ht \<le> entry_count ht \<Longrightarrow> \<not> allow_resize ht \<Longrightarrow>
    mambo_ht_add_nolock calloc_ok ht key val = Ok (-1, ht)"
  by (simp add: mambo_ht_add_nolock_unfold)

lemma add_nolock_zero: "mambo_ht_add_nolock calloc_ok ht 0 val = Ok (-1, ht)"
  by (simp add: mambo_ht_add_nolock_unfold)

lemma add_nolock_room:
  assumes ok: "ht_ok ht" and nz: "key \<noteq> 0" and room: "entry_count ht < resize_threshold ht"
  shows "\<exists>ht'. mambo_ht_add_nolock calloc_ok ht key val = Ok (0, ht') \<and> ht_ok ht' \<and> ht_view ht' = (ht_view ht)(key \<mapsto> val)"
proof -
  have "\<not> resize_threshold ht \<le> entry_count ht" using room by (simp add: not_le)
  then have "mambo_ht_add_nolock calloc_ok ht key val = ht_insert ht key val"
    using nz by (simp add: mambo_ht_add_nolock_unfold)
  with ht_insert_ok [OF ok nz below_threshold(1) [OF ok room], of val] show ?thesis by auto
qed

lemma add_nolock_resizing:
  assumes bound: "\<And>n. calloc_ok n \<Longrightarrow> unat n \<le> 2 ^ 57"
    and ok: "ht_ok ht" and nz: "key \<noteq> 0" and allow: "allow_resize ht"
  shows "(\<exists>ht'. mambo_ht_add_nolock calloc_ok ht key val = Ok (0, ht') \<and> ht_ok ht' \<and>
      ht_view ht' = (ht_view ht)(key \<mapsto> val) \<and> allow_resize ht') \<or>
    (mambo_ht_add_nolock calloc_ok ht key val = Assert_Fail \<and>
      (\<exists>n. \<not> calloc_ok n \<and> unat n \<le> 20 * (unat (entry_count ht) + 1)))"
proof -
  have spec: "put_spec calloc_ok 1 (add_nolock 65 calloc_ok)"
    by (rule add_nolock_spec [OF bound]) simp_all
  have "1 \<le> slots ht" using slots_bounds [OF ht_ok_config [OF ok]] by simp
  with spec ok nz allow have out: "put_outcome calloc_ok ht ((ht_view ht)(key \<mapsto> val)) (unat (entry_count ht) + 1)
      (res_bind (mambo_ht_add_nolock calloc_ok ht key val) (\<lambda>(ret, ht'). res_bind (res_assert (ret = 0)) (\<lambda>_. Ok ht')))"
    unfolding put_spec_def mambo_ht_add_nolock_def by blast
  have not_minus: "mambo_ht_add_nolock calloc_ok ht key val \<noteq> Ok (r, ht')" if "r \<noteq> 0" for r ht'
  proof
    assume "mambo_ht_add_nolock calloc_ok ht key val = Ok (r, ht')"
    then show False
      using that nz allow
      by (auto simp: mambo_ht_add_nolock_unfold ht_insert_def res_bind_eq_Ok split: if_splits prod.splits)
  qed
  show ?thesis
    using out not_minus allow unfolding put_outcome_def
    by (cases "mambo_ht_add_nolock calloc_ok ht key val") (auto simp: res_assert_def split: prod.splits if_splits)
qed

section \<open>The table as a provider of the key-value interface\<close>

text \<open>No allocation on the supported targets exceeds \<open>2^57\<close> entries of 16 bytes; a refused insertion is no update.\<close>

definition ht_put :: "(uintptr \<Rightarrow> bool) \<Rightarrow> mambo_ht \<Rightarrow> uintptr \<Rightarrow> uintptr \<Rightarrow> mambo_ht res" where
  "ht_put calloc_ok ht key val =
     res_bind (mambo_ht_add_nolock (\<lambda>n. calloc_ok n \<and> unat n \<le> 2 ^ 57) ht key val) (\<lambda>(ret, ht').
       if ret = 0 then Ok ht' else Assert_Fail)"

lemma ht_put_Ok:
  assumes ok: "ht_ok ht" and nz: "key \<noteq> 0" and put: "ht_put calloc_ok ht key val = Ok ht'"
  shows "ht_ok ht' \<and> ht_view ht' = (ht_view ht)(key \<mapsto> val)"
proof -
  let ?c = "\<lambda>n. calloc_ok n \<and> unat n \<le> 2 ^ 57"
  have add: "mambo_ht_add_nolock ?c ht key val = Ok (0, ht')"
    using put by (auto simp: ht_put_def res_bind_eq_Ok split: if_splits)
  show ?thesis
  proof (cases "allow_resize ht")
    case True
    with add_nolock_resizing [of ?c ht key val] ok nz add show ?thesis by auto
  next
    case False
    with add have "entry_count ht < resize_threshold ht"
      using add_nolock_refused [OF nz, of ht ?c val] by (cases "resize_threshold ht \<le> entry_count ht") auto
    with add_nolock_room [OF ok nz, of ?c val] add show ?thesis by auto
  qed
qed

interpretation plugin_ht: kv_table ht_ok "\<lambda>k. k \<noteq> 0" ht_view "ht_put calloc_ok" for calloc_ok
  by unfold_locales (simp_all add: ht_put_Ok)

section \<open>Properties\<close>

definition small_ht :: mambo_ht where
  "small_ht = \<lparr>mht_size = 2, entry_count = 1, index_shift = 0, allow_resize = True, fill_factor = 50,
     resize_threshold = 1, mht_entries = [zero_entry, \<lparr>hte_key = 3, hte_value = 30\<rparr>]\<rparr>"

lemma small_ht_empty: "ht_ok (small_ht\<lparr>entry_count := 0, mht_entries := replicate 2 zero_entry\<rparr>)"
    "ht_view (small_ht\<lparr>entry_count := 0, mht_entries := replicate 2 zero_entry\<rparr>) = Map.empty"
proof -
  have "ht_config_ok (small_ht\<lparr>entry_count := 0, mht_entries := replicate 2 zero_entry\<rparr>)"
    unfolding ht_config_ok_def by (auto simp: small_ht_def threshold_of_def intro: exI [of _ 1])
  then have "ht_ok (small_ht\<lparr>entry_count := 0, mht_entries := replicate 2 zero_entry\<rparr>) \<and>
      ht_view (small_ht\<lparr>entry_count := 0, mht_entries := replicate 2 zero_entry\<rparr>) = Map.empty"
    by (rule ht_ok_empty) (simp_all add: small_ht_def)
  then show "ht_ok (small_ht\<lparr>entry_count := 0, mht_entries := replicate 2 zero_entry\<rparr>)"
    "ht_view (small_ht\<lparr>entry_count := 0, mht_entries := replicate 2 zero_entry\<rparr>) = Map.empty" by simp_all
qed

lemma small_ht_ok: "ht_ok small_ht" "ht_view small_ht = [3 \<mapsto> 30]"
proof -
  let ?e = "small_ht\<lparr>entry_count := 0, mht_entries := replicate 2 zero_entry\<rparr>"
  have nz: "(3 :: uintptr) \<noteq> 0" by simp
  have "ht_insert ?e 3 30 = Ok (0, small_ht)" by code_simp
  moreover obtain ht' where "ht_insert ?e 3 30 = Ok (0, ht')" "ht_ok ht'" "ht_view ht' = (ht_view ?e)(3 \<mapsto> 30)"
    using ht_insert_ok [OF small_ht_empty(1) nz, of 30] by (auto simp: small_ht_def)
  ultimately show "ht_ok small_ht" "ht_view small_ht = [3 \<mapsto> 30]"
    using small_ht_empty(2) by auto
qed

text \<open>C21: A lookup in a well-formed plugin table always terminates and returns the stored value, or the error
  code and no value when the key is not stored (or zero).\<close>

theorem mambo_ht_get_refines:
  assumes "ht_ok ht"
  shows "mambo_ht_get 0 0 ht key = Ok (case ht_view ht key of None \<Rightarrow> (-1, None) | Some v \<Rightarrow> (0, Some v))"
  using ht_get_view [OF assms] by (simp add: mambo_ht_get_def)

theorem mambo_ht_get_refines_witness: "mambo_ht_get 0 0 small_ht 3 = Ok (0, Some 30)"
  using mambo_ht_get_refines [OF small_ht_ok(1), of 3] by (simp add: small_ht_ok)

text \<open>C12: Inserting a nonzero key into a well-formed resizable table terminates, however deep the resizes nest:
  it is a map update that keeps the table well formed, or the assertion on a failed allocation of at most
  twenty times the number of entries.\<close>

theorem mambo_ht_add_refines:
  assumes "\<forall>n. calloc_ok n \<longrightarrow> unat n \<le> 2 ^ 57" "ht_ok ht" "key \<noteq> 0" "allow_resize ht"
  shows "(\<exists>ht'. mambo_ht_add calloc_ok 0 0 ht key val = Ok (0, ht') \<and> ht_ok ht' \<and>
      ht_view ht' = (ht_view ht)(key \<mapsto> val)) \<or>
    (mambo_ht_add calloc_ok 0 0 ht key val = Assert_Fail \<and>
      (\<exists>n. \<not> calloc_ok n \<and> unat n \<le> 20 * (unat (entry_count ht) + 1)))"
  using add_nolock_resizing [of calloc_ok, OF _ assms(2-), of val] assms(1) by (auto simp: mambo_ht_add_def)

theorem mambo_ht_add_refines_witness:
  "\<exists>ht'. mambo_ht_add (\<lambda>n. n \<le> 1000) 0 0 small_ht 5 50 = Ok (0, ht') \<and> ht_ok ht' \<and> ht_view ht' = [3 \<mapsto> 30, 5 \<mapsto> 50]"
proof -
  have "\<forall>n. (n :: uintptr) \<le> 1000 \<longrightarrow> unat n \<le> 2 ^ 57"
    by (auto simp: word_le_nat_alt)
  moreover have "unat n \<le> 20 * (unat (entry_count small_ht) + 1) \<Longrightarrow> n \<le> 1000" for n :: uintptr
    by (simp add: small_ht_def word_le_nat_alt)
  ultimately show ?thesis
    using mambo_ht_add_refines [of "\<lambda>n. n \<le> 1000" small_ht 5 50] small_ht_ok by (auto simp: small_ht_def fun_upd_twist)
qed

text \<open>Without resizing, an insertion is refused with the error code, and the table left alone, exactly when the
  entry count has reached the threshold; otherwise it is a map update.\<close>

theorem mambo_ht_add_fixed:
  assumes "ht_ok ht" "key \<noteq> 0" "\<not> allow_resize ht"
  shows "if resize_threshold ht \<le> entry_count ht then mambo_ht_add calloc_ok 0 0 ht key val = Ok (-1, ht)
    else \<exists>ht'. mambo_ht_add calloc_ok 0 0 ht key val = Ok (0, ht') \<and> ht_ok ht' \<and> ht_view ht' = (ht_view ht)(key \<mapsto> val)"
  using add_nolock_refused [OF assms(2), of ht calloc_ok val] add_nolock_room [OF assms(1,2), of calloc_ok val] assms(3)
  by (auto simp: mambo_ht_add_def not_le)

theorem mambo_ht_add_fixed_witness:
  "mambo_ht_add (\<lambda>_. True) 0 0 (small_ht\<lparr>allow_resize := False\<rparr>) 5 50 = Ok (-1, small_ht\<lparr>allow_resize := False\<rparr>)"
proof -
  have "ht_ok (small_ht\<lparr>allow_resize := False\<rparr>)"
    using small_ht_ok(1) unfolding ht_ok_def ht_config_ok_def by (simp add: visit_def home_index_def)
  then show ?thesis
    using mambo_ht_add_fixed [of "small_ht\<lparr>allow_resize := False\<rparr>" 5 "\<lambda>_. True" 50] by (simp add: small_ht_def)
qed

text \<open>C22: Initialisation with parameters in range rounds the requested size up to the least power of two. If \<open>calloc\<close> provides that many entries the
  result is a well-formed empty table of that size; if it does not, the call returns -1 with no entries. For a request above \<open>2^63\<close> the rounding loop never
  ends. Of \<open>calloc\<close> only an upper bound is assumed: it never provides more than \<open>2^61\<close> bytes (entries of 16 bytes), which exceeds the address space of
  every 64-bit machine.\<close>

theorem mambo_ht_init_rounds:
  assumes "10 \<le> ff" "ff \<le> 90" "0 \<le> shift" "shift \<le> 20" "\<forall>n. calloc_ok n \<longrightarrow> unat n \<le> 2 ^ 57"
  shows "if 2 ^ 63 < unat initial_size then mambo_ht_init calloc_ok 0 ht initial_size shift ff resize = Spin
    else \<exists>k. unat initial_size \<le> 2 ^ k \<and> (0 < k \<longrightarrow> 2 ^ (k - 1) < unat initial_size) \<and>
      (if calloc_ok (2 ^ k)
       then \<exists>ht'. mambo_ht_init calloc_ok 0 ht initial_size shift ff resize = Ok (0, ht') \<and> ht_ok ht' \<and> ht_view ht' = Map.empty \<and> slots ht' = 2 ^ k
       else mambo_ht_init calloc_ok 0 ht initial_size shift ff resize = Ok (-1, ht\<lparr>mht_entries := []\<rparr>))"
proof (cases "2 ^ 63 < unat initial_size")
  case True
  then show ?thesis
    using assms(1-4) round_size_pow [of 0 initial_size] by (simp add: mambo_ht_init_def)
next
  case False
  then obtain k where k: "k \<le> 63" "round_size initial_size 1 = Ok (2 ^ k)" "unat initial_size \<le> 2 ^ k"
      "0 < k \<longrightarrow> 2 ^ (k - 1) < unat initial_size"
    using round_size_pow [of 0 initial_size] by (auto simp: not_less)
  have pow: "unat (2 ^ k :: uintptr) = 2 ^ k" using k by (intro unat_pow64) simp
  have "if calloc_ok (2 ^ k)
       then \<exists>ht'. mambo_ht_init calloc_ok 0 ht initial_size shift ff resize = Ok (0, ht') \<and> ht_ok ht' \<and> ht_view ht' = Map.empty \<and> slots ht' = 2 ^ k
       else mambo_ht_init calloc_ok 0 ht initial_size shift ff resize = Ok (-1, ht\<lparr>mht_entries := []\<rparr>)"
  proof (cases "calloc_ok (2 ^ k)")
    case T: True
    then have "(2 :: nat) ^ k \<le> 2 ^ 57" using assms(5) pow by metis
    then have k57: "k \<le> 57" by (rule power_le_imp_le_exp [rotated]) simp
    define ht' where "ht' = ht\<lparr>mht_entries := replicate (unat (2 ^ k :: uintptr)) zero_entry, entry_count := 0, mht_size := 2 ^ k,
      allow_resize := resize, fill_factor := ff, index_shift := shift, resize_threshold := threshold_of (2 ^ k) ff\<rparr>"
    have "ht_config_ok ht'"
      unfolding ht_config_ok_def using k57 assms(1,2) by (auto simp: ht'_def)
    then have "ht_ok ht' \<and> ht_view ht' = Map.empty" by (rule ht_ok_empty) (simp_all add: ht'_def)
    moreover have "mambo_ht_init calloc_ok 0 ht initial_size shift ff resize = Ok (0, ht')"
      using assms(1-4) k(2) T by (simp add: mambo_ht_init_def calloc_entries_def ht'_def)
    moreover have "slots ht' = 2 ^ k" using pow by (simp add: ht'_def)
    ultimately show ?thesis using T by auto
  next
    case F: False
    then show ?thesis using assms(1-4) k(2) by (simp add: mambo_ht_init_def calloc_entries_def)
  qed
  then show ?thesis unfolding if_not_P [OF False] using k(3,4) by blast
qed

theorem mambo_ht_init_rounds_witness:
  "mambo_ht_init (\<lambda>n. unat n \<le> 2 ^ 57) 0 small_ht (2 ^ 63 + 1) 0 50 True = Spin"
proof -
  have "2 ^ 63 < unat (2 ^ 63 + 1 :: uintptr)" by simp
  then show ?thesis
    using mambo_ht_init_rounds [of 50 0 "\<lambda>n. unat n \<le> 2 ^ 57" "2 ^ 63 + 1" small_ht True] by (simp only: if_True) simp
qed

end
