(* ===== verification/Dbm_Types.thy ===== *)
theory Dbm_Types
  imports Mambo_Prelude Code_Cache_Hash Link_Pool
begin

text \<open>
  The constants, enumerations and per-thread structures of \<open>dbm.h\<close>, for the default build options
  (\<open>DBM_TRACES\<close> on, plugins enabled). A structure with conditionally compiled fields has the fields of
  all architectures. Pointers into the code cache and the application are addresses; pointers to threads,
  callbacks and list cells are identifiers, with \<open>None\<close> for a null pointer. The code cache metadata, an array
  indexed by fragment, is a function whose accesses check the bounds of the array.
\<close>

section \<open>Tunable parameters\<close>

definition BASIC_BLOCK_SIZE :: int where "BASIC_BLOCK_SIZE = 64"
definition CODE_CACHE_SIZE :: int where "CODE_CACHE_SIZE = 55000"
definition TRACE_FRAGMENT_NO :: int where "TRACE_FRAGMENT_NO = 60000"
definition CODE_CACHE_OVERP :: int where "CODE_CACHE_OVERP = 512"
definition TRACE_FRAGMENT_OVERP :: int where "TRACE_FRAGMENT_OVERP = 50"
definition MAX_BRANCH_RANGE :: int where "MAX_BRANCH_RANGE = 16 * 1024 * 1024"
definition TRACE_CACHE_SIZE :: int where
  "TRACE_CACHE_SIZE = MAX_BRANCH_RANGE - CODE_CACHE_SIZE * BASIC_BLOCK_SIZE * 4"
definition TRACE_LIMIT_OFFSET :: int where "TRACE_LIMIT_OFFSET = 1024 * 1024"
definition TRACE_ALIGN :: int where "TRACE_ALIGN = 4"
definition MAX_TRACE_FRAGMENTS :: int where "MAX_TRACE_FRAGMENTS = 20"
definition MAX_CC_LINKS :: int where "MAX_CC_LINKS = 100000"
definition MAX_PLUGIN_NO :: int where "MAX_PLUGIN_NO = 10"
definition MAX_TRACE_REC_EXITS :: int where "MAX_TRACE_REC_EXITS = MAX_TRACE_FRAGMENTS + 1"
definition ALLOCATE_BB :: int where "ALLOCATE_BB = 0"

lemmas dbm_consts = BASIC_BLOCK_SIZE_def CODE_CACHE_SIZE_def TRACE_FRAGMENT_NO_def CODE_CACHE_OVERP_def
  TRACE_FRAGMENT_OVERP_def MAX_BRANCH_RANGE_def TRACE_CACHE_SIZE_def TRACE_LIMIT_OFFSET_def TRACE_ALIGN_def
  MAX_TRACE_FRAGMENTS_def MAX_CC_LINKS_def MAX_PLUGIN_NO_def MAX_TRACE_REC_EXITS_def ALLOCATE_BB_def

text \<open>\<open>sizeof(dbm_block)\<close>: \<open>BASIC_BLOCK_SIZE\<close> words of four bytes.\<close>

definition sizeof_dbm_block :: int where "sizeof_dbm_block = BASIC_BLOCK_SIZE * 4"

section \<open>Enumerations\<close>

datatype cc_type = mambo_bb | mambo_trace | mambo_trace_entry

datatype branch_type = unknown | stub | trace_inline_max
  | uncond_b_to_bl_thumb | uncond_imm_thumb | uncond_reg_thumb | cond_imm_thumb | cond_reg_thumb
  | cbz_thumb | uncond_blxi_thumb | cond_blxi_thumb | cond_imm_arm | uncond_imm_arm | cond_reg_arm
  | uncond_reg_arm | uncond_blxi_arm | cond_blxi_arm | tbb | tbh | tb_indirect | pred_bxlr | pred_pop16pc
  | pred_ldmfd32pc | pred_armbxlr | pred_ldrpcsp | pred_armldmpc | pred_bad
  | uncond_imm_a64 | uncond_branch_reg | cond_imm_a64 | cbz_a64 | tbz_a64 | trace_exit
  | jal_riscv | jalr_riscv | branch_riscv | atomic_memory_riscv

definition FALLTHROUGH_LINKED :: uintptr where "FALLTHROUGH_LINKED = 1"
definition BRANCH_LINKED :: uintptr where "BRANCH_LINKED = 2"
definition BOTH_LINKED :: uintptr where "BOTH_LINKED = 4"

datatype dbm_thread_status = THREAD_RUNNING | THREAD_SYSCALL | THREAD_EXIT

datatype inst_set = ARM_INST | THUMB_INST | A64_INST | RISCV_INST

datatype vm_op_t = VM_MAP | VM_UNMAP | VM_PROT

section \<open>Structures\<close>

record dbm_code_cache_meta =
  source_addr :: uintptr
  tpc :: uintptr
  exit_branch_type :: branch_type
  actual_id :: int
  exit_branch_addr :: uintptr
  branch_taken_addr :: uintptr
  branch_skipped_addr :: uintptr
  branch_condition :: uintptr
  branch_cache_status :: uintptr
  meta_rn :: u32
  free_b :: u32
  linked_from :: "nat option"

record trace_exits =
  exit_from :: uintptr
  exit_to :: uintptr
  exit_fragment_id :: int

record trace_in_prog =
  trace_in_prog_id :: int
  source_bb :: int
  trace_write_p :: uintptr
  entry_addr :: uintptr
  active :: bool
  free_exit_rec :: int
  exits :: "trace_exits list"

record dbm_thread =
  next_thread :: "nat option"
  status :: dbm_thread_status
  free_block :: int
  was_flushed :: bool
  dispatcher_addr :: uintptr
  syscall_wrapper_addr :: uintptr
  code_cache :: uintptr
  code_cache_meta :: "int \<Rightarrow> dbm_code_cache_meta"
  entry_address :: hash_table
  exec_count :: "int \<Rightarrow> u8"
  trace_head_incr_addr :: uintptr
  trace_cache_next :: uintptr
  trace_id :: int
  trace_fragment_count :: int
  active_trace :: trace_in_prog
  cc_links :: ll
  thread_tls :: uintptr
  plugin_priv :: "uintptr list"
  tid :: int
  parent_tid :: int
  protect_std_fds :: bool
  is_signal_pending :: u32

text \<open>The addresses of the two parts of the code cache (\<open>dbm_code_cache\<close>): the blocks and, behind them, the traces.\<close>

definition blocks_addr :: "'a dbm_thread_scheme \<Rightarrow> int \<Rightarrow> uintptr" where
  "blocks_addr t i = code_cache t + word_of_int (i * sizeof_dbm_block)"

definition traces_addr :: "'a dbm_thread_scheme \<Rightarrow> uintptr" where
  "traces_addr t = code_cache t + word_of_int (CODE_CACHE_SIZE * sizeof_dbm_block)"

text \<open>Accesses to the metadata array.\<close>

definition META_SIZE :: int where "META_SIZE = CODE_CACHE_SIZE + TRACE_FRAGMENT_NO"

definition meta_get :: "'a dbm_thread_scheme \<Rightarrow> int \<Rightarrow> dbm_code_cache_meta res" where
  "meta_get t i = (if 0 \<le> i \<and> i < META_SIZE then Ok (code_cache_meta t i) else Mem_Fault)"

definition meta_upd :: "'a dbm_thread_scheme \<Rightarrow> int \<Rightarrow> (dbm_code_cache_meta \<Rightarrow> dbm_code_cache_meta) \<Rightarrow> 'a dbm_thread_scheme res" where
  "meta_upd t i f = (if 0 \<le> i \<and> i < META_SIZE
     then Ok (t\<lparr>code_cache_meta := (code_cache_meta t)(i := f (code_cache_meta t i))\<rparr>) else Mem_Fault)"

lemma meta_get_in [simp]: "0 \<le> i \<Longrightarrow> i < META_SIZE \<Longrightarrow> meta_get t i = Ok (code_cache_meta t i)"
  by (simp add: meta_get_def)

lemma meta_upd_in [simp]:
  "0 \<le> i \<Longrightarrow> i < META_SIZE \<Longrightarrow> meta_upd t i f = Ok (t\<lparr>code_cache_meta := (code_cache_meta t)(i := f (code_cache_meta t i))\<rparr>)"
  by (simp add: meta_upd_def)

text \<open>A thread with an empty code cache, for the examples.\<close>

definition witness_thread :: dbm_thread where
  "witness_thread = \<lparr>next_thread = None, status = THREAD_RUNNING, free_block = 1, was_flushed = False,
     dispatcher_addr = 0x50000000, syscall_wrapper_addr = 0x50000100, code_cache = 0x50000000,
     code_cache_meta = (\<lambda>_. \<lparr>source_addr = 0, tpc = 0, exit_branch_type = unknown, actual_id = 0, exit_branch_addr = 0,
       branch_taken_addr = 0, branch_skipped_addr = 0, branch_condition = 0, branch_cache_status = 0, meta_rn = 0,
       free_b = 0, linked_from = None\<rparr>),
     entry_address = small_table, exec_count = (\<lambda>_. 0), trace_head_incr_addr = 0x50000200, trace_cache_next = 0x50D6D880,
     trace_id = 55000, trace_fragment_count = 0,
     active_trace = \<lparr>trace_in_prog_id = 55000, source_bb = 0, trace_write_p = 0, entry_addr = 0, active = False,
       free_exit_rec = 0, exits = []\<rparr>,
     cc_links = \<lparr>free_list = None, ll_size = 0, pool = []\<rparr>,
     thread_tls = 0, plugin_priv = replicate 10 0, tid = 1, parent_tid = 0, protect_std_fds = True, is_signal_pending = 0\<rparr>"

end
