(* ===== verification/Code_Cache.thy ===== *)
theory Code_Cache
  imports Dbm_Types
begin

text \<open>
  The code cache manager of \<open>dbm.c\<close> and the lookups of \<open>traces_common.c\<close>, for the 64-bit builds: allocation of
  basic blocks, flushing, translation of application addresses, the maps from code cache addresses to
  fragments and the record of direct links. The size of the trampolines that are copied to the start of the
  cache and the architecture's scanner are arguments.
\<close>

section \<open>Operations\<close>

definition adjust_cc_entry :: "arch \<Rightarrow> uintptr \<Rightarrow> uintptr" where
  "adjust_cc_entry a addr =
     (if a = AArch32 \<and> addr \<noteq> UINT_MAX then addr + 4 - push_bit 1 (addr AND 1) else addr)"

definition flush_code_cache :: "int \<Rightarrow> 'a dbm_thread_scheme \<Rightarrow> 'a dbm_thread_scheme res" where
  "flush_code_cache trampolines_size_bbs t =
     res_bind (hash_init (entry_address t) (CODE_CACHE_HASH_SIZE + CODE_CACHE_HASH_OVERP)) (\<lambda>tbl.
     res_bind (linked_list_init (cc_links t) MAX_CC_LINKS) (\<lambda>links.
     Ok (t\<lparr>was_flushed := True, free_block := trampolines_size_bbs, entry_address := tbl,
           trace_cache_next := traces_addr t, trace_id := CODE_CACHE_SIZE,
           active_trace := (active_trace t)\<lparr>trace_in_prog_id := CODE_CACHE_SIZE\<rparr>,
           code_cache_meta := (\<lambda>i. if 0 \<le> i \<and> i < CODE_CACHE_SIZE
             then (code_cache_meta t i)\<lparr>exit_branch_type := unknown, linked_from := None, branch_cache_status := 0, actual_id := 0\<rparr>
             else code_cache_meta t i),
           exec_count := (\<lambda>i. if 0 \<le> i \<and> i < CODE_CACHE_SIZE then 0 else exec_count t i),
           cc_links := links\<rparr>)))"

definition cc_lookup :: "arch \<Rightarrow> 'a dbm_thread_scheme \<Rightarrow> uintptr \<Rightarrow> uintptr res" where
  "cc_lookup a t target = res_bind (hash_lookup a (entry_address t) target) (\<lambda>addr. Ok (adjust_cc_entry a addr))"

definition allocate_bb :: "int \<Rightarrow> 'a dbm_thread_scheme \<Rightarrow> (int \<times> 'a dbm_thread_scheme) res" where
  "allocate_bb trampolines_size_bbs t =
     res_bind (if free_block t \<ge> CODE_CACHE_SIZE - CODE_CACHE_OVERP
               then flush_code_cache trampolines_size_bbs t else Ok t) (\<lambda>t.
     Ok (free_block t, t\<lparr>free_block := free_block t + 1\<rparr>))"

definition allocate_bb_overflow :: "'a dbm_thread_scheme \<Rightarrow> (int \<times> 'a dbm_thread_scheme) res" where
  "allocate_bb_overflow t =
     res_bind (res_assert (free_block t < CODE_CACHE_SIZE)) (\<lambda>_.
     Ok (free_block t, t\<lparr>free_block := free_block t + 1\<rparr>))"

definition is_bb :: "'a dbm_thread_scheme \<Rightarrow> uintptr \<Rightarrow> bool" where
  "is_bb t addr \<longleftrightarrow> addr \<ge> code_cache t \<and> addr < traces_addr t"

definition is_trace :: "'a dbm_thread_scheme \<Rightarrow> uintptr \<Rightarrow> bool" where
  "is_trace t addr \<longleftrightarrow> addr \<ge> traces_addr t \<and> addr < traces_addr t + word_of_int TRACE_CACHE_SIZE"

definition addr_to_bb_id :: "'a dbm_thread_scheme \<Rightarrow> uintptr \<Rightarrow> int" where
  "addr_to_bb_id t addr =
     (if addr < code_cache t \<or> addr > traces_addr t then -1
      else c_int ((addr - code_cache t) div word_of_int sizeof_dbm_block))"

text \<open>The binary search over the trace fragments.\<close>

function search_traces :: "(int \<Rightarrow> dbm_code_cache_meta res) \<Rightarrow> uintptr \<Rightarrow> int \<Rightarrow> int \<Rightarrow> int res" where
  "search_traces meta addr first hi =
     (if first \<le> hi then
        let pivot = (first + hi) div 2 in
        res_bind (meta pivot) (\<lambda>m.
          if addr < tpc m then search_traces meta addr first (pivot - 1)
          else res_bind (meta (pivot + 1)) (\<lambda>m'.
            if addr \<ge> tpc m' then search_traces meta addr (pivot + 1) hi
            else Ok pivot))
      else Ok (-1))"
  by pat_completeness auto
termination
  by (relation "measure (\<lambda>(meta, addr, first, hi). nat (hi - first + 1))") auto

declare search_traces.simps [simp del]

definition addr_to_fragment_id :: "'a dbm_thread_scheme \<Rightarrow> uintptr \<Rightarrow> int res" where
  "addr_to_fragment_id t addr =
     res_bind (res_assert (addr \<ge> code_cache t \<and> addr < code_cache t + word_of_int MAX_BRANCH_RANGE)) (\<lambda>_.
     let id = addr_to_bb_id t addr in
     if id \<ge> 0 then
       res_bind (meta_get t id) (\<lambda>m. Ok (if actual_id m \<noteq> 0 then actual_id m else id))
     else
       let lastf = trace_in_prog_id (active_trace t) - 1 in
       res_bind (meta_get t lastf) (\<lambda>m.
         if addr \<ge> tpc m then
           res_bind (res_assert (addr < code_cache t + word_of_int MAX_BRANCH_RANGE)) (\<lambda>_. Ok lastf)
         else search_traces (meta_get t) addr CODE_CACHE_SIZE lastf))"

definition record_cc_link :: "'a dbm_thread_scheme \<Rightarrow> uintptr \<Rightarrow> uintptr \<Rightarrow> 'a dbm_thread_scheme res" where
  "record_cc_link t linked_from_addr linked_to_addr =
     (let linked_to = addr_to_bb_id t linked_to_addr in
      if linked_to < 0 then Ok t
      else res_bind (linked_list_alloc (cc_links t)) (\<lambda>(entry, links).
        case entry of
          None \<Rightarrow> Assert_Fail
        | Some e \<Rightarrow>
            res_bind (meta_get t linked_to) (\<lambda>m.
            res_bind (arr_set (pool links) (int e) \<lparr>ll_next = linked_from m, ll_data = linked_from_addr\<rparr>) (\<lambda>p.
            meta_upd (t\<lparr>cc_links := links\<lparr>pool := p\<rparr>\<rparr>) linked_to (\<lambda>m. m\<lparr>linked_from := Some e\<rparr>)))))"

text \<open>
  \<open>scan\<close>, with the architecture's scanner as an argument: it returns the updated thread. Clearing the
  instruction cache has no effect on this state.
\<close>

definition scan_entry :: "arch \<Rightarrow> 'a dbm_thread_scheme \<Rightarrow> uintptr \<Rightarrow> int \<Rightarrow> bool \<Rightarrow> 'a dbm_thread_scheme res" where
  "scan_entry a t address basic_block is_stub =
     (let block_address = blocks_addr t basic_block in
      res_bind (meta_upd t basic_block (\<lambda>m. m\<lparr>source_addr := address, tpc := block_address\<rparr>)) (\<lambda>t.
      if is_stub then Ok t
      else res_bind (hash_add a (entry_address t) address block_address) (\<lambda>(tbl, added).
        if added then Ok (t\<lparr>entry_address := tbl\<rparr>) else Spin)))"

definition scan ::
    "arch \<Rightarrow> int \<Rightarrow> ('a dbm_thread_scheme \<Rightarrow> uintptr \<Rightarrow> int \<Rightarrow> 'a dbm_thread_scheme res) \<Rightarrow>
     'a dbm_thread_scheme \<Rightarrow> uintptr \<Rightarrow> int \<Rightarrow> (uintptr \<times> 'a dbm_thread_scheme) res" where
  "scan a trampolines_size_bbs scanner t address basic_block =
     res_bind (if basic_block = ALLOCATE_BB then allocate_bb trampolines_size_bbs t else Ok (basic_block, t)) (\<lambda>(bb, t).
     res_bind (scan_entry a t address bb (basic_block \<noteq> ALLOCATE_BB)) (\<lambda>t.
     res_bind (scanner t address bb) (\<lambda>t'.
     Ok (adjust_cc_entry a (blocks_addr t bb), t'))))"

text \<open>The first half of \<open>_lookup_or_scan\<close>: the address, or \<open>UINT_MAX\<close> and the block to scan into.\<close>

definition lookup_cached :: "arch \<Rightarrow> 'a dbm_thread_scheme \<Rightarrow> uintptr \<Rightarrow> (uintptr \<times> int) res" where
  "lookup_cached a t target =
     res_bind (cc_lookup a t target) (\<lambda>block_address.
     if block_address \<noteq> UINT_MAX \<and> \<not> is_trace t block_address then
       let basic_block = addr_to_bb_id t block_address in
       res_bind (meta_get t basic_block) (\<lambda>m.
         Ok (if exit_branch_type m = stub then UINT_MAX else block_address, basic_block))
     else Ok (block_address, ALLOCATE_BB))"

definition lookup_or_scan_with_cached ::
    "arch \<Rightarrow> int \<Rightarrow> ('a dbm_thread_scheme \<Rightarrow> uintptr \<Rightarrow> int \<Rightarrow> 'a dbm_thread_scheme res) \<Rightarrow>
     'a dbm_thread_scheme \<Rightarrow> uintptr \<Rightarrow> (uintptr \<times> bool \<times> 'a dbm_thread_scheme) res" where
  "lookup_or_scan_with_cached a tramp scanner t target =
     res_bind (lookup_cached a t target) (\<lambda>(block_address, basic_block).
     let cached = (block_address \<noteq> UINT_MAX) in
     if cached then Ok (block_address, cached, t)
     else res_bind (scan a tramp scanner t target basic_block) (\<lambda>(addr, t'). Ok (addr, cached, t')))"

definition lookup_or_scan ::
    "arch \<Rightarrow> int \<Rightarrow> ('a dbm_thread_scheme \<Rightarrow> uintptr \<Rightarrow> int \<Rightarrow> 'a dbm_thread_scheme res) \<Rightarrow>
     'a dbm_thread_scheme \<Rightarrow> uintptr \<Rightarrow> (uintptr \<times> 'a dbm_thread_scheme) res" where
  "lookup_or_scan a tramp scanner t target =
     res_bind (lookup_or_scan_with_cached a tramp scanner t target) (\<lambda>(addr, cached, t'). Ok (addr, t'))"

text \<open>On AArch64 creating a stub block fails an assertion after the block has been entered.\<close>

definition stub_bb :: "arch \<Rightarrow> int \<Rightarrow> 'a dbm_thread_scheme \<Rightarrow> uintptr \<Rightarrow> (uintptr \<times> 'a dbm_thread_scheme) res" where
  "stub_bb a tramp t target =
     res_bind (allocate_bb tramp t) (\<lambda>(basic_block, t).
     let block_address = blocks_addr t basic_block in
     res_bind (meta_upd t basic_block (\<lambda>m. m\<lparr>exit_branch_type := stub\<rparr>)) (\<lambda>t.
     res_bind (hash_add a (entry_address t) target block_address) (\<lambda>(tbl, added).
     if \<not> added then Spin
     else if a = AArch64 then Assert_Fail
     else Ok (adjust_cc_entry a block_address, t\<lparr>entry_address := tbl\<rparr>))))"

definition lookup_or_stub :: "arch \<Rightarrow> int \<Rightarrow> 'a dbm_thread_scheme \<Rightarrow> uintptr \<Rightarrow> (uintptr \<times> 'a dbm_thread_scheme) res" where
  "lookup_or_stub a tramp t target =
     res_bind (cc_lookup a t target) (\<lambda>block_address.
     if block_address = UINT_MAX then stub_bb a tramp t target else Ok (block_address, t))"

section \<open>Lookups while a trace is being built\<close>

definition get_active_trace_spc :: "'a dbm_thread_scheme \<Rightarrow> uintptr res" where
  "get_active_trace_spc t = res_bind (meta_get t (source_bb (active_trace t))) (\<lambda>m. Ok (source_addr m))"

definition active_trace_lookup_or_scan ::
    "arch \<Rightarrow> int \<Rightarrow> ('a dbm_thread_scheme \<Rightarrow> uintptr \<Rightarrow> int \<Rightarrow> 'a dbm_thread_scheme res) \<Rightarrow>
     'a dbm_thread_scheme \<Rightarrow> uintptr \<Rightarrow> (uintptr \<times> 'a dbm_thread_scheme) res" where
  "active_trace_lookup_or_scan a tramp scanner t target =
     res_bind (get_active_trace_spc t) (\<lambda>spc.
     if target = spc then Ok (adjust_cc_entry a (entry_addr (active_trace t)), t)
     else lookup_or_scan a tramp scanner t target)"

definition active_trace_lookup :: "arch \<Rightarrow> 'a dbm_thread_scheme \<Rightarrow> uintptr \<Rightarrow> uintptr res" where
  "active_trace_lookup a t target =
     res_bind (get_active_trace_spc t) (\<lambda>spc.
     if target = spc then Ok (adjust_cc_entry a (entry_addr (active_trace t)))
     else res_bind (hash_lookup a (entry_address t) target) (\<lambda>return_tpc.
       Ok (if return_tpc \<ge> traces_addr t then adjust_cc_entry a return_tpc else UINT_MAX)))"

definition allocate_trace_fragment :: "'a dbm_thread_scheme \<Rightarrow> (int \<times> 'a dbm_thread_scheme) res" where
  "allocate_trace_fragment t =
     (let id = trace_in_prog_id (active_trace t);
          t = t\<lparr>active_trace := (active_trace t)\<lparr>trace_in_prog_id := id + 1\<rparr>\<rparr>
      in res_bind (res_assert (id < CODE_CACHE_SIZE + TRACE_FRAGMENT_NO)) (\<lambda>_. Ok (id, t)))"

section \<open>Layout\<close>

text \<open>The code cache is one page-aligned mapping of \<open>MAX_BRANCH_RANGE\<close> bytes that does not wrap around.\<close>

definition cc_layout :: "'a dbm_thread_scheme \<Rightarrow> bool" where
  "cc_layout t \<longleftrightarrow> uint (code_cache t) + MAX_BRANCH_RANGE < 2 ^ 64 \<and> 4096 dvd uint (code_cache t)"

lemmas cc_sizes = CODE_CACHE_SIZE_def CODE_CACHE_OVERP_def BASIC_BLOCK_SIZE_def sizeof_dbm_block_def
  MAX_BRANCH_RANGE_def TRACE_CACHE_SIZE_def META_SIZE_def TRACE_FRAGMENT_NO_def

lemma uint_cc_offset:
  assumes "cc_layout t" "0 \<le> d" "d \<le> MAX_BRANCH_RANGE"
  shows "uint (code_cache t + word_of_int d) = uint (code_cache t) + d"
proof -
  have "uint (code_cache t) + d < 2 ^ 64" "0 \<le> uint (code_cache t)"
    using assms by (simp_all add: cc_layout_def)
  moreover from this have "d < 2 ^ 64" by linarith
  ultimately show ?thesis
    using assms(2) by (simp add: uint_word_ariths unsigned_of_int take_bit_eq_mod)
qed

lemma uint_blocks_addr:
  "cc_layout t \<Longrightarrow> 0 \<le> i \<Longrightarrow> i \<le> CODE_CACHE_SIZE \<Longrightarrow> uint (blocks_addr t i) = uint (code_cache t) + i * sizeof_dbm_block"
  unfolding blocks_addr_def by (rule uint_cc_offset) (auto simp: cc_sizes)

lemma uint_traces_addr:
  "cc_layout t \<Longrightarrow> uint (traces_addr t) = uint (code_cache t) + CODE_CACHE_SIZE * sizeof_dbm_block"
  unfolding traces_addr_def by (rule uint_cc_offset) (auto simp: cc_sizes)

lemma uint_cc_end:
  "cc_layout t \<Longrightarrow> uint (code_cache t + word_of_int MAX_BRANCH_RANGE) = uint (code_cache t) + MAX_BRANCH_RANGE"
  by (rule uint_cc_offset) (auto simp: cc_sizes)

text \<open>The traces end where the code cache ends.\<close>

lemma is_trace_iff:
  assumes "cc_layout t"
  shows "is_trace t v \<longleftrightarrow> uint (code_cache t) + CODE_CACHE_SIZE * sizeof_dbm_block \<le> uint v \<and> uint v < uint (code_cache t) + MAX_BRANCH_RANGE"
proof -
  have "traces_addr t + word_of_int TRACE_CACHE_SIZE = code_cache t + word_of_int MAX_BRANCH_RANGE"
    by (simp add: traces_addr_def cc_sizes)
  then show ?thesis
    using uint_cc_end [OF assms] uint_traces_addr [OF assms] by (simp add: is_trace_def word_le_def word_less_def)
qed

lemma is_bb_iff:
  "cc_layout t \<Longrightarrow> is_bb t v \<longleftrightarrow> uint (code_cache t) \<le> uint v \<and> uint v < uint (code_cache t) + CODE_CACHE_SIZE * sizeof_dbm_block"
  using uint_traces_addr [of t] by (simp add: is_bb_def word_le_def word_less_def)

lemma addr_to_bb_id_uint:
  assumes "cc_layout t"
  shows "addr_to_bb_id t v = (if uint (code_cache t) \<le> uint v \<and> uint v \<le> uint (code_cache t) + CODE_CACHE_SIZE * sizeof_dbm_block
    then (uint v - uint (code_cache t)) div sizeof_dbm_block else -1)"
proof (cases "uint (code_cache t) \<le> uint v \<and> uint v \<le> uint (code_cache t) + CODE_CACHE_SIZE * sizeof_dbm_block")
  case True
  then have d: "uint (v - code_cache t) = uint v - uint (code_cache t)"
    by (simp add: uint_sub_if')
  have s: "uint (word_of_int sizeof_dbm_block :: uintptr) = sizeof_dbm_block"
    by (simp add: cc_sizes)
  have "uint ((v - code_cache t) div word_of_int sizeof_dbm_block) = (uint v - uint (code_cache t)) div sizeof_dbm_block"
    by (simp add: uint_div_distrib d s)
  moreover have "(uint v - uint (code_cache t)) div 256 \<le> 14080000 div 256"
    using True by (intro zdiv_mono1) (auto simp: cc_sizes)
  then have "(uint v - uint (code_cache t)) div sizeof_dbm_block < 2 ^ 31"
    by (simp add: cc_sizes)
  ultimately have "c_int ((v - code_cache t) div word_of_int sizeof_dbm_block) = (uint v - uint (code_cache t)) div sizeof_dbm_block"
    by (metis c_int_small)
  then show ?thesis
    using True uint_traces_addr [OF assms] by (simp add: addr_to_bb_id_def word_less_def)
next
  case False
  then show ?thesis
    using uint_traces_addr [OF assms] by (auto simp: addr_to_bb_id_def word_less_def)
qed

lemma uint_block_offset:
  assumes "cc_layout t" "0 \<le> i" "i < CODE_CACHE_SIZE" "0 \<le> d" "d < sizeof_dbm_block"
  shows "uint (blocks_addr t i + word_of_int d) = uint (code_cache t) + (i * sizeof_dbm_block + d)"
proof -
  have "blocks_addr t i + word_of_int d = code_cache t + word_of_int (i * sizeof_dbm_block + d)"
    by (simp add: blocks_addr_def)
  moreover have "uint (code_cache t + word_of_int (i * sizeof_dbm_block + d)) = uint (code_cache t) + (i * sizeof_dbm_block + d)"
    using assms by (intro uint_cc_offset [OF assms(1)]) (auto simp: cc_sizes)
  ultimately show ?thesis by metis
qed

lemma addr_to_bb_id_block:
  assumes "cc_layout t" "0 \<le> i" "i < CODE_CACHE_SIZE" "0 \<le> d" "d < sizeof_dbm_block"
  shows "addr_to_bb_id t (blocks_addr t i + word_of_int d) = i"
proof -
  have b: "i * sizeof_dbm_block + d < CODE_CACHE_SIZE * sizeof_dbm_block" "0 \<le> i * sizeof_dbm_block"
    using assms by (simp_all add: cc_sizes)
  then have "addr_to_bb_id t (blocks_addr t i + word_of_int d) = (i * sizeof_dbm_block + d) div sizeof_dbm_block"
    using assms(4) uint_block_offset [OF assms] by (simp add: addr_to_bb_id_uint [OF assms(1)])
  also have "\<dots> = i" using assms(4,5) by (simp add: cc_sizes)
  finally show ?thesis .
qed

lemma addr_to_bb_id_blocks [simp]:
  "cc_layout t \<Longrightarrow> 0 \<le> i \<Longrightarrow> i < CODE_CACHE_SIZE \<Longrightarrow> addr_to_bb_id t (blocks_addr t i) = i"
  using addr_to_bb_id_block [of t i 0] by (simp add: cc_sizes)

lemma block_not_trace: "cc_layout t \<Longrightarrow> 0 \<le> i \<Longrightarrow> i < CODE_CACHE_SIZE \<Longrightarrow> \<not> is_trace t (blocks_addr t i)"
  by (simp add: is_trace_iff uint_blocks_addr) (simp add: cc_sizes)

lemma block_not_UINT_MAX:
  assumes "cc_layout t" "0 \<le> i" "i < CODE_CACHE_SIZE"
  shows "blocks_addr t i \<noteq> UINT_MAX"
proof
  assume "blocks_addr t i = UINT_MAX"
  then have "uint (code_cache t) + i * 256 = 0xFFFFFFFF"
    using uint_blocks_addr [of t i] assms by (simp add: UINT_MAX_def cc_sizes)
  moreover obtain k where "uint (code_cache t) = 4096 * k"
    using assms(1) by (auto simp: cc_layout_def)
  ultimately have "2 * (2048 * k + 128 * i) = 4294967295" by simp
  moreover have "even (2 * (2048 * k + 128 * i))" by simp
  moreover have "odd (4294967295 :: int)" by simp
  ultimately show False by metis
qed

section \<open>The binary search over the traces\<close>

text \<open>Trace fragments are emitted one after the other, so their addresses ascend with their numbers.\<close>

lemma search_traces_finds:
  assumes "\<And>i. lo \<le> i \<Longrightarrow> i \<le> n \<Longrightarrow> get i = Ok (mt i)"
    "\<And>i j. lo \<le> i \<Longrightarrow> i \<le> j \<Longrightarrow> j \<le> n \<Longrightarrow> tpc (mt i) \<le> tpc (mt j)"
    "hi \<le> n" "addr < tpc (mt n)" "lo \<le> k" "k \<le> hi" "tpc (mt k) \<le> addr" "k < n" "addr < tpc (mt (k + 1))"
  shows "search_traces get addr lo hi = Ok k"
  using assms
proof (induction get addr lo hi rule: search_traces.induct)
  case (1 get addr lo hi)
  define p where "p = (lo + hi) div 2"
  have p: "lo \<le> p" "p \<le> hi" "p \<le> n" using "1.prems"(3,5,6) by (auto simp: p_def)
  have g: "get p = Ok (mt p)" using "1.prems"(1) p by auto
  have mono: "tpc (mt i) \<le> addr \<Longrightarrow> addr < tpc (mt j) \<Longrightarrow> lo \<le> j \<Longrightarrow> i \<le> n \<Longrightarrow> i < j" for i j
    using "1.prems"(2) [of j i] by (meson leD le_less_trans less_le_trans not_le)
  show ?case
  proof (cases "addr < tpc (mt p)")
    case True
    then have "k < p" using mono [of k p] "1.prems"(5-8) p by simp
    with "1.IH"(1) [OF _ p_def g True] "1.prems" p True show ?thesis
      by (subst search_traces.simps) (simp add: p_def [symmetric] g)
  next
    case False
    then have "p < n" using mono [of p n] "1.prems"(4) p "1.prems"(5,6,3) by simp
    then have g': "get (p + 1) = Ok (mt (p + 1))" using "1.prems"(1) p by simp
    note step = search_traces.simps [of get addr lo hi, folded p_def, unfolded Let_def g g' res_bind.simps]
    show ?thesis
    proof (cases "tpc (mt (p + 1)) \<le> addr")
      case True
      then have "p + 1 < k + 1" using mono [of "p + 1" "k + 1"] "1.prems"(5,9) \<open>p < n\<close> by simp
      with "1.IH"(2) [OF _ p_def g False g' True] "1.prems" p False True show ?thesis by (simp add: step)
    next
      case False': False
      have "k < p + 1" "p < k + 1"
        using mono [of k "p + 1"] mono [of p "k + 1"] "1.prems"(5,7,8,9) False False' p by (simp_all add: not_le not_less)
      then have "k = p" by simp
      with False False' p show ?thesis by (simp add: step)
    qed
  qed
qed

section \<open>The invariant\<close>

text \<open>
  The table holds addresses of allocated blocks and of traces; no block is a stub (only the AArch32 scanners
  create stubs); there is always room for the link cells.
\<close>

definition cc_inv :: "arch \<Rightarrow> int \<Rightarrow> 'a dbm_thread_scheme \<Rightarrow> bool" where
  "cc_inv a tramp t \<longleftrightarrow> a \<noteq> AArch32 \<and> cc_layout t \<and> hash_inv a (entry_address t) \<and>
     CODE_CACHE_HASH_SIZE + CODE_CACHE_HASH_OVERP \<le> int (length (ht_entries (entry_address t))) \<and>
     MAX_CC_LINKS \<le> int (length (pool (cc_links t))) \<and>
     0 < tramp \<and> tramp \<le> free_block t \<and> free_block t \<le> CODE_CACHE_SIZE \<and> tramp < CODE_CACHE_SIZE - CODE_CACHE_OVERP \<and>
     (\<forall>i. 0 \<le> i \<and> i < CODE_CACHE_SIZE \<longrightarrow> exit_branch_type (code_cache_meta t i) \<noteq> stub) \<and>
     (\<forall>k v. hash_view (entry_address t) k = Some v \<longrightarrow>
        (\<exists>i. tramp \<le> i \<and> i < free_block t \<and> v = blocks_addr t i) \<or> (is_trace t v \<and> v \<noteq> UINT_MAX))"

lemma cc_invD:
  assumes "cc_inv a tramp t"
  shows "a \<noteq> AArch32" "cc_layout t" "hash_inv a (entry_address t)" "0 < tramp" "tramp \<le> free_block t"
    "free_block t \<le> CODE_CACHE_SIZE" "tramp < CODE_CACHE_SIZE - CODE_CACHE_OVERP"
    "0 \<le> i \<Longrightarrow> i < CODE_CACHE_SIZE \<Longrightarrow> exit_branch_type (code_cache_meta t i) \<noteq> stub"
  using assms by (auto simp: cc_inv_def)

lemma cc_inv_entry:
  assumes "cc_inv a tramp t" "hash_view (entry_address t) k = Some v"
  obtains i where "tramp \<le> i" "i < free_block t" "v = blocks_addr t i" | "is_trace t v" "v \<noteq> UINT_MAX"
  using assms unfolding cc_inv_def by blast

lemma blocks_addr_cong: "code_cache t' = code_cache t \<Longrightarrow> blocks_addr t' = blocks_addr t"
  by (simp add: blocks_addr_def fun_eq_iff)

lemma is_trace_cong: "code_cache t' = code_cache t \<Longrightarrow> is_trace t' = is_trace t"
  by (simp add: is_trace_def traces_addr_def fun_eq_iff)

lemma cc_layout_cong: "code_cache t' = code_cache t \<Longrightarrow> cc_layout t' = cc_layout t"
  by (simp add: cc_layout_def)

text \<open>What the operations that leave the table alone have to keep.\<close>

lemma cc_inv_frame:
  assumes "cc_inv a tramp t" "code_cache t' = code_cache t" "entry_address t' = entry_address t"
    "length (pool (cc_links t')) = length (pool (cc_links t))" "free_block t \<le> free_block t'" "free_block t' \<le> CODE_CACHE_SIZE"
    "\<And>i. 0 \<le> i \<Longrightarrow> i < CODE_CACHE_SIZE \<Longrightarrow> exit_branch_type (code_cache_meta t' i) \<noteq> stub"
  shows "cc_inv a tramp t'"
proof -
  have "(\<exists>i. tramp \<le> i \<and> i < free_block t' \<and> v = blocks_addr t i) \<or> is_trace t v \<and> v \<noteq> UINT_MAX"
    if "hash_view (entry_address t) k = Some v" for k v
    using assms(1) that assms(5) by (rule_tac cc_inv_entry [OF assms(1) that]) (auto intro: less_le_trans)
  then show ?thesis
    using assms blocks_addr_cong [OF assms(2)] is_trace_cong [OF assms(2)] cc_layout_cong [OF assms(2)]
    unfolding cc_inv_def by simp
qed

lemma cc_lookup_view:
  assumes "cc_inv a tramp t" "k \<noteq> 0"
  shows "cc_lookup a t k = Ok (case hash_view (entry_address t) k of Some v \<Rightarrow> v | None \<Rightarrow> UINT_MAX)"
  using cc_invD(1,3) [OF assms(1)] assms(2) by (simp add: cc_lookup_def hash_lookup_view adjust_cc_entry_def)

section \<open>Flushing and allocation\<close>

lemma flush_code_cache_spec:
  assumes "cc_inv a tramp t"
  shows "\<exists>t'. flush_code_cache tramp t = Ok t' \<and> cc_inv a tramp t' \<and> hash_view (entry_address t') = Map.empty \<and>
    free_block t' = tramp \<and> was_flushed t' \<and> pool_ok (cc_links t') [0 ..< nat MAX_CC_LINKS] \<and> code_cache t' = code_cache t"
proof -
  let ?sz = "CODE_CACHE_HASH_SIZE + CODE_CACHE_HASH_OVERP"
  have len: "?sz \<le> int (length (ht_entries (entry_address t)))" "MAX_CC_LINKS \<le> int (length (pool (cc_links t)))"
    using assms by (simp_all add: cc_inv_def)
  obtain tbl where tbl: "hash_init (entry_address t) ?sz = Ok tbl" "hash_inv a tbl" "hash_view tbl = Map.empty"
      "length (ht_entries tbl) = length (ht_entries (entry_address t))"
    using hash_init_inv [of ?sz "entry_address t" a] len(1) by (auto simp: CODE_CACHE_HASH_SIZE_def CODE_CACHE_HASH_OVERP_def)
  obtain l where l: "linked_list_init (cc_links t) MAX_CC_LINKS = Ok l" "pool_ok l [0 ..< nat MAX_CC_LINKS]"
      "length (pool l) = length (pool (cc_links t))"
    using linked_list_init_ok [OF _ len(2)] by (auto simp: MAX_CC_LINKS_def)
  show ?thesis
    using assms tbl l len unfolding flush_code_cache_def cc_inv_def
    by (auto simp: cc_layout_def)
qed

lemma allocate_bb_spec:
  assumes "cc_inv a tramp t"
  shows "\<exists>i t'. allocate_bb tramp t = Ok (i, t') \<and> cc_inv a tramp t' \<and> tramp \<le> i \<and> i < CODE_CACHE_SIZE - CODE_CACHE_OVERP \<and>
    free_block t' = i + 1 \<and> code_cache t' = code_cache t"
proof -
  have step: "cc_inv a tramp (u\<lparr>free_block := free_block u + 1\<rparr>)"
    if "cc_inv a tramp u" "free_block u < CODE_CACHE_SIZE - CODE_CACHE_OVERP" for u :: "'a dbm_thread_scheme"
    using that cc_invD(8) [OF that(1)] by (intro cc_inv_frame [OF that(1)]) (auto simp: CODE_CACHE_OVERP_def)
  show ?thesis
  proof (cases "free_block t \<ge> CODE_CACHE_SIZE - CODE_CACHE_OVERP")
    case True
    obtain u where u: "flush_code_cache tramp t = Ok u" "cc_inv a tramp u" "free_block u = tramp" "code_cache u = code_cache t"
      using flush_code_cache_spec [OF assms] by blast
    with step [OF u(2)] cc_invD(7) [OF assms] True show ?thesis by (auto simp: allocate_bb_def)
  next
    case False
    with step [OF assms] cc_invD(5) [OF assms] show ?thesis by (auto simp: allocate_bb_def)
  qed
qed

text \<open>A fragment's first block and the blocks it overflows into.\<close>

primrec allocate_bb_overflows :: "nat \<Rightarrow> 'a dbm_thread_scheme \<Rightarrow> (int list \<times> 'a dbm_thread_scheme) res" where
  "allocate_bb_overflows 0 t = Ok ([], t)"
| "allocate_bb_overflows (Suc n) t =
     res_bind (allocate_bb_overflow t) (\<lambda>(i, t'). res_bind (allocate_bb_overflows n t') (\<lambda>(is, t''). Ok (i # is, t'')))"

lemma allocate_bb_overflows_ok:
  "free_block t + int n \<le> CODE_CACHE_SIZE \<Longrightarrow>
    allocate_bb_overflows n t = Ok (map (\<lambda>k. free_block t + int k) [0 ..< n], t\<lparr>free_block := free_block t + int n\<rparr>)"
proof (induction n arbitrary: t)
  case (Suc n)
  let ?t = "t\<lparr>free_block := free_block t + 1\<rparr>"
  have "allocate_bb_overflows n ?t = Ok (map (\<lambda>k. free_block ?t + int k) [0 ..< n], ?t\<lparr>free_block := free_block ?t + int n\<rparr>)"
    using Suc.prems by (intro Suc.IH) simp
  then show ?case
    using Suc.prems by (simp add: allocate_bb_overflow_def upt_conv_Cons map_Suc_upt [symmetric] algebra_simps del: upt_Suc)
qed simp

section \<open>Scanning\<close>

text \<open>The manager does not touch what extends the thread.\<close>

lemma flush_more: "flush_code_cache tramp t = Ok t' \<Longrightarrow> dbm_thread.more t' = dbm_thread.more t"
  by (auto simp: flush_code_cache_def res_bind_eq_Ok)

lemma allocate_bb_more: "allocate_bb tramp t = Ok (i, t') \<Longrightarrow> dbm_thread.more t' = dbm_thread.more t"
  by (auto simp: allocate_bb_def res_bind_eq_Ok flush_more split: if_splits)

lemma scan_entry_more: "scan_entry a t address bb st = Ok t' \<Longrightarrow> dbm_thread.more t' = dbm_thread.more t"
  by (auto simp: scan_entry_def Let_def res_bind_eq_Ok meta_upd_def split: if_splits)

lemma scan_entry_spec:
  assumes inv: "cc_inv a tramp t" and addr: "address \<noteq> 0" and bb: "tramp \<le> bb" "bb < free_block t"
    and ok: "scan_entry a t address bb False = Ok t'"
  shows "cc_inv a tramp t'" "hash_view (entry_address t') = (hash_view (entry_address t))(address \<mapsto> blocks_addr t bb)"
    "free_block t' = free_block t" "code_cache t' = code_cache t"
proof -
  have rng: "0 \<le> bb" "bb < META_SIZE"
    using bb cc_invD(4,6) [OF inv] by (auto simp: META_SIZE_def TRACE_FRAGMENT_NO_def)
  define u where "u = t\<lparr>code_cache_meta := (code_cache_meta t)(bb := (code_cache_meta t bb)\<lparr>source_addr := address, tpc := blocks_addr t bb\<rparr>)\<rparr>"
  obtain tbl b where tbl: "hash_add a (entry_address t) address (blocks_addr t bb) = Ok (tbl, b)" and t': "t' = u\<lparr>entry_address := tbl\<rparr>"
    using ok rng unfolding scan_entry_def by (auto simp: Let_def res_bind_eq_Ok u_def split: if_splits prod.splits)
  have h: "hash_inv a tbl" "hash_view tbl = (hash_view (entry_address t))(address \<mapsto> blocks_addr t bb)"
    using hash_add_inv [OF cc_invD(3) [OF inv] addr tbl] hash_add_view [OF cc_invD(3) [OF inv] addr tbl] by auto
  have len: "length (ht_entries tbl) = length (ht_entries (entry_address t))"
    by (rule hash_add_Ok_cases [OF cc_invD(3) [OF inv] tbl]) auto
  show "hash_view (entry_address t') = (hash_view (entry_address t))(address \<mapsto> blocks_addr t bb)"
    "free_block t' = free_block t" "code_cache t' = code_cache t"
    using h(2) by (simp_all add: t' u_def)
  have c: "code_cache t' = code_cache t" by (simp add: t' u_def)
  show "cc_inv a tramp t'"
    using inv h len bb unfolding cc_inv_def blocks_addr_cong [OF c] is_trace_cong [OF c] cc_layout_cong [OF c]
    by (simp add: t' u_def) blast
qed

text \<open>What the code cache manager relies on in an architecture's scanner.\<close>

locale block_scanner =
  fixes a :: arch and tramp :: int and ok :: "'t \<Rightarrow> bool"
    and scanner :: "'t dbm_thread_scheme \<Rightarrow> uintptr \<Rightarrow> int \<Rightarrow> 't dbm_thread_scheme res"
  assumes scanner_inv: "ok (dbm_thread.more t) \<Longrightarrow> cc_inv a tramp t \<Longrightarrow> tramp \<le> bb \<Longrightarrow> bb < free_block t \<Longrightarrow>
        scanner t addr bb = Ok t' \<Longrightarrow> cc_inv a tramp t' \<and> ok (dbm_thread.more t')"
    and scanner_table: "ok (dbm_thread.more t) \<Longrightarrow> scanner t addr bb = Ok t' \<Longrightarrow> entry_address t' = entry_address t \<and> code_cache t' = code_cache t"
begin

lemma lookup_cached_hit:
  assumes inv: "cc_inv a tramp t" and tgt: "target \<noteq> 0" "hash_view (entry_address t) target = Some v"
  shows "v \<noteq> UINT_MAX" "lookup_or_scan_with_cached a tramp scanner t target = Ok (v, True, t)"
proof -
  have lk: "cc_lookup a t target = Ok v" using cc_lookup_view [OF inv tgt(1)] tgt(2) by simp
  have "v \<noteq> UINT_MAX \<and> (\<exists>b. lookup_cached a t target = Ok (v, b))"
  proof (rule cc_inv_entry [OF inv tgt(2)])
    fix i assume i: "tramp \<le> i" "i < free_block t" "v = blocks_addr t i"
    then have r: "0 \<le> i" "i < CODE_CACHE_SIZE" "i < META_SIZE"
      using cc_invD(4,6) [OF inv] by (auto simp: META_SIZE_def TRACE_FRAGMENT_NO_def)
    then show ?thesis
      using i lk cc_invD(8) [OF inv r(1,2)] block_not_trace [OF cc_invD(2) [OF inv] r(1,2)]
        block_not_UINT_MAX [OF cc_invD(2) [OF inv] r(1,2)] cc_invD(2) [OF inv]
      by (simp add: lookup_cached_def)
  next
    assume "is_trace t v" "v \<noteq> UINT_MAX"
    then show ?thesis using lk by (simp add: lookup_cached_def)
  qed
  then show "v \<noteq> UINT_MAX" "lookup_or_scan_with_cached a tramp scanner t target = Ok (v, True, t)"
    by (auto simp: lookup_or_scan_with_cached_def)
qed

lemma lookup_cached_miss:
  assumes ext: "ok (dbm_thread.more t)" and inv: "cc_inv a tramp t" and tgt: "target \<noteq> 0" "hash_view (entry_address t) target = None"
    and res: "lookup_or_scan_with_cached a tramp scanner t target = Ok (addr, cached, t')"
  shows "\<not> cached" "cc_inv a tramp t' \<and> ok (dbm_thread.more t')" "hash_view (entry_address t') target = Some addr"
proof -
  have "lookup_cached a t target = Ok (UINT_MAX, ALLOCATE_BB)"
    using cc_lookup_view [OF inv tgt(1)] tgt(2) by (simp add: lookup_cached_def)
  then have c: "\<not> cached" and sc: "scan a tramp scanner t target ALLOCATE_BB = Ok (addr, t')"
    using res by (auto simp: lookup_or_scan_with_cached_def res_bind_eq_Ok)
  obtain bb u where u: "allocate_bb tramp t = Ok (bb, u)" "cc_inv a tramp u" "tramp \<le> bb" "free_block u = bb + 1"
    using allocate_bb_spec [OF inv] by blast
  obtain e where e: "scan_entry a u target bb False = Ok e" "scanner e target bb = Ok t'" "addr = adjust_cc_entry a (blocks_addr e bb)"
    using sc u(1) by (auto simp: scan_def res_bind_eq_Ok)
  have bb: "bb < free_block u" using u(4) by simp
  note es = scan_entry_spec [OF u(2) tgt(1) u(3) bb e(1)]
  have ad: "addr = blocks_addr u bb"
    using e(3) cc_invD(1) [OF inv] blocks_addr_cong [OF es(4)] by (simp add: adjust_cc_entry_def)
  show "\<not> cached" by (rule c)
  have ext': "ok (dbm_thread.more e)" using ext allocate_bb_more [OF u(1)] scan_entry_more [OF e(1)] by simp
  show "cc_inv a tramp t' \<and> ok (dbm_thread.more t')"
    using scanner_inv [OF ext' es(1) u(3) _ e(2)] bb es(3) by simp
  show "hash_view (entry_address t') target = Some addr"
    using scanner_table [OF ext' e(2)] es(2) ad by simp
qed

lemma lookup_or_scan_stable:
  assumes "cc_inv a tramp t" "target \<noteq> 0" "lookup_or_scan a tramp scanner t target = Ok (addr, t')" "ok (dbm_thread.more t)"
  shows "cc_inv a tramp t' \<and> ok (dbm_thread.more t') \<and> hash_view (entry_address t') target = Some addr \<and> addr \<noteq> UINT_MAX \<and> lookup_or_scan_with_cached a tramp scanner t' target = Ok (addr, True, t')"
proof -
  obtain cached where res: "lookup_or_scan_with_cached a tramp scanner t target = Ok (addr, cached, t')"
    using assms(3) by (auto simp: lookup_or_scan_def res_bind_eq_Ok)
  show ?thesis
  proof (cases "hash_view (entry_address t) target")
    case None
    then show ?thesis
      using lookup_cached_miss(2,3) [OF assms(4,1,2) None res] lookup_cached_hit [of t' target addr] assms(2) by blast
  next
    case (Some v)
    then show ?thesis
      using lookup_cached_hit [OF assms(1,2) Some] res Some assms(1,4) by simp
  qed
qed

end

text \<open>A scanner that in addition leaves the metadata of the other fragments alone.\<close>

locale framed_scanner = block_scanner +
  assumes scanner_frame: "ok (dbm_thread.more t) \<Longrightarrow> scanner t addr bb = Ok t' \<Longrightarrow> was_flushed t' = was_flushed t \<and>
      (\<forall>i. i \<noteq> bb \<and> (i < free_block t \<or> CODE_CACHE_SIZE \<le> i) \<longrightarrow> code_cache_meta t' i = code_cache_meta t i)"
begin

lemma lookup_or_scan_frame:
  assumes inv: "cc_inv a tramp t" "target \<noteq> 0" "ok (dbm_thread.more t)" and res: "lookup_or_scan a tramp scanner t target = Ok (addr, t')"
    and fl: "\<not> was_flushed t'" and i: "i < free_block t \<or> CODE_CACHE_SIZE \<le> i"
  shows "code_cache_meta t' i = code_cache_meta t i"
proof (cases "hash_view (entry_address t) target")
  case (Some v)
  then show ?thesis using lookup_cached_hit [OF inv(1,2) Some] res by (simp add: lookup_or_scan_def)
next
  case None
  have "lookup_cached a t target = Ok (UINT_MAX, ALLOCATE_BB)"
    using cc_lookup_view [OF inv(1,2)] None by (simp add: lookup_cached_def)
  then obtain bb u e where u: "allocate_bb tramp t = Ok (bb, u)" "scan_entry a u target bb False = Ok e" "scanner e target bb = Ok t'"
    using res by (auto simp: lookup_or_scan_def lookup_or_scan_with_cached_def scan_def res_bind_eq_Ok)
  have ext: "ok (dbm_thread.more e)" using inv(3) allocate_bb_more [OF u(1)] scan_entry_more [OF u(2)] by simp
  note fr = scanner_frame [OF ext u(3)]
  have e: "was_flushed e = was_flushed u" "free_block e = free_block u" "j \<noteq> bb \<Longrightarrow> code_cache_meta e j = code_cache_meta u j" for j
    using u(2) by (auto simp: scan_entry_def Let_def res_bind_eq_Ok meta_upd_def split: if_splits)
  have "free_block t < CODE_CACHE_SIZE - CODE_CACHE_OVERP"
    using u(1) fr e(1) fl by (auto simp: allocate_bb_def flush_code_cache_def res_bind_eq_Ok split: if_splits)
  then have a: "bb = free_block t" "u = t\<lparr>free_block := free_block t + 1\<rparr>" "free_block t < CODE_CACHE_SIZE"
    using u(1) by (auto simp: allocate_bb_def CODE_CACHE_OVERP_def)
  then have "i \<noteq> bb" using i by auto
  then show ?thesis using fr e a i by auto
qed

end

section \<open>Recorded links\<close>

text \<open>The addresses that are recorded to branch to block \<open>i\<close>, the most recent first.\<close>

definition links_are :: "'a dbm_thread_scheme \<Rightarrow> nat list \<Rightarrow> int \<Rightarrow> uintptr list \<Rightarrow> bool" where
  "links_are t free i froms \<longleftrightarrow> (\<exists>cells. chain (pool (cc_links t)) (linked_from (code_cache_meta t i)) cells \<and>
     set cells \<inter> set free = {} \<and> map (\<lambda>c. ll_data (pool (cc_links t) ! c)) cells = froms)"

lemma chain_data_frame:
  "e \<notin> set cells \<Longrightarrow> map (\<lambda>c. ll_data (p[e := x] ! c)) cells = map (\<lambda>c. ll_data (p ! c)) cells"
  by (induction cells) auto

lemma links_are_frame:
  assumes "links_are t (e # free) i froms" "linked_from (code_cache_meta t' i) = linked_from (code_cache_meta t i)"
    "pool (cc_links t') = (pool (cc_links t))[e := c]"
  shows "links_are t' free i froms"
proof -
  obtain cells where cells: "chain (pool (cc_links t)) (linked_from (code_cache_meta t i)) cells"
      "set cells \<inter> set (e # free) = {}" "map (\<lambda>c. ll_data (pool (cc_links t) ! c)) cells = froms"
    using assms(1) unfolding links_are_def by blast
  have e: "e \<notin> set cells" using cells(2) by auto
  then have "map (\<lambda>c. ll_data (pool (cc_links t') ! c)) cells = froms"
    using cells(3) assms(3) by (simp add: chain_data_frame)
  moreover have "chain (pool (cc_links t')) (linked_from (code_cache_meta t' i)) cells"
    using chain_frame [OF cells(1) e] assms(2,3) by simp
  ultimately show ?thesis using cells(2) by (auto simp: links_are_def)
qed

lemma links_are_push:
  assumes "links_are t (e # free) i froms" "linked_from (code_cache_meta t' i) = Some e" "e < length (pool (cc_links t))" "e \<notin> set free"
    "pool (cc_links t') = (pool (cc_links t))[e := \<lparr>ll_next = linked_from (code_cache_meta t i), ll_data = d\<rparr>]"
  shows "links_are t' free i (d # froms)"
proof -
  obtain cells where cells: "chain (pool (cc_links t)) (linked_from (code_cache_meta t i)) cells"
      "set cells \<inter> set (e # free) = {}" "map (\<lambda>c. ll_data (pool (cc_links t) ! c)) cells = froms"
    using assms(1) unfolding links_are_def by blast
  have e: "e \<notin> set cells" using cells(2) by auto
  let ?p = "(pool (cc_links t))[e := \<lparr>ll_next = linked_from (code_cache_meta t i), ll_data = d\<rparr>]"
  have "chain ?p (Some e) (e # cells)" "map (\<lambda>c. ll_data (?p ! c)) (e # cells) = d # froms"
    using chain_frame [OF cells(1) e] assms(3) cells(3) by (simp_all only: chain_data_frame [OF e] list.map) auto
  moreover have "set (e # cells) \<inter> set free = {}" using cells(2) assms(4) by auto
  ultimately show ?thesis unfolding links_are_def assms(2,5) by (intro exI [of _ "e # cells"] conjI)
qed

lemma record_cc_link_eq:
  assumes "cc_layout t" "0 \<le> i" "i < CODE_CACHE_SIZE" "addr_to_bb_id t to_addr = i" "pool_ok (cc_links t) (e # free)"
  shows "\<exists>l'. pool_ok l' free \<and> pool l' = (pool (cc_links t))[e := \<lparr>ll_next = linked_from (code_cache_meta t i), ll_data = from_addr\<rparr>] \<and>
    record_cc_link t from_addr to_addr = Ok (t\<lparr>cc_links := l',
      code_cache_meta := (code_cache_meta t)(i := (code_cache_meta t i)\<lparr>linked_from := Some e\<rparr>)\<rparr>)"
proof -
  obtain l where l: "linked_list_alloc (cc_links t) = Ok (Some e, l)" "pool_ok l free"
      "pool l = (pool (cc_links t))[e := (pool (cc_links t) ! e)\<lparr>ll_next := None\<rparr>]"
    using linked_list_alloc_ok [OF assms(5)] by blast
  have e: "e < length (pool (cc_links t))" "e \<notin> set free"
    using assms(5) by (auto simp: pool_ok_def)
  have m: "i < META_SIZE" using assms(3) by (simp add: META_SIZE_def TRACE_FRAGMENT_NO_def)
  let ?c = "\<lparr>ll_next = linked_from (code_cache_meta t i), ll_data = from_addr\<rparr>"
  have "pool_ok (l\<lparr>pool := (pool l)[e := ?c]\<rparr>) free"
    using l(2) e(2) by (auto simp: pool_ok_def intro: chain_frame)
  then show ?thesis
    using l e m assms(2,3,4) by (intro exI [of _ "l\<lparr>pool := (pool l)[e := ?c]\<rparr>"]) (auto simp: record_cc_link_def)
qed

section \<open>Addresses and fragments\<close>

definition traces_ascend :: "'a dbm_thread_scheme \<Rightarrow> bool" where
  "traces_ascend t \<longleftrightarrow> CODE_CACHE_SIZE < trace_in_prog_id (active_trace t) \<and> trace_in_prog_id (active_trace t) \<le> META_SIZE \<and>
     tpc (code_cache_meta t CODE_CACHE_SIZE) = traces_addr t \<and>
     (\<forall>i j. CODE_CACHE_SIZE \<le> i \<and> i \<le> j \<and> j < trace_in_prog_id (active_trace t) \<longrightarrow>
        tpc (code_cache_meta t i) \<le> tpc (code_cache_meta t j))"

lemma addr_to_fragment_id_block:
  assumes lay: "cc_layout t" and i: "0 \<le> i" "i < CODE_CACHE_SIZE" "0 \<le> d" "d < sizeof_dbm_block"
  shows "addr_to_fragment_id t (blocks_addr t i + word_of_int d) =
    Ok (if actual_id (code_cache_meta t i) \<noteq> 0 then actual_id (code_cache_meta t i) else i)"
proof -
  let ?v = "blocks_addr t i + word_of_int d"
  have b: "0 \<le> i * sizeof_dbm_block + d" "i * sizeof_dbm_block + d < MAX_BRANCH_RANGE"
    using i by (simp_all add: cc_sizes)
  have "uint ?v = uint (code_cache t) + (i * sizeof_dbm_block + d)"
    by (rule uint_block_offset [OF lay i])
  then have "code_cache t \<le> ?v \<and> ?v < code_cache t + word_of_int MAX_BRANCH_RANGE"
    using b uint_cc_end [OF lay] by (simp add: word_le_def word_less_def)
  moreover have "i < META_SIZE" using i by (simp add: META_SIZE_def TRACE_FRAGMENT_NO_def)
  ultimately show ?thesis
    using i addr_to_bb_id_block [OF lay i] by (simp add: addr_to_fragment_id_def res_assert_if)
qed

text \<open>\<open>k\<close> is the fragment of the trace cache that contains \<open>addr\<close>.\<close>

definition trace_fragment_at :: "'a dbm_thread_scheme \<Rightarrow> uintptr \<Rightarrow> int \<Rightarrow> bool" where
  "trace_fragment_at t addr k \<longleftrightarrow> CODE_CACHE_SIZE \<le> k \<and> k < trace_in_prog_id (active_trace t) \<and>
     tpc (code_cache_meta t k) \<le> addr \<and> (k + 1 < trace_in_prog_id (active_trace t) \<longrightarrow> addr < tpc (code_cache_meta t (k + 1)))"

lemma addr_to_fragment_id_trace:
  assumes lay: "cc_layout t" and asc: "traces_ascend t" and tr: "is_trace t addr" "addr \<noteq> traces_addr t"
  shows "\<exists>k. addr_to_fragment_id t addr = Ok k \<and> trace_fragment_at t addr k"
proof -
  note traces = asc [unfolded traces_ascend_def]
  define n where "n = trace_in_prog_id (active_trace t) - 1"
  have n: "CODE_CACHE_SIZE \<le> n" "n < META_SIZE" using traces by (auto simp: n_def)
  have pos: "0 \<le> CODE_CACHE_SIZE" by (simp add: CODE_CACHE_SIZE_def)
  have rng: "uint (traces_addr t) < uint addr" "uint addr < uint (code_cache t) + MAX_BRANCH_RANGE"
    using tr is_trace_iff [OF lay, of addr] uint_traces_addr [OF lay] word_uint_eq_iff [of addr "traces_addr t"] by auto
  have fst: "code_cache t \<le> addr" "addr < code_cache t + word_of_int MAX_BRANCH_RANGE"
    using rng uint_traces_addr [OF lay] uint_cc_end [OF lay] by (simp_all add: word_le_def word_less_def cc_sizes)
  have id: "addr_to_bb_id t addr = -1"
    using rng(1) by (simp add: addr_to_bb_id_def word_less_def)
  have eq: "addr_to_fragment_id t addr = (if addr \<ge> tpc (code_cache_meta t n) then Ok n else search_traces (meta_get t) addr CODE_CACHE_SIZE n)"
    using fst id n pos by (simp add: addr_to_fragment_id_def Let_def n_def [symmetric] res_assert_if)
  show ?thesis
  proof (cases "addr \<ge> tpc (code_cache_meta t n)")
    case True
    then show ?thesis using eq n by (auto simp: n_def trace_fragment_at_def)
  next
    case False
    have "\<exists>k. CODE_CACHE_SIZE \<le> k \<and> k < n \<and> tpc (code_cache_meta t k) \<le> addr \<and> addr < tpc (code_cache_meta t (k + 1))"
    proof -
      have lo: "tpc (code_cache_meta t CODE_CACHE_SIZE) \<le> addr" using traces rng(1) by (simp add: word_le_def)
      obtain m where m: "\<not> tpc (code_cache_meta t (CODE_CACHE_SIZE + int m)) \<le> addr" "m \<le> nat (n - CODE_CACHE_SIZE)"
          "\<And>e. e < m \<Longrightarrow> \<not> \<not> tpc (code_cache_meta t (CODE_CACHE_SIZE + int e)) \<le> addr"
        by (rule least_witness [of "\<lambda>m. \<not> tpc (code_cache_meta t (CODE_CACHE_SIZE + int m)) \<le> addr" "nat (n - CODE_CACHE_SIZE)"])
          (use False n(1) in auto)
      moreover have "m \<noteq> 0" using m(1) lo by (cases m) auto
      ultimately show ?thesis
        using m(3) [of "m - 1"] n(1) by (intro exI [of _ "CODE_CACHE_SIZE + int (m - 1)"]) (auto simp: not_le of_nat_diff)
    qed
    then obtain k where k: "CODE_CACHE_SIZE \<le> k" "k < n" "tpc (code_cache_meta t k) \<le> addr" "addr < tpc (code_cache_meta t (k + 1))"
      by blast
    have "search_traces (meta_get t) addr CODE_CACHE_SIZE n = Ok k"
      by (rule search_traces_finds [where mt = "code_cache_meta t" and n = n])
        (use k n pos False traces in \<open>auto simp: n_def not_le\<close>)
    then show ?thesis using False eq k by (auto simp: n_def trace_fragment_at_def)
  qed
qed

section \<open>A fresh thread\<close>

definition fresh_thread :: dbm_thread where
  "fresh_thread = witness_thread\<lparr>
     entry_address := \<lparr>ht_size = 524297, ht_collisions = 0, ht_count = 0, ht_entries = replicate 524297 \<lparr>he_key = 0, he_value = 0\<rparr>\<rparr>,
     cc_links := \<lparr>free_list = Some 0, ll_size = MAX_CC_LINKS,
       pool = map (\<lambda>i. \<lparr>ll_next = (if Suc i < nat MAX_CC_LINKS then Some (Suc i) else None), ll_data = 0\<rparr>) [0 ..< nat MAX_CC_LINKS]\<rparr>\<rparr>"

lemma fresh_thread_inv: "cc_inv AArch64 1 fresh_thread"
proof -
  have "hash_inv AArch64 (entry_address fresh_thread)"
    by (auto simp: hash_inv_def hash_size_ok_def hash_used_def fresh_thread_def CODE_CACHE_HASH_OVERP_def)
  moreover have "hash_view (entry_address fresh_thread) = Map.empty"
    by (simp add: hash_view_def fresh_thread_def)
  ultimately show ?thesis
    by (simp add: cc_inv_def fresh_thread_def witness_thread_def cc_layout_def cc_sizes MAX_CC_LINKS_def
        CODE_CACHE_HASH_SIZE_def CODE_CACHE_HASH_OVERP_def)
qed

lemma fresh_thread_pool: "pool_ok (cc_links fresh_thread) (0 # [1 ..< nat MAX_CC_LINKS])"
proof -
  have pos: "0 < nat MAX_CC_LINKS" by (simp add: MAX_CC_LINKS_def)
  then have "chain (pool (cc_links fresh_thread)) (Some 0) [0 ..< nat MAX_CC_LINKS]"
    by (intro chain_upt) (auto simp: fresh_thread_def)
  moreover have "[0 ..< nat MAX_CC_LINKS] = 0 # [1 ..< nat MAX_CC_LINKS]" using pos by (simp add: upt_conv_Cons)
  ultimately show ?thesis by (simp add: pool_ok_def fresh_thread_def)
qed

section \<open>Properties\<close>

text \<open>C11: A fragment that starts with \<open>allocate_bb\<close> may overflow \<open>CODE_CACHE_OVERP\<close> times: all these
  allocations succeed without a flush in between and give the numbers, hence the addresses, that directly follow
  the first block; the first block leaves the trampolines untouched.\<close>

theorem fragment_blocks_contiguous:
  assumes "cc_inv a tramp t" "int n \<le> CODE_CACHE_OVERP"
  shows "\<exists>i u t'. allocate_bb tramp t = Ok (i, u) \<and> tramp \<le> i \<and>
    allocate_bb_overflows n u = Ok (map (\<lambda>k. i + 1 + int k) [0 ..< n], t') \<and> was_flushed t' = was_flushed u \<and> cc_inv a tramp t'"
proof -
  obtain i u where u: "allocate_bb tramp t = Ok (i, u)" "cc_inv a tramp u" "tramp \<le> i" "i < CODE_CACHE_SIZE - CODE_CACHE_OVERP"
      "free_block u = i + 1"
    using allocate_bb_spec [OF assms(1)] by blast
  let ?t' = "u\<lparr>free_block := free_block u + int n\<rparr>"
  have fit: "free_block u + int n \<le> CODE_CACHE_SIZE" using u(4,5) assms(2) by simp
  have "cc_inv a tramp ?t'"
    using fit cc_invD(8) [OF u(2)] by (intro cc_inv_frame [OF u(2)]) auto
  moreover have "allocate_bb_overflows n u = Ok (map (\<lambda>k. i + 1 + int k) [0 ..< n], ?t')"
    using allocate_bb_overflows_ok [OF fit] u(5) by simp
  ultimately show ?thesis using u(1,3) by auto
qed

theorem fragment_blocks_contiguous_witness:
  "\<exists>i u t'. allocate_bb 1 fresh_thread = Ok (i, u) \<and> 1 \<le> i \<and> allocate_bb_overflows 2 u = Ok ([i + 1, 2 + i], t') \<and> cc_inv AArch64 1 t'"
  using fragment_blocks_contiguous [OF fresh_thread_inv, of 2] by (simp add: upt_rec CODE_CACHE_OVERP_def) blast

text \<open>C25: A code cache address is mapped to its fragment: an address inside block \<open>i\<close> to \<open>i\<close>, or to the fragment that
  overflowed into the block; an address behind the start of the first trace to the last trace fragment that starts at or
  before it, when the fragments' start addresses ascend.\<close>

theorem addr_to_fragment_id_correct:
  assumes "cc_layout t" "traces_ascend t"
  shows "(\<forall>i d. 0 \<le> i \<and> i < CODE_CACHE_SIZE \<and> 0 \<le> d \<and> d < sizeof_dbm_block \<longrightarrow>
      addr_to_fragment_id t (blocks_addr t i + word_of_int d) =
        Ok (if actual_id (code_cache_meta t i) \<noteq> 0 then actual_id (code_cache_meta t i) else i)) \<and>
    (\<forall>addr. is_trace t addr \<and> addr \<noteq> traces_addr t \<longrightarrow>
      (\<exists>k. addr_to_fragment_id t addr = Ok k \<and> trace_fragment_at t addr k))"
  using addr_to_fragment_id_block [OF assms(1)] addr_to_fragment_id_trace [OF assms] by blast

definition traced_thread :: dbm_thread where
  "traced_thread = fresh_thread\<lparr>active_trace := (active_trace fresh_thread)\<lparr>trace_in_prog_id := 55002\<rparr>,
     code_cache_meta := (\<lambda>i. (code_cache_meta fresh_thread i)\<lparr>tpc := (if i = 55000 then 0x50D6D800 else if i = 55001 then 0x50D6D900 else 0)\<rparr>)\<rparr>"

theorem addr_to_fragment_id_correct_witness:
  "addr_to_fragment_id traced_thread 0x50000104 = Ok 1 \<and> (\<exists>k. addr_to_fragment_id traced_thread 0x50D6D844 = Ok k \<and>
     trace_fragment_at traced_thread 0x50D6D844 k)"
proof -
  have lay: "cc_layout traced_thread"
    by (simp add: cc_layout_def traced_thread_def fresh_thread_def witness_thread_def cc_sizes)
  have asc: "traces_ascend traced_thread"
    by (auto simp: traces_ascend_def traced_thread_def fresh_thread_def witness_thread_def traces_addr_def cc_sizes)
  have tr: "is_trace traced_thread 0x50D6D844" "(0x50D6D844 :: uintptr) \<noteq> traces_addr traced_thread"
    by (simp_all add: is_trace_def traces_addr_def traced_thread_def fresh_thread_def witness_thread_def cc_sizes)
  note c = addr_to_fragment_id_correct [OF lay asc]
  have "blocks_addr traced_thread 1 + word_of_int 4 = 0x50000104"
    by (simp add: blocks_addr_def traced_thread_def fresh_thread_def witness_thread_def cc_sizes)
  moreover have "addr_to_fragment_id traced_thread (blocks_addr traced_thread 1 + word_of_int 4) = Ok 1"
    using c [THEN conjunct1, rule_format, of 1 4]
    by (simp add: cc_sizes traced_thread_def fresh_thread_def witness_thread_def)
  ultimately show ?thesis using c tr by metis
qed

text \<open>Recording a direct branch into a block puts its address in front of the addresses recorded for that block,
  changes no other block's record and uses up one cell of the pool; with an exhausted pool the assertion fails.\<close>

theorem record_cc_link_records:
  assumes "cc_layout t" "0 \<le> i" "i < CODE_CACHE_SIZE" "0 \<le> d" "d < sizeof_dbm_block" "pool_ok (cc_links t) free"
  shows "case free of
      [] \<Rightarrow> record_cc_link t from_addr (blocks_addr t i + word_of_int d) = Assert_Fail
    | e # rest \<Rightarrow> \<exists>t'. record_cc_link t from_addr (blocks_addr t i + word_of_int d) = Ok t' \<and> pool_ok (cc_links t') rest \<and>
        (\<forall>froms. links_are t free i froms \<longrightarrow> links_are t' rest i (from_addr # froms)) \<and>
        (\<forall>j froms. j \<noteq> i \<longrightarrow> links_are t free j froms \<longrightarrow> links_are t' rest j froms)"
proof (cases free)
  case Nil
  then show ?thesis
    using addr_to_bb_id_block [OF assms(1-5)] linked_list_alloc_empty [of "cc_links t"] assms(2,6)
    by (simp add: record_cc_link_def)
next
  case (Cons e rest)
  have e: "e < length (pool (cc_links t))" "e \<notin> set rest"
    using assms(6) Cons by (auto simp: pool_ok_def)
  obtain l where l: "pool_ok l rest" "pool l = (pool (cc_links t))[e := \<lparr>ll_next = linked_from (code_cache_meta t i), ll_data = from_addr\<rparr>]"
      "record_cc_link t from_addr (blocks_addr t i + word_of_int d) = Ok (t\<lparr>cc_links := l,
        code_cache_meta := (code_cache_meta t)(i := (code_cache_meta t i)\<lparr>linked_from := Some e\<rparr>)\<rparr>)" (is "_ = Ok ?t'")
    using record_cc_link_eq [OF assms(1-3) addr_to_bb_id_block [OF assms(1-5)]] assms(6) Cons by blast
  have "links_are t free i froms \<Longrightarrow> links_are ?t' rest i (from_addr # froms)" for froms
    using links_are_push [of t e rest i froms ?t' from_addr] Cons e l(2) by simp
  moreover have "links_are t free j froms \<Longrightarrow> links_are ?t' rest j froms" if "j \<noteq> i" for j froms
    using links_are_frame [of t e rest j froms ?t'] Cons l(2) that by simp
  ultimately show ?thesis using l(1,3) Cons by auto
qed

theorem record_cc_link_records_witness:
  "\<exists>t' rest. record_cc_link fresh_thread 0x50000400 0x50000200 = Ok t' \<and> links_are t' rest 2 [0x50000400]"
proof -
  have "links_are fresh_thread (0 # [1 ..< nat MAX_CC_LINKS]) 2 []"
    by (simp add: links_are_def fresh_thread_def witness_thread_def)
  moreover have "blocks_addr fresh_thread 2 + word_of_int 0 = 0x50000200"
    by (simp add: blocks_addr_def fresh_thread_def witness_thread_def cc_sizes)
  ultimately show ?thesis
    using record_cc_link_records [OF cc_invD(2) [OF fresh_thread_inv] _ _ _ _ fresh_thread_pool, of 2 0 "0x50000400"]
    by (auto simp: cc_sizes)
qed

end
