(* ===== verification/A64_Machine.thy ===== *)
theory A64_Machine
  imports Mambo_Prelude
begin

text \<open>
  The AArch64 instructions that MAMBO's code generators emit, with the fields and field widths of
  \<open>pie/a64.txt\<close> (the generated encoders mask every argument to its field), and what they do to a
  thread's registers, stack and memory. The second part is the specification against which emitted code
  is verified: it is the architecture's documented behaviour of this subset, not code of the repository.
\<close>

section \<open>Instructions\<close>

datatype a64_inst =
    a64_B_BL "1 word" "26 word"
  | a64_B_cond "19 word" "4 word"
  | a64_CBZ_CBNZ "1 word" "1 word" "19 word" "5 word"
  | a64_TBZ_TBNZ "1 word" "1 word" "5 word" "14 word" "5 word"
  | a64_BR "5 word"
  | a64_BLR "5 word"
  | a64_MOV_wide "1 word" "2 word" "2 word" "16 word" "5 word"
  | a64_LDP_STP "2 word" "1 word" "2 word" "1 word" "7 word" "5 word" "5 word" "5 word"
  | a64_LDR_STR_immed "2 word" "1 word" "2 word" "9 word" "2 word" "5 word" "5 word"
  | a64_LDR_STR_unsigned_immed "2 word" "1 word" "2 word" "12 word" "5 word" "5 word"
  | a64_ADD_SUB_immed "1 word" "1 word" "1 word" "2 word" "12 word" "5 word" "5 word"
  | a64_ADD_SUB_shift_reg "1 word" "1 word" "1 word" "2 word" "5 word" "6 word" "5 word" "5 word"
  | a64_ADD_SUB_ext_reg "1 word" "1 word" "1 word" "5 word" "3 word" "3 word" "5 word" "5 word"
  | a64_logical_reg "1 word" "2 word" "2 word" "1 word" "5 word" "6 word" "5 word" "5 word"
  | a64_logical_immed "1 word" "2 word" "1 word" "6 word" "6 word" "5 word" "5 word"
  | a64_BFM "1 word" "2 word" "1 word" "6 word" "6 word" "5 word" "5 word"
  | a64_data_proc_reg2 "1 word" "5 word" "6 word" "5 word" "5 word"
  | a64_data_proc_reg3 "1 word" "3 word" "5 word" "1 word" "5 word" "5 word" "5 word"
  | a64_word u32

type_synonym a64_code = "uintptr \<rightharpoonup> a64_inst"

section \<open>Machine state\<close>

text \<open>Memory is a map of naturally aligned, little-endian 64-bit cells.\<close>

record a64_flags =
  flag_n :: bool
  flag_z :: bool
  flag_c :: bool
  flag_v :: bool

record a64_state =
  xregs :: "nat \<Rightarrow> uintptr"
  sp_reg :: uintptr
  pc_reg :: uintptr
  flags :: a64_flags
  mem :: "uintptr \<Rightarrow> uintptr"

definition xreg :: "a64_state \<Rightarrow> 5 word \<Rightarrow> uintptr" where
  "xreg s r = (if r = 31 then 0 else xregs s (unat r))"

definition xreg_sp :: "a64_state \<Rightarrow> 5 word \<Rightarrow> uintptr" where
  "xreg_sp s r = (if r = 31 then sp_reg s else xregs s (unat r))"

definition set_xreg :: "5 word \<Rightarrow> uintptr \<Rightarrow> a64_state \<Rightarrow> a64_state" where
  "set_xreg r v s = (if r = 31 then s else s\<lparr>xregs := (xregs s)(unat r := v)\<rparr>)"

definition set_xreg_sp :: "5 word \<Rightarrow> uintptr \<Rightarrow> a64_state \<Rightarrow> a64_state" where
  "set_xreg_sp r v s = (if r = 31 then s\<lparr>sp_reg := v\<rparr> else s\<lparr>xregs := (xregs s)(unat r := v)\<rparr>)"

definition set_mem :: "uintptr \<Rightarrow> uintptr \<Rightarrow> a64_state \<Rightarrow> a64_state" where
  "set_mem a v s = s\<lparr>mem := (mem s)(a := v)\<rparr>"

definition next_pc :: "a64_state \<Rightarrow> a64_state" where
  "next_pc s = s\<lparr>pc_reg := pc_reg s + 4\<rparr>"

definition branch_by :: "uintptr \<Rightarrow> a64_state \<Rightarrow> a64_state" where
  "branch_by d s = s\<lparr>pc_reg := pc_reg s + d\<rparr>"

text \<open>The condition codes: the low bit inverts the condition of the upper three, except for 15.\<close>

definition base_cond :: "a64_flags \<Rightarrow> nat \<Rightarrow> bool" where
  "base_cond f c = (if c = 0 then flag_z f else if c = 1 then flag_c f else if c = 2 then flag_n f
     else if c = 3 then flag_v f else if c = 4 then flag_c f \<and> \<not> flag_z f
     else if c = 5 then flag_n f = flag_v f else if c = 6 then flag_n f = flag_v f \<and> \<not> flag_z f else True)"

definition cond_holds :: "a64_flags \<Rightarrow> 4 word \<Rightarrow> bool" where
  "cond_holds f c = (if bit c 0 \<and> c \<noteq> 15 then \<not> base_cond f (unat (drop_bit 1 c)) else base_cond f (unat (drop_bit 1 c)))"

definition aligned_to :: "uintptr \<Rightarrow> uintptr \<Rightarrow> bool" where
  "aligned_to n a \<longleftrightarrow> a AND (n - 1) = 0"

text \<open>A load or store is outside the subset when its address, or the stack pointer it uses, is not aligned.\<close>

definition base_ok :: "a64_state \<Rightarrow> 5 word \<Rightarrow> bool" where
  "base_ok s rn \<longleftrightarrow> (rn = 31 \<longrightarrow> aligned_to 16 (sp_reg s))"

definition load_store_pair ::
    "bool \<Rightarrow> uintptr \<Rightarrow> 5 word \<Rightarrow> 5 word \<Rightarrow> a64_state \<Rightarrow> a64_state" where
  "load_store_pair load a rt rt2 s =
     (if load then set_xreg rt2 (mem s (a + 8)) (set_xreg rt (mem s a) s)
      else set_mem (a + 8) (xreg s rt2) (set_mem a (xreg s rt) s))"

definition load_store :: "bool \<Rightarrow> uintptr \<Rightarrow> 5 word \<Rightarrow> a64_state \<Rightarrow> a64_state" where
  "load_store load a rt s = (if load then set_xreg rt (mem s a) s else set_mem a (xreg s rt) s)"

text \<open>A load of eight bytes from an address that is not aligned reads two cells.\<close>

definition unaligned_load :: "(uintptr \<Rightarrow> uintptr) \<Rightarrow> uintptr \<Rightarrow> uintptr" where
  "unaligned_load m a =
     (let k = 8 * unat (a AND 7); lo = a AND NOT 7 in drop_bit k (m lo) OR push_bit (64 - k) (m (lo + 8)))"

definition shifted :: "2 word \<Rightarrow> uintptr \<Rightarrow> 6 word \<Rightarrow> uintptr option" where
  "shifted kind v n =
     (if kind = 0 then Some (push_bit (unat n) v)
      else if kind = 1 then Some (drop_bit (unat n) v)
      else if kind = 2 then Some (signed_drop_bit (unat n) v)
      else None)"

text \<open>Zero and sign extension from 8, 16, 32 and 64 bits, then a shift to the left.\<close>

definition extended :: "3 word \<Rightarrow> uintptr \<Rightarrow> nat \<Rightarrow> uintptr" where
  "extended opt v n =
     (let len = 8 * 2 ^ (unat opt mod 4) in push_bit n (if opt < 4 then take_bit len v else signed_take_bit (len - 1) v))"

text \<open>AND, ORR and EOR by their \<open>opc\<close>.\<close>

definition logical :: "2 word \<Rightarrow> uintptr \<Rightarrow> uintptr \<Rightarrow> uintptr" where
  "logical opc a b = (if opc = 0 then a AND b else if opc = 1 then a OR b else a XOR b)"

lemma logical_simps [simp]: "logical 0 a b = a AND b" "logical 1 a b = a OR b" "logical 2 a b = a XOR b"
  by (simp_all add: logical_def)

section \<open>Execution\<close>

text \<open>\<open>None\<close>: an instruction outside the modelled subset.\<close>

fun a64_exec :: "a64_inst \<Rightarrow> a64_state \<Rightarrow> a64_state option" where
  "a64_exec (a64_B_BL op imm26) s =
     Some (branch_by (push_bit 2 (scast imm26)) (if op = 1 then set_xreg 30 (pc_reg s + 4) s else s))"
| "a64_exec (a64_B_cond imm19 cond) s =
     Some (if cond_holds (flags s) cond then branch_by (push_bit 2 (scast imm19)) s else next_pc s)"
| "a64_exec (a64_CBZ_CBNZ sf op imm19 rt) s =
     (let zero = (if sf = 1 then xreg s rt = 0 else (ucast (xreg s rt) :: u32) = 0) in
      Some (if zero = (op = 0) then branch_by (push_bit 2 (scast imm19)) s else next_pc s))"
| "a64_exec (a64_TBZ_TBNZ b5 op b40 imm14 rt) s =
     (let clear = (\<not> bit (xreg s rt) (32 * unat b5 + unat b40)) in
      Some (if clear = (op = 0) then branch_by (push_bit 2 (scast imm14)) s else next_pc s))"
| "a64_exec (a64_BR rn) s = Some (s\<lparr>pc_reg := xreg s rn\<rparr>)"
| "a64_exec (a64_BLR rn) s = Some ((set_xreg 30 (pc_reg s + 4) s)\<lparr>pc_reg := xreg s rn\<rparr>)"
| "a64_exec (a64_MOV_wide sf opc hw imm16 rd) s =
     (if sf = 1 \<and> opc = 2 then Some (next_pc (set_xreg rd (push_bit (16 * unat hw) (ucast imm16)) s))
      else if sf = 1 \<and> opc = 3 then
        Some (next_pc (set_xreg rd ((xreg s rd AND NOT (push_bit (16 * unat hw) (mask 16)))
                                     OR push_bit (16 * unat hw) (ucast imm16)) s))
      else None)"
| "a64_exec (a64_LDP_STP opc v ty l imm7 rt2 rn rt) s =
     (let base = xreg_sp s rn; off = push_bit 3 (scast imm7); a = (if ty = 1 then base else base + off) in
      if opc = 2 \<and> v = 0 \<and> ty \<noteq> 0 \<and> base_ok s rn \<and> aligned_to 8 a then
        let s' = load_store_pair (l = 1) a rt rt2 s in
        Some (next_pc (if ty = 2 then s' else set_xreg_sp rn (base + off) s'))
      else None)"
| "a64_exec (a64_LDR_STR_immed sz v opc imm9 ty rn rt) s =
     (let base = xreg_sp s rn; off = scast imm9; a = (if ty = 1 then base else base + off) in
      if sz = 3 \<and> v = 0 \<and> (opc = 0 \<or> opc = 1) \<and> ty \<noteq> 2 \<and> base_ok s rn \<and> aligned_to 8 a then
        let s' = load_store (opc = 1) a rt s in
        Some (next_pc (if ty = 0 then s' else set_xreg_sp rn (base + off) s'))
      else None)"
| "a64_exec (a64_LDR_STR_unsigned_immed sz v opc imm12 rn rt) s =
     (let a = xreg_sp s rn + push_bit 3 (ucast imm12) in
      if sz = 3 \<and> v = 0 \<and> (opc = 0 \<or> opc = 1) \<and> base_ok s rn then
        if aligned_to 8 a then Some (next_pc (load_store (opc = 1) a rt s))
        else if opc = 1 then Some (next_pc (set_xreg rt (unaligned_load (mem s) a) s))
        else None
      else None)"
| "a64_exec (a64_ADD_SUB_immed sf op st shift imm12 rn rd) s =
     (let v = (if shift = 1 then push_bit 12 (ucast imm12) else ucast imm12) in
      if sf = 1 \<and> st = 0 \<and> (shift = 0 \<or> shift = 1)
      then Some (next_pc (set_xreg_sp rd (if op = 0 then xreg_sp s rn + v else xreg_sp s rn - v) s)) else None)"
| "a64_exec (a64_ADD_SUB_shift_reg sf op st shift rm imm6 rn rd) s =
     (case shifted shift (xreg s rm) imm6 of
        Some v \<Rightarrow> if sf = 1 \<and> st = 0
          then Some (next_pc (set_xreg rd (if op = 0 then xreg s rn + v else xreg s rn - v) s)) else None
      | None \<Rightarrow> None)"
| "a64_exec (a64_ADD_SUB_ext_reg sf op st rm opt imm3 rn rd) s =
     (let v = extended opt (xreg s rm) (unat imm3) in
      if sf = 1 \<and> st = 0 \<and> imm3 \<le> 4
      then Some (next_pc (set_xreg_sp rd (if op = 0 then xreg_sp s rn + v else xreg_sp s rn - v) s)) else None)"
| "a64_exec (a64_logical_reg sf opc shift n rm imm6 rn rd) s =
     (case shifted shift (xreg s rm) imm6 of
        Some v \<Rightarrow> if sf = 1 \<and> opc \<noteq> 3 \<and> n = 0 then Some (next_pc (set_xreg rd (logical opc (xreg s rn) v) s)) else None
      | None \<Rightarrow> None)"
| "a64_exec (a64_logical_immed sf opc n immr imms rn rd) s =
     (if sf = 1 \<and> opc \<noteq> 3 \<and> n = 1 \<and> imms \<noteq> 63
      then Some (next_pc (set_xreg_sp rd (logical opc (xreg s rn) (word_rotr (unat immr) (mask (unat imms + 1)))) s)) else None)"
| "a64_exec (a64_BFM sf opc n immr imms rn rd) s =
     (if sf = 1 \<and> opc = 2 \<and> n = 1 then
        Some (next_pc (set_xreg rd
          (if immr \<le> imms then take_bit (Suc (unat imms - unat immr)) (drop_bit (unat immr) (xreg s rn))
           else push_bit (64 - unat immr) (take_bit (Suc (unat imms)) (xreg s rn))) s))
      else None)"
| "a64_exec (a64_data_proc_reg2 sf rm opcode rn rd) s =
     (if sf = 1 \<and> opcode = 8 then Some (next_pc (set_xreg rd (push_bit (unat (xreg s rm) mod 64) (xreg s rn)) s)) else None)"
| "a64_exec (a64_data_proc_reg3 sf op31 rm o0 ra rn rd) s =
     (if sf = 1 \<and> op31 = 0 \<and> o0 = 0 then Some (next_pc (set_xreg rd (xreg s ra + xreg s rn * xreg s rm) s)) else None)"
| "a64_exec (a64_word w) s = (if w = 0xD503201F then Some (next_pc s) else None)"

definition a64_step :: "a64_code \<Rightarrow> a64_state \<Rightarrow> a64_state option" where
  "a64_step code s = Option.bind (code (pc_reg s)) (\<lambda>i. a64_exec i s)"

inductive reaches :: "a64_code \<Rightarrow> a64_state \<Rightarrow> a64_state \<Rightarrow> bool" for code where
  reaches_refl: "reaches code s s"
| reaches_step: "a64_step code s = Some s' \<Longrightarrow> reaches code s' s'' \<Longrightarrow> reaches code s s''"

lemma reaches_trans [trans]: "reaches code s s' \<Longrightarrow> reaches code s' s'' \<Longrightarrow> reaches code s s''"
  by (induction rule: reaches.induct) (auto intro: reaches.intros)

lemma reaches_exec: "code (pc_reg s) = Some i \<Longrightarrow> a64_exec i s = Some s' \<Longrightarrow> reaches code s' s'' \<Longrightarrow> reaches code s s''"
  by (rule reaches_step [of _ _ s']) (simp_all add: a64_step_def)

lemma reaches_one: "code (pc_reg s) = Some i \<Longrightarrow> a64_exec i s = Some s' \<Longrightarrow> reaches code s s'"
  by (rule reaches_exec) (auto intro: reaches_refl)

section \<open>Instruction sequences in memory\<close>

fun code_seq :: "a64_code \<Rightarrow> uintptr \<Rightarrow> a64_inst list \<Rightarrow> bool" where
  "code_seq code p [] \<longleftrightarrow> True"
| "code_seq code p (i # xs) \<longleftrightarrow> code p = Some i \<and> code_seq code (p + 4) xs"

definition slot :: "uintptr \<Rightarrow> nat \<Rightarrow> uintptr" where
  "slot p n = p + 4 * of_nat n"

lemma slot_simps [simp]:
  "slot p 0 = p" "slot (slot p m) n = slot p (m + n)" "slot p n + 4 = slot p (Suc n)" "slot (p + 4) n = slot p (Suc n)"
  by (simp_all add: slot_def algebra_simps)

lemma slot_Suc0 [simp]: "slot p (Suc 0) = p + 4"
  by (simp add: slot_def)

lemma code_seq_append [simp]:
  "code_seq code p (xs @ ys) \<longleftrightarrow> code_seq code p xs \<and> code_seq code (slot p (length xs)) ys"
  by (induction xs arbitrary: p) auto

lemma slot_neq:
  assumes "m \<noteq> n" "m < 2 ^ 61" "n < 2 ^ 61"
  shows "slot p m \<noteq> slot p n"
proof
  assume "slot p m = slot p n"
  then have "unat (4 * of_nat m :: uintptr) = unat (4 * of_nat n :: uintptr)" by (simp add: slot_def)
  moreover have "unat (4 * of_nat k :: uintptr) = 4 * k" if "k < 2 ^ 61" for k
  proof -
    have "unat (of_nat (4 * k) :: uintptr) = 4 * k"
      using that by (intro unat_of_nat64) simp
    then show ?thesis by simp
  qed
  ultimately show False using assms by simp
qed

section \<open>Straight-line code\<close>

text \<open>Running a sequence without branches.\<close>

fun run_seq :: "a64_inst list \<Rightarrow> a64_state \<Rightarrow> a64_state option" where
  "run_seq [] s = Some s"
| "run_seq (i # xs) s =
     (case a64_exec i s of
        None \<Rightarrow> None
      | Some s' \<Rightarrow> if pc_reg s' = pc_reg s + 4 then run_seq xs s' else None)"

lemma run_seq_append: "run_seq (xs @ ys) s = Option.bind (run_seq xs s) (run_seq ys)"
  by (induction xs arbitrary: s) (auto split: option.splits)

lemma run_seq_reaches:
  "run_seq xs s = Some s' \<Longrightarrow> code_seq code (pc_reg s) xs \<Longrightarrow> reaches code s s' \<and> pc_reg s' = slot (pc_reg s) (length xs)"
proof (induction xs arbitrary: s)
  case Nil
  then show ?case by (simp add: reaches_refl)
next
  case (Cons i xs)
  then obtain s1 where s1: "a64_exec i s = Some s1" "pc_reg s1 = pc_reg s + 4" "run_seq xs s1 = Some s'"
    by (auto split: option.splits if_splits)
  then have "reaches code s1 s' \<and> pc_reg s' = slot (pc_reg s1) (length xs)"
    using Cons by simp
  with s1 Cons.prems(2) show ?case by (auto intro: reaches_exec)
qed

section \<open>Emitting code\<close>

text \<open>The write pointer and the code memory, and the effect of an encoder call followed by \<open>write_p++\<close>.\<close>

type_synonym a64_out = "a64_code \<times> uintptr"

definition put_inst :: "uintptr \<Rightarrow> a64_inst \<Rightarrow> a64_code \<Rightarrow> a64_code" where
  "put_inst p i code = code(p \<mapsto> i)"

definition emit_inst :: "a64_inst \<Rightarrow> a64_out \<Rightarrow> a64_out" where
  "emit_inst i w = (put_inst (snd w) i (fst w), snd w + 4)"

fun emit_seq :: "a64_inst list \<Rightarrow> a64_out \<Rightarrow> a64_out" where
  "emit_seq [] w = w"
| "emit_seq (i # xs) w = emit_seq xs (emit_inst i w)"

lemma emit_inst_seq: "emit_inst i w = emit_seq [i] w"
  by simp

lemma emit_seq_append [simp]: "emit_seq (xs @ ys) w = emit_seq ys (emit_seq xs w)"
  by (induction xs arbitrary: w) auto

lemma emit_seq_snd: "snd (emit_seq xs w) = slot (snd w) (length xs)"
  by (induction xs arbitrary: w) (auto simp: emit_inst_def)

text \<open>Emission only writes the slots it advances over.\<close>

lemma emit_seq_frame:
  "(\<And>k. k < length xs \<Longrightarrow> a \<noteq> slot (snd w) k) \<Longrightarrow> fst (emit_seq xs w) a = fst w a"
proof (induction xs arbitrary: w)
  case Nil
  then show ?case by simp
next
  case (Cons i xs)
  have "fst (emit_seq xs (emit_inst i w)) a = fst (emit_inst i w) a"
  proof (rule Cons.IH)
    fix k assume "k < length xs"
    then show "a \<noteq> slot (snd (emit_inst i w)) k"
      using Cons.prems [of "Suc k"] by (simp add: emit_inst_def)
  qed
  moreover have "fst (emit_inst i w) a = fst w a"
    using Cons.prems [of 0] by (simp add: emit_inst_def put_inst_def)
  ultimately show ?case by simp
qed

lemma emit_seq_code:
  "length xs < 2 ^ 60 \<Longrightarrow> code_seq (fst (emit_seq xs w)) (snd w) xs"
proof (induction xs arbitrary: w)
  case Nil
  then show ?case by simp
next
  case (Cons i xs)
  have "fst (emit_seq xs (emit_inst i w)) (snd w) = fst (emit_inst i w) (snd w)"
  proof (rule emit_seq_frame)
    fix k assume "k < length xs"
    then have "slot (snd w) 0 \<noteq> slot (snd w) (Suc k)"
      using Cons.prems by (intro slot_neq) auto
    then show "snd w \<noteq> slot (snd (emit_inst i w)) k"
      by (simp add: emit_inst_def)
  qed
  then show ?case
    using Cons.IH [of "emit_inst i w"] Cons.prems by (simp add: emit_inst_def put_inst_def)
qed

text \<open>Filling in an instruction left open earlier gives the same code as emitting it in place.\<close>

lemma emit_seq_other: "fst (emit_seq xs (c, q)) = c ++ fst (emit_seq xs (Map.empty, q))"
proof (induction xs arbitrary: c q)
  case Nil
  then show ?case by simp
next
  case (Cons i xs)
  have "fst (emit_seq xs (c(q \<mapsto> i), q + 4)) = c(q \<mapsto> i) ++ fst (emit_seq xs (Map.empty, q + 4))"
    by (rule Cons.IH)
  moreover have "fst (emit_seq xs ([q \<mapsto> i], q + 4)) = [q \<mapsto> i] ++ fst (emit_seq xs (Map.empty, q + 4))"
    by (rule Cons.IH)
  ultimately show ?case
    by (simp add: emit_inst_def put_inst_def fun_eq_iff map_add_def split: option.splits)
qed

lemma emit_seq_patch:
  assumes "length xs < 2 ^ 60"
  shows "put_inst p i (fst (emit_seq xs (c, p + 4))) = fst (emit_seq (i # xs) (c, p))"
    and "snd (emit_seq xs (c, p + 4)) = snd (emit_seq (i # xs) (c, p))"
proof -
  have none: "fst (emit_seq xs (Map.empty, p + 4)) p = None"
  proof (subst emit_seq_frame)
    fix k assume "k < length xs"
    then have "slot p 0 \<noteq> slot p (Suc k)"
      using assms by (intro slot_neq) auto
    then show "p \<noteq> slot (snd (Map.empty, p + 4)) k"
      by simp
  qed simp
  show "put_inst p i (fst (emit_seq xs (c, p + 4))) = fst (emit_seq (i # xs) (c, p))"
    using none by (simp add: emit_inst_def put_inst_def emit_seq_other [of xs c] emit_seq_other [of xs "c(p \<mapsto> i)"]
        fun_eq_iff map_add_def split: option.splits)
  show "snd (emit_seq xs (c, p + 4)) = snd (emit_seq (i # xs) (c, p))"
    by (simp add: emit_seq_snd emit_inst_def)
qed

end
