(* ===== verification/A64_Emit.thy ===== *)
theory A64_Emit
  imports A64_Machine Dbm_Types
begin

text \<open>
  The code generators of \<open>arch/aarch64/scanner_a64.c\<close> and the push and pop macros of \<open>scanner_public.h\<close>:
  branch helpers, loading constants, and the exits that hand a branch target to the dispatcher. Each one is
  the emitted instruction sequence of the source; the lemmas run that sequence on the machine of
  \<open>A64_Machine\<close>.
\<close>

section \<open>Registers and small helpers\<close>

definition x0 :: "5 word" where "x0 = 0"
definition x1 :: "5 word" where "x1 = 1"
definition x2 :: "5 word" where "x2 = 2"
definition x29 :: "5 word" where "x29 = 29"
definition x30 :: "5 word" where "x30 = 30"
definition lr :: "5 word" where "lr = 30"
definition sp :: "5 word" where "sp = 31"
definition xzr :: "5 word" where "xzr = 31"

lemmas reg_defs = x0_def x1_def x2_def x29_def x30_def lr_def sp_def xzr_def

definition invert_cond :: "'a::len word \<Rightarrow> 'a word" where
  "invert_cond c = c XOR 1"

text \<open>\<open>sign_extend64\<close>: the constant \<open>C\<close> is a negative int converted to 64 bits.\<close>

definition sign_extend64 :: "nat \<Rightarrow> uintptr \<Rightarrow> uintptr" where
  "sign_extend64 bits val = (let C = word_of_int (- (2 ^ (bits - 1))) in (val + C) XOR C)"

definition NOP_INSTRUCTION :: u32 where
  "NOP_INSTRUCTION = 0xD503201F"

definition a64_push_pair_reg :: "5 word \<Rightarrow> 5 word \<Rightarrow> a64_out \<Rightarrow> a64_out" where
  "a64_push_pair_reg Xt1 Xt2 = emit_inst (a64_LDP_STP 2 0 3 0 (-2) Xt2 sp Xt1)"

definition a64_pop_pair_reg :: "5 word \<Rightarrow> 5 word \<Rightarrow> a64_out \<Rightarrow> a64_out" where
  "a64_pop_pair_reg Xt1 Xt2 = emit_inst (a64_LDP_STP 2 0 1 1 2 Xt2 sp Xt1)"

definition a64_push_reg :: "5 word \<Rightarrow> a64_out \<Rightarrow> a64_out" where
  "a64_push_reg reg = emit_inst (a64_LDR_STR_immed 3 0 0 (-16) 3 sp reg)"

definition a64_pop_reg :: "5 word \<Rightarrow> a64_out \<Rightarrow> a64_out" where
  "a64_pop_reg reg = emit_inst (a64_LDR_STR_immed 3 0 1 16 1 sp reg)"

section \<open>Branch helpers\<close>

definition MB :: int where "MB = 1024 * 1024"

definition a64_branch_helper :: "uintptr \<Rightarrow> uintptr \<Rightarrow> bool \<Rightarrow> a64_code \<Rightarrow> a64_code res" where
  "a64_branch_helper write_p target link code =
     (let difference = sint (target - write_p) in
      res_bind (res_assert (difference AND 3 = 0 \<and> difference < 128 * MB \<and> difference \<ge> - 128 * MB)) (\<lambda>_.
        Ok (put_inst write_p (a64_B_BL (if link then 1 else 0) (word_of_int (drop_bit 2 difference))) code)))"

definition a64_b_helper :: "uintptr \<Rightarrow> uintptr \<Rightarrow> a64_code \<Rightarrow> a64_code res" where
  "a64_b_helper write_p target = a64_branch_helper write_p target False"

definition a64_bl_helper :: "uintptr \<Rightarrow> uintptr \<Rightarrow> a64_code \<Rightarrow> a64_code res" where
  "a64_bl_helper write_p target = a64_branch_helper write_p target True"

definition a64_b_cond_helper :: "uintptr \<Rightarrow> uintptr \<Rightarrow> 4 word \<Rightarrow> a64_code \<Rightarrow> a64_code res" where
  "a64_b_cond_helper write_p target cond code =
     (let difference = sint (target - write_p) in
      res_bind (res_assert (difference AND 3 = 0 \<and> difference < MB \<and> difference \<ge> - MB)) (\<lambda>_.
        Ok (put_inst write_p (a64_B_cond (word_of_int (drop_bit 2 difference)) cond) code)))"

text \<open>The range test joins its two halves by a conjunction.\<close>

definition a64_cbz_cbnz_helper ::
    "uintptr \<Rightarrow> bool \<Rightarrow> uintptr \<Rightarrow> 1 word \<Rightarrow> 5 word \<Rightarrow> a64_code \<Rightarrow> int \<times> a64_code" where
  "a64_cbz_cbnz_helper write_p cbnz target sf rt code =
     (let difference = sint (target - write_p) in
      if difference AND 3 \<noteq> 0 \<or> (difference \<ge> MB \<and> difference < - MB) then (-1, code)
      else (0, put_inst write_p (a64_CBZ_CBNZ sf (if cbnz then 1 else 0) (word_of_int (drop_bit 2 difference)) rt) code))"

definition a64_cbz_helper :: "uintptr \<Rightarrow> uintptr \<Rightarrow> 1 word \<Rightarrow> 5 word \<Rightarrow> a64_code \<Rightarrow> a64_code res" where
  "a64_cbz_helper write_p target sf rt code =
     (let (ret, code') = a64_cbz_cbnz_helper write_p False target sf rt code in
      res_bind (res_assert (ret = 0)) (\<lambda>_. Ok code'))"

definition a64_cbnz_helper :: "uintptr \<Rightarrow> uintptr \<Rightarrow> 1 word \<Rightarrow> 5 word \<Rightarrow> a64_code \<Rightarrow> a64_code res" where
  "a64_cbnz_helper write_p target sf rt code =
     (let (ret, code') = a64_cbz_cbnz_helper write_p True target sf rt code in
      res_bind (res_assert (ret = 0)) (\<lambda>_. Ok code'))"

definition a64_tbz_tbnz_helper ::
    "uintptr \<Rightarrow> bool \<Rightarrow> uintptr \<Rightarrow> 5 word \<Rightarrow> u32 \<Rightarrow> a64_code \<Rightarrow> a64_code res" where
  "a64_tbz_tbnz_helper write_p is_tbnz target reg bit_no code =
     (let difference = sint (target - write_p) in
      res_bind (res_assert (difference AND 3 = 0 \<and> difference < 32 * 1024 \<and> difference \<ge> - 32 * 1024)) (\<lambda>_.
        Ok (put_inst write_p (a64_TBZ_TBNZ (ucast (drop_bit 5 bit_no)) (if is_tbnz then 1 else 0)
              (ucast (bit_no AND 0x1F)) (word_of_int (drop_bit 2 difference)) reg) code)))"

definition a64_tbz_helper :: "uintptr \<Rightarrow> uintptr \<Rightarrow> 5 word \<Rightarrow> u32 \<Rightarrow> a64_code \<Rightarrow> a64_code res" where
  "a64_tbz_helper write_p target reg bit_no = a64_tbz_tbnz_helper write_p False target reg bit_no"

definition a64_tbnz_helper :: "uintptr \<Rightarrow> uintptr \<Rightarrow> 5 word \<Rightarrow> u32 \<Rightarrow> a64_code \<Rightarrow> a64_code res" where
  "a64_tbnz_helper write_p target reg bit_no = a64_tbz_tbnz_helper write_p True target reg bit_no"

section \<open>Constants and exits\<close>

definition a64_copy_to_reg_64bits :: "5 word \<Rightarrow> uintptr \<Rightarrow> a64_out \<Rightarrow> a64_out" where
  "a64_copy_to_reg_64bits reg val w =
     (let first_half_word = val AND 0xFFFF;
          second_half_word = drop_bit 16 val AND 0xFFFF;
          third_half_word = drop_bit 32 val AND 0xFFFF;
          fourth_half_word = drop_bit 48 val AND 0xFFFF;
          w = emit_inst (a64_MOV_wide 1 2 0 (ucast first_half_word) reg) w;
          w = (if second_half_word > 0 then emit_inst (a64_MOV_wide 1 3 1 (ucast second_half_word) reg) w else w);
          w = (if third_half_word > 0 then emit_inst (a64_MOV_wide 1 3 2 (ucast third_half_word) reg) w else w);
          w = (if fourth_half_word > 0 then emit_inst (a64_MOV_wide 1 3 3 (ucast fourth_half_word) reg) w else w)
      in w)"

definition a64_branch_save_context :: "a64_out \<Rightarrow> a64_out" where
  "a64_branch_save_context = a64_push_pair_reg x0 x1"

definition REPLACE_TARGET :: u32 where "REPLACE_TARGET = 2"
definition INSERT_BRANCH :: u32 where "INSERT_BRANCH = 4"

text \<open>A branch helper writes at the write pointer, which the caller then advances.\<close>

definition then_advance :: "(uintptr \<Rightarrow> a64_code \<Rightarrow> a64_code res) \<Rightarrow> a64_out \<Rightarrow> a64_out res" where
  "then_advance f w = res_bind (f (snd w) (fst w)) (\<lambda>code. Ok (code, snd w + 4))"

definition a64_branch_jump :: "'a dbm_thread_scheme \<Rightarrow> int \<Rightarrow> uintptr \<Rightarrow> u32 \<Rightarrow> a64_out \<Rightarrow> a64_out res" where
  "a64_branch_jump thread_data basic_block target fl w =
     (let w = (if fl AND REPLACE_TARGET \<noteq> 0 then a64_copy_to_reg_64bits x0 target w else w) in
      if fl AND INSERT_BRANCH \<noteq> 0 then
        then_advance (\<lambda>p. a64_b_helper p (dispatcher_addr thread_data))
          (a64_copy_to_reg_64bits x1 (word_of_int basic_block) w)
      else Ok w)"

definition a64_branch_jump_cond ::
    "'a dbm_thread_scheme \<Rightarrow> int \<Rightarrow> uintptr \<Rightarrow> uintptr \<Rightarrow> 4 word \<Rightarrow> a64_out \<Rightarrow> a64_out res" where
  "a64_branch_jump_cond thread_data basic_block target read_address cond w =
     (let w = emit_inst (a64_word NOP_INSTRUCTION) w;
          w = emit_inst (a64_word NOP_INSTRUCTION) w;
          w = a64_branch_save_context w;
          w = a64_copy_to_reg_64bits x1 (word_of_int basic_block) w;
          cond_branch = snd w;
          w = a64_copy_to_reg_64bits x0 target (fst w, snd w + 4)
      in
      res_bind (then_advance (\<lambda>p. a64_b_helper p (dispatcher_addr thread_data)) w) (\<lambda>w.
      res_bind (a64_b_cond_helper cond_branch (snd w) (invert_cond cond) (fst w)) (\<lambda>code.
      then_advance (\<lambda>p. a64_b_helper p (dispatcher_addr thread_data))
        (a64_copy_to_reg_64bits x0 (read_address + 4) (code, snd w)))))"

section \<open>Exits for compare-and-branch and test-and-branch\<close>

text \<open>The field decoders generated from \<open>pie/a64.txt\<close>.\<close>

definition fld :: "u32 \<Rightarrow> nat \<Rightarrow> nat \<Rightarrow> u32" where
  "fld w hi lo = drop_bit lo w AND mask (Suc hi - lo)"

record cbz_fields =
  cbz_sf :: u32
  cbz_op :: u32
  cbz_imm :: u32
  cbz_rt :: u32

definition a64_CBZ_CBNZ_decode_fields :: "u32 \<Rightarrow> cbz_fields" where
  "a64_CBZ_CBNZ_decode_fields w = \<lparr>cbz_sf = fld w 31 31, cbz_op = fld w 24 24, cbz_imm = fld w 23 5, cbz_rt = fld w 4 0\<rparr>"

record tbz_fields =
  tbz_b5 :: u32
  tbz_op :: u32
  tbz_b40 :: u32
  tbz_imm :: u32
  tbz_rt :: u32

definition a64_TBZ_TBNZ_decode_fields :: "u32 \<Rightarrow> tbz_fields" where
  "a64_TBZ_TBNZ_decode_fields w = \<lparr>tbz_b5 = fld w 31 31, tbz_op = fld w 24 24, tbz_b40 = fld w 23 19,
     tbz_imm = fld w 18 5, tbz_rt = fld w 4 0\<rparr>"

datatype a64_branch_reg_inst = A64_CBZ_CBNZ | A64_TBZ_TBNZ

text \<open>
  The part of \<open>a64_branch_imm_reg\<close> that is common to both instructions, with the fields decoded by the
  first switch and the branch that the second switch puts at \<open>cbz_branch\<close>.
\<close>

definition a64_branch_imm_reg_with ::
    "'a dbm_thread_scheme \<Rightarrow> int \<Rightarrow> uintptr \<Rightarrow> uintptr \<Rightarrow> (dbm_code_cache_meta \<Rightarrow> dbm_code_cache_meta) \<Rightarrow>
     (uintptr \<Rightarrow> uintptr \<Rightarrow> a64_code \<Rightarrow> a64_code res) \<Rightarrow> a64_out \<Rightarrow> ('a dbm_thread_scheme \<times> a64_out) res" where
  "a64_branch_imm_reg_with thread_data basic_block read_address branch_offset set_meta put_branch w =
     (let target = read_address + branch_offset in
      res_bind (meta_upd thread_data basic_block set_meta) (\<lambda>thread_data.
      res_bind (meta_upd thread_data basic_block (\<lambda>m. m\<lparr>exit_branch_addr := snd w,
        branch_taken_addr := target, branch_skipped_addr := read_address + 4\<rparr>)) (\<lambda>thread_data.
      let w = emit_inst (a64_word NOP_INSTRUCTION) w;
          w = emit_inst (a64_word NOP_INSTRUCTION) w;
          w = a64_branch_save_context w;
          cbz_branch = snd w
      in
      res_bind (a64_branch_jump thread_data basic_block target (REPLACE_TARGET OR INSERT_BRANCH) (fst w, snd w + 4)) (\<lambda>w.
      res_bind (put_branch cbz_branch (snd w) (fst w)) (\<lambda>code.
      res_bind (a64_branch_jump thread_data basic_block (read_address + 4) (REPLACE_TARGET OR INSERT_BRANCH) (code, snd w)) (\<lambda>w.
      Ok (thread_data, w)))))))"

definition a64_branch_imm_reg ::
    "'a dbm_thread_scheme \<Rightarrow> int \<Rightarrow> a64_branch_reg_inst \<Rightarrow> uintptr \<Rightarrow> u32 \<Rightarrow> a64_out \<Rightarrow> ('a dbm_thread_scheme \<times> a64_out) res" where
  "a64_branch_imm_reg thread_data basic_block inst read_address inst_word w =
     (case inst of
        A64_CBZ_CBNZ \<Rightarrow>
          (let f = a64_CBZ_CBNZ_decode_fields inst_word in
           a64_branch_imm_reg_with thread_data basic_block read_address
             (push_bit 2 (sign_extend64 19 (ucast (cbz_imm f))))
             (\<lambda>m. m\<lparr>exit_branch_type := cbz_a64, branch_condition := ucast (cbz_op f),
                    meta_rn := push_bit 5 (cbz_sf f) OR cbz_rt f\<rparr>)
             (\<lambda>p target code. Ok (snd (a64_cbz_cbnz_helper p (cbz_op f XOR 1 \<noteq> 0) target (ucast (cbz_sf f)) (ucast (cbz_rt f)) code)))
             w)
      | A64_TBZ_TBNZ \<Rightarrow>
          (let f = a64_TBZ_TBNZ_decode_fields inst_word; bit_no = push_bit 5 (tbz_b5 f) OR tbz_b40 f in
           a64_branch_imm_reg_with thread_data basic_block read_address
             (push_bit 2 (sign_extend64 14 (ucast (tbz_imm f))))
             (\<lambda>m. m\<lparr>exit_branch_type := tbz_a64, branch_condition := ucast (tbz_op f),
                    meta_rn := push_bit 5 bit_no OR tbz_rt f\<rparr>)
             (\<lambda>p target code. a64_tbz_tbnz_helper p (tbz_op f XOR 1 \<noteq> 0) target (ucast (tbz_rt f)) bit_no code)
             w))"

section \<open>Sign extension and branch offsets\<close>

lemma scast_word_of_int:
  fixes k :: int
  assumes "- (2 ^ (LENGTH('a::len) - 1)) \<le> k" "k < 2 ^ (LENGTH('a) - 1)"
  shows "scast (word_of_int k :: 'a word) = (word_of_int k :: uintptr)"
proof -
  have "sint (word_of_int k :: 'a word) = k"
    using assms by (simp add: signed_of_int signed_take_bit_int_eq_self)
  then show ?thesis
    by (metis signed_of_int word_of_int_eq_iff of_int_sint scast_eq)
qed

lemma quarter: "d AND 3 = 0 \<Longrightarrow> 4 * drop_bit 2 d = d" for d :: int
proof -
  assume "d AND 3 = 0"
  then have "take_bit 2 d = 0" by (simp add: take_bit_eq_mask mask_eq_exp_minus_1)
  then show ?thesis by (simp add: take_bit_eq_mod drop_bit_eq_div) presburger
qed

text \<open>An offset that fits its field is the distance between the two addresses again.\<close>

lemma branch_offset:
  fixes p t :: uintptr
  defines "d \<equiv> sint (t - p)"
  assumes "d AND 3 = 0" "- (2 ^ (LENGTH('a::len) + 1)) \<le> d" "d < 2 ^ (LENGTH('a) + 1)"
  shows "push_bit 2 (scast (word_of_int (drop_bit 2 d) :: 'a word)) = t - p"
proof -
  have q: "4 * drop_bit 2 d = d" using assms(2) by (rule quarter)
  have l: "LENGTH('a) + 1 = Suc (Suc (LENGTH('a) - 1))" using len_gt_0 [where 'a = 'a] by linarith
  have "- (2 ^ (LENGTH('a) - 1)) \<le> drop_bit 2 d" "drop_bit 2 d < 2 ^ (LENGTH('a) - 1)"
    using assms(3,4) q unfolding l power_Suc by linarith+
  then have "scast (word_of_int (drop_bit 2 d) :: 'a word) = (word_of_int (drop_bit 2 d) :: uintptr)"
    by (rule scast_word_of_int)
  then have "push_bit 2 (scast (word_of_int (drop_bit 2 d) :: 'a word)) = (word_of_int (4 * drop_bit 2 d) :: uintptr)"
    by (simp add: push_bit_eq_mult mult.commute)
  also have "\<dots> = t - p" by (simp only: q) (simp add: d_def)
  finally show ?thesis .
qed

lemma sign_extend_scast:
  fixes w :: "'a::len word"
  assumes "LENGTH('a) < LENGTH('b::len)"
  shows "(ucast w + word_of_int (- (2 ^ (LENGTH('a) - 1)))) XOR word_of_int (- (2 ^ (LENGTH('a) - 1))) = (scast w :: 'b word)" (is "?ext = _")
proof -
  define m where "m = LENGTH('a) - 1"
  have len: "LENGTH('a) = Suc m" using len_gt_0 [where 'a = 'a] by (simp add: m_def)
  have below: "bit w n \<Longrightarrow> n < m \<or> n = m" for n
    using bit_imp_le_length [of w n] len by auto
  let ?C = "NOT (mask m) :: 'b word"
  have "(word_of_int (- (2 ^ m)) :: 'b word) = ?C"
    by (simp add: not_eq_complement mask_eq_exp_minus_1)
  then have ext: "?ext = ((ucast w + ?C) XOR ?C)"
    by (simp add: m_def)
  have split: "(ucast w :: 'b word) = take_bit m (ucast w) + (if bit w m then 2 ^ m else 0)"
  proof -
    have "(ucast w :: 'b word) = take_bit m (ucast w) OR (if bit w m then 2 ^ m else 0)"
      using assms len by (intro bit_word_eqI) (auto simp: bit_simps bit_exp_iff dest: below)
    moreover have "take_bit m (ucast w) AND (if bit w m then 2 ^ m else 0) = (0 :: 'b word)"
      by (intro bit_word_eqI) (auto simp: bit_simps bit_exp_iff)
    ultimately show ?thesis by (metis disjunctive_add_eq_or)
  qed
  show ?thesis
  proof (cases "bit w m")
    case True
    have "(2 ^ m :: 'b word) + ?C = 0"
      by (simp add: not_eq_complement mask_eq_exp_minus_1)
    moreover have "ucast w + ?C = take_bit m (ucast w) + (2 ^ m + ?C)"
      by (subst split) (simp only: True if_True add.assoc)
    ultimately have "ucast w + ?C = take_bit m (ucast w)" by simp
    then have "?ext = take_bit m (ucast w) XOR ?C" unfolding ext by (simp only:)
    also have "\<dots> = scast w"
      using True assms len by (intro bit_word_eqI) (auto simp: bit_simps bit_signed_iff min_def)
    finally show ?thesis .
  next
    case False
    have "take_bit m (ucast w) AND ?C = 0"
      by (intro bit_word_eqI) (auto simp: bit_simps)
    then have "take_bit m (ucast w) + ?C = take_bit m (ucast w) OR ?C"
      by (rule disjunctive_add_eq_or)
    moreover have "ucast w + ?C = take_bit m (ucast w) + ?C"
      by (subst split) (simp only: False if_False add_0_right)
    ultimately have "ucast w + ?C = take_bit m (ucast w) OR ?C" by simp
    then have "?ext = (take_bit m (ucast w) OR ?C) XOR ?C" unfolding ext by (simp only:)
    also have "\<dots> = scast w"
      using False assms len by (intro bit_word_eqI) (auto simp: bit_simps bit_signed_iff min_def dest: below)
    finally show ?thesis .
  qed
qed

lemma sign_extend64_scast:
  fixes w :: "'a::len word"
  assumes "LENGTH('a) \<le> 63"
  shows "sign_extend64 (LENGTH('a)) (ucast w) = scast w"
  using sign_extend_scast [of w, where ?'b = 64] assms by (simp add: sign_extend64_def Let_def)

section \<open>What the branch helpers emit\<close>

lemma branch_to: "pc_reg s = p \<Longrightarrow> branch_by (t - p) s = s\<lparr>pc_reg := t\<rparr>"
  by (simp add: branch_by_def)

definition in_b_range :: "uintptr \<Rightarrow> uintptr \<Rightarrow> bool" where
  "in_b_range p t \<longleftrightarrow> sint (t - p) AND 3 = 0 \<and> sint (t - p) < 128 * MB \<and> sint (t - p) \<ge> - 128 * MB"

definition b_inst :: "uintptr \<Rightarrow> uintptr \<Rightarrow> bool \<Rightarrow> a64_inst" where
  "b_inst p t link = a64_B_BL (if link then 1 else 0) (word_of_int (drop_bit 2 (sint (t - p))))"

lemma a64_branch_helper_eq:
  "a64_branch_helper p t link code = (if in_b_range p t then Ok (put_inst p (b_inst p t link) code) else Assert_Fail)"
  by (simp add: a64_branch_helper_def in_b_range_def b_inst_def Let_def res_assert_def)

lemma b_inst_exec:
  assumes "in_b_range p t" "pc_reg s = p"
  shows "a64_exec (b_inst p t False) s = Some (s\<lparr>pc_reg := t\<rparr>)"
    and "a64_exec (b_inst p t True) s = Some ((set_xreg 30 (p + 4) s)\<lparr>pc_reg := t\<rparr>)"
proof -
  have "push_bit 2 (scast (word_of_int (drop_bit 2 (sint (t - p))) :: 26 word)) = t - p"
    using assms(1) by (intro branch_offset) (simp_all add: in_b_range_def MB_def)
  then show "a64_exec (b_inst p t False) s = Some (s\<lparr>pc_reg := t\<rparr>)"
    "a64_exec (b_inst p t True) s = Some ((set_xreg 30 (p + 4) s)\<lparr>pc_reg := t\<rparr>)"
    using assms(2) by (simp_all add: b_inst_def branch_to set_xreg_def)
qed

lemma a64_b_cond_helper_exec:
  assumes "a64_b_cond_helper p t cond code = Ok code'"
  obtains i where "code' = put_inst p i code"
    "\<And>s. pc_reg s = p \<Longrightarrow> a64_exec i s = Some (s\<lparr>pc_reg := if cond_holds (flags s) cond then t else p + 4\<rparr>)"
proof -
  let ?d = "sint (t - p)"
  have r: "?d AND 3 = 0" "?d < MB" "?d \<ge> - MB" "code' = put_inst p (a64_B_cond (word_of_int (drop_bit 2 ?d)) cond) code"
    using assms by (auto simp: a64_b_cond_helper_def Let_def res_bind_eq_Ok)
  then have "push_bit 2 (scast (word_of_int (drop_bit 2 ?d) :: 19 word)) = t - p"
    by (intro branch_offset) (simp_all add: MB_def)
  then show thesis
    using r(4) by (intro that [OF r(4)]) (simp add: branch_to next_pc_def)
qed

lemma a64_cbz_cbnz_helper_exec:
  assumes "- MB \<le> sint (t - p)" "sint (t - p) < MB" "a64_cbz_cbnz_helper p cbnz t sf rt code = (0, code')"
  obtains i where "code' = put_inst p i code"
    "\<And>s. pc_reg s = p \<Longrightarrow> a64_exec i s = Some (s\<lparr>pc_reg :=
        if (if sf = 1 then xreg s rt = 0 else (ucast (xreg s rt) :: u32) = 0) = (\<not> cbnz) then t else p + 4\<rparr>)"
proof -
  let ?d = "sint (t - p)"
  have r: "?d AND 3 = 0" "code' = put_inst p (a64_CBZ_CBNZ sf (if cbnz then 1 else 0) (word_of_int (drop_bit 2 ?d)) rt) code"
    using assms by (auto simp: a64_cbz_cbnz_helper_def Let_def split: if_splits)
  then have "push_bit 2 (scast (word_of_int (drop_bit 2 ?d) :: 19 word)) = t - p"
    using assms by (intro branch_offset) (simp_all add: MB_def)
  then show thesis
    by (intro that [OF r(2)]) (cases cbnz; simp add: branch_to next_pc_def Let_def)
qed

lemma a64_tbz_tbnz_helper_exec:
  assumes "a64_tbz_tbnz_helper p tbnz t rt n code = Ok code'" "n < 64"
  obtains i where "code' = put_inst p i code"
    "\<And>s. pc_reg s = p \<Longrightarrow> a64_exec i s = Some (s\<lparr>pc_reg := if bit (xreg s rt) (unat n) = tbnz then t else p + 4\<rparr>)"
proof -
  let ?d = "sint (t - p)"
  have r: "?d AND 3 = 0" "?d < 32 * 1024" "?d \<ge> - 32 * 1024"
    "code' = put_inst p (a64_TBZ_TBNZ (ucast (drop_bit 5 n)) (if tbnz then 1 else 0) (ucast (n AND 0x1F)) (word_of_int (drop_bit 2 ?d)) rt) code"
    using assms by (auto simp: a64_tbz_tbnz_helper_def Let_def res_bind_eq_Ok)
  then have off: "push_bit 2 (scast (word_of_int (drop_bit 2 ?d) :: 14 word)) = t - p"
    by (intro branch_offset) simp_all
  have "32 * unat (ucast (drop_bit 5 n) :: 1 word) + unat (ucast (n AND 0x1F) :: 5 word) = unat n"
  proof -
    have n: "unat n < 64" using assms(2) by (simp add: word_less_nat_alt)
    have "unat (drop_bit 5 n) = unat n div 32" by (simp add: drop_bit_eq_div unat_div_distrib)
    then have "unat (ucast (drop_bit 5 n) :: 1 word) = unat n div 32"
      using n by (simp add: unsigned_ucast_eq take_bit_eq_mod)
    moreover have "n AND 0x1F = take_bit 5 n" by (simp add: take_bit_eq_mask mask_eq_exp_minus_1)
    then have "unat (ucast (n AND 0x1F) :: 5 word) = unat n mod 32"
      by (simp add: unsigned_ucast_eq take_bit_eq_mod unat_mod_distrib)
    ultimately show ?thesis by simp
  qed
  with off show thesis
    by (intro that [OF r(4)]) (cases tbnz; simp add: branch_to next_pc_def Let_def)
qed

section \<open>Running emitted sequences\<close>

text \<open>Loading a constant.\<close>

definition movk_part :: "2 word \<Rightarrow> 5 word \<Rightarrow> uintptr \<Rightarrow> a64_inst list" where
  "movk_part hw reg val = (let h = drop_bit (16 * unat hw) val AND 0xFFFF in
     if h > 0 then [a64_MOV_wide 1 3 hw (ucast h) reg] else [])"

definition mov_seq :: "5 word \<Rightarrow> uintptr \<Rightarrow> a64_inst list" where
  "mov_seq reg val =
     [a64_MOV_wide 1 2 0 (ucast (val AND 0xFFFF)) reg] @ movk_part 1 reg val @ movk_part 2 reg val @ movk_part 3 reg val"

lemma a64_copy_to_reg_64bits_seq: "a64_copy_to_reg_64bits reg val w = emit_seq (mov_seq reg val) w"
  by (simp add: a64_copy_to_reg_64bits_def mov_seq_def movk_part_def Let_def)

lemma mov_seq_length: "length (mov_seq reg val) \<le> 4" "0 < length (mov_seq reg val)"
  by (simp_all add: mov_seq_def movk_part_def Let_def)

abbreviation set_reg :: "5 word \<Rightarrow> uintptr \<Rightarrow> uintptr \<Rightarrow> a64_state \<Rightarrow> a64_state" where
  "set_reg r v q s \<equiv> s\<lparr>xregs := (xregs s)(unat r := v), pc_reg := q\<rparr>"

lemma movk_value:
  fixes v :: uintptr
  shows "(take_bit (16 * k) v AND NOT (push_bit (16 * k) (mask 16))) OR push_bit (16 * k) (ucast (ucast (drop_bit (16 * k) v AND 0xFFFF) :: 16 word))
    = take_bit (16 * k + 16) v"
proof -
  have m: "x AND 0xFFFF = take_bit 16 x" for x :: uintptr by (simp add: take_bit_eq_mask mask_eq_exp_minus_1)
  show ?thesis
    by (intro bit_word_eqI) (auto simp: m bit_simps)
qed

lemma run_movk:
  assumes r: "r \<noteq> 31" and s: "xregs s (unat r) = take_bit (16 * unat hw) v"
  shows "run_seq (movk_part hw r v) s = Some (set_reg r (take_bit (16 * unat hw + 16) v) (slot (pc_reg s) (length (movk_part hw r v))) s)"
proof (cases "drop_bit (16 * unat hw) v AND 0xFFFF > 0")
  case True
  then show ?thesis
    using r s movk_value [of "unat hw" v] by (simp add: movk_part_def Let_def next_pc_def set_xreg_def xreg_def)
next
  case False
  then have z: "drop_bit (16 * unat hw) v AND 0xFFFF = 0" by (metis word_gt_0)
  have "take_bit (16 * unat hw) v AND NOT (push_bit (16 * unat hw) (mask 16)) = take_bit (16 * unat hw) v"
    by (intro bit_word_eqI) (auto simp: bit_simps)
  then have "take_bit (16 * unat hw) v = take_bit (16 * unat hw + 16) v"
    using movk_value [of "unat hw" v] unfolding z by simp
  with False s show ?thesis by (simp add: fun_upd_idem movk_part_def Let_def)
qed

lemma run_mov:
  assumes r: "r \<noteq> 31"
  shows "run_seq (mov_seq r v) s = Some (set_reg r v (slot (pc_reg s) (length (mov_seq r v))) s)"
proof -
  let ?s = "\<lambda>n q. set_reg r (take_bit n v) q s"
  have "v AND 0xFFFF = take_bit 16 v" by (simp add: take_bit_eq_mask mask_eq_exp_minus_1)
  then have "ucast (ucast (v AND 0xFFFF) :: 16 word) = take_bit 16 v"
    by (intro bit_word_eqI) (auto simp: bit_simps)
  then have 1: "run_seq [a64_MOV_wide 1 2 0 (ucast (v AND 0xFFFF)) r] s = Some (?s 16 (pc_reg s + 4))"
    using r by (simp add: next_pc_def set_xreg_def)
  have 2: "run_seq (movk_part 1 r v) (?s 16 q) = Some (?s 32 (slot q (length (movk_part 1 r v))))" for q
    using run_movk [OF r, of "?s 16 q" 1 v] by simp
  have 3: "run_seq (movk_part 2 r v) (?s 32 q) = Some (?s 48 (slot q (length (movk_part 2 r v))))" for q
    using run_movk [OF r, of "?s 32 q" 2 v] by simp
  have 4: "run_seq (movk_part 3 r v) (?s 48 q) = Some (?s 64 (slot q (length (movk_part 3 r v))))" for q
    using run_movk [OF r, of "?s 48 q" 3 v] by simp
  have "?s 64 q = set_reg r v q s" for q by (simp add: take_bit_word_eq_self)
  then show ?thesis
    unfolding mov_seq_def run_seq_append 1 by (simp add: 2 3 4 nat_ac)
qed

lemma reaches_mov:
  assumes code: "code_seq code p (mov_seq r v)" and r: "r \<noteq> 31" and pc: "pc_reg s = p"
  shows "reaches code s (set_reg r v (slot p (length (mov_seq r v))) s)"
  using run_seq_reaches [OF run_mov [OF r]] code pc by fastforce

text \<open>Saving the registers an exit uses.\<close>

definition saved_ctx :: "a64_state \<Rightarrow> a64_state" where
  "saved_ctx s = s\<lparr>sp_reg := sp_reg s - 16, mem := (mem s)(sp_reg s - 16 := xregs s 0, sp_reg s - 8 := xregs s 1)\<rparr>"

lemma aligned_to_dvd: "n < 64 \<Longrightarrow> aligned_to (2 ^ n) a \<longleftrightarrow> 2 ^ n dvd a"
  by (simp add: aligned_to_def flip: take_bit_eq_0_iff) (simp add: take_bit_eq_mask mask_eq_exp_minus_1)

lemma aligned_sp:
  assumes "aligned_to 16 a"
  shows "aligned_to 8 (a - 16)" "aligned_to 16 (a - 16)" "aligned_to 8 a" "aligned_to 16 (a + 16)"
proof -
  have a: "16 dvd a" using assms aligned_to_dvd [of 4 a] by simp
  have "(8 :: uintptr) dvd 16" by (rule dvdI [of _ _ 2]) simp
  then have "8 dvd a" using a by (rule dvd_trans)
  then show "aligned_to 8 (a - 16)" "aligned_to 8 a"
    using \<open>(8 :: uintptr) dvd 16\<close> aligned_to_dvd [of 3 "a - 16"] aligned_to_dvd [of 3 a] by (simp_all add: dvd_diff)
  show "aligned_to 16 (a - 16)" "aligned_to 16 (a + 16)"
    using a aligned_to_dvd [of 4 "a - 16"] aligned_to_dvd [of 4 "a + 16"] by (simp_all add: dvd_diff)
qed

lemma imm_values:
  "push_bit 3 (scast (-2 :: 7 word)) = (-16 :: uintptr)" "push_bit 3 (scast (2 :: 7 word)) = (16 :: uintptr)"
  "scast (-16 :: 9 word) = (-16 :: uintptr)" "scast (16 :: 9 word) = (16 :: uintptr)"
  by code_simp+

lemma save_context_exec:
  assumes "aligned_to 16 (sp_reg s)"
  shows "a64_exec (a64_LDP_STP 2 0 3 0 (-2) x1 sp x0) s = Some ((saved_ctx s)\<lparr>pc_reg := pc_reg s + 4\<rparr>)"
proof -
  have "sp_reg s - 16 + 8 = sp_reg s - 8" by simp
  then show ?thesis
    using assms aligned_sp(1) [OF assms]
    by (simp add: Let_def imm_values reg_defs xreg_sp_def xreg_def base_ok_def load_store_pair_def set_mem_def
        set_xreg_sp_def next_pc_def saved_ctx_def)
qed

lemma nop_exec: "a64_exec (a64_word NOP_INSTRUCTION) s = Some (s\<lparr>pc_reg := pc_reg s + 4\<rparr>)"
  by (simp add: NOP_INSTRUCTION_def next_pc_def)

declare a64_exec.simps [simp del]

section \<open>Exits to the dispatcher\<close>

lemma then_advance_b:
  "then_advance (\<lambda>p. a64_b_helper p d) w =
     (if in_b_range (snd w) d then Ok (emit_seq [b_inst (snd w) d False] w) else Assert_Fail)"
  by (simp add: then_advance_def a64_b_helper_def a64_branch_helper_eq emit_inst_def)

definition jump_seq :: "'a dbm_thread_scheme \<Rightarrow> int \<Rightarrow> uintptr \<Rightarrow> uintptr \<Rightarrow> a64_inst list" where
  "jump_seq td bb target p =
     (let movs = mov_seq x0 target @ mov_seq x1 (word_of_int bb) in
      movs @ [b_inst (slot p (length movs)) (dispatcher_addr td) False])"

abbreviation jump_b_addr :: "int \<Rightarrow> uintptr \<Rightarrow> uintptr \<Rightarrow> uintptr" where
  "jump_b_addr bb target p \<equiv> slot p (length (mov_seq x0 target @ mov_seq x1 (word_of_int bb)))"

lemma jump_seq_length: "length (jump_seq td bb target p) \<le> 9"
  using mov_seq_length(1) [of x0 target] mov_seq_length(1) [of x1 "word_of_int bb"] by (simp add: jump_seq_def Let_def)

lemma a64_branch_jump_eq:
  "a64_branch_jump td bb target (REPLACE_TARGET OR INSERT_BRANCH) w =
     (if in_b_range (jump_b_addr bb target (snd w)) (dispatcher_addr td)
      then Ok (emit_seq (jump_seq td bb target (snd w)) w) else Assert_Fail)"
proof -
  have "(REPLACE_TARGET OR INSERT_BRANCH) AND REPLACE_TARGET \<noteq> 0" "(REPLACE_TARGET OR INSERT_BRANCH) AND INSERT_BRANCH \<noteq> 0"
    by code_simp+
  then show ?thesis
    by (simp add: a64_branch_jump_def Let_def then_advance_b a64_copy_to_reg_64bits_seq emit_seq_snd jump_seq_def
        nat_ac)
qed

text \<open>The state in which the dispatcher is entered: the target in X0 and the source fragment in X1.\<close>

definition dispatch_state :: "a64_state \<Rightarrow> int \<Rightarrow> uintptr \<Rightarrow> uintptr \<Rightarrow> a64_state" where
  "dispatch_state s bb target disp = s\<lparr>xregs := (xregs s)(0 := target, 1 := word_of_int bb), pc_reg := disp\<rparr>"

lemma reaches_jump:
  assumes code: "code_seq code p (jump_seq td bb target p)" and pc: "pc_reg s = p"
    and range: "in_b_range (jump_b_addr bb target p) (dispatcher_addr td)"
  shows "reaches code s (dispatch_state s bb target (dispatcher_addr td))"
proof -
  define q1 where "q1 = slot p (length (mov_seq x0 target))"
  define q2 where "q2 = slot q1 (length (mov_seq x1 (word_of_int bb)))"
  have q2: "jump_b_addr bb target p = q2" by (simp add: q1_def q2_def nat_ac)
  have parts: "code_seq code p (mov_seq x0 target)" "code_seq code q1 (mov_seq x1 (word_of_int bb))"
      "code q2 = Some (b_inst q2 (dispatcher_addr td) False)"
    using code unfolding q1_def q2_def jump_seq_def Let_def by (simp_all add: nat_ac)
  let ?s1 = "set_reg x0 target q1 s" and ?s2 = "set_reg x1 (word_of_int bb) q2 (set_reg x0 target q1 s)"
  have "reaches code s ?s1"
    using reaches_mov [OF parts(1) _ pc] by (simp add: q1_def reg_defs)
  also have "reaches code ?s1 ?s2"
    using reaches_mov [OF parts(2), of ?s1] by (simp add: q2_def reg_defs)
  also have "reaches code ?s2 (?s2\<lparr>pc_reg := dispatcher_addr td\<rparr>)"
    using parts(3) range b_inst_exec(1) [of q2 "dispatcher_addr td" ?s2] unfolding q2
    by (intro reaches_one) simp_all
  also have "?s2\<lparr>pc_reg := dispatcher_addr td\<rparr> = dispatch_state s bb target (dispatcher_addr td)"
    by (simp add: dispatch_state_def reg_defs)
  finally show ?thesis .
qed

definition exit_prefix :: "a64_inst list" where
  "exit_prefix = [a64_word NOP_INSTRUCTION, a64_word NOP_INSTRUCTION, a64_LDP_STP 2 0 3 0 (-2) x1 sp x0]"

lemma exit_prefix_length [simp]: "length exit_prefix = 3"
  by (simp add: exit_prefix_def)

lemma emit_exit_prefix:
  "a64_branch_save_context (emit_inst (a64_word NOP_INSTRUCTION) (emit_inst (a64_word NOP_INSTRUCTION) w)) = emit_seq exit_prefix w"
  by (simp add: exit_prefix_def a64_branch_save_context_def a64_push_pair_reg_def)

lemma reaches_exit_prefix:
  assumes "code_seq code p exit_prefix"
    and "pc_reg s = p" "aligned_to 16 (sp_reg s)"
  shows "reaches code s ((saved_ctx s)\<lparr>pc_reg := slot p 3\<rparr>)"
proof -
  have "reaches code s (s\<lparr>pc_reg := p + 4\<rparr>)"
    using assms(2,3) assms(1) [unfolded exit_prefix_def] nop_exec [of s] by (intro reaches_one) simp_all
  also have "reaches code (s\<lparr>pc_reg := p + 4\<rparr>) (s\<lparr>pc_reg := 8 + p\<rparr>)"
    using assms(2,3) assms(1) [unfolded exit_prefix_def] nop_exec [of "s\<lparr>pc_reg := p + 4\<rparr>"] by (intro reaches_one) simp_all
  also have "reaches code (s\<lparr>pc_reg := 8 + p\<rparr>) ((saved_ctx s)\<lparr>pc_reg := 12 + p\<rparr>)"
    using assms(2,3) assms(1) [unfolded exit_prefix_def] save_context_exec [of "s\<lparr>pc_reg := 8 + p\<rparr>"]
    by (intro reaches_one) (simp_all add: saved_ctx_def)
  finally show ?thesis by (simp add: slot_def add.commute)
qed

lemma sint_slot:
  assumes "n \<le> 64"
  shows "sint (slot p n - p) = 4 * int n"
proof -
  have "slot p n - p = (word_of_int (4 * int n) :: uintptr)" by (simp add: slot_def)
  then show ?thesis
    using assms by (simp only: signed_of_int) (simp add: signed_take_bit_int_eq_self)
qed

lemma four_aligned: "(4 * k) AND 3 = 0" for k :: int
proof -
  have "take_bit 2 (4 * k) = 0" by (simp add: take_bit_eq_mod)
  then show ?thesis by (simp add: take_bit_eq_mask mask_eq_exp_minus_1)
qed

text \<open>Close to the dispatcher an exit is always emitted.\<close>

definition near :: "uintptr \<Rightarrow> uintptr \<Rightarrow> bool" where
  "near p t \<longleftrightarrow> sint (t - p) AND 3 = 0 \<and> \<bar>sint (t - p)\<bar> \<le> 100 * MB"

lemma near_in_range:
  assumes "near p t" "n \<le> 64"
  shows "in_b_range (slot p n) t"
proof -
  let ?d = "sint (t - p)"
  have eq: "t - slot p n = word_of_int (?d - 4 * int n)" by (simp add: slot_def algebra_simps)
  have d: "?d AND 3 = 0" "- 100 * MB \<le> ?d" "?d \<le> 100 * MB" using assms(1) by (auto simp: near_def)
  have "sint (t - slot p n) = ?d - 4 * int n"
    unfolding eq using d assms(2) by (simp only: signed_of_int) (simp add: signed_take_bit_int_eq_self MB_def)
  moreover have "(?d - 4 * int n) AND 3 = 0"
    using four_aligned [of "drop_bit 2 ?d - int n"] quarter [OF d(1)] by (simp add: right_diff_distrib)
  ultimately show ?thesis
    using d assms(2) by (simp add: in_b_range_def MB_def)
qed

section \<open>The exit for a conditional branch\<close>

lemma cond_holds_invert:
  assumes "c \<noteq> 14" "c \<noteq> 15"
  shows "cond_holds f (invert_cond c) \<longleftrightarrow> \<not> cond_holds f c"
proof -
  have "drop_bit 1 (c XOR 1) = drop_bit 1 c"
    by (intro bit_word_eqI) (auto simp: bit_simps bit_1_iff)
  moreover have "bit (c XOR 1) 0 = (\<not> bit c 0)" by (simp add: bit_simps)
  moreover have "c XOR 1 \<noteq> 15"
  proof
    assume "c XOR 1 = 15"
    then have "c = 15 XOR 1" by (metis xor.assoc xor.right_neutral xor_self_eq)
    with assms(1) show False by simp
  qed
  ultimately show ?thesis using assms(2) by (auto simp: cond_holds_def invert_cond_def)
qed

definition cond_exit_seq :: "'a dbm_thread_scheme \<Rightarrow> int \<Rightarrow> uintptr \<Rightarrow> uintptr \<Rightarrow> a64_inst \<Rightarrow> uintptr \<Rightarrow> a64_inst list" where
  "cond_exit_seq td bb target read_address bcond p =
     (let pre = exit_prefix
            @ mov_seq x1 (word_of_int bb);
          taken = mov_seq x0 target;
          skipped = mov_seq x0 (read_address + 4);
          n1 = length pre + 1 + length taken;
          n2 = n1 + 1 + length skipped
      in pre @ [bcond] @ taken @ [b_inst (slot p n1) (dispatcher_addr td) False]
           @ skipped @ [b_inst (slot p n2) (dispatcher_addr td) False])"

text \<open>Where the two branches to the dispatcher and the skipped path are.\<close>

definition cond_exit_slots :: "int \<Rightarrow> uintptr \<Rightarrow> uintptr \<Rightarrow> nat \<times> nat \<times> nat" where
  "cond_exit_slots bb target read_address =
     (let n0 = 3 + length (mov_seq x1 (word_of_int bb));
          n1 = n0 + 1 + length (mov_seq x0 target)
      in (n0, n1, n1 + 1 + length (mov_seq x0 (read_address + 4))))"

lemma cond_exit_slots_bound:
  "cond_exit_slots bb target ra = (n0, n1, n2) \<Longrightarrow> n0 < n1 \<and> n1 < n2 \<and> n2 \<le> 17"
  using mov_seq_length(1) [of x0 target] mov_seq_length(1) [of x1 "word_of_int bb"] mov_seq_length(1) [of x0 "ra + 4"]
  by (auto simp: cond_exit_slots_def Let_def)

lemma a64_branch_jump_cond_unfold:
  fixes td :: "'a dbm_thread_scheme" and code :: a64_code and p :: uintptr and cond :: "4 word"
  assumes slots: "cond_exit_slots bb target ra = (n0, n1, n2)"
  defines "w3 \<equiv> emit_seq (exit_prefix @ mov_seq x1 (word_of_int bb)) (code, p)"
  defines "w4 \<equiv> emit_seq (mov_seq x0 target @ [b_inst (slot p n1) (dispatcher_addr td) False]) (fst w3, slot p n0 + 4)"
  shows "a64_branch_jump_cond td bb target ra cond (code, p) =
      (if in_b_range (slot p n1) (dispatcher_addr td)
       then res_bind (a64_b_cond_helper (slot p n0) (slot p (n1 + 1)) (invert_cond cond) (fst w4)) (\<lambda>code.
         then_advance (\<lambda>p. a64_b_helper p (dispatcher_addr td)) (emit_seq (mov_seq x0 (ra + 4)) (code, slot p (n1 + 1))))
       else Assert_Fail)"
    and "snd w3 = slot p n0" and "snd w4 = slot p (n1 + 1)"
proof -
  let ?d = "dispatcher_addr td"
  have n: "n0 = length (exit_prefix @ mov_seq x1 (word_of_int bb))" "n1 = n0 + 1 + length (mov_seq x0 target)"
    using slots by (auto simp: cond_exit_slots_def Let_def)
  show snd3: "snd w3 = slot p n0" unfolding w3_def n(1) emit_seq_snd by simp
  have snd3': "snd (emit_seq (mov_seq x0 target) (fst w3, slot p n0 + 4)) = slot p n1"
    by (simp add: emit_seq_snd n nat_ac)
  show snd4: "snd w4 = slot p (n1 + 1)" using snd3' by (simp add: w4_def emit_inst_def)
  have w3_eq: "emit_seq (mov_seq x1 (word_of_int bb)) (emit_seq exit_prefix (code, p)) = w3"
    by (simp add: w3_def)
  have "a64_branch_jump_cond td bb target ra cond (code, p) =
    res_bind (if in_b_range (slot p n1) ?d then Ok w4 else Assert_Fail) (\<lambda>w.
      res_bind (a64_b_cond_helper (slot p n0) (snd w) (invert_cond cond) (fst w)) (\<lambda>code.
      then_advance (\<lambda>p. a64_b_helper p ?d) (emit_seq (mov_seq x0 (ra + 4)) (code, snd w))))"
    unfolding a64_branch_jump_cond_def emit_exit_prefix a64_copy_to_reg_64bits_seq Let_def then_advance_b
    by (simp only: w3_eq snd3' snd3 emit_seq_append w4_def)
  with snd4 show "a64_branch_jump_cond td bb target ra cond (code, p) =
      (if in_b_range (slot p n1) (dispatcher_addr td)
       then res_bind (a64_b_cond_helper (slot p n0) (slot p (n1 + 1)) (invert_cond cond) (fst w4)) (\<lambda>code.
         then_advance (\<lambda>p. a64_b_helper p (dispatcher_addr td)) (emit_seq (mov_seq x0 (ra + 4)) (code, slot p (n1 + 1))))
       else Assert_Fail)" by simp
qed

lemma a64_branch_jump_cond_Ok:
  assumes ok: "a64_branch_jump_cond td bb target ra cond (code, p) = Ok (code', q)"
    and slots: "cond_exit_slots bb target ra = (n0, n1, n2)"
  obtains bcond where "code_seq code' p (cond_exit_seq td bb target ra bcond p)" "q = slot p (n2 + 1)"
    "in_b_range (slot p n1) (dispatcher_addr td)" "in_b_range (slot p n2) (dispatcher_addr td)"
    "\<And>s. pc_reg s = slot p n0 \<Longrightarrow>
       a64_exec bcond s = Some (s\<lparr>pc_reg := if cond_holds (flags s) (invert_cond cond) then slot p (n1 + 1) else slot p (n0 + 1)\<rparr>)"
proof -
  let ?pre = "exit_prefix @ mov_seq x1 (word_of_int bb)"
  let ?d = "dispatcher_addr td"
  have n: "n0 = length ?pre" "n1 = n0 + 1 + length (mov_seq x0 target)" "n2 = n1 + 1 + length (mov_seq x0 (ra + 4))"
    using slots by (auto simp: cond_exit_slots_def Let_def)
  define w3 where "w3 = emit_seq ?pre (code, p)"
  define w4 where "w4 = emit_seq (mov_seq x0 target @ [b_inst (slot p n1) ?d False]) (fst w3, slot p n0 + 4)"
  note unf = a64_branch_jump_cond_unfold(1) [OF slots, where td = td and cond = cond and code = code and p = p,
    folded w3_def, folded w4_def]
  note snd3 = a64_branch_jump_cond_unfold(2) [OF slots, where code = code and p = p, folded w3_def]
  note snd4 = a64_branch_jump_cond_unfold(3) [OF slots, where td = td and code = code and p = p, folded w3_def, folded w4_def]
  have r1: "in_b_range (slot p n1) ?d" using ok unf by (simp split: if_splits)
  then have "res_bind (a64_b_cond_helper (slot p n0) (slot p (n1 + 1)) (invert_cond cond) (fst w4)) (\<lambda>code.
      then_advance (\<lambda>p. a64_b_helper p ?d) (emit_seq (mov_seq x0 (ra + 4)) (code, slot p (n1 + 1)))) = Ok (code', q)"
    using ok unf by simp
  then obtain c5 where bc: "a64_b_cond_helper (slot p n0) (slot p (n1 + 1)) (invert_cond cond) (fst w4) = Ok c5"
      and last: "then_advance (\<lambda>p. a64_b_helper p ?d) (emit_seq (mov_seq x0 (ra + 4)) (c5, slot p (n1 + 1))) = Ok (code', q)"
    unfolding res_bind_eq_Ok by blast
  obtain bcond where c5: "c5 = put_inst (slot p n0) bcond (fst w4)" and
      ex: "\<And>s. pc_reg s = slot p n0 \<Longrightarrow>
       a64_exec bcond s = Some (s\<lparr>pc_reg := if cond_holds (flags s) (invert_cond cond) then slot p (n1 + 1) else slot p n0 + 4\<rparr>)"
    using a64_b_cond_helper_exec [OF bc] by metis
  let ?mid = "mov_seq x0 target @ [b_inst (slot p n1) ?d False]"
  have "length ?mid < 2 ^ 60" using mov_seq_length(1) [of x0 target] by simp
  then have c5': "c5 = fst (emit_seq (bcond # ?mid) w3)" and q5: "snd (emit_seq (bcond # ?mid) w3) = slot p (n1 + 1)"
    using emit_seq_patch [where xs = ?mid and p = "snd w3" and i = bcond and c = "fst w3"] c5 snd4
    by (simp_all add: w4_def flip: snd3)
  have w5: "(c5, slot p (n1 + 1)) = emit_seq (?pre @ bcond # ?mid) (code, p)"
  proof -
    have "emit_seq (?pre @ bcond # ?mid) (code, p) = emit_seq (bcond # ?mid) w3"
      unfolding w3_def by (rule emit_seq_append)
    then show ?thesis by (simp only:) (rule prod_eqI; simp only: fst_conv snd_conv c5' q5)
  qed
  have s6: "snd (emit_seq (mov_seq x0 (ra + 4)) (c5, slot p (n1 + 1))) = slot p n2"
    by (simp add: emit_seq_snd n nat_ac)
  have last': "in_b_range (slot p n2) ?d" "(code', q) = emit_seq (cond_exit_seq td bb target ra bcond p) (code, p)"
  proof -
    have lst: "in_b_range (slot p n2) ?d"
        "(code', q) = emit_seq [b_inst (slot p n2) ?d False] (emit_seq (mov_seq x0 (ra + 4)) (c5, slot p (n1 + 1)))"
      using last unfolding then_advance_b s6 by (simp_all split: if_splits)
    have "emit_seq (cond_exit_seq td bb target ra bcond p) (code, p) = emit_seq [b_inst (slot p n2) ?d False]
        (emit_seq (mov_seq x0 (ra + 4)) (emit_seq (?pre @ bcond # ?mid) (code, p)))"
      using n by (simp add: cond_exit_seq_def Let_def nat_ac)
    with lst show "in_b_range (slot p n2) ?d" "(code', q) = emit_seq (cond_exit_seq td bb target ra bcond p) (code, p)"
      by (simp_all only: w5)
  qed
  have len: "length (cond_exit_seq td bb target ra bcond p) = n2 + 1" using n by (simp add: cond_exit_seq_def Let_def)
  have "code_seq code' p (cond_exit_seq td bb target ra bcond p)"
  proof -
    have "length (cond_exit_seq td bb target ra bcond p) < 2 ^ 60"
      using len cond_exit_slots_bound [OF slots] by simp
    then show ?thesis
      using emit_seq_code [of "cond_exit_seq td bb target ra bcond p" "(code, p)"] by (simp flip: last'(2))
  qed
  moreover have "q = slot p (n2 + 1)"
    using last'(2) emit_seq_snd [of "cond_exit_seq td bb target ra bcond p" "(code, p)"] len by (metis snd_conv)
  moreover have "a64_exec bcond s = Some (s\<lparr>pc_reg := if cond_holds (flags s) (invert_cond cond) then slot p (n1 + 1) else slot p (n0 + 1)\<rparr>)"
    if "pc_reg s = slot p n0" for s
    using ex [OF that] by simp
  ultimately show thesis
    using r1 last'(1) by (intro that)
qed

text \<open>Running the exit of a conditional branch.\<close>

lemma reaches_cond_exit:
  assumes code: "code_seq code p (cond_exit_seq td bb target ra bcond p)"
    and slots: "cond_exit_slots bb target ra = (n0, n1, n2)"
    and range: "in_b_range (slot p n1) (dispatcher_addr td)" "in_b_range (slot p n2) (dispatcher_addr td)"
    and bcond: "\<And>s. pc_reg s = slot p n0 \<Longrightarrow> a64_exec bcond s = Some (s\<lparr>pc_reg := if skip s then slot p (n1 + 1) else slot p (n0 + 1)\<rparr>)"
    and skip: "\<And>r q. skip ((saved_ctx s)\<lparr>xregs := r, pc_reg := q\<rparr>) = skp"
    and s: "pc_reg s = p" "aligned_to 16 (sp_reg s)"
  shows "reaches code s (dispatch_state (saved_ctx s) bb (if skp then ra + 4 else target) (dispatcher_addr td))"
proof -
  let ?d = "dispatcher_addr td"
  have n: "n0 = 3 + length (mov_seq x1 (word_of_int bb))" "n1 = n0 + 1 + length (mov_seq x0 target)"
      "n2 = n1 + 1 + length (mov_seq x0 (ra + 4))"
    using slots by (auto simp: cond_exit_slots_def Let_def)
  have parts: "code_seq code p exit_prefix"
      "code_seq code (slot p 3) (mov_seq x1 (word_of_int bb))" "code (slot p n0) = Some bcond"
      "code_seq code (slot p (n0 + 1)) (mov_seq x0 target)" "code (slot p n1) = Some (b_inst (slot p n1) ?d False)"
      "code_seq code (slot p (n1 + 1)) (mov_seq x0 (ra + 4))" "code (slot p n2) = Some (b_inst (slot p n2) ?d False)"
    using code unfolding cond_exit_seq_def Let_def n by (simp_all add: nat_ac)
  define t where "t = saved_ctx s"
  let ?t1 = "set_reg x1 (word_of_int bb) (slot p n0) t"
  have "reaches code s (t\<lparr>pc_reg := slot p 3\<rparr>)"
    unfolding t_def using parts(1) s by (rule reaches_exit_prefix)
  also have "reaches code (t\<lparr>pc_reg := slot p 3\<rparr>) ?t1"
    using reaches_mov [OF parts(2), of "t\<lparr>pc_reg := slot p 3\<rparr>"] by (simp add: n reg_defs)
  finally have pre: "reaches code s ?t1" .
  have sk: "skip ?t1 = skp" using skip by (simp add: t_def)
  have path: "reaches code s (dispatch_state t bb v ?d)"
    if start: "a64_exec bcond ?t1 = Some (?t1\<lparr>pc_reg := slot p a\<rparr>)" and movs: "code_seq code (slot p a) (mov_seq x0 v)"
      and b: "b = a + length (mov_seq x0 v)" "code (slot p b) = Some (b_inst (slot p b) ?d False)" "in_b_range (slot p b) ?d"
    for a b v
  proof -
    note pre
    also have "reaches code ?t1 (?t1\<lparr>pc_reg := slot p a\<rparr>)"
      using parts(3) start by (intro reaches_one) simp_all
    also have "reaches code (?t1\<lparr>pc_reg := slot p a\<rparr>) (set_reg x0 v (slot p b) ?t1)"
      using reaches_mov [OF movs, of "?t1\<lparr>pc_reg := slot p a\<rparr>"] b(1) by (simp add: reg_defs)
    also have "reaches code (set_reg x0 v (slot p b) ?t1) (set_reg x0 v ?d ?t1)"
      using b(2) b_inst_exec(1) [OF b(3), of "set_reg x0 v (slot p b) ?t1"] by (intro reaches_one) simp_all
    also have "set_reg x0 v ?d ?t1 = dispatch_state t bb v ?d"
      by (simp add: dispatch_state_def reg_defs fun_upd_twist)
    finally show ?thesis .
  qed
  show ?thesis
  proof (cases skp)
    case True
    then show ?thesis
      using path [of "n1 + 1" "ra + 4" n2] bcond [of ?t1] sk parts(6,7) range(2) n by (simp add: t_def)
  next
    case False
    then show ?thesis
      using path [of "n0 + 1" target n1] bcond [of ?t1] sk parts(4,5) range(1) n by (simp add: t_def)
  qed
qed

section \<open>The exit for compare-and-branch and test-and-branch\<close>

definition reg_exit_seq :: "'a dbm_thread_scheme \<Rightarrow> int \<Rightarrow> uintptr \<Rightarrow> uintptr \<Rightarrow> a64_inst \<Rightarrow> uintptr \<Rightarrow> a64_inst list" where
  "reg_exit_seq td bb target next_addr br p =
     (let taken = jump_seq td bb target (slot p 4) in
      exit_prefix @ [br] @ taken @ jump_seq td bb next_addr (slot p (4 + length taken)))"

lemma jump_seq_thread: "dispatcher_addr td' = dispatcher_addr td \<Longrightarrow> jump_seq td' bb target p = jump_seq td bb target p"
  by (simp add: jump_seq_def Let_def)

text \<open>The branch put at \<open>cbz_branch\<close>: to the skipped path when the original would not branch.\<close>

definition skips_when :: "(uintptr \<Rightarrow> uintptr \<Rightarrow> a64_code \<Rightarrow> a64_code res) \<Rightarrow> (a64_state \<Rightarrow> bool) \<Rightarrow> bool" where
  "skips_when put_branch skip \<longleftrightarrow>
     (\<forall>p n code code'. n \<le> 64 \<longrightarrow> put_branch p (slot p n) code = Ok code' \<longrightarrow>
       (\<exists>i. code' = put_inst p i code \<and>
         (\<forall>s. pc_reg s = p \<longrightarrow> a64_exec i s = Some (s\<lparr>pc_reg := if skip s then slot p n else p + 4\<rparr>))))"

lemma a64_branch_imm_reg_with_Ok:
  assumes ok: "a64_branch_imm_reg_with td bb ra off set_meta put_branch (code, p) = Ok (td', code', q)"
    and skips: "skips_when put_branch skip"
    and n: "n = length (jump_seq td bb (ra + off) (slot p 4))"
  obtains br where "code_seq code' p (reg_exit_seq td bb (ra + off) (ra + 4) br p)"
    "in_b_range (jump_b_addr bb (ra + off) (slot p 4)) (dispatcher_addr td)"
    "in_b_range (jump_b_addr bb (ra + 4) (slot p (4 + n))) (dispatcher_addr td)"
    "\<And>s. pc_reg s = slot p 3 \<Longrightarrow> a64_exec br s = Some (s\<lparr>pc_reg := if skip s then slot p (4 + n) else slot p 4\<rparr>)"
    "code_cache_meta td' bb = (set_meta (code_cache_meta td bb))\<lparr>exit_branch_addr := p, branch_taken_addr := ra + off,
       branch_skipped_addr := ra + 4\<rparr>" "0 \<le> bb" "bb < META_SIZE"
proof -
  let ?w0 = "emit_seq exit_prefix (code, p)"
  have w0: "snd ?w0 = slot p 3" by (simp add: emit_seq_snd)
  have bb: "0 \<le> bb" "bb < META_SIZE"
    using ok by (auto simp: a64_branch_imm_reg_with_def Let_def meta_upd_def split: if_splits)
  define td1 where "td1 = td\<lparr>code_cache_meta := (code_cache_meta td)(bb := (set_meta (code_cache_meta td bb))\<lparr>exit_branch_addr := p,
    branch_taken_addr := ra + off, branch_skipped_addr := ra + 4\<rparr>)\<rparr>"
  have disp: "dispatcher_addr td1 = dispatcher_addr td" by (simp add: td1_def)
  let ?taken = "jump_seq td bb (ra + off) (slot p 4)" and ?skipped = "jump_seq td bb (ra + 4) (slot p (4 + n))"
  have four: "slot p 3 + 4 = slot p 4" by (simp add: eval_nat_numeral)
  have "a64_branch_imm_reg_with td bb ra off set_meta put_branch (code, p) =
    res_bind (a64_branch_jump td1 bb (ra + off) (REPLACE_TARGET OR INSERT_BRANCH) (fst ?w0, slot p 4)) (\<lambda>w.
      res_bind (put_branch (slot p 3) (snd w) (fst w)) (\<lambda>code.
      res_bind (a64_branch_jump td1 bb (ra + 4) (REPLACE_TARGET OR INSERT_BRANCH) (code, snd w)) (\<lambda>w. Ok (td1, w))))"
    using bb by (simp add: a64_branch_imm_reg_with_def Let_def emit_exit_prefix w0 four td1_def)
  then have "res_bind (if in_b_range (jump_b_addr bb (ra + off) (slot p 4)) (dispatcher_addr td)
      then Ok (emit_seq ?taken (fst ?w0, slot p 4)) else Assert_Fail) (\<lambda>w.
      res_bind (put_branch (slot p 3) (snd w) (fst w)) (\<lambda>code.
      res_bind (a64_branch_jump td1 bb (ra + 4) (REPLACE_TARGET OR INSERT_BRANCH) (code, snd w)) (\<lambda>w. Ok (td1, w)))) = Ok (td', code', q)"
    using ok by (simp add: a64_branch_jump_eq disp jump_seq_thread [OF disp])
  moreover have snd1: "snd (emit_seq ?taken (fst ?w0, slot p 4)) = slot p (4 + n)"
    by (simp add: emit_seq_snd n)
  ultimately have r1: "in_b_range (jump_b_addr bb (ra + off) (slot p 4)) (dispatcher_addr td)"
    and "res_bind (put_branch (slot p 3) (slot p (4 + n)) (fst (emit_seq ?taken (fst ?w0, slot p 4)))) (\<lambda>code.
      res_bind (a64_branch_jump td1 bb (ra + 4) (REPLACE_TARGET OR INSERT_BRANCH) (code, slot p (4 + n))) (\<lambda>w. Ok (td1, w))) = Ok (td', code', q)"
    by (simp_all split: if_splits)
  then obtain c2 where put: "put_branch (slot p 3) (slot (slot p 3) (Suc n)) (fst (emit_seq ?taken (fst ?w0, slot p 4))) = Ok c2"
      and last: "res_bind (a64_branch_jump td1 bb (ra + 4) (REPLACE_TARGET OR INSERT_BRANCH) (c2, slot p (4 + n))) (\<lambda>w. Ok (td1, w)) = Ok (td', code', q)"
    unfolding res_bind_eq_Ok [where m = "put_branch _ _ _"] by (auto simp: eval_nat_numeral)
  have n9: "n \<le> 9" using jump_seq_length n by simp
  then have "Suc n \<le> 64" by simp
  from skips [unfolded skips_when_def, rule_format, OF this put]
  obtain br where c2: "c2 = put_inst (slot p 3) br (fst (emit_seq ?taken (fst ?w0, slot p 4)))"
      and ex: "\<And>s. pc_reg s = slot p 3 \<Longrightarrow> a64_exec br s = Some (s\<lparr>pc_reg := if skip s then slot (slot p 3) (Suc n) else slot p 3 + 4\<rparr>)"
    by blast
  have short: "length ?taken < 2 ^ 60" using n9 n by simp
  have w2: "(c2, slot p (4 + n)) = emit_seq (br # ?taken) ?w0"
  proof (rule prod_eqI)
    show "fst (c2, slot p (4 + n)) = fst (emit_seq (br # ?taken) ?w0)"
      using emit_seq_patch(1) [OF short, where p = "slot p 3" and i = br and c = "fst ?w0"] c2 w0 four by (metis fst_conv prod.collapse)
    show "snd (c2, slot p (4 + n)) = snd (emit_seq (br # ?taken) ?w0)"
      using w0 n by (simp only: emit_seq_snd) (simp add: eval_nat_numeral)
  qed
  have last': "in_b_range (jump_b_addr bb (ra + 4) (slot p (4 + n))) (dispatcher_addr td)"
      "(code', q) = emit_seq ?skipped (c2, slot p (4 + n))" "td' = td1"
    using last by (auto simp: a64_branch_jump_eq disp jump_seq_thread [OF disp] split: if_splits)
  have seq: "(code', q) = emit_seq (reg_exit_seq td bb (ra + off) (ra + 4) br p) (code, p)"
    unfolding last'(2) w2 by (simp add: reg_exit_seq_def Let_def n)
  have "length (reg_exit_seq td bb (ra + off) (ra + 4) br p) < 2 ^ 60"
    using jump_seq_length [of td bb "ra + off" "slot p 4"] jump_seq_length [of td bb "ra + 4" "slot p (4 + n)"] n
    by (simp add: reg_exit_seq_def Let_def)
  from emit_seq_code [OF this, of "(code, p)"]
  have "code_seq code' p (reg_exit_seq td bb (ra + off) (ra + 4) br p)" by (simp flip: seq)
  moreover have "a64_exec br s = Some (s\<lparr>pc_reg := if skip s then slot p (4 + n) else slot p 4\<rparr>)" if "pc_reg s = slot p 3" for s
    using ex [OF that] by (simp add: eval_nat_numeral)
  moreover have "code_cache_meta td' bb = (set_meta (code_cache_meta td bb))\<lparr>exit_branch_addr := p, branch_taken_addr := ra + off,
       branch_skipped_addr := ra + 4\<rparr>"
    by (simp add: last'(3) td1_def)
  ultimately show thesis
    using r1 last'(1) bb by (intro that)
qed

lemma reaches_reg_exit:
  assumes code: "code_seq code p (reg_exit_seq td bb target next_addr br p)"
    and n: "n = length (jump_seq td bb target (slot p 4))"
    and range: "in_b_range (jump_b_addr bb target (slot p 4)) (dispatcher_addr td)"
      "in_b_range (jump_b_addr bb next_addr (slot p (4 + n))) (dispatcher_addr td)"
    and br: "\<And>s. pc_reg s = slot p 3 \<Longrightarrow> a64_exec br s = Some (s\<lparr>pc_reg := if skip s then slot p (4 + n) else slot p 4\<rparr>)"
    and s: "pc_reg s = p" "aligned_to 16 (sp_reg s)"
  shows "reaches code s (dispatch_state (saved_ctx s) bb (if skip ((saved_ctx s)\<lparr>pc_reg := slot p 3\<rparr>) then next_addr else target) (dispatcher_addr td))"
proof -
  have parts: "code_seq code p exit_prefix" "code (slot p 3) = Some br" "code_seq code (slot p 4) (jump_seq td bb target (slot p 4))"
      "code_seq code (slot p (4 + n)) (jump_seq td bb next_addr (slot p (4 + n)))"
    using code unfolding reg_exit_seq_def Let_def n by (simp_all add: eval_nat_numeral)
  let ?t = "(saved_ctx s)\<lparr>pc_reg := slot p 3\<rparr>"
  let ?t' = "?t\<lparr>pc_reg := if skip ?t then slot p (4 + n) else slot p 4\<rparr>"
  have "reaches code s ?t" using parts(1) s by (rule reaches_exit_prefix)
  also have "reaches code ?t ?t'"
    using parts(2) br [of ?t] by (intro reaches_one) simp_all
  also have "reaches code ?t' (dispatch_state ?t' bb (if skip ?t then next_addr else target) (dispatcher_addr td))"
    using reaches_jump [OF parts(3) _ range(1), of ?t'] reaches_jump [OF parts(4) _ range(2), of ?t'] by simp
  finally show ?thesis by (simp add: dispatch_state_def)
qed

lemma in_b_cond_range: "n \<le> 64 \<Longrightarrow> \<exists>code'. a64_b_cond_helper p (slot p n) cond code = Ok code'"
  by (simp add: a64_b_cond_helper_def Let_def sint_slot four_aligned MB_def)

lemma a64_branch_jump_cond_total:
  assumes "near p (dispatcher_addr td)"
  shows "\<exists>w. a64_branch_jump_cond td bb target ra cond (code, p) = Ok w"
proof -
  obtain n0 n1 n2 where slots: "cond_exit_slots bb target ra = (n0, n1, n2)" by (metis prod_cases3)
  note b = cond_exit_slots_bound [OF slots]
  have "slot p (n1 + 1) = slot (slot p n0) (n1 + 1 - n0)" using b by simp
  moreover have "n1 + 1 - n0 \<le> 64" using b by linarith
  ultimately have "\<exists>c'. a64_b_cond_helper (slot p n0) (slot p (n1 + 1)) (invert_cond cond) c = Ok c'" for c
    using in_b_cond_range by metis
  then obtain c5 where c5: "a64_b_cond_helper (slot p n0) (slot p (n1 + 1)) (invert_cond cond)
      (fst (emit_seq (mov_seq x0 target @ [b_inst (slot p n1) (dispatcher_addr td) False])
        (fst (emit_seq (exit_prefix @ mov_seq x1 (word_of_int bb)) (code, p)), slot p n0 + 4))) = Ok c5" by blast
  have "snd (emit_seq (mov_seq x0 (ra + 4)) (c5, slot p (n1 + 1))) = slot p n2"
    using slots by (auto simp: cond_exit_slots_def Let_def emit_seq_snd nat_ac)
  then show ?thesis
    using near_in_range [OF assms, of n1] near_in_range [OF assms, of n2] b
    unfolding a64_branch_jump_cond_unfold(1) [OF slots] c5 by (simp add: then_advance_b)
qed

lemma cbz_skips:
  "skips_when (\<lambda>p target code. Ok (snd (a64_cbz_cbnz_helper p cbnz target sf rt code)))
     (\<lambda>s. (if sf = 1 then xreg s rt = 0 else (ucast (xreg s rt) :: u32) = 0) = (\<not> cbnz))"
  unfolding skips_when_def
proof (intro allI impI)
  fix p n code code'
  assume n: "n \<le> (64 :: nat)" and "Ok (snd (a64_cbz_cbnz_helper p cbnz (slot p n) sf rt code)) = Ok code'"
  then have h: "a64_cbz_cbnz_helper p cbnz (slot p n) sf rt code = (0, code')"
    by (auto simp: a64_cbz_cbnz_helper_def Let_def sint_slot four_aligned MB_def)
  have "- MB \<le> sint (slot p n - p)" "sint (slot p n - p) < MB"
    using n by (simp_all add: sint_slot MB_def)
  from a64_cbz_cbnz_helper_exec [OF this h]
  show "\<exists>i. code' = put_inst p i code \<and> (\<forall>s. pc_reg s = p \<longrightarrow> a64_exec i s = Some (s\<lparr>pc_reg :=
      if (if sf = 1 then xreg s rt = 0 else (ucast (xreg s rt) :: u32) = 0) = (\<not> cbnz) then slot p n else p + 4\<rparr>))"
    by metis
qed

lemma tbz_skips:
  "n < 64 \<Longrightarrow> skips_when (\<lambda>p target code. a64_tbz_tbnz_helper p tbnz target rt n code)
     (\<lambda>s. bit (xreg s rt) (unat n) = tbnz)"
  unfolding skips_when_def
proof (intro allI impI)
  fix p m code code'
  assume "n < 64" "a64_tbz_tbnz_helper p tbnz (slot p m) rt n code = Ok code'"
  from a64_tbz_tbnz_helper_exec [OF this(2,1)]
  show "\<exists>i. code' = put_inst p i code \<and> (\<forall>s. pc_reg s = p \<longrightarrow> a64_exec i s = Some (s\<lparr>pc_reg :=
      if bit (xreg s rt) (unat n) = tbnz then slot p m else p + 4\<rparr>))"
    by metis
qed

lemma jump_near:
  assumes "near p (dispatcher_addr td)" "n \<le> 50"
  shows "a64_branch_jump td bb target (REPLACE_TARGET OR INSERT_BRANCH) (code, slot p n) =
    Ok (emit_seq (jump_seq td bb target (slot p n)) (code, slot p n))"
proof -
  have "length (mov_seq x0 target @ mov_seq x1 (word_of_int bb)) \<le> 8"
    using mov_seq_length(1) [of x0 target] mov_seq_length(1) [of x1 "word_of_int bb"] by simp
  then have "in_b_range (jump_b_addr bb target (slot p n)) (dispatcher_addr td)"
    using near_in_range [OF assms(1), of "n + length (mov_seq x0 target @ mov_seq x1 (word_of_int bb))"] assms(2) by simp
  then show ?thesis by (simp add: a64_branch_jump_eq)
qed

lemma a64_branch_imm_reg_with_total:
  assumes near: "near p (dispatcher_addr td)" and bb: "0 \<le> bb" "bb < META_SIZE"
    and put: "\<And>p n code. n \<le> 64 \<Longrightarrow> \<exists>code'. put_branch p (slot p n) code = Ok code'"
  shows "\<exists>td' code' q. a64_branch_imm_reg_with td bb ra off set_meta put_branch (code, p) = Ok (td', code', q)"
proof -
  define td1 where "td1 = td\<lparr>code_cache_meta := (code_cache_meta td)(bb := (set_meta (code_cache_meta td bb))\<lparr>exit_branch_addr := p,
    branch_taken_addr := ra + off, branch_skipped_addr := ra + 4\<rparr>)\<rparr>"
  have near1: "near p (dispatcher_addr td1)" using near by (simp add: td1_def)
  have four: "slot p 3 + 4 = slot p 4" by (simp add: eval_nat_numeral)
  let ?w0 = "emit_seq exit_prefix (code, p)"
  define w1 where "w1 = emit_seq (jump_seq td1 bb (ra + off) (slot p 4)) (fst ?w0, slot p 4)"
  define n where "n = length (jump_seq td1 bb (ra + off) (slot p 4))"
  have n9: "n \<le> 9" using jump_seq_length [of td1] by (simp add: n_def)
  have snd1: "snd w1 = slot p (4 + n)" by (simp add: w1_def emit_seq_snd n_def)
  have eq: "slot p (4 + n) = slot (slot p 3) (Suc n)" by (simp add: eval_nat_numeral)
  have "Suc n \<le> 64" using n9 by simp
  from put [OF this, of "slot p 3" "fst w1"]
  obtain c where "put_branch (slot p 3) (slot p (4 + n)) (fst w1) = Ok c"
    unfolding eq by blast
  moreover have "a64_branch_jump td1 bb (ra + off) (REPLACE_TARGET OR INSERT_BRANCH) (fst ?w0, slot p 4) = Ok w1"
    unfolding w1_def by (rule jump_near [OF near1]) simp
  moreover have "a64_branch_jump td1 bb (ra + 4) (REPLACE_TARGET OR INSERT_BRANCH) (c, slot p (4 + n)) =
      Ok (emit_seq (jump_seq td1 bb (ra + 4) (slot p (4 + n))) (c, slot p (4 + n)))" for c
    using n9 by (intro jump_near [OF near1]) simp
  moreover have "a64_branch_imm_reg_with td bb ra off set_meta put_branch (code, p) =
    res_bind (a64_branch_jump td1 bb (ra + off) (REPLACE_TARGET OR INSERT_BRANCH) (fst ?w0, slot p 4)) (\<lambda>w.
      res_bind (put_branch (slot p 3) (snd w) (fst w)) (\<lambda>code.
      res_bind (a64_branch_jump td1 bb (ra + 4) (REPLACE_TARGET OR INSERT_BRANCH) (code, snd w)) (\<lambda>w. Ok (td1, w))))"
    using bb by (simp add: a64_branch_imm_reg_with_def Let_def emit_exit_prefix emit_seq_snd four td1_def)
  ultimately have "a64_branch_imm_reg_with td bb ra off set_meta put_branch (code, p) =
      Ok (td1, emit_seq (jump_seq td1 bb (ra + 4) (slot p (4 + n))) (c, slot p (4 + n)))"
    by (simp add: snd1)
  then show ?thesis by (metis prod.collapse)
qed

section \<open>Properties\<close>

text \<open>The original instruction, with the fields that the scanner decodes.\<close>

definition decoded :: "a64_branch_reg_inst \<Rightarrow> u32 \<Rightarrow> a64_inst" where
  "decoded inst w = (case inst of
     A64_CBZ_CBNZ \<Rightarrow> (let f = a64_CBZ_CBNZ_decode_fields w in
       a64_CBZ_CBNZ (ucast (cbz_sf f)) (ucast (cbz_op f)) (ucast (cbz_imm f)) (ucast (cbz_rt f)))
   | A64_TBZ_TBNZ \<Rightarrow> (let f = a64_TBZ_TBNZ_decode_fields w in
       a64_TBZ_TBNZ (ucast (tbz_b5 f)) (ucast (tbz_op f)) (ucast (tbz_b40 f)) (ucast (tbz_imm f)) (ucast (tbz_rt f))))"

lemma fld_less: "lo \<le> hi \<Longrightarrow> hi < 32 \<Longrightarrow> unat (fld w hi lo) < 2 ^ (Suc hi - lo)"
proof -
  assume a: "lo \<le> hi" "hi < 32"
  have "fld w hi lo = take_bit (Suc hi - lo) (drop_bit lo w)" by (simp add: fld_def take_bit_eq_mask)
  then have "unat (fld w hi lo) = take_bit (Suc hi - lo) (unat (drop_bit lo w))"
    by (simp only: unsigned_take_bit_eq)
  then show ?thesis by simp
qed

lemma ucast_fld: "unat x < 2 ^ LENGTH('a::len) \<Longrightarrow> ucast (ucast x :: 'a word) = (ucast x :: uintptr)" for x :: u32
proof -
  assume "unat x < 2 ^ LENGTH('a)"
  then have "take_bit LENGTH('a) x = x"
    by (metis unsigned_take_bit_eq take_bit_nat_eq_self unsigned_word_eqI)
  then have "bit x n \<Longrightarrow> n < LENGTH('a)" for n by (metis bit_take_bit_iff)
  then show ?thesis by (intro bit_word_eqI) (auto simp: bit_simps)
qed

lemma xreg_saved [simp]: "xreg (saved_ctx s) r = xreg s r" "xreg (s\<lparr>pc_reg := q\<rparr>) r = xreg s r"
  by (simp_all add: xreg_def saved_ctx_def)

lemma one_bit: "unat x < 2 \<Longrightarrow> x = 0 \<or> x = 1" for x :: u32
proof -
  assume "unat x < 2"
  then have "unat x = unat (0 :: u32) \<or> unat x = unat (1 :: u32)" by auto
  then show ?thesis by (simp only: word_unat_eq_iff)
qed

lemma tbz_bit_no:
  fixes b5 b40 :: u32
  assumes "unat b5 < 2" "unat b40 < 32"
  shows "unat (push_bit 5 b5 OR b40) = 32 * unat (ucast b5 :: 1 word) + unat (ucast b40 :: 5 word)"
proof -
  have b40: "unat (ucast b40 :: 5 word) = unat b40"
    using assms(2) by (simp add: unsigned_ucast_eq take_bit_nat_eq_self)
  have b5: "unat (ucast b5 :: 1 word) = unat b5"
    using assms(1) by (simp add: unsigned_ucast_eq take_bit_nat_eq_self)
  have "unat (take_bit 5 b40) = unat b40"
    using assms(2) by (simp only: unsigned_take_bit_eq) (simp add: take_bit_nat_eq_self)
  then have t: "take_bit 5 b40 = b40" by (simp only: word_unat_eq_iff)
  have "bit b40 n \<Longrightarrow> n < 5" for n by (metis t bit_take_bit_iff)
  then have "push_bit 5 b5 AND b40 = 0"
    by (intro bit_word_eqI) (auto simp: bit_simps dest!: leD)
  then have "push_bit 5 b5 OR b40 = push_bit 5 b5 + b40" by (metis disjunctive_add_eq_or)
  moreover have "unat (push_bit 5 b5 + b40) = 32 * unat b5 + unat b40"
    using assms by (simp add: push_bit_eq_mult unat_word_ariths)
  ultimately show ?thesis using b5 b40 by simp
qed

lemma a64_cbz_exit:
  assumes "near p (dispatcher_addr td)" "0 \<le> bb" "bb < META_SIZE" 
    "a64_exec (decoded A64_CBZ_CBNZ w) (s\<lparr>pc_reg := ra\<rparr>) = Some s1" "pc_reg s = p" "aligned_to 16 (sp_reg s)"
  shows "\<exists>td' code' q. a64_branch_imm_reg td bb A64_CBZ_CBNZ ra w (code, p) = Ok (td', code', q) \<and>
    reaches code' s (dispatch_state (saved_ctx s) bb (pc_reg s1) (dispatcher_addr td))"
proof -
  define f where "f = a64_CBZ_CBNZ_decode_fields w"
  let ?off = "push_bit 2 (sign_extend64 19 (ucast (cbz_imm f)))"
  let ?cbnz = "cbz_op f XOR 1 \<noteq> 0" and ?sf = "ucast (cbz_sf f) :: 1 word" and ?rt = "ucast (cbz_rt f) :: 5 word"
  let ?skip = "\<lambda>s. (if ?sf = 1 then xreg s ?rt = 0 else (ucast (xreg s ?rt) :: u32) = 0) = (\<not> ?cbnz)"
  let ?set = "\<lambda>m. m\<lparr>exit_branch_type := cbz_a64, branch_condition := ucast (cbz_op f), meta_rn := push_bit 5 (cbz_sf f) OR cbz_rt f\<rparr>"
  let ?put = "\<lambda>p target code. Ok (snd (a64_cbz_cbnz_helper p ?cbnz target ?sf ?rt code))"
  have eq: "a64_branch_imm_reg td bb A64_CBZ_CBNZ ra w (code, p) = a64_branch_imm_reg_with td bb ra ?off ?set ?put (code, p)"
    by (simp add: a64_branch_imm_reg_def f_def Let_def)
  obtain td' code' q where ok: "a64_branch_imm_reg_with td bb ra ?off ?set ?put (code, p) = Ok (td', code', q)"
    using a64_branch_imm_reg_with_total [OF assms(1-3), of ?put ra ?off ?set code] by auto
  have off: "?off = push_bit 2 (scast (ucast (cbz_imm f) :: 19 word))"
  proof -
    have "unat (cbz_imm f) < 2 ^ 19"
      using fld_less [of 5 23 w] by (simp add: f_def a64_CBZ_CBNZ_decode_fields_def)
    then have "ucast (ucast (cbz_imm f) :: 19 word) = (ucast (cbz_imm f) :: uintptr)" by (intro ucast_fld) simp
    with sign_extend64_scast [of "ucast (cbz_imm f) :: 19 word"] show ?thesis by simp
  qed
  have op: "cbz_op f = 0 \<or> cbz_op f = 1"
    using fld_less [of 24 24 w] one_bit by (simp add: f_def a64_CBZ_CBNZ_decode_fields_def)
  have "pc_reg s1 = (if ?skip s then ra + 4 else ra + ?off)"
    using assms(4) op unfolding off
    by (auto simp: decoded_def f_def [symmetric] Let_def a64_exec.simps branch_by_def next_pc_def split: if_splits)
  moreover obtain br where "code_seq code' p (reg_exit_seq td bb (ra + ?off) (ra + 4) br p)"
    "in_b_range (jump_b_addr bb (ra + ?off) (slot p 4)) (dispatcher_addr td)"
    "in_b_range (jump_b_addr bb (ra + 4) (slot p (4 + length (jump_seq td bb (ra + ?off) (slot p 4))))) (dispatcher_addr td)"
    "\<And>s. pc_reg s = slot p 3 \<Longrightarrow> a64_exec br s = Some (s\<lparr>pc_reg := if ?skip s
        then slot p (4 + length (jump_seq td bb (ra + ?off) (slot p 4))) else slot p 4\<rparr>)"
    using a64_branch_imm_reg_with_Ok [OF ok cbz_skips refl] by metis
  from reaches_reg_exit [OF this(1) refl this(2-4) assms(5,6)] calculation
  have "reaches code' s (dispatch_state (saved_ctx s) bb (pc_reg s1) (dispatcher_addr td))" by (simp cong: if_cong)
  with ok eq show ?thesis by auto
qed

lemma a64_tbz_exit:
  assumes "near p (dispatcher_addr td)" "0 \<le> bb" "bb < META_SIZE"
    "a64_exec (decoded A64_TBZ_TBNZ w) (s\<lparr>pc_reg := ra\<rparr>) = Some s1" "pc_reg s = p" "aligned_to 16 (sp_reg s)"
  shows "\<exists>td' code' q. a64_branch_imm_reg td bb A64_TBZ_TBNZ ra w (code, p) = Ok (td', code', q) \<and>
    reaches code' s (dispatch_state (saved_ctx s) bb (pc_reg s1) (dispatcher_addr td))"
proof -
  define f where "f = a64_TBZ_TBNZ_decode_fields w"
  let ?off = "push_bit 2 (sign_extend64 14 (ucast (tbz_imm f)))"
  let ?no = "push_bit 5 (tbz_b5 f) OR tbz_b40 f"
  let ?tbnz = "tbz_op f XOR 1 \<noteq> 0" and ?rt = "ucast (tbz_rt f) :: 5 word"
  let ?skip = "\<lambda>s. bit (xreg s ?rt) (unat ?no) = ?tbnz"
  let ?set = "\<lambda>m. m\<lparr>exit_branch_type := tbz_a64, branch_condition := ucast (tbz_op f), meta_rn := push_bit 5 ?no OR tbz_rt f\<rparr>"
  let ?put = "\<lambda>p target code. a64_tbz_tbnz_helper p ?tbnz target ?rt ?no code"
  have eq: "a64_branch_imm_reg td bb A64_TBZ_TBNZ ra w (code, p) = a64_branch_imm_reg_with td bb ra ?off ?set ?put (code, p)"
    by (simp add: a64_branch_imm_reg_def f_def Let_def)
  have "\<exists>c'. ?put p (slot p n) c = Ok c'" if "n \<le> 64" for p n c
    using that by (simp add: a64_tbz_tbnz_helper_def Let_def sint_slot four_aligned)
  then obtain td' code' q where ok: "a64_branch_imm_reg_with td bb ra ?off ?set ?put (code, p) = Ok (td', code', q)"
    using a64_branch_imm_reg_with_total [OF assms(1-3), of ?put ra ?off ?set code] by auto
  have off: "?off = push_bit 2 (scast (ucast (tbz_imm f) :: 14 word))"
  proof -
    have "unat (tbz_imm f) < 2 ^ 14"
      using fld_less [of 5 18 w] by (simp add: f_def a64_TBZ_TBNZ_decode_fields_def)
    then have "ucast (ucast (tbz_imm f) :: 14 word) = (ucast (tbz_imm f) :: uintptr)" by (intro ucast_fld) simp
    with sign_extend64_scast [of "ucast (tbz_imm f) :: 14 word"] show ?thesis by simp
  qed
  have op: "tbz_op f = 0 \<or> tbz_op f = 1"
    using fld_less [of 24 24 w] one_bit by (simp add: f_def a64_TBZ_TBNZ_decode_fields_def)
  have b: "unat (tbz_b5 f) < 2" "unat (tbz_b40 f) < 32"
    using fld_less [of 31 31 w] fld_less [of 19 23 w] by (simp_all add: f_def a64_TBZ_TBNZ_decode_fields_def)
  note no = tbz_bit_no [OF b]
  have "unat (ucast (tbz_b5 f) :: 1 word) < 2" "unat (ucast (tbz_b40 f) :: 5 word) < 32"
    using unsigned_less [of "ucast (tbz_b5 f) :: 1 word"] unsigned_less [of "ucast (tbz_b40 f) :: 5 word"] by simp_all
  then have "?no < 64" by (simp add: word_less_nat_alt no)
  have "pc_reg s1 = (if ?skip s then ra + 4 else ra + ?off)"
    using assms(4) op unfolding off no
    by (auto simp: decoded_def f_def [symmetric] Let_def a64_exec.simps branch_by_def next_pc_def split: if_splits)
  moreover obtain br where "code_seq code' p (reg_exit_seq td bb (ra + ?off) (ra + 4) br p)"
    "in_b_range (jump_b_addr bb (ra + ?off) (slot p 4)) (dispatcher_addr td)"
    "in_b_range (jump_b_addr bb (ra + 4) (slot p (4 + length (jump_seq td bb (ra + ?off) (slot p 4))))) (dispatcher_addr td)"
    "\<And>s. pc_reg s = slot p 3 \<Longrightarrow> a64_exec br s = Some (s\<lparr>pc_reg := if ?skip s
        then slot p (4 + length (jump_seq td bb (ra + ?off) (slot p 4))) else slot p 4\<rparr>)"
    using a64_branch_imm_reg_with_Ok [OF ok tbz_skips [OF \<open>?no < 64\<close>] refl] by metis
  from reaches_reg_exit [OF this(1) refl this(2-4) assms(5,6)] calculation
  have "reaches code' s (dispatch_state (saved_ctx s) bb (pc_reg s1) (dispatcher_addr td))" by (simp cong: if_cong)
  with ok eq show ?thesis by auto
qed

definition witness_state :: a64_state where
  "witness_state = \<lparr>xregs = (\<lambda>_. 0), sp_reg = 0x7000, pc_reg = 0x50010000,
     flags = \<lparr>flag_n = False, flag_z = True, flag_c = False, flag_v = False\<rparr>, mem = (\<lambda>_. 0)\<rparr>"

lemma witness_near: "near 0x50010000 (dispatcher_addr witness_thread)" "aligned_to 16 (sp_reg witness_state)"
    "pc_reg witness_state = 0x50010000"
  by code_simp+

text \<open>Loading a constant: the emitted MOVZ/MOVK sequence leaves exactly the 64-bit value in the register,
  changes nothing else and ends at the new write pointer, whatever half words are skipped.\<close>

theorem a64_copy_to_reg_64bits_loads:
  assumes "a64_copy_to_reg_64bits r v (code, p) = (code', q)" "r \<noteq> 31" "pc_reg s = p"
  shows "reaches code' s (s\<lparr>xregs := (xregs s)(unat r := v), pc_reg := q\<rparr>)"
proof -
  have eq: "(code', q) = emit_seq (mov_seq r v) (code, p)" using assms(1) by (simp add: a64_copy_to_reg_64bits_seq)
  have "length (mov_seq r v) < 2 ^ 60" using mov_seq_length(1) [of r v] by simp
  then have "code_seq code' p (mov_seq r v)"
    using emit_seq_code [of "mov_seq r v" "(code, p)"] by (simp flip: eq)
  moreover have "q = slot p (length (mov_seq r v))"
    using emit_seq_snd [of "mov_seq r v" "(code, p)"] by (simp flip: eq)
  ultimately show ?thesis using reaches_mov [OF _ assms(2,3)] by simp
qed

theorem a64_copy_to_reg_64bits_loads_witness:
  "\<exists>code' q. a64_copy_to_reg_64bits 3 0xABC00001234 (Map.empty, 0x50010000) = (code', q) \<and>
     reaches code' witness_state (witness_state\<lparr>xregs := (\<lambda>_. 0)(3 := 0xABC00001234), pc_reg := q\<rparr>)"
proof -
  obtain code' q where eq: "a64_copy_to_reg_64bits 3 0xABC00001234 (Map.empty, 0x50010000) = (code', q)" by fastforce
  then have "reaches code' witness_state (witness_state\<lparr>xregs := (xregs witness_state)(unat (3 :: 5 word) := 0xABC00001234), pc_reg := q\<rparr>)"
    by (rule a64_copy_to_reg_64bits_loads) (simp_all add: witness_state_def)
  with eq show ?thesis by (simp add: witness_state_def)
qed

text \<open>The branch helper either fails its assertion, exactly when the distance is misaligned or beyond
  128 MiB, or puts a branch at the write pointer that goes to the target (and sets the link register).\<close>

theorem a64_branch_helper_branches:
  assumes "pc_reg s = p"
  shows "if in_b_range p t
    then \<exists>code'. a64_branch_helper p t link code = Ok code' \<and>
      a64_step code' s = Some ((if link then set_xreg 30 (p + 4) s else s)\<lparr>pc_reg := t\<rparr>)
    else a64_branch_helper p t link code = Assert_Fail"
  using assms b_inst_exec [of p t s] by (auto simp: a64_branch_helper_eq a64_step_def put_inst_def)

theorem a64_branch_helper_branches_witness:
  "\<exists>code'. a64_branch_helper 0x50010000 0x50000000 False Map.empty = Ok code' \<and>
     a64_step code' witness_state = Some (witness_state\<lparr>pc_reg := 0x50000000\<rparr>)"
proof -
  have "in_b_range 0x50010000 0x50000000" by code_simp
  then show ?thesis
    using a64_branch_helper_branches [OF witness_near(3), of "0x50000000" False Map.empty] by simp
qed

text \<open>C10: The exit emitted for a compare-and-branch or test-and-branch hands the dispatcher the address at which
  the original instruction would have continued, with X0 and X1 saved below the stack pointer and the
  fragment in X1; near the dispatcher it is always emitted.\<close>

theorem a64_branch_imm_reg_exits:
  assumes "near p (dispatcher_addr td)" "0 \<le> bb" "bb < META_SIZE"
    "a64_exec (decoded inst w) (s\<lparr>pc_reg := ra\<rparr>) = Some s1" "pc_reg s = p" "aligned_to 16 (sp_reg s)"
  shows "\<exists>td' code' q. a64_branch_imm_reg td bb inst ra w (code, p) = Ok (td', code', q) \<and>
    reaches code' s (dispatch_state (saved_ctx s) bb (pc_reg s1) (dispatcher_addr td))"
  using a64_cbz_exit [OF assms(1-3) _ assms(5,6)] a64_tbz_exit [OF assms(1-3) _ assms(5,6)] assms(4)
  by (cases inst) simp_all

theorem a64_branch_imm_reg_exits_witness:
  "\<exists>td' code' q. a64_branch_imm_reg witness_thread 7 A64_CBZ_CBNZ 0x400000 0xB4000043 (Map.empty, 0x50010000) = Ok (td', code', q) \<and>
    reaches code' witness_state (dispatch_state (saved_ctx witness_state) 7 0x400008 0x50000000)"
proof -
  have ex: "Option.bind (a64_exec (decoded A64_CBZ_CBNZ 0xB4000043) (witness_state\<lparr>pc_reg := 0x400000\<rparr>)) (\<lambda>s. Some (pc_reg s)) = Some 0x400008"
    by code_simp
  then obtain s1 where s1: "a64_exec (decoded A64_CBZ_CBNZ 0xB4000043) (witness_state\<lparr>pc_reg := 0x400000\<rparr>) = Some s1" "pc_reg s1 = 0x400008"
    by (cases "a64_exec (decoded A64_CBZ_CBNZ 0xB4000043) (witness_state\<lparr>pc_reg := 0x400000\<rparr>)") auto
  show ?thesis
    using a64_branch_imm_reg_exits [OF witness_near(1) _ _ s1(1) witness_near(3,2), of 7 Map.empty] s1(2)
    by (simp add: META_SIZE_def dbm_consts) (simp add: witness_thread_def)
qed

text \<open>C23: The exit emitted for a conditional branch hands the dispatcher the taken or the next address according to
  the condition, for every condition but the two that always hold.\<close>

theorem a64_branch_jump_cond_exits:
  assumes "near p (dispatcher_addr td)" "cond \<noteq> 14" "cond \<noteq> 15" "pc_reg s = p" "aligned_to 16 (sp_reg s)"
  shows "\<exists>code' q. a64_branch_jump_cond td bb target ra cond (code, p) = Ok (code', q) \<and>
    reaches code' s (dispatch_state (saved_ctx s) bb (if cond_holds (flags s) cond then target else ra + 4) (dispatcher_addr td))"
proof -
  obtain code' q where ok: "a64_branch_jump_cond td bb target ra cond (code, p) = Ok (code', q)"
    using a64_branch_jump_cond_total [OF assms(1)] by (metis prod.collapse)
  obtain n0 n1 n2 where slots: "cond_exit_slots bb target ra = (n0, n1, n2)" by (metis prod_cases3)
  obtain bcond where b: "code_seq code' p (cond_exit_seq td bb target ra bcond p)"
      "in_b_range (slot p n1) (dispatcher_addr td)" "in_b_range (slot p n2) (dispatcher_addr td)"
      "\<And>s. pc_reg s = slot p n0 \<Longrightarrow> a64_exec bcond s = Some (s\<lparr>pc_reg :=
         if cond_holds (flags s) (invert_cond cond) then slot p (n1 + 1) else slot p (n0 + 1)\<rparr>)"
    using a64_branch_jump_cond_Ok [OF ok slots] by metis
  have fl: "cond_holds (flags ((saved_ctx s)\<lparr>xregs := r, pc_reg := q\<rparr>)) (invert_cond cond) = cond_holds (flags s) (invert_cond cond)" for r q
    by (simp add: saved_ctx_def)
  from reaches_cond_exit [OF b(1) slots b(2-4) fl assms(4,5)]
  have "reaches code' s (dispatch_state (saved_ctx s) bb (if cond_holds (flags s) cond then target else ra + 4) (dispatcher_addr td))"
    using cond_holds_invert [OF assms(2,3), of "flags s"] by (simp split: if_splits)
  with ok show ?thesis by blast
qed

theorem a64_branch_jump_cond_exits_witness:
  "\<exists>code' q. a64_branch_jump_cond witness_thread 7 0x400100 0x400000 0 (Map.empty, 0x50010000) = Ok (code', q) \<and>
    reaches code' witness_state (dispatch_state (saved_ctx witness_state) 7 0x400100 0x50000000)"
proof -
  have "cond_holds (flags witness_state) 0" by code_simp
  then show ?thesis
    using a64_branch_jump_cond_exits [OF witness_near(1), of 0 witness_state 7 "0x400100" "0x400000" Map.empty] witness_near(2,3)
    by (simp add: witness_thread_def)
qed

text \<open>C24: For the condition AL the exit is wrong: inverting its low bit gives the other always-true condition, so
  the always-taken branch is translated to one that continues at the next instruction.\<close>

theorem a64_branch_jump_cond_always:
  assumes "near p (dispatcher_addr td)" "pc_reg s = p" "aligned_to 16 (sp_reg s)"
  shows "cond_holds (flags s) 14 \<and> (\<exists>code' q. a64_branch_jump_cond td bb target ra 14 (code, p) = Ok (code', q) \<and>
    reaches code' s (dispatch_state (saved_ctx s) bb (ra + 4) (dispatcher_addr td)))"
proof -
  obtain code' q where ok: "a64_branch_jump_cond td bb target ra 14 (code, p) = Ok (code', q)"
    using a64_branch_jump_cond_total [OF assms(1)] by (metis prod.collapse)
  obtain n0 n1 n2 where slots: "cond_exit_slots bb target ra = (n0, n1, n2)" by (metis prod_cases3)
  obtain bcond where b: "code_seq code' p (cond_exit_seq td bb target ra bcond p)"
      "in_b_range (slot p n1) (dispatcher_addr td)" "in_b_range (slot p n2) (dispatcher_addr td)"
      "\<And>s. pc_reg s = slot p n0 \<Longrightarrow> a64_exec bcond s = Some (s\<lparr>pc_reg :=
         if cond_holds (flags s) (invert_cond 14) then slot p (n1 + 1) else slot p (n0 + 1)\<rparr>)"
    using a64_branch_jump_cond_Ok [OF ok slots] by metis
  have "drop_bit 1 (15 :: 4 word) = 7" "drop_bit 1 (14 :: 4 word) = 7" "bit (14 :: 4 word) 0 = False" "invert_cond 14 = (15 :: 4 word)"
    by code_simp+
  then have always: "cond_holds f (invert_cond 14)" "cond_holds f 14" for f
    by (simp_all add: cond_holds_def base_cond_def)
  have fl: "cond_holds (flags ((saved_ctx s)\<lparr>xregs := r, pc_reg := q\<rparr>)) (invert_cond 14) = True" for r q
    using always by simp
  from reaches_cond_exit [OF b(1) slots b(2-4) fl assms(2,3)]
  have "reaches code' s (dispatch_state (saved_ctx s) bb (ra + 4) (dispatcher_addr td))" by simp
  with ok always show ?thesis by blast
qed

theorem a64_branch_jump_cond_always_witness:
  "\<exists>code' q. a64_branch_jump_cond witness_thread 7 0x400100 0x400000 14 (Map.empty, 0x50010000) = Ok (code', q) \<and>
    reaches code' witness_state (dispatch_state (saved_ctx witness_state) 7 0x400004 0x50000000)"
  using a64_branch_jump_cond_always [OF witness_near(1,3,2), of 7 "0x400100" "0x400000" Map.empty]
  by (simp add: witness_thread_def)

text \<open>The range test of the compare-and-branch helper never rejects: for an aligned target beyond the
  instruction's reach it reports success and puts a branch that goes elsewhere.\<close>

theorem a64_cbz_cbnz_helper_out_of_range:
  assumes "sint (t - p) AND 3 = 0" "MB \<le> sint (t - p) \<or> sint (t - p) < - MB" "pc_reg s = p" "xreg s rt = 0"
  shows "\<exists>code' s'. a64_cbz_cbnz_helper p False t 1 rt code = (0, code') \<and> a64_step code' s = Some s' \<and> pc_reg s' \<noteq> t"
proof -
  let ?d = "sint (t - p)"
  define w where "w = (word_of_int (drop_bit 2 ?d) :: 19 word)"
  have h: "a64_cbz_cbnz_helper p False t 1 rt code = (0, put_inst p (a64_CBZ_CBNZ 1 0 w rt) code)"
    using assms(1) by (simp add: a64_cbz_cbnz_helper_def Let_def MB_def w_def)
  have step: "a64_step (put_inst p (a64_CBZ_CBNZ 1 0 w rt) code) s = Some (branch_by (push_bit 2 (scast w)) s)"
    using assms(3,4) by (simp add: a64_step_def put_inst_def a64_exec.simps)
  have "push_bit 2 (scast w) \<noteq> t - p"
  proof
    assume eq: "push_bit 2 (scast w) = t - p"
    have r: "- (2 ^ 18) \<le> sint w" "sint w < 2 ^ 18"
      using sint_greater_eq [of w] sint_less [of w] by simp_all
    have "t - p = word_of_int (4 * sint w)"
      using eq by (simp add: push_bit_eq_mult mult.commute)
    then have "?d = signed_take_bit 63 (4 * sint w)" by (simp only: signed_of_int) simp
    also have "\<dots> = 4 * sint w" using r by (simp add: signed_take_bit_int_eq_self)
    finally show False using assms(2) r by (simp add: MB_def)
  qed
  then have "pc_reg (branch_by (push_bit 2 (scast w)) s) \<noteq> t"
    using assms(3) by (simp add: branch_by_def) (metis add_diff_cancel_left')
  with h step show ?thesis by blast
qed

theorem a64_cbz_cbnz_helper_out_of_range_witness:
  "\<exists>code' s'. a64_cbz_cbnz_helper 0x50010000 False 0x50110000 1 5 Map.empty = (0, code') \<and>
     a64_step code' witness_state = Some s' \<and> pc_reg s' \<noteq> 0x50110000"
proof -
  have "sint (0x50110000 - 0x50010000 :: uintptr) AND 3 = 0" "MB \<le> sint (0x50110000 - 0x50010000 :: uintptr)"
    by code_simp+
  then show ?thesis
    using a64_cbz_cbnz_helper_out_of_range [of "0x50110000" "0x50010000" witness_state 5 Map.empty] witness_near(3)
    by (simp add: xreg_def witness_state_def)
qed

end
