(* ===== verification/A64_Dispatch.thy ===== *)
theory A64_Dispatch
  imports A64_Emit Code_Cache
begin

text \<open>
  Direct linking on AArch64 (\<open>arch/aarch64/dispatcher_aarch64.c\<close> and \<open>a64_cc_branch\<close> of \<open>scanner_a64.c\<close>): once the
  dispatcher has found the code for a branch target, it overwrites the reserved slots of the source block's exit with
  branches that go there directly.
\<close>

section \<open>Operations\<close>

definition a64_cc_branch ::
    "uintptr \<Rightarrow> uintptr \<Rightarrow> 'a dbm_thread_scheme \<times> a64_code \<Rightarrow> ('a dbm_thread_scheme \<times> a64_code) res" where
  "a64_cc_branch write_p target = (\<lambda>(t, code).
     res_bind (a64_b_helper write_p target code) (\<lambda>code.
     res_bind (record_cc_link t write_p target) (\<lambda>t. Ok (t, code))))"

text \<open>The inserted branch skips the next slot when the condition holds.\<close>

definition insert_cond_exit_branch :: "dbm_code_cache_meta \<Rightarrow> u32 \<Rightarrow> a64_out \<Rightarrow> a64_out res" where
  "insert_cond_exit_branch bb_meta cond w =
     (let write_p = snd w; rn = meta_rn bb_meta in
      case exit_branch_type bb_meta of
        uncond_imm_a64 \<Rightarrow> Ok w
      | cond_imm_a64 \<Rightarrow> then_advance (\<lambda>p. a64_b_cond_helper p (write_p + 8) (ucast cond)) w
      | cbz_a64 \<Rightarrow> then_advance (\<lambda>p code.
          Ok (snd (a64_cbz_cbnz_helper p (cond \<noteq> 0) (write_p + 8) (ucast (drop_bit 5 rn)) (ucast (rn AND 0x1F)) code))) w
      | tbz_a64 \<Rightarrow> then_advance (\<lambda>p. a64_tbz_tbnz_helper p (cond \<noteq> 0) (write_p + 8) (ucast (rn AND 0x1F)) (drop_bit 5 rn)) w
      | _ \<Rightarrow> Spin)"

definition or_status :: "uintptr \<Rightarrow> dbm_code_cache_meta \<Rightarrow> dbm_code_cache_meta" where
  "or_status st m = m\<lparr>branch_cache_status := branch_cache_status m OR st\<rparr>"

text \<open>The case for conditional exits: the first link, and the link of the remaining direction.\<close>

definition link_first ::
    "int \<Rightarrow> uintptr \<Rightarrow> uintptr \<Rightarrow> dbm_code_cache_meta \<Rightarrow> 'a dbm_thread_scheme \<Rightarrow> a64_code \<Rightarrow> ('a dbm_thread_scheme \<times> a64_code) res" where
  "link_first source_index target block_address m t code =
     (let is_taken = (target = branch_taken_addr m) in
      res_bind (cc_lookup AArch64 t (if is_taken then branch_skipped_addr m else branch_taken_addr m)) (\<lambda>other_target.
      let cond = ucast (branch_condition m) :: u32;
          cond = (if is_taken then invert_cond cond else cond) in
      res_bind (insert_cond_exit_branch m cond (code, exit_branch_addr m)) (\<lambda>(code, branch_addr).
      res_bind (meta_upd t source_index (\<lambda>m. m\<lparr>branch_cache_status := (if is_taken then BRANCH_LINKED else FALLTHROUGH_LINKED)\<rparr>)) (\<lambda>t.
      res_bind (a64_cc_branch branch_addr (block_address + 4) (t, code)) (\<lambda>(t, code).
      if other_target \<noteq> UINT_MAX then
        res_bind (a64_cc_branch (branch_addr + 4) (other_target + 4) (t, code)) (\<lambda>(t, code).
        res_bind (meta_upd t source_index (or_status BOTH_LINKED)) (\<lambda>t. Ok (t, code)))
      else Ok (t, code))))))"

definition link_second ::
    "int \<Rightarrow> uintptr \<Rightarrow> dbm_code_cache_meta \<Rightarrow> 'a dbm_thread_scheme \<Rightarrow> a64_code \<Rightarrow> ('a dbm_thread_scheme \<times> a64_code) res" where
  "link_second source_index block_address m t code =
     res_bind (meta_upd t source_index (or_status BOTH_LINKED)) (\<lambda>t.
     a64_cc_branch (exit_branch_addr m + 8) (block_address + 4) (t, code))"

definition dispatcher_aarch64 ::
    "'a dbm_thread_scheme \<Rightarrow> int \<Rightarrow> branch_type \<Rightarrow> uintptr \<Rightarrow> uintptr \<Rightarrow> a64_code \<Rightarrow> ('a dbm_thread_scheme \<times> a64_code) res" where
  "dispatcher_aarch64 t source_index exit_type target block_address code =
     (if exit_type = uncond_imm_a64 then
        res_bind (meta_get t source_index) (\<lambda>m.
        res_bind (a64_cc_branch (exit_branch_addr m) (block_address + 4) (t, code)) (\<lambda>(t, code).
        res_bind (meta_upd t source_index (\<lambda>m. m\<lparr>branch_cache_status := BRANCH_LINKED\<rparr>)) (\<lambda>t. Ok (t, code))))
      else if exit_type = cond_imm_a64 \<or> exit_type = cbz_a64 \<or> exit_type = tbz_a64 then
        res_bind (meta_get t source_index) (\<lambda>m.
          if branch_cache_status m = 0 then link_first source_index target block_address m t code
          else link_second source_index block_address m t code)
      else Ok (t, code))"

section \<open>What is inserted\<close>

text \<open>When the exit that is described by the metadata is taken in a machine state.\<close>

definition exit_taken :: "dbm_code_cache_meta \<Rightarrow> a64_state \<Rightarrow> bool" where
  "exit_taken m s =
     (case exit_branch_type m of
        cond_imm_a64 \<Rightarrow> cond_holds (flags s) (ucast (branch_condition m))
      | cbz_a64 \<Rightarrow> (if (ucast (drop_bit 5 (meta_rn m)) :: 1 word) = 1 then xreg s (ucast (meta_rn m AND 0x1F)) = 0
                    else (ucast (xreg s (ucast (meta_rn m AND 0x1F))) :: u32) = 0) = (branch_condition m = 0)
      | tbz_a64 \<Rightarrow> bit (xreg s (ucast (meta_rn m AND 0x1F))) (unat (drop_bit 5 (meta_rn m))) = (branch_condition m \<noteq> 0)
      | _ \<Rightarrow> True)"

text \<open>The exits that the scanner records: the condition of B.cond is one of 0 to 13, the others have a one-bit operation.\<close>

definition cond_exit :: "dbm_code_cache_meta \<Rightarrow> bool" where
  "cond_exit m \<longleftrightarrow> exit_branch_type m = cond_imm_a64 \<and> branch_condition m < 14
     \<or> exit_branch_type m = cbz_a64 \<and> branch_condition m < 2
     \<or> exit_branch_type m = tbz_a64 \<and> branch_condition m < 2 \<and> meta_rn m < 2048"

lemma two_values: "w < 2 \<Longrightarrow> w = 0 \<or> w = 1" for w :: uintptr
  by (simp add: word_less_nat_alt) (metis One_nat_def less_2_cases_iff unat_1 unat_eq_zero word_unat_eq_iff)

text \<open>\<open>i\<close> skips one slot in the states that satisfy \<open>P\<close>.\<close>

definition skip_inst :: "uintptr \<Rightarrow> (a64_state \<Rightarrow> bool) \<Rightarrow> a64_inst \<Rightarrow> bool" where
  "skip_inst p P i \<longleftrightarrow> (\<forall>s. pc_reg s = p \<longrightarrow> a64_exec i s = Some (s\<lparr>pc_reg := if P s then p + 8 else p + 4\<rparr>))"

lemma slot_2: "slot p 2 = p + 8"
  by (simp add: slot_def)

lemma skips_when_inst:
  assumes "skips_when f P" "f p (p + 8) code = Ok code'"
  obtains i where "code' = put_inst p i code" "skip_inst p P i"
proof -
  have "f p (slot p 2) code = Ok code'" using assms(2) by (simp add: slot_2)
  then have "\<exists>i. code' = put_inst p i code \<and>
      (\<forall>s. pc_reg s = p \<longrightarrow> a64_exec i s = Some (s\<lparr>pc_reg := if P s then slot p 2 else p + 4\<rparr>))"
    using assms(1) [unfolded skips_when_def, rule_format, of 2 p code code'] by simp
  then show thesis using that by (auto simp: skip_inst_def slot_2)
qed

lemma insert_cond:
  assumes "branch_condition m < 14" "exit_branch_type m = cond_imm_a64"
  obtains i where "insert_cond_exit_branch m (if tk then invert_cond (ucast (branch_condition m)) else ucast (branch_condition m)) (code, p)
      = Ok (put_inst p i code, p + 4)" "skip_inst p (\<lambda>s. exit_taken m s \<noteq> tk) i"
proof -
  let ?c = "ucast (branch_condition m) :: 4 word"
  let ?d = "ucast (if tk then invert_cond (ucast (branch_condition m)) else ucast (branch_condition m) :: u32) :: 4 word"
  have bc: "unat (branch_condition m) < 14" using assms(1) by (simp add: word_less_nat_alt)
  then have "unat ?c = unat (branch_condition m)" by (simp add: unsigned_ucast_eq take_bit_nat_eq_self)
  then have c: "?c \<noteq> 14" "?c \<noteq> 15" using bc by auto
  have d: "?d = (if tk then invert_cond ?c else ?c)"
    by (intro bit_word_eqI) (auto simp: invert_cond_def bit_simps)
  obtain code' where ok: "a64_b_cond_helper p (p + 8) ?d code = Ok code'"
    using in_b_cond_range [of 2 p ?d code] by (auto simp: slot_2)
  from a64_b_cond_helper_exec [OF this] obtain i where i: "code' = put_inst p i code"
    "\<And>s. pc_reg s = p \<Longrightarrow> a64_exec i s = Some (s\<lparr>pc_reg := if cond_holds (flags s) ?d then p + 8 else p + 4\<rparr>)" by metis
  have "cond_holds f ?d = (cond_holds f ?c \<noteq> tk)" for f
    using cond_holds_invert [OF c, of f] by (simp add: d)
  then have "skip_inst p (\<lambda>s. exit_taken m s \<noteq> tk) i"
    using i(2) assms(2) by (simp add: skip_inst_def exit_taken_def)
  moreover have "insert_cond_exit_branch m (if tk then invert_cond (ucast (branch_condition m)) else ucast (branch_condition m)) (code, p)
      = Ok (put_inst p i code, p + 4)"
    using ok i(1) assms(2) by (simp add: insert_cond_exit_branch_def then_advance_def)
  ultimately show thesis by (rule that [rotated])
qed

lemma one_bit_cond:
  fixes w :: uintptr
  assumes "w < 2"
  shows "((if tk then invert_cond (ucast w) else ucast w :: u32) \<noteq> 0) = ((w \<noteq> 0) \<noteq> tk)"
  using two_values [OF assms] by (auto simp: invert_cond_def)

lemma insert_cbz:
  assumes "branch_condition m < 2" "exit_branch_type m = cbz_a64"
  obtains i where "insert_cond_exit_branch m (if tk then invert_cond (ucast (branch_condition m)) else ucast (branch_condition m)) (code, p)
      = Ok (put_inst p i code, p + 4)" "skip_inst p (\<lambda>s. exit_taken m s \<noteq> tk) i"
proof -
  let ?f = "\<lambda>p target code. Ok (snd (a64_cbz_cbnz_helper p ((branch_condition m \<noteq> 0) \<noteq> tk) target
      (ucast (drop_bit 5 (meta_rn m))) (ucast (meta_rn m AND 0x1F)) code))"
  obtain i where i: "snd (a64_cbz_cbnz_helper p ((branch_condition m \<noteq> 0) \<noteq> tk) (p + 8) (ucast (drop_bit 5 (meta_rn m)))
      (ucast (meta_rn m AND 0x1F)) code) = put_inst p i code"
    "skip_inst p (\<lambda>s. (if (ucast (drop_bit 5 (meta_rn m)) :: 1 word) = 1 then xreg s (ucast (meta_rn m AND 0x1F)) = 0
        else (ucast (xreg s (ucast (meta_rn m AND 0x1F))) :: u32) = 0) = (\<not> ((branch_condition m \<noteq> 0) \<noteq> tk))) i"
    by (rule skips_when_inst [of ?f, OF cbz_skips]) auto
  show thesis
  proof (rule that)
    show "insert_cond_exit_branch m (if tk then invert_cond (ucast (branch_condition m)) else ucast (branch_condition m)) (code, p)
        = Ok (put_inst p i code, p + 4)"
      using i(1) one_bit_cond [OF assms(1), of tk] assms(2)
      by (simp add: insert_cond_exit_branch_def then_advance_def)
    show "skip_inst p (\<lambda>s. exit_taken m s \<noteq> tk) i"
      using i(2) assms(2) by (simp add: skip_inst_def exit_taken_def) blast
  qed
qed

lemma insert_tbz:
  assumes "branch_condition m < 2" "exit_branch_type m = tbz_a64" "meta_rn m < 2048"
  obtains i where "insert_cond_exit_branch m (if tk then invert_cond (ucast (branch_condition m)) else ucast (branch_condition m)) (code, p)
      = Ok (put_inst p i code, p + 4)" "skip_inst p (\<lambda>s. exit_taken m s \<noteq> tk) i"
proof -
  let ?n = "drop_bit 5 (meta_rn m)"
  have n: "?n < 64"
    using assms(3) by (simp add: word_less_nat_alt drop_bit_eq_div unat_div_distrib)
  obtain code' where ok: "a64_tbz_tbnz_helper p ((branch_condition m \<noteq> 0) \<noteq> tk) (p + 8) (ucast (meta_rn m AND 0x1F)) ?n code = Ok code'"
    by (simp add: a64_tbz_tbnz_helper_def Let_def)
  from skips_when_inst [of "\<lambda>p target code. a64_tbz_tbnz_helper p ((branch_condition m \<noteq> 0) \<noteq> tk) target (ucast (meta_rn m AND 0x1F)) ?n code",
      OF tbz_skips [OF n] ok]
  obtain i where i: "code' = put_inst p i code"
    "skip_inst p (\<lambda>s. bit (xreg s (ucast (meta_rn m AND 0x1F))) (unat ?n) = ((branch_condition m \<noteq> 0) \<noteq> tk)) i"
    by metis
  show thesis
  proof (rule that)
    show "insert_cond_exit_branch m (if tk then invert_cond (ucast (branch_condition m)) else ucast (branch_condition m)) (code, p)
        = Ok (put_inst p i code, p + 4)"
      using ok i(1) one_bit_cond [OF assms(1), of tk] assms(2)
      by (simp add: insert_cond_exit_branch_def then_advance_def)
    show "skip_inst p (\<lambda>s. exit_taken m s \<noteq> tk) i"
      using i(2) assms(2) by (simp add: skip_inst_def exit_taken_def) blast
  qed
qed

lemma insert_cond_exit_branch_skips:
  assumes "cond_exit m"
  obtains i where "insert_cond_exit_branch m (if tk then invert_cond (ucast (branch_condition m)) else ucast (branch_condition m)) (code, p)
      = Ok (put_inst p i code, p + 4)" "skip_inst p (\<lambda>s. exit_taken m s \<noteq> tk) i"
  using assms insert_cond insert_cbz insert_tbz unfolding cond_exit_def by metis

section \<open>Linking\<close>

text \<open>Recording a link changes the link chains only.\<close>

lemma record_cc_link_meta:
  assumes "record_cc_link t a b = Ok t'"
  obtains l where "code_cache_meta t' i = (code_cache_meta t i)\<lparr>linked_from := l\<rparr>"
proof -
  have same: "\<exists>l. m = m\<lparr>linked_from := l\<rparr>" for m :: dbm_code_cache_meta
    by (intro exI [of _ "linked_from m"]) simp
  have "code_cache_meta t' i = code_cache_meta t i \<or> (\<exists>l. code_cache_meta t' i = (code_cache_meta t i)\<lparr>linked_from := Some l\<rparr>)"
    using assms by (auto simp: record_cc_link_def Let_def res_bind_eq_Ok meta_upd_def split: if_splits option.splits)
  then have "\<exists>l. code_cache_meta t' i = (code_cache_meta t i)\<lparr>linked_from := l\<rparr>"
    using same by metis
  then show thesis using that by blast
qed

lemma a64_cc_branch_Ok:
  assumes "a64_cc_branch p target (t, code) = Ok (t', code')"
  shows "in_b_range p target" "code' = put_inst p (b_inst p target False) code" "record_cc_link t p target = Ok t'"
  using assms by (auto simp: a64_cc_branch_def a64_b_helper_def a64_branch_helper_eq res_bind_eq_Ok split: if_splits)

lemma reaches_b:
  assumes "in_b_range p target" "code p = Some (b_inst p target False)" "pc_reg s = p"
  shows "reaches code s (s\<lparr>pc_reg := target\<rparr>)"
  using assms b_inst_exec(1) [OF assms(1,3)] by (intro reaches_one) auto

lemma reaches_skip:
  assumes "skip_inst p P i" "code p = Some i" "pc_reg s = p"
  shows "reaches code s (s\<lparr>pc_reg := if P s then p + 8 else p + 4\<rparr>)"
  using assms by (intro reaches_one) (auto simp: skip_inst_def)

lemma slots_neq: "p \<noteq> p + 4" "p \<noteq> p + 8" "p + 4 \<noteq> p + 8" "p + 4 + 4 = p + 8" for p :: uintptr
  by simp_all

text \<open>What the exit code at \<open>p\<close> does: directions without a link fall into the rest of the exit, at \<open>p + 8\<close>.\<close>

definition exit_linked :: "dbm_code_cache_meta \<Rightarrow> a64_code \<Rightarrow> (bool \<Rightarrow> uintptr option) \<Rightarrow> bool" where
  "exit_linked m code dest \<longleftrightarrow> (\<forall>s. pc_reg s = exit_branch_addr m \<longrightarrow>
     reaches code s (s\<lparr>pc_reg := (case dest (exit_taken m s) of Some a \<Rightarrow> a | None \<Rightarrow> exit_branch_addr m + 8)\<rparr>))"

lemma exit_linkedI:
  assumes skip: "skip_inst p (\<lambda>s. exit_taken m s \<noteq> tk) i" and p: "p = exit_branch_addr m"
    and code: "code p = Some i" "code (p + 4) = Some (b_inst (p + 4) a False)" "in_b_range (p + 4) a"
    and other: "case b of None \<Rightarrow> True | Some b' \<Rightarrow> in_b_range (p + 8) b' \<and> code (p + 8) = Some (b_inst (p + 8) b' False)"
  shows "exit_linked m code (\<lambda>d. if d = tk then Some a else b)"
  unfolding exit_linked_def
proof (intro allI impI)
  fix s :: a64_state assume s: "pc_reg s = exit_branch_addr m"
  have st: "reaches code s (s\<lparr>pc_reg := if exit_taken m s \<noteq> tk then p + 8 else p + 4\<rparr>)"
    using reaches_skip [where P = "\<lambda>s. exit_taken m s \<noteq> tk" and code = code and s = s, OF skip code(1)] s p by simp
  show "reaches code s (s\<lparr>pc_reg := case if exit_taken m s = tk then Some a else b of None \<Rightarrow> exit_branch_addr m + 8 | Some a \<Rightarrow> a\<rparr>)"
  proof (cases "exit_taken m s = tk")
    case True
    have "reaches code s (s\<lparr>pc_reg := p + 4\<rparr>)" using st True by simp
    also have "reaches code (s\<lparr>pc_reg := p + 4\<rparr>) ((s\<lparr>pc_reg := p + 4\<rparr>)\<lparr>pc_reg := a\<rparr>)"
      using code(2,3) by (intro reaches_b) auto
    finally show ?thesis using True by simp
  next
    case False
    show ?thesis
    proof (cases b)
      case None
      then show ?thesis using st False p by simp
    next
      case (Some b')
      have "reaches code s (s\<lparr>pc_reg := p + 8\<rparr>)" using st False by simp
      also have "reaches code (s\<lparr>pc_reg := p + 8\<rparr>) ((s\<lparr>pc_reg := p + 8\<rparr>)\<lparr>pc_reg := b'\<rparr>)"
        using other Some by (intro reaches_b) auto
      finally show ?thesis using False Some by simp
    qed
  qed
qed

lemma dispatcher_cond:
  assumes "cond_exit (code_cache_meta t si)" "0 \<le> si" "si < META_SIZE"
  shows "dispatcher_aarch64 t si (exit_branch_type (code_cache_meta t si)) target ba code =
    (if branch_cache_status (code_cache_meta t si) = 0 then link_first si target ba (code_cache_meta t si) t code
     else link_second si ba (code_cache_meta t si) t code)"
  using assms by (auto simp: dispatcher_aarch64_def cond_exit_def)

text \<open>Where the other direction is linked to: its code, when the table has it.\<close>

definition known_target :: "'a dbm_thread_scheme \<Rightarrow> uintptr \<Rightarrow> uintptr option" where
  "known_target t spc = (case cc_lookup AArch64 t spc of Ok a \<Rightarrow> if a = UINT_MAX then None else Some (a + 4) | _ \<Rightarrow> None)"

lemma cond_exit_frame:
  "cond_exit (m\<lparr>linked_from := l, branch_cache_status := st\<rparr>) = cond_exit m"
  "exit_taken (m\<lparr>linked_from := l, branch_cache_status := st\<rparr>) = exit_taken m"
  by (cases "exit_branch_type m"; simp add: cond_exit_def exit_taken_def fun_eq_iff)+

text \<open>The code and the metadata after the first link.\<close>

definition first_link :: "dbm_code_cache_meta \<Rightarrow> bool \<Rightarrow> uintptr \<Rightarrow> uintptr option \<Rightarrow> a64_code \<Rightarrow> a64_code \<Rightarrow> bool" where
  "first_link m tk a b code code' \<longleftrightarrow> (\<exists>i. skip_inst (exit_branch_addr m) (\<lambda>s. exit_taken m s \<noteq> tk) i \<and>
     in_b_range (exit_branch_addr m + 4) a \<and> code' = (let c = put_inst (exit_branch_addr m + 4) (b_inst (exit_branch_addr m + 4) a False)
         (put_inst (exit_branch_addr m) i code) in
       case b of None \<Rightarrow> c | Some b' \<Rightarrow> put_inst (exit_branch_addr m + 8) (b_inst (exit_branch_addr m + 8) b' False) c) \<and>
     (case b of None \<Rightarrow> True | Some b' \<Rightarrow> in_b_range (exit_branch_addr m + 8) b'))"

lemma link_first_Ok:
  assumes ex: "cond_exit m" and m: "m = code_cache_meta t si" and si: "0 \<le> si" "si < META_SIZE"
    and ok: "link_first si target ba m t code = Ok (t', code')" and tk: "tk = (target = branch_taken_addr m)"
  shows "first_link m tk (ba + 4) (known_target t (if tk then branch_skipped_addr m else branch_taken_addr m)) code code'"
    "\<exists>l st. code_cache_meta t' si = m\<lparr>linked_from := l, branch_cache_status := st\<rparr> \<and> st \<noteq> 0"
proof -
  let ?p = "exit_branch_addr m" and ?st = "if tk then BRANCH_LINKED else FALLTHROUGH_LINKED"
  obtain i where i: "insert_cond_exit_branch m (if tk then invert_cond (ucast (branch_condition m)) else ucast (branch_condition m)) (code, ?p)
      = Ok (put_inst ?p i code, ?p + 4)" "skip_inst ?p (\<lambda>s. exit_taken m s \<noteq> tk) i"
    using insert_cond_exit_branch_skips [OF ex] by metis
  define t1 where "t1 = t\<lparr>code_cache_meta := (code_cache_meta t)(si := m\<lparr>branch_cache_status := ?st\<rparr>)\<rparr>"
  obtain ot where ot: "cc_lookup AArch64 t (if tk then branch_skipped_addr m else branch_taken_addr m) = Ok ot"
    using ok tk by (auto simp: link_first_def Let_def res_bind_eq_Ok)
  obtain t2 code2 where c2: "a64_cc_branch (?p + 4) (ba + 4) (t1, put_inst ?p i code) = Ok (t2, code2)"
    and rest: "(if ot \<noteq> UINT_MAX then
        res_bind (a64_cc_branch (?p + 4 + 4) (ot + 4) (t2, code2)) (\<lambda>(t, code).
        res_bind (meta_upd t si (or_status BOTH_LINKED)) (\<lambda>t. Ok (t, code)))
      else Ok (t2, code2)) = Ok (t', code')"
    using ok ot i(1) si unfolding link_first_def Let_def tk [symmetric]
    by (auto simp: res_bind_eq_Ok t1_def m [symmetric] simp flip: m)
  have "?p + 4 + 4 = ?p + 8" by simp
  note rest = rest [unfolded this]
  note b2 = a64_cc_branch_Ok [OF c2]
  obtain l2 where l2: "code_cache_meta t2 si = (code_cache_meta t1 si)\<lparr>linked_from := l2\<rparr>"
    using record_cc_link_meta [OF b2(3)] .
  have st: "?st \<noteq> 0" "?st OR BOTH_LINKED \<noteq> 0"
    by (auto simp: BRANCH_LINKED_def FALLTHROUGH_LINKED_def BOTH_LINKED_def)
  show "first_link m tk (ba + 4) (known_target t (if tk then branch_skipped_addr m else branch_taken_addr m)) code code'"
  proof (cases "ot = UINT_MAX")
    case True
    then show ?thesis using rest b2(1,2) i(2) ot by (auto simp: first_link_def known_target_def)
  next
    case False
    then obtain t3 code3 where "a64_cc_branch (?p + 8) (ot + 4) (t2, code2) = Ok (t3, code3)" "code' = code3"
      using rest by (auto simp: res_bind_eq_Ok)
    then show ?thesis
      using a64_cc_branch_Ok [of "?p + 8" "ot + 4" t2 code2 t3 code3] False b2(1,2) i(2) ot
      by (auto simp: first_link_def known_target_def)
  qed
  show "\<exists>l st. code_cache_meta t' si = m\<lparr>linked_from := l, branch_cache_status := st\<rparr> \<and> st \<noteq> 0"
  proof (cases "ot = UINT_MAX")
    case True
    then have "t' = t2" using rest by simp
    then show ?thesis using l2 st(1) by (intro exI [of _ l2] exI [of _ ?st]) (simp add: t1_def)
  next
    case False
    then obtain t3 code3 where c3: "a64_cc_branch (?p + 8) (ot + 4) (t2, code2) = Ok (t3, code3)"
      "meta_upd t3 si (or_status BOTH_LINKED) = Ok t'"
      using rest by (auto simp: res_bind_eq_Ok)
    obtain l3 where "code_cache_meta t3 si = (code_cache_meta t2 si)\<lparr>linked_from := l3\<rparr>"
      using record_cc_link_meta [OF a64_cc_branch_Ok(3) [OF c3(1)]] .
    then show ?thesis
      using c3(2) l2 st(2) si by (intro exI [of _ l3] exI [of _ "?st OR BOTH_LINKED"]) (auto simp: t1_def or_status_def)
  qed
qed

lemma first_link_linked:
  assumes "first_link m tk a b code code'"
  shows "exit_linked m code' (\<lambda>d. if d = tk then Some a else b)"
    and "x \<notin> {exit_branch_addr m, exit_branch_addr m + 4, exit_branch_addr m + 8} \<Longrightarrow> code' x = code x"
    and "b = None \<Longrightarrow> code' (exit_branch_addr m + 8) = code (exit_branch_addr m + 8)"
proof -
  obtain i where i: "skip_inst (exit_branch_addr m) (\<lambda>s. exit_taken m s \<noteq> tk) i" "in_b_range (exit_branch_addr m + 4) a"
    "code' = (let c = put_inst (exit_branch_addr m + 4) (b_inst (exit_branch_addr m + 4) a False)
         (put_inst (exit_branch_addr m) i code) in
       case b of None \<Rightarrow> c | Some b' \<Rightarrow> put_inst (exit_branch_addr m + 8) (b_inst (exit_branch_addr m + 8) b' False) c)"
    "case b of None \<Rightarrow> True | Some b' \<Rightarrow> in_b_range (exit_branch_addr m + 8) b'"
    using assms unfolding first_link_def by blast
  show "exit_linked m code' (\<lambda>d. if d = tk then Some a else b)"
    by (rule exit_linkedI [OF i(1) refl]) (use i(2-4) in \<open>auto simp: put_inst_def Let_def split: option.splits\<close>)
  show "x \<notin> {exit_branch_addr m, exit_branch_addr m + 4, exit_branch_addr m + 8} \<Longrightarrow> code' x = code x"
    "b = None \<Longrightarrow> code' (exit_branch_addr m + 8) = code (exit_branch_addr m + 8)"
    using i(3) by (auto simp: put_inst_def Let_def split: option.splits)
qed

lemma link_second_linked:
  assumes "first_link m tk a b code code1" "link_second si ba m' t code1 = Ok (t', code2)" "exit_branch_addr m' = exit_branch_addr m"
    "0 \<le> si" "si < META_SIZE"
  shows "exit_linked m code2 (\<lambda>d. Some (if d = tk then a else ba + 4))"
proof -
  obtain t1 where "a64_cc_branch (exit_branch_addr m + 8) (ba + 4) (t1, code1) = Ok (t', code2)"
    using assms(2-5) by (auto simp: link_second_def res_bind_eq_Ok)
  note b = a64_cc_branch_Ok [OF this]
  obtain i where i: "skip_inst (exit_branch_addr m) (\<lambda>s. exit_taken m s \<noteq> tk) i" "in_b_range (exit_branch_addr m + 4) a"
    "code1 (exit_branch_addr m) = Some i" "code1 (exit_branch_addr m + 4) = Some (b_inst (exit_branch_addr m + 4) a False)"
    using assms(1) unfolding first_link_def by (auto simp: put_inst_def Let_def split: option.splits)
  have "exit_linked m code2 (\<lambda>d. if d = tk then Some a else Some (ba + 4))"
    by (rule exit_linkedI [OF i(1) refl]) (use i(2-4) b in \<open>auto simp: put_inst_def\<close>)
  moreover have "(\<lambda>d. if d = tk then Some a else Some (ba + 4)) = (\<lambda>d. Some (if d = tk then a else ba + 4))" by auto
  ultimately show ?thesis by simp
qed

section \<open>Properties\<close>

lemma dispatcher_first_link:
  assumes "cond_exit (code_cache_meta t si)" "branch_cache_status (code_cache_meta t si) = 0" "0 \<le> si" "si < META_SIZE"
    "dispatcher_aarch64 t si (exit_branch_type (code_cache_meta t si)) target ba code = Ok (t', code')"
  shows "first_link (code_cache_meta t si) (target = branch_taken_addr (code_cache_meta t si)) (ba + 4)
      (known_target t (if target = branch_taken_addr (code_cache_meta t si)
        then branch_skipped_addr (code_cache_meta t si) else branch_taken_addr (code_cache_meta t si))) code code'"
    "\<exists>l st. code_cache_meta t' si = (code_cache_meta t si)\<lparr>linked_from := l, branch_cache_status := st\<rparr> \<and> st \<noteq> 0"
  using link_first_Ok [OF assms(1) refl assms(3,4) _ refl] assms(2,5) dispatcher_cond [OF assms(1,3,4)] by auto

text \<open>Linking a conditional exit for the first time, for whichever direction was dispatched: control that goes in this
  direction now reaches the target's code directly, with every register as it was; control in the other direction reaches
  the code of the other target if that is known, and otherwise the unchanged rest of the exit.\<close>

theorem dispatcher_aarch64_links:
  assumes "cond_exit (code_cache_meta t si)" "branch_cache_status (code_cache_meta t si) = 0" "0 \<le> si" "si < META_SIZE"
    "dispatcher_aarch64 t si (exit_branch_type (code_cache_meta t si)) target ba code = Ok (t', code')"
    "m = code_cache_meta t si" "tk = (target = branch_taken_addr m)"
    "other = known_target t (if tk then branch_skipped_addr m else branch_taken_addr m)"
  shows "exit_linked m code' (\<lambda>d. if d = tk then Some (ba + 4) else other) \<and>
    (\<forall>x. x \<notin> {exit_branch_addr m, exit_branch_addr m + 4} \<longrightarrow> (x = exit_branch_addr m + 8 \<longrightarrow> other = None) \<longrightarrow> code' x = code x)"
proof -
  have f: "first_link m tk (ba + 4) other code code'"
    using dispatcher_first_link(1) [OF assms(1-5)] unfolding assms(6-8) .
  show ?thesis using first_link_linked [OF f] by blast
qed

text \<open>An example: a block that ends in \<open>CBZ X3\<close>, with its exit at the start of block 2 of the code cache.\<close>

definition cbz_thread :: dbm_thread where
  "cbz_thread = fresh_thread\<lparr>code_cache_meta := (code_cache_meta fresh_thread)(2 := (code_cache_meta fresh_thread 2)\<lparr>
     exit_branch_type := cbz_a64, exit_branch_addr := 0x50000200, branch_taken_addr := 0x400100, branch_skipped_addr := 0x400004,
     branch_condition := 0, meta_rn := 0x23\<rparr>)\<rparr>"

lemma cbz_thread_meta:
  "cond_exit (code_cache_meta cbz_thread 2)" "branch_cache_status (code_cache_meta cbz_thread 2) = 0" "(2 :: int) < META_SIZE"
  "exit_branch_type (code_cache_meta cbz_thread 2) = cbz_a64" "exit_branch_addr (code_cache_meta cbz_thread 2) = 0x50000200"
  "branch_taken_addr (code_cache_meta cbz_thread 2) = 0x400100" "branch_skipped_addr (code_cache_meta cbz_thread 2) = 0x400004"
  by (simp_all add: cbz_thread_def cond_exit_def fresh_thread_def witness_thread_def META_SIZE_def dbm_consts)

lemma a64_cc_branch_block:
  assumes "cc_layout t" "0 \<le> i" "i < CODE_CACHE_SIZE" "target = blocks_addr t i + 4" "pool_ok (cc_links t) (e # free)" "in_b_range p target"
  shows "\<exists>t' code'. a64_cc_branch p target (t, code) = Ok (t', code') \<and> pool_ok (cc_links t') free \<and> code_cache t' = code_cache t"
proof -
  have "addr_to_bb_id t target = i"
    using addr_to_bb_id_block [OF assms(1-3), of 4] assms(4) by (simp add: cc_sizes)
  from record_cc_link_eq [OF assms(1-3) this assms(5), of p]
  obtain t' where "record_cc_link t p target = Ok t'" "pool_ok (cc_links t') free" "code_cache t' = code_cache t" by force
  with assms(6) show ?thesis by (simp add: a64_cc_branch_def a64_b_helper_def a64_branch_helper_eq)
qed

lemma link_first_total:
  assumes "cond_exit m" "0 \<le> si" "si < META_SIZE" "cc_layout t" "0 \<le> i" "i < CODE_CACHE_SIZE" "ba = blocks_addr t i"
    "pool_ok (cc_links t) (e # free)" "in_b_range (exit_branch_addr m + 4) (ba + 4)"
    "cc_lookup AArch64 t (if target = branch_taken_addr m then branch_skipped_addr m else branch_taken_addr m) = Ok UINT_MAX"
  shows "\<exists>t' code'. link_first si target ba m t code = Ok (t', code') \<and> pool_ok (cc_links t') free \<and> code_cache t' = code_cache t"
proof -
  obtain j where j: "insert_cond_exit_branch m (if target = branch_taken_addr m then invert_cond (ucast (branch_condition m)) else ucast (branch_condition m))
      (code, exit_branch_addr m) = Ok (put_inst (exit_branch_addr m) j code, exit_branch_addr m + 4)"
    using insert_cond_exit_branch_skips [OF assms(1)] by metis
  define u where "u = t\<lparr>code_cache_meta := (code_cache_meta t)(si := (code_cache_meta t si)\<lparr>branch_cache_status :=
      (if target = branch_taken_addr m then BRANCH_LINKED else FALLTHROUGH_LINKED)\<rparr>)\<rparr>"
  have "cc_layout u" "blocks_addr u i = ba" "pool_ok (cc_links u) (e # free)"
    using assms(4,7,8) by (simp_all add: u_def cc_layout_def blocks_addr_def)
  then have "\<exists>t' code'. a64_cc_branch (exit_branch_addr m + 4) (ba + 4) (u, put_inst (exit_branch_addr m) j code) = Ok (t', code') \<and>
      pool_ok (cc_links t') free \<and> code_cache t' = code_cache u"
    using assms(5,6,9) by (intro a64_cc_branch_block) auto
  moreover have "code_cache u = code_cache t" by (simp add: u_def)
  ultimately show ?thesis
    using j assms(2,3,10) by (auto simp: link_first_def Let_def simp flip: u_def)
qed

lemma cbz_thread_known: "cc_lookup AArch64 cbz_thread 0x400004 = Ok UINT_MAX" "known_target cbz_thread 0x400004 = None"
proof -
  have "hash_inv AArch64 (entry_address cbz_thread)" "hash_view (entry_address cbz_thread) = Map.empty"
    using cc_invD(3) [OF fresh_thread_inv] by (simp_all add: cbz_thread_def hash_view_def fresh_thread_def)
  then show "cc_lookup AArch64 cbz_thread 0x400004 = Ok UINT_MAX"
    by (simp add: cc_lookup_def hash_lookup_view adjust_cc_entry_def)
  then show "known_target cbz_thread 0x400004 = None" by (simp add: known_target_def)
qed

lemma cbz_thread_links:
  obtains t' code' free where "dispatcher_aarch64 cbz_thread 2 cbz_a64 0x400100 0x50000300 code = Ok (t', code')"
    "pool_ok (cc_links t') (1 # free)" "code_cache t' = 0x50000000"
proof -
  have lay: "cc_layout cbz_thread" "blocks_addr cbz_thread 3 = 0x50000300" "code_cache cbz_thread = 0x50000000"
    by (simp_all add: cc_layout_def blocks_addr_def cbz_thread_def fresh_thread_def witness_thread_def cc_sizes)
  have "1 < nat MAX_CC_LINKS" by (simp add: MAX_CC_LINKS_def)
  then have "[1 ..< nat MAX_CC_LINKS] = 1 # [2 ..< nat MAX_CC_LINKS]" by (simp add: upt_conv_Cons numeral_2_eq_2)
  moreover have "cc_links cbz_thread = cc_links fresh_thread" by (simp add: cbz_thread_def)
  ultimately have pl: "pool_ok (cc_links cbz_thread) (0 # 1 # [2 ..< nat MAX_CC_LINKS])"
    using fresh_thread_pool by metis
  have r: "in_b_range (exit_branch_addr (code_cache_meta cbz_thread 2) + 4) (0x50000300 + 4)"
    by (simp add: cbz_thread_meta(5)) code_simp
  obtain t' code' where l: "link_first 2 0x400100 0x50000300 (code_cache_meta cbz_thread 2) cbz_thread code = Ok (t', code')"
    "pool_ok (cc_links t') (1 # [2 ..< nat MAX_CC_LINKS])" "code_cache t' = code_cache cbz_thread"
    using link_first_total [OF cbz_thread_meta(1) _ cbz_thread_meta(3) lay(1) _ _ lay(2) [symmetric] pl r, of "0x400100" code]
      cbz_thread_known(1) by (auto simp: cbz_thread_meta cc_sizes)
  then have "dispatcher_aarch64 cbz_thread 2 cbz_a64 0x400100 0x50000300 code = Ok (t', code')"
    using dispatcher_cond [OF cbz_thread_meta(1) _ cbz_thread_meta(3), of "0x400100" "0x50000300" code] cbz_thread_meta(2,4) by simp
  then show thesis using l(2,3) lay(3) by (intro that) auto
qed

theorem dispatcher_aarch64_links_witness:
  "\<exists>t' code'. dispatcher_aarch64 cbz_thread 2 cbz_a64 0x400100 0x50000300 Map.empty = Ok (t', code') \<and>
     exit_linked (code_cache_meta cbz_thread 2) code' (\<lambda>d. if d then Some 0x50000304 else None)"
proof -
  obtain t' code' where l: "dispatcher_aarch64 cbz_thread 2 cbz_a64 0x400100 0x50000300 Map.empty = Ok (t', code')"
    using cbz_thread_links by metis
  then show ?thesis
    using dispatcher_aarch64_links [OF cbz_thread_meta(1,2) _ cbz_thread_meta(3) _ refl refl refl, of "0x400100" "0x50000300" Map.empty t' code']
    by (simp add: cbz_thread_meta cbz_thread_known cong: if_cong)
qed

text \<open>C14: When both directions of a conditional exit have been dispatched, one after the other, the exit goes to the code
  of its two targets directly, each in its own direction.\<close>

theorem dispatcher_aarch64_links_both:
  assumes "cond_exit (code_cache_meta t si)" "branch_cache_status (code_cache_meta t si) = 0" "0 \<le> si" "si < META_SIZE"
    "dispatcher_aarch64 t si (exit_branch_type (code_cache_meta t si)) target ba code = Ok (t1, code1)"
    "code_cache_meta t2 si = code_cache_meta t1 si"
    "dispatcher_aarch64 t2 si (exit_branch_type (code_cache_meta t si)) target2 ba2 code1 = Ok (t3, code3)"
  shows "exit_linked (code_cache_meta t si) code3
    (\<lambda>d. Some (if d = (target = branch_taken_addr (code_cache_meta t si)) then ba + 4 else ba2 + 4))"
proof -
  note f = dispatcher_first_link [OF assms(1-5)]
  then obtain l st where m: "code_cache_meta t2 si = (code_cache_meta t si)\<lparr>linked_from := l, branch_cache_status := st\<rparr>" "st \<noteq> 0"
    using assms(6) by auto
  then have "cond_exit (code_cache_meta t2 si)" "exit_branch_type (code_cache_meta t2 si) = exit_branch_type (code_cache_meta t si)"
      "branch_cache_status (code_cache_meta t2 si) \<noteq> 0"
    using assms(1) by (simp_all add: cond_exit_frame)
  with assms(7) have "link_second si ba2 (code_cache_meta t2 si) t2 code1 = Ok (t3, code3)"
    using dispatcher_cond [OF _ assms(3,4), of t2 target2 ba2 code1] by simp
  from link_second_linked [OF f(1) this _ assms(3,4)] show ?thesis using m(1) by simp
qed

theorem dispatcher_aarch64_links_both_witness:
  "\<exists>t1 code1 t3 code3. dispatcher_aarch64 cbz_thread 2 cbz_a64 0x400100 0x50000300 Map.empty = Ok (t1, code1) \<and>
     dispatcher_aarch64 t1 2 cbz_a64 0x400004 0x50000400 code1 = Ok (t3, code3) \<and>
     exit_linked (code_cache_meta cbz_thread 2) code3 (\<lambda>d. Some (if d then 0x50000304 else 0x50000404))"
proof -
  obtain t1 code1 free where l: "dispatcher_aarch64 cbz_thread 2 cbz_a64 0x400100 0x50000300 Map.empty = Ok (t1, code1)"
    "pool_ok (cc_links t1) (1 # free)" "code_cache t1 = 0x50000000"
    using cbz_thread_links by metis
  obtain k st where m: "code_cache_meta t1 2 = (code_cache_meta cbz_thread 2)\<lparr>linked_from := k, branch_cache_status := st\<rparr>" "st \<noteq> 0"
    using dispatcher_first_link(2) [OF cbz_thread_meta(1,2) _ cbz_thread_meta(3), of "0x400100" "0x50000300" Map.empty t1 code1] l(1)
    by (auto simp: cbz_thread_meta)
  define u where "u = t1\<lparr>code_cache_meta := (code_cache_meta t1)(2 := or_status BOTH_LINKED (code_cache_meta t1 2))\<rparr>"
  have "cc_layout u" "0x50000404 = blocks_addr u 4 + 4" "pool_ok (cc_links u) (1 # free)"
    using l(2,3) by (simp_all add: u_def cc_layout_def blocks_addr_def cc_sizes)
  moreover have "in_b_range 0x50000208 0x50000404" by code_simp
  ultimately obtain t3 code3 where "a64_cc_branch 0x50000208 0x50000404 (u, code1) = Ok (t3, code3)"
    using a64_cc_branch_block [of u 4 "0x50000404" 1 free "0x50000208" code1] by (auto simp: cc_sizes)
  then have "link_second 2 0x50000400 (code_cache_meta t1 2) t1 code1 = Ok (t3, code3)"
    by (simp add: link_second_def cbz_thread_meta(3) u_def m(1) cbz_thread_meta(5))
  then have l2: "dispatcher_aarch64 t1 2 cbz_a64 0x400004 0x50000400 code1 = Ok (t3, code3)"
    using dispatcher_cond [of t1 2 "0x400004" "0x50000400" code1] m cbz_thread_meta(1,3,4) by (simp add: cond_exit_frame)
  have "exit_linked (code_cache_meta cbz_thread 2) code3 (\<lambda>d. Some (if d then 0x50000304 else 0x50000404))"
    using dispatcher_aarch64_links_both [OF cbz_thread_meta(1,2) _ cbz_thread_meta(3), of "0x400100" "0x50000300" Map.empty t1 code1 t1
        "0x400004" "0x50000400" t3 code3] l(1) l2 by (simp add: cbz_thread_meta cong: if_cong)
  with l(1) l2 show ?thesis by blast
qed

end
