(* ===== verification/A64_Inline_Lookup.thy ===== *)
theory A64_Inline_Lookup
  imports A64_Dispatch
begin

text \<open>
  The inline hash lookup that AArch64 fragments end with when their branch target is in a register
  (\<open>a64_inline_hash_lookup\<close> of \<open>scanner_a64.c\<close>), and that it agrees with the code cache hash table: the emitted code
  goes where \<open>hash_lookup\<close> would send it, and to the dispatcher otherwise. The address of the table's entries, a field
  of the thread structure, is an argument.
\<close>

section \<open>The emitted code\<close>

definition a64_inline_hash_lookup ::
    "uintptr \<Rightarrow> 'a dbm_thread_scheme \<Rightarrow> int \<Rightarrow> uintptr \<Rightarrow> 5 word \<Rightarrow> bool \<Rightarrow> bool \<Rightarrow> a64_out \<Rightarrow> ('a dbm_thread_scheme \<times> a64_out) res" where
  "a64_inline_hash_lookup entries thread_data basic_block read_address rn link set_meta w =
     (let use_x2 = (rn = x0 \<or> rn = x1 \<or> (link \<and> rn = lr));
          reg_spc = (if use_x2 then x1 else rn);
          reg_tmp = (if use_x2 then x2 else x1) in
      res_bind (if set_meta then meta_upd thread_data basic_block (\<lambda>m. m\<lparr>meta_rn := ucast reg_spc\<rparr>) else Ok thread_data) (\<lambda>thread_data.
      let w = a64_push_pair_reg x0 x1 w;
          w = (if use_x2 then
                 let w = a64_push_reg x2 w in
                 if rn \<noteq> reg_spc then emit_inst (a64_logical_reg 1 1 0 0 rn 0 xzr reg_spc) w else w
               else w);
          w = (if link then a64_copy_to_reg_64bits lr (read_address + 4) w else w);
          w = a64_copy_to_reg_64bits x0 entries w;
          w = emit_inst (a64_logical_immed 1 0 1 62 18 reg_spc reg_tmp) w;
          w = emit_inst (a64_ADD_SUB_shift_reg 1 0 0 0 reg_tmp 2 x0 x0) w;
          loop = snd w;
          w = emit_inst (a64_LDR_STR_immed 3 0 1 16 1 x0 reg_tmp) w;
          branch_to_not_found = snd w;
          w = emit_inst (a64_ADD_SUB_shift_reg 1 1 0 0 reg_spc 0 reg_tmp reg_tmp) (fst w, snd w + 4) in
      res_bind (then_advance (\<lambda>p. a64_cbnz_helper p loop 1 reg_tmp) w) (\<lambda>w.
      let w = emit_inst (a64_LDR_STR_immed 3 0 1 (-8) 0 x0 x0) w;
          w = (if use_x2 then a64_pop_reg x2 w else w);
          w = emit_inst (a64_BR x0) w in
      res_bind (a64_cbz_helper branch_to_not_found (snd w) 1 reg_tmp (fst w)) (\<lambda>code.
      let w = emit_inst (a64_logical_reg 1 1 0 0 reg_spc 0 xzr x0) (code, snd w);
          w = a64_copy_to_reg_64bits x1 (word_of_int basic_block) w;
          w = (if use_x2 then a64_pop_reg x2 w else w) in
      res_bind (then_advance (\<lambda>p. a64_b_helper p (dispatcher_addr thread_data)) w) (\<lambda>w.
      Ok (thread_data, w))))))"

section \<open>The sequence\<close>

definition cbz_at :: "bool \<Rightarrow> uintptr \<Rightarrow> uintptr \<Rightarrow> 5 word \<Rightarrow> a64_inst" where
  "cbz_at cbnz p t rt = a64_CBZ_CBNZ 1 (if cbnz then 1 else 0) (word_of_int (drop_bit 2 (sint (t - p)))) rt"

lemma cbz_helpers_eq:
  assumes "sint (t - p) AND 3 = 0"
  shows "a64_cbz_helper p t 1 rt code = Ok (put_inst p (cbz_at False p t rt) code)"
    "a64_cbnz_helper p t 1 rt code = Ok (put_inst p (cbz_at True p t rt) code)"
proof -
  have "\<not> (sint (t - p) \<ge> MB \<and> sint (t - p) < - MB)" by (simp add: MB_def)
  with assms show "a64_cbz_helper p t 1 rt code = Ok (put_inst p (cbz_at False p t rt) code)"
    "a64_cbnz_helper p t 1 rt code = Ok (put_inst p (cbz_at True p t rt) code)"
    by (auto simp: a64_cbz_helper_def a64_cbnz_helper_def a64_cbz_cbnz_helper_def cbz_at_def Let_def)
qed

lemma cbz_at_exec:
  assumes "sint (t - p) AND 3 = 0" "- MB \<le> sint (t - p)" "sint (t - p) < MB" "pc_reg s = p"
  shows "a64_exec (cbz_at cbnz p t rt) s = Some (s\<lparr>pc_reg := if (xreg s rt = 0) \<noteq> cbnz then t else p + 4\<rparr>)"
proof -
  have "push_bit 2 (scast (word_of_int (drop_bit 2 (sint (t - p))) :: 19 word)) = t - p"
    using assms by (intro branch_offset) (simp_all add: MB_def)
  then show ?thesis
    using assms(4) by (cases cbnz) (simp_all add: cbz_at_def a64_exec.simps Let_def branch_to next_pc_def)
qed

lemma slot_back: "sint (q - slot q 3) = -12"
proof -
  have "q - slot q 3 = (-12 :: uintptr)" by (simp add: slot_def)
  then show ?thesis by simp
qed

lemma cbz_helpers_near:
  assumes "n \<le> 64"
  shows "a64_cbz_helper p (slot p n) 1 rt code = Ok (put_inst p (cbz_at False p (slot p n) rt) code)"
    "a64_cbnz_helper (slot q 3) q 1 rt code = Ok (put_inst (slot q 3) (cbz_at True (slot q 3) q rt) code)"
proof -
  show "a64_cbz_helper p (slot p n) 1 rt code = Ok (put_inst p (cbz_at False p (slot p n) rt) code)"
    using assms by (intro cbz_helpers_eq) (simp only: sint_slot four_aligned)
  have "(-12 :: int) AND 3 = 0" by simp
  then show "a64_cbnz_helper (slot q 3) q 1 rt code = Ok (put_inst (slot q 3) (cbz_at True (slot q 3) q rt) code)"
    by (intro cbz_helpers_eq) (simp only: slot_back)
qed

text \<open>The registers the code uses, and whether it needs a third one.\<close>

definition ihl_x2 :: "5 word \<Rightarrow> bool \<Rightarrow> bool" where
  "ihl_x2 rn link \<longleftrightarrow> rn = x0 \<or> rn = x1 \<or> (link \<and> rn = lr)"

definition ihl_spc :: "5 word \<Rightarrow> bool \<Rightarrow> 5 word" where
  "ihl_spc rn link = (if ihl_x2 rn link then x1 else rn)"

definition ihl_tmp :: "5 word \<Rightarrow> bool \<Rightarrow> 5 word" where
  "ihl_tmp rn link = (if ihl_x2 rn link then x2 else x1)"

definition ihl_pop :: "5 word \<Rightarrow> bool \<Rightarrow> a64_inst list" where
  "ihl_pop rn link = (if ihl_x2 rn link then [a64_LDR_STR_immed 3 0 1 16 1 sp x2] else [])"

definition ihl_pre :: "uintptr \<Rightarrow> uintptr \<Rightarrow> 5 word \<Rightarrow> bool \<Rightarrow> a64_inst list" where
  "ihl_pre entries ra rn link =
     [a64_LDP_STP 2 0 3 0 (-2) x1 sp x0] @
     (if ihl_x2 rn link then [a64_LDR_STR_immed 3 0 0 (-16) 3 sp x2] @
        (if rn \<noteq> x1 then [a64_logical_reg 1 1 0 0 rn 0 xzr x1] else []) else []) @
     (if link then mov_seq lr (ra + 4) else []) @ mov_seq x0 entries @
     [a64_logical_immed 1 0 1 62 18 (ihl_spc rn link) (ihl_tmp rn link),
      a64_ADD_SUB_shift_reg 1 0 0 0 (ihl_tmp rn link) 2 x0 x0]"

definition ihl_loop :: "uintptr \<Rightarrow> 5 word \<Rightarrow> bool \<Rightarrow> a64_inst list" where
  "ihl_loop q rn link =
     [a64_LDR_STR_immed 3 0 1 16 1 x0 (ihl_tmp rn link),
      cbz_at False (slot q 1) (slot q (6 + length (ihl_pop rn link))) (ihl_tmp rn link),
      a64_ADD_SUB_shift_reg 1 1 0 0 (ihl_spc rn link) 0 (ihl_tmp rn link) (ihl_tmp rn link),
      cbz_at True (slot q 3) q (ihl_tmp rn link),
      a64_LDR_STR_immed 3 0 1 (-8) 0 x0 x0] @ ihl_pop rn link @ [a64_BR x0]"

definition ihl_miss :: "int \<Rightarrow> uintptr \<Rightarrow> uintptr \<Rightarrow> 5 word \<Rightarrow> bool \<Rightarrow> a64_inst list" where
  "ihl_miss bb disp q rn link =
     (let xs = [a64_logical_reg 1 1 0 0 (ihl_spc rn link) 0 xzr x0] @ mov_seq x1 (word_of_int bb) @ ihl_pop rn link
      in xs @ [b_inst (slot q (length xs)) disp False])"

lemma ihl_lengths: "length (ihl_pre entries ra rn link) \<le> 13" "length (ihl_pop rn link) \<le> 1"
    "length (ihl_loop q rn link) = 6 + length (ihl_pop rn link)"
  using mov_seq_length(1) [of lr "ra + 4"] mov_seq_length(1) [of x0 entries]
  by (auto simp: ihl_pre_def ihl_pop_def ihl_loop_def)

lemma ihl_first_eq:
  "(let w = a64_push_pair_reg x0 x1 w;
        w = (if ihl_x2 rn link then
               let w = a64_push_reg x2 w in
               if rn \<noteq> ihl_spc rn link then emit_inst (a64_logical_reg 1 1 0 0 rn 0 xzr (ihl_spc rn link)) w else w
             else w);
        w = (if link then a64_copy_to_reg_64bits lr (ra + 4) w else w);
        w = a64_copy_to_reg_64bits x0 entries w;
        w = emit_inst (a64_logical_immed 1 0 1 62 18 (ihl_spc rn link) (ihl_tmp rn link)) w
    in emit_inst (a64_ADD_SUB_shift_reg 1 0 0 0 (ihl_tmp rn link) 2 x0 x0) w) = emit_seq (ihl_pre entries ra rn link) w"
  by (simp add: Let_def ihl_pre_def a64_push_pair_reg_def a64_push_reg_def a64_copy_to_reg_64bits_seq ihl_spc_def)

lemma ihl_body_eq:
  assumes "snd w = q" "rt = ihl_tmp rn link" "rs = ihl_spc rn link"
  shows "(let loop = snd w;
        w = emit_inst (a64_LDR_STR_immed 3 0 1 16 1 x0 rt) w;
        branch_to_not_found = snd w;
        w = emit_inst (a64_ADD_SUB_shift_reg 1 1 0 0 rs 0 rt rt) (fst w, snd w + 4)
    in res_bind (then_advance (\<lambda>p. a64_cbnz_helper p loop 1 rt) w) (\<lambda>w.
      let w = emit_inst (a64_LDR_STR_immed 3 0 1 (-8) 0 x0 x0) w;
          w = (if ihl_x2 rn link then a64_pop_reg x2 w else w);
          w = emit_inst (a64_BR x0) w in
      res_bind (a64_cbz_helper branch_to_not_found (snd w) 1 rt (fst w)) (\<lambda>code. Ok (code, snd w)))) =
    Ok (emit_seq (ihl_loop q rn link) w)"
proof -
  let ?sub = "a64_ADD_SUB_shift_reg 1 1 0 0 rs 0 rt rt" and ?cbnz = "cbz_at True (slot q 3) q rt"
  let ?tail = "a64_LDR_STR_immed 3 0 1 (-8) 0 x0 x0 # ihl_pop rn link @ [a64_BR x0]"
  let ?c = "fst (emit_inst (a64_LDR_STR_immed 3 0 1 16 1 x0 rt) w)"
  let ?rest = "?sub # ?cbnz # ?tail"
  let ?e = "slot q (6 + length (ihl_pop rn link))"
  have len: "length ?rest < 2 ^ 60" using ihl_lengths(2) [of rn link] by simp
  have e: "snd (emit_seq ?rest (?c, q + 4 + 4)) = ?e"
    unfolding emit_seq_snd by (simp add: slot_def algebra_simps)
  have s3: "slot q 3 = q + 4 + 4 + 4" by (simp add: slot_def)
  have "?e = slot (q + 4) (5 + length (ihl_pop rn link))" by (simp add: slot_def algebra_simps)
  then have cbz: "a64_cbz_helper (q + 4) ?e 1 rt code = Ok (put_inst (q + 4) (cbz_at False (q + 4) ?e rt) code)" for code
    using cbz_helpers_near(1) [of "5 + length (ihl_pop rn link)" "q + 4" rt code] ihl_lengths(2) [of rn link] by simp
  have mid: "then_advance (\<lambda>p. a64_cbnz_helper p q 1 rt) (emit_inst ?sub (?c, q + 4 + 4)) = Ok (emit_seq [?sub, ?cbnz] (?c, q + 4 + 4))"
    using cbz_helpers_near(2) [of 0 q rt] by (simp add: then_advance_def s3 emit_inst_def)
  have tail: "(let w = emit_inst (a64_LDR_STR_immed 3 0 1 (-8) 0 x0 x0) w;
          w = (if ihl_x2 rn link then a64_pop_reg x2 w else w) in emit_inst (a64_BR x0) w) = emit_seq ?tail w" for w
    by (simp add: Let_def a64_pop_reg_def ihl_pop_def)
  have patch: "(put_inst (q + 4) (cbz_at False (q + 4) ?e rt) (fst (emit_seq ?rest (?c, q + 4 + 4))), ?e) =
      emit_seq (cbz_at False (q + 4) ?e rt # ?rest) (?c, q + 4)"
    using emit_seq_patch [OF len, where p = "q + 4" and c = ?c and i = "cbz_at False (q + 4) ?e rt"] e by (metis prod.collapse)
  have loop: "emit_seq (ihl_loop q rn link) w = emit_seq (cbz_at False (q + 4) ?e rt # ?rest) (?c, q + 4)"
    using assms by (simp add: ihl_loop_def emit_inst_def)
  have nx: "snd (emit_inst i w) = q + 4" for i using assms(1) by (simp add: emit_inst_def)
  have seq: "emit_seq ?tail (emit_seq [?sub, ?cbnz] (?c, q + 4 + 4)) = emit_seq ?rest (?c, q + 4 + 4)" by simp
  show ?thesis
    unfolding Let_def assms(1) nx mid res_bind.simps tail [unfolded Let_def] seq e cbz patch loop ..
qed

lemma a64_inline_hash_lookup_seq:
  "a64_inline_hash_lookup entries t bb ra rn link set_meta w =
     res_bind (if set_meta then meta_upd t bb (\<lambda>m. m\<lparr>meta_rn := ucast (ihl_spc rn link)\<rparr>) else Ok t) (\<lambda>t.
       let w = emit_seq (ihl_pre entries ra rn link) w; w = emit_seq (ihl_loop (snd w) rn link) w;
           w = emit_seq ([a64_logical_reg 1 1 0 0 (ihl_spc rn link) 0 xzr x0] @ mov_seq x1 (word_of_int bb) @ ihl_pop rn link) w
       in res_bind (then_advance (\<lambda>p. a64_b_helper p (dispatcher_addr t)) w) (\<lambda>w. Ok (t, w)))"
proof -
  note fold = ihl_x2_def [symmetric] ihl_spc_def [symmetric] ihl_tmp_def [symmetric]
  note first = ihl_first_eq [unfolded Let_def] and body = ihl_body_eq [OF refl refl refl, unfolded Let_def]
  have tail: "(if ihl_x2 rn link then a64_pop_reg x2 w else w) = emit_seq (ihl_pop rn link) w" for w
    by (simp add: ihl_pop_def a64_pop_reg_def)
  let ?G = "\<lambda>td w. res_bind (then_advance (\<lambda>p. a64_b_helper p (dispatcher_addr td))
      (emit_seq ([a64_logical_reg 1 1 0 0 (ihl_spc rn link) 0 xzr x0] @ mov_seq x1 (word_of_int bb) @ ihl_pop rn link) w)) (\<lambda>w. Ok (td, w))"
  note bodyG = body [THEN arg_cong, where f = "\<lambda>r. res_bind r (?G td)" for td, unfolded res_bind_assoc res_bind.simps]
  show ?thesis
    unfolding a64_inline_hash_lookup_def fold Let_def first bodyG [symmetric]
    by (simp add: tail a64_copy_to_reg_64bits_seq)
qed

lemma a64_inline_hash_lookup_emits:
  assumes near: "near p (dispatcher_addr t)" and bb: "set_meta \<Longrightarrow> 0 \<le> bb \<and> bb < META_SIZE"
    and q: "q = slot p (length (ihl_pre entries ra rn link))" and q': "q' = slot q (6 + length (ihl_pop rn link))"
  shows "\<exists>t' p'. a64_inline_hash_lookup entries t bb ra rn link set_meta (code, p) =
    Ok (t', fst (emit_seq (ihl_pre entries ra rn link @ ihl_loop q rn link @ ihl_miss bb (dispatcher_addr t) q' rn link) (code, p)), p') \<and>
    entry_address t' = entry_address t \<and> dispatcher_addr t' = dispatcher_addr t"
proof -
  obtain t' where t': "(if set_meta then meta_upd t bb (\<lambda>m. m\<lparr>meta_rn := ucast (ihl_spc rn link)\<rparr>) else Ok t) = Ok t'"
    and eqs: "entry_address t' = entry_address t" "dispatcher_addr t' = dispatcher_addr t"
    using bb by (cases set_meta) (auto simp: meta_upd_def meta_get_def)
  define xs where "xs = [a64_logical_reg 1 1 0 0 (ihl_spc rn link) 0 xzr x0] @ mov_seq x1 (word_of_int bb) @ ihl_pop rn link"
  define n where "n = length (ihl_pre entries ra rn link) + (6 + length (ihl_pop rn link)) + length xs"
  have "n \<le> 64"
    using ihl_lengths(1) [of entries ra rn link] ihl_lengths(2) [of rn link]
      mov_seq_length(1) [of x1 "word_of_int bb"] by (simp add: n_def xs_def)
  then have "in_b_range (slot p n) (dispatcher_addr t)" by (rule near_in_range [OF near])
  moreover have "slot p n = slot q' (length xs)" by (simp add: q q' n_def nat_ac)
  ultimately have range: "in_b_range (slot q' (length xs)) (dispatcher_addr t)" by simp
  have w: "snd (emit_seq (ihl_pre entries ra rn link) (code, p)) = q" by (simp add: emit_seq_snd q)
  have w': "snd (emit_seq xs (emit_seq (ihl_loop q rn link) (emit_seq (ihl_pre entries ra rn link) (code, p)))) = slot q' (length xs)"
    by (simp only: emit_seq_snd snd_conv ihl_lengths(3) q q' slot_simps nat_ac)
  have "a64_inline_hash_lookup entries t bb ra rn link set_meta (code, p) =
    Ok (t', emit_seq (ihl_pre entries ra rn link @ ihl_loop q rn link @ ihl_miss bb (dispatcher_addr t) q' rn link) (code, p))"
    using range by (simp only: a64_inline_hash_lookup_seq [of entries t bb ra rn link set_meta, folded xs_def] t' res_bind.simps Let_def w then_advance_b w' ihl_miss_def [of bb "dispatcher_addr t" q' rn link, folded xs_def] eqs emit_seq_append if_True)
  with eqs show ?thesis by (metis prod.collapse)
qed


section \<open>Running it\<close>

text \<open>The state in which the probing starts, with the key in a register and X0 at its home slot.\<close>

definition ihl_saved :: "5 word \<Rightarrow> bool \<Rightarrow> a64_state \<Rightarrow> a64_state" where
  "ihl_saved rn link s = (if ihl_x2 rn link
     then (saved_ctx s)\<lparr>sp_reg := sp_reg s - 32, mem := (mem (saved_ctx s))(sp_reg s - 32 := xregs s 2)\<rparr> else saved_ctx s)"

definition ihl_regs :: "uintptr \<Rightarrow> 5 word \<Rightarrow> bool \<Rightarrow> a64_state \<Rightarrow> nat \<Rightarrow> uintptr" where
  "ihl_regs ra rn link s =
     (let r = (if ihl_x2 rn link then (xregs s)(1 := xreg s rn) else xregs s) in
      if link then r(30 := ra + 4) else r)"

definition probe_state :: "uintptr \<Rightarrow> 5 word \<Rightarrow> bool \<Rightarrow> uintptr \<Rightarrow> uintptr \<Rightarrow> a64_state \<Rightarrow> uintptr \<Rightarrow> a64_state" where
  "probe_state ra rn link a v s pc = (ihl_saved rn link s)
     \<lparr>xregs := (ihl_regs ra rn link s)(0 := a, unat (ihl_tmp rn link) := v), pc_reg := pc\<rparr>"

definition home_slot :: "uintptr \<Rightarrow> uintptr \<Rightarrow> uintptr" where
  "home_slot entries key = entries + push_bit 2 (key AND push_bit 2 0x7FFFF)"

lemma hash_mask: "word_rotr 62 (mask 19 :: uintptr) = push_bit 2 0x7FFFF"
  by code_simp

lemma spc_value: "xreg (probe_state ra rn link a v s pc) (ihl_spc rn link) = xreg s rn"
proof -
  have "unat rn \<noteq> 0" "unat rn \<noteq> 1" "link \<Longrightarrow> unat rn \<noteq> 30" if "\<not> ihl_x2 rn link"
    using that by (auto simp: ihl_x2_def reg_defs word_unat_eq_iff)
  then show ?thesis
    by (auto simp: probe_state_def ihl_saved_def ihl_regs_def ihl_spc_def ihl_tmp_def xreg_def reg_defs Let_def saved_ctx_def)
qed

lemma run_push_x2:
  assumes al: "aligned_to 16 (sp_reg s)" and x2: "ihl_x2 rn link"
  shows "run_seq ([a64_LDR_STR_immed 3 0 0 (-16) 3 sp x2] @ (if rn \<noteq> x1 then [a64_logical_reg 1 1 0 0 rn 0 xzr x1] else [])) (saved_ctx s) =
    Some ((ihl_saved rn link s)\<lparr>xregs := (xregs s)(1 := xreg s rn), pc_reg := slot (pc_reg s) (if rn \<noteq> x1 then 2 else 1)\<rparr>)"
proof -
  have [simp]: "aligned_to 16 (sp_reg s - 16)" "aligned_to 8 (sp_reg s - 32)"
    using aligned_sp(2) [OF al] aligned_sp(1) [of "sp_reg s - 16"] by simp_all
  have "rn \<noteq> 31" using x2 by (auto simp: ihl_x2_def reg_defs)
  then show ?thesis using x2
    by (auto simp: a64_exec.simps Let_def imm_values reg_defs xreg_sp_def xreg_def base_ok_def load_store_def set_mem_def set_xreg_def
        set_xreg_sp_def next_pc_def ihl_saved_def saved_ctx_def shifted_def slot_def)
qed


lemma run_ihl_hash:
  "run_seq [a64_logical_immed 1 0 1 62 18 (ihl_spc rn link) (ihl_tmp rn link), a64_ADD_SUB_shift_reg 1 0 0 0 (ihl_tmp rn link) 2 x0 x0]
      ((ihl_saved rn link s)\<lparr>xregs := (ihl_regs ra rn link s)(0 := entries), pc_reg := p\<rparr>) =
    Some (probe_state ra rn link (home_slot entries (xreg s rn)) (xreg s rn AND push_bit 2 0x7FFFF) s (slot p 2))"
proof -
  let ?s = "(ihl_saved rn link s)\<lparr>xregs := (ihl_regs ra rn link s)(0 := entries), pc_reg := p\<rparr>"
  have "xreg ?s (ihl_spc rn link) = xreg s rn"
  proof -
    have "unat rn \<noteq> 0" "link \<Longrightarrow> unat rn \<noteq> 30" if "\<not> ihl_x2 rn link"
      using that by (auto simp: ihl_x2_def reg_defs word_unat_eq_iff)
    then show ?thesis
      by (auto simp: ihl_saved_def ihl_regs_def ihl_spc_def xreg_def reg_defs Let_def saved_ctx_def)
  qed
  moreover have "ihl_tmp rn link \<noteq> 31" "unat (ihl_tmp rn link) \<noteq> 0" by (simp_all add: ihl_tmp_def reg_defs)
  ultimately show ?thesis
    by (simp add: a64_exec.simps hash_mask [unfolded mask_numeral] hash_mask set_xreg_sp_def set_xreg_def next_pc_def
        shifted_def home_slot_def probe_state_def xreg_def x0_def slot_def fun_upd_twist)
qed


lemma run_ihl_pre:
  assumes al: "aligned_to 16 (sp_reg s)"
  shows "run_seq (ihl_pre entries ra rn link) s = Some (probe_state ra rn link (home_slot entries (xreg s rn))
      (xreg s rn AND push_bit 2 0x7FFFF) s (slot (pc_reg s) (length (ihl_pre entries ra rn link))))"
proof -
  let ?push = "if ihl_x2 rn link then [a64_LDR_STR_immed 3 0 0 (-16) 3 sp x2] @
        (if rn \<noteq> x1 then [a64_logical_reg 1 1 0 0 rn 0 xzr x1] else []) else []"
  let ?ra = "if link then mov_seq lr (ra + 4) else []"
  let ?r = "if ihl_x2 rn link then (xregs s)(1 := xreg s rn) else xregs s"
  have pc: "(saved_ctx s)\<lparr>pc_reg := q\<rparr> = saved_ctx (s\<lparr>pc_reg := q\<rparr>)" "pc_reg (saved_ctx (s\<lparr>pc_reg := q\<rparr>)) = q"
    "ihl_saved rn link (s\<lparr>pc_reg := q\<rparr>) = (ihl_saved rn link s)\<lparr>pc_reg := q\<rparr>" for q
    by (simp_all add: saved_ctx_def ihl_saved_def)
  have 1: "run_seq [a64_LDP_STP 2 0 3 0 (-2) x1 sp x0] s = Some (saved_ctx (s\<lparr>pc_reg := pc_reg s + 4\<rparr>))"
    using save_context_exec [OF al] by (simp add: pc)
  have 2: "run_seq ?push (saved_ctx (s\<lparr>pc_reg := q\<rparr>)) =
      Some ((ihl_saved rn link s)\<lparr>xregs := ?r, pc_reg := slot q (length ?push)\<rparr>)" for q
    using run_push_x2 [of "s\<lparr>pc_reg := q\<rparr>" rn link] al
    by (cases "ihl_x2 rn link") (auto simp: pc ihl_saved_def saved_ctx_def numeral_2_eq_2)
  have 3: "run_seq ?ra ((ihl_saved rn link s)\<lparr>xregs := ?r, pc_reg := q\<rparr>) =
      Some ((ihl_saved rn link s)\<lparr>xregs := ihl_regs ra rn link s, pc_reg := slot q (length ?ra)\<rparr>)" for q
    by (simp add: run_mov ihl_regs_def Let_def lr_def)
  have 4: "run_seq (mov_seq x0 entries) ((ihl_saved rn link s)\<lparr>xregs := ihl_regs ra rn link s, pc_reg := q\<rparr>) =
      Some ((ihl_saved rn link s)\<lparr>xregs := (ihl_regs ra rn link s)(0 := entries), pc_reg := slot q (length (mov_seq x0 entries))\<rparr>)" for q
    by (simp add: run_mov x0_def)
  show ?thesis
    unfolding ihl_pre_def run_seq_append 1 bind.bind_lunit 2 3 4 run_ihl_hash
    by (simp add: nat_ac)
qed

section \<open>Probing\<close>

text \<open>Where the probing of a key stops: at the key, or at the first empty slot.\<close>

lemma probe_stop:
  assumes inv: "hash_inv a t" and h_def: "h = nat (GET_INDEX a t k)"
  obtains i where "h \<le> i" "i < nat (ht_size t)" "\<And>j. h \<le> j \<Longrightarrow> j < i \<Longrightarrow> key_at t j \<noteq> 0 \<and> key_at t j \<noteq> k"
    "key_at t i = 0 \<Longrightarrow> hash_view t k = None"
    "key_at t i \<noteq> 0 \<Longrightarrow> key_at t i = k \<and> hash_view t k = Some (he_value (ht_entries t ! i))"
proof -
  let ?P = "\<lambda>i. h \<le> i \<and> (key_at t i = 0 \<or> key_at t i = k)"
  let ?l = "nat (ht_size t) - 1"
  note size = hash_inv_size [OF inv]
  have l: "?l < nat (ht_size t)" using size by (simp add: hash_size_ok_def CODE_CACHE_HASH_OVERP_def)
  have h: "h \<le> ?l"
    using GET_INDEX_usable [OF size, of a k] unfolding h_def by linarith
  have "?l < nat (ht_size t - 1)" if "key_at t ?l \<noteq> 0"
    using hash_inv_slot(1) [OF inv l that] .
  then have "key_at t ?l = 0" by linarith
  with h have ex: "?P ?l" by simp
  define i where "i = (LEAST i. ?P i)"
  have Pi: "?P i" unfolding i_def by (rule LeastI [of ?P, OF ex])
  have "i \<le> ?l" unfolding i_def by (rule Least_le [of ?P, OF ex])
  with l have lt: "i < nat (ht_size t)" by linarith
  have before: "h \<le> j \<Longrightarrow> j < i \<Longrightarrow> key_at t j \<noteq> 0 \<and> key_at t j \<noteq> k" for j
    using not_less_Least [of j ?P] unfolding i_def by blast
  have none: "hash_view t k = None" if e: "key_at t i = 0"
  proof (rule ccontr)
    assume "hash_view t k \<noteq> None"
    then obtain n where n: "k \<noteq> 0" "n < nat (ht_size t)" "key_at t n = k"
      using hash_view_Some [OF inv, of k] by blast
    have hn: "h \<le> n" using hash_inv_slot(2) [OF inv n(2)] n(1,3) by (simp add: h_def)
    have "i \<noteq> n" using e n by auto
    moreover have "\<not> n < i" using before [OF hn] n(3) by blast
    ultimately have "i < n" by linarith
    then show False
      using hash_inv_slot(3) [OF inv n(2), of i] n(1,3) e Pi by (simp add: h_def)
  qed
  have "key_at t i = k \<and> hash_view t k = Some (he_value (ht_entries t ! i))" if "key_at t i \<noteq> 0"
    using that Pi lt hash_view_Some [OF inv, of k "he_value (ht_entries t ! i)"] by blast
  then show thesis using Pi lt before none by (intro that [of i]) simp_all
qed


text \<open>One round of the loop.\<close>

lemma tmp_reg: "ihl_tmp rn link \<noteq> 31" "unat (ihl_tmp rn link) \<noteq> 0"
  by (simp_all add: ihl_tmp_def reg_defs)

lemma probe_state_simps:
  "pc_reg (probe_state ra rn link a v s pc) = pc" "(probe_state ra rn link a v s pc)\<lparr>pc_reg := pc'\<rparr> = probe_state ra rn link a v s pc'"
  "mem (probe_state ra rn link a v s pc) = mem (ihl_saved rn link s)"
  "xreg (probe_state ra rn link a v s pc) (ihl_tmp rn link) = v"
  "xregs (probe_state ra rn link a v s pc) 0 = a"
  "(probe_state ra rn link a v s pc)\<lparr>xregs := (xregs (probe_state ra rn link a v s pc))(0 := a')\<rparr> = probe_state ra rn link a' v s pc"
  "(probe_state ra rn link a v s pc)\<lparr>xregs := (xregs (probe_state ra rn link a v s pc))(unat (ihl_tmp rn link) := v')\<rparr> = probe_state ra rn link a v' s pc"
  "(probe_state ra rn link a v s pc)\<lparr>xregs := (xregs (probe_state ra rn link a v s pc))(unat (ihl_tmp rn link) := v', 0 := a')\<rparr> = probe_state ra rn link a' v' s pc"
  using tmp_reg [of rn link] by (simp_all add: probe_state_def xreg_def fun_upd_twist)

lemma probe_load:
  assumes "aligned_to 8 a"
  shows "a64_exec (a64_LDR_STR_immed 3 0 1 16 1 x0 (ihl_tmp rn link)) (probe_state ra rn link a v s pc) =
    Some (probe_state ra rn link (a + 16) (mem (ihl_saved rn link s) a) s (pc + 4))"
  using assms tmp_reg [of rn link]
  by (simp add: a64_exec.simps Let_def imm_values xreg_sp_def x0_def base_ok_def load_store_def set_xreg_def set_xreg_sp_def
      next_pc_def probe_state_simps)

lemma probe_sub:
  "a64_exec (a64_ADD_SUB_shift_reg 1 1 0 0 (ihl_spc rn link) 0 (ihl_tmp rn link) (ihl_tmp rn link)) (probe_state ra rn link a v s pc) =
    Some (probe_state ra rn link a (v - xreg s rn) s (pc + 4))"
  using tmp_reg [of rn link]
  by (simp add: a64_exec.simps shifted_def spc_value probe_state_simps set_xreg_def next_pc_def)

lemma probe_cbz:
  assumes "n \<le> 64"
  shows "a64_exec (cbz_at False p (slot p n) (ihl_tmp rn link)) (probe_state ra rn link a v s p) =
      Some (probe_state ra rn link a v s (if v = 0 then slot p n else p + 4))"
    "a64_exec (cbz_at True (slot q 3) q (ihl_tmp rn link)) (probe_state ra rn link a v s (slot q 3)) =
      Some (probe_state ra rn link a v s (if v \<noteq> 0 then q else slot q 3 + 4))"
proof -
  have "sint (slot p n - p) AND 3 = 0" "- MB \<le> sint (slot p n - p)" "sint (slot p n - p) < MB"
    unfolding sint_slot [OF assms] four_aligned using assms by (simp_all add: MB_def)
  then show "a64_exec (cbz_at False p (slot p n) (ihl_tmp rn link)) (probe_state ra rn link a v s p) =
      Some (probe_state ra rn link a v s (if v = 0 then slot p n else p + 4))"
    by (subst cbz_at_exec) (auto simp: probe_state_simps)
  have "sint (q - slot q 3) AND 3 = 0" "- MB \<le> sint (q - slot q 3)" "sint (q - slot q 3) < MB"
    unfolding slot_back by (simp_all add: MB_def)
  then show "a64_exec (cbz_at True (slot q 3) q (ihl_tmp rn link)) (probe_state ra rn link a v s (slot q 3)) =
      Some (probe_state ra rn link a v s (if v \<noteq> 0 then q else slot q 3 + 4))"
    by (subst cbz_at_exec) (auto simp: probe_state_simps)
qed

lemma reaches_at: "code p = Some i \<Longrightarrow> a64_exec i s = Some s' \<Longrightarrow> pc_reg s = p \<Longrightarrow> s' = s'' \<Longrightarrow> reaches code s s''"
  by (auto intro: reaches_one)

lemma probe_round:
  assumes code: "code_seq code q (ihl_loop q rn link)" and al: "aligned_to 8 a"
    and k_def: "k = mem (ihl_saved rn link s) a" and e_def: "e = slot q (6 + length (ihl_pop rn link))"
  shows "reaches code (probe_state ra rn link a v s q)
    (if k = 0 then probe_state ra rn link (a + 16) 0 s e
     else probe_state ra rn link (a + 16) (k - xreg s rn) s (if k = xreg s rn then slot q 4 else q))"
proof -
  let ?s = "probe_state ra rn link (a + 16)"
  have c: "code q = Some (a64_LDR_STR_immed 3 0 1 16 1 x0 (ihl_tmp rn link))"
    "code (slot q 1) = Some (cbz_at False (slot q 1) e (ihl_tmp rn link))"
    "code (slot q 2) = Some (a64_ADD_SUB_shift_reg 1 1 0 0 (ihl_spc rn link) 0 (ihl_tmp rn link) (ihl_tmp rn link))"
    "code (slot q 3) = Some (cbz_at True (slot q 3) q (ihl_tmp rn link))"
    using code by (simp_all add: ihl_loop_def e_def slot_def ac_simps)
  have e: "e = slot (slot q 1) (5 + length (ihl_pop rn link))" by (simp add: e_def)
  have n: "5 + length (ihl_pop rn link) \<le> 64" using ihl_lengths(2) [of rn link] by simp
  have "reaches code (probe_state ra rn link a v s q) (?s k s (slot q 1))"
    using c(1) probe_load [OF al] by (intro reaches_one) (simp_all add: probe_state_simps k_def)
  also have "reaches code (?s k s (slot q 1)) (?s k s (if k = 0 then e else slot q 2))"
  proof (rule reaches_one)
    show "code (pc_reg (?s k s (slot q 1))) = Some (cbz_at False (slot q 1) e (ihl_tmp rn link))"
      unfolding probe_state_simps by (rule c(2))
    have "slot q 1 + 4 = slot q 2" by (simp add: numeral_2_eq_2 del: slot_Suc0)
    then show "a64_exec (cbz_at False (slot q 1) e (ihl_tmp rn link)) (?s k s (slot q 1)) = Some (?s k s (if k = 0 then e else slot q 2))"
      unfolding e by (simp only: probe_cbz(1) [OF n])
  qed
  finally have first: "reaches code (probe_state ra rn link a v s q) (?s k s (if k = 0 then e else slot q 2))" .
  show ?thesis
  proof (cases "k = 0")
    case True
    with first show ?thesis by simp
  next
    case False
    with first have "reaches code (probe_state ra rn link a v s q) (?s k s (slot q 2))" by simp
    also have "reaches code (?s k s (slot q 2)) (?s (k - xreg s rn) s (slot q 3))"
      using c(3) probe_sub by (rule reaches_at) (simp_all add: probe_state_simps)
    also have "reaches code (?s (k - xreg s rn) s (slot q 3)) (?s (k - xreg s rn) s (if k = xreg s rn then slot q 4 else q))"
      using c(4) probe_cbz(2) [OF n] by (rule reaches_at) (simp_all add: probe_state_simps)
    finally show ?thesis using False by simp
  qed
qed


text \<open>The table as the emitted code sees it.\<close>

definition entry_at :: "uintptr \<Rightarrow> nat \<Rightarrow> uintptr" where
  "entry_at entries i = entries + 16 * of_nat i"

definition table_in :: "uintptr \<Rightarrow> hash_table \<Rightarrow> (uintptr \<Rightarrow> uintptr) \<Rightarrow> bool" where
  "table_in entries t m \<longleftrightarrow> (\<forall>i < nat (ht_size t).
     m (entry_at entries i) = key_at t i \<and> m (entry_at entries i + 8) = he_value (ht_entries t ! i))"

lemma entry_aligned:
  assumes "aligned_to 8 entries"
  shows "aligned_to 8 (entry_at entries i)" "aligned_to 8 (entry_at entries i + 8)"
proof -
  have d: "8 dvd entries" using assms aligned_to_dvd [of 3 entries] by simp
  have "(8 :: uintptr) dvd 16 * of_nat i" by (rule dvdI [of _ _ "2 * of_nat i"]) simp
  with d show "aligned_to 8 (entry_at entries i)" "aligned_to 8 (entry_at entries i + 8)"
    using aligned_to_dvd [of 3] by (simp_all add: entry_at_def)
qed

lemma probe_chain:
  assumes code: "code_seq code q (ihl_loop q rn link)" and al: "aligned_to 8 entries"
    and tab: "table_in entries t (mem (ihl_saved rn link s))" and bound: "h + n \<le> nat (ht_size t)"
    and busy: "\<And>j. h \<le> j \<Longrightarrow> j < h + n \<Longrightarrow> key_at t j \<noteq> 0 \<and> key_at t j \<noteq> xreg s rn"
  shows "\<exists>v'. reaches code (probe_state ra rn link (entry_at entries h) v s q) (probe_state ra rn link (entry_at entries (h + n)) v' s q)"
  using bound busy
proof (induction n)
  case 0
  then show ?case by (auto intro: reaches_refl)
next
  case (Suc n)
  then obtain v' where r: "reaches code (probe_state ra rn link (entry_at entries h) v s q) (probe_state ra rn link (entry_at entries (h + n)) v' s q)"
    by (auto simp: less_Suc_eq)
  let ?k = "mem (ihl_saved rn link s) (entry_at entries (h + n))"
  have "?k = key_at t (h + n)" using tab Suc.prems(1) by (simp add: table_in_def)
  then have k: "?k \<noteq> 0" "?k \<noteq> xreg s rn" using Suc.prems(2) [of "h + n"] by auto
  have "entry_at entries (h + n) + 16 = entry_at entries (h + Suc n)" by (simp add: entry_at_def algebra_simps)
  with k probe_round [OF code entry_aligned(1) [OF al, of "h + n"] refl refl, where ra = ra and s = s and v = v']
  have "reaches code (probe_state ra rn link (entry_at entries (h + n)) v' s q)
      (probe_state ra rn link (entry_at entries (h + Suc n)) (?k - xreg s rn) s q)" by simp
  with r show ?case by (blast intro: reaches_trans)
qed

section \<open>Leaving the lookup\<close>

text \<open>
  How the guest's state is handed over: X0 and X1 are on its stack, X30 holds the return address of a call, everything
  else is as it was; the slot below the saved registers may have been used for X2.
\<close>

definition handed_over :: "a64_state \<Rightarrow> uintptr option \<Rightarrow> a64_state \<Rightarrow> bool" where
  "handed_over s ra s' \<longleftrightarrow> sp_reg s' = sp_reg s - 16 \<and> mem s' (sp_reg s - 16) = xregs s 0 \<and> mem s' (sp_reg s - 8) = xregs s 1 \<and>
     flags s' = flags s \<and> (\<forall>a. a \<noteq> sp_reg s - 32 \<and> a \<noteq> sp_reg s - 16 \<and> a \<noteq> sp_reg s - 8 \<longrightarrow> mem s' a = mem s a) \<and>
     (\<forall>r. r \<noteq> 0 \<and> r \<noteq> 1 \<and> r \<noteq> 30 \<longrightarrow> xregs s' r = xregs s r) \<and>
     xregs s' 30 = (case ra of Some v \<Rightarrow> v | None \<Rightarrow> xregs s 30)"

lemma run_ihl_pop:
  assumes al: "aligned_to 16 (sp_reg s)"
  shows "run_seq (ihl_pop rn link) ((ihl_saved rn link s)\<lparr>xregs := f, pc_reg := p\<rparr>) =
    Some ((ihl_saved rn link s)\<lparr>sp_reg := sp_reg s - 16, xregs := if ihl_x2 rn link then f(2 := xregs s 2) else f,
      pc_reg := slot p (length (ihl_pop rn link))\<rparr>)"
proof -
  have [simp]: "aligned_to 16 (sp_reg s - 32)" "aligned_to 8 (sp_reg s - 32)"
    using aligned_sp [OF al] aligned_sp [of "sp_reg s - 16"] by simp_all
  show ?thesis
    by (simp add: ihl_pop_def ihl_saved_def a64_exec.simps Let_def imm_values reg_defs xreg_sp_def base_ok_def load_store_def
        set_xreg_def set_xreg_sp_def next_pc_def saved_ctx_def)
qed

lemma handed_over_saved:
  assumes "f 30 = (case ra of Some v \<Rightarrow> v | None \<Rightarrow> xregs s 30)" "\<And>r. r \<noteq> 0 \<and> r \<noteq> 1 \<and> r \<noteq> 30 \<Longrightarrow> f r = xregs s r"
  shows "handed_over s ra ((ihl_saved rn link s)\<lparr>sp_reg := sp_reg s - 16, xregs := f, pc_reg := p\<rparr>)"
  using assms by (auto simp: handed_over_def ihl_saved_def saved_ctx_def)

lemma probe_regs:
  "((ihl_regs ra rn link s)(0 := a, unat (ihl_tmp rn link) := v)) 30 = (if link then ra + 4 else xregs s 30)"
  "r \<noteq> 0 \<and> r \<noteq> 1 \<and> r \<noteq> 30 \<and> (ihl_x2 rn link \<longrightarrow> r \<noteq> 2) \<Longrightarrow>
    ((ihl_regs ra rn link s)(0 := a, unat (ihl_tmp rn link) := v)) r = xregs s r"
  by (auto simp: ihl_regs_def Let_def ihl_tmp_def reg_defs)

abbreviation link_value :: "bool \<Rightarrow> uintptr \<Rightarrow> uintptr option" where
  "link_value link ra \<equiv> if link then Some (ra + 4) else None"


lemma probe_hit:
  assumes code: "code_seq code q (ihl_loop q rn link)" and al: "aligned_to 16 (sp_reg s)" and a: "aligned_to 8 (a + 8)"
  shows "\<exists>s'. reaches code (probe_state ra rn link (a + 16) 0 s (slot q 4)) s' \<and>
    pc_reg s' = mem (ihl_saved rn link s) (a + 8) \<and> handed_over s (link_value link ra) s'"
proof -
  let ?v = "mem (ihl_saved rn link s) (a + 8)"
  let ?f = "(ihl_regs ra rn link s)(0 := ?v, unat (ihl_tmp rn link) := 0)"
  let ?g = "if ihl_x2 rn link then ?f(2 := xregs s 2) else ?f"
  let ?s1 = "probe_state ra rn link ?v 0 s (slot q 5)"
  let ?s2 = "(ihl_saved rn link s)\<lparr>sp_reg := sp_reg s - 16, xregs := ?g, pc_reg := slot q (5 + length (ihl_pop rn link))\<rparr>"
  have c: "code (slot q 4) = Some (a64_LDR_STR_immed 3 0 1 (-8) 0 x0 x0)" "code_seq code (slot q 5) (ihl_pop rn link)"
    "code (slot q (5 + length (ihl_pop rn link))) = Some (a64_BR x0)"
    using code by (simp_all add: ihl_loop_def slot_def ac_simps)
  have i8: "scast (-8 :: 9 word) = (-8 :: uintptr)" by code_simp
  have "slot q 4 + 4 = slot q 5" by simp
  then have "a64_exec (a64_LDR_STR_immed 3 0 1 (-8) 0 x0 x0) (probe_state ra rn link (a + 16) 0 s (slot q 4)) = Some ?s1"
    using a by (simp add: a64_exec.simps Let_def i8 xreg_sp_def x0_def base_ok_def load_store_def set_xreg_def next_pc_def probe_state_simps add.commute [of 8 a])
  then have "reaches code (probe_state ra rn link (a + 16) 0 s (slot q 4)) ?s1"
    using c(1) by (intro reaches_one) (simp_all add: probe_state_simps)
  also have "run_seq (ihl_pop rn link) ?s1 = Some ?s2"
    unfolding probe_state_def by (subst run_ihl_pop [OF al]) simp
  then have "reaches code ?s1 ?s2"
    using c(2) by (intro conjunct1 [OF run_seq_reaches]) (simp_all add: probe_state_simps)
  finally have r: "reaches code (probe_state ra rn link (a + 16) 0 s (slot q 4)) ?s2" .
  have g0: "?g 0 = ?v" using tmp_reg [of rn link] by simp
  have "a64_exec (a64_BR x0) ?s2 = Some (?s2\<lparr>pc_reg := ?g 0\<rparr>)"
    by (simp add: a64_exec.simps xreg_def x0_def)
  then have "reaches code ?s2 (?s2\<lparr>pc_reg := ?v\<rparr>)"
    unfolding g0 using c(3) by (intro reaches_one) simp_all
  with r have "reaches code (probe_state ra rn link (a + 16) 0 s (slot q 4)) (?s2\<lparr>pc_reg := ?v\<rparr>)" by (rule reaches_trans)
  moreover have "handed_over s (link_value link ra) ((ihl_saved rn link s)\<lparr>sp_reg := sp_reg s - 16, xregs := ?g, pc_reg := ?v\<rparr>)"
    using probe_regs(1) [of ra rn link s ?v 0] probe_regs(2) [of _ rn link ra s ?v 0] by (intro handed_over_saved) auto
  ultimately show ?thesis by (intro exI [of _ "?s2\<lparr>pc_reg := ?v\<rparr>"]) simp
qed

lemma probe_miss:
  assumes code: "code_seq code e (ihl_miss bb disp e rn link)" and al: "aligned_to 16 (sp_reg s)"
    and range: "in_b_range (slot e (length ([a64_logical_reg 1 1 0 0 (ihl_spc rn link) 0 xzr x0] @ mov_seq x1 (word_of_int bb) @ ihl_pop rn link))) disp"
  shows "\<exists>s'. reaches code (probe_state ra rn link a 0 s e) s' \<and>
    pc_reg s' = disp \<and> xregs s' 0 = xreg s rn \<and> xregs s' 1 = word_of_int bb \<and> handed_over s (link_value link ra) s'"
proof -
  define xs where "xs = [a64_logical_reg 1 1 0 0 (ihl_spc rn link) 0 xzr x0] @ mov_seq x1 (word_of_int bb) @ ihl_pop rn link"
  let ?f = "(ihl_regs ra rn link s)(0 := xreg s rn, unat (ihl_tmp rn link) := 0, 1 := word_of_int bb)"
  let ?g = "if ihl_x2 rn link then ?f(2 := xregs s 2) else ?f"
  let ?s = "\<lambda>p. (ihl_saved rn link s)\<lparr>sp_reg := sp_reg s - 16, xregs := ?g, pc_reg := p\<rparr>"
  have c: "code_seq code e xs" "code (slot e (length xs)) = Some (b_inst (slot e (length xs)) disp False)"
    using code by (simp_all only: ihl_miss_def [of bb disp e rn link, folded xs_def] Let_def code_seq_append code_seq.simps)
  have 1: "run_seq [a64_logical_reg 1 1 0 0 (ihl_spc rn link) 0 xzr x0] (probe_state ra rn link a 0 s e) =
      Some (probe_state ra rn link (xreg s rn) 0 s (e + 4))"
    by (simp add: a64_exec.simps shifted_def spc_value) (simp add: xreg_def xzr_def x0_def set_xreg_def next_pc_def probe_state_simps)
  have 2: "run_seq (mov_seq x1 (word_of_int bb)) (probe_state ra rn link (xreg s rn) 0 s p) =
      Some ((ihl_saved rn link s)\<lparr>xregs := ?f, pc_reg := slot p (length (mov_seq x1 (word_of_int bb)))\<rparr>)" for p
    by (simp add: run_mov x1_def probe_state_def)
  have "run_seq xs (probe_state ra rn link a 0 s e) = Some (?s (slot e (length xs)))"
    unfolding xs_def run_seq_append 1 bind.bind_lunit 2 by (simp add: run_ihl_pop [OF al] nat_ac)
  then have "reaches code (probe_state ra rn link a 0 s e) (?s (slot e (length xs)))"
    using c(1) by (intro conjunct1 [OF run_seq_reaches]) (simp_all add: probe_state_simps)
  also have "reaches code (?s (slot e (length xs))) (?s disp)"
    using c(2) b_inst_exec(1) [OF range [folded xs_def]] by (rule reaches_at) simp_all
  finally have r: "reaches code (probe_state ra rn link a 0 s e) (?s disp)" .
  have "handed_over s (link_value link ra) (?s disp)"
    using probe_regs(1) [of ra rn link s "xreg s rn" 0] probe_regs(2) [of _ rn link ra s "xreg s rn" 0]
    by (intro handed_over_saved) auto
  with r show ?thesis using tmp_reg [of rn link] by (intro exI [of _ "?s disp"]) simp
qed


section \<open>The lookup against the table\<close>

lemma home_slot_index:
  assumes "ht_size t = CODE_CACHE_HASH_SIZE + CODE_CACHE_HASH_OVERP"
  shows "home_slot entries k = entry_at entries (nat (GET_INDEX AArch64 t k))"
proof -
  let ?w = "drop_bit 2 k AND 0x7FFFF"
  have "?w = take_bit 19 (drop_bit 2 k)" by (simp add: take_bit_eq_mask mask_eq_exp_minus_1)
  then have "uint ?w < 2 ^ 19" using take_bit_int_less_exp [of 19 "uint (drop_bit 2 k)"] by (simp add: unsigned_take_bit_eq)
  then have idx: "nat (GET_INDEX AArch64 t k) = unat ?w"
    using assms by (simp add: GET_INDEX_def CODE_CACHE_HASH_SIZE_def c_int_small)
  have "push_bit 2 (k AND push_bit 2 (mask 19)) = push_bit 4 (drop_bit 2 k AND mask 19)"
  proof (rule bit_word_eqI)
    fix n assume "n < LENGTH(64)"
    show "bit (push_bit 2 (k AND push_bit 2 (mask 19))) n = bit (push_bit 4 (drop_bit 2 k AND mask 19)) n"
    proof (cases "4 \<le> n")
      case True
      then obtain m where "n = m + 4" by (metis add.commute le_add_diff_inverse)
      then show ?thesis using \<open>n < LENGTH(64)\<close> by (auto simp: bit_simps)
    qed (auto simp: bit_simps)
  qed
  then have "push_bit 2 (k AND push_bit 2 0x7FFFF) = push_bit 4 ?w" by (simp add: mask_eq_exp_minus_1)
  also have "\<dots> = 16 * ?w" by (simp add: push_bit_eq_mult)
  finally show ?thesis by (simp add: home_slot_def entry_at_def idx)
qed

text \<open>The stack slots the code uses are outside the table.\<close>

definition stack_apart :: "uintptr \<Rightarrow> hash_table \<Rightarrow> uintptr \<Rightarrow> bool" where
  "stack_apart entries t st \<longleftrightarrow> (\<forall>i < nat (ht_size t). \<forall>d \<in> {8, 16, 32}.
     entry_at entries i \<noteq> st - d \<and> entry_at entries i + 8 \<noteq> st - d)"

lemma table_in_saved:
  assumes "table_in entries t (mem s)" "stack_apart entries t (sp_reg s)"
  shows "table_in entries t (mem (ihl_saved rn link s))"
  using assms by (auto simp: table_in_def stack_apart_def ihl_saved_def saved_ctx_def)

lemma inline_lookup_runs:
  assumes inv: "hash_inv AArch64 t" and size: "ht_size t = CODE_CACHE_HASH_SIZE + CODE_CACHE_HASH_OVERP"
    and tab: "table_in entries t (mem s)" and apart: "stack_apart entries t (sp_reg s)"
    and al: "aligned_to 8 entries" "aligned_to 16 (sp_reg s)" and pc: "pc_reg s = p" and near: "near p disp"
    and q: "q = slot p (length (ihl_pre entries ra rn link))" and q': "q' = slot q (6 + length (ihl_pop rn link))"
    and code: "code_seq code p (ihl_pre entries ra rn link @ ihl_loop q rn link @ ihl_miss bb disp q' rn link)"
  shows "\<exists>s'. reaches code s s' \<and> handed_over s (link_value link ra) s' \<and>
    (case hash_view t (xreg s rn) of
       Some v \<Rightarrow> pc_reg s' = v
     | None \<Rightarrow> pc_reg s' = disp \<and> xregs s' 0 = xreg s rn \<and> xregs s' 1 = word_of_int bb)"
proof -
  let ?k = "xreg s rn" and ?m = "mem (ihl_saved rn link s)"
  let ?h = "nat (GET_INDEX AArch64 t ?k)"
  have c: "code_seq code p (ihl_pre entries ra rn link)" "code_seq code q (ihl_loop q rn link)" "code_seq code q' (ihl_miss bb disp q' rn link)"
    using code by (simp_all add: q q' ihl_lengths(3) nat_ac)
  have tab': "table_in entries t ?m" by (rule table_in_saved [OF tab apart])
  obtain i where i: "?h \<le> i" "i < nat (ht_size t)" "\<And>j. ?h \<le> j \<Longrightarrow> j < i \<Longrightarrow> key_at t j \<noteq> 0 \<and> key_at t j \<noteq> ?k"
    "key_at t i = 0 \<Longrightarrow> hash_view t ?k = None"
    "key_at t i \<noteq> 0 \<Longrightarrow> key_at t i = ?k \<and> hash_view t ?k = Some (he_value (ht_entries t ! i))"
    using probe_stop [OF inv refl] by blast
  have "reaches code s (probe_state ra rn link (entry_at entries ?h) (?k AND push_bit 2 0x7FFFF) s q)"
    using run_seq_reaches [OF run_ihl_pre [OF al(2)]] c(1) pc home_slot_index [OF size] q by simp
  also obtain v' where "reaches code \<dots> (probe_state ra rn link (entry_at entries i) v' s q)"
    using probe_chain [OF c(2) al(1) tab', where h = ?h and n = "i - ?h" and ra = ra and v = "?k AND push_bit 2 0x7FFFF"] i(1-3) by auto
  also have "reaches code (probe_state ra rn link (entry_at entries i) v' s q)
    (if key_at t i = 0 then probe_state ra rn link (entry_at entries i + 16) 0 s q'
     else probe_state ra rn link (entry_at entries i + 16) (key_at t i - ?k) s (if key_at t i = ?k then slot q 4 else q))"
    using tab' i(2) by (intro probe_round [OF c(2) entry_aligned(1) [OF al(1)] _ q']) (simp add: table_in_def)
  finally have r: "reaches code s (if key_at t i = 0 then probe_state ra rn link (entry_at entries i + 16) 0 s q'
     else probe_state ra rn link (entry_at entries i + 16) (key_at t i - ?k) s (if key_at t i = ?k then slot q 4 else q))" .
  show ?thesis
  proof (cases "key_at t i = 0")
    case True
    define xs where "xs = [a64_logical_reg 1 1 0 0 (ihl_spc rn link) 0 xzr x0] @ mov_seq x1 (word_of_int bb) @ ihl_pop rn link"
    have "length (ihl_pre entries ra rn link) + (6 + length (ihl_pop rn link)) + length xs \<le> 64"
      using ihl_lengths(1) [of entries ra rn link] ihl_lengths(2) [of rn link] mov_seq_length(1) [of x1 "word_of_int bb"] by (simp add: xs_def)
    then have "in_b_range (slot q' (length xs)) disp"
      using near_in_range [OF near] by (simp add: q q' nat_ac)
    then show ?thesis
      using probe_miss [OF c(3) al(2), of ra "entry_at entries i + 16"] r True i(4) unfolding xs_def
      by (auto intro: reaches_trans)
  next
    case False
    have "?m (entry_at entries i + 8) = he_value (ht_entries t ! i)" using tab' i(2) by (simp add: table_in_def)
    then show ?thesis
      using probe_hit [OF c(2) al(2) entry_aligned(2) [OF al(1), of i], of ra] r False i(5) by (auto intro: reaches_trans)
  qed
qed


section \<open>A table for the example\<close>

definition big_table :: hash_table where
  "big_table = \<lparr>ht_size = 0x80009, ht_collisions = 0, ht_count = 1,
     ht_entries = (replicate 0x80009 \<lparr>he_key = 0, he_value = 0\<rparr>)[0x401 := \<lparr>he_key = 0x1004, he_value = 0x50020000\<rparr>]\<rparr>"

definition table_mem :: "uintptr \<Rightarrow> uintptr" where
  "table_mem = (\<lambda>_. 0)(0x60004010 := 0x1004, 0x60004018 := 0x50020000)"

definition lookup_state :: a64_state where
  "lookup_state = witness_state\<lparr>mem := table_mem, xregs := (\<lambda>_. 0)(3 := 0x1004)\<rparr>"

lemma big_table_key:
  assumes "i < 0x80009"
  shows "key_at big_table i = (if i = 0x401 then 0x1004 else 0)"
    "he_value (ht_entries big_table ! i) = (if i = 0x401 then 0x50020000 else 0)"
  using assms by (simp_all add: big_table_def nth_list_update)

lemma big_table_inv: "hash_inv AArch64 big_table"
proof -
  have idx: "GET_INDEX AArch64 big_table 0x1004 = 0x401"
    by (simp add: GET_INDEX_def big_table_def CODE_CACHE_HASH_OVERP_def c_int_def)
  have "length (filter (\<lambda>e. he_key e \<noteq> 0) (ht_entries big_table)) = 1"
    using length_filter_update [of "0x401" "replicate 0x80009 \<lparr>he_key = 0, he_value = 0\<rparr>" "\<lambda>e. he_key e \<noteq> 0" "\<lparr>he_key = 0x1004, he_value = 0x50020000\<rparr>"]
    by (simp add: big_table_def)
  then have used: "hash_used big_table = 1"
    by (simp add: hash_used_def big_table_def)
  have size: "ht_size big_table = 0x80009" "length (ht_entries big_table) = 0x80009" "ht_count big_table = 1"
    by (simp_all add: big_table_def)
  show ?thesis
    unfolding hash_inv_def hash_size_ok_def used size
    using idx by (auto simp: big_table_key CODE_CACHE_HASH_OVERP_def split: if_splits)
qed

lemma entry_unat:
  assumes "i < 0x80009"
  shows "unat (entry_at 0x60000000 i) = 0x60000000 + 16 * i" "unat (entry_at 0x60000000 i + 8) = 0x60000008 + 16 * i"
proof -
  have "entry_at 0x60000000 i = of_nat (0x60000000 + 16 * i)" "entry_at 0x60000000 i + 8 = of_nat (0x60000008 + 16 * i)"
    by (simp_all add: entry_at_def)
  moreover have "unat (of_nat (0x60000000 + 16 * i) :: uintptr) = 0x60000000 + 16 * i"
    "unat (of_nat (0x60000008 + 16 * i) :: uintptr) = 0x60000008 + 16 * i"
    using assms by (intro unat_of_nat64; simp)+
  ultimately show "unat (entry_at 0x60000000 i) = 0x60000000 + 16 * i" "unat (entry_at 0x60000000 i + 8) = 0x60000008 + 16 * i"
    by metis+
qed

lemma big_table_in: "table_in 0x60000000 big_table table_mem" "stack_apart 0x60000000 big_table 0x7000"
proof -
  have n: "nat (ht_size big_table) = 0x80009" by (simp add: big_table_def)
  have m: "table_mem a = (if unat a = 0x60004010 then 0x1004 else if unat a = 0x60004018 then 0x50020000 else 0)" for a
    by (auto simp: table_mem_def word_unat_eq_iff)
  have "table_mem (entry_at 0x60000000 i) = (if i = 0x401 then 0x1004 else 0)"
    "table_mem (entry_at 0x60000000 i + 8) = (if i = 0x401 then 0x50020000 else 0)" if "i < 0x80009" for i
  proof -
    have "0x60000000 + 16 * i \<noteq> 0x60004018" "0x60000008 + 16 * i \<noteq> 0x60004010" by presburger+
    then show "table_mem (entry_at 0x60000000 i) = (if i = 0x401 then 0x1004 else 0)"
      "table_mem (entry_at 0x60000000 i + 8) = (if i = 0x401 then 0x50020000 else 0)"
      unfolding m entry_unat [OF that] by auto
  qed
  then show "table_in 0x60000000 big_table table_mem"
    by (simp add: table_in_def n big_table_key)
  show "stack_apart 0x60000000 big_table 0x7000"
    unfolding stack_apart_def n by (auto simp: word_unat_eq_iff entry_unat)
qed

section \<open>Properties\<close>

text \<open>C4: The inline lookup emitted for a register branch agrees with the code cache hash table: for every content of
  the table and of the registers, and for every target register (X0, X1 and LR included), it leaves for the code
  address the table holds for the target, or enters the dispatcher with the target in X0 and the source fragment in
  X1; the guest's registers, flags and memory are handed over intact, with X0 and X1 on its stack and the return
  address of a call in X30. Finding the entry ends because the table's last slot is empty.\<close>

theorem a64_inline_hash_lookup_agrees:
  assumes "hash_inv AArch64 tbl" "ht_size tbl = CODE_CACHE_HASH_SIZE + CODE_CACHE_HASH_OVERP"
    and "table_in entries tbl (mem s)" "stack_apart entries tbl (sp_reg s)" "aligned_to 8 entries" "aligned_to 16 (sp_reg s)"
    and "pc_reg s = p" "near p (dispatcher_addr t)" "set_meta \<Longrightarrow> 0 \<le> bb \<and> bb < META_SIZE"
  shows "\<exists>t' code' p' s'. a64_inline_hash_lookup entries t bb ra rn link set_meta (code, p) = Ok (t', code', p') \<and>
    reaches code' s s' \<and> handed_over s (if link then Some (ra + 4) else None) s' \<and>
    (case hash_view tbl (xreg s rn) of
       Some v \<Rightarrow> pc_reg s' = v
     | None \<Rightarrow> pc_reg s' = dispatcher_addr t \<and> xregs s' 0 = xreg s rn \<and> xregs s' 1 = word_of_int bb)"
proof -
  define q where "q = slot p (length (ihl_pre entries ra rn link))"
  define q' where "q' = slot q (6 + length (ihl_pop rn link))"
  let ?xs = "ihl_pre entries ra rn link @ ihl_loop q rn link @ ihl_miss bb (dispatcher_addr t) q' rn link"
  obtain t' p' where e: "a64_inline_hash_lookup entries t bb ra rn link set_meta (code, p) = Ok (t', fst (emit_seq ?xs (code, p)), p')"
    using a64_inline_hash_lookup_emits [OF assms(8,9) q_def q'_def, where code = code] by blast
  have "length ?xs < 2 ^ 60"
    using ihl_lengths(1) [of entries ra rn link] ihl_lengths(2) [of rn link] mov_seq_length(1) [of x1 "word_of_int bb"]
    by (simp add: ihl_lengths(3) ihl_miss_def Let_def)
  then have "code_seq (fst (emit_seq ?xs (code, p))) p ?xs"
    using emit_seq_code [of ?xs "(code, p)"] by simp
  from inline_lookup_runs [OF assms(1-8) q_def q'_def this] e show ?thesis by blast
qed

theorem a64_inline_hash_lookup_agrees_witness:
  "\<exists>t' code' p' s'. a64_inline_hash_lookup 0x60000000 witness_thread 5 0x400000 3 True True (Map.empty, 0x50010000) = Ok (t', code', p') \<and>
    reaches code' lookup_state s' \<and> pc_reg s' = 0x50020000 \<and> xregs s' 30 = 0x400004"
proof -
  have v: "hash_view big_table 0x1004 = Some 0x50020000"
    unfolding hash_view_Some [OF big_table_inv] by (auto simp: big_table_key big_table_def intro!: exI [of _ "0x401"])
  have s: "mem lookup_state = table_mem" "sp_reg lookup_state = 0x7000" "pc_reg lookup_state = 0x50010000" "xreg lookup_state 3 = 0x1004"
    by (simp_all add: lookup_state_def witness_state_def xreg_def)
  have al: "aligned_to 8 0x60000000" "aligned_to 16 0x7000" by code_simp+
  have size: "ht_size big_table = CODE_CACHE_HASH_SIZE + CODE_CACHE_HASH_OVERP"
    by (simp add: big_table_def CODE_CACHE_HASH_SIZE_def CODE_CACHE_HASH_OVERP_def)
  have bb: "(0 :: int) \<le> 5 \<and> 5 < META_SIZE" by code_simp
  from a64_inline_hash_lookup_agrees [OF big_table_inv size, where entries = "0x60000000" and s = lookup_state and p = "0x50010000"
      and t = witness_thread and set_meta = True and bb = 5 and rn = 3 and link = True and ra = "0x400000" and code = Map.empty]
  show ?thesis
    using big_table_in al witness_near(1) bb by (auto simp: s v handed_over_def)
qed

end
