(* ===== verification/Plugin_Types.thy ===== *)
theory Plugin_Types
  imports Dbm_Types Interval_Map
begin

text \<open>
  The structures of the plugin interface (\<open>api/plugin_support.h\<close>) and MAMBO's global state (\<open>dbm_global\<close> of
  \<open>dbm.h\<close>). A pointer to a thread is a key of a thread store, a callback is the number of a function whose behaviour
  is an argument of the definitions that call it. The anonymous union of a context is a datatype: reading a member that
  is not the active one is undefined. A pointer to a single cell (the scanner's stop flag, a system call's
  registers) is the value of the cell, or \<open>None\<close>.
\<close>

section \<open>Events and errors\<close>

type_synonym mambo_cb_idx = int

definition PLUGIN_REG :: mambo_cb_idx where "PLUGIN_REG = 0"
definition PRE_INST_C :: mambo_cb_idx where "PRE_INST_C = 1"
definition POST_INST_C :: mambo_cb_idx where "POST_INST_C = 2"
definition PRE_BB_C :: mambo_cb_idx where "PRE_BB_C = 3"
definition POST_BB_C :: mambo_cb_idx where "POST_BB_C = 4"
definition PRE_FRAGMENT_C :: mambo_cb_idx where "PRE_FRAGMENT_C = 5"
definition POST_FRAGMENT_C :: mambo_cb_idx where "POST_FRAGMENT_C = 6"
definition PRE_SYSCALL_C :: mambo_cb_idx where "PRE_SYSCALL_C = 7"
definition POST_SYSCALL_C :: mambo_cb_idx where "POST_SYSCALL_C = 8"
definition PRE_THREAD_C :: mambo_cb_idx where "PRE_THREAD_C = 9"
definition POST_THREAD_C :: mambo_cb_idx where "POST_THREAD_C = 10"
definition PRE_FN_C :: mambo_cb_idx where "PRE_FN_C = 11"
definition POST_FN_C :: mambo_cb_idx where "POST_FN_C = 12"
definition EXIT_C :: mambo_cb_idx where "EXIT_C = 13"
definition VM_OP_C :: mambo_cb_idx where "VM_OP_C = 14"
definition CALLBACK_MAX_IDX :: mambo_cb_idx where "CALLBACK_MAX_IDX = 15"

lemmas cb_idx_defs = PLUGIN_REG_def PRE_INST_C_def POST_INST_C_def PRE_BB_C_def POST_BB_C_def PRE_FRAGMENT_C_def
  POST_FRAGMENT_C_def PRE_SYSCALL_C_def POST_SYSCALL_C_def PRE_THREAD_C_def POST_THREAD_C_def PRE_FN_C_def POST_FN_C_def
  EXIT_C_def VM_OP_C_def CALLBACK_MAX_IDX_def

definition MAMBO_SUCCESS :: int where "MAMBO_SUCCESS = 0"
definition MAMBO_INVALID_PLUGIN_ID :: int where "MAMBO_INVALID_PLUGIN_ID = -1"
definition MAMBO_CB_ALREADY_SET :: int where "MAMBO_CB_ALREADY_SET = -2"
definition MAMBO_INVALID_CB :: int where "MAMBO_INVALID_CB = -3"
definition MAMBO_INVALID_THREAD :: int where "MAMBO_INVALID_THREAD = -4"

lemmas mambo_errors = MAMBO_SUCCESS_def MAMBO_INVALID_PLUGIN_ID_def MAMBO_CB_ALREADY_SET_def MAMBO_INVALID_CB_def
  MAMBO_INVALID_THREAD_def

section \<open>Contexts\<close>

type_synonym mambo_callback = nat

text \<open>The condition \<open>AL\<close> of \<open>mambo_cond\<close>.\<close>

definition AL :: u32 where "AL = 14"

record code_ctx =
  fragment_type :: cc_type
  fragment_id :: int
  inst_type :: inst_set
  read_address :: uintptr
  ctx_inst :: int
  ctx_cond :: u32
  write_p :: uintptr
  data_p :: uintptr
  pushed_regs :: u32
  available_regs :: u32
  plugin_pushed_reg_count :: int
  func_name :: string
  ctx_replace :: bool
  ctx_stop :: "bool option"

record syscall_ctx =
  sys_number :: uintptr
  sys_regs :: "uintptr list"
  sys_replace :: bool
  sys_ret :: uintptr

record vm_ctx =
  vm_op :: vm_op_t
  vm_addr :: uintptr
  vm_size :: uintptr
  vm_prot :: int
  vm_flags :: int
  vm_filedes :: int
  vm_off :: int

datatype ctx_union = Code_ctx code_ctx | Syscall_ctx syscall_ctx | Vm_ctx vm_ctx | No_ctx

record mambo_context =
  ctx_thread :: "nat option"
  event_type :: mambo_cb_idx
  plugin_id :: int
  ctx_u :: ctx_union

fun code_of :: "ctx_union \<Rightarrow> code_ctx res" where
  "code_of (Code_ctx c) = Ok c"
| "code_of _ = Undef"

fun syscall_of :: "ctx_union \<Rightarrow> syscall_ctx res" where
  "syscall_of (Syscall_ctx c) = Ok c"
| "syscall_of _ = Undef"

fun vm_of :: "ctx_union \<Rightarrow> vm_ctx res" where
  "vm_of (Vm_ctx c) = Ok c"
| "vm_of _ = Undef"

definition set_code :: "mambo_context \<Rightarrow> code_ctx \<Rightarrow> mambo_context" where
  "set_code ctx c = ctx\<lparr>ctx_u := Code_ctx c\<rparr>"

definition set_syscall :: "mambo_context \<Rightarrow> syscall_ctx \<Rightarrow> mambo_context" where
  "set_syscall ctx c = ctx\<lparr>ctx_u := Syscall_ctx c\<rparr>"

section \<open>Global state\<close>

record mambo_plugin =
  cbs :: "mambo_callback option list"
  plugin_data :: uintptr

record watched_func =
  wf_name :: string
  wf_plugin_id :: int
  pre_callback :: "mambo_callback option"
  post_callback :: "mambo_callback option"

text \<open>\<open>funcps\<close> entries point to an entry of \<open>funcs\<close>: the pointer is its index.\<close>

record watched_funcp =
  wfp_addr :: uintptr
  wfp_func :: nat

definition MAX_WATCHED_FUNCS :: int where "MAX_WATCHED_FUNCS = 40"
definition MAX_WATCHED_FUNC_PTRS :: int where "MAX_WATCHED_FUNC_PTRS = 80"

text \<open>A mutex is whether it is held.\<close>

record watched_functions =
  func_count :: int
  funcs_lock :: bool
  funcs :: "watched_func list"
  funcp_count :: int
  funcps_lock :: bool
  funcps :: "watched_funcp list"

record dbm_global =
  exec_allocs :: interval_map
  g_threads :: "nat option"
  exit_group :: int
  free_plugin :: int
  plugins :: "mambo_plugin list"
  watched_functions :: watched_functions
  reg_ctx :: mambo_context

text \<open>The arrays of the global state have their declared lengths.\<close>

definition global_ok :: "'a dbm_global_scheme \<Rightarrow> bool" where
  "global_ok g \<longleftrightarrow> int (length (plugins g)) = MAX_PLUGIN_NO \<and> 0 \<le> free_plugin g \<and>
     (\<forall>p \<in> set (plugins g). int (length (cbs p)) = CALLBACK_MAX_IDX)"

end
