(* ===== verification/Function_Watch.thy ===== *)
theory Function_Watch
  imports Plugin_Types "HOL-Library.Multiset"
begin

text \<open>
  The watched functions of \<open>elf/symbol_parser.c\<close>: plugins register function names, and the addresses at which a loaded
  ELF file defines them are collected and dropped again when the file is unmapped. The two mutexes are default ones:
  a thread that locks a mutex which it already holds never continues.
\<close>

section \<open>Operations\<close>

definition function_watch_lock_funcs :: "watched_functions \<Rightarrow> watched_functions res" where
  "function_watch_lock_funcs self = (if funcs_lock self then Spin else Ok (self\<lparr>funcs_lock := True\<rparr>))"

definition function_watch_lock_funcps :: "watched_functions \<Rightarrow> watched_functions res" where
  "function_watch_lock_funcps self = (if funcps_lock self then Spin else Ok (self\<lparr>funcps_lock := True\<rparr>))"

definition function_watch_unlock_funcs :: "watched_functions \<Rightarrow> watched_functions" where
  "function_watch_unlock_funcs self = self\<lparr>funcs_lock := False\<rparr>"

definition function_watch_unlock_funcps :: "watched_functions \<Rightarrow> watched_functions" where
  "function_watch_unlock_funcps self = self\<lparr>funcps_lock := False\<rparr>"

definition function_watch_init :: "watched_functions \<Rightarrow> watched_functions" where
  "function_watch_init self = self\<lparr>funcs_lock := False, funcps_lock := False\<rparr>"

fun watch_search_loop :: "watched_functions \<Rightarrow> string \<Rightarrow> nat \<Rightarrow> int \<Rightarrow> int res" where
  "watch_search_loop self name 0 i = Ok 0"
| "watch_search_loop self name (Suc n) i =
     res_bind (arr_get (funcs self) i) (\<lambda>f. if wf_name f = name then Ok 1 else watch_search_loop self name n (i + 1))"

definition function_watch_search :: "watched_functions \<Rightarrow> string \<Rightarrow> int res" where
  "function_watch_search self name = watch_search_loop self name (nat (func_count self)) 0"

definition function_watch_add ::
    "watched_functions \<Rightarrow> string \<Rightarrow> int \<Rightarrow> mambo_callback option \<Rightarrow> mambo_callback option \<Rightarrow> (int \<times> watched_functions) res" where
  "function_watch_add self name pid pre post =
     res_bind (function_watch_lock_funcs self) (\<lambda>self.
     res_bind (function_watch_search self name) (\<lambda>found.
     if found > 0 then Ok (-101, self)
     else
       let idx = func_count self; self = self\<lparr>func_count := func_count self + 1\<rparr> in
       if idx \<ge> MAX_WATCHED_FUNCS then Ok (-102, self)
       else res_bind (arr_set (funcs self) idx
              \<lparr>wf_name = name, wf_plugin_id = pid, pre_callback = pre, post_callback = post\<rparr>) (\<lambda>fs.
            Ok (0, function_watch_unlock_funcs (self\<lparr>funcs := fs\<rparr>)))))"

text \<open>Whether the pair is among the first \<open>n\<close> pointers from index \<open>i\<close>.\<close>

fun watch_has_ptr :: "watched_functions \<Rightarrow> nat \<Rightarrow> uintptr \<Rightarrow> nat \<Rightarrow> int \<Rightarrow> bool res" where
  "watch_has_ptr self func addr 0 i = Ok False"
| "watch_has_ptr self func addr (Suc n) i =
     res_bind (arr_get (funcps self) i) (\<lambda>p.
       if wfp_func p = func \<and> wfp_addr p = addr then Ok True else watch_has_ptr self func addr n (i + 1))"

definition function_watch_addp :: "watched_functions \<Rightarrow> nat \<Rightarrow> uintptr \<Rightarrow> (int \<times> watched_functions) res" where
  "function_watch_addp self func addr =
     res_bind (function_watch_lock_funcps self) (\<lambda>self.
     res_bind (watch_has_ptr self func addr (nat (funcp_count self)) 0) (\<lambda>found.
     if found then Ok (0, function_watch_unlock_funcps self)
     else
       let idx = funcp_count self in
       if idx \<ge> MAX_WATCHED_FUNC_PTRS then Ok (-2, function_watch_unlock_funcps self)
       else res_bind (arr_set (funcps self) idx \<lparr>wfp_addr = addr, wfp_func = func\<rparr>) (\<lambda>ps.
            Ok (0, function_watch_unlock_funcps (self\<lparr>funcps := ps, funcp_count := funcp_count self + 1\<rparr>)))))"

fun watch_try_addp_loop :: "watched_functions \<Rightarrow> string \<Rightarrow> uintptr \<Rightarrow> nat \<Rightarrow> nat \<Rightarrow> watched_functions res" where
  "watch_try_addp_loop self name addr 0 i = Ok self"
| "watch_try_addp_loop self name addr (Suc n) i =
     res_bind (arr_get (funcs self) (int i)) (\<lambda>f.
     res_bind (if wf_name f = name then
                 res_bind (function_watch_addp self i addr) (\<lambda>(ret, self).
                 res_bind (res_assert (ret = 0)) (\<lambda>_. Ok self))
               else Ok self) (\<lambda>self.
     watch_try_addp_loop self name addr n (Suc i)))"

definition function_watch_try_addp :: "watched_functions \<Rightarrow> string \<Rightarrow> uintptr \<Rightarrow> watched_functions res" where
  "function_watch_try_addp self name addr =
     res_bind (function_watch_lock_funcs self) (\<lambda>self.
     res_bind (watch_try_addp_loop self name addr (nat (func_count self)) 0) (\<lambda>self.
     Ok (function_watch_unlock_funcs self)))"

definition function_watch_delete_addp :: "watched_functions \<Rightarrow> int \<Rightarrow> (int \<times> watched_functions) res" where
  "function_watch_delete_addp self i =
     (let lst = funcp_count self - 1 in
      if i > lst then Ok (-1, self)
      else res_bind
        (if i < lst then
           res_bind (arr_get (funcps self) lst) (\<lambda>p.
           res_bind (arr_set (funcps self) i p) (\<lambda>ps. Ok (self\<lparr>funcps := ps\<rparr>)))
         else Ok self) (\<lambda>self.
      Ok (0, self\<lparr>funcp_count := lst\<rparr>)))"

definition ptr_in :: "uintptr \<Rightarrow> uintptr \<Rightarrow> watched_funcp \<Rightarrow> bool" where
  "ptr_in addr sz p \<longleftrightarrow> wfp_addr p \<ge> addr \<and> wfp_addr p < addr + sz"

lemma delete_addp_count:
  "function_watch_delete_addp self i = Ok (0, self') \<Longrightarrow> funcp_count self' = funcp_count self - 1"
  by (auto simp: function_watch_delete_addp_def Let_def res_bind_eq_Ok split: if_splits)

function watch_invalidate_loop :: "watched_functions \<Rightarrow> uintptr \<Rightarrow> uintptr \<Rightarrow> int \<Rightarrow> int \<Rightarrow> (int \<times> watched_functions) res" where
  "watch_invalidate_loop self addr sz i ret =
     (if i < funcp_count self then
        res_bind (arr_get (funcps self) i) (\<lambda>p.
          if ptr_in addr sz p then
            res_bind (function_watch_delete_addp self i) (\<lambda>(ret, self').
              if ret = 0 then watch_invalidate_loop self' addr sz (i + 1) ret else Assert_Fail)
          else watch_invalidate_loop self addr sz (i + 1) ret)
      else Ok (ret, self))"
  by pat_completeness auto
termination
  by (relation "measure (\<lambda>(self, addr, sz, i, ret). nat (funcp_count self - i))") (auto dest: delete_addp_count)

declare watch_invalidate_loop.simps [simp del]

definition function_watch_addp_invalidate :: "watched_functions \<Rightarrow> uintptr \<Rightarrow> uintptr \<Rightarrow> (int \<times> watched_functions) res" where
  "function_watch_addp_invalidate self addr sz =
     res_bind (function_watch_lock_funcps self) (\<lambda>self.
     res_bind (watch_invalidate_loop self addr sz 0 (-1)) (\<lambda>(ret, self).
     Ok (ret, function_watch_unlock_funcps self)))"

section \<open>Reading an ELF file's symbols\<close>

text \<open>
  What libelf delivers for a file: its type and, for every section, whether it is a symbol table and its symbols (value,
  whether it is a function, and its name). Only the fields the code reads are present.
\<close>

record elf_sym =
  st_value :: uintptr
  st_is_func :: bool
  st_name :: string

record elf_file =
  e_is_exec :: bool
  e_sections :: "(bool \<times> elf_sym list) list"

fun watch_parse_syms :: "uintptr \<Rightarrow> elf_sym list \<Rightarrow> watched_functions \<Rightarrow> watched_functions res" where
  "watch_parse_syms base [] self = Ok self"
| "watch_parse_syms base (y # syms) self =
     res_bind (if st_value y \<noteq> 0 \<and> st_is_func y
               then function_watch_try_addp self (st_name y) (base + st_value y) else Ok self)
       (watch_parse_syms base syms)"

fun watch_parse_sections :: "uintptr \<Rightarrow> (bool \<times> elf_sym list) list \<Rightarrow> watched_functions \<Rightarrow> watched_functions res" where
  "watch_parse_sections base [] self = Ok self"
| "watch_parse_sections base ((is_symtab, syms) # scns) self =
     res_bind (if is_symtab then watch_parse_syms base syms self else Ok self) (watch_parse_sections base scns)"

text \<open>The file is \<open>None\<close> when its header cannot be read.\<close>

definition function_watch_parse_elf :: "watched_functions \<Rightarrow> elf_file option \<Rightarrow> uintptr \<Rightarrow> (int \<times> watched_functions) res" where
  "function_watch_parse_elf self elf base_addr =
     (case elf of
        None \<Rightarrow> Ok (-1, self)
      | Some f \<Rightarrow> res_bind (watch_parse_sections (if e_is_exec f then 0 else base_addr) (e_sections f) self) (\<lambda>self. Ok (0, self)))"

section \<open>The invariant\<close>

text \<open>The live prefix of the pointer array.\<close>

definition watch_ptrs :: "watched_functions \<Rightarrow> watched_funcp list" where
  "watch_ptrs self = take (nat (funcp_count self)) (funcps self)"

definition watch_ok :: "watched_functions \<Rightarrow> bool" where
  "watch_ok self \<longleftrightarrow> int (length (funcs self)) = MAX_WATCHED_FUNCS \<and> int (length (funcps self)) = MAX_WATCHED_FUNC_PTRS \<and>
     0 \<le> func_count self \<and> func_count self \<le> MAX_WATCHED_FUNCS \<and>
     0 \<le> funcp_count self \<and> funcp_count self \<le> MAX_WATCHED_FUNC_PTRS"

lemma watch_ptrs_length: "watch_ok self \<Longrightarrow> int (length (watch_ptrs self)) = funcp_count self"
  by (auto simp: watch_ok_def watch_ptrs_def min_def)

lemma watch_ptrs_nth: "watch_ok self \<Longrightarrow> 0 \<le> i \<Longrightarrow> i < funcp_count self \<Longrightarrow> arr_get (funcps self) i = Ok (watch_ptrs self ! nat i)"
  by (auto simp: watch_ok_def watch_ptrs_def arr_get_def)

lemma delete_addp_spec:
  assumes "watch_ok self" "0 \<le> i" "i < funcp_count self"
  shows "\<exists>self'. function_watch_delete_addp self i = Ok (0, self') \<and> watch_ok self' \<and>
    watch_ptrs self' = butlast ((watch_ptrs self)[nat i := last (watch_ptrs self)]) \<and>
    funcs self' = funcs self \<and> func_count self' = func_count self \<and> funcs_lock self' = funcs_lock self \<and> funcps_lock self' = funcps_lock self"
proof -
  let ?n = "nat (funcp_count self)" and ?L = "watch_ptrs self"
  have len: "length ?L = ?n" "?n \<le> length (funcps self)" "0 < ?n" "nat i < ?n"
    using assms by (auto simp: watch_ok_def watch_ptrs_def)
  have lst: "last ?L = funcps self ! (?n - 1)"
    using len by (metis last_conv_nth length_greater_0_conv nth_take diff_less zero_less_one watch_ptrs_def)
  show ?thesis
  proof (cases "i < funcp_count self - 1")
    case True
    have "take (?n - 1) ((funcps self)[nat i := funcps self ! (?n - 1)]) = butlast (?L[nat i := last ?L])"
      using len by (simp add: lst [symmetric, unfolded One_nat_def] butlast_conv_take watch_ptrs_def take_update_swap take_take min_def)
    moreover have "nat (funcp_count self - 1) = ?n - 1" by simp
    ultimately show ?thesis
      using True assms len by (auto simp: function_watch_delete_addp_def watch_ok_def watch_ptrs_def arr_get_def nat_diff_distrib)
  next
    case False
    then have i: "nat i = ?n - 1" "i = funcp_count self - 1" using assms by auto
    have "?L[?n - 1 := last ?L] = ?L" using len by (metis last_conv_nth length_greater_0_conv list_update_id)
    then have "take (?n - 1) (funcps self) = butlast (?L[nat i := last ?L])"
      using len i(1) by (simp add: butlast_conv_take watch_ptrs_def take_take min_def)
    with False assms len i show ?thesis
      by (auto simp: function_watch_delete_addp_def watch_ok_def watch_ptrs_def nat_diff_distrib)
  qed
qed

section \<open>Invalidation\<close>

text \<open>What the loop does to the list of pointers: the last one moves into a deleted slot, which is then passed over.\<close>

function invalidated :: "('a \<Rightarrow> bool) \<Rightarrow> nat \<Rightarrow> 'a list \<Rightarrow> 'a list" where
  "invalidated P i L =
     (if i < length L then
        if P (L ! i) then invalidated P (Suc i) (butlast (L[i := last L])) else invalidated P (Suc i) L
      else L)"
  by pat_completeness auto
termination
  by (relation "measure (\<lambda>(P, i, L). length L - i)") auto

declare invalidated.simps [simp del]

lemma mset_delete_swap:
  assumes "i < length L"
  shows "add_mset (L ! i) (mset (butlast (L[i := last L]))) = mset L"
proof -
  let ?M = "L[i := last L]"
  have ne: "L \<noteq> []" "?M \<noteq> []" using assms by auto
  have "last ?M = last L" using assms by (metis last_list_update list_update_nonempty ne(1))
  then have "mset ?M = add_mset (last L) (mset (butlast ?M))"
    using ne(2) by (metis append_butlast_last_id mset_append mset_single_iff_right union_mset_add_mset_right add_mset_add_single)
  moreover have "mset ?M = add_mset (last L) (mset L - {#L ! i#})"
    using assms by (simp add: mset_update)
  ultimately have "mset (butlast ?M) = mset L - {#L ! i#}" by simp
  then show ?thesis using assms by simp
qed

lemma invalidated_keeps: "filter_mset (\<lambda>x. \<not> P x) (mset (invalidated P i L)) = filter_mset (\<lambda>x. \<not> P x) (mset L)"
proof (induction P i L rule: invalidated.induct)
  case (1 P i L)
  show ?case
  proof (cases "i < length L \<and> P (L ! i)")
    case True
    have "filter_mset (\<lambda>x. \<not> P x) (mset L) = filter_mset (\<lambda>x. \<not> P x) (mset (butlast (L[i := last L])))"
      using True mset_delete_swap [of i L] by (metis filter_mset_add_mset)
    with 1 True show ?thesis by (subst invalidated.simps) simp
  next
    case False
    with 1 show ?thesis by (subst invalidated.simps) simp
  qed
qed

lemma invalidated_half: "list_all P L \<Longrightarrow> i \<le> length L \<Longrightarrow> length (invalidated P i L) = (length L + i) div 2"
proof (induction P i L rule: invalidated.induct)
  case (1 P i L)
  show ?case
  proof (cases "i < length L")
    case True
    let ?M = "butlast (L[i := last L])"
    have "L \<noteq> []" using True by auto
    then have "set (L[i := last L]) \<subseteq> set L" by (simp add: set_update_subsetI)
    then have all: "list_all P ?M" using "1.prems"(1) by (auto simp: list_all_iff dest: in_set_butlastD)
    have p: "P (L ! i)" using True "1.prems"(1) by (simp add: list_all_length)
    show ?thesis
    proof (cases "Suc i \<le> length ?M")
      case True': True
      with "1.IH"(1) [OF True p all] True p show ?thesis by (subst invalidated.simps) simp
    next
      case False
      then have "length L = Suc i" using True by simp
      then have "invalidated P (Suc i) ?M = ?M" by (subst invalidated.simps) simp
      with True p \<open>length L = Suc i\<close> show ?thesis by (subst invalidated.simps) simp
    qed
  next
    case False
    with "1.prems" show ?thesis by (subst invalidated.simps) simp
  qed
qed

lemma invalidated_subset: "mset (invalidated P i L) \<subseteq># mset L"
proof (induction P i L rule: invalidated.induct)
  case (1 P i L)
  show ?case
  proof (cases "i < length L \<and> P (L ! i)")
    case True
    then have "mset (butlast (L[i := last L])) \<subseteq># mset L" using mset_delete_swap [of i L] by (metis mset_subset_eq_add_right add_mset_add_single union_commute)
    with 1 True show ?thesis by (subst invalidated.simps) (auto intro: subset_mset.order_trans)
  next
    case False
    with 1 show ?thesis by (subst invalidated.simps) auto
  qed
qed

text \<open>A pointer that is not dropped stays where it is, unless it moves into the slot of a dropped one.\<close>

lemma invalidated_nth: "j < length (invalidated P i L) \<Longrightarrow> \<not> P (L ! j) \<Longrightarrow> invalidated P i L ! j = L ! j"
proof (induction P i L rule: invalidated.induct)
  case (1 P i L)
  show ?case
  proof (cases "i < length L \<and> P (L ! i)")
    case True
    let ?M = "butlast (L[i := last L])"
    have eq: "invalidated P i L = invalidated P (Suc i) ?M" using True by (subst invalidated.simps) simp
    have "length (invalidated P (Suc i) ?M) \<le> length ?M" using invalidated_subset [of P "Suc i" ?M] by (metis size_mset size_mset_mono)
    then have j: "j < length ?M" "j \<noteq> i" using 1(3,4) True unfolding eq by auto
    then have "?M ! j = L ! j" by (simp add: nth_butlast)
    then show ?thesis using 1(1) True 1(3,4) unfolding eq by simp
  next
    case False
    then have "invalidated P i L = (if i < length L then invalidated P (Suc i) L else L)" by (subst invalidated.simps) simp
    then show ?thesis using 1(2-4) False by (auto split: if_splits)
  qed
qed

lemma invalidated_count:
  "length (filter P (invalidated P i L)) \<le> length (filter P (take i L)) + length (filter P (drop i L)) div 2"
proof (induction P i L rule: invalidated.induct)
  case (1 P i L)
  consider "i < length L" "P (L ! i)" "Suc i = length L" | "i < length L" "P (L ! i)" "Suc i < length L" | "i < length L" "\<not> P (L ! i)" | "length L \<le> i"
    by linarith
  then show ?case
  proof cases
    case 1
    then have "L \<noteq> []" by auto
    then have "last L = L ! i" using 1(3) by (simp add: last_conv_nth flip: 1(3))
    then have "butlast (L[i := last L]) = take i L" using 1(3) by (simp add: butlast_conv_take flip: 1(3))
    moreover have "invalidated P (Suc i) (take i L) = take i L" by (subst invalidated.simps) simp
    ultimately show ?thesis using 1 by (subst invalidated.simps) simp
  next
    case 2
    let ?M = "butlast (L[i := last L])" and ?D = "drop (Suc i) L"
    have D: "?D = butlast ?D @ [last L]" using 2(3) append_butlast_last_id [of ?D] by (simp add: last_drop)
    have M: "?M = take i L @ last L # butlast ?D"
      using 2(1,3) by (simp add: upd_conv_take_nth_drop butlast_append)
    have "length (filter P (invalidated P (Suc i) ?M)) \<le> length (filter P (take (Suc i) ?M)) + length (filter P (drop (Suc i) ?M)) div 2"
      using "1.IH"(1) 2 by blast
    moreover have "take (Suc i) ?M = take i L @ [last L]" "drop (Suc i) ?M = butlast ?D" using 2(1) by (simp_all add: M)
    moreover have "length (filter P (drop i L)) = Suc (length (filter P ?D))" using 2(1,2) by (simp add: Cons_nth_drop_Suc [symmetric])
    moreover have "length (filter P ?D) = length (filter P (butlast ?D)) + (if P (last L) then 1 else 0)" by (subst D) simp
    ultimately show ?thesis using 2(1,2) by (subst invalidated.simps) (auto split: if_splits)
  next
    case 3
    have "filter P (take (Suc i) L) = filter P (take i L)" "filter P (drop i L) = filter P (drop (Suc i) L)"
      using 3 by (simp_all add: take_Suc_conv_app_nth Cons_nth_drop_Suc [symmetric])
    then show ?thesis using "1.IH"(2) 3 by (subst invalidated.simps) simp
  next
    case 4
    then show ?thesis by (subst invalidated.simps) simp
  qed
qed

lemma watch_invalidate_loop_spec:
  "watch_ok self \<Longrightarrow> 0 \<le> i \<Longrightarrow> \<exists>ret' self'. watch_invalidate_loop self addr sz i ret = Ok (ret', self') \<and> watch_ok self' \<and>
     watch_ptrs self' = invalidated (ptr_in addr sz) (nat i) (watch_ptrs self)"
proof (induction self addr sz i ret rule: watch_invalidate_loop.induct)
  case (1 self addr sz i ret)
  show ?case
  proof (cases "i < funcp_count self")
    case True
    have get: "arr_get (funcps self) i = Ok (watch_ptrs self ! nat i)" using watch_ptrs_nth "1.prems" True by simp
    have lt: "nat i < length (watch_ptrs self)" using watch_ptrs_length [OF "1.prems"(1)] True "1.prems"(2) by linarith
    have suc: "nat (i + 1) = Suc (nat i)" using "1.prems"(2) by simp
    show ?thesis
    proof (cases "ptr_in addr sz (watch_ptrs self ! nat i)")
      case True': True
      obtain self' where d: "function_watch_delete_addp self i = Ok (0, self')" "watch_ok self'"
          "watch_ptrs self' = butlast ((watch_ptrs self)[nat i := last (watch_ptrs self)])"
        using delete_addp_spec [OF "1.prems" True] by blast
      have "\<exists>ret' self''. watch_invalidate_loop self' addr sz (i + 1) 0 = Ok (ret', self'') \<and> watch_ok self'' \<and>
          watch_ptrs self'' = invalidated (ptr_in addr sz) (nat (i + 1)) (watch_ptrs self')"
        using "1.IH"(1) [OF True get True' d(1) refl refl d(2)] "1.prems"(2) by simp
      with True True' get d lt suc show ?thesis
        by (subst watch_invalidate_loop.simps, subst invalidated.simps) simp
    next
      case False
      have "\<exists>ret' self''. watch_invalidate_loop self addr sz (i + 1) ret = Ok (ret', self'') \<and> watch_ok self'' \<and>
          watch_ptrs self'' = invalidated (ptr_in addr sz) (nat (i + 1)) (watch_ptrs self)"
        using "1.IH"(2) [OF True get False "1.prems"(1)] "1.prems"(2) by simp
      with True False get lt suc show ?thesis
        by (subst watch_invalidate_loop.simps, subst invalidated.simps) simp
    qed
  next
    case False
    then have "\<not> nat i < length (watch_ptrs self)" using watch_ptrs_length [OF "1.prems"(1)] by linarith
    with False "1.prems" show ?thesis by (subst watch_invalidate_loop.simps, subst invalidated.simps) simp
  qed
qed

section \<open>Searching and adding\<close>

definition watch_names :: "watched_functions \<Rightarrow> string list" where
  "watch_names self = map wf_name (take (nat (func_count self)) (funcs self))"

lemma watch_search_loop_spec:
  assumes "i + n \<le> length (funcs self)"
  shows "watch_search_loop self name n (int i) = Ok (if name \<in> wf_name ` set (take n (drop i (funcs self))) then 1 else 0)"
  using assms
proof (induction n arbitrary: i)
  case (Suc n)
  have "take (Suc n) (drop i (funcs self)) = funcs self ! i # take n (drop (Suc i) (funcs self))"
    using Suc.prems by (simp add: Cons_nth_drop_Suc [symmetric])
  moreover have "watch_search_loop self name n (int i + 1) = Ok (if name \<in> wf_name ` set (take n (drop (Suc i) (funcs self))) then 1 else 0)"
    using Suc.IH [of "Suc i"] Suc.prems by (simp add: add.commute)
  ultimately show ?case using Suc.prems by auto
qed simp

lemma function_watch_search_spec:
  "watch_ok self \<Longrightarrow> function_watch_search self name = Ok (if name \<in> set (watch_names self) then 1 else 0)"
  using watch_search_loop_spec [of 0 "nat (func_count self)" self name]
  by (auto simp: watch_ok_def function_watch_search_def watch_names_def)

lemma function_watch_add_ok:
  assumes ok: "watch_ok self" and "\<not> funcs_lock self" "name \<notin> set (watch_names self)" "func_count self < MAX_WATCHED_FUNCS"
  shows "\<exists>self'. function_watch_add self name pid pre post = Ok (0, self') \<and> watch_ok self' \<and> \<not> funcs_lock self' \<and>
    watch_names self' = watch_names self @ [name] \<and> func_count self' = func_count self + 1"
proof -
  let ?s = "self\<lparr>funcs_lock := True\<rparr>"
  let ?f = "\<lparr>wf_name = name, wf_plugin_id = pid, pre_callback = pre, post_callback = post\<rparr>"
  have s: "watch_ok ?s" "watch_names ?s = watch_names self" using ok by (simp_all add: watch_ok_def watch_names_def)
  have n: "0 \<le> func_count self" "int (length (funcs self)) = MAX_WATCHED_FUNCS" using ok by (simp_all add: watch_ok_def)
  have "take (nat (func_count self + 1)) ((funcs self)[nat (func_count self) := ?f]) = take (nat (func_count self)) (funcs self) @ [?f]"
    using n assms(4) by (simp add: nat_add_distrib take_Suc_conv_app_nth)
  then show ?thesis
    using assms function_watch_search_spec [OF s(1), of name] s(2) n
    by (auto simp: function_watch_add_def function_watch_lock_funcs_def function_watch_unlock_funcs_def Let_def watch_ok_def watch_names_def)
qed

section \<open>Properties\<close>

text \<open>C26: Unmapping a range keeps every watched address outside the range, adds none and leaves the mutex free. Of the addresses inside
  the range at least half are dropped, so a single one always is, but not all: the pointer that moves into a freed slot is not examined. Whatever
  survives inside the range stands in a slot that held an address of the range before; all other slots are unchanged. When every recorded address
  lies in the range, exactly half of them, rounded down, survive.\<close>

theorem function_watch_addp_invalidate_half:
  assumes "watch_ok self" "\<not> funcps_lock self"
  shows "\<exists>ret self'. function_watch_addp_invalidate self addr sz = Ok (ret, self') \<and> \<not> funcps_lock self' \<and> watch_ok self' \<and>
    filter_mset (\<lambda>p. \<not> ptr_in addr sz p) (mset (watch_ptrs self')) = filter_mset (\<lambda>p. \<not> ptr_in addr sz p) (mset (watch_ptrs self)) \<and>
    mset (watch_ptrs self') \<subseteq># mset (watch_ptrs self) \<and>
    2 * length (filter (ptr_in addr sz) (watch_ptrs self')) \<le> length (filter (ptr_in addr sz) (watch_ptrs self)) \<and>
    (\<forall>j < length (watch_ptrs self'). \<not> ptr_in addr sz (watch_ptrs self ! j) \<longrightarrow> watch_ptrs self' ! j = watch_ptrs self ! j) \<and>
    (list_all (ptr_in addr sz) (watch_ptrs self) \<longrightarrow> length (watch_ptrs self') = length (watch_ptrs self) div 2)"
proof -
  let ?s = "self\<lparr>funcps_lock := True\<rparr>"
  have "watch_ok ?s" "watch_ptrs ?s = watch_ptrs self" using assms(1) by (simp_all add: watch_ok_def watch_ptrs_def)
  then obtain ret self' where l: "watch_invalidate_loop ?s addr sz 0 (-1) = Ok (ret, self')" "watch_ok self'"
      "watch_ptrs self' = invalidated (ptr_in addr sz) 0 (watch_ptrs self)"
    using watch_invalidate_loop_spec [of ?s 0 addr sz "-1"] by auto
  let ?r = "function_watch_unlock_funcps self'"
  have r: "watch_ok ?r" "watch_ptrs ?r = watch_ptrs self'" "\<not> funcps_lock ?r"
    using l(2) by (simp_all add: watch_ok_def watch_ptrs_def function_watch_unlock_funcps_def)
  have "function_watch_addp_invalidate self addr sz = Ok (ret, ?r)"
    using l(1) assms(2) by (simp add: function_watch_addp_invalidate_def function_watch_lock_funcps_def)
  moreover have "2 * length (filter (ptr_in addr sz) (watch_ptrs self')) \<le> length (filter (ptr_in addr sz) (watch_ptrs self))"
    using invalidated_count [of "ptr_in addr sz" 0 "watch_ptrs self"] by (simp add: l(3))
  ultimately show ?thesis
    using r l(3) invalidated_keeps [of "ptr_in addr sz" 0 "watch_ptrs self"] invalidated_half [of "ptr_in addr sz" "watch_ptrs self" 0]
      invalidated_subset [of "ptr_in addr sz" 0 "watch_ptrs self"] invalidated_nth [of _ "ptr_in addr sz" 0 "watch_ptrs self"]
    by (intro exI [of _ ret] exI [of _ ?r]) simp
qed

definition two_ptrs :: watched_functions where
  "two_ptrs = \<lparr>func_count = 1, funcs_lock = False,
     funcs = replicate 40 \<lparr>wf_name = ''malloc'', wf_plugin_id = 0, pre_callback = Some 1, post_callback = None\<rparr>,
     funcp_count = 2, funcps_lock = False, funcps = replicate 80 \<lparr>wfp_addr = 0x400000, wfp_func = 0\<rparr>\<rparr>"

lemma two_ptrs_ok: "watch_ok two_ptrs" "\<not> funcps_lock two_ptrs" "\<not> funcs_lock two_ptrs"
  by (simp_all add: watch_ok_def two_ptrs_def MAX_WATCHED_FUNCS_def MAX_WATCHED_FUNC_PTRS_def)

theorem function_watch_addp_invalidate_half_witness:
  "\<exists>ret self'. function_watch_addp_invalidate two_ptrs 0x400000 0x1000 = Ok (ret, self') \<and> length (watch_ptrs self') = 1"
proof -
  have "list_all (ptr_in 0x400000 0x1000) (watch_ptrs two_ptrs)" "length (watch_ptrs two_ptrs) = 2"
    by (simp_all add: watch_ptrs_def two_ptrs_def ptr_in_def list_all_iff)
  then show ?thesis
    using function_watch_addp_invalidate_half [OF two_ptrs_ok(1,2), of "0x400000" "0x1000"] by auto
qed

text \<open>C27: Registering a watched function appends it, unless its name is already watched or the array is full: then the
  call returns an error with the mutex still held, so that the next registration and the next symbol lookup never return;
  a full array has its count raised beyond its size.\<close>

theorem function_watch_add_outcomes:
  assumes "watch_ok self" "\<not> funcs_lock self"
  shows "\<exists>ret self'. function_watch_add self name pid pre post = Ok (ret, self') \<and>
    (if name \<notin> set (watch_names self) \<and> func_count self < MAX_WATCHED_FUNCS
     then ret = 0 \<and> watch_ok self' \<and> \<not> funcs_lock self' \<and> watch_names self' = watch_names self @ [name]
     else ret < 0 \<and> watch_names self' = watch_names self \<and>
       (name \<notin> set (watch_names self) \<longrightarrow> func_count self' = MAX_WATCHED_FUNCS + 1) \<and>
       function_watch_add self' name2 pid2 pre2 post2 = Spin \<and> function_watch_try_addp self' name2 addr = Spin)"
proof -
  let ?s = "self\<lparr>funcs_lock := True\<rparr>"
  have ok: "watch_ok ?s" "watch_names ?s = watch_names self" using assms(1) by (simp_all add: watch_ok_def watch_names_def)
  note se = function_watch_search_spec [OF ok(1), of name]
  have n: "0 \<le> func_count self" "func_count self \<le> MAX_WATCHED_FUNCS" "int (length (funcs self)) = MAX_WATCHED_FUNCS"
    using assms(1) by (simp_all add: watch_ok_def)
  note unf = function_watch_add_def function_watch_lock_funcs_def function_watch_try_addp_def function_watch_unlock_funcs_def Let_def
  consider "name \<in> set (watch_names self)" | "name \<notin> set (watch_names self)" "func_count self = MAX_WATCHED_FUNCS"
    | "name \<notin> set (watch_names self)" "func_count self < MAX_WATCHED_FUNCS"
    using n(2) by fastforce
  then show ?thesis
  proof cases
    case 1
    then show ?thesis using assms(2) se ok(2) by (simp add: unf)
  next
    case 2
    then have "watch_names (?s\<lparr>func_count := func_count self + 1\<rparr>) = watch_names self"
      using n by (simp add: watch_names_def)
    with 2 assms(2) se ok(2) show ?thesis by (simp add: unf)
  next
    case 3
    then show ?thesis using function_watch_add_ok [OF assms 3, of pid pre post] by auto
  qed
qed

theorem function_watch_add_outcomes_witness:
  "\<exists>ret self'. function_watch_add two_ptrs ''malloc'' 1 None None = Ok (ret, self') \<and> ret < 0 \<and>
     function_watch_add self' ''free'' 1 None None = Spin"
proof -
  have "''malloc'' \<in> set (watch_names two_ptrs)"
    by (simp add: watch_names_def two_ptrs_def)
  then show ?thesis
    using function_watch_add_outcomes [OF two_ptrs_ok(1,3), of "''malloc''" 1 None None "''free''" 1 None None 0] by auto
qed

end
