(* ===== verification/A64_Helpers.thy ===== *)
theory A64_Helpers
  imports A64_Inline_Lookup Plugin_Types Reg_List
begin

text \<open>
  The code emission helpers of the plugin interface (\<open>api/helpers.c\<close>), AArch64 build, with the accessors of
  \<open>api/plugin_support.c\<close> they use. A context is the code member of the \<open>mambo_context\<close> union; it is passed together
  with the code memory its write pointer points into. Verified are the round trip of register pushes and pops, the
  immediate addition, the counter increment, and what goes wrong in two of the helpers.
\<close>

section \<open>The context's accessors\<close>

type_synonym emit_ctx = "code_ctx \<times> a64_code"

definition mambo_get_inst :: "code_ctx \<Rightarrow> int" where "mambo_get_inst c = ctx_inst c"
definition mambo_get_inst_type :: "code_ctx \<Rightarrow> inst_set" where "mambo_get_inst_type c = inst_type c"
definition mambo_get_fragment_id :: "code_ctx \<Rightarrow> int" where "mambo_get_fragment_id c = fragment_id c"
definition mambo_get_fragment_type :: "code_ctx \<Rightarrow> cc_type" where "mambo_get_fragment_type c = fragment_type c"

definition mambo_get_inst_len :: "code_ctx \<Rightarrow> int" where
  "mambo_get_inst_len c = (if mambo_get_inst c = -1 then -1 else 4)"

definition mambo_get_source_addr :: "code_ctx \<Rightarrow> uintptr" where "mambo_get_source_addr c = read_address c"
definition mambo_get_cc_addr :: "code_ctx \<Rightarrow> uintptr" where "mambo_get_cc_addr c = write_p c"

definition mambo_set_cc_addr :: "code_ctx \<Rightarrow> uintptr \<Rightarrow> code_ctx res" where
  "mambo_set_cc_addr c addr = res_bind (res_assert (write_p c \<noteq> 0)) (\<lambda>_. Ok (c\<lparr>write_p := addr\<rparr>))"

definition mambo_get_cond :: "code_ctx \<Rightarrow> u32" where "mambo_get_cond c = ctx_cond c"
definition mambo_is_cond :: "code_ctx \<Rightarrow> bool" where "mambo_is_cond c \<longleftrightarrow> ctx_cond c \<noteq> AL"

definition mambo_get_inverted_cond :: "u32 \<Rightarrow> u32" where
  "mambo_get_inverted_cond cond = invert_cond (cond AND 0xF)"

definition mambo_replace_inst :: "code_ctx \<Rightarrow> code_ctx" where
  "mambo_replace_inst c = c\<lparr>ctx_replace := True\<rparr>"

section \<open>Pushing and popping registers\<close>

text \<open>The generated wrappers \<open>emit_a64_...\<close> encode at the context's write pointer and advance it.\<close>

definition with_write_p :: "(a64_out \<Rightarrow> a64_out) \<Rightarrow> emit_ctx \<Rightarrow> emit_ctx" where
  "with_write_p f e = (let w = f (snd e, write_p (fst e)) in ((fst e)\<lparr>write_p := snd w\<rparr>, fst w))"

definition emit_a64 :: "a64_inst \<Rightarrow> emit_ctx \<Rightarrow> emit_ctx" where
  "emit_a64 i = with_write_p (emit_inst i)"

definition reg_bit :: "u32 \<Rightarrow> u32" where
  "reg_bit r = push_bit (unat r) 1"

text \<open>The loops run at most once per two registers of the mask, so a fuel of 32 rounds is never exhausted.\<close>

fun a64_push_loop :: "nat \<Rightarrow> u32 \<Rightarrow> a64_out \<Rightarrow> a64_out res" where
  "a64_push_loop 0 regs w = No_Fuel"
| "a64_push_loop (Suc n) regs w =
     (if regs \<noteq> 0 then
        res_bind (get_highest_n_regs AArch64 regs 2) (\<lambda>(reg_no, to_push).
        res_bind (res_assert (reg_no = 2)) (\<lambda>_.
        a64_push_loop n (regs AND NOT (reg_bit (to_push ! 0) OR reg_bit (to_push ! 1)))
          (a64_push_pair_reg (ucast (to_push ! 1)) (ucast (to_push ! 0)) w)))
      else Ok w)"

definition emit_a64_push :: "emit_ctx \<Rightarrow> u32 \<Rightarrow> emit_ctx res" where
  "emit_a64_push e regs =
     (let reg_no = count_bits regs;
          ctx = (fst e)\<lparr>plugin_pushed_reg_count := plugin_pushed_reg_count (fst e) + int reg_no\<rparr>;
          w = (snd e, write_p ctx) in
      res_bind
        (if odd reg_no then
           res_bind (get_highest_n_regs AArch64 regs 1) (\<lambda>(reg_no, to_push).
           res_bind (res_assert (reg_no = 1)) (\<lambda>_.
           Ok (regs AND NOT (reg_bit (to_push ! 0)), a64_push_reg (ucast (to_push ! 0)) w)))
         else Ok (regs, w)) (\<lambda>(regs, w).
      res_bind (a64_push_loop 32 regs w) (\<lambda>w.
      Ok (ctx\<lparr>write_p := snd w\<rparr>, fst w))))"

fun a64_pop_loop :: "nat \<Rightarrow> u32 \<Rightarrow> a64_out \<Rightarrow> a64_out res" where
  "a64_pop_loop 0 regs w = No_Fuel"
| "a64_pop_loop (Suc n) regs w =
     (if regs \<noteq> 0 then
        let (reg_no, to_pop) = get_lowest_n_regs AArch64 regs 2 in
        res_bind (res_assert (reg_no = 1 \<or> reg_no = 2)) (\<lambda>_.
        if reg_no = 2 then
          a64_pop_loop n (regs AND NOT (reg_bit (to_pop ! 0) OR reg_bit (to_pop ! 1)))
            (a64_pop_pair_reg (ucast (to_pop ! 0)) (ucast (to_pop ! 1)) w)
        else a64_pop_loop n (regs AND NOT (reg_bit (to_pop ! 0))) (a64_pop_reg (ucast (to_pop ! 0)) w))
      else Ok w)"

definition emit_a64_pop :: "emit_ctx \<Rightarrow> u32 \<Rightarrow> emit_ctx res" where
  "emit_a64_pop e regs =
     (let ctx = (fst e)\<lparr>plugin_pushed_reg_count := plugin_pushed_reg_count (fst e) - int (count_bits regs)\<rparr> in
      res_bind (res_assert (plugin_pushed_reg_count ctx \<ge> 0)) (\<lambda>_.
      res_bind (a64_pop_loop 32 regs (snd e, write_p ctx)) (\<lambda>w.
      Ok (ctx\<lparr>write_p := snd w\<rparr>, fst w))))"

definition emit_push :: "emit_ctx \<Rightarrow> u32 \<Rightarrow> emit_ctx res" where
  "emit_push e regs = emit_a64_push e regs"

definition emit_pop :: "emit_ctx \<Rightarrow> u32 \<Rightarrow> emit_ctx res" where
  "emit_pop e regs = res_bind (res_assert (plugin_pushed_reg_count (fst e) \<ge> 0)) (\<lambda>_. emit_a64_pop e regs)"

section \<open>Arithmetic\<close>

definition LSL :: nat where "LSL = 0"
definition LSR :: nat where "LSR = 1"
definition ASR :: nat where "ASR = 2"

text \<open>Registers are passed as \<open>int\<close>; a negative third operand asks for a subtraction.\<close>

definition emit_a64_add_sub_shift :: "emit_ctx \<Rightarrow> int \<Rightarrow> int \<Rightarrow> int \<Rightarrow> nat \<Rightarrow> nat \<Rightarrow> int \<times> emit_ctx" where
  "emit_a64_add_sub_shift e rd rn rm shift_type shift =
     (if shift > 63 \<or> shift_type > ASR then (-1, e)
      else (0, emit_a64 (a64_ADD_SUB_shift_reg 1 (if rm < 0 then 1 else 0) 0 (of_nat shift_type) (word_of_int \<bar>rm\<bar>)
                 (of_nat shift) (word_of_int rn) (word_of_int rd)) e))"

definition emit_a64_add_sub :: "emit_ctx \<Rightarrow> int \<Rightarrow> int \<Rightarrow> int \<Rightarrow> int \<times> emit_ctx" where
  "emit_a64_add_sub e rd rn rm = emit_a64_add_sub_shift e rd rn rm LSL 0"

definition emit_a64_add_sub_ext :: "emit_ctx \<Rightarrow> int \<Rightarrow> int \<Rightarrow> int \<Rightarrow> int \<Rightarrow> int \<Rightarrow> int \<times> emit_ctx" where
  "emit_a64_add_sub_ext e rd rn rm ext_option shift =
     (if shift > 4 \<or> shift < 0 then (-1, e)
      else (0, emit_a64 (a64_ADD_SUB_ext_reg 1 (if rm < 0 then 1 else 0) 0 (word_of_int \<bar>rm\<bar>) (word_of_int ext_option)
                 (word_of_int shift) (word_of_int rn) (word_of_int rd)) e))"

definition emit_set_reg :: "emit_ctx \<Rightarrow> 5 word \<Rightarrow> uintptr \<Rightarrow> emit_ctx" where
  "emit_set_reg e reg val = with_write_p (a64_copy_to_reg_64bits reg val) e"

definition emit_set_reg_ptr :: "emit_ctx \<Rightarrow> 5 word \<Rightarrow> uintptr \<Rightarrow> emit_ctx" where
  "emit_set_reg_ptr e reg p = emit_set_reg e reg p"

definition emit_mov :: "emit_ctx \<Rightarrow> int \<Rightarrow> int \<Rightarrow> emit_ctx" where
  "emit_mov e rd rn =
     (if rn = 31 then emit_a64 (a64_ADD_SUB_immed 1 0 0 0 0 (word_of_int rn) (word_of_int rd)) e
      else emit_a64 (a64_logical_reg 1 1 0 0 (word_of_int rn) 0 0x1F (word_of_int rd)) e)"

definition SHIFTED_ADD_SUB_I_BITS :: nat where "SHIFTED_ADD_SUB_I_BITS = 12"
definition SHIFTED_ADD_SUB_I_MASK :: int where "SHIFTED_ADD_SUB_I_MASK = push_bit SHIFTED_ADD_SUB_I_BITS 1 - 1"
definition SHIFTED_ADD_SUB_MAX :: int where
  "SHIFTED_ADD_SUB_MAX = SHIFTED_ADD_SUB_I_MASK OR push_bit SHIFTED_ADD_SUB_I_BITS SHIFTED_ADD_SUB_I_MASK"

text \<open>\<open>_emit_add_shift_imm\<close> and \<open>_emit_sub_shift_imm\<close>, which differ in the opcode bit.\<close>

definition emit_shift_imm :: "1 word \<Rightarrow> emit_ctx \<Rightarrow> int \<Rightarrow> int \<Rightarrow> int \<Rightarrow> nat \<Rightarrow> emit_ctx res" where
  "emit_shift_imm op e rd rn off shift =
     res_bind (res_assert (shift = 0 \<or> shift = 12)) (\<lambda>_.
     Ok (emit_a64 (a64_ADD_SUB_immed 1 op 0 (if shift = 12 then 1 else 0) (word_of_int off) (word_of_int rn) (word_of_int rd)) e))"

definition add_sub_halves :: "1 word \<Rightarrow> emit_ctx \<Rightarrow> int \<Rightarrow> int \<Rightarrow> int \<Rightarrow> emit_ctx res" where
  "add_sub_halves op e rd rn off =
     res_bind
       (if off AND SHIFTED_ADD_SUB_I_MASK \<noteq> 0 then
          res_bind (emit_shift_imm op e rd rn (off AND SHIFTED_ADD_SUB_I_MASK) 0) (\<lambda>e. Ok (e, rd))
        else Ok (e, rn)) (\<lambda>(e, rn).
     if off AND push_bit SHIFTED_ADD_SUB_I_BITS SHIFTED_ADD_SUB_I_MASK \<noteq> 0 then
       emit_shift_imm op e rd rn (drop_bit SHIFTED_ADD_SUB_I_BITS off) SHIFTED_ADD_SUB_I_BITS
     else Ok e)"

definition emit_add_sub_i :: "emit_ctx \<Rightarrow> int \<Rightarrow> int \<Rightarrow> int \<Rightarrow> (int \<times> emit_ctx) res" where
  "emit_add_sub_i e rd rn off =
     (if off = 0 then
        (if rd \<noteq> rn then Ok (0, emit_mov e rd rn) else Ok (0, e))
      else if off < - SHIFTED_ADD_SUB_MAX \<or> off > SHIFTED_ADD_SUB_MAX then Ok (-1, e)
      else if off < 0 then res_bind (add_sub_halves 1 e rd rn (- off)) (\<lambda>e. Ok (0, e))
      else res_bind (add_sub_halves 0 e rd rn off) (\<lambda>e. Ok (0, e)))"

definition emit_add_sub_shift :: "emit_ctx \<Rightarrow> int \<Rightarrow> int \<Rightarrow> int \<Rightarrow> nat \<Rightarrow> nat \<Rightarrow> int \<times> emit_ctx" where
  "emit_add_sub_shift e rd rn rm shift_type shift = emit_a64_add_sub_shift e rd rn rm shift_type shift"

definition emit_add_sub :: "emit_ctx \<Rightarrow> int \<Rightarrow> int \<Rightarrow> int \<Rightarrow> int \<times> emit_ctx" where
  "emit_add_sub e rd rn rm = emit_add_sub_shift e rd rn rm LSL 0"

section \<open>Branches\<close>

text \<open>\<open>__emit_branch_cond\<close> writes at an address of its own and leaves the context alone.\<close>

definition emit_branch_cond_at :: "uintptr \<Rightarrow> uintptr \<Rightarrow> u32 \<Rightarrow> bool \<Rightarrow> a64_code \<Rightarrow> (int \<times> a64_code) res" where
  "emit_branch_cond_at write target cond link code =
     (let diff = sint (target - write) in
      if cond \<noteq> AL \<and> link then Ok (-1, code)
      else if cond = AL then
        if diff < -134217728 \<or> diff > 134217724 then Ok (-1, code)
        else res_bind (a64_branch_helper write target link code) (\<lambda>code. Ok (0, code))
      else
        if diff < -1048576 \<or> diff > 1048572 then Ok (-1, code)
        else res_bind (a64_b_cond_helper write target (ucast cond) code) (\<lambda>code. Ok (0, code)))"

text \<open>A direct call is written without advancing the write pointer.\<close>

definition emit_fcall :: "emit_ctx \<Rightarrow> uintptr \<Rightarrow> emit_ctx res" where
  "emit_fcall e function_ptr =
     res_bind (emit_branch_cond_at (write_p (fst e)) function_ptr AL True (snd e)) (\<lambda>(ret, code).
     if ret = 0 then Ok (fst e, code)
     else Ok (emit_a64 (a64_BLR lr) (emit_set_reg (fst e, code) lr function_ptr)))"

definition MAX_FCALL_ARGS :: int where "MAX_FCALL_ARGS = 8"

definition emit_safe_fcall :: "uintptr \<Rightarrow> emit_ctx \<Rightarrow> uintptr \<Rightarrow> int \<Rightarrow> (int \<times> emit_ctx) res" where
  "emit_safe_fcall safe_fcall_trampoline e function_ptr argno =
     (let to_push = push_bit 30 1 OR 0x1FF :: uintptr in
      if argno > MAX_FCALL_ARGS then Ok (-1, e)
      else if MAX_FCALL_ARGS - argno \<ge> 32 then Undef
      else
        let to_push = to_push AND NOT (drop_bit (nat (MAX_FCALL_ARGS - argno)) (push_bit (nat MAX_FCALL_ARGS) 1 - 1)) in
        res_bind (emit_push e (ucast to_push)) (\<lambda>e.
        let e = emit_set_reg_ptr e (word_of_int MAX_FCALL_ARGS) function_ptr in
        res_bind (emit_fcall e safe_fcall_trampoline) (\<lambda>e.
        res_bind (emit_pop e (ucast to_push)) (\<lambda>e. Ok (0, e)))))"

text \<open>The variable arguments are a list; reading past it is undefined.\<close>

fun set_static_args :: "nat \<Rightarrow> nat \<Rightarrow> uintptr list \<Rightarrow> emit_ctx \<Rightarrow> emit_ctx res" where
  "set_static_args 0 a args e = Ok e"
| "set_static_args (Suc n) a [] e = Undef"
| "set_static_args (Suc n) a (v # args) e = set_static_args n (Suc a) args (emit_set_reg e (of_nat a) v)"

definition emit_safe_fcall_static_args ::
    "uintptr \<Rightarrow> emit_ctx \<Rightarrow> uintptr \<Rightarrow> int \<Rightarrow> uintptr list \<Rightarrow> (int \<times> emit_ctx) res" where
  "emit_safe_fcall_static_args safe_fcall_trampoline e fptr argno args =
     (if argno > MAX_FCALL_ARGS \<or> argno < 0 then Ok (-1, e)
      else
        let reglist = (if argno > 0 then drop_bit (nat (8 - argno)) 0xFF else 0) in
        res_bind (if argno > 0 then res_bind (emit_push e reglist) (set_static_args (nat argno) 0 args) else Ok e) (\<lambda>e.
        res_bind (emit_safe_fcall safe_fcall_trampoline e fptr argno) (\<lambda>(_, e).
        res_bind (if argno > 0 then emit_pop e reglist else Ok e) (\<lambda>e. Ok (0, e)))))"

definition emit_branch_cond :: "emit_ctx \<Rightarrow> uintptr \<Rightarrow> u32 \<Rightarrow> (int \<times> emit_ctx) res" where
  "emit_branch_cond e target cond =
     (let p = mambo_get_cc_addr (fst e) in
      res_bind (emit_branch_cond_at p target cond False (snd e)) (\<lambda>(ret, code).
      if ret = 0 then res_bind (mambo_set_cc_addr (fst e) (p + 4)) (\<lambda>c. Ok (ret, c, code)) else Ok (ret, fst e, code)))"

definition emit_branch :: "emit_ctx \<Rightarrow> uintptr \<Rightarrow> (int \<times> emit_ctx) res" where
  "emit_branch e target = emit_branch_cond e target AL"

definition emit_branch_cbz_cbnz_at :: "uintptr \<Rightarrow> uintptr \<Rightarrow> 5 word \<Rightarrow> bool \<Rightarrow> a64_code \<Rightarrow> int \<times> a64_code" where
  "emit_branch_cbz_cbnz_at p target reg is_cbz code = a64_cbz_cbnz_helper p (\<not> is_cbz) target 1 reg code"

definition emit_branch_cbz_cbnz :: "emit_ctx \<Rightarrow> uintptr \<Rightarrow> 5 word \<Rightarrow> bool \<Rightarrow> (int \<times> emit_ctx) res" where
  "emit_branch_cbz_cbnz e target reg is_cbz =
     (let p = mambo_get_cc_addr (fst e); (ret, code) = emit_branch_cbz_cbnz_at p target reg is_cbz (snd e) in
      if ret = 0 then res_bind (mambo_set_cc_addr (fst e) (p + 4)) (\<lambda>c. Ok (ret, c, code)) else Ok (ret, fst e, code))"

definition emit_branch_cbz :: "emit_ctx \<Rightarrow> uintptr \<Rightarrow> 5 word \<Rightarrow> (int \<times> emit_ctx) res" where
  "emit_branch_cbz e target reg = emit_branch_cbz_cbnz e target reg True"

definition emit_branch_cbnz :: "emit_ctx \<Rightarrow> uintptr \<Rightarrow> 5 word \<Rightarrow> (int \<times> emit_ctx) res" where
  "emit_branch_cbnz e target reg = emit_branch_cbz_cbnz e target reg False"

text \<open>A reserved branch is the location it will be written to.\<close>

record mambo_branch =
  loc :: uintptr

definition mambo_reserve :: "code_ctx \<Rightarrow> mambo_branch \<Rightarrow> uintptr \<Rightarrow> int \<times> code_ctx \<times> mambo_branch" where
  "mambo_reserve c br incr =
     (if write_p c \<noteq> 0 then (0, c\<lparr>write_p := write_p c + incr\<rparr>, br\<lparr>loc := write_p c\<rparr>) else (-1, c, br))"

definition mambo_reserve_branch :: "code_ctx \<Rightarrow> mambo_branch \<Rightarrow> int \<times> code_ctx \<times> mambo_branch" where
  "mambo_reserve_branch c br = mambo_reserve c br 4"

definition mambo_reserve_branch_cbz :: "code_ctx \<Rightarrow> mambo_branch \<Rightarrow> int \<times> code_ctx \<times> mambo_branch" where
  "mambo_reserve_branch_cbz c br = mambo_reserve c br 4"

definition emit_local_branch_at :: "emit_ctx \<Rightarrow> mambo_branch \<Rightarrow> u32 \<Rightarrow> bool \<Rightarrow> (int \<times> emit_ctx) res" where
  "emit_local_branch_at e br cond link =
     (let target = mambo_get_cc_addr (fst e) in
      res_bind (emit_branch_cond_at (loc br) target cond link (snd e)) (\<lambda>(ret, code). Ok (ret, fst e, code)))"

definition emit_local_branch_cond :: "emit_ctx \<Rightarrow> mambo_branch \<Rightarrow> u32 \<Rightarrow> (int \<times> emit_ctx) res" where
  "emit_local_branch_cond e br cond = emit_local_branch_at e br cond False"

definition emit_local_branch :: "emit_ctx \<Rightarrow> mambo_branch \<Rightarrow> (int \<times> emit_ctx) res" where
  "emit_local_branch e br = emit_local_branch_at e br AL False"

definition emit_local_fcall :: "emit_ctx \<Rightarrow> mambo_branch \<Rightarrow> (int \<times> emit_ctx) res" where
  "emit_local_fcall e br = emit_local_branch_at e br AL True"

definition emit_local_branch_cbz_cbnz :: "emit_ctx \<Rightarrow> mambo_branch \<Rightarrow> 5 word \<Rightarrow> bool \<Rightarrow> int \<times> emit_ctx" where
  "emit_local_branch_cbz_cbnz e br reg is_cbz =
     (let (ret, code) = emit_branch_cbz_cbnz_at (loc br) (mambo_get_cc_addr (fst e)) reg is_cbz (snd e) in (ret, fst e, code))"

definition emit_local_branch_cbz :: "emit_ctx \<Rightarrow> mambo_branch \<Rightarrow> 5 word \<Rightarrow> int \<times> emit_ctx" where
  "emit_local_branch_cbz e br reg = emit_local_branch_cbz_cbnz e br reg True"

definition emit_local_branch_cbnz :: "emit_ctx \<Rightarrow> mambo_branch \<Rightarrow> 5 word \<Rightarrow> int \<times> emit_ctx" where
  "emit_local_branch_cbnz e br reg = emit_local_branch_cbz_cbnz e br reg False"

section \<open>Counters and indirect branches\<close>

definition emit_counter64_incr :: "emit_ctx \<Rightarrow> uintptr \<Rightarrow> u32 \<Rightarrow> emit_ctx res" where
  "emit_counter64_incr e counter incr =
     res_bind (res_assert (incr \<le> 0xFFF)) (\<lambda>_.
     res_bind (emit_a64_push e (reg_bit 0 OR reg_bit 1)) (\<lambda>e.
     let e = with_write_p (a64_copy_to_reg_64bits x0 counter) e;
         e = emit_a64 (a64_LDR_STR_unsigned_immed 3 0 1 0 x0 x1) e;
         e = emit_a64 (a64_ADD_SUB_immed 1 0 0 0 (ucast incr) x1 x1) e;
         e = emit_a64 (a64_LDR_STR_unsigned_immed 3 0 0 0 x0 x1) e
     in emit_a64_pop e (reg_bit 0 OR reg_bit 1)))"

definition emit_indirect_branch_by_spc :: "uintptr \<Rightarrow> 'a dbm_thread_scheme \<Rightarrow> emit_ctx \<Rightarrow> 5 word \<Rightarrow> emit_ctx res" where
  "emit_indirect_branch_by_spc entries current_thread e reg =
     res_bind (a64_inline_hash_lookup entries current_thread 0 (read_address (fst e)) reg False False (snd e, write_p (fst e)))
       (\<lambda>(_, w). Ok ((fst e)\<lparr>write_p := snd w\<rparr>, fst w))"


section \<open>What pushing and popping emit\<close>

definition regs_of :: "u32 \<Rightarrow> nat list" where
  "regs_of regs = filter (bit regs) [0 ..< 32]"

text \<open>The registers in ascending order are popped pairwise and pushed in the opposite order.\<close>

fun pop_seq :: "nat list \<Rightarrow> a64_inst list" where
  "pop_seq [] = []"
| "pop_seq [r] = [a64_LDR_STR_immed 3 0 1 16 1 sp (of_nat r)]"
| "pop_seq (a # b # rs) = a64_LDP_STP 2 0 1 1 2 (of_nat b) sp (of_nat a) # pop_seq rs"

fun push_seq :: "nat list \<Rightarrow> a64_inst list" where
  "push_seq [] = []"
| "push_seq [r] = [a64_LDR_STR_immed 3 0 0 (-16) 3 sp (of_nat r)]"
| "push_seq (a # b # rs) = push_seq rs @ [a64_LDP_STP 2 0 3 0 (-2) (of_nat b) sp (of_nat a)]"

lemma push_seq_last:
  "even (length rs) \<Longrightarrow> push_seq (rs @ [r]) = a64_LDR_STR_immed 3 0 0 (-16) 3 sp (of_nat r) # push_seq rs"
  "even (length rs) \<Longrightarrow> push_seq (rs @ [a, b]) = a64_LDP_STP 2 0 3 0 (-2) (of_nat b) sp (of_nat a) # push_seq rs"
  by (induction rs rule: push_seq.induct) auto

lemma regs_of_AArch64: "regs_from AArch64 regs 0 = regs_of regs"
  by (simp add: regs_from_def regs_of_def)

lemma regs_of_less: "r \<in> set (regs_of regs) \<Longrightarrow> r < 32"
  by (simp add: regs_of_def)

lemma regs_of_length: "length (regs_of regs) \<le> 32"
  using length_filter_le [of "bit regs" "[0 ..< 32]"] by (simp add: regs_of_def)

lemma regs_of_Nil: "regs_of regs = [] \<longleftrightarrow> regs = 0"
  by (auto simp: regs_of_def filter_empty_conv intro!: bit_word_eqI)

lemma regs_of_clear: "regs_of (regs AND NOT (reg_bit r)) = filter (\<lambda>x. x \<noteq> unat r) (regs_of regs)"
  unfolding regs_of_def filter_filter by (rule filter_cong) (auto simp: bit_simps reg_bit_def)

lemma regs_of_clear2:
  "regs_of (regs AND NOT (reg_bit r OR reg_bit r')) = filter (\<lambda>x. x \<noteq> unat r \<and> x \<noteq> unat r') (regs_of regs)"
  unfolding regs_of_def filter_filter by (rule filter_cong) (auto simp: bit_simps reg_bit_def)

lemma regs_of_distinct: "distinct (regs_of regs)"
  by (simp add: regs_of_def)

lemma count_bits_regs: "count_bits regs = length (regs_of regs)"
proof -
  have "bits_of (unat regs) = set (regs_of regs)"
    using bit_imp_le_length [of regs] by (auto simp: bits_of_def bit_unsigned_iff regs_of_def)
  then show ?thesis
    using distinct_card [OF regs_of_distinct [of regs]] by (simp add: count_bits_def count_bits_loop_card)
qed

lemma reg_of_nat: "unat (r :: u32) = n \<Longrightarrow> ucast r = (of_nat n :: 5 word)"
  by auto

lemma highest_regs:
  assumes "n \<le> length (regs_of regs)" "0 < n"
  obtains to_push where "get_highest_n_regs AArch64 regs (int n) = Ok (n, to_push)" "map unat to_push = take n (rev (regs_of regs))"
  using highest_loop [of 32 n AArch64 regs] assms that by (auto simp: get_highest_n_regs_def Let_def regs_of_def)

lemma even_length_last2:
  assumes "even (length xs)" "xs \<noteq> []"
  obtains ys a b where "xs = ys @ [a, b]"
proof -
  obtain zs b where zs: "xs = zs @ [b]" using assms(2) by (cases xs rule: rev_cases) auto
  then have "zs \<noteq> []" using assms(1) by auto
  then obtain ys a where "zs = ys @ [a]" by (cases zs rule: rev_cases) auto
  with zs show thesis by (intro that) simp
qed

lemma push_loop_emits:
  "even (length (regs_of regs)) \<Longrightarrow> length (regs_of regs) < 2 * n \<Longrightarrow> a64_push_loop n regs w = Ok (emit_seq (push_seq (regs_of regs)) w)"
proof (induction n arbitrary: regs w)
  case 0
  then show ?case by simp
next
  case (Suc n)
  show ?case
  proof (cases "regs = 0")
    case False
    then obtain rs a b where rs: "regs_of regs = rs @ [a, b]"
      using even_length_last2 [OF Suc.prems(1)] regs_of_Nil by blast
    then obtain t where t: "get_highest_n_regs AArch64 regs (int 2) = Ok (2, t)" "map unat t = [b, a]"
      using highest_regs [of 2 regs] by auto
    then have u: "unat (t ! 0) = b" "unat (t ! 1) = a" by (auto simp: map_eq_Cons_conv)
    let ?r = "regs AND NOT (reg_bit (t ! 0) OR reg_bit (t ! 1))"
    have "a \<notin> set rs" "b \<notin> set rs" "a \<noteq> b" using regs_of_distinct [of regs] unfolding rs by auto
    then have r: "regs_of ?r = rs"
      unfolding regs_of_clear2 rs u by (auto intro!: filter_True)
    have ev: "even (length rs)" using Suc.prems(1) by (simp add: rs)
    have "a64_push_loop n ?r (a64_push_pair_reg (ucast (t ! 1)) (ucast (t ! 0)) w) =
        Ok (emit_seq (push_seq rs) (a64_push_pair_reg (ucast (t ! 1)) (ucast (t ! 0)) w))"
      using Suc.IH [of ?r] Suc.prems(2) ev unfolding r by (simp add: rs)
    then show ?thesis
      using False t(1) by (simp add: rs push_seq_last(2) [OF ev] a64_push_pair_reg_def reg_of_nat [OF u(1)] reg_of_nat [OF u(2)] del: One_nat_def)
  qed (simp add: regs_of_Nil [THEN iffD2])
qed

lemma emit_a64_push_emits:
  "emit_a64_push e regs =
     (let w = emit_seq (push_seq (regs_of regs)) (snd e, write_p (fst e)) in
      Ok ((fst e)\<lparr>plugin_pushed_reg_count := plugin_pushed_reg_count (fst e) + int (length (regs_of regs)), write_p := snd w\<rparr>, fst w))"
proof (cases "even (length (regs_of regs))")
  case True
  have "length (regs_of regs) < 2 * 32" using regs_of_length [of regs] by simp
  with True show ?thesis
    by (simp add: emit_a64_push_def Let_def count_bits_regs push_loop_emits)
next
  case False
  then obtain rs r where rs: "regs_of regs = rs @ [r]" by (cases "regs_of regs" rule: rev_cases) auto
  with False have ev: "even (length rs)" by simp
  obtain t where t: "get_highest_n_regs AArch64 regs (int 1) = Ok (1, t)" "map unat t = [r]"
    using highest_regs [of 1 regs] rs by auto
  then have u: "unat (t ! 0) = r" by auto
  let ?r = "regs AND NOT (reg_bit (t ! 0))"
  have "r \<notin> set rs" using regs_of_distinct [of regs] unfolding rs by simp
  then have r: "regs_of ?r = rs" unfolding regs_of_clear rs u by (auto intro!: filter_True)
  have "length rs < 2 * 32" using regs_of_length [of regs] rs by simp
  with r ev have "a64_push_loop 32 ?r w = Ok (emit_seq (push_seq rs) w)" for w
    using push_loop_emits [of ?r 32 w] by simp
  then show ?thesis
    using False t(1) ev
    by (simp add: emit_a64_push_def Let_def count_bits_regs rs push_seq_last(1) a64_push_reg_def reg_of_nat [OF u])
qed

lemma lowest_regs:
  obtains to_pop where "get_lowest_n_regs AArch64 regs 2 = (min 2 (length (regs_of regs)), to_pop)"
    "take (length (regs_of regs)) (map unat to_pop) = take 2 (regs_of regs)"
proof -
  obtain c t where t: "get_lowest_n_regs_loop AArch64 regs 2 (-1) = (c, t)" by (cases "get_lowest_n_regs_loop AArch64 regs 2 (-1)")
  from lowest_loop [OF this] have "map unat t = take 2 (regs_of regs) @ replicate (2 - length (regs_of regs)) (unat (reg_invalid AArch64))"
    "c = min 2 (length (regs_of regs))" by (simp_all add: regs_of_AArch64)
  then have "take (length (regs_of regs)) (map unat t) = take 2 (regs_of regs)"
    by (cases "regs_of regs"; cases "tl (regs_of regs)") simp_all
  with t \<open>c = _\<close> show thesis by (intro that [of t]) (simp_all add: get_lowest_n_regs_def)
qed

lemma pop_loop_emits:
  "Suc (length (regs_of regs)) < 2 * n \<Longrightarrow> a64_pop_loop n regs w = Ok (emit_seq (pop_seq (regs_of regs)) w)"
proof (induction n arbitrary: regs w)
  case 0
  then show ?case by simp
next
  case (Suc n)
  obtain t where t: "get_lowest_n_regs AArch64 regs 2 = (min 2 (length (regs_of regs)), t)"
    "take (length (regs_of regs)) (map unat t) = take 2 (regs_of regs)" by (rule lowest_regs)
  consider "regs_of regs = []" | r where "regs_of regs = [r]" | a b rs where "regs_of regs = a # b # rs"
    by (metis list.exhaust)
  then show ?case
  proof cases
    case 1
    then have "regs = 0" using regs_of_Nil by simp
    with 1 show ?thesis by simp
  next
    case (2 r)
    then have u: "unat (t ! 0) = r" "regs \<noteq> 0" using t(2) regs_of_Nil [of regs] by (cases t; auto)+
    have "regs_of (regs AND NOT (reg_bit (t ! 0))) = []" unfolding regs_of_clear 2 u by simp
    then have "a64_pop_loop n (regs AND NOT (reg_bit (t ! 0))) w = Ok w" for w
      using Suc.IH [of "regs AND NOT (reg_bit (t ! 0))" w] Suc.prems 2 by simp
    with t(1) u show ?thesis by (simp add: 2 a64_pop_reg_def reg_of_nat [OF u(1)])
  next
    case (3 a b rs)
    then have u: "unat (t ! 0) = a" "unat (t ! 1) = b" "regs \<noteq> 0" using t(2) regs_of_Nil [of regs] by (cases t; cases "tl t"; auto)+
    let ?r = "regs AND NOT (reg_bit (t ! 0) OR reg_bit (t ! 1))"
    have "a \<notin> set rs" "b \<notin> set rs" using regs_of_distinct [of regs] unfolding 3 by auto
    then have r: "regs_of ?r = rs" unfolding regs_of_clear2 3 u by (auto intro!: filter_True)
    have "a64_pop_loop n ?r w = Ok (emit_seq (pop_seq rs) w)" for w
      using Suc.IH [of ?r w] Suc.prems unfolding r by (simp add: 3)
    with t(1) u show ?thesis by (simp add: 3 a64_pop_pair_reg_def reg_of_nat [OF u(1)] reg_of_nat [OF u(2)] del: One_nat_def)
  qed
qed

lemma emit_a64_pop_emits:
  "emit_a64_pop e regs =
     (let w = emit_seq (pop_seq (regs_of regs)) (snd e, write_p (fst e)); n = plugin_pushed_reg_count (fst e) - int (length (regs_of regs)) in
      if n < 0 then Assert_Fail else Ok ((fst e)\<lparr>plugin_pushed_reg_count := n, write_p := snd w\<rparr>, fst w))"
proof -
  have "Suc (length (regs_of regs)) < 2 * 32" using regs_of_length [of regs] by simp
  then show ?thesis
    by (simp add: emit_a64_pop_def Let_def count_bits_regs pop_loop_emits res_assert_def)
qed


section \<open>What pushing and popping do\<close>

fun chunks :: "nat list \<Rightarrow> nat" where
  "chunks [] = 0"
| "chunks [r] = 1"
| "chunks (a # b # rs) = Suc (chunks rs)"

text \<open>The registers in memory, from the stack pointer upwards.\<close>

fun stack_holds :: "nat list \<Rightarrow> uintptr \<Rightarrow> (uintptr \<Rightarrow> uintptr) \<Rightarrow> (nat \<Rightarrow> uintptr) \<Rightarrow> bool" where
  "stack_holds [] p m f = True"
| "stack_holds [r] p m f = (m p = f r)"
| "stack_holds (a # b # rs) p m f = (m p = f a \<and> m (p + 8) = f b \<and> stack_holds rs (p + 16) m f)"

definition stack_frame :: "uintptr \<Rightarrow> nat \<Rightarrow> uintptr set" where
  "stack_frame p n = (\<lambda>k. p + 8 * of_nat k) ` {..< 2 * n}"

lemma stack_frame_Suc: "stack_frame p (Suc n) = {p, p + 8} \<union> stack_frame (p + 16) n"
proof -
  have "{..< 2 * Suc n} = {0, 1} \<union> (\<lambda>k. Suc (Suc k)) ` {..< 2 * n}"
    by (auto simp: image_iff less_Suc_eq_0_disj)
  then show ?thesis
    by (simp add: stack_frame_def image_Un image_image algebra_simps)
qed

lemma stack_holds_cong:
  "stack_holds rs p m f \<Longrightarrow> (\<And>a. a \<in> stack_frame p (chunks rs) \<Longrightarrow> m' a = m a) \<Longrightarrow> stack_holds rs p m' f"
proof (induction rs p m f rule: stack_holds.induct)
  case (2 r p m f)
  then show ?case by (simp add: stack_frame_Suc)
qed (auto simp: stack_frame_Suc)

lemma frame_above:
  assumes "n \<le> 32"
  shows "p - 16 \<notin> stack_frame p n" "p - 8 \<notin> stack_frame p n"
proof -
  have "16 + of_nat k * 8 \<noteq> (0 :: uintptr)" "8 + of_nat k * 8 \<noteq> (0 :: uintptr)" if "k < n * 2" for k
    using unat_of_nat64 [of "16 + k * 8"] unat_of_nat64 [of "8 + k * 8"] that assms by auto
  then show "p - 16 \<notin> stack_frame p n" "p - 8 \<notin> stack_frame p n"
    by (auto simp: stack_frame_def algebra_simps)
qed

lemma chunks_le: "chunks rs \<le> length rs"
  by (induction rs rule: chunks.induct) auto

text \<open>Running the pushes keeps the registers, moves the stack pointer and changes memory only in the new frame.\<close>

lemma reg_no:
  assumes "r < 31"
  shows "(of_nat r :: 5 word) \<noteq> 31" "unat (of_nat r :: 5 word) = r"
proof -
  show u: "unat (of_nat r :: 5 word) = r" using assms by (simp add: unat_of_nat take_bit_nat_eq_self)
  then show "(of_nat r :: 5 word) \<noteq> 31" using assms by (auto simp: word_unat_eq_iff)
qed

lemma exec_push1:
  assumes "aligned_to 16 (sp_reg s)" "r < 31"
  shows "a64_exec (a64_LDR_STR_immed 3 0 0 (-16) 3 sp (of_nat r)) s =
    Some (s\<lparr>sp_reg := sp_reg s - 16, mem := (mem s)(sp_reg s - 16 := xregs s r), pc_reg := pc_reg s + 4\<rparr>)"
  using aligned_sp(1) [OF assms(1)] assms(1) reg_no [OF assms(2)]
  by (simp add: a64_exec.simps Let_def imm_values sp_def xreg_sp_def xreg_def base_ok_def load_store_def set_mem_def set_xreg_sp_def next_pc_def)

lemma exec_push2:
  assumes "aligned_to 16 (sp_reg s)" "a < 31" "b < 31"
  shows "a64_exec (a64_LDP_STP 2 0 3 0 (-2) (of_nat b) sp (of_nat a)) s =
    Some (s\<lparr>sp_reg := sp_reg s - 16, mem := (mem s)(sp_reg s - 16 := xregs s a, sp_reg s - 8 := xregs s b), pc_reg := pc_reg s + 4\<rparr>)"
proof -
  have "sp_reg s - 16 + 8 = sp_reg s - 8" by simp
  then show ?thesis
    using aligned_sp(1) [OF assms(1)] assms(1) reg_no [OF assms(2)] reg_no [OF assms(3)]
    by (simp add: a64_exec.simps Let_def imm_values sp_def xreg_sp_def xreg_def base_ok_def load_store_pair_def set_mem_def set_xreg_sp_def next_pc_def)
qed

lemma exec_pop1:
  assumes "aligned_to 16 (sp_reg s)" "r < 31"
  shows "a64_exec (a64_LDR_STR_immed 3 0 1 16 1 sp (of_nat r)) s =
    Some (s\<lparr>sp_reg := sp_reg s + 16, xregs := (xregs s)(r := mem s (sp_reg s)), pc_reg := pc_reg s + 4\<rparr>)"
  using aligned_sp(3) [OF assms(1)] assms(1) reg_no [OF assms(2)]
  by (simp add: a64_exec.simps Let_def imm_values sp_def xreg_sp_def xreg_def base_ok_def load_store_def set_xreg_def set_xreg_sp_def next_pc_def)

lemma exec_pop2:
  assumes "aligned_to 16 (sp_reg s)" "a < 31" "b < 31"
  shows "a64_exec (a64_LDP_STP 2 0 1 1 2 (of_nat b) sp (of_nat a)) s =
    Some (s\<lparr>sp_reg := sp_reg s + 16, xregs := (xregs s)(a := mem s (sp_reg s), b := mem s (sp_reg s + 8)), pc_reg := pc_reg s + 4\<rparr>)"
  using aligned_sp(3) [OF assms(1)] assms(1) reg_no [OF assms(2)] reg_no [OF assms(3)]
  by (simp add: a64_exec.simps Let_def imm_values sp_def xreg_sp_def xreg_def base_ok_def load_store_pair_def set_xreg_def set_xreg_sp_def next_pc_def)

lemma run_push_seq:
  assumes "aligned_to 16 (sp_reg s)" "\<forall>r \<in> set rs. r < 31" "length rs \<le> 32"
  shows "\<exists>m. run_seq (push_seq rs) s = Some (s\<lparr>sp_reg := sp_reg s - 16 * of_nat (chunks rs), mem := m,
      pc_reg := slot (pc_reg s) (length (push_seq rs))\<rparr>) \<and>
    aligned_to 16 (sp_reg s - 16 * of_nat (chunks rs)) \<and>
    stack_holds rs (sp_reg s - 16 * of_nat (chunks rs)) m (xregs s) \<and>
    (\<forall>a. a \<notin> stack_frame (sp_reg s - 16 * of_nat (chunks rs)) (chunks rs) \<longrightarrow> m a = mem s a)"
  using assms
proof (induction rs rule: push_seq.induct)
  case 1
  then show ?case by (auto intro!: exI [of _ "mem s"])
next
  case (2 r)
  then show ?case
    by (auto simp: exec_push1 stack_frame_Suc aligned_sp(2) intro!: exI [of _ "(mem s)(sp_reg s - 16 := xregs s r)"])
next
  case (3 a b rs)
  define q where "q = sp_reg s - 16 * of_nat (chunks rs)"
  from 3 obtain m where m: "run_seq (push_seq rs) s = Some (s\<lparr>sp_reg := q, mem := m, pc_reg := slot (pc_reg s) (length (push_seq rs))\<rparr>)"
    "aligned_to 16 q" "stack_holds rs q m (xregs s)" "\<And>a. a \<notin> stack_frame q (chunks rs) \<Longrightarrow> m a = mem s a"
    by (auto simp: q_def)
  have q': "sp_reg s - 16 * of_nat (chunks (a # b # rs)) = q - 16" by (simp add: q_def algebra_simps)
  have c: "chunks rs \<le> 32" using chunks_le [of rs] 3(4) by simp
  define m' where "m' = m(q - 16 := xregs s a, q - 8 := xregs s b)"
  have "stack_holds rs q m' (xregs s)"
    using m(3) frame_above [OF c, of q] by (elim stack_holds_cong) (auto simp: m'_def)
  moreover have "m' x = mem s x" if "x \<notin> stack_frame (q - 16) (Suc (chunks rs))" for x
    using that m(4) [of x] unfolding stack_frame_Suc by (simp add: m'_def)
  moreover have "m' (q - 16) = xregs s a" "m' (q - 8) = xregs s b" by (simp_all add: m'_def)
  moreover have "run_seq (push_seq (a # b # rs)) s =
      Some (s\<lparr>sp_reg := q - 16, mem := m', pc_reg := slot (pc_reg s) (length (push_seq (a # b # rs)))\<rparr>)"
    using m(1,2) 3(3) by (simp add: run_seq_append exec_push2 m'_def)
  moreover have "aligned_to 16 (q - 16)" by (rule aligned_sp(2) [OF m(2)])
  ultimately show ?case unfolding q' by (intro exI [of _ m']) simp
qed

lemma run_pop_seq:
  assumes "aligned_to 16 (sp_reg s)" "\<forall>r \<in> set rs. r < 31" "stack_holds rs (sp_reg s) (mem s) f"
  shows "run_seq (pop_seq rs) s = Some (s\<lparr>sp_reg := sp_reg s + 16 * of_nat (chunks rs),
      xregs := (\<lambda>r. if r \<in> set rs then f r else xregs s r), pc_reg := slot (pc_reg s) (length (pop_seq rs))\<rparr>)"
  using assms
proof (induction rs arbitrary: s rule: pop_seq.induct)
  case 1
  then show ?case by simp
next
  case (2 r)
  then show ?case by (auto simp: exec_pop1 intro!: arg_cong [where f = "\<lambda>r. s\<lparr>sp_reg := _, xregs := r, pc_reg := _\<rparr>"])
next
  case (3 a b rs)
  let ?s = "s\<lparr>sp_reg := sp_reg s + 16, xregs := (xregs s)(a := f a, b := f b), pc_reg := pc_reg s + 4\<rparr>"
  have ih: "run_seq (pop_seq rs) ?s = Some (?s\<lparr>sp_reg := sp_reg ?s + 16 * of_nat (chunks rs),
      xregs := (\<lambda>r. if r \<in> set rs then f r else xregs ?s r), pc_reg := slot (pc_reg ?s) (length (pop_seq rs))\<rparr>)"
    using 3(2-4) aligned_sp(4) by (intro "3.IH") simp_all
  have "(\<lambda>r. if r \<in> set rs then f r else xregs ?s r) = (\<lambda>r. if r \<in> set (a # b # rs) then f r else xregs s r)"
    by auto
  moreover have "sp_reg ?s + 16 * of_nat (chunks rs) = sp_reg s + 16 * of_nat (chunks (a # b # rs))" by (simp add: algebra_simps)
  ultimately have "run_seq (pop_seq rs) ?s = Some (s\<lparr>sp_reg := sp_reg s + 16 * of_nat (chunks (a # b # rs)),
      xregs := (\<lambda>r. if r \<in> set (a # b # rs) then f r else xregs s r), pc_reg := slot (pc_reg s) (length (pop_seq (a # b # rs)))\<rparr>)"
    unfolding ih by simp
  moreover have "run_seq (pop_seq (a # b # rs)) s = run_seq (pop_seq rs) ?s"
    using 3(2-4) by (simp add: exec_pop2)
  ultimately show ?case by (simp only:)
qed


text \<open>The lengths of the emitted sequences.\<close>

lemma push_pop_length: "length (push_seq rs) = chunks rs" "length (pop_seq rs) = chunks rs"
  by (induction rs rule: chunks.induct) auto

lemma regs_of_no_sp: "\<not> bit regs 31 \<Longrightarrow> \<forall>r \<in> set (regs_of regs). r < 31"
proof
  fix r assume "\<not> bit regs 31" "r \<in> set (regs_of regs)"
  then have "r < 32" "r \<noteq> 31" by (auto simp: regs_of_def)
  then show "r < 31" by simp
qed

lemma emit_seq_run:
  assumes "run_seq xs s = Some s'" "length xs < 2 ^ 60"
  shows "reaches (fst (emit_seq xs (code, pc_reg s))) s s'" "pc_reg s' = snd (emit_seq xs (code, pc_reg s))"
  using run_seq_reaches [OF assms(1)] emit_seq_code [OF assms(2), of "(code, pc_reg s)"] by (auto simp: emit_seq_snd)

section \<open>The immediate addition\<close>

lemma mask_12: "SHIFTED_ADD_SUB_I_MASK = mask 12" "SHIFTED_ADD_SUB_MAX = 0xFFFFFF" "SHIFTED_ADD_SUB_I_BITS = 12"
  by (simp_all add: SHIFTED_ADD_SUB_I_MASK_def SHIFTED_ADD_SUB_MAX_def SHIFTED_ADD_SUB_I_BITS_def mask_eq_exp_minus_1)

lemma split_12:
  fixes off :: int
  assumes "0 \<le> off" "off \<le> 0xFFFFFF"
  shows "off AND SHIFTED_ADD_SUB_I_MASK = off mod 4096" "drop_bit SHIFTED_ADD_SUB_I_BITS off = off div 4096"
    "off AND push_bit SHIFTED_ADD_SUB_I_BITS SHIFTED_ADD_SUB_I_MASK = 4096 * (off div 4096)"
proof -
  show m: "off AND SHIFTED_ADD_SUB_I_MASK = off mod 4096"
    by (simp add: mask_12 take_bit_eq_mod flip: take_bit_eq_mask)
  show d: "drop_bit SHIFTED_ADD_SUB_I_BITS off = off div 4096"
    by (simp add: mask_12 drop_bit_eq_div)
  have "off AND push_bit 12 (mask 12) = push_bit 12 (drop_bit 12 off AND mask 12)"
    by (rule bit_eqI) (auto simp: bit_simps)
  also have "drop_bit 12 off AND mask 12 = off div 4096 mod 4096"
    by (simp add: drop_bit_eq_div take_bit_eq_mod flip: take_bit_eq_mask)
  also have "\<dots> = off div 4096" using assms by simp
  finally show "off AND push_bit SHIFTED_ADD_SUB_I_BITS SHIFTED_ADD_SUB_I_MASK = 4096 * (off div 4096)"
    by (simp add: mask_12 push_bit_eq_mult)
qed

lemma ucast_imm12:
  assumes "0 \<le> k" "k < 4096"
  shows "ucast (word_of_int k :: 12 word) = (word_of_int k :: uintptr)"
  using assms by (simp add: ucast_eq uint_word_of_int take_bit_int_eq_self)

definition add_state :: "5 word \<Rightarrow> uintptr \<Rightarrow> nat \<Rightarrow> a64_state \<Rightarrow> a64_state" where
  "add_state rd v n s = (set_xreg_sp rd v s)\<lparr>pc_reg := slot (pc_reg s) n\<rparr>"

definition imm_inst :: "1 word \<Rightarrow> int \<Rightarrow> int \<Rightarrow> int \<Rightarrow> bool \<Rightarrow> a64_inst" where
  "imm_inst op rd rn k high = a64_ADD_SUB_immed 1 op 0 (if high then 1 else 0) (word_of_int k) (word_of_int rn) (word_of_int rd)"

lemma exec_imm:
  assumes "0 \<le> k" "k < 4096"
  shows "a64_exec (imm_inst op rd rn k high) s =
    Some (add_state (word_of_int rd) (let v = word_of_int (if high then 4096 * k else k) in
      if op = 0 then xreg_sp s (word_of_int rn) + v else xreg_sp s (word_of_int rn) - v) 1 s)"
proof -
  have "push_bit 12 (word_of_int k :: uintptr) = word_of_int (4096 * k)" by (simp add: push_bit_eq_mult)
  then show ?thesis
    by (simp add: imm_inst_def a64_exec.simps ucast_imm12 [OF assms] add_state_def next_pc_def Let_def set_xreg_sp_def)
qed

definition add_sub_seq :: "1 word \<Rightarrow> int \<Rightarrow> int \<Rightarrow> int \<Rightarrow> a64_inst list" where
  "add_sub_seq op rd rn off =
     (if off mod 4096 \<noteq> 0 then [imm_inst op rd rn (off mod 4096) False] else []) @
     (if off div 4096 \<noteq> 0 then [imm_inst op rd (if off mod 4096 \<noteq> 0 then rd else rn) (off div 4096) True] else [])"

lemma add_sub_halves_emits:
  assumes "0 \<le> off" "off \<le> 0xFFFFFF"
  shows "add_sub_halves op e rd rn off = Ok (with_write_p (emit_seq (add_sub_seq op rd rn off)) e)"
  unfolding add_sub_halves_def split_12 [OF assms]
  by (simp add: emit_shift_imm_def emit_a64_def with_write_p_def Let_def add_sub_seq_def imm_inst_def mask_12(3) res_assert_def)

lemma add_state_simps:
  "xreg_sp (add_state rd v n s) rd = v" "add_state rd v' n (add_state rd v m s) = add_state rd v' (m + n) s"
  "pc_reg (add_state rd v n s) = slot (pc_reg s) n" "add_state rd v 0 (add_state rd v n s) = add_state rd v n s"
  by (simp_all add: add_state_def xreg_sp_def set_xreg_sp_def)

lemma add_sub_seq_runs:
  assumes "0 < off" "off \<le> 0xFFFFFF"
  shows "run_seq (add_sub_seq op rd rn off) s =
    Some (add_state (word_of_int rd) (if op = 0 then xreg_sp s (word_of_int rn) + word_of_int off
      else xreg_sp s (word_of_int rn) - word_of_int off) (length (add_sub_seq op rd rn off)) s)"
proof -
  let ?l = "off mod 4096" and ?h = "off div 4096"
  have b: "0 \<le> ?l" "?l < 4096" "0 \<le> ?h" "?h < 4096" using assms by auto
  have off: "off = ?l + 4096 * ?h" by simp
  note low = exec_imm [OF b(1,2), where high = False] and high = exec_imm [OF b(3,4), where high = True]
  consider "?l \<noteq> 0" "?h \<noteq> 0" | "?l \<noteq> 0" "?h = 0" | "?l = 0" "?h \<noteq> 0" using assms by fastforce
  then show ?thesis
  proof cases
    case 1
    have "(word_of_int off :: uintptr) = word_of_int ?l + word_of_int (4096 * ?h)"
      by (subst off) (simp only: wi_hom_add)
    moreover have "slot (pc_reg s) (Suc (Suc 0)) = 8 + pc_reg s" by (simp add: slot_def)
    ultimately show ?thesis
      using 1 by (simp add: add_sub_seq_def low high add_state_simps Let_def add.assoc diff_diff_eq)
  next
    case 2
    then have "off < 4096" "0 \<le> off" "off mod 4096 = off" "off \<noteq> 0" using off b assms by simp_all
    with 2(2) show ?thesis by (simp add: add_sub_seq_def exec_imm add_state_simps Let_def)
  next
    case 3
    then have "off = 4096 * ?h" using off by simp
    then have "word_of_int off = (word_of_int (4096 * ?h) :: uintptr)" by simp
    with 3 show ?thesis by (simp add: add_sub_seq_def high add_state_simps Let_def)
  qed
qed

lemma exec_mov:
  assumes "rd \<noteq> 31 \<or> rn = 31" "0 \<le> rd" "rd < 32" "0 \<le> rn" "rn < 32"
  obtains i where "emit_mov e rd rn = with_write_p (emit_seq [i]) e"
    "\<forall>s. a64_exec i s = Some (add_state (word_of_int rd) (xreg_sp s (word_of_int rn)) 1 s)"
proof -
  have inj: "(word_of_int r :: 5 word) = 31 \<longleftrightarrow> r = 31" if "0 \<le> r" "r < 32" for r
    using that by (auto simp: word_uint_eq_iff uint_word_of_int take_bit_int_eq_self)
  show thesis
  proof (cases "rn = 31")
    case True
    then show thesis
      by (intro that [of "a64_ADD_SUB_immed 1 0 0 0 0 (word_of_int rn) (word_of_int rd)"])
        (simp_all add: emit_mov_def emit_a64_def with_write_p_def a64_exec.simps next_pc_def add_state_def set_xreg_sp_def)
  next
    case False
    then show thesis
      using assms inj [of rd] inj [of rn]
      by (intro that [of "a64_logical_reg 1 1 0 0 (word_of_int rn) 0 0x1F (word_of_int rd)"])
        (simp_all add: emit_mov_def emit_a64_def with_write_p_def a64_exec.simps shifted_def next_pc_def add_state_def set_xreg_sp_def set_xreg_def xreg_def xreg_sp_def)
  qed
qed


lemma with_write_p_run:
  assumes "run_seq xs s = Some s'" "length xs < 2 ^ 60" "pc_reg s = write_p (fst e)"
  shows "reaches (snd (with_write_p (emit_seq xs) e)) s s'" "pc_reg s' = write_p (fst (with_write_p (emit_seq xs) e))"
  using emit_seq_run [OF assms(1,2), of "snd e"] assms(3) by (simp_all add: with_write_p_def Let_def)

lemma add_sub_i_runs:
  assumes "off \<noteq> 0" "\<bar>off\<bar> \<le> 0xFFFFFF"
  obtains xs where "emit_add_sub_i e rd rn off = Ok (0, with_write_p (emit_seq xs) e)" "length xs \<le> 2"
    "\<And>s. run_seq xs s = Some (add_state (word_of_int rd) (xreg_sp s (word_of_int rn) + word_of_int off) (length xs) s)"
proof -
  have len: "length (add_sub_seq op rd rn k) \<le> 2" for op k by (simp add: add_sub_seq_def)
  show thesis
  proof (cases "off < 0")
    case True
    then have "word_of_int (- off) = - (word_of_int off :: uintptr)" by simp
    then show thesis
      using True assms add_sub_halves_emits [of "- off" 1 e rd rn] add_sub_seq_runs [of "- off" 1 rd rn] len
      by (intro that [of "add_sub_seq 1 rd rn (- off)"]) (simp_all add: emit_add_sub_i_def mask_12(2))
  next
    case False
    then show thesis
      using assms add_sub_halves_emits [of off 0 e rd rn] add_sub_seq_runs [of off 0 rd rn] len
      by (intro that [of "add_sub_seq 0 rd rn off"]) (simp_all add: emit_add_sub_i_def mask_12(2))
  qed
qed

section \<open>The counter\<close>

definition counter_seq :: "uintptr \<Rightarrow> u32 \<Rightarrow> a64_inst list" where
  "counter_seq counter incr = mov_seq x0 counter @
     [a64_LDR_STR_unsigned_immed 3 0 1 0 x0 x1, a64_ADD_SUB_immed 1 0 0 0 (ucast incr) x1 x1, a64_LDR_STR_unsigned_immed 3 0 0 0 x0 x1]"

lemma counter_runs:
  assumes "aligned_to 8 counter" "incr \<le> 0xFFF"
  shows "run_seq (counter_seq counter incr) s = Some (s\<lparr>mem := (mem s)(counter := mem s counter + ucast incr),
      xregs := (xregs s)(0 := counter, 1 := mem s counter + ucast incr), pc_reg := slot (pc_reg s) (length (counter_seq counter incr))\<rparr>)"
proof -
  have imm: "ucast (ucast incr :: 12 word) = (ucast incr :: uintptr)"
  proof -
    have "unat incr < 2 ^ 12" using assms(2) by (simp add: word_le_nat_alt)
    then show ?thesis by (intro ucast_fld) simp
  qed
  have slots: "slot p 3 = 12 + p" for p by (simp add: slot_def)
  show ?thesis
    unfolding counter_seq_def run_seq_append
    using assms(1) imm
    by (simp add: run_mov x0_def x1_def a64_exec.simps Let_def xreg_sp_def xreg_def base_ok_def load_store_def set_xreg_def set_xreg_sp_def
        set_mem_def next_pc_def)
qed


section \<open>Examples\<close>

definition witness_ctx :: code_ctx where
  "witness_ctx = \<lparr>fragment_type = mambo_bb, fragment_id = 5, inst_type = A64_INST, read_address = 0x400000, ctx_inst = 1, ctx_cond = AL,
     write_p = 0x50010000, data_p = 0x50010100, pushed_regs = 0, available_regs = 0, plugin_pushed_reg_count = 0, func_name = [],
     ctx_replace = False, ctx_stop = None\<rparr>"

text \<open>A move to SP is a move to the zero register, and does nothing.\<close>

lemma emit_mov_to_sp:
  assumes "rn \<noteq> 31" "0 \<le> rn" "rn < 32"
  shows "emit_mov e 31 rn = emit_a64 (a64_logical_reg 1 1 0 0 (word_of_int rn) 0 31 31) e"
    "a64_exec (a64_logical_reg 1 1 0 0 (word_of_int rn) 0 31 31) s = Some (next_pc s)"
  using assms by (simp_all add: emit_mov_def a64_exec.simps shifted_def set_xreg_def)

section \<open>Properties\<close>

text \<open>C15: Pushing and popping registers is a round trip, for every list of registers without SP. The emitted push
  keeps all registers, leaves the stack aligned and only writes below the old stack pointer; a pop of the same list,
  emitted anywhere later, restores exactly the listed registers and the stack pointer from any state whose stack
  frame is untouched, whatever happened to the registers in between. The loops of both always end.\<close>

theorem emit_push_pop_roundtrip:
  assumes "\<not> bit regs 31" "plugin_pushed_reg_count c \<ge> 0"
    and "aligned_to 16 (sp_reg s)" "pc_reg s = write_p c"
  shows "\<exists>c1 code1 s1 n. emit_push (c, code) regs = Ok (c1, code1) \<and> reaches code1 s s1 \<and> pc_reg s1 = write_p c1 \<and>
    xregs s1 = xregs s \<and> flags s1 = flags s \<and> aligned_to 16 (sp_reg s1) \<and> sp_reg s1 = sp_reg s - 16 * of_nat n \<and>
    (\<forall>a. a \<notin> stack_frame (sp_reg s1) n \<longrightarrow> mem s1 a = mem s a) \<and>
    (\<forall>c2 code2 s2. plugin_pushed_reg_count c2 \<ge> plugin_pushed_reg_count c1 \<and> pc_reg s2 = write_p c2 \<and>
       sp_reg s2 = sp_reg s1 \<and> (\<forall>a \<in> stack_frame (sp_reg s1) n. mem s2 a = mem s1 a) \<longrightarrow>
       (\<exists>c3 code3. emit_pop (c2, code2) regs = Ok (c3, code3) \<and>
          plugin_pushed_reg_count c3 = plugin_pushed_reg_count c2 - (plugin_pushed_reg_count c1 - plugin_pushed_reg_count c) \<and>
          reaches code3 s2 (s2\<lparr>sp_reg := sp_reg s, xregs := (\<lambda>r. if r < 31 \<and> bit regs r then xregs s r else xregs s2 r), pc_reg := write_p c3\<rparr>)))"
proof -
  let ?rs = "regs_of regs"
  let ?n = "chunks ?rs"
  let ?p = "sp_reg s - 16 * of_nat ?n"
  note rs = regs_of_no_sp [OF assms(1)]
  have len: "length (push_seq ?rs) < 2 ^ 60" "length (pop_seq ?rs) < 2 ^ 60"
    using chunks_le [of ?rs] regs_of_length [of regs] by (simp_all add: push_pop_length)
  obtain m where m: "run_seq (push_seq ?rs) s = Some (s\<lparr>sp_reg := ?p, mem := m, pc_reg := slot (pc_reg s) (length (push_seq ?rs))\<rparr>)"
    "aligned_to 16 ?p" "stack_holds ?rs ?p m (xregs s)" "\<forall>a. a \<notin> stack_frame ?p ?n \<longrightarrow> m a = mem s a"
    using run_push_seq [OF assms(3) rs regs_of_length] by blast
  let ?s1 = "s\<lparr>sp_reg := ?p, mem := m, pc_reg := slot (pc_reg s) (length (push_seq ?rs))\<rparr>"
  let ?w1 = "emit_seq (push_seq ?rs) (code, write_p c)"
  let ?c1 = "c\<lparr>plugin_pushed_reg_count := plugin_pushed_reg_count c + int (length ?rs), write_p := snd ?w1\<rparr>"
  have push: "emit_push (c, code) regs = Ok (?c1, fst ?w1)"
    by (simp add: emit_push_def emit_a64_push_emits Let_def)
  have r1: "reaches (fst ?w1) s ?s1" "pc_reg ?s1 = snd ?w1"
    using emit_seq_run [OF m(1) len(1), of code] assms(4) by simp_all
  have mem_rs: "r \<in> set ?rs \<longleftrightarrow> r < 31 \<and> bit regs r" for r using rs by (auto simp: regs_of_def)
  have pop: "\<exists>c3 code3. emit_pop (c2, code2) regs = Ok (c3, code3) \<and>
          plugin_pushed_reg_count c3 = plugin_pushed_reg_count c2 - (plugin_pushed_reg_count ?c1 - plugin_pushed_reg_count c) \<and>
          reaches code3 s2 (s2\<lparr>sp_reg := sp_reg s, xregs := (\<lambda>r. if r < 31 \<and> bit regs r then xregs s r else xregs s2 r), pc_reg := write_p c3\<rparr>)"
    if h: "plugin_pushed_reg_count c2 \<ge> plugin_pushed_reg_count ?c1" "pc_reg s2 = write_p c2" "sp_reg s2 = ?p"
      "\<forall>a \<in> stack_frame ?p ?n. mem s2 a = m a" for c2 code2 s2
  proof -
    have sh: "stack_holds ?rs (sp_reg s2) (mem s2) (xregs s)"
      unfolding h(3) using h(4) by (intro stack_holds_cong [OF m(3)]) simp
    have "run_seq (pop_seq ?rs) s2 = Some (s2\<lparr>sp_reg := sp_reg s, xregs := (\<lambda>r. if r < 31 \<and> bit regs r then xregs s r else xregs s2 r),
        pc_reg := slot (pc_reg s2) (length (pop_seq ?rs))\<rparr>)"
      using run_pop_seq [OF _ rs sh] m(2) unfolding mem_rs by (simp add: h(3))
    from emit_seq_run [OF this len(2), of code2] show ?thesis
      using h(1,2) assms(2) by (simp add: emit_pop_def emit_a64_pop_emits Let_def res_assert_def)
  qed
  show ?thesis
    using push r1 m(2,4) pop by (intro exI [of _ ?c1] exI [of _ "fst ?w1"] exI [of _ ?s1] exI [of _ ?n]) simp
qed

theorem emit_push_pop_roundtrip_witness:
  "\<exists>c1 code1 s1. emit_push (witness_ctx, Map.empty) 0x40000007 = Ok (c1, code1) \<and> reaches code1 witness_state s1 \<and>
    xregs s1 = xregs witness_state"
proof -
  have "\<not> bit (0x40000007 :: u32) 31" by code_simp
  moreover have "plugin_pushed_reg_count witness_ctx \<ge> 0" "pc_reg witness_state = write_p witness_ctx"
    by (simp_all add: witness_ctx_def witness_state_def)
  ultimately show ?thesis
    using emit_push_pop_roundtrip [of "0x40000007" witness_ctx witness_state Map.empty] witness_near(2) by blast
qed


text \<open>C29: The emitted addition of an immediate leaves exactly \<open>rn + offset\<close> in \<open>rd\<close> (both may be SP) and changes nothing
  else, for every offset of up to 24 bits in either direction; other offsets are refused without emitting
  anything. The one exception is a zero offset into SP, which becomes a move to the zero register.\<close>

theorem emit_add_sub_i_adds:
  assumes "0 \<le> rd" "rd < 32" "0 \<le> rn" "rn < 32" "off \<noteq> 0 \<or> rd \<noteq> 31" "pc_reg s = write_p c"
  shows "if \<bar>off\<bar> \<le> 0xFFFFFF
    then \<exists>c' code'. emit_add_sub_i (c, code) rd rn off = Ok (0, c', code') \<and>
      reaches code' s ((set_xreg_sp (word_of_int rd) (xreg_sp s (word_of_int rn) + word_of_int off) s)\<lparr>pc_reg := write_p c'\<rparr>)
    else emit_add_sub_i (c, code) rd rn off = Ok (-1, c, code)"
proof -
  have run: "\<exists>c' code'. Ok (0, with_write_p (emit_seq xs) (c, code)) = Ok (0 :: int, c', code') \<and>
      reaches code' s ((set_xreg_sp (word_of_int rd) v s)\<lparr>pc_reg := write_p c'\<rparr>)"
    if "run_seq xs s = Some (add_state (word_of_int rd) v (length xs) s)" "length xs < 2 ^ 60" for xs v
    using with_write_p_run [OF that, of "(c, code)"] assms(6)
    by (cases "with_write_p (emit_seq xs) (c, code)") (simp add: add_state_def)
  consider "off = 0" "rd = rn" | "off = 0" "rd \<noteq> rn" | "off \<noteq> 0" "\<bar>off\<bar> \<le> 0xFFFFFF" | "\<bar>off\<bar> > 0xFFFFFF" by linarith
  then show ?thesis
  proof cases
    case 1
    have "set_xreg_sp r (xreg_sp s r) s = s" for r by (simp add: set_xreg_sp_def xreg_sp_def)
    moreover have "s\<lparr>pc_reg := write_p c\<rparr> = s" using assms(6) by (cases s) simp
    ultimately show ?thesis using 1 by (auto simp: emit_add_sub_i_def reaches_refl)
  next
    case 2
    obtain i where i: "emit_mov (c, code) rd rn = with_write_p (emit_seq [i]) (c, code)"
      "a64_exec i s = Some (add_state (word_of_int rd) (xreg_sp s (word_of_int rn)) 1 s)"
      using exec_mov [of rd rn "(c, code)"] assms 2 by metis
    then have "run_seq [i] s = Some (add_state (word_of_int rd) (xreg_sp s (word_of_int rn)) (length [i]) s)"
      by (simp add: add_state_def)
    from run [OF this] 2 i(1) show ?thesis by (simp add: emit_add_sub_i_def)
  next
    case 3
    then obtain xs where "emit_add_sub_i (c, code) rd rn off = Ok (0, with_write_p (emit_seq xs) (c, code))" "length xs \<le> 2"
      "run_seq xs s = Some (add_state (word_of_int rd) (xreg_sp s (word_of_int rn) + word_of_int off) (length xs) s)"
      using add_sub_i_runs [of off "(c, code)" rd rn] by metis
    moreover from this have "length xs < 2 ^ 60" by simp
    ultimately show ?thesis using run 3 by simp
  next
    case 4
    then show ?thesis by (auto simp: emit_add_sub_i_def mask_12(2))
  qed
qed

theorem emit_add_sub_i_adds_witness:
  "\<exists>c' code'. emit_add_sub_i (witness_ctx, Map.empty) 3 31 (-0x12345) = Ok (0, c', code') \<and>
     reaches code' witness_state ((set_xreg_sp 3 (0x7000 - 0x12345) witness_state)\<lparr>pc_reg := write_p c'\<rparr>)"
  using emit_add_sub_i_adds [of 3 31 "-0x12345" witness_state witness_ctx Map.empty]
  by (simp add: witness_ctx_def witness_state_def xreg_sp_def)

text \<open>C28: The emitted counter increment adds the increment to the 64-bit counter in memory, as long as the counter is
  not in the 16 bytes below the stack pointer that it uses, and preserves all registers, the flags and the stack
  pointer.\<close>

theorem emit_counter64_incr_counts:
  assumes "incr \<le> 0xFFF" "aligned_to 8 counter" "aligned_to 16 (sp_reg s)" "counter \<notin> stack_frame (sp_reg s - 16) 1"
    and "pc_reg s = write_p c" "plugin_pushed_reg_count c \<ge> 0"
  shows "\<exists>c' code' s'. emit_counter64_incr (c, code) counter incr = Ok (c', code') \<and> reaches code' s s' \<and> pc_reg s' = write_p c' \<and>
    xregs s' = xregs s \<and> flags s' = flags s \<and> sp_reg s' = sp_reg s \<and> mem s' counter = mem s counter + ucast incr \<and>
    (\<forall>a. a \<noteq> counter \<and> a \<notin> stack_frame (sp_reg s - 16) 1 \<longrightarrow> mem s' a = mem s a) \<and>
    plugin_pushed_reg_count c' = plugin_pushed_reg_count c"
proof -
  have rs: "regs_of (reg_bit 0 OR reg_bit 1) = [0, 1]" by code_simp
  let ?xs = "push_seq [0, 1] @ counter_seq counter incr @ pop_seq [0, 1]"
  let ?s1 = "s\<lparr>sp_reg := sp_reg s - 16, mem := (mem s)(sp_reg s - 16 := xregs s 0, sp_reg s - 8 := xregs s 1), pc_reg := pc_reg s + 4\<rparr>"
  have push: "run_seq (push_seq [0, 1]) s = Some ?s1" using exec_push2 [OF assms(3), of 0 1] by simp
  have al: "aligned_to 16 (sp_reg s - 16)" by (rule aligned_sp(2) [OF assms(3)])
  have nc: "counter \<noteq> sp_reg s - 16" "counter \<noteq> sp_reg s - 8"
    using assms(4) by (simp_all add: stack_frame_Suc [of _ 0, simplified])
  have m1: "mem ?s1 counter = mem s counter" using nc by simp
  let ?v = "mem s counter + ucast incr"
  let ?s2 = "?s1\<lparr>mem := (mem ?s1)(counter := ?v), xregs := (xregs s)(0 := counter, 1 := ?v), pc_reg := slot (pc_reg s + 4) (length (counter_seq counter incr))\<rparr>"
  have cnt: "run_seq (counter_seq counter incr) ?s1 = Some ?s2"
    using counter_runs [OF assms(2,1), of ?s1] unfolding m1 by simp
  have "stack_holds [0, 1] (sp_reg ?s2) (mem ?s2) (xregs s)" using nc by simp
  from run_pop_seq [OF _ _ this] have pop: "run_seq (pop_seq [0, 1]) ?s2 =
      Some (?s2\<lparr>sp_reg := sp_reg s, xregs := (\<lambda>r. if r \<in> set [0, 1] then xregs s r else xregs ?s2 r), pc_reg := slot (pc_reg ?s2) 1\<rparr>)"
    using al by simp
  have "(\<lambda>r. if r \<in> set [0, 1] then xregs s r else xregs ?s2 r) = xregs s" by auto
  with pop have pop: "run_seq (pop_seq [0, 1]) ?s2 = Some (?s2\<lparr>sp_reg := sp_reg s, xregs := xregs s, pc_reg := slot (pc_reg ?s2) 1\<rparr>)"
    by (simp only:)
  let ?s3 = "?s2\<lparr>sp_reg := sp_reg s, xregs := xregs s, pc_reg := slot (pc_reg ?s2) 1\<rparr>"
  have run: "run_seq ?xs s = Some ?s3"
    unfolding run_seq_append push bind.bind_lunit cnt pop ..
  have len: "length ?xs < 2 ^ 60" using mov_seq_length(1) [of x0 counter] by (simp add: counter_seq_def)
  have emit: "emit_counter64_incr (c, code) counter incr = Ok (with_write_p (emit_seq ?xs) (c, code))"
    using assms(1,6)
    by (simp add: emit_counter64_incr_def emit_a64_push_emits emit_a64_pop_emits rs Let_def with_write_p_def emit_a64_def
        a64_copy_to_reg_64bits_seq counter_seq_def res_assert_def)
  show ?thesis
    using emit with_write_p_run [OF run len, of "(c, code)"] assms(5) nc
    by (cases "with_write_p (emit_seq ?xs) (c, code)")
      (auto simp: stack_frame_Suc [of _ 0, simplified] with_write_p_def Let_def intro!: exI [of _ ?s3])
qed

theorem emit_counter64_incr_counts_witness:
  "\<exists>c' code' s'. emit_counter64_incr (witness_ctx, Map.empty) 0x8000 3 = Ok (c', code') \<and> reaches code' witness_state s' \<and>
     mem s' 0x8000 = 3 \<and> xregs s' = xregs witness_state"
proof -
  have "(3 :: u32) \<le> 0xFFF" "aligned_to 8 0x8000" "0x8000 \<notin> stack_frame (sp_reg witness_state - 16) 1"
    "pc_reg witness_state = write_p witness_ctx" "plugin_pushed_reg_count witness_ctx \<ge> 0"
    by code_simp+
  from emit_counter64_incr_counts [OF this(1,2) witness_near(2) this(3-5), of Map.empty] show ?thesis
    by (auto simp: witness_state_def)
qed


text \<open>C30: When the callee is in branch range, \<open>emit_fcall\<close> writes the call at the write pointer but does not advance it:
  whatever is emitted next overwrites the call, so that the code is as if it had never been emitted. Out of range the
  call is emitted: the callee is entered with the return address behind the emitted code.\<close>

theorem emit_fcall_outcomes:
  assumes "sint (f - write_p c) AND 3 = 0" "pc_reg s = write_p c"
  shows "\<exists>c' code'. emit_fcall (c, code) f = Ok (c', code') \<and>
    (if - 128 * MB \<le> sint (f - write_p c) \<and> sint (f - write_p c) < 128 * MB
     then c' = c \<and> (\<forall>i. emit_a64 i (c', code') = emit_a64 i (c, code))
     else reaches code' s (s\<lparr>xregs := (xregs s)(30 := write_p c'), pc_reg := f\<rparr>))"
proof (cases "- 128 * MB \<le> sint (f - write_p c) \<and> sint (f - write_p c) < 128 * MB")
  case True
  have "sint (f - write_p c) \<le> 134217724"
  proof -
    have "4 * drop_bit 2 (sint (f - write_p c)) = sint (f - write_p c)" by (rule quarter [OF assms(1)])
    moreover have "sint (f - write_p c) < 134217728" using True by (simp add: MB_def)
    ultimately show ?thesis by presburger
  qed
  moreover have "in_b_range (write_p c) f" using True assms(1) by (simp add: in_b_range_def)
  ultimately have "emit_fcall (c, code) f = Ok (c, put_inst (write_p c) (b_inst (write_p c) f True) code)"
    using True by (simp add: emit_fcall_def emit_branch_cond_at_def Let_def MB_def a64_branch_helper_eq)
  moreover have "emit_a64 i (c, put_inst (write_p c) j code) = emit_a64 i (c, code)" for i j
    by (simp add: emit_a64_def with_write_p_def Let_def emit_inst_def put_inst_def)
  ultimately show ?thesis using True by auto
next
  case False
  let ?xs = "mov_seq lr f @ [a64_BLR lr]"
  have e: "emit_fcall (c, code) f = Ok (with_write_p (emit_seq ?xs) (c, code))"
  proof -
    have "sint (f - write_p c) < -134217728 \<or> sint (f - write_p c) > 134217724" using False by (auto simp: MB_def)
    then show ?thesis
      by (auto simp: emit_fcall_def emit_branch_cond_at_def Let_def emit_a64_def emit_set_reg_def with_write_p_def a64_copy_to_reg_64bits_seq)
  qed
  let ?w = "emit_seq ?xs (code, write_p c)"
  have len: "length ?xs < 2 ^ 60" using mov_seq_length(1) [of lr f] by simp
  have code: "code_seq (fst ?w) (write_p c) ?xs" using emit_seq_code [OF len, of "(code, write_p c)"] by simp
  let ?q = "slot (write_p c) (length (mov_seq lr f))"
  have "reaches (fst ?w) s (set_reg lr f ?q s)"
    using code assms(2) by (intro reaches_mov) (simp_all add: lr_def)
  also have "reaches (fst ?w) (set_reg lr f ?q s) (s\<lparr>xregs := (xregs s)(30 := ?q + 4), pc_reg := f\<rparr>)"
  proof (rule reaches_at [OF _ _ refl refl])
    show "fst ?w (pc_reg (set_reg lr f ?q s)) = Some (a64_BLR lr)" using code by simp
    show "a64_exec (a64_BLR lr) (set_reg lr f ?q s) = Some (s\<lparr>xregs := (xregs s)(30 := ?q + 4), pc_reg := f\<rparr>)"
      by (simp add: a64_exec.simps lr_def xreg_def set_xreg_def)
  qed
  finally have "reaches (fst ?w) s (s\<lparr>xregs := (xregs s)(30 := ?q + 4), pc_reg := f\<rparr>)" .
  moreover have "snd ?w = ?q + 4" by (simp add: emit_seq_snd emit_inst_def)
  ultimately show ?thesis using False e by (auto simp: with_write_p_def Let_def)
qed

theorem emit_fcall_outcomes_witness:
  "\<exists>code'. emit_fcall (witness_ctx, Map.empty) 0x50020000 = Ok (witness_ctx, code') \<and>
     (\<forall>i. emit_a64 i (witness_ctx, code') = emit_a64 i (witness_ctx, Map.empty))"
proof -
  have d: "write_p witness_ctx = 0x50010000" "pc_reg witness_state = 0x50010000" by (simp_all add: witness_ctx_def witness_state_def)
  have "sint (0x10000 :: uintptr) = 0x10000" by simp
  then show ?thesis
    using emit_fcall_outcomes [of "0x50020000" witness_ctx witness_state Map.empty] by (auto simp: d MB_def)
qed

end
