(* ===== verification/Plugin_Api.thy ===== *)
theory Plugin_Api
  imports A64_Helpers Function_Watch
begin

text \<open>
  The plugin interface: registration of plugins and callbacks, plugin data, scratch registers and the system call and
  memory mapping accessors (\<open>api/plugin_support.c\<close>), and the delivery of events (\<open>api/internal.c\<close>), AArch64 build. A
  callback is a function of the context and of everything it can reach; \<open>run\<close> maps the number of a callback to it.
\<close>

section \<open>Contexts\<close>

definition set_mambo_context :: "mambo_context \<Rightarrow> nat option \<Rightarrow> mambo_cb_idx \<Rightarrow> mambo_context" where
  "set_mambo_context ctx thread_data event = ctx\<lparr>ctx_thread := thread_data, event_type := event\<rparr>"

text \<open>The function name is the only member of the code context that is not set: it keeps what the union held.\<close>

definition set_mambo_context_code ::
    "mambo_context \<Rightarrow> nat option \<Rightarrow> mambo_cb_idx \<Rightarrow> cc_type \<Rightarrow> int \<Rightarrow> inst_set \<Rightarrow> int \<Rightarrow> u32 \<Rightarrow>
     uintptr \<Rightarrow> uintptr \<Rightarrow> uintptr \<Rightarrow> bool option \<Rightarrow> string \<Rightarrow> mambo_context" where
  "set_mambo_context_code ctx thread_data event frag_type frag_id itype inst cond raddr wp dp stop old_name =
     (set_mambo_context ctx thread_data event)\<lparr>ctx_u := Code_ctx
        \<lparr>fragment_type = frag_type, fragment_id = frag_id, inst_type = itype, read_address = raddr, ctx_inst = inst,
         ctx_cond = cond, write_p = wp, data_p = dp, pushed_regs = 0, available_regs = 0, plugin_pushed_reg_count = 0,
         func_name = old_name, ctx_replace = False, ctx_stop = stop\<rparr>\<rparr>"

text \<open>The return value of a system call context is likewise left as it was.\<close>

definition set_mambo_context_syscall ::
    "mambo_context \<Rightarrow> nat option \<Rightarrow> mambo_cb_idx \<Rightarrow> uintptr \<Rightarrow> uintptr list \<Rightarrow> uintptr \<Rightarrow> mambo_context" where
  "set_mambo_context_syscall ctx thread_data event number regs old_ret =
     (set_mambo_context ctx thread_data event)\<lparr>ctx_u := Syscall_ctx
        \<lparr>sys_number = number, sys_regs = regs, sys_replace = False, sys_ret = old_ret\<rparr>\<rparr>"

section \<open>Registration\<close>

text \<open>The index is taken before the limit is checked. The context returned is one static object, \<open>reg_ctx\<close>.\<close>

definition mambo_register_plugin :: "'a dbm_global_scheme \<Rightarrow> mambo_context option \<times> 'a dbm_global_scheme" where
  "mambo_register_plugin g =
     (let index = free_plugin g; g = g\<lparr>free_plugin := index + 1\<rparr> in
      if index \<ge> MAX_PLUGIN_NO then (None, g)
      else
        let tmp_ctx = (set_mambo_context (reg_ctx g) None PLUGIN_REG)\<lparr>plugin_id := index\<rparr> in
        (Some tmp_ctx, g\<lparr>reg_ctx := tmp_ctx\<rparr>))"

text \<open>A plugin number is an \<open>int\<close> in the context and compared as an \<open>unsigned int\<close>.\<close>

definition unsigned_id :: "int \<Rightarrow> int" where
  "unsigned_id i = uint (word_of_int i :: u32)"

definition mambo_register_cb ::
    "'a dbm_global_scheme \<Rightarrow> mambo_context \<Rightarrow> mambo_cb_idx \<Rightarrow> mambo_callback option \<Rightarrow> (int \<times> 'a dbm_global_scheme) res" where
  "mambo_register_cb g ctx cb_idx cb =
     (let p_id = unsigned_id (plugin_id ctx) in
      if cb_idx \<ge> CALLBACK_MAX_IDX \<or> cb_idx < 0 then Ok (MAMBO_INVALID_CB, g)
      else if p_id \<ge> MAX_PLUGIN_NO then Ok (MAMBO_INVALID_PLUGIN_ID, g)
      else
        res_bind (arr_get (plugins g) p_id) (\<lambda>p.
        res_bind (arr_get (cbs p) cb_idx) (\<lambda>old.
        if old \<noteq> None then Ok (MAMBO_CB_ALREADY_SET, g)
        else
          res_bind (arr_set (cbs p) cb_idx cb) (\<lambda>cs.
          res_bind (arr_set (plugins g) p_id (p\<lparr>cbs := cs\<rparr>)) (\<lambda>ps.
          Ok (MAMBO_SUCCESS, g\<lparr>plugins := ps\<rparr>))))))"

definition mambo_register_pre_inst_cb where
  "mambo_register_pre_inst_cb g ctx cb = mambo_register_cb g ctx PRE_INST_C cb"
definition mambo_register_post_inst_cb where
  "mambo_register_post_inst_cb g ctx cb = mambo_register_cb g ctx POST_INST_C cb"
definition mambo_register_pre_basic_block_cb where
  "mambo_register_pre_basic_block_cb g ctx cb = mambo_register_cb g ctx PRE_BB_C cb"
definition mambo_register_post_basic_block_cb where
  "mambo_register_post_basic_block_cb g ctx cb = mambo_register_cb g ctx POST_BB_C cb"
definition mambo_register_pre_fragment_cb where
  "mambo_register_pre_fragment_cb g ctx cb = mambo_register_cb g ctx PRE_FRAGMENT_C cb"
definition mambo_register_post_fragment_cb where
  "mambo_register_post_fragment_cb g ctx cb = mambo_register_cb g ctx POST_FRAGMENT_C cb"
definition mambo_register_pre_syscall_cb where
  "mambo_register_pre_syscall_cb g ctx cb = mambo_register_cb g ctx PRE_SYSCALL_C cb"
definition mambo_register_post_syscall_cb where
  "mambo_register_post_syscall_cb g ctx cb = mambo_register_cb g ctx POST_SYSCALL_C cb"
definition mambo_register_pre_thread_cb where
  "mambo_register_pre_thread_cb g ctx cb = mambo_register_cb g ctx PRE_THREAD_C cb"
definition mambo_register_post_thread_cb where
  "mambo_register_post_thread_cb g ctx cb = mambo_register_cb g ctx POST_THREAD_C cb"
definition mambo_register_exit_cb where
  "mambo_register_exit_cb g ctx cb = mambo_register_cb g ctx EXIT_C cb"
definition mambo_register_vm_op_cb where
  "mambo_register_vm_op_cb g ctx cb = mambo_register_cb g ctx VM_OP_C cb"

definition ARG_LIMIT :: int where "ARG_LIMIT = 8"

definition mambo_register_function_cb ::
    "'a dbm_global_scheme \<Rightarrow> mambo_context \<Rightarrow> string \<Rightarrow> mambo_callback option \<Rightarrow> mambo_callback option \<Rightarrow> int \<Rightarrow>
     (int \<times> 'a dbm_global_scheme) res" where
  "mambo_register_function_cb g ctx fn_name cb_pre cb_post max_args =
     (if cb_pre = None \<and> cb_post = None then Ok (-1, g)
      else if cb_post \<noteq> None \<and> (max_args > ARG_LIMIT \<or> max_args < 0) then Ok (-2, g)
      else
        res_bind (function_watch_add (watched_functions g) fn_name (plugin_id ctx) cb_pre cb_post) (\<lambda>(ret, wf).
        Ok (ret, g\<lparr>watched_functions := wf\<rparr>)))"

section \<open>Plugin data\<close>

text \<open>\<open>p_id >= global_data.free_plugin\<close> compares as unsigned. A thread is looked up in a store of threads.\<close>

definition valid_plugin :: "'a dbm_global_scheme \<Rightarrow> mambo_context \<Rightarrow> bool" where
  "valid_plugin g ctx \<longleftrightarrow> unsigned_id (plugin_id ctx) < unsigned_id (free_plugin g)"

definition mambo_set_plugin_data :: "'a dbm_global_scheme \<Rightarrow> mambo_context \<Rightarrow> uintptr \<Rightarrow> (int \<times> 'a dbm_global_scheme) res" where
  "mambo_set_plugin_data g ctx d =
     (if \<not> valid_plugin g ctx then Ok (MAMBO_INVALID_PLUGIN_ID, g)
      else
        res_bind (arr_get (plugins g) (unsigned_id (plugin_id ctx))) (\<lambda>p.
        res_bind (arr_set (plugins g) (unsigned_id (plugin_id ctx)) (p\<lparr>plugin_data := d\<rparr>)) (\<lambda>ps.
        Ok (MAMBO_SUCCESS, g\<lparr>plugins := ps\<rparr>))))"

definition mambo_get_plugin_data :: "'a dbm_global_scheme \<Rightarrow> mambo_context \<Rightarrow> uintptr res" where
  "mambo_get_plugin_data g ctx =
     (if \<not> valid_plugin g ctx then Ok 0
      else res_bind (arr_get (plugins g) (unsigned_id (plugin_id ctx))) (\<lambda>p. Ok (plugin_data p)))"

type_synonym 'a thread_store = "nat \<rightharpoonup> 'a dbm_thread_scheme"

definition deref :: "'a thread_store \<Rightarrow> nat \<Rightarrow> 'a dbm_thread_scheme res" where
  "deref ts t = (case ts t of Some d \<Rightarrow> Ok d | None \<Rightarrow> Mem_Fault)"

definition mambo_set_thread_plugin_data ::
    "'g dbm_global_scheme \<Rightarrow> mambo_context \<Rightarrow> uintptr \<Rightarrow> 'a thread_store \<Rightarrow> (int \<times> 'a thread_store) res" where
  "mambo_set_thread_plugin_data g ctx d ts =
     (if \<not> valid_plugin g ctx then Ok (MAMBO_INVALID_PLUGIN_ID, ts)
      else case ctx_thread ctx of
        None \<Rightarrow> Ok (MAMBO_INVALID_THREAD, ts)
      | Some t \<Rightarrow>
          res_bind (deref ts t) (\<lambda>th.
          res_bind (arr_set (plugin_priv th) (unsigned_id (plugin_id ctx)) d) (\<lambda>pp.
          Ok (MAMBO_SUCCESS, ts(t \<mapsto> th\<lparr>plugin_priv := pp\<rparr>)))))"

definition mambo_get_thread_plugin_data :: "'g dbm_global_scheme \<Rightarrow> mambo_context \<Rightarrow> 'a thread_store \<Rightarrow> uintptr res" where
  "mambo_get_thread_plugin_data g ctx ts =
     (if \<not> valid_plugin g ctx then Ok 0
      else case ctx_thread ctx of
        None \<Rightarrow> Ok 0
      | Some t \<Rightarrow> res_bind (deref ts t) (\<lambda>th. arr_get (plugin_priv th) (unsigned_id (plugin_id ctx))))"

definition mambo_get_thread_id :: "mambo_context \<Rightarrow> 'a thread_store \<Rightarrow> int res" where
  "mambo_get_thread_id ctx ts =
     (case ctx_thread ctx of None \<Rightarrow> Assert_Fail | Some t \<Rightarrow> res_bind (deref ts t) (\<lambda>th. Ok (tid th)))"

definition mambo_get_parent_thread_id :: "mambo_context \<Rightarrow> 'a thread_store \<Rightarrow> int res" where
  "mambo_get_parent_thread_id ctx ts =
     (case ctx_thread ctx of None \<Rightarrow> Assert_Fail | Some t \<Rightarrow> res_bind (deref ts t) (\<lambda>th. Ok (parent_tid th)))"

definition mambo_set_source_addr :: "mambo_context \<Rightarrow> uintptr \<Rightarrow> (int \<times> mambo_context) res" where
  "mambo_set_source_addr ctx src =
     (if event_type ctx \<noteq> PRE_FN_C then Ok (-1, ctx)
      else
        res_bind (code_of (ctx_u ctx)) (\<lambda>c.
        Ok (0, set_code ctx (c\<lparr>read_address := src AND NOT 1, ctx_replace := True\<rparr>))))"

section \<open>Scratch registers\<close>

text \<open>The registers asked for are handed out from the free pushed ones; when there are none, the next lower register
  is to be pushed. The result is the list of registers stored through the pointer arguments.\<close>

fun scratch_regs_loop :: "nat \<Rightarrow> u32 \<Rightarrow> int \<Rightarrow> u32 \<Rightarrow> u32 \<times> u32 \<times> u32 list" where
  "scratch_regs_loop 0 available min_pushed_reg to_push = (available, to_push, [])"
| "scratch_regs_loop (Suc n) available min_pushed_reg to_push =
     (let reg = next_reg_in_list AArch64 available 0 in
      if reg \<noteq> reg_invalid AArch64 then
        let (av, tp, regs) = scratch_regs_loop n (available AND NOT (reg_bit reg)) min_pushed_reg to_push in (av, tp, reg # regs)
      else
        let min_pushed_reg = min_pushed_reg - 1 in
        if min_pushed_reg \<ge> 0 then
          let reg = word_of_int min_pushed_reg;
              (av, tp, regs) = scratch_regs_loop n available min_pushed_reg (to_push OR reg_bit reg) in (av, tp, reg # regs)
        else (available, to_push, []))"

definition mambo_get_scratch_regs :: "emit_ctx \<Rightarrow> int \<Rightarrow> (u32 list \<times> emit_ctx) res" where
  "mambo_get_scratch_regs e n =
     (let c = fst e;
          min_pushed_reg = (if pushed_regs c \<noteq> 0 then uint (next_reg_in_list AArch64 (pushed_regs c) 0) else 8);
          (available, to_push, regs) = scratch_regs_loop (nat n) (available_regs c) min_pushed_reg 0;
          c = c\<lparr>available_regs := available, pushed_regs := pushed_regs c OR to_push\<rparr> in
      res_bind (if to_push \<noteq> 0 then emit_push (c, snd e) to_push else Ok (c, snd e)) (\<lambda>e. Ok (regs, e)))"

definition mambo_get_scratch_reg :: "emit_ctx \<Rightarrow> (u32 list \<times> emit_ctx) res" where
  "mambo_get_scratch_reg e = mambo_get_scratch_regs e 1"

definition mambo_free_scratch_regs :: "code_ctx \<Rightarrow> u32 \<Rightarrow> int \<times> code_ctx" where
  "mambo_free_scratch_regs c regs =
     (if regs AND pushed_regs c \<noteq> regs then (-1, c) else (0, c\<lparr>available_regs := available_regs c OR regs\<rparr>))"

text \<open>\<open>mambo_free_scratch_reg\<close> calls itself; the fuel bounds the depth of the recursion. Shifting an \<open>int\<close> by a negative
  amount or by its width is undefined.\<close>

fun mambo_free_scratch_reg :: "nat \<Rightarrow> code_ctx \<Rightarrow> int \<Rightarrow> (int \<times> code_ctx) res" where
  "mambo_free_scratch_reg 0 c reg = No_Fuel"
| "mambo_free_scratch_reg (Suc n) c reg =
     (if reg < 0 \<or> reg \<ge> 32 then Undef else mambo_free_scratch_reg n c (push_bit (nat reg) 1))"

section \<open>System calls and memory mappings\<close>

definition mambo_syscall_get_no :: "mambo_context \<Rightarrow> uintptr option res" where
  "mambo_syscall_get_no ctx =
     (if event_type ctx = PRE_SYSCALL_C \<or> event_type ctx = POST_SYSCALL_C
      then res_bind (syscall_of (ctx_u ctx)) (\<lambda>s. Ok (Some (sys_number s))) else Ok None)"

definition mambo_syscall_get_args :: "mambo_context \<Rightarrow> uintptr list option res" where
  "mambo_syscall_get_args ctx =
     (if event_type ctx = PRE_SYSCALL_C then res_bind (syscall_of (ctx_u ctx)) (\<lambda>s. Ok (Some (sys_regs s))) else Ok None)"

definition mambo_syscall_bypass :: "mambo_context \<Rightarrow> (int \<times> mambo_context) res" where
  "mambo_syscall_bypass ctx =
     (if event_type ctx = PRE_SYSCALL_C then
        res_bind (syscall_of (ctx_u ctx)) (\<lambda>s.
        res_bind (res_assert (sys_replace s = False)) (\<lambda>_.
        res_bind (arr_get (sys_regs s) 0) (\<lambda>r.
        Ok (0, set_syscall ctx (s\<lparr>sys_replace := True, sys_ret := r\<rparr>)))))
      else Ok (-1, ctx))"

text \<open>The value returned through the pointer, or \<open>None\<close> for the error return.\<close>

definition mambo_syscall_get_return :: "mambo_context \<Rightarrow> uintptr option res" where
  "mambo_syscall_get_return ctx =
     (if event_type ctx = POST_SYSCALL_C then
        res_bind (syscall_of (ctx_u ctx)) (\<lambda>s. res_bind (arr_get (sys_regs s) 0) (\<lambda>r. Ok (Some r)))
      else if event_type ctx = PRE_SYSCALL_C then
        res_bind (syscall_of (ctx_u ctx)) (\<lambda>s. if sys_replace s then Ok (Some (sys_ret s)) else Ok None)
      else Ok None)"

definition mambo_syscall_set_return :: "mambo_context \<Rightarrow> uintptr \<Rightarrow> (int \<times> mambo_context) res" where
  "mambo_syscall_set_return ctx ret =
     (if event_type ctx = POST_SYSCALL_C then
        res_bind (syscall_of (ctx_u ctx)) (\<lambda>s.
        res_bind (arr_set (sys_regs s) 0 ret) (\<lambda>rs. Ok (0, set_syscall ctx (s\<lparr>sys_regs := rs\<rparr>))))
      else if event_type ctx = PRE_SYSCALL_C then
        res_bind (syscall_of (ctx_u ctx)) (\<lambda>s.
        if sys_replace s then Ok (0, set_syscall ctx (s\<lparr>sys_ret := ret\<rparr>)) else Ok (-1, ctx))
      else Ok (-1, ctx))"

text \<open>The result of \<open>hash_add\<close> is \<open>true\<close> whenever it returns.\<close>

definition mambo_add_identity_mapping :: "code_ctx \<Rightarrow> 'a dbm_thread_scheme \<Rightarrow> (int \<times> 'a dbm_thread_scheme) res" where
  "mambo_add_identity_mapping c current_thread =
     (if write_p c = 0 then Ok (-1, current_thread)
      else
        let addr = mambo_get_cc_addr c in
        res_bind (hash_add AArch64 (entry_address current_thread) addr addr) (\<lambda>(t, ret).
        Ok ((if ret then 0 else -1), current_thread\<lparr>entry_address := t\<rparr>)))"

definition vm_event :: "mambo_context \<Rightarrow> vm_ctx res" where
  "vm_event ctx = res_bind (res_assert (event_type ctx = VM_OP_C)) (\<lambda>_. vm_of (ctx_u ctx))"

definition mambo_get_vm_op where "mambo_get_vm_op ctx = res_bind (vm_event ctx) (\<lambda>v. Ok (vm_op v))"
definition mambo_get_vm_addr where "mambo_get_vm_addr ctx = res_bind (vm_event ctx) (\<lambda>v. Ok (vm_addr v))"
definition mambo_get_vm_size where "mambo_get_vm_size ctx = res_bind (vm_event ctx) (\<lambda>v. Ok (vm_size v))"
definition mambo_get_vm_prot where "mambo_get_vm_prot ctx = res_bind (vm_event ctx) (\<lambda>v. Ok (vm_prot v))"
definition mambo_get_vm_flags where "mambo_get_vm_flags ctx = res_bind (vm_event ctx) (\<lambda>v. Ok (vm_flags v))"
definition mambo_get_vm_filedes where "mambo_get_vm_filedes ctx = res_bind (vm_event ctx) (\<lambda>v. Ok (vm_filedes v))"

text \<open>The offset is an \<open>off_t\<close>, returned as an \<open>int\<close>.\<close>

definition mambo_get_vm_off :: "mambo_context \<Rightarrow> int res" where
  "mambo_get_vm_off ctx = res_bind (vm_event ctx) (\<lambda>v. Ok (sint (word_of_int (vm_off v) :: u32)))"

definition mambo_get_cb_function_name :: "code_ctx \<Rightarrow> string" where
  "mambo_get_cb_function_name c = func_name c"

definition mambo_stop_scan :: "mambo_context \<Rightarrow> (int \<times> mambo_context) res" where
  "mambo_stop_scan ctx =
     (if event_type ctx \<noteq> PRE_INST_C \<and> event_type ctx \<noteq> POST_INST_C \<and> event_type ctx \<noteq> PRE_BB_C \<and> event_type ctx \<noteq> POST_BB_C \<and>
         event_type ctx \<noteq> PRE_FRAGMENT_C \<and> event_type ctx \<noteq> POST_FRAGMENT_C \<and> event_type ctx \<noteq> PRE_FN_C \<and> event_type ctx \<noteq> POST_FN_C
      then Ok (-1, ctx)
      else
        res_bind (code_of (ctx_u ctx)) (\<lambda>c.
        if ctx_stop c = None then Ok (-1, ctx) else Ok (0, set_code ctx (c\<lparr>ctx_stop := Some True\<rparr>))))"

section \<open>Delivery of events\<close>

type_synonym ('g, 'w) event_state = "mambo_context \<times> 'g dbm_global_scheme \<times> 'w"

text \<open>The loop reads the number of plugins and the table anew in each round, since a callback may register more.\<close>

function deliver_loop ::
    "(mambo_callback \<Rightarrow> ('g, 'w) event_state \<Rightarrow> ('g, 'w) event_state res) \<Rightarrow> int \<Rightarrow> int \<Rightarrow> ('g, 'w) event_state \<Rightarrow> ('g, 'w) event_state res" where
  "deliver_loop run cb_id i (ctx, g, w) =
     (if i < free_plugin g then
        if i \<ge> MAX_PLUGIN_NO then Mem_Fault
        else
          res_bind (arr_get (plugins g) i) (\<lambda>p.
          res_bind (arr_get (cbs p) cb_id) (\<lambda>cb.
          res_bind (case cb of None \<Rightarrow> Ok (ctx, g, w) | Some f \<Rightarrow> run f (ctx\<lparr>plugin_id := i\<rparr>, g, w)) (\<lambda>st.
          deliver_loop run cb_id (i + 1) st)))
      else Ok (ctx, g, w))"
  by pat_completeness auto
termination
  by (relation "measure (\<lambda>(run, cb_id, i, st). nat (MAX_PLUGIN_NO - i))") auto

definition mambo_deliver_callbacks_for_ctx where
  "mambo_deliver_callbacks_for_ctx run ctx g w =
     (let cb_id = unsigned_id (event_type ctx) in
      res_bind (res_assert (cb_id < CALLBACK_MAX_IDX)) (\<lambda>_. deliver_loop run cb_id 0 (ctx, g, w)))"

text \<open>The contexts of the two wrappers are local variables; \<open>fresh\<close> is what they happen to hold.\<close>

definition mambo_deliver_callbacks where
  "mambo_deliver_callbacks run fresh cb_id thread_data g w =
     (if free_plugin g > 0 then
        res_bind (mambo_deliver_callbacks_for_ctx run (set_mambo_context fresh thread_data cb_id) g w) (\<lambda>(_, g, w). Ok (g, w))
      else Ok (g, w))"

definition mambo_deliver_callbacks_code where
  "mambo_deliver_callbacks_code run fresh cb_id thread_data frag_type frag_id itype inst cond raddr wp dp stop old_name g w =
     (if free_plugin g > 0 then
        res_bind (mambo_deliver_callbacks_for_ctx run
          (set_mambo_context_code fresh thread_data cb_id frag_type frag_id itype inst cond raddr wp dp stop old_name) g w)
          (\<lambda>(_, g, w). Ok (g, w))
      else Ok (g, w))"

section \<open>Function callbacks\<close>

definition es :: "5 word" where "es = 19"

text \<open>What a callback of a scanner event works on: its context, the code cache, the thread and everything else.\<close>

type_synonym ('a, 'w) scan_event = "mambo_context \<times> a64_code \<times> 'a dbm_thread_scheme \<times> 'w"

type_synonym ('a, 'w) scan_callbacks = "mambo_callback \<Rightarrow> ('a, 'w) scan_event \<Rightarrow> ('a, 'w) scan_event res"

definition on_code :: "(emit_ctx \<Rightarrow> emit_ctx res) \<Rightarrow> ('a, 'w) scan_event \<Rightarrow> ('a, 'w) scan_event res" where
  "on_code f st = (case st of (ctx, code, th, w) \<Rightarrow>
     res_bind (code_of (ctx_u ctx)) (\<lambda>c. res_bind (f (c, code)) (\<lambda>(c, code). Ok (set_code ctx c, code, th, w))))"

definition es_lr :: u32 where "es_lr = reg_bit (ucast es) OR reg_bit (ucast lr)"

text \<open>The part for a function with a post callback, once the pre callback has run.\<close>

definition function_post_part :: "('a, 'w) scan_callbacks \<Rightarrow> uintptr \<Rightarrow> mambo_callback \<Rightarrow> ('a, 'w) scan_event \<Rightarrow> ('a, 'w) scan_event res" where
  "function_post_part run entries post st = (case st of (ctx, code, th, w) \<Rightarrow>
     res_bind (code_of (ctx_u ctx)) (\<lambda>c.
     let (ret, c, fcall) = mambo_reserve_branch c \<lparr>loc = 0\<rparr> in
     res_bind (res_assert (ret = 0)) (\<lambda>_.
     res_bind (mambo_add_identity_mapping c th) (\<lambda>(ret, th).
     res_bind (res_assert (ret = 0)) (\<lambda>_.
     let c = c\<lparr>plugin_pushed_reg_count := plugin_pushed_reg_count c + 2\<rparr> in
     res_bind (emit_pop (c, code) (reg_bit 0 OR reg_bit 1)) (\<lambda>(c, code).
     res_bind (run post ((set_code ctx c)\<lparr>event_type := POST_FN_C\<rparr>, code, th, w)) (\<lambda>st.
     res_bind (on_code (\<lambda>e. emit_pop e es_lr) st) (\<lambda>(ctx, code, th, w).
     on_code (\<lambda>e.
       res_bind (emit_indirect_branch_by_spc entries th e lr) (\<lambda>e.
       res_bind (emit_local_fcall e fcall) (\<lambda>(_, e). Ok e))) (ctx, code, th, w)))))))))"

definition function_callback_wrapper ::
    "('a, 'w) scan_callbacks \<Rightarrow> uintptr \<Rightarrow> watched_func \<Rightarrow> ('a, 'w) scan_event \<Rightarrow> ('a, 'w) scan_event res" where
  "function_callback_wrapper run entries func st = (case st of (ctx, code, th, w) \<Rightarrow>
     res_bind (code_of (ctx_u ctx)) (\<lambda>c.
     let ctx = (set_code ctx (c\<lparr>available_regs := pushed_regs c, func_name := wf_name func\<rparr>))\<lparr>plugin_id := wf_plugin_id func\<rparr> in
     res_bind (if post_callback func \<noteq> None then on_code (\<lambda>e. emit_push e es_lr) (ctx, code, th, w) else Ok (ctx, code, th, w)) (\<lambda>(ctx, code, th, w).
     res_bind (case pre_callback func of
                 None \<Rightarrow> Ok (ctx, code, th, w)
               | Some f \<Rightarrow> run f (ctx\<lparr>event_type := PRE_FN_C\<rparr>, code, th, w)) (\<lambda>st.
     case post_callback func of None \<Rightarrow> Ok st | Some f \<Rightarrow> function_post_part run entries f st))))"

declare deliver_loop.simps [simp del]


section \<open>Delivery in order\<close>

text \<open>The callbacks registered for an event, with the numbers of their plugins.\<close>

definition registered :: "'g dbm_global_scheme \<Rightarrow> int \<Rightarrow> int \<Rightarrow> int \<Rightarrow> (int \<times> mambo_callback) list" where
  "registered g cb_id i j = concat (map (\<lambda>n. case cbs (plugins g ! nat n) ! nat cb_id of None \<Rightarrow> [] | Some f \<Rightarrow> [(n, f)]) [i .. j - 1])"

fun deliver_spec ::
    "(mambo_callback \<Rightarrow> ('g, 'w) event_state \<Rightarrow> ('g, 'w) event_state res) \<Rightarrow> (int \<times> mambo_callback) list \<Rightarrow> ('g, 'w) event_state \<Rightarrow> ('g, 'w) event_state res" where
  "deliver_spec run [] st = Ok st"
| "deliver_spec run ((i, f) # xs) (ctx, g, w) = res_bind (run f (ctx\<lparr>plugin_id := i\<rparr>, g, w)) (deliver_spec run xs)"

lemma registered_step:
  "i < j \<Longrightarrow> registered g cb_id i j =
     (case cbs (plugins g ! nat i) ! nat cb_id of None \<Rightarrow> [] | Some f \<Rightarrow> [(i, f)]) @ registered g cb_id (i + 1) j"
  by (simp add: registered_def upto_rec1)

definition keeps_global :: "(mambo_callback \<Rightarrow> ('g, 'w) event_state \<Rightarrow> ('g, 'w) event_state res) \<Rightarrow> 'g dbm_global_scheme \<Rightarrow> bool" where
  "keeps_global run g \<longleftrightarrow> (\<forall>f ctx w ctx' g' w'. run f (ctx, g, w) = Ok (ctx', g', w') \<longrightarrow> g' = g)"

lemma deliver_loop_spec:
  assumes ok: "global_ok g" and cb: "0 \<le> cb_id" "cb_id < CALLBACK_MAX_IDX" and keeps: "keeps_global run g"
  shows "0 \<le> i \<Longrightarrow> i \<le> MAX_PLUGIN_NO \<Longrightarrow>
    deliver_loop run cb_id i (ctx, g, w) =
      res_bind (deliver_spec run (registered g cb_id i (min (free_plugin g) MAX_PLUGIN_NO)) (ctx, g, w))
        (\<lambda>st. if free_plugin g \<le> MAX_PLUGIN_NO then Ok st else Mem_Fault)"
proof (induction "nat (MAX_PLUGIN_NO - i)" arbitrary: i ctx w)
  case 0
  then show ?case by (subst deliver_loop.simps) (simp add: registered_def min_def)
next
  case (Suc n)
  then have i: "i < MAX_PLUGIN_NO" by simp
  show ?case
  proof (cases "i < free_plugin g")
    case False
    with i show ?thesis by (subst deliver_loop.simps) (simp add: registered_def)
  next
    case True
    have len: "int (length (plugins g)) = MAX_PLUGIN_NO" and p: "plugins g ! nat i \<in> set (plugins g)"
      using ok i Suc.prems(1) by (auto simp: global_ok_def)
    then have cbs: "int (length (cbs (plugins g ! nat i))) = CALLBACK_MAX_IDX" using ok by (simp add: global_ok_def)
    let ?cb = "cbs (plugins g ! nat i) ! nat cb_id"
    let ?tail = "\<lambda>st. res_bind (deliver_spec run (registered g cb_id (i + 1) (min (free_plugin g) MAX_PLUGIN_NO)) st)
        (\<lambda>st. if free_plugin g \<le> MAX_PLUGIN_NO then Ok st else Mem_Fault)"
    have ih: "deliver_loop run cb_id (i + 1) (ctx, g, w) = ?tail (ctx, g, w)" for ctx w
      using Suc.hyps Suc.prems i by (intro Suc.hyps(1)) auto
    have step: "deliver_loop run cb_id i (ctx, g, w) =
        res_bind (case ?cb of None \<Rightarrow> Ok (ctx, g, w) | Some f \<Rightarrow> run f (ctx\<lparr>plugin_id := i\<rparr>, g, w)) (deliver_loop run cb_id (i + 1))"
      using True i len cbs cb Suc.prems by (subst deliver_loop.simps) simp
    have reg: "registered g cb_id i (min (free_plugin g) MAX_PLUGIN_NO) =
        (case ?cb of None \<Rightarrow> [] | Some f \<Rightarrow> [(i, f)]) @ registered g cb_id (i + 1) (min (free_plugin g) MAX_PLUGIN_NO)"
      using True i by (intro registered_step) simp
    show ?thesis
    proof (cases ?cb)
      case None
      then show ?thesis by (simp add: step ih reg)
    next
      case (Some f)
      show ?thesis
      proof (cases "run f (ctx\<lparr>plugin_id := i\<rparr>, g, w)")
        case (Ok st)
        obtain ctx' g' w' where st: "st = (ctx', g', w')" by (cases st)
        then have "g' = g" using keeps Ok unfolding keeps_global_def by blast
        with Some Ok st show ?thesis by (simp add: step ih reg)
      qed (simp_all add: step reg Some)
    qed
  qed
qed

section \<open>Scratch registers are exclusive\<close>

text \<open>The low eight registers are pushed from the highest down; the available ones are pushed.\<close>

definition scratch_inv :: "code_ctx \<Rightarrow> bool" where
  "scratch_inv c \<longleftrightarrow> (\<exists>k \<le> 8. (\<forall>i. bit (pushed_regs c) i \<longleftrightarrow> k \<le> i \<and> i < 8)) \<and> (\<forall>i. bit (available_regs c) i \<longrightarrow> bit (pushed_regs c) i)"

lemma next_reg_regs_of:
  "next_reg_in_list AArch64 regs 0 = reg_invalid AArch64 \<longleftrightarrow> regs = 0"
  "regs \<noteq> 0 \<Longrightarrow> regs_of regs = unat (next_reg_in_list AArch64 regs 0) # tl (regs_of regs)"
proof -
  note hd = next_reg_in_list_hd [of AArch64 regs 0, simplified regs_of_AArch64 unat_0]
  show h: "regs_of regs = unat (next_reg_in_list AArch64 regs 0) # tl (regs_of regs)" if "regs \<noteq> 0"
    using hd that regs_of_Nil [of regs] by (cases "regs_of regs") auto
  show "next_reg_in_list AArch64 regs 0 = reg_invalid AArch64 \<longleftrightarrow> regs = 0"
  proof (cases "regs = 0")
    case True
    then show ?thesis using hd regs_of_Nil [of regs] by simp
  next
    case False
    then have "unat (next_reg_in_list AArch64 regs 0) < 32"
      using h [OF False] regs_of_less [of _ regs] by (metis list.set_intros(1))
    with False show ?thesis by auto
  qed
qed


lemma scratch_loop_spec:
  "scratch_regs_loop n av (int k) tp = (av', tp', rs) \<Longrightarrow> k \<le> 8 \<Longrightarrow> (\<And>i. bit av i \<Longrightarrow> k \<le> i) \<Longrightarrow>
    map unat rs = take n (regs_of av @ rev [0 ..< k]) \<and> (\<forall>i. bit av' i \<longleftrightarrow> bit av i \<and> i \<notin> unat ` set rs) \<and>
    (\<forall>i. bit tp' i \<longleftrightarrow> bit tp i \<or> i < k \<and> i \<in> unat ` set rs)"
proof (induction n arbitrary: av k tp av' tp' rs)
  case 0
  then show ?case by simp
next
  case (Suc n)
  consider (av) "av \<noteq> 0" | (push) "av = 0" "0 < k" | (none) "av = 0" "k = 0" by auto
  then show ?case
  proof cases
    case av
    define r where "r = next_reg_in_list AArch64 av 0"
    have hd: "regs_of av = unat r # tl (regs_of av)" using next_reg_regs_of(2) [OF av] by (simp add: r_def)
    have r: "r \<noteq> reg_invalid AArch64" using next_reg_regs_of(1) [of av] av by (simp add: r_def)
    let ?av = "av AND NOT (reg_bit r)"
    obtain rs1 where rec: "scratch_regs_loop n ?av (int k) tp = (av', tp', rs1)" and rs: "rs = r # rs1"
      using Suc.prems(1) r by (auto simp: Let_def r_def [symmetric] split: prod.splits if_splits)
    have bits: "bit ?av i \<longleftrightarrow> bit av i \<and> i \<noteq> unat r" for i
      using bit_imp_le_length [of av i] by (auto simp: bit_simps reg_bit_def)
    have "unat r \<notin> set (tl (regs_of av))" using regs_of_distinct [of av] by (subst (asm) hd) simp
    then have tl: "regs_of ?av = tl (regs_of av)"
      unfolding regs_of_clear by (subst hd) (auto intro!: filter_True)
    have "unat r \<in> set (regs_of av)" by (subst hd) simp
    then have "bit av (unat r)" by (simp add: regs_of_def)
    then have rk: "\<not> unat r < k" using Suc.prems(3) [of "unat r"] by simp
    have ih: "map unat rs1 = take n (tl (regs_of av) @ rev [0 ..< k])"
      "\<And>i. bit av' i \<longleftrightarrow> (bit av i \<and> i \<noteq> unat r) \<and> i \<notin> unat ` set rs1"
      "\<And>i. bit tp' i \<longleftrightarrow> bit tp i \<or> i < k \<and> i \<in> unat ` set rs1"
      using Suc.IH [OF rec Suc.prems(2)] Suc.prems(3) unfolding tl bits by auto
    have "map unat rs = take (Suc n) (regs_of av @ rev [0 ..< k])" unfolding rs by (subst hd) (simp add: ih(1))
    moreover have "bit av' i \<longleftrightarrow> bit av i \<and> i \<notin> unat ` set rs" for i using ih(2) [of i] unfolding rs by auto
    moreover have "bit tp' i \<longleftrightarrow> bit tp i \<or> i < k \<and> i \<in> unat ` set rs" for i using ih(3) [of i] rk unfolding rs by auto
    ultimately show ?thesis by blast
  next
    case push
    let ?k = "k - 1" and ?r = "word_of_int (int k - 1) :: u32"
    have kr1: "int ?k = int k - 1" "int k - 1 \<ge> 0" using push(2) by linarith+
    have "?k < 2 ^ 32" using Suc.prems(2) by simp
    then have "unat ?r = ?k" unfolding kr1(1) [symmetric] by (simp add: unat_of_nat take_bit_nat_eq_self)
    with kr1 have kr: "int ?k = int k - 1" "unat ?r = ?k" "int k - 1 \<ge> 0" by simp_all
    have inv: "next_reg_in_list AArch64 av 0 = reg_invalid AArch64" using next_reg_regs_of(1) push(1) by simp
    obtain rs1 where rec: "scratch_regs_loop n av (int ?k) (tp OR reg_bit ?r) = (av', tp', rs1)" and rs: "rs = ?r # rs1"
      using Suc.prems(1) inv kr(1,3) by (auto simp: Let_def split: prod.splits if_splits)
    have ih: "map unat rs1 = take n (regs_of av @ rev [0 ..< ?k])" "\<And>i. bit av' i \<longleftrightarrow> bit av i \<and> i \<notin> unat ` set rs1"
      "\<And>i. bit tp' i \<longleftrightarrow> bit (tp OR reg_bit ?r) i \<or> i < ?k \<and> i \<in> unat ` set rs1"
      using Suc.IH [OF rec] Suc.prems(2) push(1) by auto
    have "regs_of av = []" using regs_of_Nil push(1) by simp
    moreover have "rev [0 ..< k] = ?k # rev [0 ..< ?k]" using push(2) by (cases k) simp_all
    moreover have "bit (tp OR reg_bit ?r) i \<longleftrightarrow> bit tp i \<or> i = ?k" for i
      using kr(2) Suc.prems(2) push(2) by (auto simp: bit_simps reg_bit_def)
    moreover have "i < k \<longleftrightarrow> i < ?k \<or> i = ?k" for i using push(2) by auto
    ultimately show ?thesis using ih push(1) kr(2) by (auto simp: rs)
  next
    case none
    then have "next_reg_in_list AArch64 av 0 = reg_invalid AArch64" "regs_of av = []"
      using next_reg_regs_of(1) regs_of_Nil by simp_all
    with none Suc.prems(1) show ?thesis by (auto simp: Let_def)
  qed
qed


lemma regs_of_card: "length (regs_of regs) = card {i. bit regs i}"
proof -
  have "set (regs_of regs) = {i. bit regs i}" using bit_imp_le_length [of regs] by (auto simp: regs_of_def)
  then show ?thesis using distinct_card [OF regs_of_distinct [of regs]] by simp
qed

lemma scratch_min_pushed:
  assumes "\<And>i. bit regs i \<longleftrightarrow> k \<le> i \<and> i < 8" "k \<le> 8"
  shows "(if regs \<noteq> 0 then uint (next_reg_in_list AArch64 regs 0) else 8) = int k"
proof (cases "k = 8")
  case True
  then have "regs = 0" using assms by (intro bit_word_eqI) auto
  with True show ?thesis by simp
next
  case False
  then have "bit regs k" using assms by auto
  then have nz: "regs \<noteq> 0" by auto
  have "[0 ..< 32] = [0 ..< k] @ k # [Suc k ..< 32]"
    using assms(2) upt_add_eq_append [of 0 k "32 - k"] upt_conv_Cons [of k 32] by simp
  then have "regs_of regs = k # filter (bit regs) [Suc k ..< 32]"
    using \<open>bit regs k\<close> assms(1) by (simp add: regs_of_def filter_False)
  then have "unat (next_reg_in_list AArch64 regs 0) = k" using next_reg_regs_of(2) [OF nz] by simp
  with nz show ?thesis by (simp add: uint_nat)
qed

definition in_use :: "code_ctx \<Rightarrow> nat set" where
  "in_use c = {i. bit (pushed_regs c) i \<and> \<not> bit (available_regs c) i}"

lemma take_rev_upt: "set (take m (rev [0 ..< k])) = {k - m ..< k}"
  by (simp add: take_rev drop_upt)

lemma card_in_use:
  assumes "\<And>i. bit (pushed_regs c) i \<longleftrightarrow> k \<le> i \<and> i < 8" "\<And>i. bit (available_regs c) i \<Longrightarrow> k \<le> i \<and> i < 8" "k \<le> 8"
  shows "8 - card (in_use c) = length (regs_of (available_regs c)) + k"
proof -
  let ?A = "{i. bit (available_regs c) i}"
  have sub: "?A \<subseteq> {k ..< 8}" using assms(2) by auto
  have "in_use c = {k ..< 8} - ?A" unfolding in_use_def assms(1) by auto
  then have "card (in_use c) = (8 - k) - card ?A" using sub by (simp add: card_Diff_subset finite_subset)
  moreover have "card ?A \<le> 8 - k" using card_mono [OF _ sub] by simp
  ultimately show ?thesis using assms(3) by (simp add: regs_of_card)
qed

lemma scratch_pool:
  assumes "k \<le> 8" "\<And>i. bit (pushed_regs c) i \<longleftrightarrow> k \<le> i \<and> i < 8" "\<And>i. bit (available_regs c) i \<Longrightarrow> k \<le> i \<and> i < 8"
    and S: "S = set (take n (regs_of (available_regs c))) \<union> {k - m ..< k}"
    and "\<And>i. bit (available_regs c') i \<longleftrightarrow> bit (available_regs c) i \<and> i \<notin> S"
    and "\<And>i. bit (pushed_regs c') i \<longleftrightarrow> bit (pushed_regs c) i \<or> i < k \<and> i \<in> S"
  shows "scratch_inv c'" "S \<inter> in_use c = {}" "in_use c' = in_use c \<union> S"
proof -
  have av: "i \<in> set (take n (regs_of (available_regs c))) \<Longrightarrow> bit (available_regs c) i" for i
    by (auto simp: regs_of_def dest: in_set_takeD)
  have low: "i < k \<and> i \<in> S \<longleftrightarrow> k - m \<le> i \<and> i < k" for i using av assms(3) by (fastforce simp: S)
  have p: "bit (pushed_regs c') i \<longleftrightarrow> k - m \<le> i \<and> i < 8" for i
    unfolding assms(6) low assms(2) using assms(1) by auto
  show "scratch_inv c'"
    unfolding scratch_inv_def
  proof (intro conjI exI [of _ "k - m"] allI impI)
    show "bit (pushed_regs c') i" if "bit (available_regs c') i" for i
      using that assms(3) [of i] unfolding p assms(5) by linarith
  qed (use assms(1) p in auto)
  show "S \<inter> in_use c = {}" using av assms(2) by (auto simp: S in_use_def)
  show "in_use c' = in_use c \<union> S"
    unfolding in_use_def assms(5,6) using av assms(2,3) S by fastforce
qed

section \<open>Properties\<close>

text \<open>What a push of a list of registers does as machine code, wherever it is emitted.\<close>

definition saves :: "a64_code \<Rightarrow> uintptr \<Rightarrow> nat list \<Rightarrow> a64_state \<Rightarrow> a64_state \<Rightarrow> bool" where
  "saves code q rs s s' \<longleftrightarrow> reaches code s s' \<and> pc_reg s' = q \<and> xregs s' = xregs s \<and> flags s' = flags s \<and>
     sp_reg s' = sp_reg s - 16 * of_nat (chunks rs) \<and> stack_holds rs (sp_reg s') (mem s') (xregs s) \<and>
     (\<forall>a. a \<notin> stack_frame (sp_reg s') (chunks rs) \<longrightarrow> mem s' a = mem s a)"

lemma push_seq_saves:
  assumes "aligned_to 16 (sp_reg s)" "pc_reg s = p" "\<not> bit regs 31"
  shows "\<exists>s'. saves (fst (emit_seq (push_seq (regs_of regs)) (code, p))) (snd (emit_seq (push_seq (regs_of regs)) (code, p))) (regs_of regs) s s'"
proof -
  let ?rs = "regs_of regs"
  have len: "length (push_seq ?rs) < 2 ^ 60" using chunks_le [of ?rs] regs_of_length [of regs] by (simp add: push_pop_length)
  obtain m where m: "run_seq (push_seq ?rs) s = Some (s\<lparr>sp_reg := sp_reg s - 16 * of_nat (chunks ?rs), mem := m, pc_reg := slot (pc_reg s) (length (push_seq ?rs))\<rparr>)"
      "stack_holds ?rs (sp_reg s - 16 * of_nat (chunks ?rs)) m (xregs s)"
      "\<forall>a. a \<notin> stack_frame (sp_reg s - 16 * of_nat (chunks ?rs)) (chunks ?rs) \<longrightarrow> m a = mem s a"
    using run_push_seq [OF assms(1) regs_of_no_sp [OF assms(3)] regs_of_length] by blast
  from emit_seq_run [OF m(1) len, of code] m(2,3) show ?thesis using assms(2)
    by (intro exI [of _ "s\<lparr>sp_reg := sp_reg s - 16 * of_nat (chunks ?rs), mem := m, pc_reg := slot (pc_reg s) (length (push_seq ?rs))\<rparr>"]) (simp add: saves_def)
qed

text \<open>C31: Scratch registers are handed out exclusively and saved. From any state of the scratch register pool, a request is
  filled up to the eight registers minus those in use; the registers delivered are distinct, were not in use
  before and are no longer available to later requests, while the registers in use stay so. The pool stays well formed. Those delivered
  registers that no earlier request has pushed are saved by the emitted code: run from any state with an aligned stack, it
  stores exactly their values in a new stack frame, changes no register but SP and no memory outside the frame, and the count of pushed
  registers grows by their number.\<close>

theorem mambo_get_scratch_regs_exclusive:
  assumes "scratch_inv c"
  shows "\<exists>rs c' code'. mambo_get_scratch_regs (c, code) n = Ok (rs, c', code') \<and> scratch_inv c' \<and> distinct rs \<and>
    length rs = min (nat n) (8 - card (in_use c)) \<and> unat ` set rs \<inter> in_use c = {} \<and> in_use c' = in_use c \<union> unat ` set rs \<and>
    (\<exists>new. distinct new \<and> set new = {r \<in> unat ` set rs. \<not> bit (pushed_regs c) r} \<and>
      plugin_pushed_reg_count c' = plugin_pushed_reg_count c + int (length new) \<and>
      (\<forall>s. aligned_to 16 (sp_reg s) \<and> pc_reg s = write_p c \<longrightarrow> (\<exists>s'. saves code' (write_p c') new s s')))"
proof -
  obtain k where k: "k \<le> 8" "\<And>i. bit (pushed_regs c) i \<longleftrightarrow> k \<le> i \<and> i < 8" using assms(1) by (auto simp: scratch_inv_def)
  have av: "bit (available_regs c) i \<Longrightarrow> k \<le> i \<and> i < 8" for i using assms(1) k(2) by (auto simp: scratch_inv_def)
  obtain av' tp rs where loop: "scratch_regs_loop (nat n) (available_regs c) (int k) 0 = (av', tp, rs)" by (metis prod_cases3)
  let ?R = "regs_of (available_regs c)"
  have spec: "map unat rs = take (nat n) (?R @ rev [0 ..< k])" "\<And>i. bit av' i \<longleftrightarrow> bit (available_regs c) i \<and> i \<notin> unat ` set rs"
    "\<And>i. bit tp i \<longleftrightarrow> i < k \<and> i \<in> unat ` set rs"
    using scratch_loop_spec [OF loop k(1)] av by auto
  let ?c = "c\<lparr>available_regs := av', pushed_regs := pushed_regs c OR tp\<rparr>"
  let ?w = "emit_seq (push_seq (regs_of tp)) (code, write_p c)"
  have tp0: "regs_of 0 = []" by (simp add: regs_of_def)
  obtain c' code' where c': "(if tp \<noteq> 0 then emit_push (?c, code) tp else Ok (?c, code)) = Ok (c', code')"
    and regs: "pushed_regs c' = pushed_regs c OR tp" "available_regs c' = av'"
    and pushed: "code' = fst ?w" "write_p c' = snd ?w" "plugin_pushed_reg_count c' = plugin_pushed_reg_count c + int (length (regs_of tp))"
    by (cases "tp = 0") (auto simp: emit_push_def emit_a64_push_emits Let_def tp0)
  have run: "mambo_get_scratch_regs (c, code) n = Ok (rs, c', code')"
    unfolding mambo_get_scratch_regs_def fst_conv snd_conv scratch_min_pushed [OF k(2,1)] loop Let_def
    using c' by simp
  have S: "unat ` set rs = set (take (nat n) ?R) \<union> {k - (nat n - length ?R) ..< k}"
    using arg_cong [OF spec(1), of set] by (simp add: take_rev_upt)
  have "set ?R \<inter> {0 ..< k} = {}" by (auto simp: regs_of_def dest: av)
  then have "distinct (?R @ rev [0 ..< k])" using regs_of_distinct [of "available_regs c"] by simp
  then have "distinct rs" using spec(1) by (metis distinct_map distinct_take)
  moreover have "length rs = min (nat n) (8 - card (in_use c))"
    using arg_cong [OF spec(1), of length] card_in_use [OF k(2) av k(1)]
    by (simp add: min_def split: if_splits) linarith
  moreover have bits: "bit (available_regs c') i \<longleftrightarrow> bit (available_regs c) i \<and> i \<notin> unat ` set rs"
    "bit (pushed_regs c') i \<longleftrightarrow> bit (pushed_regs c) i \<or> i < k \<and> i \<in> unat ` set rs" for i
    using spec(2,3) [of i] by (simp_all add: regs bit_or_iff)
  moreover have "unat ` set rs \<subseteq> {..< 8}"
    unfolding S using k(1) by (auto simp: regs_of_def dest!: in_set_takeD av)
  then have new: "set (regs_of tp) = {r \<in> unat ` set rs. \<not> bit (pushed_regs c) r}"
    unfolding k(2) regs_of_def set_filter spec(3) using k(1) by fastforce
  moreover have "\<not> bit tp 31" using spec(3) [of 31] k(1) by simp
  then have sv: "\<forall>s. aligned_to 16 (sp_reg s) \<and> pc_reg s = write_p c \<longrightarrow> (\<exists>s'. saves code' (write_p c') (regs_of tp) s s')"
    using push_seq_saves [of _ "write_p c" tp code] unfolding pushed(1,2) by blast
  ultimately have *: "distinct rs" "length rs = min (nat n) (8 - card (in_use c))" by blast+
  have "\<exists>new. distinct new \<and> set new = {r \<in> unat ` set rs. \<not> bit (pushed_regs c) r} \<and>
      plugin_pushed_reg_count c' = plugin_pushed_reg_count c + int (length new) \<and>
      (\<forall>s. aligned_to 16 (sp_reg s) \<and> pc_reg s = write_p c \<longrightarrow> (\<exists>s'. saves code' (write_p c') new s s'))"
    using regs_of_distinct [of tp] new pushed(3) sv by (intro exI [of _ "regs_of tp"] conjI)
  then show ?thesis
    using run * scratch_pool [OF k(1,2) av S bits] by (intro exI [of _ rs] exI [of _ c'] exI [of _ code'] conjI)
qed

theorem mambo_get_scratch_regs_exclusive_witness:
  "\<exists>rs c' code'. mambo_get_scratch_regs (witness_ctx, Map.empty) 3 = Ok (rs, c', code') \<and> length rs = 3 \<and> distinct rs"
proof -
  have inv: "scratch_inv witness_ctx" by (auto simp: scratch_inv_def witness_ctx_def intro!: exI [of _ 8])
  have "in_use witness_ctx = {}" by (simp add: in_use_def witness_ctx_def)
  with mambo_get_scratch_regs_exclusive [OF inv, of Map.empty 3] show ?thesis by fastforce
qed

text \<open>C32: Events are delivered to the registered callbacks in the order of their plugins, each callback seeing its own
  plugin number and the context as its predecessors left it, and nothing else happens. If more plugins asked for a
  number than there are, delivery then reads the plugin table past its end: \<open>mambo_register_plugin\<close> counts the refused
  plugins too.\<close>

theorem mambo_deliver_callbacks_order:
  assumes "global_ok g" "0 \<le> event_type ctx" "event_type ctx < CALLBACK_MAX_IDX" "keeps_global run g"
  shows "mambo_deliver_callbacks_for_ctx run ctx g w =
    res_bind (deliver_spec run (registered g (event_type ctx) 0 (min (free_plugin g) MAX_PLUGIN_NO)) (ctx, g, w))
      (\<lambda>st. if free_plugin g \<le> MAX_PLUGIN_NO then Ok st else Mem_Fault)"
proof -
  have "unsigned_id (event_type ctx) = event_type ctx"
    using assms(2,3) by (simp add: unsigned_id_def uint_word_of_int take_bit_int_eq_self CALLBACK_MAX_IDX_def)
  moreover have "(0 :: int) \<le> MAX_PLUGIN_NO" by (simp add: MAX_PLUGIN_NO_def)
  ultimately show ?thesis
    using assms deliver_loop_spec [OF assms(1-4), of 0 ctx w]
    by (simp add: mambo_deliver_callbacks_for_ctx_def Let_def)
qed


definition one_plugin :: "mambo_callback \<Rightarrow> dbm_global" where
  "one_plugin f = \<lparr>exec_allocs = \<lparr>mem_size = 0, entry_count = 0, im_entries = [], im_closed = []\<rparr>, g_threads = None, exit_group = 0, free_plugin = 1,
     plugins = \<lparr>cbs = (replicate 15 None)[13 := Some f], plugin_data = 0\<rparr> # replicate 9 \<lparr>cbs = replicate 15 None, plugin_data = 0\<rparr>,
     watched_functions = \<lparr>func_count = 0, funcs_lock = False, funcs = [], funcp_count = 0, funcps_lock = False, funcps = []\<rparr>,
     reg_ctx = \<lparr>ctx_thread = None, event_type = 0, plugin_id = 0, ctx_u = No_ctx\<rparr>\<rparr>"

definition log_run :: "mambo_callback \<Rightarrow> (unit, (int \<times> nat) list) event_state \<Rightarrow> (unit, (int \<times> nat) list) event_state res" where
  "log_run f st = (case st of (ctx, g, w) \<Rightarrow> Ok (ctx, g, w @ [(plugin_id ctx, f)]))"

theorem mambo_deliver_callbacks_order_witness:
  "\<exists>ctx'. mambo_deliver_callbacks_for_ctx log_run (set_mambo_context (reg_ctx (one_plugin 7)) None EXIT_C) (one_plugin 7) [] =
     Ok (ctx', one_plugin 7, [(0, 7)])"
proof -
  let ?ctx = "set_mambo_context (reg_ctx (one_plugin 7)) None EXIT_C"
  have ok: "global_ok (one_plugin 7)"
    by (auto simp: global_ok_def one_plugin_def MAX_PLUGIN_NO_def CALLBACK_MAX_IDX_def)
  have ev: "event_type ?ctx = 13" by (simp add: set_mambo_context_def EXIT_C_def)
  have keeps: "keeps_global log_run (one_plugin 7)" by (auto simp: keeps_global_def log_run_def)
  have reg: "registered (one_plugin 7) 13 0 1 = [(0, 7)]" "free_plugin (one_plugin 7) = 1"
    by (simp_all add: registered_def one_plugin_def)
  show ?thesis
    using mambo_deliver_callbacks_order [OF ok _ _ keeps, of ?ctx "[]"]
    by (simp add: ev reg log_run_def CALLBACK_MAX_IDX_def MAX_PLUGIN_NO_def)
qed

text \<open>C33: Releasing a single scratch register never returns: the function calls itself with a shifted mask instead of
  \<open>mambo_free_scratch_regs\<close>, until the shift is undefined.\<close>

theorem mambo_free_scratch_reg_never_returns:
  "mambo_free_scratch_reg (6 + n) c reg = Undef"
proof -
  have big: "mambo_free_scratch_reg (Suc (Suc n)) c r = Undef" if "5 \<le> r" for r n
  proof (cases "r \<ge> 32")
    case False
    have "(2 :: int) ^ 5 \<le> 2 ^ nat r" using that by (intro power_increasing) auto
    with False that show ?thesis by (simp add: push_bit_eq_mult)
  qed simp
  have six: "6 + n = Suc (Suc (Suc (Suc (Suc (Suc n)))))" by simp
  consider "reg < 0" | "5 \<le> reg" | "reg = 0" | "reg = 1" | "reg = 2" | "reg = 3" | "reg = 4" by linarith
  then show ?thesis
  proof cases
    case 2
    then show ?thesis unfolding six by (rule big)
  qed (unfold six, simp_all add: big)
qed

end
