(* ===== verification/A64_Scan.thy ===== *)
theory A64_Scan
  imports Plugin_Api Code_Cache
begin

text \<open>
  The AArch64 scanner (\<open>scan_a64\<close> of \<open>scanner_a64.c\<close>): it copies the guest's instructions into a fragment of the code
  cache, translates the position-dependent ones and ends the fragment with an exit, delivering events to the plugins as it
  goes. The instruction decoder is generated at build time and an argument (\<open>decode\<close>); the field decoders follow
  \<open>pie/a64.txt\<close>. The guest's memory is a function from addresses to words. \<open>entries\<close> and \<open>tls_addr\<close> are the addresses of
  two fields of the thread structure. Both loops run until they meet a branch; the fuel bounds the instructions read.
\<close>

section \<open>Instructions and fields\<close>

text \<open>
  The enumeration \<open>a64_instruction\<close> that the decoder generator makes of \<open>pie/a64.txt\<close>: the instructions in the order of
  the file, then \<open>A64_INVALID\<close>. Named are those the scanner treats specially or does not handle.
\<close>

type_synonym a64_instruction = nat

definition A64_CBZ_CBNZ :: a64_instruction where "A64_CBZ_CBNZ = 0"
definition A64_B_COND :: a64_instruction where "A64_B_COND = 1"
definition A64_SVC :: a64_instruction where "A64_SVC = 2"
definition A64_SMC :: a64_instruction where "A64_SMC = 4"
definition A64_HLT :: a64_instruction where "A64_HLT = 6"
definition A64_DCPS1 :: a64_instruction where "A64_DCPS1 = 7"
definition A64_DCPS2 :: a64_instruction where "A64_DCPS2 = 8"
definition A64_DCPS3 :: a64_instruction where "A64_DCPS3 = 9"
definition A64_MSR_IMMED :: a64_instruction where "A64_MSR_IMMED = 10"
definition A64_MRS_MSR_REG :: a64_instruction where "A64_MRS_MSR_REG = 17"
definition A64_SYSL :: a64_instruction where "A64_SYSL = 18"
definition A64_TBZ_TBNZ :: a64_instruction where "A64_TBZ_TBNZ = 19"
definition A64_B_BL :: a64_instruction where "A64_B_BL = 20"
definition A64_BR :: a64_instruction where "A64_BR = 21"
definition A64_BLR :: a64_instruction where "A64_BLR = 22"
definition A64_RET :: a64_instruction where "A64_RET = 23"
definition A64_ERET :: a64_instruction where "A64_ERET = 24"
definition A64_DRPS :: a64_instruction where "A64_DRPS = 25"
definition A64_LDR_LIT :: a64_instruction where "A64_LDR_LIT = 27"
definition A64_ADR :: a64_instruction where "A64_ADR = 50"
definition A64_INVALID :: a64_instruction where "A64_INVALID = 91"

lemmas a64_instructions = A64_CBZ_CBNZ_def A64_B_COND_def A64_SVC_def A64_SMC_def A64_HLT_def A64_DCPS1_def A64_DCPS2_def A64_DCPS3_def A64_MSR_IMMED_def A64_MRS_MSR_REG_def A64_SYSL_def A64_TBZ_TBNZ_def A64_B_BL_def A64_BR_def A64_BLR_def A64_RET_def A64_ERET_def A64_DRPS_def A64_LDR_LIT_def A64_ADR_def A64_INVALID_def

definition a64_B_cond_decode_fields :: "u32 \<Rightarrow> u32 \<times> u32" where
  "a64_B_cond_decode_fields w = (fld w 23 5, fld w 3 0)"

definition a64_B_BL_decode_fields :: "u32 \<Rightarrow> u32 \<times> u32" where
  "a64_B_BL_decode_fields w = (fld w 31 31, fld w 25 0)"

definition a64_BR_decode_fields :: "u32 \<Rightarrow> u32" where
  "a64_BR_decode_fields w = fld w 9 5"

text \<open>\<open>opc, V, imm19, Rt\<close>.\<close>

definition a64_LDR_lit_decode_fields :: "u32 \<Rightarrow> u32 \<times> u32 \<times> u32 \<times> u32" where
  "a64_LDR_lit_decode_fields w = (fld w 31 30, fld w 26 26, fld w 23 5, fld w 4 0)"

text \<open>\<open>op, immlo, immhi, Rd\<close>.\<close>

definition a64_ADR_decode_fields :: "u32 \<Rightarrow> u32 \<times> u32 \<times> u32 \<times> u32" where
  "a64_ADR_decode_fields w = (fld w 31 31, fld w 30 29, fld w 23 5, fld w 4 0)"

record mrs_fields =
  mrs_r :: u32
  mrs_o0 :: u32
  mrs_op1 :: u32
  mrs_crn :: u32
  mrs_crm :: u32
  mrs_op2 :: u32
  mrs_rt :: u32

definition a64_MRS_MSR_reg_decode_fields :: "u32 \<Rightarrow> mrs_fields" where
  "a64_MRS_MSR_reg_decode_fields w = \<lparr>mrs_r = fld w 21 21, mrs_o0 = fld w 19 19, mrs_op1 = fld w 18 16, mrs_crn = fld w 15 12,
     mrs_crm = fld w 11 8, mrs_op2 = fld w 7 5, mrs_rt = fld w 4 0\<rparr>"

section \<open>Free space\<close>

definition MIN_FSPACE :: uintptr where "MIN_FSPACE = 60"

definition a64_check_free_space ::
    "'a dbm_thread_scheme \<Rightarrow> uintptr \<Rightarrow> uintptr \<Rightarrow> uintptr \<Rightarrow> int \<Rightarrow> a64_code \<Rightarrow> ('a dbm_thread_scheme \<times> uintptr \<times> uintptr \<times> a64_code) res" where
  "a64_check_free_space thread_data wp dp sz cur_block code =
     (if wp + sz \<ge> dp then
        res_bind (res_assert (cur_block < CODE_CACHE_SIZE)) (\<lambda>_.
        res_bind (allocate_bb_overflow thread_data) (\<lambda>(basic_block, thread_data).
        res_bind (meta_upd thread_data basic_block (\<lambda>m. m\<lparr>actual_id := cur_block\<rparr>)) (\<lambda>thread_data.
        let block = blocks_addr thread_data basic_block; dp' = block + word_of_int (BASIC_BLOCK_SIZE * 4) in
        if block \<noteq> dp then
          res_bind (a64_b_helper wp block code) (\<lambda>code. Ok (thread_data, block, dp', code))
        else Ok (thread_data, wp, dp', code))))
      else Ok (thread_data, wp, dp, code))"

section \<open>The first pass\<close>

fun pass1_a64 :: "nat \<Rightarrow> (u32 \<Rightarrow> a64_instruction) \<Rightarrow> (uintptr \<Rightarrow> u32) \<Rightarrow> uintptr \<Rightarrow> branch_type res" where
  "pass1_a64 0 decode guest raddr = No_Fuel"
| "pass1_a64 (Suc n) decode guest raddr =
     (let instruction = decode (guest raddr) in
      if instruction = A64_B_BL then Ok uncond_imm_a64
      else if instruction = A64_CBZ_CBNZ then Ok cbz_a64
      else if instruction = A64_B_COND then Ok cond_imm_a64
      else if instruction = A64_TBZ_TBNZ then Ok tbz_a64
      else if instruction = A64_BR \<or> instruction = A64_BLR \<or> instruction = A64_RET then Ok uncond_branch_reg
      else if instruction = A64_INVALID then Ok unknown
      else pass1_a64 n decode guest (raddr + 4))"

section \<open>The state of a scan\<close>

text \<open>The local variables of \<open>scan_a64\<close> that its loop changes, with the structures it works on.\<close>

record ('t, 'g) scan_state =
  sc_thread :: 't
  sc_global :: 'g
  sc_code :: a64_code
  sc_read :: uintptr
  sc_bb_entry :: uintptr
  sc_write :: uintptr
  sc_data :: uintptr
  sc_stop :: bool

type_synonym ('a, 'g) scan = "('a dbm_thread_scheme, 'g dbm_global_scheme) scan_state"

definition sc_emit :: "(a64_out \<Rightarrow> a64_out) \<Rightarrow> ('t, 'g) scan_state \<Rightarrow> ('t, 'g) scan_state" where
  "sc_emit f s = (let w = f (sc_code s, sc_write s) in s\<lparr>sc_code := fst w, sc_write := snd w\<rparr>)"

definition sc_emit_res :: "(a64_out \<Rightarrow> a64_out res) \<Rightarrow> ('t, 'g) scan_state \<Rightarrow> ('t, 'g) scan_state res" where
  "sc_emit_res f s = res_bind (f (sc_code s, sc_write s)) (\<lambda>w. Ok (s\<lparr>sc_code := fst w, sc_write := snd w\<rparr>))"

definition sc_meta :: "int \<Rightarrow> (dbm_code_cache_meta \<Rightarrow> dbm_code_cache_meta) \<Rightarrow> ('a, 'g) scan \<Rightarrow> ('a, 'g) scan res" where
  "sc_meta bb f s = res_bind (meta_upd (sc_thread s) bb f) (\<lambda>t. Ok (s\<lparr>sc_thread := t\<rparr>))"

definition sc_space :: "uintptr \<Rightarrow> int \<Rightarrow> ('a, 'g) scan \<Rightarrow> ('a, 'g) scan res" where
  "sc_space sz bb s =
     res_bind (a64_check_free_space (sc_thread s) (sc_write s) (sc_data s) sz bb (sc_code s)) (\<lambda>(t, w, d, code).
     Ok (s\<lparr>sc_thread := t, sc_write := w, sc_data := d, sc_code := code\<rparr>))"

definition a64_copy :: "(uintptr \<Rightarrow> u32) \<Rightarrow> ('t, 'g) scan_state \<Rightarrow> ('t, 'g) scan_state" where
  "a64_copy guest s = sc_emit (emit_inst (a64_word (guest (sc_read s)))) s"

section \<open>Events\<close>

text \<open>
  One plugin's callback. The context's write and data pointers and its stop flag are copied in and out; a context whose
  union member was changed by the callback is an error. What the callback's replacement flag means depends on
  the event.
\<close>

definition a64_deliver_one ::
    "('a, 'g dbm_global_scheme) scan_callbacks \<Rightarrow> mambo_cb_idx \<Rightarrow> int \<Rightarrow> bool \<Rightarrow> int \<Rightarrow> mambo_callback \<Rightarrow>
     mambo_context \<times> bool \<times> ('a, 'g) scan \<Rightarrow> (mambo_context \<times> bool \<times> ('a, 'g) scan) res" where
  "a64_deliver_one run cb_id bb allow_write i cb st = (case st of (ctx, replaced, s) \<Rightarrow>
     res_bind (code_of (ctx_u ctx)) (\<lambda>c.
     let ctx = (set_code ctx (c\<lparr>write_p := sc_write s, data_p := sc_data s, ctx_replace := False,
           available_regs := pushed_regs c, ctx_stop := Some (sc_stop s)\<rparr>))\<lparr>plugin_id := i\<rparr> in
     res_bind (run cb (ctx, sc_code s, sc_thread s, sc_global s)) (\<lambda>(ctx, code, th, g).
     res_bind (code_of (ctx_u ctx)) (\<lambda>c.
     let s' = s\<lparr>sc_thread := th, sc_global := g, sc_code := code, sc_stop := (ctx_stop c = Some True)\<rparr> in
     if allow_write then
       let replaced = (replaced \<or> (ctx_replace c \<and> cb_id = PRE_INST_C)) in
       res_bind (res_assert (int (count_bits (pushed_regs c)) = plugin_pushed_reg_count c)) (\<lambda>_.
       res_bind (if pushed_regs c \<noteq> 0 then emit_pop (c, code) (pushed_regs c) else Ok (c, code)) (\<lambda>(c, code).
       res_bind (sc_space MIN_FSPACE bb (s'\<lparr>sc_code := code, sc_write := write_p c, sc_data := data_p c\<rparr>)) (\<lambda>s'.
       Ok (set_code ctx c, replaced, s'))))
     else
       res_bind (res_assert (write_p c = sc_write s)) (\<lambda>_.
       res_bind (res_assert (data_p c = sc_data s)) (\<lambda>_.
       Ok (ctx, replaced, s')))))))"

function a64_deliver_loop ::
    "('a, 'g dbm_global_scheme) scan_callbacks \<Rightarrow> mambo_cb_idx \<Rightarrow> int \<Rightarrow> bool \<Rightarrow> int \<Rightarrow>
     mambo_context \<times> bool \<times> ('a, 'g) scan \<Rightarrow> (mambo_context \<times> bool \<times> ('a, 'g) scan) res" where
  "a64_deliver_loop run cb_id bb allow_write i (ctx, replaced, s) =
     (if i < free_plugin (sc_global s) then
        if i \<ge> MAX_PLUGIN_NO then Mem_Fault
        else
          res_bind (arr_get (plugins (sc_global s)) i) (\<lambda>p.
          res_bind (arr_get (cbs p) cb_id) (\<lambda>cb.
          res_bind (case cb of
                      None \<Rightarrow> Ok (ctx, replaced, s)
                    | Some f \<Rightarrow> a64_deliver_one run cb_id bb allow_write i f (ctx, replaced, s)) (\<lambda>st.
          a64_deliver_loop run cb_id bb allow_write (i + 1) st)))
      else Ok (ctx, replaced, s))"
  by pat_completeness auto
termination
  by (relation "measure (\<lambda>(run, cb_id, bb, aw, i, st). nat (MAX_PLUGIN_NO - i))") auto

text \<open>
  The watched functions that start at the block. The wrapper works on the context as the last callback left it; the number
  of watched addresses is read anew in each round, and reading past the table is an error.
\<close>

function a64_deliver_functions ::
    "('a, 'g dbm_global_scheme) scan_callbacks \<Rightarrow> uintptr \<Rightarrow> int \<Rightarrow> int \<Rightarrow> uintptr \<Rightarrow>
     mambo_context \<times> ('a, 'g) scan \<Rightarrow> (uintptr \<times> mambo_context \<times> ('a, 'g) scan) res" where
  "a64_deliver_functions run entries bb i raddr (ctx, s) =
     (let wf = watched_functions (sc_global s) in
      if i < funcp_count wf then
        if i \<ge> MAX_WATCHED_FUNC_PTRS then Mem_Fault
        else
          res_bind (arr_get (funcps wf) i) (\<lambda>fp.
          if raddr = wfp_addr fp then
            res_bind (arr_get (funcs wf) (int (wfp_func fp))) (\<lambda>func.
            res_bind (function_callback_wrapper run entries func (ctx, sc_code s, sc_thread s, sc_global s)) (\<lambda>(ctx, code, th, g).
            res_bind (code_of (ctx_u ctx)) (\<lambda>c.
            res_bind (sc_space MIN_FSPACE bb (s\<lparr>sc_thread := th, sc_global := g, sc_code := code, sc_write := write_p c, sc_data := data_p c,
                        sc_stop := (ctx_stop c = Some True)\<rparr>)) (\<lambda>s.
            a64_deliver_functions run entries bb (i + 1) (if ctx_replace c then read_address c else raddr) (ctx, s)))))
          else a64_deliver_functions run entries bb (i + 1) raddr (ctx, s))
      else Ok (raddr, ctx, s))"
  by pat_completeness auto
termination
  by (relation "measure (\<lambda>(run, entries, bb, i, raddr, st). nat (MAX_WATCHED_FUNC_PTRS - i))") auto

declare a64_deliver_loop.simps [simp del] a64_deliver_functions.simps [simp del]

text \<open>
  What stays the same during a scan: the plugins' callbacks, the contents of an uninitialised context, the addresses of the
  two thread fields, the guest's memory, the decoder and the thread's pointer.
\<close>

record ('t, 'w) scan_env =
  env_run :: "mambo_callback \<Rightarrow> mambo_context \<times> a64_code \<times> 't \<times> 'w \<Rightarrow> (mambo_context \<times> a64_code \<times> 't \<times> 'w) res"
  env_fresh :: mambo_context
  env_entries :: uintptr
  env_tls :: uintptr
  env_guest :: "uintptr \<Rightarrow> u32"
  env_decode :: "u32 \<Rightarrow> a64_instruction"
  env_thread :: nat

type_synonym ('a, 'g) a64_env = "('a dbm_thread_scheme, 'g dbm_global_scheme) scan_env"

definition a64_scanner_deliver_callbacks ::
    "('a, 'g) a64_env \<Rightarrow> mambo_cb_idx \<Rightarrow> uintptr \<Rightarrow> a64_instruction option \<Rightarrow> int \<Rightarrow> cc_type \<Rightarrow> bool \<Rightarrow> ('a, 'g) scan \<Rightarrow>
     (bool \<times> uintptr \<times> ('a, 'g) scan) res" where
  "a64_scanner_deliver_callbacks env cb_id raddr inst bb ty allow_write s =
     (if free_plugin (sc_global s) > 0 then
        let cond = (if inst = Some A64_B_COND then snd (a64_B_cond_decode_fields (env_guest env raddr)) else AL);
            inst_no = (case inst of None \<Rightarrow> -1 | Some i \<Rightarrow> int i);
            ctx = set_mambo_context_code (env_fresh env) (Some (env_thread env)) cb_id ty bb A64_INST inst_no cond raddr
              (sc_write s) (sc_data s) (Some (sc_stop s)) [] in
        res_bind (a64_deliver_loop (env_run env) cb_id bb allow_write 0 (ctx, False, s)) (\<lambda>(ctx, replaced, s).
        if cb_id = PRE_BB_C then
          res_bind (a64_deliver_functions (env_run env) (env_entries env) bb 0 raddr (ctx, s)) (\<lambda>(raddr, ctx, s). Ok (replaced, raddr, s))
        else Ok (replaced, raddr, s))
      else Ok (False, raddr, s))"

section \<open>Translating one instruction\<close>

definition scan_branch_imm_reg :: "('a, 'g) a64_env \<Rightarrow> int \<Rightarrow> a64_branch_reg_inst \<Rightarrow> ('a, 'g) scan \<Rightarrow> ('a, 'g) scan res" where
  "scan_branch_imm_reg env bb inst s =
     res_bind (a64_branch_imm_reg (sc_thread s) bb inst (sc_read s) (env_guest env (sc_read s)) (sc_code s, sc_write s)) (\<lambda>(t, w).
     Ok (s\<lparr>sc_thread := t, sc_code := fst w, sc_write := snd w, sc_stop := True\<rparr>))"

definition scan_b_cond :: "('a, 'g) a64_env \<Rightarrow> int \<Rightarrow> ('a, 'g) scan \<Rightarrow> ('a, 'g) scan res" where
  "scan_b_cond env bb s =
     (let (imm19, cond) = a64_B_cond_decode_fields (env_guest env (sc_read s));
          branch_offset = push_bit 2 (sign_extend64 19 (ucast imm19));
          target = sc_read s + branch_offset in
      res_bind (sc_meta bb (\<lambda>m. m\<lparr>exit_branch_type := cond_imm_a64, exit_branch_addr := sc_write s, branch_taken_addr := target,
        branch_skipped_addr := sc_read s + 4, branch_condition := ucast cond, branch_cache_status := 0\<rparr>) s) (\<lambda>s.
      res_bind (sc_emit_res (a64_branch_jump_cond (sc_thread s) bb target (sc_read s) (ucast cond)) s) (\<lambda>s.
      Ok (s\<lparr>sc_stop := True\<rparr>))))"

definition scan_svc :: "('a, 'g) a64_env \<Rightarrow> int \<Rightarrow> cc_type \<Rightarrow> ('a, 'g) scan \<Rightarrow> ('a, 'g) scan res" where
  "scan_svc env bb ty s =
     (let s = sc_emit (a64_push_pair_reg x29 x30) s;
          s = sc_emit (a64_copy_to_reg_64bits x29 (sc_read s + 4)) s in
      res_bind (sc_emit_res (then_advance (\<lambda>p. a64_bl_helper p (syscall_wrapper_addr (sc_thread s)))) s) (\<lambda>s.
      let s = sc_emit (a64_pop_pair_reg x0 x1) s in
      res_bind (a64_scanner_deliver_callbacks env POST_BB_C (sc_bb_entry s) None bb ty False s) (\<lambda>(_, _, s).
      let s = s\<lparr>sc_read := sc_read s + 4, sc_bb_entry := sc_read s + 4\<rparr> in
      res_bind (a64_scanner_deliver_callbacks env PRE_BB_C (sc_read s) None bb ty True s) (\<lambda>(_, raddr, s).
      Ok (s\<lparr>sc_read := raddr - 4\<rparr>)))))"

definition scan_mrs_msr :: "('a, 'g) a64_env \<Rightarrow> ('a, 'g) scan \<Rightarrow> ('a, 'g) scan" where
  "scan_mrs_msr env s =
     (let f = a64_MRS_MSR_reg_decode_fields (env_guest env (sc_read s)) in
      if mrs_o0 f = 1 \<and> mrs_op1 f = 3 \<and> mrs_crn f = 13 \<and> mrs_crm f = 0 \<and> mrs_op2 f = 2 then
        let rt = ucast (mrs_rt f); spilled_reg = (if rt = x0 then x1 else x0);
            s = sc_emit (a64_push_reg spilled_reg) s;
            s = sc_emit (a64_copy_to_reg_64bits spilled_reg (env_tls env)) s;
            s = sc_emit (emit_inst (a64_LDR_STR_immed 3 0 (if mrs_r f = 0 then 0 else 1) 0 0 spilled_reg rt)) s
        in sc_emit (a64_pop_reg spilled_reg) s
      else a64_copy (env_guest env) s)"

definition scan_b_bl :: "('a, 'g) a64_env \<Rightarrow> int \<Rightarrow> ('a, 'g) scan \<Rightarrow> ('a, 'g) scan res" where
  "scan_b_bl env bb s =
     (let (op, imm26) = a64_B_BL_decode_fields (env_guest env (sc_read s));
          s = (if op = 1 then sc_emit (a64_copy_to_reg_64bits lr (sc_read s + 4)) s else s);
          branch_offset = push_bit 2 (sign_extend64 26 (ucast imm26));
          target = sc_read s + branch_offset in
      res_bind (sc_meta bb (\<lambda>m. m\<lparr>exit_branch_type := uncond_imm_a64, exit_branch_addr := sc_write s, branch_taken_addr := target\<rparr>) s) (\<lambda>s.
      let s = sc_emit (emit_inst (a64_word NOP_INSTRUCTION)) s;
          s = sc_emit a64_branch_save_context s in
      res_bind (sc_emit_res (a64_branch_jump (sc_thread s) bb target (REPLACE_TARGET OR INSERT_BRANCH)) s) (\<lambda>s.
      Ok (s\<lparr>sc_stop := True\<rparr>))))"

definition scan_br :: "('a, 'g) a64_env \<Rightarrow> int \<Rightarrow> bool \<Rightarrow> ('a, 'g) scan \<Rightarrow> ('a, 'g) scan res" where
  "scan_br env bb link s =
     (let rn = a64_BR_decode_fields (env_guest env (sc_read s)) in
      res_bind (sc_space 88 bb s) (\<lambda>s.
      res_bind (sc_meta bb (\<lambda>m. m\<lparr>exit_branch_type := uncond_branch_reg, exit_branch_addr := sc_write s, meta_rn := rn\<rparr>) s) (\<lambda>s.
      res_bind (a64_inline_hash_lookup (env_entries env) (sc_thread s) bb (sc_read s) (ucast rn) link True (sc_code s, sc_write s)) (\<lambda>(t, w).
      Ok (s\<lparr>sc_thread := t, sc_code := fst w, sc_write := snd w, sc_stop := True\<rparr>)))))"

text \<open>A literal load of a general register goes through that register, the others through X0.\<close>

definition scan_ldr_lit :: "('a, 'g) a64_env \<Rightarrow> ('a, 'g) scan \<Rightarrow> ('a, 'g) scan res" where
  "scan_ldr_lit env s =
     (let (opc, v, imm19, rt32) = a64_LDR_lit_decode_fields (env_guest env (sc_read s));
          rt = ucast rt32; off = push_bit 2 (sign_extend64 19 (ucast imm19));
          pcrel = sc_read s + off;
          via_rt = (\<lambda>sz opc. sc_emit (emit_inst (a64_LDR_STR_unsigned_immed sz 0 opc 0 rt rt)) (sc_emit (a64_copy_to_reg_64bits rt pcrel) s));
          via_x0 = (\<lambda>sz opc. sc_emit (a64_pop_reg x0)
             (sc_emit (emit_inst (a64_LDR_STR_unsigned_immed sz (ucast v) opc 0 x0 rt))
               (sc_emit (a64_copy_to_reg_64bits x0 pcrel) (sc_emit (a64_push_reg x0) s)))) in
      if v = 0 then
        Ok (if opc = 0 then via_rt 2 1 else if opc = 1 then via_rt 3 1 else if opc = 2 then via_rt 2 2 else via_x0 3 2)
      else
        if opc = 0 then Ok (via_x0 2 1) else if opc = 1 then Ok (via_x0 3 1) else if opc = 2 then Ok (via_x0 0 3)
        else Spin)"

definition scan_adr :: "('a, 'g) a64_env \<Rightarrow> ('a, 'g) scan \<Rightarrow> ('a, 'g) scan" where
  "scan_adr env s =
     (let (op, immlo, immhi, rd) = a64_ADR_decode_fields (env_guest env (sc_read s));
          imm = ucast (push_bit 2 immhi OR immlo);
          (imm, pcrel) = (if op = 0 then (sign_extend64 21 imm, sc_read s)
                          else (push_bit 12 (sign_extend64 21 imm), sc_read s AND NOT 0xFFF)) in
      sc_emit (a64_copy_to_reg_64bits (ucast rd) (pcrel + imm)) s)"

definition scan_invalid :: "('a, 'g) a64_env \<Rightarrow> int \<Rightarrow> uintptr \<Rightarrow> ('a, 'g) scan \<Rightarrow> ('a, 'g) scan res" where
  "scan_invalid env bb start_scan s =
     (if sc_read s \<noteq> start_scan then
        let s = sc_emit a64_branch_save_context s in
        res_bind (sc_emit_res (a64_branch_jump (sc_thread s) bb (sc_read s) (REPLACE_TARGET OR INSERT_BRANCH)) s) (\<lambda>s.
        Ok (s\<lparr>sc_stop := True\<rparr>))
      else Ok (a64_copy (env_guest env) s))"

text \<open>The instructions that are copied, and those the switch does not list.\<close>

definition a64_copied :: "a64_instruction \<Rightarrow> bool" where
  "a64_copied i \<longleftrightarrow> i < A64_INVALID \<and> i \<notin> {A64_CBZ_CBNZ, A64_B_COND, A64_SVC, A64_MRS_MSR_REG, A64_TBZ_TBNZ, A64_B_BL, A64_BR, A64_BLR, A64_RET,
     A64_LDR_LIT, A64_ADR} \<and>
     i \<notin> {A64_SMC, A64_HLT, A64_DCPS1, A64_DCPS2, A64_DCPS3, A64_MSR_IMMED, A64_SYSL, A64_ERET, A64_DRPS}"

definition a64_scan_inst :: "('a, 'g) a64_env \<Rightarrow> int \<Rightarrow> cc_type \<Rightarrow> uintptr \<Rightarrow> a64_instruction \<Rightarrow> ('a, 'g) scan \<Rightarrow> ('a, 'g) scan res" where
  "a64_scan_inst env bb ty start_scan inst s =
     (if inst = A64_CBZ_CBNZ then scan_branch_imm_reg env bb a64_branch_reg_inst.A64_CBZ_CBNZ s
      else if inst = A64_B_COND then scan_b_cond env bb s
      else if inst = A64_SVC then scan_svc env bb ty s
      else if inst = A64_MRS_MSR_REG then Ok (scan_mrs_msr env s)
      else if inst = A64_TBZ_TBNZ then scan_branch_imm_reg env bb a64_branch_reg_inst.A64_TBZ_TBNZ s
      else if inst = A64_B_BL then scan_b_bl env bb s
      else if inst = A64_BR \<or> inst = A64_BLR \<or> inst = A64_RET then scan_br env bb (inst = A64_BLR) s
      else if inst = A64_LDR_LIT then scan_ldr_lit env s
      else if inst = A64_ADR then Ok (scan_adr env s)
      else if a64_copied inst then Ok (a64_copy (env_guest env) s)
      else if inst = A64_INVALID then scan_invalid env bb start_scan s
      else Spin)"

section \<open>The scan\<close>

definition a64_scan_round :: "('a, 'g) a64_env \<Rightarrow> int \<Rightarrow> cc_type \<Rightarrow> uintptr \<Rightarrow> ('a, 'g) scan \<Rightarrow> ('a, 'g) scan res" where
  "a64_scan_round env bb ty start_scan s =
     (let inst = env_decode env (env_guest env (sc_read s)) in
      res_bind (a64_scanner_deliver_callbacks env PRE_INST_C (sc_read s) (Some inst) bb ty True s) (\<lambda>(skip_inst, raddr, s).
      let s = s\<lparr>sc_read := raddr\<rparr> in
      res_bind (if skip_inst then Ok s else a64_scan_inst env bb ty start_scan inst s) (\<lambda>s.
      if sc_data s \<le> sc_write s then Spin
      else
        res_bind (if sc_stop s then Ok s else sc_space MIN_FSPACE bb s) (\<lambda>s.
        res_bind (a64_scanner_deliver_callbacks env POST_INST_C (sc_read s) (Some inst) bb ty (\<not> sc_stop s) s) (\<lambda>(_, raddr, s).
        Ok (s\<lparr>sc_read := raddr + 4\<rparr>))))))"

fun a64_scan_loop :: "nat \<Rightarrow> ('a, 'g) a64_env \<Rightarrow> int \<Rightarrow> cc_type \<Rightarrow> uintptr \<Rightarrow> ('a, 'g) scan \<Rightarrow> ('a, 'g) scan res" where
  "a64_scan_loop n env bb ty start_scan s =
     (if sc_stop s then Ok s
      else case n of
        0 \<Rightarrow> No_Fuel
      | Suc m \<Rightarrow> res_bind (a64_scan_round env bb ty start_scan s) (a64_scan_loop m env bb ty start_scan))"

declare a64_scan_loop.simps [simp del]

definition scan_trace_head :: "int \<Rightarrow> ('a, 'g) scan \<Rightarrow> ('a, 'g) scan res" where
  "scan_trace_head bb s =
     (let s = sc_emit (a64_push_pair_reg x1 x30) s;
          s = sc_emit (a64_copy_to_reg_64bits x1 (word_of_int bb)) s in
      res_bind (sc_emit_res (then_advance (\<lambda>p. a64_bl_helper p (trace_head_incr_addr (sc_thread s)))) s) (\<lambda>s.
      Ok (sc_emit (a64_pop_pair_reg x1 x30) s)))"

definition scan_a64 ::
    "nat \<Rightarrow> ('a, 'g) a64_env \<Rightarrow> 'g dbm_global_scheme \<Rightarrow> 'a dbm_thread_scheme \<Rightarrow> uintptr \<Rightarrow> int \<Rightarrow> cc_type \<Rightarrow> uintptr \<Rightarrow> a64_code \<Rightarrow>
     (uintptr \<times> ('a, 'g) scan) res" where
  "scan_a64 fuel env g thread_data raddr basic_block ty wp code =
     (let wp = (if wp = 0 then blocks_addr thread_data basic_block else wp);
          dp = (if ty = mambo_bb then wp + word_of_int (BASIC_BLOCK_SIZE * 4)
                else traces_addr thread_data + word_of_int TRACE_CACHE_SIZE);
          s = \<lparr>sc_thread = thread_data, sc_global = g, sc_code = code, sc_read = raddr, sc_bb_entry = raddr, sc_write = wp,
               sc_data = dp, sc_stop = False\<rparr> in
      res_bind (if ty = mambo_bb then Ok s else sc_meta basic_block (\<lambda>m. m\<lparr>free_b := 0\<rparr>) s) (\<lambda>s.
      let s = (if ty \<noteq> mambo_trace then sc_emit (a64_pop_pair_reg x0 x1) s else s) in
      res_bind (pass1_a64 fuel (env_decode env) (env_guest env) raddr) (\<lambda>bb_type.
      res_bind (if ty = mambo_bb \<and> bb_type \<noteq> uncond_branch_reg \<and> bb_type \<noteq> unknown then scan_trace_head basic_block s else Ok s) (\<lambda>s.
      res_bind (a64_scanner_deliver_callbacks env PRE_FRAGMENT_C (sc_read s) None basic_block ty True s) (\<lambda>(_, raddr', s).
      res_bind (a64_scanner_deliver_callbacks env PRE_BB_C raddr' None basic_block ty True s) (\<lambda>(_, raddr', s).
      res_bind (a64_scan_loop fuel env basic_block ty raddr (s\<lparr>sc_read := raddr'\<rparr>)) (\<lambda>s.
      res_bind (a64_scanner_deliver_callbacks env POST_BB_C (sc_bb_entry s) None basic_block ty False s) (\<lambda>(_, _, s).
      res_bind (a64_scanner_deliver_callbacks env POST_FRAGMENT_C raddr None basic_block ty False s) (\<lambda>(_, _, s).
      Ok (sc_write s - wp + 4, s))))))))))"


section \<open>What a scan changes\<close>

text \<open>Without plugins, a scan takes overflow blocks and describes the exit in the metadata; nothing else of the thread changes.\<close>

definition thread_grows :: "int \<Rightarrow> 'a dbm_thread_scheme \<Rightarrow> 'a dbm_thread_scheme \<Rightarrow> bool" where
  "thread_grows bb t t' \<longleftrightarrow> (\<exists>m n. t' = t\<lparr>code_cache_meta := m, free_block := n\<rparr> \<and> free_block t \<le> n \<and>
     (free_block t \<le> CODE_CACHE_SIZE \<longrightarrow> n \<le> CODE_CACHE_SIZE) \<and>
     (\<forall>i. exit_branch_type (m i) = stub \<longrightarrow> exit_branch_type (code_cache_meta t i) = stub) \<and>
     (\<forall>i. tpc (m i) = tpc (code_cache_meta t i)) \<and>
     (\<forall>i. i \<noteq> bb \<and> (i < free_block t \<or> CODE_CACHE_SIZE \<le> i) \<longrightarrow> m i = code_cache_meta t i))"

lemma thread_growsI:
  assumes "t' = t\<lparr>code_cache_meta := m, free_block := n\<rparr>" "free_block t \<le> n" "free_block t \<le> CODE_CACHE_SIZE \<Longrightarrow> n \<le> CODE_CACHE_SIZE"
    "\<And>i. exit_branch_type (m i) = stub \<Longrightarrow> exit_branch_type (code_cache_meta t i) = stub" "\<And>i. tpc (m i) = tpc (code_cache_meta t i)"
    "\<And>i. i \<noteq> bb \<Longrightarrow> i < free_block t \<or> CODE_CACHE_SIZE \<le> i \<Longrightarrow> m i = code_cache_meta t i"
  shows "thread_grows bb t t'"
  unfolding thread_grows_def using assms by blast

lemma thread_growsE:
  assumes "thread_grows bb t t'"
  obtains m n where "t' = t\<lparr>code_cache_meta := m, free_block := n\<rparr>" "free_block t \<le> n" "free_block t \<le> CODE_CACHE_SIZE \<Longrightarrow> n \<le> CODE_CACHE_SIZE"
    "\<And>i. exit_branch_type (m i) = stub \<Longrightarrow> exit_branch_type (code_cache_meta t i) = stub" "\<And>i. tpc (m i) = tpc (code_cache_meta t i)"
    "\<And>i. i \<noteq> bb \<Longrightarrow> i < free_block t \<or> CODE_CACHE_SIZE \<le> i \<Longrightarrow> m i = code_cache_meta t i"
  using assms unfolding thread_grows_def by blast

lemma thread_grows_refl [simp, intro]: "thread_grows bb t t"
  by (rule thread_growsI [where m = "code_cache_meta t" and n = "free_block t"]) auto

lemma thread_grows_trans:
  assumes "thread_grows bb t u" "thread_grows bb u v"
  shows "thread_grows bb t v"
proof -
  obtain m n where u: "u = t\<lparr>code_cache_meta := m, free_block := n\<rparr>" "free_block t \<le> n" "free_block t \<le> CODE_CACHE_SIZE \<Longrightarrow> n \<le> CODE_CACHE_SIZE"
    "\<And>i. exit_branch_type (m i) = stub \<Longrightarrow> exit_branch_type (code_cache_meta t i) = stub" "\<And>i. tpc (m i) = tpc (code_cache_meta t i)"
    "\<And>i. i \<noteq> bb \<Longrightarrow> i < free_block t \<or> CODE_CACHE_SIZE \<le> i \<Longrightarrow> m i = code_cache_meta t i"
    by (rule thread_growsE [OF assms(1)], rule that)
  obtain m' n' where v: "v = u\<lparr>code_cache_meta := m', free_block := n'\<rparr>" "free_block u \<le> n'" "free_block u \<le> CODE_CACHE_SIZE \<Longrightarrow> n' \<le> CODE_CACHE_SIZE"
    "\<And>i. exit_branch_type (m' i) = stub \<Longrightarrow> exit_branch_type (code_cache_meta u i) = stub" "\<And>i. tpc (m' i) = tpc (code_cache_meta u i)"
    "\<And>i. i \<noteq> bb \<Longrightarrow> i < free_block u \<or> CODE_CACHE_SIZE \<le> i \<Longrightarrow> m' i = code_cache_meta u i"
    by (rule thread_growsE [OF assms(2)], rule that)
  show ?thesis
    using u v by (intro thread_growsI [where m = m' and n = n']) auto
qed

lemma thread_grows_meta:
  assumes "meta_upd t bb f = Ok t'" "\<And>m. exit_branch_type (f m) = stub \<Longrightarrow> exit_branch_type m = stub" "\<And>m. tpc (f m) = tpc m"
  shows "thread_grows bb t t'"
  using assms unfolding meta_upd_def
  by (intro thread_growsI [where m = "(code_cache_meta t)(bb := f (code_cache_meta t bb))" and n = "free_block t"]) (auto split: if_splits)

lemma thread_grows_space:
  assumes "a64_check_free_space t wp dp sz bb code = Ok (t', wp', dp', code')"
  shows "thread_grows bb t t'"
proof (cases "wp + sz \<ge> dp")
  case True
  then obtain b u where b: "allocate_bb_overflow t = Ok (b, u)" "meta_upd u b (\<lambda>m. m\<lparr>actual_id := bb\<rparr>) = Ok t'"
    using assms by (auto simp: a64_check_free_space_def res_bind_eq_Ok Let_def split: if_splits)
  have u: "b = free_block t" "u = t\<lparr>free_block := free_block t + 1\<rparr>" "free_block t < CODE_CACHE_SIZE"
    using b(1) by (auto simp: allocate_bb_overflow_def res_bind_eq_Ok)
  let ?m = "(code_cache_meta t)(b := (code_cache_meta t b)\<lparr>actual_id := bb\<rparr>)"
  have "t' = t\<lparr>code_cache_meta := ?m, free_block := free_block t + 1\<rparr>"
    using b(2) u(2) by (auto simp: meta_upd_def split: if_splits)
  then show ?thesis
    using u(1,3) by (intro thread_growsI [where m = ?m and n = "free_block t + 1"]) (auto split: if_splits)
qed (use assms in \<open>auto simp: a64_check_free_space_def\<close>)

lemma thread_grows_inline:
  "a64_inline_hash_lookup entries t bb ra rn link set_meta w = Ok (t', w') \<Longrightarrow> thread_grows bb t t'"
  by (auto simp: a64_inline_hash_lookup_seq res_bind_eq_Ok Let_def split: if_splits intro: thread_grows_meta)

lemma thread_grows_imm_reg:
  assumes "a64_branch_imm_reg t bb inst ra wd w = Ok (t', w')"
  shows "thread_grows bb t t'"
proof -
  have "thread_grows bb t t'"
    if e: "a64_branch_imm_reg_with t bb ra off f put w = Ok (t', w')" and f: "\<And>m. exit_branch_type (f m) \<noteq> stub" "\<And>m. tpc (f m) = tpc m" for off f put
  proof -
    from e obtain u where u: "meta_upd t bb f = Ok u"
      "meta_upd u bb (\<lambda>m. m\<lparr>exit_branch_addr := snd w, branch_taken_addr := ra + off, branch_skipped_addr := ra + 4\<rparr>) = Ok t'"
      by (auto simp: a64_branch_imm_reg_with_def res_bind_eq_Ok Let_def)
    have "thread_grows bb t u" using u(1) by (rule thread_grows_meta) (simp_all add: f)
    moreover have "thread_grows bb u t'" using u(2) by (rule thread_grows_meta) simp_all
    ultimately show ?thesis by (rule thread_grows_trans)
  qed
  with assms show ?thesis by (auto simp: a64_branch_imm_reg_def Let_def split: a64_branch_reg_inst.splits)
qed

definition scan_grows :: "int \<Rightarrow> ('a, 'g) scan \<Rightarrow> ('a, 'g) scan \<Rightarrow> bool" where
  "scan_grows bb s s' \<longleftrightarrow> thread_grows bb (sc_thread s) (sc_thread s') \<and> sc_global s' = sc_global s"

lemma scan_grows_trans: "scan_grows bb s s' \<Longrightarrow> scan_grows bb s' s'' \<Longrightarrow> scan_grows bb s s''"
  unfolding scan_grows_def by (auto intro: thread_grows_trans)

lemma scan_grows_simps [simp]:
  "scan_grows bb s s" "scan_grows bb s (sc_emit f s') \<longleftrightarrow> scan_grows bb s s'" "scan_grows bb s (a64_copy guest s') \<longleftrightarrow> scan_grows bb s s'"
  "scan_grows bb (sc_emit f s) s' \<longleftrightarrow> scan_grows bb s s'"
  "scan_grows bb s (s'\<lparr>sc_stop := b\<rparr>) \<longleftrightarrow> scan_grows bb s s'" "scan_grows bb s (s'\<lparr>sc_read := a\<rparr>) \<longleftrightarrow> scan_grows bb s s'"
  "scan_grows bb (s\<lparr>sc_read := a\<rparr>) s' \<longleftrightarrow> scan_grows bb s s'" "scan_grows bb s (s'\<lparr>sc_bb_entry := a\<rparr>) \<longleftrightarrow> scan_grows bb s s'"
  by (simp_all add: scan_grows_def sc_emit_def a64_copy_def Let_def)

lemma scan_grows_meta:
  "sc_meta bb f s = Ok s' \<Longrightarrow> (\<And>m. exit_branch_type (f m) = stub \<Longrightarrow> exit_branch_type m = stub) \<Longrightarrow> (\<And>m. tpc (f m) = tpc m) \<Longrightarrow> scan_grows bb s s'"
  by (auto simp: sc_meta_def scan_grows_def res_bind_eq_Ok intro: thread_grows_meta)

lemma scan_grows_emit_res: "sc_emit_res f s = Ok s' \<Longrightarrow> scan_grows bb s s'"
  by (auto simp: sc_emit_res_def scan_grows_def res_bind_eq_Ok)

lemma scan_grows_space: "sc_space sz bb s = Ok s' \<Longrightarrow> scan_grows bb s s'"
  by (auto simp: sc_space_def scan_grows_def res_bind_eq_Ok intro: thread_grows_space)

lemma no_plugins_deliver:
  "free_plugin (sc_global s) = 0 \<Longrightarrow> a64_scanner_deliver_callbacks env cb raddr inst bb ty aw s = Ok (False, raddr, s)"
  by (simp add: a64_scanner_deliver_callbacks_def)


lemma free_plugin_grows: "scan_grows bb s s' \<Longrightarrow> free_plugin (sc_global s') = free_plugin (sc_global s)"
  by (simp add: scan_grows_def)

lemma scan_grows_svc:
  assumes "free_plugin (sc_global s) = 0" "scan_svc env bb ty s = Ok s'"
  shows "scan_grows bb s s'"
proof -
  define s1 where "s1 = sc_emit (a64_copy_to_reg_64bits x29 (sc_read (sc_emit (a64_push_pair_reg x29 x30) s) + 4)) (sc_emit (a64_push_pair_reg x29 x30) s)"
  obtain s2 where s2: "sc_emit_res (then_advance (\<lambda>p. a64_bl_helper p (syscall_wrapper_addr (sc_thread s1)))) s1 = Ok s2"
    using assms(2) by (auto simp: scan_svc_def Let_def res_bind_eq_Ok s1_def [symmetric])
  have g1: "scan_grows bb s s1" by (simp add: s1_def)
  have g2: "scan_grows bb s s2" using g1 scan_grows_emit_res [OF s2] by (rule scan_grows_trans)
  define s3 where "s3 = sc_emit (a64_pop_pair_reg x0 x1) s2"
  have g3: "scan_grows bb s s3" using g2 by (simp add: s3_def)
  have "free_plugin (sc_global s3) = 0" using free_plugin_grows [OF g3] assms(1) by simp
  then have "s' = s3\<lparr>sc_read := sc_read s3 + 4 - 4, sc_bb_entry := sc_read s3 + 4\<rparr>"
    using assms(2) s2 by (simp add: scan_svc_def Let_def s1_def [symmetric] s3_def [symmetric] no_plugins_deliver)
  with g3 show ?thesis by (simp add: scan_grows_def)
qed

lemma scan_grows_exit: "sc_meta bb f s = Ok s' \<Longrightarrow> \<forall>m. exit_branch_type (f m) \<noteq> stub \<and> tpc (f m) = tpc m \<Longrightarrow> scan_grows bb s s'"
  by (erule scan_grows_meta) simp_all

lemma scan_grows_inst:
  assumes "free_plugin (sc_global s) = 0" "a64_scan_inst env bb ty start inst s = Ok s'"
  shows "scan_grows bb s s'"
proof -
  have imm: "scan_branch_imm_reg env bb i s = Ok s' \<Longrightarrow> scan_grows bb s s'" for i
    by (auto simp: scan_branch_imm_reg_def res_bind_eq_Ok scan_grows_def intro: thread_grows_imm_reg)
  have cond: "scan_b_cond env bb s = Ok s' \<Longrightarrow> scan_grows bb s s'"
    by (auto simp: scan_b_cond_def res_bind_eq_Ok Let_def split: prod.splits
        dest!: scan_grows_emit_res intro: scan_grows_trans [OF scan_grows_meta])
  have mrs: "scan_grows bb s (scan_mrs_msr env s)" by (simp add: scan_mrs_msr_def Let_def)
  have bl: "scan_b_bl env bb s = Ok s' \<Longrightarrow> scan_grows bb s s'"
    by (auto simp: scan_b_bl_def res_bind_eq_Ok Let_def split: prod.splits if_splits
        dest!: scan_grows_emit_res scan_grows_exit intro: scan_grows_trans)
  have br: "scan_br env bb l s = Ok s' \<Longrightarrow> scan_grows bb s s'" for l
    by (auto simp: scan_br_def res_bind_eq_Ok Let_def scan_grows_def dest!: scan_grows_space scan_grows_exit thread_grows_inline intro: thread_grows_trans [OF thread_grows_trans])
  have lit: "scan_ldr_lit env s = Ok s' \<Longrightarrow> scan_grows bb s s'"
    by (auto simp: scan_ldr_lit_def Let_def split: prod.splits if_splits)
  have adr: "scan_grows bb s (scan_adr env s)" by (simp add: scan_adr_def Let_def split: prod.splits)
  have inv: "scan_invalid env bb start s = Ok s' \<Longrightarrow> scan_grows bb s s'"
    by (auto simp: scan_invalid_def res_bind_eq_Ok Let_def split: if_splits dest!: scan_grows_emit_res)
  show ?thesis
    using assms(2) imm cond scan_grows_svc [OF assms(1)] mrs bl br lit adr inv
    unfolding a64_scan_inst_def by (auto split: if_splits)
qed


lemma scan_grows_round:
  assumes "free_plugin (sc_global s) = 0" "a64_scan_round env bb ty start s = Ok s'"
  shows "scan_grows bb s s'"
proof -
  let ?inst = "env_decode env (env_guest env (sc_read s))"
  have del: "a64_scanner_deliver_callbacks env cb raddr i bb ty aw u = Ok (False, raddr, u)" if "scan_grows bb s u" for cb raddr i aw u
    using free_plugin_grows [OF that] assms(1) by (intro no_plugins_deliver) simp
  obtain u where u: "a64_scan_inst env bb ty start ?inst s = Ok u"
    and rest: "(if sc_data u \<le> sc_write u then Spin
      else res_bind (if sc_stop u then Ok u else sc_space MIN_FSPACE bb u) (\<lambda>s.
        res_bind (a64_scanner_deliver_callbacks env POST_INST_C (sc_read s) (Some ?inst) bb ty (\<not> sc_stop s) s) (\<lambda>(_, raddr, s).
        Ok (s\<lparr>sc_read := raddr + 4\<rparr>)))) = Ok s'"
    using assms(2) by (auto simp: a64_scan_round_def Let_def del res_bind_eq_Ok)
  have gu: "scan_grows bb s u" by (rule scan_grows_inst [OF assms(1) u])
  obtain v where v: "(if sc_stop u then Ok u else sc_space MIN_FSPACE bb u) = Ok v"
    and rest': "res_bind (a64_scanner_deliver_callbacks env POST_INST_C (sc_read v) (Some ?inst) bb ty (\<not> sc_stop v) v) (\<lambda>(_, raddr, s).
        Ok (s\<lparr>sc_read := raddr + 4\<rparr>)) = Ok s'"
    using rest by (auto simp: res_bind_eq_Ok split: if_splits)
  have gv: "scan_grows bb s v"
    using v gu by (auto split: if_splits intro: scan_grows_trans scan_grows_space)
  with rest' show ?thesis by (auto simp: del)
qed

lemma scan_grows_loop:
  "free_plugin (sc_global s) = 0 \<Longrightarrow> a64_scan_loop n env bb ty start s = Ok s' \<Longrightarrow> scan_grows bb s s'"
proof (induction n arbitrary: s)
  case 0
  then show ?case by (simp add: a64_scan_loop.simps split: if_splits)
next
  case (Suc n)
  show ?case
  proof (cases "sc_stop s")
    case True
    with Suc.prems show ?thesis by (simp add: a64_scan_loop.simps)
  next
    case False
    then obtain u where u: "a64_scan_round env bb ty start s = Ok u" "a64_scan_loop n env bb ty start u = Ok s'"
      using Suc.prems(2) by (subst (asm) a64_scan_loop.simps) (auto simp: res_bind_eq_Ok)
    have g: "scan_grows bb s u" by (rule scan_grows_round [OF Suc.prems(1) u(1)])
    with Suc.IH [OF _ u(2)] Suc.prems(1) show ?thesis
      using free_plugin_grows [OF g] by (auto intro: scan_grows_trans)
  qed
qed

lemma scan_a64_grows:
  assumes np: "free_plugin g = 0" and ok: "scan_a64 fuel env g t raddr bb ty wp code = Ok (n, s')"
  shows "thread_grows bb t (sc_thread s')" "sc_global s' = g"
proof -
  define wp' where "wp' = (if wp = 0 then blocks_addr t bb else wp)"
  define dp where "dp = (if ty = mambo_bb then wp' + word_of_int (BASIC_BLOCK_SIZE * 4) else traces_addr t + word_of_int TRACE_CACHE_SIZE)"
  let ?s = "\<lparr>sc_thread = t, sc_global = g, sc_code = code, sc_read = raddr, sc_bb_entry = raddr, sc_write = wp', sc_data = dp, sc_stop = False\<rparr>"
  have del: "a64_scanner_deliver_callbacks env cb ra i bb ty aw u = Ok (False, ra, u)" if "scan_grows bb ?s u" for cb ra i aw u
    using free_plugin_grows [OF that] np by (intro no_plugins_deliver) simp
  obtain s1 where s1: "(if ty = mambo_bb then Ok ?s else sc_meta bb (\<lambda>m. m\<lparr>free_b := 0\<rparr>) ?s) = Ok s1"
    and ok1: "(let s = (if ty \<noteq> mambo_trace then sc_emit (a64_pop_pair_reg x0 x1) s1 else s1) in
      res_bind (pass1_a64 fuel (env_decode env) (env_guest env) raddr) (\<lambda>bb_type.
      res_bind (if ty = mambo_bb \<and> bb_type \<noteq> uncond_branch_reg \<and> bb_type \<noteq> unknown then scan_trace_head bb s else Ok s) (\<lambda>s.
      res_bind (a64_scanner_deliver_callbacks env PRE_FRAGMENT_C (sc_read s) None bb ty True s) (\<lambda>(_, raddr', s).
      res_bind (a64_scanner_deliver_callbacks env PRE_BB_C raddr' None bb ty True s) (\<lambda>(_, raddr', s).
      res_bind (a64_scan_loop fuel env bb ty raddr (s\<lparr>sc_read := raddr'\<rparr>)) (\<lambda>s.
      res_bind (a64_scanner_deliver_callbacks env POST_BB_C (sc_bb_entry s) None bb ty False s) (\<lambda>(_, _, s).
      res_bind (a64_scanner_deliver_callbacks env POST_FRAGMENT_C raddr None bb ty False s) (\<lambda>(_, _, s).
      Ok (sc_write s - wp' + 4, s))))))))) = Ok (n, s')"
    using ok unfolding scan_a64_def Let_def wp'_def [symmetric] dp_def [symmetric]
    by (auto simp: res_bind_eq_Ok [of "if ty = mambo_bb then _ else _"])
  have g1: "scan_grows bb ?s s1" using s1 by (auto split: if_splits intro: scan_grows_meta)
  define s2 where "s2 = (if ty \<noteq> mambo_trace then sc_emit (a64_pop_pair_reg x0 x1) s1 else s1)"
  have g2: "scan_grows bb ?s s2" using g1 by (simp add: s2_def)
  obtain b s3 where s3: "(if ty = mambo_bb \<and> b \<noteq> uncond_branch_reg \<and> b \<noteq> unknown then scan_trace_head bb s2 else Ok s2) = Ok s3"
    and ok2: "res_bind (a64_scanner_deliver_callbacks env PRE_FRAGMENT_C (sc_read s3) None bb ty True s3) (\<lambda>(_, raddr', s).
      res_bind (a64_scanner_deliver_callbacks env PRE_BB_C raddr' None bb ty True s) (\<lambda>(_, raddr', s).
      res_bind (a64_scan_loop fuel env bb ty raddr (s\<lparr>sc_read := raddr'\<rparr>)) (\<lambda>s.
      res_bind (a64_scanner_deliver_callbacks env POST_BB_C (sc_bb_entry s) None bb ty False s) (\<lambda>(_, _, s).
      res_bind (a64_scanner_deliver_callbacks env POST_FRAGMENT_C raddr None bb ty False s) (\<lambda>(_, _, s).
      Ok (sc_write s - wp' + 4, s)))))) = Ok (n, s')"
    using ok1 unfolding Let_def s2_def [symmetric] by (auto simp: res_bind_eq_Ok)
  have "scan_grows bb s2 s3"
    using s3 by (auto simp: scan_trace_head_def Let_def res_bind_eq_Ok split: if_splits dest!: scan_grows_emit_res)
  with g2 have g3: "scan_grows bb ?s s3" by (rule scan_grows_trans)
  obtain s4 where s4: "a64_scan_loop fuel env bb ty raddr s3 = Ok s4"
    and ok3: "res_bind (a64_scanner_deliver_callbacks env POST_BB_C (sc_bb_entry s4) None bb ty False s4) (\<lambda>(_, _, s).
      res_bind (a64_scanner_deliver_callbacks env POST_FRAGMENT_C raddr None bb ty False s) (\<lambda>(_, _, s).
      Ok (sc_write s - wp' + 4, s))) = Ok (n, s')"
    using ok2 by (auto simp: del [OF g3] res_bind_eq_Ok)
  have "free_plugin (sc_global s3) = 0" using free_plugin_grows [OF g3] np by simp
  from g3 scan_grows_loop [OF this s4] have g4: "scan_grows bb ?s s4" by (rule scan_grows_trans)
  with ok3 show "thread_grows bb t (sc_thread s')" "sc_global s' = g" by (auto simp: del [OF g4] scan_grows_def)
qed

end
