(* ===== verification/A64_Fragment.thy ===== *)
theory A64_Fragment
  imports A64_Scan
begin

text \<open>
  What the fragments made by the AArch64 scanner are: a run of copied instructions and an exit, in a contiguous stretch of
  blocks; and the place of the scanner in the code cache manager, as an implementation of its interface \<open>block_scanner\<close>.
\<close>

section \<open>Space in consecutive blocks\<close>

text \<open>
  A fragment that was started in the block last allocated grows into the blocks behind it without a branch: \<open>w\<close> is the
  offset of the write pointer in the code cache, and behind it there is room for any single exit.
\<close>

definition in_fragment :: "int \<Rightarrow> int \<Rightarrow> ('a, 'g) scan \<Rightarrow> bool" where
  "in_fragment bb w s \<longleftrightarrow> (let t = sc_thread s in cc_layout t \<and> 0 \<le> bb \<and> bb < free_block t \<and> free_block t \<le> CODE_CACHE_SIZE \<and>
     sc_data s = blocks_addr t (free_block t) \<and> sc_write s = code_cache t + word_of_int w \<and> 0 \<le> w \<and>
     w + 60 < free_block t * sizeof_dbm_block)"

lemma cc_offset_le:
  assumes "cc_layout t" "0 \<le> a" "a \<le> MAX_BRANCH_RANGE" "0 \<le> b" "b \<le> MAX_BRANCH_RANGE"
  shows "code_cache t + word_of_int a \<le> code_cache t + word_of_int b \<longleftrightarrow> a \<le> b"
  using uint_cc_offset [OF assms(1), of a] uint_cc_offset [OF assms(1), of b] assms(2-) by (simp add: word_le_def)

lemma sc_space_contiguous:
  assumes t: "t = sc_thread s" "cc_layout t" "0 \<le> bb" "bb < free_block t" "free_block t \<le> CODE_CACHE_SIZE"
    and d: "sc_data s = blocks_addr t (free_block t)"
    and w: "sc_write s = code_cache t + word_of_int w" "0 \<le> w" "w \<le> free_block t * sizeof_dbm_block"
    and sz: "0 \<le> sz" "sz < sizeof_dbm_block" "w + sz < CODE_CACHE_SIZE * sizeof_dbm_block"
  obtains m n where "sc_space (word_of_int sz) bb s =
      Ok (s\<lparr>sc_thread := t\<lparr>code_cache_meta := m, free_block := n\<rparr>, sc_data := blocks_addr t n\<rparr>)"
    "free_block t \<le> n" "n \<le> CODE_CACHE_SIZE" "w + sz < n * sizeof_dbm_block" "\<And>i. i < free_block t \<Longrightarrow> m i = code_cache_meta t i"
    "\<And>i. exit_branch_type (m i) = exit_branch_type (code_cache_meta t i)"
proof -
  have rng: "w + sz \<le> MAX_BRANCH_RANGE" "free_block t * sizeof_dbm_block \<le> MAX_BRANCH_RANGE" "0 \<le> free_block t * sizeof_dbm_block"
    using t(3-5) sz(3) by (simp_all add: cc_sizes)
  have a: "sc_write s + word_of_int sz = code_cache t + word_of_int (w + sz)" by (simp add: w(1))
  have cmp: "sc_data s \<le> sc_write s + word_of_int sz \<longleftrightarrow> free_block t * sizeof_dbm_block \<le> w + sz"
    unfolding a d blocks_addr_def using cc_offset_le [OF t(2) rng(3,2), of "w + sz"] rng(1) w(2) sz(1) by simp
  show thesis
  proof (cases "free_block t * sizeof_dbm_block \<le> w + sz")
    case False
    have "sc_space (word_of_int sz) bb s = Ok s"
      using False cmp by (simp add: sc_space_def a64_check_free_space_def)
    moreover have "s = s\<lparr>sc_thread := t\<lparr>code_cache_meta := code_cache_meta t, free_block := free_block t\<rparr>, sc_data := blocks_addr t (free_block t)\<rparr>"
      by (simp add: t(1) d [unfolded t(1), symmetric])
    ultimately show thesis
      using that [of "free_block t" "code_cache_meta t"] False t(5) by simp
  next
    case True
    then have lt: "free_block t < CODE_CACHE_SIZE" using sz(3) by (simp add: cc_sizes)
    let ?m = "(code_cache_meta t)(free_block t := (code_cache_meta t (free_block t))\<lparr>actual_id := bb\<rparr>)"
    have i: "0 \<le> free_block t" "free_block t < META_SIZE" using t(3,4) lt by (simp_all add: cc_sizes)
    have nxt: "blocks_addr t (free_block t) + word_of_int (BASIC_BLOCK_SIZE * 4) = blocks_addr t (free_block t + 1)"
      by (simp add: blocks_addr_def cc_sizes algebra_simps)
    have "blocks_addr (t\<lparr>free_block := free_block t + 1, code_cache_meta := ?m\<rparr>) i = blocks_addr t i" for i
      by (simp add: blocks_addr_def)
    then have "sc_space (word_of_int sz) bb s = Ok (s\<lparr>sc_thread := t\<lparr>code_cache_meta := ?m, free_block := free_block t + 1\<rparr>,
        sc_data := blocks_addr t (free_block t + 1)\<rparr>)"
      using True cmp lt t(4) i nxt
      by (simp add: sc_space_def a64_check_free_space_def allocate_bb_overflow_def Let_def d t(1) [symmetric] res_assert_if)
    then show thesis
      using that [of "free_block t + 1" ?m] lt w(3) sz(2) by (simp add: cc_sizes algebra_simps)
  qed
qed


section \<open>Copied instructions\<close>

lemma a64_copied_not_special:
  "a64_copied i \<Longrightarrow> i \<notin> {A64_CBZ_CBNZ, A64_B_COND, A64_SVC, A64_MRS_MSR_REG, A64_TBZ_TBNZ, A64_B_BL, A64_BR, A64_BLR, A64_RET, A64_LDR_LIT,
     A64_ADR, A64_INVALID}"
  by (auto simp: a64_copied_def)

lemma scan_inst_copied:
  "a64_copied inst \<Longrightarrow> a64_scan_inst env bb ty start inst s = Ok (a64_copy (env_guest env) s)"
  using a64_copied_not_special [of inst] by (simp add: a64_scan_inst_def)

lemma pass1_copied:
  "a64_copied (decode (guest ra)) \<Longrightarrow> pass1_a64 (Suc n) decode guest ra = pass1_a64 n decode guest (ra + 4)"
  using a64_copied_not_special [of "decode (guest ra)"] by (simp add: Let_def)

lemma round_copied:
  assumes fr: "in_fragment bb w s" and np: "free_plugin (sc_global s) = 0" and go: "\<not> sc_stop s"
    and i: "a64_copied (env_decode env (env_guest env (sc_read s)))" and cap: "w + 64 < CODE_CACHE_SIZE * sizeof_dbm_block"
  obtains s' where "a64_scan_round env bb ty start s = Ok s'" "in_fragment bb (w + 4) s'" "scan_grows bb s s'" "\<not> sc_stop s'"
    "(sc_code s', sc_write s') = emit_inst (a64_word (env_guest env (sc_read s))) (sc_code s, sc_write s)"
    "sc_read s' = sc_read s + 4" "sc_bb_entry s' = sc_bb_entry s"
    "code_cache_meta (sc_thread s') bb = code_cache_meta (sc_thread s) bb"
proof -
  define t where "t = sc_thread s"
  have f: "cc_layout t" "0 \<le> bb" "bb < free_block t" "free_block t \<le> CODE_CACHE_SIZE" "sc_data s = blocks_addr t (free_block t)"
      "sc_write s = code_cache t + word_of_int w" "0 \<le> w" "w + 60 < free_block t * sizeof_dbm_block"
    using fr by (simp_all add: in_fragment_def Let_def t_def)
  define u where "u = a64_copy (env_guest env) s"
  have u: "sc_thread u = t" "sc_global u = sc_global s" "sc_stop u = sc_stop s" "sc_read u = sc_read s" "sc_data u = sc_data s"
      "sc_bb_entry u = sc_bb_entry s" "sc_write u = code_cache t + word_of_int (w + 4)"
      "(sc_code u, sc_write u) = emit_inst (a64_word (env_guest env (sc_read s))) (sc_code s, sc_write s)"
    by (simp_all add: u_def a64_copy_def sc_emit_def Let_def t_def f(6) emit_inst_def)
  have gu: "scan_grows bb s u" by (simp add: u_def)
  have room: "\<not> sc_data u \<le> sc_write u"
    unfolding u f(5) blocks_addr_def using cc_offset_le [OF f(1), of "free_block t * sizeof_dbm_block" "w + 4"] f(2-4,7,8)
    by (simp add: cc_sizes)
  obtain m n where sp: "sc_space (word_of_int 60) bb u =
      Ok (u\<lparr>sc_thread := t\<lparr>code_cache_meta := m, free_block := n\<rparr>, sc_data := blocks_addr t n\<rparr>)"
      "free_block t \<le> n" "n \<le> CODE_CACHE_SIZE" "w + 4 + 60 < n * sizeof_dbm_block" "\<And>i. i < free_block t \<Longrightarrow> m i = code_cache_meta t i"
      "\<And>i. exit_branch_type (m i) = exit_branch_type (code_cache_meta t i)"
    by (rule sc_space_contiguous [of t u bb "w + 4" 60]) (use f u cap in \<open>auto simp: cc_sizes\<close>)
  let ?v = "u\<lparr>sc_thread := t\<lparr>code_cache_meta := m, free_block := n\<rparr>, sc_data := blocks_addr t n\<rparr>"
  have gv: "scan_grows bb s ?v"
    using gu sp(1) scan_grows_space scan_grows_trans by blast
  have "a64_scan_round env bb ty start s = Ok (?v\<lparr>sc_read := sc_read ?v + 4\<rparr>)"
    using go room sp(1) np u(2,3)
    by (simp add: a64_scan_round_def Let_def no_plugins_deliver scan_inst_copied [OF i] u_def [symmetric] MIN_FSPACE_def)
  then show thesis
  proof (rule that)
    show "in_fragment bb (w + 4) (?v\<lparr>sc_read := sc_read ?v + 4\<rparr>)"
      using f sp(2-4) u by (simp add: in_fragment_def Let_def cc_layout_def blocks_addr_def)
  qed (use gv u go sp(5) f(3) in \<open>simp_all add: t_def\<close>)
qed

definition guest_words :: "(uintptr \<Rightarrow> u32) \<Rightarrow> uintptr \<Rightarrow> nat \<Rightarrow> a64_inst list" where
  "guest_words guest ra k = map (\<lambda>i. a64_word (guest (slot ra i))) [0 ..< k]"

lemma guest_words_Suc: "guest_words guest ra (Suc k) = a64_word (guest ra) # guest_words guest (ra + 4) k"
  by (simp add: guest_words_def upt_conv_Cons map_Suc_upt [symmetric] del: upt_Suc)

lemma guest_words_length [simp]: "length (guest_words guest ra k) = k"
  by (simp add: guest_words_def)

lemma loop_copied:
  assumes "in_fragment bb w s" "free_plugin (sc_global s) = 0" "\<not> sc_stop s"
    and "\<And>i. i < k \<Longrightarrow> a64_copied (env_decode env (env_guest env (slot (sc_read s) i)))"
    and "w + 4 * int k + 60 < CODE_CACHE_SIZE * sizeof_dbm_block"
  shows "\<exists>s'. a64_scan_loop (k + n) env bb ty start s = a64_scan_loop n env bb ty start s' \<and> in_fragment bb (w + 4 * int k) s' \<and>
    scan_grows bb s s' \<and> \<not> sc_stop s' \<and> (sc_code s', sc_write s') = emit_seq (guest_words (env_guest env) (sc_read s) k) (sc_code s, sc_write s) \<and>
    sc_read s' = slot (sc_read s) k \<and> sc_bb_entry s' = sc_bb_entry s \<and>
    code_cache_meta (sc_thread s') bb = code_cache_meta (sc_thread s) bb"
  using assms
proof (induction k arbitrary: s w)
  case 0
  then show ?case by (intro exI [of _ s]) (simp add: guest_words_def)
next
  case (Suc k)
  have i: "a64_copied (env_decode env (env_guest env (sc_read s)))" using Suc.prems(4) [of 0] by simp
  obtain u where u: "a64_scan_round env bb ty start s = Ok u" "in_fragment bb (w + 4) u" "scan_grows bb s u" "\<not> sc_stop u"
      "(sc_code u, sc_write u) = emit_inst (a64_word (env_guest env (sc_read s))) (sc_code s, sc_write s)"
      "sc_read u = sc_read s + 4" "sc_bb_entry u = sc_bb_entry s" "code_cache_meta (sc_thread u) bb = code_cache_meta (sc_thread s) bb"
    by (rule round_copied [OF Suc.prems(1-3) i, where ty = ty and start = start]) (use Suc.prems(5) in simp)
  have np: "free_plugin (sc_global u) = 0" using free_plugin_grows [OF u(3)] Suc.prems(2) by simp
  obtain s' where s': "a64_scan_loop (k + n) env bb ty start u = a64_scan_loop n env bb ty start s'"
      "in_fragment bb (w + 4 + 4 * int k) s'" "scan_grows bb u s'" "\<not> sc_stop s'"
      "(sc_code s', sc_write s') = emit_seq (guest_words (env_guest env) (sc_read u) k) (sc_code u, sc_write u)"
      "sc_read s' = slot (sc_read u) k" "sc_bb_entry s' = sc_bb_entry u" "code_cache_meta (sc_thread s') bb = code_cache_meta (sc_thread u) bb"
    using Suc.IH [OF u(2) np u(4)] Suc.prems(4) [of "Suc _"] Suc.prems(5) u(6) by auto
  have "a64_scan_loop (Suc k + n) env bb ty start s = a64_scan_loop (k + n) env bb ty start u"
    using Suc.prems(3) u(1) by (subst a64_scan_loop.simps) simp
  then show ?case
    using s' u scan_grows_trans [OF u(3) s'(3)]
    by (intro exI [of _ s']) (simp add: guest_words_Suc algebra_simps)
qed

lemma pass1_finds:
  assumes "\<And>i. i < k \<Longrightarrow> a64_copied (decode (guest (slot ra i)))"
  shows "pass1_a64 (k + n) decode guest ra = pass1_a64 n decode guest (slot ra k)"
  using assms
proof (induction k arbitrary: ra)
  case (Suc k)
  have "pass1_a64 (k + n) decode guest (ra + 4) = pass1_a64 n decode guest (slot (ra + 4) k)"
    by (rule Suc.IH) (use Suc.prems [of "Suc _"] in simp)
  then show ?case
    using pass1_copied [where decode = decode and guest = guest and ra = ra and n = "k + n"] Suc.prems [of 0] by simp
qed simp


section \<open>The exit of a direct branch\<close>

text \<open>The trampolines are in the first blocks of the code cache, so that every block can branch to them.\<close>

definition in_blocks :: "'a dbm_thread_scheme \<Rightarrow> uintptr \<Rightarrow> bool" where
  "in_blocks t a \<longleftrightarrow> uint (code_cache t) \<le> uint a \<and> uint a < uint (code_cache t) + CODE_CACHE_SIZE * sizeof_dbm_block \<and> 4 dvd uint a"

lemma near_in_blocks:
  assumes "cc_layout t" "in_blocks t a" "0 \<le> w" "w \<le> CODE_CACHE_SIZE * sizeof_dbm_block" "4 dvd w"
  shows "near (code_cache t + word_of_int w) a"
proof -
  define e where "e = uint a - uint (code_cache t)"
  have a: "a = code_cache t + word_of_int e" by (simp add: e_def)
  have "(4 :: int) dvd 4096" by simp
  then have "4 dvd uint (code_cache t)" using assms(1) dvd_trans unfolding cc_layout_def by blast
  then have e: "0 \<le> e" "e < CODE_CACHE_SIZE * sizeof_dbm_block" "4 dvd e" using assms(2) by (auto simp: in_blocks_def e_def)
  have d: "a - (code_cache t + word_of_int w) = word_of_int (e - w)" by (simp add: a)
  have s: "sint (word_of_int (e - w) :: uintptr) = e - w"
    using e assms(3,4) by (simp only: signed_of_int) (simp add: signed_take_bit_int_eq_self cc_sizes)
  obtain j where j: "e - w = 4 * j" using e(3) assms(5) by (meson dvdE dvd_diff)
  have "(e - w) AND 3 = 0" unfolding j by (rule four_aligned)
  then show ?thesis
    unfolding near_def d s using e assms(3,4) by (simp add: MB_def cc_sizes)
qed

definition branch_target :: "uintptr \<Rightarrow> u32 \<Rightarrow> uintptr" where
  "branch_target ra w = ra + push_bit 2 (scast (ucast w :: 26 word))"

lemma b_bl_offset: "sign_extend64 26 (ucast (fld w 25 0)) = scast (ucast w :: 26 word)"
proof -
  have "(ucast (fld w 25 0) :: uintptr) = ucast (ucast w :: 26 word)"
    by (intro bit_word_eqI) (auto simp: fld_def bit_simps)
  then show ?thesis using sign_extend64_scast [of "ucast w :: 26 word"] by simp
qed

definition link_seq :: "uintptr \<Rightarrow> u32 \<Rightarrow> a64_inst list" where
  "link_seq ra w = (if fld w 31 31 = 1 then mov_seq lr (ra + 4) else [])"

definition bl_exit_seq :: "'a dbm_thread_scheme \<Rightarrow> int \<Rightarrow> uintptr \<Rightarrow> u32 \<Rightarrow> uintptr \<Rightarrow> a64_inst list" where
  "bl_exit_seq t bb ra w p = link_seq ra w @ [a64_word NOP_INSTRUCTION, a64_LDP_STP 2 0 3 0 (-2) x1 sp x0] @
     jump_seq t bb (branch_target ra w) (slot p (length (link_seq ra w) + 2))"

lemma link_seq_length: "length (link_seq ra w) \<le> 4"
  using mov_seq_length(1) [of lr "ra + 4"] by (simp add: link_seq_def)

lemma bl_exit_length: "length (bl_exit_seq t bb ra w p) \<le> 15"
  using link_seq_length [of ra w] jump_seq_length [of t bb "branch_target ra w" "slot p (length (link_seq ra w) + 2)"]
  by (simp add: bl_exit_seq_def)

lemma scan_b_bl_emits:
  assumes near: "near (sc_write s) (dispatcher_addr (sc_thread s))" and bb: "0 \<le> bb" "bb < META_SIZE"
    and w: "w = env_guest env (sc_read s)" and p: "p = sc_write s" and t: "t = sc_thread s"
  shows "\<exists>s'. scan_b_bl env bb s = Ok s' \<and> sc_stop s' \<and> (sc_code s', sc_write s') = emit_seq (bl_exit_seq t bb (sc_read s) w p) (sc_code s, p) \<and>
    sc_data s' = sc_data s \<and> sc_global s' = sc_global s \<and> sc_read s' = sc_read s \<and> sc_bb_entry s' = sc_bb_entry s \<and>
    sc_thread s' = t\<lparr>code_cache_meta := (code_cache_meta t)(bb := (code_cache_meta t bb)\<lparr>exit_branch_type := uncond_imm_a64,
      exit_branch_addr := slot p (length (link_seq (sc_read s) w)), branch_taken_addr := branch_target (sc_read s) w\<rparr>)\<rparr>"
proof -
  define n where "n = length (link_seq (sc_read s) w)"
  define target where "target = branch_target (sc_read s) w"
  define t' where "t' = t\<lparr>code_cache_meta := (code_cache_meta t)(bb := (code_cache_meta t bb)\<lparr>exit_branch_type := uncond_imm_a64,
      exit_branch_addr := slot p n, branch_taken_addr := target\<rparr>)\<rparr>"
  define s1 where "s1 = sc_emit (emit_seq (link_seq (sc_read s) w)) s"
  have s1: "sc_write s1 = slot p n" "sc_thread s1 = t" "sc_read s1 = sc_read s" "sc_code s1 = fst (emit_seq (link_seq (sc_read s) w) (sc_code s, p))"
    "sc_data s1 = sc_data s" "sc_global s1 = sc_global s" "sc_bb_entry s1 = sc_bb_entry s"
    by (simp_all add: s1_def sc_emit_def Let_def emit_seq_snd p n_def t)
  have link: "(if fld w 31 31 = 1 then sc_emit (a64_copy_to_reg_64bits lr (sc_read s + 4)) s else s) = s1"
    by (simp add: s1_def link_seq_def sc_emit_def Let_def a64_copy_to_reg_64bits_seq)
  define s2 where "s2 = sc_emit (emit_seq [a64_word NOP_INSTRUCTION, a64_LDP_STP 2 0 3 0 (-2) x1 sp x0]) (s1\<lparr>sc_thread := t'\<rparr>)"
  have s2: "sc_emit a64_branch_save_context (sc_emit (emit_inst (a64_word NOP_INSTRUCTION)) (s1\<lparr>sc_thread := t'\<rparr>)) = s2"
    "sc_write s2 = slot p (n + 2)" "sc_thread s2 = t'" "sc_data s2 = sc_data s" "sc_global s2 = sc_global s" "sc_read s2 = sc_read s" "sc_bb_entry s2 = sc_bb_entry s"
    "(sc_code s2, sc_write s2) = emit_seq (link_seq (sc_read s) w @ [a64_word NOP_INSTRUCTION, a64_LDP_STP 2 0 3 0 (-2) x1 sp x0]) (sc_code s, p)"
    by (simp_all add: s2_def sc_emit_def Let_def s1 emit_seq_snd a64_branch_save_context_def a64_push_pair_reg_def emit_inst_def slot_def n_def)
  have disp: "dispatcher_addr t' = dispatcher_addr t" by (simp add: t'_def)
  have "n + 2 \<le> 50" using link_seq_length [of "sc_read s" w] by (simp add: n_def)
  from jump_near [OF _ this, where td = t' and p = p and bb = bb and target = target and code = "sc_code s2"] near
  have j: "a64_branch_jump t' bb target (REPLACE_TARGET OR INSERT_BRANCH) (sc_code s2, sc_write s2) =
      Ok (emit_seq (jump_seq t bb target (slot p (n + 2))) (sc_code s2, sc_write s2))"
    by (simp add: disp p t s2(2) jump_seq_thread [OF disp])
  have m: "sc_meta bb (\<lambda>m. m\<lparr>exit_branch_type := uncond_imm_a64, exit_branch_addr := slot p n, branch_taken_addr := target\<rparr>) s1 =
      Ok (s1\<lparr>sc_thread := t'\<rparr>)"
    using bb by (simp add: sc_meta_def s1 t'_def)
  define w' where "w' = emit_seq (jump_seq t bb target (slot p (n + 2))) (sc_code s2, sc_write s2)"
  have "scan_b_bl env bb s = Ok (s2\<lparr>sc_code := fst w', sc_write := snd w', sc_stop := True\<rparr>)"
    unfolding scan_b_bl_def a64_B_BL_decode_fields_def w [symmetric] Let_def prod.case link s1 b_bl_offset
      target_def [unfolded branch_target_def, symmetric] m res_bind.simps s2(1)
    using j by (simp add: sc_emit_res_def s2(3) w'_def)
  moreover have "w' = emit_seq (bl_exit_seq t bb (sc_read s) w p) (sc_code s, p)"
    using s2(8) by (simp add: w'_def bl_exit_seq_def target_def n_def)
  ultimately show ?thesis
    using s2 by (intro exI [of _ "s2\<lparr>sc_code := fst w', sc_write := snd w', sc_stop := True\<rparr>"]) (simp add: t'_def n_def target_def)
qed


definition linked :: "uintptr \<Rightarrow> u32 \<Rightarrow> a64_state \<Rightarrow> a64_state" where
  "linked ra w st = (if fld w 31 31 = 1 then st\<lparr>xregs := (xregs st)(30 := ra + 4)\<rparr> else st)"

lemma linked_simps [simp]: "sp_reg (linked ra w st) = sp_reg st" "pc_reg (linked ra w st) = pc_reg st"
  by (simp_all add: linked_def)

lemma reaches_bl_exit:
  assumes code: "code_seq code p (bl_exit_seq t bb ra w p)" and st: "pc_reg st = p" "aligned_to 16 (sp_reg st)"
    and near: "near p (dispatcher_addr t)"
  shows "reaches code st (dispatch_state (saved_ctx (linked ra w st)) bb (branch_target ra w) (dispatcher_addr t))"
proof -
  define n where "n = length (link_seq ra w)"
  define st1 where "st1 = (linked ra w st)\<lparr>pc_reg := slot p n\<rparr>"
  define st2 where "st2 = (linked ra w st)\<lparr>pc_reg := slot p (n + 1)\<rparr>"
  define st3 where "st3 = (saved_ctx (linked ra w st))\<lparr>pc_reg := slot p (n + 2)\<rparr>"
  have c: "code_seq code p (link_seq ra w)" "code (slot p n) = Some (a64_word NOP_INSTRUCTION)"
      "code (slot p (n + 1)) = Some (a64_LDP_STP 2 0 3 0 (-2) x1 sp x0)"
      "code_seq code (slot p (n + 2)) (jump_seq t bb (branch_target ra w) (slot p (n + 2)))"
    using code by (simp_all add: bl_exit_seq_def n_def)
  have "reaches code st st1"
  proof (cases "fld w 31 31 = 1")
    case True
    then have "st1 = set_reg lr (ra + 4) (slot p (length (mov_seq lr (ra + 4)))) st"
      by (simp add: st1_def linked_def n_def link_seq_def lr_def)
    then show ?thesis using reaches_mov [OF _ _ st(1), of code lr "ra + 4"] c(1) True by (simp add: link_seq_def lr_def)
  next
    case False
    then have "st1 = st" using st(1) by (simp add: st1_def linked_def n_def link_seq_def)
    then show ?thesis by (simp add: reaches_refl)
  qed
  also have "reaches code st1 st2"
    by (rule reaches_at [of code, OF c(2) nop_exec]) (simp_all add: st1_def st2_def)
  also have "reaches code st2 st3"
    by (rule reaches_at [of code, OF c(3) save_context_exec]) (use st(2) in \<open>simp_all add: st2_def st3_def saved_ctx_def\<close>)
  also have "reaches code st3 (dispatch_state st3 bb (branch_target ra w) (dispatcher_addr t))"
  proof (rule reaches_jump [OF c(4)])
    have "n + 2 + length (mov_seq x0 (branch_target ra w) @ mov_seq x1 (word_of_int bb)) \<le> 64"
      using link_seq_length [of ra w] mov_seq_length(1) [of x0 "branch_target ra w"] mov_seq_length(1) [of x1 "word_of_int bb"]
      by (simp add: n_def)
    from near_in_range [OF near this]
    show "in_b_range (jump_b_addr bb (branch_target ra w) (slot p (n + 2))) (dispatcher_addr t)" by simp
  qed (simp add: st3_def)
  also have "dispatch_state st3 bb (branch_target ra w) (dispatcher_addr t) =
      dispatch_state (saved_ctx (linked ra w st)) bb (branch_target ra w) (dispatcher_addr t)"
    by (simp add: st3_def dispatch_state_def)
  finally show ?thesis .
qed

section \<open>The head of a block\<close>

definition head_seq :: "'a dbm_thread_scheme \<Rightarrow> int \<Rightarrow> uintptr \<Rightarrow> a64_inst list" where
  "head_seq t bb p = [a64_LDP_STP 2 0 1 1 2 x1 sp x0, a64_LDP_STP 2 0 3 0 (-2) x30 sp x1] @ mov_seq x1 (word_of_int bb) @
     [b_inst (slot p (2 + length (mov_seq x1 (word_of_int bb)))) (trace_head_incr_addr t) True, a64_LDP_STP 2 0 1 1 2 x30 sp x1]"

lemma head_seq_length: "length (head_seq t bb p) \<le> 8"
  using mov_seq_length(1) [of x1 "word_of_int bb"] by (simp add: head_seq_def)

lemma then_advance_bl:
  "then_advance (\<lambda>p. a64_bl_helper p d) w =
     (if in_b_range (snd w) d then Ok (emit_seq [b_inst (snd w) d True] w) else Assert_Fail)"
  by (simp add: then_advance_def a64_bl_helper_def a64_branch_helper_eq emit_inst_def)

lemma scan_trace_head_emits:
  assumes near: "near p (trace_head_incr_addr (sc_thread s))" and p: "p = sc_write s" and t: "t = sc_thread s"
  shows "\<exists>s'. scan_trace_head bb (sc_emit (a64_pop_pair_reg x0 x1) s) = Ok s' \<and>
    s' = s\<lparr>sc_code := fst (emit_seq (head_seq t bb p) (sc_code s, p)), sc_write := slot p (length (head_seq t bb p))\<rparr>"
proof -
  define n where "n = 2 + length (mov_seq x1 (word_of_int bb))"
  define xs where "xs = [a64_LDP_STP 2 0 1 1 2 x1 sp x0, a64_LDP_STP 2 0 3 0 (-2) x30 sp x1] @ mov_seq x1 (word_of_int bb)"
  define s1 where "s1 = s\<lparr>sc_code := fst (emit_seq xs (sc_code s, p)), sc_write := slot p n\<rparr>"
  have s1: "sc_emit (a64_copy_to_reg_64bits x1 (word_of_int bb)) (sc_emit (a64_push_pair_reg x1 x30) (sc_emit (a64_pop_pair_reg x0 x1) s)) = s1"
    by (simp add: sc_emit_def Let_def a64_copy_to_reg_64bits_seq a64_push_pair_reg_def a64_pop_pair_reg_def s1_def xs_def emit_seq_snd p n_def
        emit_inst_def slot_def algebra_simps)
  have r: "in_b_range (slot p n) (trace_head_incr_addr t)"
    using mov_seq_length(1) [of x1 "word_of_int bb"] near by (intro near_in_range) (simp_all add: n_def t)
  have head: "head_seq t bb p = xs @ [b_inst (slot p n) (trace_head_incr_addr t) True, a64_LDP_STP 2 0 1 1 2 x30 sp x1]" "length xs = n"
    by (simp_all add: head_seq_def xs_def n_def)
  have snd: "snd (emit_seq xs (sc_code s, p)) = slot p n" by (simp add: emit_seq_snd head(2))
  have "sc_thread s1 = t" "sc_write s1 = slot p n" "sc_code s1 = fst (emit_seq xs (sc_code s, p))" by (simp_all add: s1_def t)
  then have "scan_trace_head bb (sc_emit (a64_pop_pair_reg x0 x1) s) =
      Ok (s\<lparr>sc_code := fst (emit_seq (head_seq t bb p) (sc_code s, p)), sc_write := slot p (length (head_seq t bb p))\<rparr>)"
    unfolding scan_trace_head_def Let_def s1 using r
    by (simp add: sc_emit_res_def then_advance_bl sc_emit_def Let_def a64_pop_pair_reg_def head emit_inst_def s1_def snd)
  then show ?thesis by blast
qed

text \<open>
  At its entry a block finds the guest's X0 and X1 on the stack. It calls the trampoline that counts executions, with the
  block in X1 and with X1 and X30 of the guest on the stack.
\<close>

definition guest_regs :: "a64_state \<Rightarrow> nat \<Rightarrow> uintptr" where
  "guest_regs st = (xregs st)(0 := mem st (sp_reg st), 1 := mem st (sp_reg st + 8))"

definition head_call :: "int \<Rightarrow> uintptr \<Rightarrow> uintptr \<Rightarrow> a64_state \<Rightarrow> a64_state" where
  "head_call bb tramp_addr q st = st\<lparr>xregs := (guest_regs st)(1 := word_of_int bb, 30 := q), pc_reg := tramp_addr,
     mem := (mem st)(sp_reg st := mem st (sp_reg st + 8), sp_reg st + 8 := xregs st 30)\<rparr>"

text \<open>A trampoline that returns with its scratch registers X1 and X30 changed at most.\<close>

definition returns_from :: "a64_state \<Rightarrow> a64_state \<Rightarrow> bool" where
  "returns_from st st' \<longleftrightarrow> pc_reg st' = xregs st 30 \<and> sp_reg st' = sp_reg st \<and> mem st' (sp_reg st) = mem st (sp_reg st) \<and>
     mem st' (sp_reg st + 8) = mem st (sp_reg st + 8) \<and> (\<forall>r. r \<noteq> 1 \<and> r \<noteq> 30 \<longrightarrow> xregs st' r = xregs st r)"

lemma x_regs: "x0 = of_nat 0" "x1 = of_nat 1" "x30 = of_nat 30"
  by (simp_all add: reg_defs)

lemma x1_not_zr: "x1 \<noteq> 31"
  by code_simp

lemma reaches_head:
  assumes code: "code_seq code p (head_seq t bb p)" and st: "pc_reg st = p" "aligned_to 16 (sp_reg st)"
    and near: "near p (trace_head_incr_addr t)" and n_def: "n = length (head_seq t bb p)"
  shows "\<exists>q. reaches code st (head_call bb (trace_head_incr_addr t) q st) \<and>
    (\<forall>st'. returns_from (head_call bb (trace_head_incr_addr t) q st) st' \<longrightarrow>
      reaches code st' (st'\<lparr>xregs := guest_regs st, sp_reg := sp_reg st + 16, pc_reg := slot p n\<rparr>))"
proof -
  define l where "l = length (mov_seq x1 (word_of_int bb))"
  have n: "n = l + 4" by (simp add: n_def head_seq_def l_def)
  have eight: "8 + p = slot p 2" by (simp add: slot_def)
  have nxt: "slot p (l + 2) + 4 = slot p (l + 3)" "slot p (l + 3) + 4 = slot p (l + 4)" by (simp_all add: slot_def algebra_simps)
  have c: "code p = Some (a64_LDP_STP 2 0 1 1 2 x1 sp x0)" "code (slot p 1) = Some (a64_LDP_STP 2 0 3 0 (-2) x30 sp x1)"
      "code_seq code (slot p 2) (mov_seq x1 (word_of_int bb))" "code (slot p (l + 2)) = Some (b_inst (slot p (l + 2)) (trace_head_incr_addr t) True)"
      "code (slot p (l + 3)) = Some (a64_LDP_STP 2 0 1 1 2 x30 sp x1)"
    using code by (simp_all add: head_seq_def l_def eight) (simp_all add: numeral_eq_Suc)
  define st1 where "st1 = st\<lparr>sp_reg := sp_reg st + 16, xregs := guest_regs st, pc_reg := slot p 1\<rparr>"
  define st2 where "st2 = st\<lparr>xregs := guest_regs st, pc_reg := slot p 2,
     mem := (mem st)(sp_reg st := mem st (sp_reg st + 8), sp_reg st + 8 := xregs st 30)\<rparr>"
  have "reaches code st st1"
    by (rule reaches_at [of code, OF c(1) exec_pop2 [of st 0 1, unfolded x_regs(1,2) [symmetric]]])
      (use st in \<open>simp_all add: st1_def guest_regs_def\<close>)
  also have "reaches code st1 st2"
  proof (rule reaches_at [of code, OF c(2) exec_push2 [of st1 1 30, unfolded x_regs(2,3) [symmetric]]])
    have "sp_reg st + 16 - 8 = sp_reg st + 8" by simp
    then show "st1\<lparr>sp_reg := sp_reg st1 - 16, mem := (mem st1)(sp_reg st1 - 16 := xregs st1 1, sp_reg st1 - 8 := xregs st1 30),
        pc_reg := pc_reg st1 + 4\<rparr> = st2"
      by (simp add: st1_def st2_def guest_regs_def slot_def add.commute)
  qed (use st(2) aligned_sp(4) in \<open>simp_all add: st1_def\<close>)
  also have "reaches code st2 (set_reg x1 (word_of_int bb) (slot p (l + 2)) st2)"
    using reaches_mov [OF c(3) x1_not_zr, of st2] by (simp add: l_def st2_def add.commute)
  also have "reaches code (set_reg x1 (word_of_int bb) (slot p (l + 2)) st2) (head_call bb (trace_head_incr_addr t) (slot p (l + 3)) st)"
  proof (rule reaches_at [of code, OF c(4) b_inst_exec(2)])
    show "in_b_range (slot p (l + 2)) (trace_head_incr_addr t)"
      using near mov_seq_length(1) [of x1 "word_of_int bb"] by (intro near_in_range) (simp_all add: l_def)
  qed (simp_all add: st2_def head_call_def set_xreg_def x1_def nxt del: slot_simps(3) add_2_eq_Suc')
  finally have call: "reaches code st (head_call bb (trace_head_incr_addr t) (slot p (l + 3)) st)" .
  have ret: "reaches code st' (st'\<lparr>xregs := guest_regs st, sp_reg := sp_reg st + 16, pc_reg := slot p n\<rparr>)"
    if r: "returns_from (head_call bb (trace_head_incr_addr t) (slot p (l + 3)) st) st'" for st'
  proof (rule reaches_at [of code, OF c(5) exec_pop2 [of st' 1 30, unfolded x_regs(2,3) [symmetric]]])
    have regs: "(xregs st')(Suc 0 := mem st' (sp_reg st'), 30 := mem st' (sp_reg st' + 8)) = guest_regs st"
      using r by (auto simp: returns_from_def head_call_def guest_regs_def fun_eq_iff)
    show "st'\<lparr>sp_reg := sp_reg st' + 16, xregs := (xregs st')(1 := mem st' (sp_reg st'), 30 := mem st' (sp_reg st' + 8)), pc_reg := pc_reg st' + 4\<rparr> =
        st'\<lparr>xregs := guest_regs st, sp_reg := sp_reg st + 16, pc_reg := slot p n\<rparr>"
      using r by (simp add: regs n) (simp add: returns_from_def head_call_def nxt del: slot_simps(3))
  qed (use r st(2) in \<open>simp_all add: returns_from_def head_call_def\<close>)
  show ?thesis using call ret by blast
qed


section \<open>A whole block\<close>

text \<open>\<open>k\<close> instructions that are copied, and a direct branch.\<close>

definition straight_to_branch :: "('t, 'w) scan_env \<Rightarrow> uintptr \<Rightarrow> nat \<Rightarrow> bool" where
  "straight_to_branch env ra k \<longleftrightarrow> (\<forall>i < k. a64_copied (env_decode env (env_guest env (slot ra i)))) \<and>
     env_decode env (env_guest env (slot ra k)) = A64_B_BL"

definition block_seq :: "'a dbm_thread_scheme \<Rightarrow> int \<Rightarrow> (uintptr \<Rightarrow> u32) \<Rightarrow> uintptr \<Rightarrow> nat \<Rightarrow> a64_inst list" where
  "block_seq t bb guest ra k = (let p = blocks_addr t bb; head = head_seq t bb p in
     head @ guest_words guest ra k @ bl_exit_seq t bb (slot ra k) (guest (slot ra k)) (slot p (length head + k)))"

lemma bl_exit_thread: "dispatcher_addr t' = dispatcher_addr t \<Longrightarrow> bl_exit_seq t' bb ra w p = bl_exit_seq t bb ra w p"
  by (simp add: bl_exit_seq_def jump_seq_thread [of t' t])

lemma thread_grows_fields:
  assumes "thread_grows bb t t'"
  shows "code_cache t' = code_cache t" "dispatcher_addr t' = dispatcher_addr t" "trace_head_incr_addr t' = trace_head_incr_addr t"
    "entry_address t' = entry_address t" "cc_links t' = cc_links t"
  using assms by (auto simp: thread_grows_def)

lemma loop_branch:
  assumes fr: "in_fragment bb w s" and np: "free_plugin (sc_global s) = 0" and go: "\<not> sc_stop s" and al: "4 dvd w"
    and i: "env_decode env (env_guest env (sc_read s)) = A64_B_BL" and disp: "in_blocks (sc_thread s) (dispatcher_addr (sc_thread s))"
    and v: "v = env_guest env (sc_read s)" and t: "t = sc_thread s" and p: "p = sc_write s"
  shows "\<exists>s'. a64_scan_loop (Suc n) env bb ty start s = Ok s' \<and> sc_global s' = sc_global s \<and>
    (sc_code s', sc_write s') = emit_seq (bl_exit_seq t bb (sc_read s) v p) (sc_code s, p) \<and> sc_bb_entry s' = sc_bb_entry s \<and>
    sc_thread s' = t\<lparr>code_cache_meta := (code_cache_meta t)(bb := (code_cache_meta t bb)\<lparr>exit_branch_type := uncond_imm_a64,
      exit_branch_addr := slot p (length (link_seq (sc_read s) v)), branch_taken_addr := branch_target (sc_read s) v\<rparr>)\<rparr>"
proof -
  have f: "cc_layout t" "0 \<le> bb" "bb < free_block t" "free_block t \<le> CODE_CACHE_SIZE" "sc_data s = blocks_addr t (free_block t)"
      "p = code_cache t + word_of_int w" "0 \<le> w" "w + 60 < free_block t * sizeof_dbm_block"
    using fr by (simp_all add: in_fragment_def Let_def t p)
  have near: "near (sc_write s) (dispatcher_addr (sc_thread s))"
    using near_in_blocks [OF f(1) disp [folded t] f(7) _ al] f(4,8) by (simp add: f(6) flip: p t) (simp add: cc_sizes)
  have bb: "bb < META_SIZE" using f(3,4) by (simp add: cc_sizes)
  obtain u where u: "scan_b_bl env bb s = Ok u" "sc_stop u" "(sc_code u, sc_write u) = emit_seq (bl_exit_seq t bb (sc_read s) v p) (sc_code s, p)"
      "sc_data u = sc_data s" "sc_global u = sc_global s" "sc_read u = sc_read s" "sc_bb_entry u = sc_bb_entry s"
      "sc_thread u = t\<lparr>code_cache_meta := (code_cache_meta t)(bb := (code_cache_meta t bb)\<lparr>exit_branch_type := uncond_imm_a64,
        exit_branch_addr := slot p (length (link_seq (sc_read s) v)), branch_taken_addr := branch_target (sc_read s) v\<rparr>)\<rparr>"
    using scan_b_bl_emits [OF near f(2) bb v p t] by blast
  define l where "l = length (bl_exit_seq t bb (sc_read s) v p)"
  have "sc_write u = slot p l" using u(3) emit_seq_snd [of "bl_exit_seq t bb (sc_read s) v p" "(sc_code s, p)"] by (simp add: l_def flip: u(3))
  then have wr: "sc_write u = code_cache t + word_of_int (w + 4 * int l)" by (simp add: f(6) slot_def)
  have "l \<le> 15" unfolding l_def by (rule bl_exit_length)
  then have room: "\<not> sc_data u \<le> sc_write u"
    unfolding u(4) f(5) wr blocks_addr_def
    using cc_offset_le [OF f(1), of "free_block t * sizeof_dbm_block" "w + 4 * int l"] f(2-4,7,8) by (simp add: cc_sizes)
  have "a64_scan_inst env bb ty start A64_B_BL s = Ok u" using u(1) by (simp add: a64_scan_inst_def a64_instructions)
  then have "a64_scan_round env bb ty start s = Ok (u\<lparr>sc_read := sc_read u + 4\<rparr>)"
    using np u(2,5) room by (simp add: a64_scan_round_def Let_def no_plugins_deliver i)
  then have "a64_scan_loop (Suc n) env bb ty start s = Ok (u\<lparr>sc_read := sc_read u + 4\<rparr>)"
    using go u(2) by (subst a64_scan_loop.simps) (simp, subst a64_scan_loop.simps, simp)
  then show ?thesis using u by (intro exI [of _ "u\<lparr>sc_read := sc_read u + 4\<rparr>"]) simp
qed

lemma scan_a64_block:
  assumes lay: "cc_layout t" and np: "free_plugin g = 0" and bb: "0 \<le> bb" "free_block t = bb + 1" "free_block t \<le> CODE_CACHE_SIZE"
    and tr: "in_blocks t (dispatcher_addr t)" "in_blocks t (trace_head_incr_addr t)"
    and gu: "straight_to_branch env ra k" "k < fuel" and cap: "bb * sizeof_dbm_block + 4 * int k + 92 < CODE_CACHE_SIZE * sizeof_dbm_block"
    and p_def: "p = blocks_addr t bb" and h_def: "h = length (head_seq t bb p)" and v_def: "v = env_guest env (slot ra k)"
  shows "\<exists>n s. scan_a64 fuel env g t ra bb mambo_bb 0 code = Ok (n, s) \<and> sc_code s = fst (emit_seq (block_seq t bb (env_guest env) ra k) (code, p)) \<and>
    exit_branch_type (code_cache_meta (sc_thread s) bb) = uncond_imm_a64 \<and>
    exit_branch_addr (code_cache_meta (sc_thread s) bb) = slot p (h + k + length (link_seq (slot ra k) v)) \<and>
    branch_taken_addr (code_cache_meta (sc_thread s) bb) = branch_target (slot ra k) v"
proof -
  define s0 where "s0 = \<lparr>sc_thread = t, sc_global = g, sc_code = code, sc_read = ra, sc_bb_entry = ra, sc_write = p,
      sc_data = p + word_of_int (BASIC_BLOCK_SIZE * 4), sc_stop = False\<rparr>"
  have s0: "sc_thread s0 = t" "sc_write s0 = p" "sc_code s0 = code" "sc_global s0 = g" "sc_read s0 = ra" "\<not> sc_stop s0"
      "sc_data s0 = p + word_of_int (BASIC_BLOCK_SIZE * 4)"
    by (simp_all add: s0_def)
  define s1 where "s1 = s0\<lparr>sc_code := fst (emit_seq (head_seq t bb p) (code, p)), sc_write := slot p h\<rparr>"
  have s1: "sc_global s1 = g" "sc_read s1 = ra" "s1\<lparr>sc_read := ra\<rparr> = s1" by (simp_all add: s1_def s0_def)
  have p: "p = code_cache t + word_of_int (bb * sizeof_dbm_block)" by (simp add: p_def blocks_addr_def)
  have "near p (trace_head_incr_addr t)"
    unfolding p using bb by (intro near_in_blocks [OF lay tr(2)]) (simp_all add: cc_sizes)
  then have "\<exists>s'. scan_trace_head bb (sc_emit (a64_pop_pair_reg x0 x1) s0) = Ok s' \<and>
      s' = s0\<lparr>sc_code := fst (emit_seq (head_seq t bb p) (sc_code s0, p)), sc_write := slot p (length (head_seq t bb p))\<rparr>"
    by (intro scan_trace_head_emits) (simp_all only: s0)
  then have head: "scan_trace_head bb (sc_emit (a64_pop_pair_reg x0 x1) s0) = Ok s1"
    unfolding s1_def h_def s0(3) by blast
  have h: "h \<le> 8" unfolding h_def by (rule head_seq_length)
  define w where "w = bb * sizeof_dbm_block + 4 * int h"
  have fr: "in_fragment bb w s1"
    using lay bb h by (simp add: in_fragment_def Let_def s1_def s0 w_def p slot_def blocks_addr_def cc_sizes algebra_simps)
  obtain f where f: "fuel = k + Suc f" using gu(2) less_imp_Suc_add by fastforce
  have pass1: "pass1_a64 fuel (env_decode env) (env_guest env) ra = Ok uncond_imm_a64"
    using gu(1) unfolding f by (subst pass1_finds) (auto simp: straight_to_branch_def Let_def)
  obtain s2 where s2: "a64_scan_loop fuel env bb mambo_bb ra s1 = a64_scan_loop (Suc f) env bb mambo_bb ra s2"
      "in_fragment bb (w + 4 * int k) s2" "scan_grows bb s1 s2" "\<not> sc_stop s2"
      "(sc_code s2, sc_write s2) = emit_seq (guest_words (env_guest env) ra k) (sc_code s1, slot p h)"
      "sc_read s2 = slot ra k" "sc_bb_entry s2 = sc_bb_entry s1"
    using loop_copied [OF fr, of k env "Suc f" mambo_bb ra] np gu(1) cap h by (auto simp: s1_def s0 straight_to_branch_def w_def f)
  have g2: "thread_grows bb t (sc_thread s2)" "sc_global s2 = g" using s2(3) by (simp_all add: scan_grows_def s1_def s0)
  note t2 = thread_grows_fields [OF g2(1)]
  have wr: "sc_write s2 = slot p (h + k)"
    using emit_seq_snd [of "guest_words (env_guest env) ra k" "(sc_code s1, slot p h)"] by (simp flip: s2(5))
  have al: "4 dvd w + 4 * int k" by (simp add: w_def cc_sizes)
  have disp: "in_blocks (sc_thread s2) (dispatcher_addr (sc_thread s2))" using tr(1) by (simp add: in_blocks_def t2)
  have ex: "bl_exit_seq (sc_thread s2) bb (slot ra k) v (slot p (h + k)) = bl_exit_seq t bb (slot ra k) v (slot p (h + k))"
    by (rule bl_exit_thread) (rule t2(2))
  obtain s3 where s3: "a64_scan_loop (Suc f) env bb mambo_bb ra s2 = Ok s3" "sc_global s3 = g"
      "(sc_code s3, sc_write s3) = emit_seq (bl_exit_seq t bb (slot ra k) v (slot p (h + k))) (sc_code s2, slot p (h + k))"
      "sc_thread s3 = (sc_thread s2)\<lparr>code_cache_meta := (code_cache_meta (sc_thread s2))(bb := (code_cache_meta (sc_thread s2) bb)\<lparr>exit_branch_type := uncond_imm_a64,
        exit_branch_addr := slot p (h + k + length (link_seq (slot ra k) v)), branch_taken_addr := branch_target (slot ra k) v\<rparr>)\<rparr>"
    using loop_branch [OF s2(2) _ s2(4) al _ disp refl refl refl, where env = env and n = f and ty = mambo_bb and start = ra] np gu(1) g2(2)
    by (auto simp: s2(6) wr straight_to_branch_def ex [unfolded v_def] v_def)
  have "scan_a64 fuel env g t ra bb mambo_bb 0 code = Ok (sc_write s3 - p + 4, s3)"
    using np s3(2) head pass1 s2(1) s3(1) s1(1,2)
    by (simp add: s1(3) scan_a64_def Let_def p_def [symmetric] s0_def [simplified, symmetric] no_plugins_deliver)
  moreover have "sc_code s3 = fst (emit_seq (block_seq t bb (env_guest env) ra k) (code, p))"
  proof -
    have "(sc_code s3, sc_write s3) = emit_seq (block_seq t bb (env_guest env) ra k) (code, p)"
      using s3(3) s2(5) emit_seq_snd [of "head_seq t bb p" "(code, p)"]
      by (simp add: block_seq_def Let_def p_def [symmetric] h_def [symmetric] v_def [symmetric] s1_def wr) (metis prod.collapse)
    then show ?thesis by (metis fst_conv)
  qed
  ultimately show ?thesis using s3(4) by simp
qed


section \<open>The scanner of the code cache manager\<close>

text \<open>The thread with the contents of its code cache and the global state, and the call of the scanner in \<open>scan\<close>.\<close>

record a64_thread = dbm_thread +
  cc_code :: a64_code
  cc_global :: dbm_global

definition scanned :: "('c a64_thread_scheme, dbm_global) scan_state \<Rightarrow> 'c a64_thread_scheme" where
  "scanned s = (sc_thread s)\<lparr>cc_code := sc_code s, cc_global := sc_global s\<rparr>"

definition a64_scanner ::
    "nat \<Rightarrow> ('c a64_thread_ext, unit) a64_env \<Rightarrow> 'c a64_thread_scheme \<Rightarrow> uintptr \<Rightarrow> int \<Rightarrow> 'c a64_thread_scheme res" where
  "a64_scanner fuel env t address bb =
     res_bind (scan_a64 fuel env (cc_global t) t address bb mambo_bb 0 (cc_code t)) (\<lambda>(n, s). Ok (scanned s))"

lemma scanned_frame [simp]:
  "code_cache (scanned s) = code_cache (sc_thread s)" "entry_address (scanned s) = entry_address (sc_thread s)"
  "cc_links (scanned s) = cc_links (sc_thread s)" "free_block (scanned s) = free_block (sc_thread s)"
  "code_cache_meta (scanned s) = code_cache_meta (sc_thread s)" "dispatcher_addr (scanned s) = dispatcher_addr (sc_thread s)"
  "active_trace (scanned s) = active_trace (sc_thread s)" "was_flushed (scanned s) = was_flushed (sc_thread s)" "cc_code (scanned s) = sc_code s" "cc_global (scanned s) = sc_global s"
  by (simp_all add: scanned_def)

definition no_plugins :: "'c a64_thread_ext \<Rightarrow> bool" where
  "no_plugins e \<longleftrightarrow> (\<forall>t :: 'c a64_thread_scheme. dbm_thread.more t = e \<longrightarrow> free_plugin (cc_global t) = 0)"

lemma no_plugins_more: "no_plugins (dbm_thread.more t) \<longleftrightarrow> free_plugin (cc_global t) = 0"
proof -
  have "cc_global u = cc_global t" if "dbm_thread.more u = dbm_thread.more t" for u
    using that by (cases u; cases t) auto
  then show ?thesis unfolding no_plugins_def by metis
qed

lemma a64_scanner_keeps:
  assumes np: "free_plugin (cc_global t) = 0" and ok: "a64_scanner fuel env t addr bb = Ok t'"
  shows "entry_address t' = entry_address t \<and> code_cache t' = code_cache t" "cc_inv a tramp t \<Longrightarrow> cc_inv a tramp t'"
    "free_plugin (cc_global t') = 0" "was_flushed t' = was_flushed t"
    "i \<noteq> bb \<Longrightarrow> i < free_block t \<or> CODE_CACHE_SIZE \<le> i \<Longrightarrow> code_cache_meta t' i = code_cache_meta t i"
proof -
  obtain n s where s: "scan_a64 fuel env (cc_global t) t addr bb mambo_bb 0 (cc_code t) = Ok (n, s)" and t': "t' = scanned s"
    using ok by (auto simp: a64_scanner_def res_bind_eq_Ok)
  note u = scan_a64_grows(1) [OF np s] and f = thread_grows_fields [OF scan_a64_grows(1) [OF np s]]
  show "entry_address t' = entry_address t \<and> code_cache t' = code_cache t" using f by (simp add: t')
  show "free_plugin (cc_global t') = 0" using scan_a64_grows(2) [OF np s] np by (simp add: t')
  show "was_flushed t' = was_flushed t" "i \<noteq> bb \<Longrightarrow> i < free_block t \<or> CODE_CACHE_SIZE \<le> i \<Longrightarrow> code_cache_meta t' i = code_cache_meta t i"
    using u by (auto simp: t' thread_grows_def)
  assume inv: "cc_inv a tramp t"
  have g: "free_block t \<le> free_block (sc_thread s)" "free_block (sc_thread s) \<le> CODE_CACHE_SIZE"
    "\<And>i. exit_branch_type (code_cache_meta (sc_thread s) i) = stub \<Longrightarrow> exit_branch_type (code_cache_meta t i) = stub"
    using u cc_invD(6) [OF inv] by (auto simp: thread_grows_def)
  show "cc_inv a tramp t'"
    using f g cc_invD(8) [OF inv] by (intro cc_inv_frame [OF inv]) (auto simp: t')
qed

interpretation a64: framed_scanner AArch64 tramp no_plugins "a64_scanner fuel env" for tramp fuel env
  by unfold_locales (auto simp: no_plugins_more dest: a64_scanner_keeps)

text \<open>The difference between the registers a context lists as pushed and their counter; requesting scratch registers keeps it.\<close>

definition reg_balance :: "mambo_context \<Rightarrow> int option" where
  "reg_balance ctx = (case ctx_u ctx of Code_ctx c \<Rightarrow> Some (int (count_bits (pushed_regs c)) - plugin_pushed_reg_count c) | _ \<Rightarrow> None)"

lemma emit_pop_pushed:
  assumes "emit_pop (c, code) (pushed_regs c) = Ok (c', code')"
  shows "pushed_regs c' = pushed_regs c" "plugin_pushed_reg_count c' = plugin_pushed_reg_count c - int (count_bits (pushed_regs c))"
  using assms by (auto simp: emit_pop_def emit_a64_pop_emits Let_def count_bits_regs res_assert_def split: if_splits)

lemma deliver_one_balance:
  assumes "a64_deliver_one run cb_id bb True i f st = Ok (ctx, r, s)" "ctx_u ctx = Code_ctx c" "pushed_regs c \<noteq> 0"
  shows "plugin_pushed_reg_count c = 0"
proof -
  obtain ctx0 r0 s0 where st: "st = (ctx0, r0, s0)" by (cases st)
  obtain c1 code c2 code2 where c1: "int (count_bits (pushed_regs c1)) = plugin_pushed_reg_count c1"
      "(if pushed_regs c1 \<noteq> 0 then emit_pop (c1, code) (pushed_regs c1) else Ok (c1, code)) = Ok (c2, code2)" "c2 = c"
    using assms(1,2) unfolding st a64_deliver_one_def
    by (fastforce simp: res_bind_eq_Ok Let_def res_assert_eq_Ok set_code_def split del: if_split)
  then show ?thesis using assms(3) emit_pop_pushed [of c1 code c2 code2] by (auto split: if_splits)
qed

section \<open>Properties\<close>

text \<open>C2: A block of any number of ordinary instructions that ends in a direct branch is translated completely: the scan returns,
  and the fragment restores the guest's X0 and X1, counts the execution, contains the guest's instructions unchanged and in order,
  and then enters the dispatcher with the branch's target in X0 and the block in X1, all other registers of the guest intact (X30 set
  for a call). Growing into further blocks leaves no gap.\<close>

theorem a64_block_runs:
  assumes "cc_layout t" "free_plugin g = 0" "0 \<le> bb" "free_block t = bb + 1" "free_block t \<le> CODE_CACHE_SIZE"
    and "in_blocks t (dispatcher_addr t)" "in_blocks t (trace_head_incr_addr t)" "straight_to_branch env ra k" "k < fuel"
    and "bb * sizeof_dbm_block + 4 * int k + 92 < CODE_CACHE_SIZE * sizeof_dbm_block"
  shows "\<exists>n s m. scan_a64 fuel env g t ra bb mambo_bb 0 code = Ok (n, s) \<and>
    code_seq (sc_code s) m (guest_words (env_guest env) ra k) \<and>
    (\<forall>st. pc_reg st = blocks_addr t bb \<and> aligned_to 16 (sp_reg st) \<longrightarrow>
      (\<exists>q. reaches (sc_code s) st (head_call bb (trace_head_incr_addr t) q st) \<and>
        (\<forall>st'. returns_from (head_call bb (trace_head_incr_addr t) q st) st' \<longrightarrow>
          reaches (sc_code s) st' (st'\<lparr>xregs := guest_regs st, sp_reg := sp_reg st + 16, pc_reg := m\<rparr>)))) \<and>
    (\<forall>st. pc_reg st = slot m k \<and> aligned_to 16 (sp_reg st) \<longrightarrow>
      reaches (sc_code s) st (dispatch_state (saved_ctx (linked (slot ra k) (env_guest env (slot ra k)) st)) bb
        (branch_target (slot ra k) (env_guest env (slot ra k))) (dispatcher_addr t)))"
proof -
  define p where "p = blocks_addr t bb"
  define h where "h = length (head_seq t bb p)"
  define v where "v = env_guest env (slot ra k)"
  define xs where "xs = block_seq t bb (env_guest env) ra k"
  obtain n s where s: "scan_a64 fuel env g t ra bb mambo_bb 0 code = Ok (n, s)" "sc_code s = fst (emit_seq xs (code, p))"
    using scan_a64_block [OF assms p_def h_def v_def, of code] unfolding xs_def by blast
  have k: "int k < CODE_CACHE_SIZE * sizeof_dbm_block" using assms(3,10) by (simp add: cc_sizes)
  have xs: "xs = head_seq t bb p @ guest_words (env_guest env) ra k @ bl_exit_seq t bb (slot ra k) v (slot p (h + k))"
    by (simp add: xs_def block_seq_def Let_def p_def h_def v_def)
  have "length xs < 2 ^ 60"
    using k head_seq_length [of t bb p] bl_exit_length [of t bb "slot ra k" v "slot p (h + k)"] by (simp add: xs cc_sizes)
  from emit_seq_code [OF this, of "(code, p)"] have "code_seq (sc_code s) p xs" by (simp add: s(2))
  then have c: "code_seq (sc_code s) p (head_seq t bb p)" "code_seq (sc_code s) (slot p h) (guest_words (env_guest env) ra k)"
      "code_seq (sc_code s) (slot p (h + k)) (bl_exit_seq t bb (slot ra k) v (slot p (h + k)))"
    by (simp_all add: xs h_def)
  have off: "0 \<le> bb * sizeof_dbm_block" "bb * sizeof_dbm_block \<le> CODE_CACHE_SIZE * sizeof_dbm_block" "4 dvd bb * sizeof_dbm_block"
    using assms(3-5) by (simp_all add: cc_sizes)
  have near: "near p (trace_head_incr_addr t)" unfolding p_def blocks_addr_def by (rule near_in_blocks [OF assms(1,7) off])
  have pos: "slot p (h + k) = code_cache t + word_of_int (bb * sizeof_dbm_block + 4 * int (h + k))"
    by (simp add: p_def blocks_addr_def slot_def)
  have "near (slot p (h + k)) (dispatcher_addr t)"
    unfolding pos using off assms(10) head_seq_length [of t bb p]
    by (intro near_in_blocks [OF assms(1,6)]) (auto simp: h_def [symmetric])
  with reaches_bl_exit [OF c(3)] reaches_head [OF c(1) _ _ near h_def] show ?thesis
    using s(1) c(2) unfolding v_def [symmetric] p_def [symmetric] by (intro exI [of _ n] exI [of _ s] exI [of _ "slot p h"]) simp
qed

text \<open>C13: With the AArch64 scanner, translating an address is stable: what \<open>lookup_or_scan\<close> returned for it is found in the code
  cache at once from then on, without another scan, and the code cache stays consistent.\<close>

theorem lookup_or_scan_a64_stable:
  assumes "cc_inv AArch64 tramp t" "target \<noteq> 0" "free_plugin (cc_global t) = 0"
    and "lookup_or_scan AArch64 tramp (a64_scanner fuel env) t target = Ok (addr, t')"
  shows "cc_inv AArch64 tramp t' \<and> addr \<noteq> UINT_MAX \<and>
    lookup_or_scan_with_cached AArch64 tramp (a64_scanner fuel env) t' target = Ok (addr, True, t')"
  using a64.lookup_or_scan_stable [OF assms(1,2,4)] assms(3) by (simp add: no_plugins_more)

text \<open>C34: Two plugins cannot both insert code at one event. Once a callback has used scratch registers, they are popped but stay
  listed as pushed, so that the next callback on the same event, even one that does nothing, ends in a failed assertion.\<close>

theorem a64_second_callback_fails:
  assumes "a64_deliver_one run cb_id bb True i f st = Ok (ctx, r, s)" "ctx_u ctx = Code_ctx c" "pushed_regs c \<noteq> 0"
    and "\<And>ev. \<exists>ctx' w. run h ev = Ok (ctx', w) \<and> reg_balance ctx' = reg_balance (fst ev)"
  shows "a64_deliver_one run cb_id bb True j h (ctx, r, s) = Assert_Fail"
proof -
  let ?c = "c\<lparr>write_p := sc_write s, data_p := sc_data s, ctx_replace := False, available_regs := pushed_regs c, ctx_stop := Some (sc_stop s)\<rparr>"
  let ?ctx = "(set_code ctx ?c)\<lparr>plugin_id := j\<rparr>"
  obtain ctx' code' t' g' where run: "run h (?ctx, sc_code s, sc_thread s, sc_global s) = Ok (ctx', code', t', g')"
      "reg_balance ctx' = reg_balance ?ctx"
    using assms(4) [of "(?ctx, sc_code s, sc_thread s, sc_global s)"] by (auto simp: prod_eq_iff)
  have "count_bits (pushed_regs c) \<noteq> 0" using assms(3) by (simp add: count_bits_regs regs_of_Nil)
  then have "reg_balance ctx' \<noteq> Some 0" "reg_balance ctx' \<noteq> None"
    using run(2) deliver_one_balance [OF assms(1-3)] by (simp_all add: reg_balance_def set_code_def)
  then obtain c' where "ctx_u ctx' = Code_ctx c'" "int (count_bits (pushed_regs c')) \<noteq> plugin_pushed_reg_count c'"
    by (auto simp: reg_balance_def split: ctx_union.splits)
  with run(1) assms(2) show ?thesis by (simp add: a64_deliver_one_def Let_def res_assert_def)
qed

text \<open>A plugin that requests a scratch register and one that does nothing.\<close>

definition two_run :: "(unit, dbm_global) scan_callbacks" where
  "two_run f ev = (if f = 1 then on_code (\<lambda>e. res_bind (mambo_get_scratch_reg e) (\<lambda>(rs, e). Ok e)) ev else Ok ev)"

definition scan_ctx :: mambo_context where
  "scan_ctx = \<lparr>ctx_thread = None, event_type = PRE_INST_C, plugin_id = 0, ctx_u = Code_ctx witness_ctx\<rparr>"

definition scan_start :: "(unit, unit) scan" where
  "scan_start = \<lparr>sc_thread = witness_thread\<lparr>free_block := 257\<rparr>, sc_global = one_plugin 1, sc_code = Map.empty, sc_read = 0x400000,
     sc_bb_entry = 0x400000, sc_write = 0x50010000, sc_data = 0x50010100, sc_stop = False\<rparr>"

theorem a64_second_callback_fails_witness:
  "\<exists>st. a64_deliver_one two_run PRE_INST_C 256 True 0 1 (scan_ctx, False, scan_start) = Ok st \<and>
     a64_deliver_one two_run PRE_INST_C 256 True 1 2 st = Assert_Fail"
proof -
  have "case a64_deliver_one two_run PRE_INST_C 256 True 0 1 (scan_ctx, False, scan_start) of
      Ok (ctx, r, s) \<Rightarrow> (case ctx_u ctx of Code_ctx c \<Rightarrow> pushed_regs c \<noteq> 0 | _ \<Rightarrow> False) | _ \<Rightarrow> False"
    by code_simp
  then obtain ctx r s c where one: "a64_deliver_one two_run PRE_INST_C 256 True 0 1 (scan_ctx, False, scan_start) = Ok (ctx, r, s)"
      "ctx_u ctx = Code_ctx c" "pushed_regs c \<noteq> 0"
    by (auto split: res.splits ctx_union.splits)
  have "\<exists>ctx' w. two_run 2 ev = Ok (ctx', w) \<and> reg_balance ctx' = reg_balance (fst ev)" for ev
    by (cases ev) (simp add: two_run_def)
  from a64_second_callback_fails [OF one this, where j = 1] one(1) show ?thesis by blast
qed

text \<open>A guest with two additions and a call, and a decoder that knows them.\<close>

definition call_guest :: "uintptr \<Rightarrow> u32" where
  "call_guest a = (if a = 0x400008 then 0x94000010 else 0x91000400)"

definition call_env :: "('t, 'w) scan_env" where
  "call_env = \<lparr>env_run = (\<lambda>_ _. Spin), env_fresh = scan_ctx, env_entries = 0x60000000, env_tls = 0x60900000,
     env_guest = call_guest,
     env_decode = (\<lambda>w. if w AND 0x7C000000 = 0x14000000 then A64_B_BL else 48), env_thread = 0\<rparr>"

lemma env_guest_call: "env_guest call_env = call_guest"
  by (simp add: call_env_def)

definition no_plugin :: dbm_global where "no_plugin = (one_plugin 1)\<lparr>free_plugin := 0\<rparr>"

theorem a64_block_runs_witness:
  "\<exists>n s m. scan_a64 3 call_env no_plugin (witness_thread\<lparr>free_block := 257\<rparr>) 0x400000 256 mambo_bb 0 Map.empty = Ok (n, s) \<and>
     code_seq (sc_code s) m [a64_word 0x91000400, a64_word 0x91000400] \<and>
     (\<exists>st'. reaches (sc_code s) (witness_state\<lparr>pc_reg := m + 8\<rparr>) st' \<and> pc_reg st' = 0x50000000 \<and> xregs st' 0 = 0x400048 \<and> xregs st' 30 = 0x40000C)"
proof -
  let ?t = "witness_thread\<lparr>free_block := 257\<rparr>"
  have lay: "cc_layout ?t" by (simp add: cc_layout_def witness_thread_def cc_sizes)
  have tr: "in_blocks ?t (dispatcher_addr ?t)" "in_blocks ?t (trace_head_incr_addr ?t)"
    by (simp_all add: in_blocks_def witness_thread_def cc_sizes)
  have gu: "straight_to_branch call_env 0x400000 2"
    by (auto simp: straight_to_branch_def call_env_def call_guest_def slot_def a64_copied_def a64_instructions less_2_cases_iff)
  have words: "guest_words call_guest 0x400000 2 = [a64_word 0x91000400, a64_word 0x91000400]"
    by (simp add: guest_words_def call_guest_def slot_def upt_rec)
  have np: "free_plugin no_plugin = 0" by (simp add: no_plugin_def)
  have g: "slot 0x400000 2 = 0x400008" "call_guest 0x400008 = 0x94000010" by (simp_all add: call_guest_def slot_def)
  have tgt: "branch_target 0x400008 0x94000010 = 0x400048" "fld 0x94000010 31 31 = 1" by code_simp+
  have fb: "free_block ?t = 256 + 1" "free_block ?t \<le> CODE_CACHE_SIZE" by (simp_all add: cc_sizes)
  have cap: "256 * sizeof_dbm_block + 4 * int 2 + 92 < CODE_CACHE_SIZE * sizeof_dbm_block" by (simp add: cc_sizes)
  have z: "(0 :: int) \<le> 256" "(2 :: nat) < 3" by simp_all
  have eight: "slot m 2 = m + 8" for m by (simp add: slot_def)
  obtain n s m where s: "scan_a64 3 call_env no_plugin ?t 0x400000 256 mambo_bb 0 Map.empty = Ok (n, s)"
      "code_seq (sc_code s) m (guest_words call_guest 0x400000 2)"
      "\<forall>st. pc_reg st = slot m 2 \<and> aligned_to 16 (sp_reg st) \<longrightarrow> reaches (sc_code s) st
        (dispatch_state (saved_ctx (linked 0x400008 0x94000010 st)) 256 0x400048 (dispatcher_addr ?t))"
    using a64_block_runs [OF lay np z(1) fb tr gu z(2) cap, of Map.empty, unfolded env_guest_call g tgt] by (elim exE conjE) (rule that)
  have "reaches (sc_code s) (witness_state\<lparr>pc_reg := m + 8\<rparr>)
      (dispatch_state (saved_ctx (linked 0x400008 0x94000010 (witness_state\<lparr>pc_reg := m + 8\<rparr>))) 256 0x400048 (dispatcher_addr ?t))"
    by (rule s(3) [rule_format]) (use witness_near(2) in \<open>simp_all add: eight\<close>)
  then show ?thesis
    using s(1,2) unfolding words
    by (intro exI [of _ n] exI [of _ s] exI [of _ m]) (auto simp: dispatch_state_def saved_ctx_def linked_def tgt witness_thread_def)
qed

text \<open>A thread that has translated the address 0x1004.\<close>

definition cached_thread :: a64_thread where
  "cached_thread = dbm_thread.extend (fresh_thread\<lparr>entry_address := big_table, free_block := 600\<rparr>) (a64_thread.fields Map.empty no_plugin)"

lemma cached_thread_inv: "cc_inv AArch64 1 cached_thread" "hash_view (entry_address cached_thread) 0x1004 = Some 0x50020000"
proof -
  let ?t = "fresh_thread\<lparr>entry_address := big_table, free_block := 600\<rparr>"
  have f: "entry_address cached_thread = big_table" "free_block cached_thread = 600" "code_cache cached_thread = 0x50000000"
    "cc_links cached_thread = cc_links fresh_thread" "code_cache_meta cached_thread = code_cache_meta fresh_thread"
    by (simp_all add: cached_thread_def dbm_thread.defs fresh_thread_def witness_thread_def)
  show "hash_view (entry_address cached_thread) 0x1004 = Some 0x50020000"
    unfolding f hash_view_Some [OF big_table_inv] by (auto simp: big_table_key big_table_def intro!: exI [of _ "0x401"])
  have view: "v = 0x50020000" if "hash_view big_table k = Some v" for k v
    using that unfolding hash_view_Some [OF big_table_inv] by (auto simp: big_table_key big_table_def nth_list_update split: if_splits)
  have "blocks_addr cached_thread 512 = 0x50020000" by (simp add: blocks_addr_def f cc_sizes)
  then have ent: "\<exists>i. 1 \<le> i \<and> i < 600 \<and> v = blocks_addr cached_thread i" if "hash_view big_table k = Some v" for k v
    using view [OF that] by (intro exI [of _ 512]) simp
  have lay: "cc_layout cached_thread" by (simp add: cc_layout_def f cc_sizes)
  have fr: "MAX_CC_LINKS \<le> int (length (pool (cc_links fresh_thread)))" "exit_branch_type (code_cache_meta fresh_thread i) \<noteq> stub" for i
    by (simp_all add: fresh_thread_def witness_thread_def MAX_CC_LINKS_def)
  have len: "CODE_CACHE_HASH_SIZE + CODE_CACHE_HASH_OVERP \<le> int (length (ht_entries big_table))"
    by (simp add: big_table_def CODE_CACHE_HASH_SIZE_def CODE_CACHE_HASH_OVERP_def)
  show "cc_inv AArch64 1 cached_thread"
    unfolding cc_inv_def f using lay fr len big_table_inv ent by (auto simp: cc_sizes)
qed

theorem lookup_or_scan_a64_stable_witness:
  "lookup_or_scan_with_cached AArch64 1 (a64_scanner 10 call_env) cached_thread 0x1004 = Ok (0x50020000, True, cached_thread)"
proof -
  have np: "free_plugin (cc_global cached_thread) = 0"
    by (simp add: cached_thread_def dbm_thread.defs a64_thread.defs no_plugin_def)
  have "lookup_or_scan_with_cached AArch64 1 (a64_scanner 10 call_env) cached_thread 0x1004 = Ok (0x50020000, True, cached_thread)"
    by (rule a64.lookup_cached_hit(2) [OF cached_thread_inv(1) _ cached_thread_inv(2)]) simp
  then have "lookup_or_scan AArch64 1 (a64_scanner 10 call_env) cached_thread 0x1004 = Ok (0x50020000, cached_thread)"
    by (simp add: lookup_or_scan_def)
  from lookup_or_scan_a64_stable [OF cached_thread_inv(1) _ np this] show ?thesis by simp
qed

end
