(* ===== verification/A64_Traces.thy ===== *)
theory A64_Traces
  imports A64_Fragment A64_Dispatch
begin

text \<open>
  The trace compiler of the AArch64 build (\<open>traces.c\<close>) and the dispatcher that ties the components together
  (\<open>dispatcher.c\<close>). A block that was executed often becomes the head of a trace; from then on every fragment the guest
  runs is scanned behind the previous one, with conditional branches out of the trace as its exits, until the trace is
  closed and installed. The thread carries the contents of its code cache. Statistics and the clearing of the instruction
  cache have no effect on this state.
\<close>

section \<open>Instructions in the code cache\<close>

definition ONE_MEGABYTE :: int where "ONE_MEGABYTE = 1024 * 1024"
definition THIRTY_TWO_KB :: int where "THIRTY_TWO_KB = 32 * 1024"
definition NINETEEN_BITS :: u32 where "NINETEEN_BITS = 0x7FFFF"
definition FOURTEEN_BITS :: u32 where "FOURTEEN_BITS = 0x3FFF"
definition THUMB :: uintptr where "THUMB = 1"
definition TRACE_EXIT_STUB_GUARD :: uintptr where "TRACE_EXIT_STUB_GUARD = 16 * 1024"

definition code_at :: "a64_code \<Rightarrow> uintptr \<Rightarrow> a64_inst res" where
  "code_at code p = (case code p of Some i \<Rightarrow> Ok i | None \<Rightarrow> Undef)"

text \<open>Decoding an instruction of the code cache: those the translator emitted are kept by their fields, copied words are decoded.\<close>

fun a64_class :: "(u32 \<Rightarrow> a64_instruction) \<Rightarrow> a64_inst \<Rightarrow> a64_instruction option" where
  "a64_class decode (a64_B_BL _ _) = Some A64_B_BL"
| "a64_class decode (a64_B_cond _ _) = Some A64_B_COND"
| "a64_class decode (a64_CBZ_CBNZ _ _ _ _) = Some A64_Scan.A64_CBZ_CBNZ"
| "a64_class decode (a64_TBZ_TBNZ _ _ _ _ _) = Some A64_Scan.A64_TBZ_TBNZ"
| "a64_class decode (a64_BR _) = Some A64_BR"
| "a64_class decode (a64_BLR _) = Some A64_BLR"
| "a64_class decode (a64_word w) = Some (decode w)"
| "a64_class decode _ = None"

fun cbz_of :: "a64_inst \<Rightarrow> cbz_fields" where
  "cbz_of (a64_CBZ_CBNZ sf op imm rt) = \<lparr>cbz_sf = ucast sf, cbz_op = ucast op, cbz_imm = ucast imm, cbz_rt = ucast rt\<rparr>"
| "cbz_of (a64_word w) = a64_CBZ_CBNZ_decode_fields w"
| "cbz_of _ = a64_CBZ_CBNZ_decode_fields 0"

fun tbz_of :: "a64_inst \<Rightarrow> tbz_fields" where
  "tbz_of (a64_TBZ_TBNZ b5 op b40 imm rt) =
     \<lparr>tbz_b5 = ucast b5, tbz_op = ucast op, tbz_b40 = ucast b40, tbz_imm = ucast imm, tbz_rt = ucast rt\<rparr>"
| "tbz_of (a64_word w) = a64_TBZ_TBNZ_decode_fields w"
| "tbz_of _ = a64_TBZ_TBNZ_decode_fields 0"

fun b_cond_of :: "a64_inst \<Rightarrow> u32 \<times> u32" where
  "b_cond_of (a64_B_cond imm cond) = (ucast imm, ucast cond)"
| "b_cond_of (a64_word w) = a64_B_cond_decode_fields w"
| "b_cond_of _ = a64_B_cond_decode_fields 0"

text \<open>The branch immediate of the instruction, widened by the given bits (\<open>*from |= bits << 5\<close>).\<close>

fun or_branch_imm :: "u32 \<Rightarrow> a64_inst \<Rightarrow> a64_inst" where
  "or_branch_imm bits (a64_B_cond imm cond) = a64_B_cond (imm OR ucast bits) cond"
| "or_branch_imm bits (a64_CBZ_CBNZ sf op imm rt) = a64_CBZ_CBNZ sf op (imm OR ucast bits) rt"
| "or_branch_imm bits (a64_TBZ_TBNZ b5 op b40 imm rt) = a64_TBZ_TBNZ b5 op b40 (imm OR ucast bits) rt"
| "or_branch_imm bits (a64_word w) = a64_word (w OR push_bit 5 bits)"
| "or_branch_imm bits i = i"

definition is_instruction_position_independent :: "(u32 \<Rightarrow> a64_instruction) \<Rightarrow> a64_inst \<Rightarrow> bool" where
  "is_instruction_position_independent decode i \<longleftrightarrow>
     a64_class decode i \<notin> Some ` {A64_B_BL, A64_Scan.A64_CBZ_CBNZ, A64_B_COND, A64_Scan.A64_TBZ_TBNZ, A64_BR, A64_BLR, A64_RET, A64_LDR_LIT, A64_ADR}"

definition get_cond_branch_attributes :: "(u32 \<Rightarrow> a64_instruction) \<Rightarrow> a64_inst \<Rightarrow> (u32 \<times> int) res" where
  "get_cond_branch_attributes decode i =
     (let c = a64_class decode i in
      if c = Some A64_Scan.A64_CBZ_CBNZ \<or> c = Some A64_B_COND then Ok (NINETEEN_BITS, ONE_MEGABYTE)
      else if c = Some A64_Scan.A64_TBZ_TBNZ then Ok (FOURTEEN_BITS, THIRTY_TWO_KB)
      else Spin)"

section \<open>Scanning a fragment of a trace\<close>

definition active_trace_lookup_or_stub :: "int \<Rightarrow> 'a dbm_thread_scheme \<Rightarrow> uintptr \<Rightarrow> (uintptr \<times> 'a dbm_thread_scheme) res" where
  "active_trace_lookup_or_stub tramp t target =
     res_bind (get_active_trace_spc t) (\<lambda>spc.
     if target = spc then Ok (adjust_cc_entry AArch64 (entry_addr (active_trace t)), t) else lookup_or_stub AArch64 tramp t target)"

definition upd_trace :: "(trace_in_prog \<Rightarrow> trace_in_prog) \<Rightarrow> 'a dbm_thread_scheme \<Rightarrow> 'a dbm_thread_scheme" where
  "upd_trace f t = t\<lparr>active_trace := f (active_trace t)\<rparr>"

text \<open>The length, which is returned as a 32-bit value, the number of the fragment and the thread.\<close>

definition scan_trace ::
    "nat \<Rightarrow> ('c a64_thread_ext, unit) a64_env \<Rightarrow> 'c a64_thread_scheme \<Rightarrow> uintptr \<Rightarrow> cc_type \<Rightarrow> (uintptr \<times> int \<times> 'c a64_thread_scheme) res" where
  "scan_trace fuel env t address ty =
     (let wp = trace_write_p (active_trace t) in
      res_bind (allocate_trace_fragment t) (\<lambda>(id, t).
      res_bind (meta_upd t id (\<lambda>m. m\<lparr>source_addr := address, tpc := wp, branch_cache_status := 0\<rparr>)) (\<lambda>t.
      res_bind (scan_a64 fuel env (cc_global t) t address id ty wp (cc_code t)) (\<lambda>(n, s).
      let t = scanned s in
      Ok (ucast (ucast n :: u32), id, t\<lparr>trace_fragment_count := trace_fragment_count t + 1\<rparr>)))))"

definition align16 :: "uintptr \<Rightarrow> uintptr" where
  "align16 a = (a + 0xF) AND NOT 0xF"

function stubs_fit_loop :: "(u32 \<Rightarrow> a64_instruction) \<Rightarrow> 'c a64_thread_scheme \<Rightarrow> int \<Rightarrow> uintptr \<Rightarrow> bool res" where
  "stubs_fit_loop decode t i exit_stub_addr =
     (if i < free_exit_rec (active_trace t) then
        res_bind (arr_get (exits (active_trace t)) i) (\<lambda>e.
        let exit_stub_addr = align16 exit_stub_addr in
        res_bind (code_at (cc_code t) (exit_from e)) (\<lambda>inst.
        res_bind (get_cond_branch_attributes decode inst) (\<lambda>(mask, max).
        if \<not> is_offset_within_range (sint (exit_stub_addr - exit_from e)) max then Ok False
        else stubs_fit_loop decode t (i + 1) (exit_stub_addr + 16))))
      else Ok True)"
  by pat_completeness auto
termination
  by (relation "measure (\<lambda>(decode, t, i, a). nat (free_exit_rec (active_trace t) - i))") auto

declare stubs_fit_loop.simps [simp del]

definition trace_exit_stubs_fit :: "(u32 \<Rightarrow> a64_instruction) \<Rightarrow> 'c a64_thread_scheme \<Rightarrow> uintptr \<Rightarrow> bool res" where
  "trace_exit_stubs_fit decode t stub_start = stubs_fit_loop decode t 0 stub_start"

section \<open>Installing a trace\<close>

definition upd_code :: "(a64_code \<Rightarrow> a64_code res) \<Rightarrow> 'c a64_thread_scheme \<Rightarrow> 'c a64_thread_scheme res" where
  "upd_code f t = res_bind (f (cc_code t)) (\<lambda>code. Ok (t\<lparr>cc_code := code\<rparr>))"

text \<open>An exit stub whose branch cannot reach the trace is overwritten with two NOPs and a branch.\<close>

definition patch_exit_stub :: "uintptr \<Rightarrow> uintptr \<Rightarrow> 'c a64_thread_scheme \<Rightarrow> 'c a64_thread_scheme res" where
  "patch_exit_stub exit_address target t =
     (let nop = a64_word NOP_INSTRUCTION;
          t = t\<lparr>cc_code := put_inst (exit_address + 4) nop (put_inst exit_address nop (cc_code t))\<rparr> in
      res_bind (addr_to_fragment_id t (exit_address + 8)) (\<lambda>frag.
      res_bind (meta_upd t frag (\<lambda>m. m\<lparr>branch_taken_addr := target\<rparr>)) (\<lambda>t.
      upd_code (a64_b_helper (exit_address + 8) target) t)))"

definition patch_trace_branches ::
    "(u32 \<Rightarrow> a64_instruction) \<Rightarrow> uintptr \<Rightarrow> uintptr \<Rightarrow> 'c a64_thread_scheme \<Rightarrow> 'c a64_thread_scheme res" where
  "patch_trace_branches decode orig_branch target t =
     (let new_offset = sint (target - orig_branch) in
      res_bind (code_at (cc_code t) orig_branch) (\<lambda>i.
      let c = a64_class decode i in
      if c = Some A64_Scan.A64_CBZ_CBNZ then
        let f = cbz_of i in
        if is_offset_within_range new_offset ONE_MEGABYTE then
          Ok (t\<lparr>cc_code := snd (a64_cbz_cbnz_helper orig_branch (cbz_op f \<noteq> 0) target (ucast (cbz_sf f)) (ucast (cbz_rt f)) (cc_code t))\<rparr>)
        else patch_exit_stub (sign_extend64 21 (ucast (push_bit 2 (cbz_imm f))) + orig_branch) target t
      else if c = Some A64_B_COND then
        let (imm, cond) = b_cond_of i in
        if is_offset_within_range new_offset ONE_MEGABYTE then upd_code (a64_b_cond_helper orig_branch target (ucast cond)) t
        else patch_exit_stub (sign_extend64 21 (ucast (push_bit 2 imm)) + orig_branch) target t
      else if c = Some A64_Scan.A64_TBZ_TBNZ then
        let f = tbz_of i in
        if is_offset_within_range new_offset THIRTY_TWO_KB then
          upd_code (a64_tbz_tbnz_helper orig_branch (tbz_op f \<noteq> 0) target (ucast (tbz_rt f)) (push_bit 5 (tbz_b5 f) OR tbz_b40 f)) t
        else patch_exit_stub (sign_extend64 16 (ucast (push_bit 2 (tbz_imm f))) + orig_branch) target t
      else if c = Some A64_B_BL then upd_code (a64_b_helper orig_branch target) t
      else Spin))"

text \<open>The walk over the branches that are recorded to lead to the trace's first block; the fuel bounds the length of the list.\<close>

fun relink_loop :: "nat \<Rightarrow> (u32 \<Rightarrow> a64_instruction) \<Rightarrow> uintptr \<Rightarrow> nat option \<Rightarrow> 'c a64_thread_scheme \<Rightarrow> 'c a64_thread_scheme res" where
  "relink_loop n decode target None t = Ok t"
| "relink_loop 0 decode target (Some c) t = No_Fuel"
| "relink_loop (Suc n) decode target (Some c) t =
     res_bind (arr_get (pool (cc_links t)) (int c)) (\<lambda>cell.
     res_bind (if is_trace t (ll_data cell) then patch_trace_branches decode (ll_data cell) (target + 4) t
               else upd_code (a64_b_helper (ll_data cell) (target + 4)) t) (\<lambda>t.
     relink_loop n decode target (ll_next cell) t))"


text \<open>
  The body of an exit stub: up to two instructions of the target are copied. The loop that is to insert NOPs for the others
  has the condition \<open>k == j\<close> with \<open>k\<close> starting at 2 and \<open>j < 2\<close>: it never runs.
\<close>

fun stub_copy :: "nat \<Rightarrow> (u32 \<Rightarrow> a64_instruction) \<Rightarrow> uintptr \<Rightarrow> uintptr \<Rightarrow> a64_out \<Rightarrow> (uintptr \<times> a64_out) res" where
  "stub_copy 0 decode src target_offset w = Ok (target_offset, w)"
| "stub_copy (Suc n) decode src target_offset w =
     res_bind (code_at (fst w) src) (\<lambda>i.
     if is_instruction_position_independent decode i then stub_copy n decode (src + 4) (target_offset + 4) (emit_inst i w)
     else Ok (target_offset, w))"

definition install_stub ::
    "(u32 \<Rightarrow> a64_instruction) \<Rightarrow> trace_exits \<Rightarrow> uintptr \<Rightarrow> 'c a64_thread_scheme \<Rightarrow> ('c a64_thread_scheme \<times> uintptr) res" where
  "install_stub decode e exit_start t =
     res_bind (allocate_trace_fragment t) (\<lambda>(exit_id, t).
     res_bind (meta_upd t exit_id (\<lambda>m. m\<lparr>tpc := exit_start, exit_branch_type := trace_exit, branch_cache_status := BRANCH_LINKED\<rparr>)) (\<lambda>t.
     res_bind (meta_upd t (exit_fragment_id e) (\<lambda>m. m\<lparr>free_b := word_of_int exit_id\<rparr>)) (\<lambda>t.
     res_bind (stub_copy 2 decode (exit_to e) 0 (cc_code t, exit_start)) (\<lambda>(target_offset, code, stub_addr).
     let target = exit_to e + target_offset in
     res_bind (meta_upd t exit_id (\<lambda>m. m\<lparr>exit_branch_addr := stub_addr, branch_taken_addr := target\<rparr>)) (\<lambda>t.
     res_bind (then_advance (\<lambda>p. a64_b_helper p target) (code, stub_addr)) (\<lambda>w.
     let w = emit_inst (a64_word NOP_INSTRUCTION) w in
     Ok (t\<lparr>cc_code := fst w\<rparr>, snd w)))))))"

definition install_exit ::
    "(u32 \<Rightarrow> a64_instruction) \<Rightarrow> trace_exits \<Rightarrow> uintptr \<Rightarrow> 'c a64_thread_scheme \<Rightarrow> ('c a64_thread_scheme \<times> uintptr) res" where
  "install_exit decode e exit_stub_addr t =
     (let from = exit_from e; exit_start = align16 exit_stub_addr in
      res_bind (code_at (cc_code t) from) (\<lambda>i.
      res_bind (get_cond_branch_attributes decode i) (\<lambda>(mask, max).
      let is_basic_block = (exit_to e < traces_addr t) in
      res_bind (if is_basic_block then record_cc_link t from (exit_to e) else Ok t) (\<lambda>t.
      let offset = sint (exit_to e - from) in
      res_bind (if is_basic_block \<or> \<not> is_offset_within_range offset max
                then res_bind (install_stub decode e exit_start t) (\<lambda>(t, stub_addr). Ok (t, stub_addr, sint (exit_start - from)))
                else Ok (t, exit_start, offset)) (\<lambda>(t, stub_addr, offset).
      res_bind (res_assert (is_offset_within_range offset max)) (\<lambda>_.
      res_bind (code_at (cc_code t) from) (\<lambda>i.
      let bits = word_of_int (drop_bit 2 offset) AND mask in
      Ok (t\<lparr>cc_code := put_inst from (or_branch_imm bits i) (cc_code t)\<rparr>, stub_addr))))))))"

function install_exits :: "(u32 \<Rightarrow> a64_instruction) \<Rightarrow> int \<Rightarrow> int \<Rightarrow> uintptr \<Rightarrow> 'c a64_thread_scheme \<Rightarrow> ('c a64_thread_scheme \<times> uintptr) res" where
  "install_exits decode n i exit_stub_addr t =
     (if i < n then
        res_bind (arr_get (exits (active_trace t)) i) (\<lambda>e.
        res_bind (install_exit decode e exit_stub_addr t) (\<lambda>(t, exit_stub_addr).
        install_exits decode n (i + 1) exit_stub_addr t))
      else Ok (t, exit_stub_addr))"
  by pat_completeness auto
termination
  by (relation "measure (\<lambda>(decode, n, i, a, t). nat (n - i))") auto

declare install_exits.simps [simp del]

text \<open>The encoding of \<open>BRK #0\<close>.\<close>

definition BRK_0 :: u32 where "BRK_0 = 0xD4200000"

definition install_trace :: "(u32 \<Rightarrow> a64_instruction) \<Rightarrow> 'c a64_thread_scheme \<Rightarrow> 'c a64_thread_scheme res" where
  "install_trace decode t =
     (let bb_source = source_bb (active_trace t); target = entry_addr (active_trace t) in
      res_bind (meta_get t bb_source) (\<lambda>m.
      let spc = source_addr m in
      res_bind (res_assert (active (active_trace t))) (\<lambda>_.
      let t = upd_trace (\<lambda>a. a\<lparr>active := False\<rparr>) t in
      res_bind (relink_loop (length (pool (cc_links t))) decode target (linked_from m) t) (\<lambda>t.
      res_bind (hash_add AArch64 (entry_address t) spc target) (\<lambda>(tbl, added).
      let t = t\<lparr>entry_address := tbl\<rparr> in
      res_bind (install_exits decode (free_exit_rec (active_trace t)) 0 (trace_write_p (active_trace t)) t) (\<lambda>(t, exit_stub_addr).
      let t = (upd_trace (\<lambda>a. a\<lparr>trace_write_p := exit_stub_addr\<rparr>) t)\<lparr>trace_id := trace_in_prog_id (active_trace t), trace_cache_next := exit_stub_addr\<rparr> in
      res_bind (meta_get t bb_source) (\<lambda>m.
      Ok (t\<lparr>cc_code := put_inst (tpc m + 4) (a64_word BRK_0) (cc_code t)\<rparr>))))))))"

section \<open>Exits of a trace\<close>

definition trace_record_exit :: "'a dbm_thread_scheme \<Rightarrow> uintptr \<Rightarrow> uintptr \<Rightarrow> int \<Rightarrow> (int \<times> 'a dbm_thread_scheme) res" where
  "trace_record_exit t from to_addr frag =
     (let rec_no = free_exit_rec (active_trace t);
          t = upd_trace (\<lambda>a. a\<lparr>free_exit_rec := rec_no + 1\<rparr>) t in
      if rec_no \<ge> MAX_TRACE_REC_EXITS then Ok (-1, t)
      else res_bind (arr_set (exits (active_trace t)) rec_no \<lparr>exit_from = from, exit_to = to_addr, exit_fragment_id = frag\<rparr>) (\<lambda>xs.
        Ok (0, upd_trace (\<lambda>a. a\<lparr>exits := xs\<rparr>) t)))"

definition trace_exit_inst :: "dbm_code_cache_meta \<Rightarrow> bool \<Rightarrow> a64_inst res" where
  "trace_exit_inst m is_taken =
     (let condition = ucast (branch_condition m) :: u32;
          new_condition = (if is_taken then condition XOR 1 else condition);
          rn = meta_rn m in
      case exit_branch_type m of
        cbz_a64 \<Rightarrow> Ok (a64_CBZ_CBNZ (ucast (drop_bit 5 rn)) (ucast new_condition) 0 (ucast rn))
      | cond_imm_a64 \<Rightarrow> Ok (a64_B_cond 0 (ucast new_condition))
      | tbz_a64 \<Rightarrow> Ok (a64_TBZ_TBNZ (ucast (drop_bit 10 rn)) (ucast new_condition) (ucast (drop_bit 5 rn)) 0 (ucast rn))
      | _ \<Rightarrow> Spin)"

text \<open>The address, in the code cache, behind the exit branch and the thread.\<close>

definition set_up_trace_exit ::
    "int \<Rightarrow> ('c a64_thread_scheme \<Rightarrow> uintptr \<Rightarrow> int \<Rightarrow> 'c a64_thread_scheme res) \<Rightarrow> uintptr \<Rightarrow> int \<Rightarrow> bool \<Rightarrow> 'c a64_thread_scheme \<Rightarrow>
     (uintptr \<times> 'c a64_thread_scheme) res" where
  "set_up_trace_exit tramp scanner wp frag is_taken t =
     res_bind (meta_get t frag) (\<lambda>m.
     res_bind (trace_exit_inst m is_taken) (\<lambda>i.
     let t = t\<lparr>cc_code := put_inst wp i (cc_code t)\<rparr>;
         addr = (if is_taken then branch_skipped_addr m else branch_taken_addr m) in
     res_bind (active_trace_lookup_or_scan AArch64 tramp scanner t addr) (\<lambda>(block_address, t).
     res_bind (trace_record_exit t wp (block_address + 4) frag) (\<lambda>(ret, t).
     res_bind (res_assert (ret = 0)) (\<lambda>_. Ok (wp + 4, t))))))"

section \<open>Starting a trace\<close>

text \<open>The return pair of code cache address and source address; the first is what the caller put there when it is not set.\<close>

definition trace_head_exit :: "branch_type \<Rightarrow> bool" where
  "trace_head_exit ty \<longleftrightarrow> ty \<in> {cbz_a64, tbz_a64, cond_imm_a64, uncond_imm_a64}"

definition create_trace ::
    "int \<Rightarrow> nat \<Rightarrow> ('c a64_thread_ext, unit) a64_env \<Rightarrow> 'c a64_thread_scheme \<Rightarrow> int \<Rightarrow> (uintptr \<times> uintptr \<times> 'c a64_thread_scheme) res" where
  "create_trace tramp fuel env t bb_source =
     (let t = t\<lparr>trace_fragment_count := 0\<rparr> in
      res_bind (meta_get t bb_source) (\<lambda>m.
      if trace_head_exit (exit_branch_type m) then
        let src = source_addr m; align = word_of_int TRACE_ALIGN; align_mask = align - 1;
            t = t\<lparr>trace_cache_next := trace_cache_next t + ((align - (trace_cache_next t AND align_mask)) AND align_mask)\<rparr> in
        if trace_cache_next t \<ge> code_cache t + word_of_int (MAX_BRANCH_RANGE - TRACE_LIMIT_OFFSET) \<or>
           trace_id t \<ge> CODE_CACHE_SIZE + TRACE_FRAGMENT_NO - TRACE_FRAGMENT_OVERP then
          res_bind (flush_code_cache tramp t) (\<lambda>t.
          res_bind (lookup_or_scan AArch64 tramp (a64_scanner fuel env) t src) (\<lambda>(addr, t). Ok (addr, src, t)))
        else
          let trace_entry = trace_cache_next t OR (src AND THUMB);
              t = upd_trace (\<lambda>a. a\<lparr>active := True, trace_in_prog_id := trace_id t, source_bb := bb_source,
                trace_write_p := trace_cache_next t, entry_addr := trace_entry, free_exit_rec := 0\<rparr>) t in
          res_bind (scan_trace fuel env t src mambo_trace_entry) (\<lambda>(fragment_len, id, t).
          res_bind (meta_get t id) (\<lambda>m.
          if trace_head_exit (exit_branch_type m) then Ok (adjust_cc_entry AArch64 trace_entry, src, t) else Spin))
      else Spin))"

section \<open>Growing and closing a trace\<close>

definition early_trace_exit ::
    "(u32 \<Rightarrow> a64_instruction) \<Rightarrow> int \<Rightarrow> uintptr \<Rightarrow> uintptr \<Rightarrow> 'c a64_thread_scheme \<Rightarrow> 'c a64_thread_scheme res" where
  "early_trace_exit decode source_index wp target t =
     res_bind (a64_cc_branch wp (target + 4) (t, cc_code t)) (\<lambda>(t, code).
     res_bind (install_trace decode (upd_trace (\<lambda>a. a\<lparr>trace_write_p := wp + 4\<rparr>) (t\<lparr>cc_code := code\<rparr>))) (\<lambda>t.
     meta_upd t source_index (or_status BOTH_LINKED)))"

text \<open>The exits with \<open>early_trace_exit\<close>: the target is looked up, scanned if need be, and the trace is closed with a branch to it.\<close>

definition close_trace ::
    "int \<Rightarrow> nat \<Rightarrow> ('c a64_thread_ext, unit) a64_env \<Rightarrow> uintptr \<Rightarrow> int \<Rightarrow> uintptr \<Rightarrow> 'c a64_thread_scheme \<Rightarrow> (uintptr \<times> 'c a64_thread_scheme) res" where
  "close_trace tramp fuel env target source_index wp t =
     res_bind (active_trace_lookup_or_scan AArch64 tramp (a64_scanner fuel env) t target) (\<lambda>(addr, t).
     res_bind (early_trace_exit (env_decode env) source_index wp addr t) (\<lambda>t. Ok (addr, t)))"

text \<open>The rest of \<open>trace_dispatcher\<close> once the exit of the last fragment is set up: scan the next fragment, unless the trace has to end.\<close>

definition extend_trace ::
    "int \<Rightarrow> nat \<Rightarrow> ('c a64_thread_ext, unit) a64_env \<Rightarrow> uintptr \<Rightarrow> int \<Rightarrow> uintptr \<Rightarrow> 'c a64_thread_scheme \<Rightarrow> (uintptr \<times> 'c a64_thread_scheme) res" where
  "extend_trace tramp fuel env target source_index next_addr t =
     (let fragment_start = trace_write_p (active_trace t); decode = env_decode env in
      res_bind (scan_trace fuel env t target mambo_trace) (\<lambda>(fragment_len, frag, t).
      let t = upd_trace (\<lambda>a. a\<lparr>trace_write_p := trace_write_p a + fragment_len\<rparr>) t in
      res_bind (trace_exit_stubs_fit decode t (trace_write_p (active_trace t))) (\<lambda>fit.
      if \<not> fit then close_trace tramp fuel env target source_index fragment_start (upd_trace (\<lambda>a. a\<lparr>trace_write_p := fragment_start\<rparr>) t)
      else
        res_bind (meta_get t frag) (\<lambda>m.
        res_bind (if exit_branch_type m = uncond_branch_reg then install_trace decode t else Ok t) (\<lambda>t.
        let wp = trace_write_p (active_trace t) - 4;
            w = a64_pop_pair_reg x0 x1 (cc_code t, wp) in
        res_bind (then_advance (\<lambda>p. a64_b_helper p next_addr) w) (\<lambda>w.
        Ok (snd w - 8, t\<lparr>cc_code := fst w\<rparr>)))))))"

definition trace_dispatcher ::
    "int \<Rightarrow> nat \<Rightarrow> ('c a64_thread_ext, unit) a64_env \<Rightarrow> uintptr \<Rightarrow> int \<Rightarrow> 'c a64_thread_scheme \<Rightarrow> (uintptr \<times> 'c a64_thread_scheme) res" where
  "trace_dispatcher tramp fuel env target source_index t =
     (let scanner = a64_scanner fuel env; decode = env_decode env in
      res_bind (meta_get t source_index) (\<lambda>bb_meta.
      let is_taken = (branch_taken_addr bb_meta = target); t = t\<lparr>was_flushed := False\<rparr>; ty = exit_branch_type bb_meta in
      if ty = uncond_branch_reg then lookup_or_scan AArch64 tramp scanner t target
      else
        res_bind (if ty = cbz_a64 \<or> ty = cond_imm_a64 \<or> ty = tbz_a64 then
                    res_bind (set_up_trace_exit tramp scanner (exit_branch_addr bb_meta) source_index is_taken t) (\<lambda>(wp, t).
                    res_bind (meta_upd t source_index (\<lambda>m. m\<lparr>branch_cache_status := (if is_taken then BRANCH_LINKED else FALLTHROUGH_LINKED)\<rparr>)) (\<lambda>t.
                    Ok (wp, t)))
                  else if ty = uncond_imm_a64 then
                    res_bind (meta_upd t source_index (\<lambda>m. m\<lparr>branch_cache_status := BRANCH_LINKED\<rparr>)) (\<lambda>t. Ok (exit_branch_addr bb_meta, t))
                  else Spin) (\<lambda>(wp, t).
        let next_addr = wp + (target AND THUMB); t = upd_trace (\<lambda>a. a\<lparr>trace_write_p := wp\<rparr>) t in
        if was_flushed t then lookup_or_scan AArch64 tramp scanner t target
        else if wp \<ge> code_cache t + word_of_int (MAX_BRANCH_RANGE - TRACE_LIMIT_OFFSET) then
          close_trace tramp fuel env target source_index wp t
        else
          res_bind (trace_exit_stubs_fit decode t (wp + TRACE_EXIT_STUB_GUARD)) (\<lambda>fit.
          if \<not> fit \<or> trace_fragment_count t > MAX_TRACE_FRAGMENTS then close_trace tramp fuel env target source_index wp t
          else
            res_bind (active_trace_lookup AArch64 t target) (\<lambda>addr.
            if addr \<noteq> UINT_MAX then
              res_bind (early_trace_exit decode source_index wp addr t) (\<lambda>t. Ok (addr, t))
            else extend_trace tramp fuel env target source_index next_addr t)))))"

section \<open>The dispatcher\<close>

definition dispatcher ::
    "int \<Rightarrow> nat \<Rightarrow> ('c a64_thread_ext, unit) a64_env \<Rightarrow> uintptr \<Rightarrow> int \<Rightarrow> 'c a64_thread_scheme \<Rightarrow> (uintptr \<times> 'c a64_thread_scheme) res" where
  "dispatcher tramp fuel env target source_index t =
     res_bind (meta_get t source_index) (\<lambda>m.
     let source_branch_type = exit_branch_type m in
     if source_index \<ge> CODE_CACHE_SIZE then trace_dispatcher tramp fuel env target source_index t
     else
       res_bind (lookup_or_scan AArch64 tramp (a64_scanner fuel env) (t\<lparr>was_flushed := False\<rparr>) target) (\<lambda>(next_addr, t).
       if source_index = 0 \<or> was_flushed t then Ok (next_addr, t)
       else
         res_bind (dispatcher_aarch64 t source_index source_branch_type target next_addr (cc_code t)) (\<lambda>(t, code).
         Ok (next_addr, t\<lparr>cc_code := code\<rparr>))))"

section \<open>Linking in the dispatcher\<close>

text \<open>What linking leaves alone.\<close>

definition links_only :: "'a dbm_thread_scheme \<Rightarrow> 'a dbm_thread_scheme \<Rightarrow> bool" where
  "links_only t t' \<longleftrightarrow> (\<exists>m l. t' = t\<lparr>code_cache_meta := m, cc_links := l\<rparr> \<and> length (pool l) = length (pool (cc_links t)) \<and>
     (\<forall>i. exit_branch_type (m i) = exit_branch_type (code_cache_meta t i) \<and> tpc (m i) = tpc (code_cache_meta t i)))"

lemma links_only_refl [simp, intro]: "links_only t t"
  unfolding links_only_def by (intro exI [of _ "code_cache_meta t"] exI [of _ "cc_links t"]) simp

lemma links_only_trans: "links_only t u \<Longrightarrow> links_only u v \<Longrightarrow> links_only t v"
  unfolding links_only_def by force

lemma links_only_meta:
  "meta_upd t i f = Ok t' \<Longrightarrow> (\<And>m. exit_branch_type (f m) = exit_branch_type m) \<Longrightarrow> (\<And>m. tpc (f m) = tpc m) \<Longrightarrow> links_only t t'"
  unfolding links_only_def meta_upd_def
  by (auto split: if_splits intro!: exI [of _ "(code_cache_meta t)(i := f (code_cache_meta t i))"] exI [of _ "cc_links t"])

lemma arr_set_length: "arr_set xs i x = Ok ys \<Longrightarrow> length ys = length xs"
  by (auto simp: arr_set_def split: if_splits)

lemma linked_list_alloc_length: "linked_list_alloc l = Ok (e, l') \<Longrightarrow> length (pool l') = length (pool l)"
  by (auto simp: linked_list_alloc_def Let_def res_bind_eq_Ok split: option.splits if_splits dest!: arr_set_length)

lemma links_only_record: "record_cc_link t a b = Ok t' \<Longrightarrow> links_only t t'"
proof -
  assume ok: "record_cc_link t a b = Ok t'"
  show ?thesis
  proof (cases "addr_to_bb_id t b < 0")
    case True
    with ok show ?thesis by (simp add: record_cc_link_def)
  next
    case False
    then obtain e l m p where "linked_list_alloc (cc_links t) = Ok (Some e, l)" "arr_set (pool l) (int e) m = Ok p"
        "meta_upd (t\<lparr>cc_links := l\<lparr>pool := p\<rparr>\<rparr>) (addr_to_bb_id t b) (\<lambda>m. m\<lparr>linked_from := Some e\<rparr>) = Ok t'"
      using ok by (auto simp: record_cc_link_def Let_def res_bind_eq_Ok split: option.splits)
    note l = this
    have "links_only t (t\<lparr>cc_links := l\<lparr>pool := p\<rparr>\<rparr>)"
      using arr_set_length [OF l(2)] linked_list_alloc_length [OF l(1)] unfolding links_only_def
      by (intro exI [of _ "code_cache_meta t"] exI [of _ "l\<lparr>pool := p\<rparr>"]) simp
    then show ?thesis by (rule links_only_trans) (rule links_only_meta [OF l(3)], simp_all)
  qed
qed

lemma links_only_cc_branch: "a64_cc_branch p target (t, code) = Ok (t', code') \<Longrightarrow> links_only t t'"
  by (auto simp: a64_cc_branch_def res_bind_eq_Ok intro: links_only_record)

lemma links_only_status: "meta_upd t i (\<lambda>m. m\<lparr>branch_cache_status := g m\<rparr>) = Ok t' \<Longrightarrow> links_only t t'"
  by (erule links_only_meta) simp_all

lemma links_only_dispatcher:
  assumes "dispatcher_aarch64 t si ty target ba code = Ok (t', code')"
  shows "links_only t t'"
  using assms unfolding dispatcher_aarch64_def link_first_def link_second_def or_status_def Let_def
  by (auto simp: res_bind_eq_Ok split: if_splits
      dest!: links_only_cc_branch links_only_status intro: links_only_trans)

lemma links_only_inv:
  assumes "links_only t t'" "cc_inv a tramp t"
  shows "cc_inv a tramp t'" "entry_address t' = entry_address t" "was_flushed t' = was_flushed t"
  using assms(1) cc_invD(6,8) [OF assms(2)] unfolding links_only_def
  by (auto intro!: cc_inv_frame [OF assms(2)])

lemma dispatcher_uncond:
  assumes "dispatcher_aarch64 t si uncond_imm_a64 target ba code = Ok (t', code')" "0 \<le> si" "si < META_SIZE"
    "m = code_cache_meta t si" "exit_branch_type m = uncond_imm_a64"
  shows "exit_linked m code' (\<lambda>_. Some (ba + 4))"
proof -
  obtain u where "a64_cc_branch (exit_branch_addr m) (ba + 4) (t, code) = Ok (u, code')"
    using assms by (auto simp: dispatcher_aarch64_def res_bind_eq_Ok)
  note b = a64_cc_branch_Ok [OF this]
  show ?thesis unfolding exit_linked_def
    using b by (auto intro!: reaches_b simp: put_inst_def)
qed

section \<open>The exits of a trace\<close>

lemma dvd_sint_and_3: "4 dvd w \<Longrightarrow> sint w AND 3 = 0" for w :: uintptr
proof -
  assume "4 dvd w"
  then obtain k where k: "w = push_bit 2 k" by (auto simp: push_bit_eq_mult mult.commute)
  have three: "(3 :: int) = mask 2" by (simp add: mask_eq_exp_minus_1)
  show ?thesis unfolding k three by (intro bit_eqI) (auto simp: bit_simps bit_sint_iff)
qed

lemma imm_bits:
  "(ucast (word_of_int x AND NINETEEN_BITS) :: 19 word) = word_of_int x"
  "(ucast (word_of_int x AND FOURTEEN_BITS) :: 14 word) = word_of_int x"
proof -
  have m: "NINETEEN_BITS = mask 19" "FOURTEEN_BITS = mask 14" by (simp_all add: NINETEEN_BITS_def FOURTEEN_BITS_def mask_eq_exp_minus_1)
  show "(ucast (word_of_int x AND NINETEEN_BITS) :: 19 word) = word_of_int x"
    "(ucast (word_of_int x AND FOURTEEN_BITS) :: 14 word) = word_of_int x"
    unfolding m by (intro bit_word_eqI; auto simp: bit_simps)+
qed

lemma rn_field: "(ucast (rn AND 0x1F :: u32) :: 5 word) = ucast rn"
proof -
  have m: "(0x1F :: u32) = mask 5" by (simp add: mask_eq_exp_minus_1)
  show ?thesis unfolding m by (intro bit_word_eqI) (auto simp: bit_simps)
qed

text \<open>An exit branch with its distance filled in leaves the trace when the recorded direction is not taken.\<close>

lemma exit_branch_cond:
  assumes "exit_branch_type m = cond_imm_a64" "branch_condition m < 14"
    and d: "is_offset_within_range (sint (d - p)) ONE_MEGABYTE" "4 dvd d - p" and s: "pc_reg s = p"
  shows "a64_exec (a64_B_cond (word_of_int (drop_bit 2 (sint (d - p)))) (ucast (if tk then ucast (branch_condition m) XOR 1 else ucast (branch_condition m) :: u32))) s =
    Some (s\<lparr>pc_reg := if exit_taken m s \<noteq> tk then d else p + 4\<rparr>)"
proof -
  let ?c = "ucast (branch_condition m) :: 4 word"
  have bc: "unat (branch_condition m) < 14" using assms(2) by (simp add: word_less_nat_alt)
  then have "unat ?c = unat (branch_condition m)" by (simp add: unsigned_ucast_eq take_bit_nat_eq_self)
  then have c: "?c \<noteq> 14" "?c \<noteq> 15" using bc by auto
  have e: "(ucast (if tk then ucast (branch_condition m) XOR 1 else ucast (branch_condition m) :: u32) :: 4 word) = (if tk then invert_cond ?c else ?c)"
    by (intro bit_word_eqI) (auto simp: invert_cond_def bit_simps)
  have "push_bit 2 (scast (word_of_int (drop_bit 2 (sint (d - p))) :: 19 word)) = d - p"
    using d dvd_sint_and_3 [OF d(2)] by (intro branch_offset) (simp_all add: is_offset_within_range_def ONE_MEGABYTE_def)
  then show ?thesis
    unfolding e using cond_holds_invert [OF c] s assms(1) by (auto simp: a64_exec.simps branch_to next_pc_def exit_taken_def)
qed

lemma exit_branch_cbz:
  assumes "exit_branch_type m = cbz_a64" "branch_condition m < 2"
    and d: "is_offset_within_range (sint (d - p)) ONE_MEGABYTE" "4 dvd d - p" and s: "pc_reg s = p"
  shows "a64_exec (a64_CBZ_CBNZ (ucast (drop_bit 5 (meta_rn m))) (ucast (if tk then ucast (branch_condition m) XOR 1 else ucast (branch_condition m) :: u32))
      (word_of_int (drop_bit 2 (sint (d - p)))) (ucast (meta_rn m))) s =
    Some (s\<lparr>pc_reg := if exit_taken m s \<noteq> tk then d else p + 4\<rparr>)"
proof -
  have e: "(ucast (if tk then ucast (branch_condition m) XOR 1 else ucast (branch_condition m) :: u32) :: 1 word) = 0 \<longleftrightarrow>
      (branch_condition m = 0) \<noteq> tk"
    using two_values [OF assms(2)] by (cases tk) auto
  have "push_bit 2 (scast (word_of_int (drop_bit 2 (sint (d - p))) :: 19 word)) = d - p"
    using d dvd_sint_and_3 [OF d(2)] by (intro branch_offset) (simp_all add: is_offset_within_range_def ONE_MEGABYTE_def)
  then show ?thesis
    using s assms(1) by (auto simp: a64_exec.simps Let_def branch_to next_pc_def exit_taken_def e rn_field)
qed

lemma tbz_bit_number:
  assumes "rn < (2048 :: u32)"
  shows "32 * unat (ucast (drop_bit 10 rn) :: 1 word) + unat (ucast (drop_bit 5 rn) :: 5 word) = unat (drop_bit 5 rn)"
proof -
  define n where "n = unat rn"
  have n: "n < 2048" using assms by (simp add: n_def word_less_nat_alt)
  have "unat (ucast (drop_bit 10 rn) :: 1 word) = n div 1024" "unat (ucast (drop_bit 5 rn) :: 5 word) = (n div 32) mod 32"
      "unat (drop_bit 5 rn) = n div 32"
    using n by (simp_all add: n_def drop_bit_eq_div unat_div_distrib unsigned_ucast_eq take_bit_eq_mod)
  moreover have "n div 1024 = n div 32 div 32" by (simp add: div_mult2_eq [symmetric])
  ultimately show ?thesis by simp
qed

lemma exit_branch_tbz:
  assumes "exit_branch_type m = tbz_a64" "branch_condition m < 2" "meta_rn m < 2048"
    and d: "is_offset_within_range (sint (d - p)) THIRTY_TWO_KB" "4 dvd d - p" and s: "pc_reg s = p"
  shows "a64_exec (a64_TBZ_TBNZ (ucast (drop_bit 10 (meta_rn m))) (ucast (if tk then ucast (branch_condition m) XOR 1 else ucast (branch_condition m) :: u32))
      (ucast (drop_bit 5 (meta_rn m))) (word_of_int (drop_bit 2 (sint (d - p)))) (ucast (meta_rn m))) s =
    Some (s\<lparr>pc_reg := if exit_taken m s \<noteq> tk then d else p + 4\<rparr>)"
proof -
  have e: "(ucast (if tk then ucast (branch_condition m) XOR 1 else ucast (branch_condition m) :: u32) :: 1 word) = 0 \<longleftrightarrow>
      (branch_condition m = 0) \<noteq> tk"
    using two_values [OF assms(2)] by (cases tk) auto
  note n = tbz_bit_number [OF assms(3)]
  have "push_bit 2 (scast (word_of_int (drop_bit 2 (sint (d - p))) :: 14 word)) = d - p"
    using d dvd_sint_and_3 [OF d(2)] by (intro branch_offset) (simp_all add: is_offset_within_range_def THIRTY_TWO_KB_def)
  then show ?thesis
    using s assms(1) by (auto simp: a64_exec.simps Let_def branch_to next_pc_def exit_taken_def e n rn_field)
qed

lemma trace_exit_branches:
  assumes i: "trace_exit_inst m tk = Ok i" and m: "cond_exit m" and a: "get_cond_branch_attributes decode i = Ok (msk, mx)"
    and d: "is_offset_within_range (sint (d - p)) mx" "4 dvd d - p" and s: "pc_reg s = p"
  shows "a64_exec (or_branch_imm (word_of_int (drop_bit 2 (sint (d - p))) AND msk) i) s =
    Some (s\<lparr>pc_reg := if exit_taken m s \<noteq> tk then d else p + 4\<rparr>)"
proof -
  consider "exit_branch_type m = cond_imm_a64" "branch_condition m < 14" | "exit_branch_type m = cbz_a64" "branch_condition m < 2"
    | "exit_branch_type m = tbz_a64" "branch_condition m < 2" "meta_rn m < 2048"
    using m by (auto simp: cond_exit_def)
  then show ?thesis
  proof cases
    case 1
    then have "i = a64_B_cond 0 (ucast (if tk then ucast (branch_condition m) XOR 1 else ucast (branch_condition m) :: u32))" "msk = NINETEEN_BITS" "mx = ONE_MEGABYTE"
      using i a by (auto simp: trace_exit_inst_def Let_def get_cond_branch_attributes_def a64_instructions)
    then show ?thesis using exit_branch_cond [OF 1 _ d(2) s] d(1) by (simp add: imm_bits del: if_split)
  next
    case 2
    then have "i = a64_CBZ_CBNZ (ucast (drop_bit 5 (meta_rn m))) (ucast (if tk then ucast (branch_condition m) XOR 1 else ucast (branch_condition m) :: u32)) 0
        (ucast (meta_rn m))" "msk = NINETEEN_BITS" "mx = ONE_MEGABYTE"
      using i a by (auto simp: trace_exit_inst_def Let_def get_cond_branch_attributes_def a64_instructions)
    then show ?thesis using exit_branch_cbz [OF 2 _ d(2) s] d(1) by (simp add: imm_bits del: if_split)
  next
    case 3
    then have "i = a64_TBZ_TBNZ (ucast (drop_bit 10 (meta_rn m))) (ucast (if tk then ucast (branch_condition m) XOR 1 else ucast (branch_condition m) :: u32))
        (ucast (drop_bit 5 (meta_rn m))) 0 (ucast (meta_rn m))" "msk = FOURTEEN_BITS" "mx = THIRTY_TWO_KB"
      using i a by (auto simp: trace_exit_inst_def Let_def get_cond_branch_attributes_def a64_instructions)
    then show ?thesis using exit_branch_tbz [OF 3 _ d(2) s] d(1) by (simp add: imm_bits del: if_split)
  qed
qed


section \<open>Exit stubs\<close>

text \<open>A stub at \<open>p\<close> for the target: some of its instructions, all of them independent of their position, and a branch behind their originals.\<close>

definition exit_stub :: "(u32 \<Rightarrow> a64_instruction) \<Rightarrow> a64_code \<Rightarrow> a64_inst list \<Rightarrow> uintptr \<Rightarrow> uintptr \<Rightarrow> bool" where
  "exit_stub decode code xs p target \<longleftrightarrow> length xs \<le> 2 \<and> list_all (is_instruction_position_independent decode) xs \<and>
     code_seq code target xs \<and> code_seq code p xs \<and>
     (\<forall>s. pc_reg s = slot p (length xs) \<longrightarrow> reaches code s (s\<lparr>pc_reg := slot target (length xs)\<rparr>))"

lemma code_seq_frame:
  "(\<And>k. k < length xs \<Longrightarrow> code (slot p k) = code' (slot p k)) \<Longrightarrow> code_seq code p xs \<longleftrightarrow> code_seq code' p xs"
proof (induction xs arbitrary: p)
  case (Cons i xs)
  have "code_seq code (p + 4) xs \<longleftrightarrow> code_seq code' (p + 4) xs"
    using Cons.prems [of "Suc _"] by (intro Cons.IH) simp
  then show ?case using Cons.prems [of 0] by simp
qed simp

lemma stub_copy_spec:
  assumes "stub_copy n decode src off w = Ok (off', w')"
  obtains xs where "length xs \<le> n" "list_all (is_instruction_position_independent decode) xs" "w' = emit_seq xs w"
    "off' = off + 4 * of_nat (length xs)"
    "(\<And>k. k < n \<Longrightarrow> \<forall>j < n. slot src k \<noteq> slot (snd w) j) \<Longrightarrow> code_seq (fst w) src xs"
  using assms
proof (induction n arbitrary: src off w thesis)
  case 0
  then show ?case using 0(1) [of "[]"] by simp
next
  case (Suc n)
  from Suc.prems(2) obtain i where i: "fst w src = Some i"
    by (auto simp: code_at_def res_bind_eq_Ok split: option.splits)
  show ?case
  proof (cases "is_instruction_position_independent decode i")
    case False
    then show ?thesis using Suc.prems i by (intro Suc.prems(1) [of "[]"]) (auto simp: code_at_def)
  next
    case True
    then have r: "stub_copy n decode (src + 4) (off + 4) (emit_inst i w) = Ok (off', w')"
      using Suc.prems(2) i by (simp add: code_at_def)
    obtain xs where xs: "length xs \<le> n" "list_all (is_instruction_position_independent decode) xs" "w' = emit_seq xs (emit_inst i w)"
      "off' = off + 4 + 4 * of_nat (length xs)"
      "(\<And>k. k < n \<Longrightarrow> \<forall>j < n. slot (src + 4) k \<noteq> slot (snd (emit_inst i w)) j) \<Longrightarrow> code_seq (fst (emit_inst i w)) (src + 4) xs"
      using Suc.IH [OF _ r] by metis
    show ?thesis
    proof (rule Suc.prems(1) [of "i # xs"])
      assume ap: "\<And>k. k < Suc n \<Longrightarrow> \<forall>j < Suc n. slot src k \<noteq> slot (snd w) j"
      have "\<forall>j < n. slot (src + 4) k \<noteq> slot (snd (emit_inst i w)) j" if "k < n" for k
        using ap [of "Suc k"] that by (auto simp: emit_inst_def)
      then have c: "code_seq (fst (emit_inst i w)) (src + 4) xs" by (rule xs(5))
      have "slot src (Suc k) \<noteq> snd w" if "k < length xs" for k
        using ap [of "Suc k"] that xs(1) by (auto dest!: spec [of _ 0])
      with c have "code_seq (fst w) (src + 4) xs"
        by (subst code_seq_frame [of _ _ _ "fst (emit_inst i w)"]) (auto simp: emit_inst_def put_inst_def)
      then show "code_seq (fst w) src (i # xs)" using i by simp
    qed (use xs True in \<open>auto simp: algebra_simps\<close>)
  qed
qed

text \<open>What installing an exit keeps of the thread.\<close>

definition trace_kept :: "'c a64_thread_scheme \<Rightarrow> 'c a64_thread_scheme \<Rightarrow> bool" where
  "trace_kept t t' \<longleftrightarrow> exits (active_trace t') = exits (active_trace t) \<and> code_cache t' = code_cache t"

lemma trace_kept_meta: "meta_upd t i f = Ok t' \<Longrightarrow> trace_kept t t' \<and> cc_code t' = cc_code t"
  by (auto simp: meta_upd_def trace_kept_def split: if_splits)

lemma trace_kept_record: "record_cc_link t a b = Ok t' \<Longrightarrow> trace_kept t t' \<and> cc_code t' = cc_code t"
  by (drule links_only_record) (auto simp: links_only_def trace_kept_def)

lemma trace_kept_trans: "trace_kept t u \<Longrightarrow> trace_kept u v \<Longrightarrow> trace_kept t v"
  by (simp add: trace_kept_def)

definition stub_code :: "a64_inst list \<Rightarrow> uintptr \<Rightarrow> uintptr \<Rightarrow> a64_inst list" where
  "stub_code xs p target = xs @ [b_inst (slot p (length xs)) (slot target (length xs)) False, a64_word NOP_INSTRUCTION]"

lemma install_stub_spec:
  assumes "install_stub decode e p t = Ok (t', p')"
  obtains xs where "length xs \<le> 2" "list_all (is_instruction_position_independent decode) xs"
    "in_b_range (slot p (length xs)) (slot (exit_to e) (length xs))"
    "cc_code t' = fst (emit_seq (stub_code xs p (exit_to e)) (cc_code t, p))" "p' = slot p (length xs + 2)"
    "(\<And>k. k < 2 \<Longrightarrow> \<forall>j < 2. slot (exit_to e) k \<noteq> slot p j) \<Longrightarrow> code_seq (cc_code t) (exit_to e) xs" "trace_kept t t'"
proof -
  from assms obtain id t1 t2 t3 off code q t4 w where
    a: "allocate_trace_fragment t = Ok (id, t1)"
       "meta_upd t1 id (\<lambda>m. m\<lparr>tpc := p, exit_branch_type := trace_exit, branch_cache_status := BRANCH_LINKED\<rparr>) = Ok t2"
       "meta_upd t2 (exit_fragment_id e) (\<lambda>m. m\<lparr>free_b := word_of_int id\<rparr>) = Ok t3"
       "stub_copy 2 decode (exit_to e) 0 (cc_code t3, p) = Ok (off, code, q)"
       "meta_upd t3 id (\<lambda>m. m\<lparr>exit_branch_addr := q, branch_taken_addr := exit_to e + off\<rparr>) = Ok t4"
       "then_advance (\<lambda>p. a64_b_helper p (exit_to e + off)) (code, q) = Ok w"
       "t' = t4\<lparr>cc_code := fst (emit_inst (a64_word NOP_INSTRUCTION) w)\<rparr>" "p' = snd (emit_inst (a64_word NOP_INSTRUCTION) w)"
    unfolding install_stub_def Let_def by (auto simp: res_bind_eq_Ok)
  have k1: "trace_kept t t1" "cc_code t1 = cc_code t"
    using a(1) by (auto simp: allocate_trace_fragment_def Let_def res_bind_eq_Ok trace_kept_def)
  note k = k1 trace_kept_meta [OF a(2)] trace_kept_meta [OF a(3)] trace_kept_meta [OF a(5)]
  obtain xs where xs: "length xs \<le> 2" "list_all (is_instruction_position_independent decode) xs" "(code, q) = emit_seq xs (cc_code t3, p)"
      "off = 0 + 4 * of_nat (length xs)"
      "(\<And>k. k < 2 \<Longrightarrow> \<forall>j < 2. slot (exit_to e) k \<noteq> slot (snd (cc_code t3, p)) j) \<Longrightarrow> code_seq (fst (cc_code t3, p)) (exit_to e) xs"
    using stub_copy_spec [OF a(4)] by metis
  have q: "q = slot p (length xs)" "exit_to e + off = slot (exit_to e) (length xs)"
    using emit_seq_snd [of xs "(cc_code t3, p)"] xs(4) by (simp_all add: slot_def flip: xs(3))
  have w: "in_b_range q (exit_to e + off)" "w = emit_inst (b_inst q (exit_to e + off) False) (code, q)"
    using a(6) by (auto simp: then_advance_def a64_b_helper_def a64_branch_helper_eq emit_inst_def split: if_splits)
  show thesis
  proof (rule that)
    show "cc_code t' = fst (emit_seq (stub_code xs p (exit_to e)) (cc_code t, p))"
      using a(7) w(2) q k xs(3) [symmetric] by (simp add: stub_code_def)
    show "p' = slot p (length xs + 2)" using a(8) w(2) q by (simp add: emit_inst_def slot_def)
    show "trace_kept t t'" using k a(7) by (simp add: trace_kept_def)
  qed (use xs w(1) q k in auto)
qed


text \<open>The code before the exit branch is completed: unchanged, or with a stub for the exit's target.\<close>

definition stub_placed ::
    "(u32 \<Rightarrow> a64_instruction) \<Rightarrow> uintptr \<Rightarrow> a64_code \<Rightarrow> uintptr \<Rightarrow> a64_inst list \<Rightarrow> a64_code \<Rightarrow> uintptr \<Rightarrow> bool" where
  "stub_placed decode target code p xs code' p' \<longleftrightarrow> length xs \<le> 2 \<and> list_all (is_instruction_position_independent decode) xs \<and>
     in_b_range (slot p (length xs)) (slot target (length xs)) \<and> code' = fst (emit_seq (stub_code xs p target) (code, p)) \<and>
     p' = slot p (length xs + 2) \<and> ((\<forall>k < 2. \<forall>j < 2. slot target k \<noteq> slot p j) \<longrightarrow> code_seq code target xs)"

lemma install_exit_spec:
  assumes "install_exit decode e a t = Ok (t', a')"
  obtains i j msk mx d code where "cc_code t (exit_from e) = Some i" "get_cond_branch_attributes decode i = Ok (msk, mx)"
    "is_offset_within_range (sint (d - exit_from e)) mx" "trace_kept t t'" "code (exit_from e) = Some j"
    "cc_code t' = put_inst (exit_from e) (or_branch_imm (word_of_int (drop_bit 2 (sint (d - exit_from e))) AND msk) j) code"
    "code = cc_code t \<and> d = exit_to e \<and> a' = align16 a \<or> d = align16 a \<and> (\<exists>xs. stub_placed decode (exit_to e) (cc_code t) d xs code a')"
proof -
  from assms obtain i msk mx t1 t2 p offset j where
    a: "cc_code t (exit_from e) = Some i" "get_cond_branch_attributes decode i = Ok (msk, mx)"
       "(if exit_to e < traces_addr t then record_cc_link t (exit_from e) (exit_to e) else Ok t) = Ok t1"
       "(if exit_to e < traces_addr t \<or> \<not> is_offset_within_range (sint (exit_to e - exit_from e)) mx
           then res_bind (install_stub decode e (align16 a) t1) (\<lambda>(t, q). Ok (t, q, sint (align16 a - exit_from e)))
           else Ok (t1, align16 a, sint (exit_to e - exit_from e))) = Ok (t2, a', offset)"
       "is_offset_within_range offset mx" "cc_code t2 (exit_from e) = Some j"
       "t' = t2\<lparr>cc_code := put_inst (exit_from e) (or_branch_imm (word_of_int (drop_bit 2 offset) AND msk) j) (cc_code t2)\<rparr>"
    unfolding install_exit_def Let_def code_at_def res_assert_def
    by (auto simp: res_bind_eq_Ok split: option.splits if_splits)
  have t1: "trace_kept t t1" "cc_code t1 = cc_code t"
    using a(3) trace_kept_record [of t "exit_from e" "exit_to e" t1] by (auto simp: trace_kept_def split: if_splits)
  show thesis
  proof (cases "exit_to e < traces_addr t \<or> \<not> is_offset_within_range (sint (exit_to e - exit_from e)) mx")
    case True
    then have st: "install_stub decode e (align16 a) t1 = Ok (t2, a')" and o: "offset = sint (align16 a - exit_from e)"
      using a(4) by (auto simp: res_bind_eq_Ok)
    obtain xs where xs: "stub_placed decode (exit_to e) (cc_code t) (align16 a) xs (cc_code t2) a'" and k: "trace_kept t1 t2"
      using install_stub_spec [OF st] t1(2) unfolding stub_placed_def by metis
    show thesis
      by (rule that [of i msk mx "align16 a" "cc_code t2" j])
        (use a o t1 xs trace_kept_trans [OF t1(1) k] in \<open>auto simp: trace_kept_def\<close>)
  next
    case False
    then have "t2 = t1" "a' = align16 a" and o: "offset = sint (exit_to e - exit_from e)"
      using a(4) by auto
    then show thesis
      by (intro that [of i msk mx "exit_to e" "cc_code t2" j]) (use a o t1 in \<open>auto simp: trace_kept_def\<close>)
  qed
qed


lemma stub_placed_exit_stub:
  assumes st: "stub_placed decode target code p xs code' p'" and ap: "\<forall>k < 2. \<forall>j < 4. slot target k \<noteq> slot p j"
    and fr0: "\<forall>k < 4. slot p k \<noteq> f" "\<forall>k < 2. slot target k \<noteq> f"
  shows "exit_stub decode (put_inst f i code') xs p target" "code' f = code f"
proof -
  let ?ys = "stub_code xs p target" and ?c = "put_inst f i code'"
  have l: "length xs \<le> 2" "length ?ys \<le> 4" and code': "code' = fst (emit_seq ?ys (code, p))" "code_seq code target xs"
    using st ap by (auto simp: stub_placed_def stub_code_def)
  have "code_seq code' p ?ys" using emit_seq_code [of ?ys "(code, p)"] l code'(1) by simp
  then have p: "code_seq ?c p ?ys"
    by (subst code_seq_frame [of _ _ _ code']) (use l fr0 in \<open>auto simp: put_inst_def\<close>)
  have fr: "code' x = code x" if x: "\<forall>k < 4. slot p k \<noteq> x" for x
  proof -
    have "x \<noteq> slot p k" if "k < length ?ys" for k using x l(2) that by (metis order_less_le_trans)
    then show ?thesis unfolding code'(1) by (subst emit_seq_frame) auto
  qed
  have t: "code_seq ?c target xs"
  proof (subst code_seq_frame [of _ _ _ code])
    fix k assume "k < length xs"
    then have "k < 2" using l(1) by simp
    then have "\<forall>j < 4. slot p j \<noteq> slot target k" "slot target k \<noteq> f" using ap fr0(2) by metis+
    then show "?c (slot target k) = code (slot target k)" by (simp add: put_inst_def fr)
  qed (rule code'(2))
  have "reaches ?c s (s\<lparr>pc_reg := slot target (length xs)\<rparr>)" if "pc_reg s = slot p (length xs)" for s
    using st p that by (intro reaches_b [of "slot p (length xs)"]) (auto simp: stub_placed_def stub_code_def)
  then show "exit_stub decode ?c xs p target"
    using st p t by (auto simp: exit_stub_def stub_placed_def stub_code_def)
  show "code' f = code f" using fr0 by (intro fr) auto
qed

section \<open>The space the exit stubs take\<close>

lemma unat64_less: "unat (w :: uintptr) < 2 ^ 64"
  using unsigned_less [of w] by simp

lemma unat_align16:
  assumes "unat a + 15 < 2 ^ 64"
  shows "unat (align16 a) = 16 * ((unat a + 15) div 16)"
proof -
  have m: "(0xF :: uintptr) = mask 4" by (simp add: mask_eq_exp_minus_1)
  have "align16 a = push_bit 4 (drop_bit 4 (a + 0xF))"
    unfolding align16_def m by (intro bit_word_eqI) (auto simp: bit_simps)
  moreover have "unat (a + 0xF) = unat a + 15" using assms by (simp add: unat_word_ariths)
  moreover have "unat (push_bit 4 (drop_bit 4 w)) = 16 * (unat w div 16)" for w :: uintptr
  proof -
    have "16 * (unat w div 16) < 2 ^ 64" using unat64_less [of w] by simp
    then show ?thesis by (simp add: push_bit_eq_mult drop_bit_eq_div unat_word_ariths unat_div_distrib)
  qed
  ultimately show ?thesis by simp
qed

lemma unat_slot: "unat p + 4 * n < 2 ^ 64 \<Longrightarrow> unat (slot p n) = unat p + 4 * n"
  by (simp add: slot_def unat_word_ariths unat_of_nat)

lemma install_exit_space:
  assumes ok: "install_exit decode e a t = Ok (t', a')" and sp: "unat a + 31 < 2 ^ 64"
  shows "unat a \<le> unat a'" "unat a' \<le> unat (align16 a) + 16"
    "x \<noteq> exit_from e \<Longrightarrow> unat x < unat a \<or> unat (align16 a) + 16 \<le> unat x \<Longrightarrow> cc_code t' x = cc_code t x"
    "trace_kept t t'"
proof -
  obtain i j msk mx d code where s: "cc_code t (exit_from e) = Some i" "get_cond_branch_attributes decode i = Ok (msk, mx)"
      "is_offset_within_range (sint (d - exit_from e)) mx" "trace_kept t t'" "code (exit_from e) = Some j"
      "cc_code t' = put_inst (exit_from e) (or_branch_imm (word_of_int (drop_bit 2 (sint (d - exit_from e))) AND msk) j) code"
      "code = cc_code t \<and> d = exit_to e \<and> a' = align16 a \<or> d = align16 a \<and> (\<exists>xs. stub_placed decode (exit_to e) (cc_code t) d xs code a')"
    by (rule install_exit_spec [OF ok])
  let ?a = "align16 a"
  have a: "unat a \<le> unat ?a" "unat ?a + 16 < 2 ^ 64" using unat_align16 [of a] sp by auto
  show "trace_kept t t'" by (rule s(4))
  show "unat a \<le> unat a'" "unat a' \<le> unat ?a + 16"
    using s(7) a by (auto simp: stub_placed_def unat_slot)
  assume x: "x \<noteq> exit_from e" "unat x < unat a \<or> unat ?a + 16 \<le> unat x"
  have "code x = cc_code t x"
  proof (cases "code = cc_code t")
    case False
    then obtain xs where xs: "length xs \<le> 2" "code = fst (emit_seq (stub_code xs ?a (exit_to e)) (cc_code t, ?a))"
      using s(7) by (auto simp: stub_placed_def)
    have "x \<noteq> slot ?a k" if "k < length (stub_code xs ?a (exit_to e))" for k
      using that xs(1) a x(2) unat_slot [of ?a k] by (auto simp: stub_code_def)
    then show ?thesis unfolding xs(2) by (subst emit_seq_frame) auto
  qed simp
  then show "cc_code t' x = cc_code t x" using s(6) x(1) by (simp add: put_inst_def)
qed

lemma install_exits_confined:
  assumes "install_exits decode n i a t = Ok (t', a')" "0 \<le> i" "i \<le> n" "16 * ((unat a + 15) div 16) + 16 * nat (n - i) + 15 < 2 ^ 64"
  shows "unat a \<le> unat a' \<and> unat a' \<le> unat (align16 a) + 16 * nat (n - i) \<and>
    (\<forall>x. x \<notin> (\<lambda>k. exit_from (exits (active_trace t) ! nat k)) ` {i..<n} \<and>
      (unat x < unat a \<or> unat (align16 a) + 16 * nat (n - i) \<le> unat x) \<longrightarrow> cc_code t' x = cc_code t x)"
  using assms
proof (induction decode n i a t rule: install_exits.induct)
  case (1 decode n i a t)
  show ?case
  proof (cases "i < n")
    case False
    then show ?thesis using 1(2,5) unat_align16 [of a] by (simp add: install_exits.simps) 
  next
    case True
    then obtain e u b where e: "arr_get (exits (active_trace t)) i = Ok e" "install_exit decode e a t = Ok (u, b)"
        "install_exits decode n (i + 1) b u = Ok (t', a')"
      using 1(2) by (subst (asm) install_exits.simps) (auto simp: res_bind_eq_Ok)
    have n: "nat (n - i) = Suc (nat (n - (i + 1)))" using True by simp
    have sp: "unat a + 31 < 2 ^ 64" using 1(5) n by simp
    note st = install_exit_space [OF e(2) sp]
    have al: "unat (align16 a) = 16 * ((unat a + 15) div 16)" using sp by (intro unat_align16) simp
    have b16: "(unat b + 15) div 16 \<le> (unat a + 15) div 16 + 1"
      using div_le_mono [of "unat b + 15" "16 * ((unat a + 15) div 16 + 1) + 15" 16] st(2) al by simp
    then have b: "16 * ((unat b + 15) div 16) + 16 * nat (n - (i + 1)) + 15 < 2 ^ 64" using 1(5) n by simp
    have alb: "unat (align16 b) \<le> unat (align16 a) + 16" using b16 al unat_align16 [of b] b by simp
    have ex: "exits (active_trace u) = exits (active_trace t)" "e = exits (active_trace t) ! nat i"
      using st(4) e(1) by (auto simp: trace_kept_def arr_get_def split: if_splits)
    have ih: "unat b \<le> unat a'" "unat a' \<le> unat (align16 b) + 16 * nat (n - (i + 1))"
      "\<And>x. x \<notin> (\<lambda>k. exit_from (exits (active_trace t) ! nat k)) ` {i + 1..<n} \<Longrightarrow>
        unat x < unat b \<or> unat (align16 b) + 16 * nat (n - (i + 1)) \<le> unat x \<Longrightarrow> cc_code t' x = cc_code u x"
      using 1(1) [OF True e(1) e(2) refl e(3) _ _ b] 1(3) True ex(1) by auto
    show ?thesis
    proof (intro conjI allI impI)
      show "unat a \<le> unat a'" using ih(1) st(1) by simp
      show "unat a' \<le> unat (align16 a) + 16 * nat (n - i)" using ih(2) alb n by simp
      fix x assume x: "x \<notin> (\<lambda>k. exit_from (exits (active_trace t) ! nat k)) ` {i..<n} \<and>
        (unat x < unat a \<or> unat (align16 a) + 16 * nat (n - i) \<le> unat x)"
      then have "cc_code t' x = cc_code u x" using alb n st(1) by (intro ih(3)) auto
      also have "\<dots> = cc_code t x" using x n True ex(2) by (intro st(3)) auto
      finally show "cc_code t' x = cc_code t x" .
    qed
  qed
qed

section \<open>Scanning into the trace cache\<close>

definition trace_growing :: "'a dbm_thread_scheme \<Rightarrow> bool" where
  "trace_growing t \<longleftrightarrow> traces_ascend t \<and>
     (\<forall>i. CODE_CACHE_SIZE \<le> i \<and> i < trace_in_prog_id (active_trace t) \<longrightarrow> tpc (code_cache_meta t i) \<le> trace_write_p (active_trace t))"

lemma scan_trace_spec:
  assumes ok: "scan_trace fuel env t address ty = Ok (n, frag, t')" and np: "free_plugin (cc_global t) = 0"
  shows "frag = trace_in_prog_id (active_trace t)" "0 \<le> frag" "frag < META_SIZE" "code_cache t' = code_cache t"
    "active_trace t' = (active_trace t)\<lparr>trace_in_prog_id := frag + 1\<rparr>"
    "tpc (code_cache_meta t' i) = (if i = frag then trace_write_p (active_trace t) else tpc (code_cache_meta t i))"
proof -
  let ?wp = "trace_write_p (active_trace t)"
  from ok obtain t1 t2 k s where a: "allocate_trace_fragment t = Ok (frag, t1)"
      "meta_upd t1 frag (\<lambda>m. m\<lparr>source_addr := address, tpc := ?wp, branch_cache_status := 0\<rparr>) = Ok t2"
      "scan_a64 fuel env (cc_global t2) t2 address frag ty ?wp (cc_code t2) = Ok (k, s)"
      "t' = (scanned s)\<lparr>trace_fragment_count := trace_fragment_count (scanned s) + 1\<rparr>"
    unfolding scan_trace_def Let_def by (auto simp: res_bind_eq_Ok)
  have t1: "frag = trace_in_prog_id (active_trace t)" "t1 = t\<lparr>active_trace := (active_trace t)\<lparr>trace_in_prog_id := frag + 1\<rparr>\<rparr>"
    using a(1) by (auto simp: allocate_trace_fragment_def Let_def res_bind_eq_Ok)
  have t2: "0 \<le> frag" "frag < META_SIZE"
      "t2 = t1\<lparr>code_cache_meta := (code_cache_meta t1)(frag := (code_cache_meta t1 frag)\<lparr>source_addr := address, tpc := ?wp, branch_cache_status := 0\<rparr>)\<rparr>"
    using a(2) by (auto simp: meta_upd_def split: if_splits)
  have "free_plugin (cc_global t2) = 0" using np t1 t2 by simp
  from scan_a64_grows(1) [OF this a(3)] obtain m fb where s: "sc_thread s = t2\<lparr>code_cache_meta := m, free_block := fb\<rparr>"
      "\<And>i. tpc (m i) = tpc (code_cache_meta t2 i)"
    by (elim thread_growsE) blast
  show "frag = trace_in_prog_id (active_trace t)" "0 \<le> frag" "frag < META_SIZE" using t1 t2 by simp_all
  show "code_cache t' = code_cache t" "active_trace t' = (active_trace t)\<lparr>trace_in_prog_id := frag + 1\<rparr>"
      "tpc (code_cache_meta t' i) = (if i = frag then ?wp else tpc (code_cache_meta t i))"
    using a(4) s t2 t1 by (simp_all add: scanned_def)
qed

text \<open>A fragment of one direct branch is scanned to the end.\<close>

lemma scan_loop_branch:
  assumes near: "near (sc_write s) (dispatcher_addr (sc_thread s))" and bb: "0 \<le> bb" "bb < META_SIZE" and np: "free_plugin (sc_global s) = 0"
    and i: "env_decode env (env_guest env (sc_read s)) = A64_B_BL" and go: "\<not> sc_stop s" and room: "unat (sc_write s) + 60 < unat (sc_data s)"
  obtains s' where "a64_scan_loop (Suc n) env bb ty start s = Ok s'" "sc_global s' = sc_global s"
proof -
  let ?xs = "bl_exit_seq (sc_thread s) bb (sc_read s) (env_guest env (sc_read s)) (sc_write s)"
  obtain u where u: "scan_b_bl env bb s = Ok u" "sc_stop u" "(sc_code u, sc_write u) = emit_seq ?xs (sc_code s, sc_write s)"
      "sc_data u = sc_data s" "sc_global u = sc_global s"
    using scan_b_bl_emits [OF near bb refl refl refl] by blast
  have w: "sc_write u = slot (sc_write s) (length ?xs)"
    using emit_seq_snd [of ?xs "(sc_code s, sc_write s)"] by (simp flip: u(3))
  have "length ?xs \<le> 15" by (rule bl_exit_length)
  then have l: "4 * length ?xs \<le> 60" by simp
  then have "unat (sc_write u) = unat (sc_write s) + 4 * length ?xs"
    unfolding w using room unat64_less [of "sc_data s"] by (intro unat_slot) simp
  then have "\<not> sc_data u \<le> sc_write u" using l room u(4) by (simp add: word_le_nat_alt)
  moreover have "a64_scan_inst env bb ty start A64_B_BL s = Ok u" using u(1) by (simp add: a64_scan_inst_def a64_instructions)
  ultimately have "a64_scan_round env bb ty start s = Ok (u\<lparr>sc_read := sc_read u + 4\<rparr>)"
    using np u(2,5) by (simp add: a64_scan_round_def Let_def no_plugins_deliver i)
  then have "a64_scan_loop (Suc n) env bb ty start s = Ok (u\<lparr>sc_read := sc_read u + 4\<rparr>)"
    using go u(2) by (subst a64_scan_loop.simps) (simp, subst a64_scan_loop.simps, simp)
  then show thesis by (rule that) (simp add: u(5))
qed

lemma scan_trace_branch:
  assumes frag: "frag = trace_in_prog_id (active_trace t)" "0 \<le> frag" "frag < META_SIZE" and np: "free_plugin (cc_global t) = 0"
    and i: "env_decode env (env_guest env address) = A64_B_BL" and wp: "wp = trace_write_p (active_trace t)" "wp \<noteq> 0"
    and near: "near wp (dispatcher_addr t)" and room: "unat wp + 60 < unat (traces_addr t + word_of_int TRACE_CACHE_SIZE)"
  obtains n t' where "scan_trace (Suc fuel) env t address mambo_trace = Ok (n, frag, t')"
proof -
  define m where "m = (code_cache_meta t frag)\<lparr>source_addr := address, tpc := wp, branch_cache_status := 0\<rparr>"
  define u where "u = t\<lparr>active_trace := (active_trace t)\<lparr>trace_in_prog_id := frag + 1\<rparr>, code_cache_meta := (code_cache_meta t)(frag := m)\<rparr>"
  define s where "s = \<lparr>sc_thread = u\<lparr>code_cache_meta := (code_cache_meta u)(frag := m\<lparr>free_b := 0\<rparr>)\<rparr>, sc_global = cc_global t, sc_code = cc_code t,
    sc_read = address, sc_bb_entry = address, sc_write = wp, sc_data = traces_addr t + word_of_int TRACE_CACHE_SIZE, sc_stop = False\<rparr>"
  have s: "sc_write s = wp" "dispatcher_addr (sc_thread s) = dispatcher_addr t" "sc_global s = cc_global t" "sc_read s = address"
      "\<not> sc_stop s" "sc_data s = traces_addr t + word_of_int TRACE_CACHE_SIZE" "s\<lparr>sc_read := address\<rparr> = s"
    by (simp_all add: s_def u_def)
  obtain s' where l: "a64_scan_loop (Suc fuel) env frag mambo_trace address s = Ok s'" "sc_global s' = cc_global t"
    using scan_loop_branch [where s = s and env = env and bb = frag and n = fuel and ty = mambo_trace and start = address]
      frag np i near room s(5) unfolding s by blast
  have al: "allocate_trace_fragment t = Ok (frag, t\<lparr>active_trace := (active_trace t)\<lparr>trace_in_prog_id := frag + 1\<rparr>\<rparr>)"
    using frag by (simp add: allocate_trace_fragment_def Let_def res_assert_def META_SIZE_def)
  have "scan_a64 (Suc fuel) env (cc_global t) u address frag mambo_trace wp (cc_code t) = Ok (sc_write s' - wp + 4, s')"
  proof -
    have "sc_meta frag (\<lambda>m. m\<lparr>free_b := 0\<rparr>) \<lparr>sc_thread = u, sc_global = cc_global t, sc_code = cc_code t,
      sc_read = address, sc_bb_entry = address, sc_write = wp, sc_data = traces_addr t + word_of_int TRACE_CACHE_SIZE, sc_stop = False\<rparr> = Ok s"
      using frag by (simp add: sc_meta_def s_def u_def m_def)
    moreover have "traces_addr u = traces_addr t" by (simp add: u_def traces_addr_def)
    ultimately show ?thesis
      using wp(2) np l i s(1-6) by (simp add: s(7) scan_a64_def Let_def no_plugins_deliver)
  qed
  moreover have "meta_upd (t\<lparr>active_trace := (active_trace t)\<lparr>trace_in_prog_id := frag + 1\<rparr>\<rparr>) frag
      (\<lambda>m. m\<lparr>source_addr := address, tpc := wp, branch_cache_status := 0\<rparr>) = Ok u"
    using frag by (simp add: u_def m_def)
  ultimately show thesis
    using al by (intro that) (simp add: scan_trace_def Let_def wp(1) [symmetric] u_def)
qed

section \<open>Properties\<close>

text \<open>C1: Dispatching from a block translates the target and links the block to it: the code cache stays consistent, the returned
  address is the one the table holds for the target, and unless the code cache was flushed on the way, control that leaves the
  block in the dispatched direction from now on reaches the target's code directly, with every register as it was.\<close>

theorem dispatcher_links_blocks:
  assumes inv: "cc_inv AArch64 tramp t" and np: "free_plugin (cc_global t) = 0" and tgt: "target \<noteq> 0" and si: "0 < si" "si < free_block t"
    and ok: "dispatcher tramp fuel env target si t = Ok (addr, t')" and m: "m = code_cache_meta t si"
  shows "cc_inv AArch64 tramp t' \<and> hash_view (entry_address t') target = Some addr \<and>
    (\<not> was_flushed t' \<longrightarrow>
      (exit_branch_type m = uncond_imm_a64 \<longrightarrow> exit_linked m (cc_code t') (\<lambda>_. Some (addr + 4))) \<and>
      (cond_exit m \<and> branch_cache_status m = 0 \<longrightarrow>
        (\<exists>other. exit_linked m (cc_code t') (\<lambda>d. if d = (target = branch_taken_addr m) then Some (addr + 4) else other))))"
proof -
  have r: "0 \<le> si" "si < CODE_CACHE_SIZE" "si < META_SIZE"
    using si cc_invD(6) [OF inv] by (auto simp: META_SIZE_def TRACE_FRAGMENT_NO_def)
  let ?t = "t\<lparr>was_flushed := False\<rparr>"
  have inv': "cc_inv AArch64 tramp ?t"
    using cc_invD(6,8) [OF inv] by (intro cc_inv_frame [OF inv]) auto
  have np': "no_plugins (dbm_thread.more ?t)" using np by (simp add: no_plugins_more)
  obtain u where u: "lookup_or_scan AArch64 tramp (a64_scanner fuel env) ?t target = Ok (addr, u)"
    and rest: "(if was_flushed u then Ok (addr, u) else
      res_bind (dispatcher_aarch64 u si (exit_branch_type m) target addr (cc_code u)) (\<lambda>(t, code). Ok (addr, t\<lparr>cc_code := code\<rparr>))) = Ok (addr, t')"
    using ok r si(1) unfolding dispatcher_def Let_def m by (auto simp: res_bind_eq_Ok split: if_splits)
  note st = a64.lookup_or_scan_stable [OF inv' tgt u np']
  show ?thesis
  proof (cases "was_flushed u")
    case True
    then show ?thesis using rest st by simp
  next
    case False
    then obtain v code where v: "dispatcher_aarch64 u si (exit_branch_type m) target addr (cc_code u) = Ok (v, code)" "t' = v\<lparr>cc_code := code\<rparr>"
      using rest by (auto simp: res_bind_eq_Ok)
    have mu: "code_cache_meta u si = m"
      using a64.lookup_or_scan_frame [OF inv' tgt np' u False] si(2) m by simp
    have "cc_inv AArch64 tramp u" using st by simp
    note lo = links_only_inv [OF links_only_dispatcher [OF v(1)] this]
    have "cc_inv AArch64 tramp t'"
      using cc_invD(6,8) [OF lo(1)] by (intro cc_inv_frame [OF lo(1)]) (simp_all add: v(2))
    moreover have "exit_branch_type m = uncond_imm_a64 \<Longrightarrow> exit_linked m code (\<lambda>_. Some (addr + 4))"
      using dispatcher_uncond [OF _ r(1,3) mu [symmetric]] v(1) by simp
    moreover have "\<exists>other. exit_linked m code (\<lambda>d. if d = (target = branch_taken_addr m) then Some (addr + 4) else other)"
      if "cond_exit m" "branch_cache_status m = 0"
      using first_link_linked(1) [OF dispatcher_first_link(1) [of u si target addr "cc_code u" v code]] that r v(1) unfolding mu by blast
    ultimately show ?thesis using st lo(2) by (simp add: v(2))
  qed
qed

text \<open>Block 5 ends in a direct branch to the address 0x1004, which is translated.\<close>

definition linking_thread :: a64_thread where
  "linking_thread = cached_thread\<lparr>code_cache_meta := (code_cache_meta cached_thread)(5 := (code_cache_meta cached_thread 5)\<lparr>
     exit_branch_type := uncond_imm_a64, exit_branch_addr := 0x50000540\<rparr>)\<rparr>"

lemma linking_thread_inv: "cc_inv AArch64 1 linking_thread"
  using cc_invD(6,8) [OF cached_thread_inv(1)] by (intro cc_inv_frame [OF cached_thread_inv(1)]) (auto simp: linking_thread_def)

theorem dispatcher_links_blocks_witness:
  "\<exists>t'. dispatcher 1 10 call_env 0x1004 5 linking_thread = Ok (0x50020000, t') \<and>
     (\<forall>s. pc_reg s = 0x50000540 \<longrightarrow> reaches (cc_code t') s (s\<lparr>pc_reg := 0x50020004\<rparr>))"
proof -
  let ?t = "linking_thread\<lparr>was_flushed := False\<rparr>" and ?m = "code_cache_meta linking_thread 5"
  have inv: "cc_inv AArch64 1 ?t"
    using cc_invD(6,8) [OF linking_thread_inv] by (intro cc_inv_frame [OF linking_thread_inv]) auto
  have f: "free_plugin (cc_global linking_thread) = 0" "free_block linking_thread = 600" "code_cache linking_thread = 0x50000000"
      "entry_address linking_thread = entry_address cached_thread" "cc_links linking_thread = cc_links fresh_thread"
    by (simp_all add: linking_thread_def cached_thread_def dbm_thread.defs a64_thread.defs no_plugin_def fresh_thread_def witness_thread_def)
  have m: "exit_branch_type ?m = uncond_imm_a64" "exit_branch_addr ?m = 0x50000540" by (simp_all add: linking_thread_def)
  have "hash_view (entry_address ?t) 0x1004 = Some 0x50020000" using cached_thread_inv(2) by (simp add: f)
  from a64.lookup_cached_hit(2) [OF inv _ this, of 10 call_env]
  have look: "lookup_or_scan AArch64 1 (a64_scanner 10 call_env) ?t 0x1004 = Ok (0x50020000, ?t)"
    by (simp add: lookup_or_scan_def)
  have "blocks_addr ?t 512 + word_of_int 4 = 0x50020004" by (simp add: blocks_addr_def f cc_sizes)
  with addr_to_bb_id_block [OF cc_invD(2) [OF inv], of 512 4] have id: "addr_to_bb_id ?t 0x50020004 = 512" by (simp add: cc_sizes)
  have pool: "pool_ok (cc_links ?t) (0 # [1 ..< nat MAX_CC_LINKS])" using fresh_thread_pool by (simp add: f)
  obtain l where l: "record_cc_link ?t 0x50000540 0x50020004 = Ok (?t\<lparr>cc_links := l,
      code_cache_meta := (code_cache_meta ?t)(512 := (code_cache_meta ?t 512)\<lparr>linked_from := Some 0\<rparr>)\<rparr>)"
    using record_cc_link_eq [OF cc_invD(2) [OF inv] _ _ id pool, of "0x50000540"] by (auto simp: cc_sizes)
  have range: "in_b_range 0x50000540 0x50020004" by code_simp
  have meta: "(5 :: int) < META_SIZE" by (simp add: cc_sizes)
  obtain t' where t': "dispatcher 1 10 call_env 0x1004 5 linking_thread = Ok (0x50020000, t')" "\<not> was_flushed t'"
    using look l range meta m
    by (auto simp: dispatcher_def Let_def CODE_CACHE_SIZE_def dispatcher_aarch64_def a64_cc_branch_def a64_b_helper_def a64_branch_helper_eq)
  from dispatcher_links_blocks [OF linking_thread_inv f(1) _ _ _ t'(1) refl] t'(2) m
  have "exit_linked ?m (cc_code t') (\<lambda>_. Some 0x50020004)" by (simp add: f)
  then show ?thesis using t'(1) m by (auto simp: exit_linked_def)
qed

text \<open>C35: A fragment scanned into the trace cache gets the next fragment number, keeps the start addresses of the trace fragments
  ascending, and every address of the trace cache from its start on is attributed to it.\<close>

theorem scan_trace_attributed:
  assumes lay: "cc_layout t" and gr: "trace_growing t" and np: "free_plugin (cc_global t) = 0"
    and ok: "scan_trace fuel env t address ty = Ok (n, frag, t')"
  shows "trace_growing t' \<and> frag = trace_in_prog_id (active_trace t) \<and>
    (\<forall>addr. is_trace t' addr \<and> addr \<noteq> traces_addr t' \<and> trace_write_p (active_trace t) \<le> addr \<longrightarrow> addr_to_fragment_id t' addr = Ok frag)"
proof -
  note s = scan_trace_spec [OF ok np]
  have g: "trace_growing t'"
    using gr s(1-3) unfolding trace_growing_def traces_ascend_def by (auto simp: s(4-6) traces_addr_def)
  have lay': "cc_layout t'" using lay by (simp add: cc_layout_def s(4))
  have "addr_to_fragment_id t' addr = Ok frag"
    if ad: "is_trace t' addr" "addr \<noteq> traces_addr t'" "trace_write_p (active_trace t) \<le> addr" for addr
  proof -
    obtain k where k: "addr_to_fragment_id t' addr = Ok k" "trace_fragment_at t' addr k"
      using addr_to_fragment_id_trace [OF lay' _ ad(1,2)] g by (auto simp: trace_growing_def)
    have "\<not> k + 1 \<le> frag"
    proof
      assume "k + 1 \<le> frag"
      then have "tpc (code_cache_meta t' (k + 1)) \<le> trace_write_p (active_trace t')"
        using g k(2) s(5) by (auto simp: trace_growing_def trace_fragment_at_def)
      then show False using k(2) \<open>k + 1 \<le> frag\<close> ad(3) s(5) by (auto simp: trace_fragment_at_def)
    qed
    then show ?thesis using k s(5) by (auto simp: trace_fragment_at_def)
  qed
  with g s(1) show ?thesis by blast
qed

text \<open>A thread with one trace fragment, about to scan the call of the example guest behind it.\<close>

definition tracing_thread :: a64_thread where
  "tracing_thread = dbm_thread.extend (witness_thread\<lparr>active_trace := (active_trace witness_thread)\<lparr>trace_in_prog_id := 55001, trace_write_p := 0x50D6D900\<rparr>,
     code_cache_meta := (code_cache_meta witness_thread)(55000 := (code_cache_meta witness_thread 55000)\<lparr>tpc := 0x50D6D800\<rparr>)\<rparr>)
     (a64_thread.fields Map.empty no_plugin)"

theorem scan_trace_attributed_witness:
  "\<exists>n t'. scan_trace (Suc 2) call_env tracing_thread 0x400008 mambo_trace = Ok (n, 55001, t') \<and> addr_to_fragment_id t' 0x50D6D904 = Ok 55001"
proof -
  have "code_cache tracing_thread = 0x50000000" "trace_write_p (active_trace tracing_thread) = 0x50D6D900"
      "trace_in_prog_id (active_trace tracing_thread) = 55001" "tpc (code_cache_meta tracing_thread 55000) = 0x50D6D800"
      "free_plugin (cc_global tracing_thread) = 0" "dispatcher_addr tracing_thread = 0x50000000"
    by (simp_all add: tracing_thread_def dbm_thread.defs a64_thread.defs no_plugin_def witness_thread_def)
  note f = this
  have d: "env_decode call_env (env_guest call_env 0x400008) = A64_B_BL" by (simp add: call_env_def call_guest_def)
  have near: "near 0x50D6D900 (dispatcher_addr tracing_thread)" unfolding f by code_simp
  obtain n t' where ok: "scan_trace (Suc 2) call_env tracing_thread 0x400008 mambo_trace = Ok (n, 55001, t')"
    by (rule scan_trace_branch [of 55001 tracing_thread call_env "0x400008" "0x50D6D900" 2])
       (use near d in \<open>simp_all add: f traces_addr_def cc_sizes\<close>)
  have lay: "cc_layout tracing_thread" by (simp add: cc_layout_def f cc_sizes)
  have one: "55000 \<le> i \<and> i < 55001 \<longleftrightarrow> i = 55000" "55000 \<le> i \<and> i \<le> j \<and> j < 55001 \<longleftrightarrow> i = 55000 \<and> j = 55000" for i j :: int by auto
  have gr: "trace_growing tracing_thread"
    by (simp add: trace_growing_def traces_ascend_def f CODE_CACHE_SIZE_def one) (simp add: f cc_sizes traces_addr_def)
  note r = scan_trace_attributed [OF lay gr f(5) ok]
  have cc: "code_cache t' = 0x50000000" using scan_trace_spec(4) [OF ok f(5)] f(1) by simp
  have "is_trace t' 0x50D6D904" "traces_addr t' \<noteq> 0x50D6D904" by (simp_all add: is_trace_def traces_addr_def cc cc_sizes)
  then show ?thesis using r ok f(2) by auto
qed

text \<open>C36: An exit of a trace, once installed, is left exactly when the direction recorded in the trace is not the one taken: the
  completed branch goes to the exit's target, or to a stub with up to two position-independent instructions of the target
  followed by a branch behind their originals.\<close>

theorem install_exit_leaves:
  assumes ok: "install_exit decode e a t = Ok (t', a')" and m: "cond_exit m"
    and i: "trace_exit_inst m tk = Ok i" "cc_code t (exit_from e) = Some i"
    and al: "4 dvd exit_to e - exit_from e" "4 dvd align16 a - exit_from e"
    and ap: "\<forall>k < 4. slot (align16 a) k \<noteq> exit_from e" "\<forall>k < 2. slot (exit_to e) k \<noteq> exit_from e"
      "\<forall>k < 2. \<forall>j < 4. slot (exit_to e) k \<noteq> slot (align16 a) j"
  shows "\<exists>d. (\<forall>s. pc_reg s = exit_from e \<longrightarrow>
        reaches (cc_code t') s (s\<lparr>pc_reg := if exit_taken m s \<noteq> tk then d else exit_from e + 4\<rparr>)) \<and>
      (d = exit_to e \<or> d = align16 a \<and> (\<exists>xs. exit_stub decode (cc_code t') xs d (exit_to e)))"
proof -
  obtain i' j msk mx d code where sp: "cc_code t (exit_from e) = Some i'" "get_cond_branch_attributes decode i' = Ok (msk, mx)"
      "is_offset_within_range (sint (d - exit_from e)) mx" "code (exit_from e) = Some j"
      "cc_code t' = put_inst (exit_from e) (or_branch_imm (word_of_int (drop_bit 2 (sint (d - exit_from e))) AND msk) j) code"
      "code = cc_code t \<and> d = exit_to e \<and> a' = align16 a \<or> d = align16 a \<and> (\<exists>xs. stub_placed decode (exit_to e) (cc_code t) d xs code a')"
    by (rule install_exit_spec [OF ok])
  have att: "get_cond_branch_attributes decode i = Ok (msk, mx)" using sp(1,2) i(2) by simp
  have "code (exit_from e) = cc_code t (exit_from e)" using sp(6) stub_placed_exit_stub(2) [OF _ ap(3,1,2)] by metis
  then have d: "4 dvd d - exit_from e" "j = i" using sp(4,6) al i(2) by auto
  have "reaches (cc_code t') s (s\<lparr>pc_reg := if exit_taken m s \<noteq> tk then d else exit_from e + 4\<rparr>)" if "pc_reg s = exit_from e" for s
    using trace_exit_branches [OF i(1) m att sp(3) d(1) that] sp(5) that
    by (intro reaches_one) (auto simp: put_inst_def d(2))
  then show ?thesis
    using sp(5,6) stub_placed_exit_stub(1) [OF _ ap(3,1,2)] by metis
qed

text \<open>An exit of the trace that tests a bit and leads to a fragment out of the reach of such a branch.\<close>

definition far_meta :: dbm_code_cache_meta where
  "far_meta = (code_cache_meta witness_thread 0)\<lparr>exit_branch_type := tbz_a64, branch_condition := 1, meta_rn := 0x43\<rparr>"

definition far_exit :: trace_exits where
  "far_exit = \<lparr>exit_from = 0x50D6D880, exit_to = 0x50E00004, exit_fragment_id = 55000\<rparr>"

definition far_decode :: "u32 \<Rightarrow> a64_instruction" where "far_decode w = 48"

definition exit_thread :: a64_thread where
  "exit_thread = tracing_thread\<lparr>active_trace := (active_trace tracing_thread)\<lparr>free_exit_rec := 1, exits := [far_exit]\<rparr>,
     cc_code := [0x50D6D880 \<mapsto> a64_TBZ_TBNZ 0 0 2 0 3, 0x50E00004 \<mapsto> a64_word 0x91000400, 0x50E00008 \<mapsto> a64_BR 5]\<rparr>"

lemma exit_thread_installs: "\<exists>t'. install_exit far_decode far_exit 0x50D6D900 exit_thread = Ok (t', 0x50D6D90C)"
proof -
  have f: "cc_code exit_thread = [0x50D6D880 \<mapsto> a64_TBZ_TBNZ 0 0 2 0 3, 0x50E00004 \<mapsto> a64_word 0x91000400, 0x50E00008 \<mapsto> a64_BR 5]"
    "code_cache exit_thread = 0x50000000" "trace_in_prog_id (active_trace exit_thread) = 55001"
    by (simp_all add: exit_thread_def tracing_thread_def dbm_thread.defs a64_thread.defs witness_thread_def)
  have r: "\<not> is_offset_within_range (sint (0x50E00004 - 0x50D6D880 :: uintptr)) THIRTY_TWO_KB"
      "is_offset_within_range (sint (0x50D6D900 - 0x50D6D880 :: uintptr)) THIRTY_TWO_KB" "in_b_range 0x50D6D904 0x50E00008"
      "align16 0x50D6D900 = 0x50D6D900" "\<not> 0x50E00004 < traces_addr exit_thread"
    unfolding traces_addr_def f by code_simp+
  have "get_cond_branch_attributes far_decode (a64_TBZ_TBNZ 0 0 2 0 3) = Ok (FOURTEEN_BITS, THIRTY_TWO_KB)" by code_simp
  moreover have "is_instruction_position_independent far_decode (a64_word 0x91000400)" "\<not> is_instruction_position_independent far_decode (a64_BR 5)" by code_simp+
  moreover have "stub_copy 2 = stub_copy (Suc (Suc 0))" by (simp add: numeral_2_eq_2)
  ultimately show ?thesis using r
    by (simp add: install_exit_def far_exit_def f code_at_def install_stub_def allocate_trace_fragment_def res_assert_def Let_def
      emit_inst_def put_inst_def then_advance_def a64_b_helper_def a64_branch_helper_eq cc_sizes meta_upd_def)
qed

theorem install_exit_leaves_witness:
  "\<exists>t' d xs. install_exit far_decode far_exit 0x50D6D900 exit_thread = Ok (t', 0x50D6D90C) \<and>
    (\<forall>s. pc_reg s = 0x50D6D880 \<longrightarrow> reaches (cc_code t') s (s\<lparr>pc_reg := if bit (xregs s 3) 2 \<noteq> True then d else 0x50D6D884\<rparr>)) \<and>
    (d = 0x50E00004 \<or> exit_stub far_decode (cc_code t') xs 0x50D6D900 0x50E00004)"
proof -
  obtain t' where t': "install_exit far_decode far_exit 0x50D6D900 exit_thread = Ok (t', 0x50D6D90C)"
    using exit_thread_installs by blast
  have e: "exit_from far_exit = 0x50D6D880" "exit_to far_exit = 0x50E00004" by (simp_all add: far_exit_def)
  have m: "cond_exit far_meta" "trace_exit_inst far_meta True = Ok (a64_TBZ_TBNZ 0 0 2 0 3)"
    by (simp_all add: far_meta_def cond_exit_def trace_exit_inst_def)
  have c: "cc_code exit_thread (exit_from far_exit) = Some (a64_TBZ_TBNZ 0 0 2 0 3)"
    by (simp add: e exit_thread_def)
  have al: "align16 0x50D6D900 = 0x50D6D900" by code_simp
  have tk: "exit_taken far_meta s \<longleftrightarrow> bit (xregs s 3) 2" for s
    by (simp add: exit_taken_def far_meta_def xreg_def)
  have d: "4 dvd exit_to far_exit - exit_from far_exit" "4 dvd align16 0x50D6D900 - exit_from far_exit"
    unfolding e al by (rule dvdI [of _ _ "0x249E1"], simp, rule dvdI [of _ _ "0x20"], simp)
  have ks: "(\<forall>k < 4. P k) \<longleftrightarrow> P 0 \<and> P 1 \<and> P 2 \<and> P 3" "(\<forall>k < 2. P k) \<longleftrightarrow> P 0 \<and> P 1" for P :: "nat \<Rightarrow> bool"
    by (auto simp: less_Suc_eq numeral_eq_Suc)
  have ap: "\<forall>k < 4. slot (align16 0x50D6D900) k \<noteq> exit_from far_exit" "\<forall>k < 2. slot (exit_to far_exit) k \<noteq> exit_from far_exit"
      "\<forall>k < 2. \<forall>j < 4. slot (exit_to far_exit) k \<noteq> slot (align16 0x50D6D900) j"
    unfolding e al slot_def ks by simp_all
  obtain a xs where a: "\<forall>s. pc_reg s = 0x50D6D880 \<longrightarrow>
        reaches (cc_code t') s (s\<lparr>pc_reg := if bit (xregs s 3) 2 \<noteq> True then a else 0x50D6D880 + 4\<rparr>)"
      "a = 0x50E00004 \<or> a = 0x50D6D900 \<and> exit_stub far_decode (cc_code t') xs a 0x50E00004"
    using install_exit_leaves [OF t' m c d ap] unfolding e al tk by blast
  have four: "0x50D6D880 + 4 = (0x50D6D884 :: uintptr)" by simp
  show ?thesis
    by (rule exI [of _ t'], rule exI [of _ a], rule exI [of _ xs]) (use t' a(1) [unfolded four] a(2) in blast)
qed

text \<open>C37: Installing the exits of a trace takes at most sixteen bytes per exit behind the trace, as the check that the stubs
  are in reach assumes, and writes nothing outside this area but the exit branches themselves.\<close>

theorem install_exits_space:
  assumes "install_exits decode n 0 a t = Ok (t', a')" "0 \<le> n" "unat a + 16 * nat n + 30 < 2 ^ 64"
  shows "unat a \<le> unat a' \<and> unat a' \<le> unat (align16 a) + 16 * nat n \<and>
    (\<forall>x. x \<notin> (\<lambda>k. exit_from (exits (active_trace t) ! nat k)) ` {0..<n} \<and>
      (unat x < unat a \<or> unat (align16 a) + 16 * nat n \<le> unat x) \<longrightarrow> cc_code t' x = cc_code t x)"
proof -
  have "16 * ((unat a + 15) div 16) + 16 * nat (n - 0) + 15 < 2 ^ 64" using assms(3) by simp
  from install_exits_confined [OF assms(1) order_refl assms(2) this] show ?thesis by simp
qed

theorem install_exits_space_witness:
  "\<exists>t' a'. install_exits far_decode 1 0 0x50D6D900 exit_thread = Ok (t', a') \<and> unat a' \<le> 0x50D6D910 \<and>
     cc_code t' 0x50E00008 = Some (a64_BR 5)"
proof -
  obtain t' where t': "install_exit far_decode far_exit 0x50D6D900 exit_thread = Ok (t', 0x50D6D90C)"
    using exit_thread_installs by blast
  have ex: "exits (active_trace exit_thread) = [far_exit]" by (simp add: exit_thread_def)
  have ok: "install_exits far_decode 1 0 0x50D6D900 exit_thread = Ok (t', 0x50D6D90C)"
    by (subst install_exits.simps, simp add: ex arr_get_def t') (subst install_exits.simps, simp)
  have "align16 0x50D6D900 = 0x50D6D900" by code_simp
  then have al: "unat (align16 0x50D6D900) = 0x50D6D900" by simp
  have img: "(\<lambda>k. exit_from ([far_exit] ! nat k)) ` {0..<1} = {0x50D6D880}"
  proof -
    have "{0..<1 :: int} = {0}" by auto
    then show ?thesis by (simp add: far_exit_def)
  qed
  have z: "(0 :: int) \<le> 1" "unat (0x50D6D900 :: uintptr) + 16 * nat 1 + 30 < 2 ^ 64" by simp_all
  note r = install_exits_space [OF ok z, unfolded ex img al]
  have "(0x50E00008 :: uintptr) \<notin> {0x50D6D880}" "0x50D6D900 + 16 * nat 1 \<le> unat (0x50E00008 :: uintptr)" by simp_all
  then have "cc_code t' 0x50E00008 = cc_code exit_thread 0x50E00008" using r by blast
  moreover have "cc_code exit_thread 0x50E00008 = Some (a64_BR 5)" by (simp add: exit_thread_def)
  ultimately show ?thesis using ok by (intro exI [of _ t'] exI [of _ "0x50D6D90C"]) simp
qed

end
