(* ===== verification/Race_Detector.thy ===== *)
theory Race_Detector
  imports Plugin_Hash
begin

text \<open>
  The data race detectors of the datarace plugin (\<open>plugins/datarace/detectors\<close>): vector clocks, the threads, locks and
  variables that carry them, and the two algorithms the plugin can be built with, \<open>djit.c\<close> (vector clocks for every
  variable) and \<open>fasttrack.c\<close> (epochs where one suffices). The vector clocks, threads, locks and lists have the same text
  in both files. The operations of the plugin (\<open>datarace.c\<close>) find the objects through the plugin hash table. Every
  operation is one step: the pthread mutexes of the objects are not part of the state. Allocation is a parameter; a pointer
  that was never set because an allocation failed is \<open>None\<close>.
\<close>

section \<open>Memory\<close>

text \<open>Which sizes \<open>malloc\<close> and which counts and sizes \<open>calloc\<close> can deliver.\<close>

record mem_env =
  mem_malloc :: "uintptr \<Rightarrow> bool"
  mem_calloc :: "uintptr \<Rightarrow> uintptr \<Rightarrow> bool"

definition INT_MAX :: int where "INT_MAX = 2147483647"

definition VC_INITIAL_SZ :: nat where "VC_INITIAL_SZ = 8"

definition sizeof_vector_clock :: uintptr where "sizeof_vector_clock = 64"
definition sizeof_epoch :: uintptr where "sizeof_epoch = 56"
definition sizeof_thread :: uintptr where "sizeof_thread = 16"
definition sizeof_lock :: uintptr where "sizeof_lock = 8"
definition sizeof_ht_entry :: uintptr where "sizeof_ht_entry = 16"

section \<open>Vector clocks\<close>

text \<open>The field \<open>size\<close> is the length of the array.\<close>

record vector_clock =
  clocks :: "int list"

definition vector_clock_init :: "mem_env \<Rightarrow> nat \<Rightarrow> int \<times> vector_clock option" where
  "vector_clock_init mem sz =
     (if mem_calloc mem (of_nat sz) 4 then (1, Some \<lparr>clocks = replicate sz 0\<rparr>) else (-1, None))"

definition vector_clock_get :: "vector_clock \<Rightarrow> int \<Rightarrow> int" where
  "vector_clock_get vc idx = (if 0 \<le> idx \<and> nat idx < length (clocks vc) then clocks vc ! nat idx else -1)"

definition vector_clock_increment :: "vector_clock \<Rightarrow> int \<Rightarrow> vector_clock res" where
  "vector_clock_increment vc idx =
     res_bind (res_assert (idx \<ge> 0)) (\<lambda>_.
     res_bind (res_assert (nat idx < length (clocks vc))) (\<lambda>_.
     res_bind (arr_get (clocks vc) idx) (\<lambda>c.
     if c = INT_MAX then Undef
     else res_bind (arr_set (clocks vc) idx (c + 1)) (\<lambda>cs. Ok (vc\<lparr>clocks := cs\<rparr>)))))"

text \<open>In \<open>djit.c\<close> there is no check of the index; \<open>fasttrack.c\<close> asserts that it is in range.\<close>

definition vector_clock_set :: "vector_clock \<Rightarrow> int \<Rightarrow> int \<Rightarrow> vector_clock res" where
  "vector_clock_set vc idx c = res_bind (arr_set (clocks vc) idx c) (\<lambda>cs. Ok (vc\<lparr>clocks := cs\<rparr>))"

definition vector_clock_set_checked :: "vector_clock \<Rightarrow> int \<Rightarrow> int \<Rightarrow> vector_clock res" where
  "vector_clock_set_checked vc idx c =
     res_bind (res_assert (idx \<ge> 0)) (\<lambda>_.
     res_bind (res_assert (nat idx < length (clocks vc))) (\<lambda>_.
     res_bind (arr_set (clocks vc) idx c) (\<lambda>cs. Ok (vc\<lparr>clocks := cs\<rparr>))))"

fun vc_update_loop :: "int \<Rightarrow> int list \<Rightarrow> int list \<Rightarrow> int list res" where
  "vc_update_loop i xs [] = Ok xs"
| "vc_update_loop i xs (y # ys) =
     res_bind (arr_get xs i) (\<lambda>x.
     res_bind (if x < y then arr_set xs i y else Ok xs) (\<lambda>xs. vc_update_loop (i + 1) xs ys))"

definition vector_clock_update :: "vector_clock \<Rightarrow> vector_clock \<Rightarrow> vector_clock res" where
  "vector_clock_update vc other_vc =
     res_bind (vc_update_loop 0 (clocks vc) (clocks other_vc)) (\<lambda>cs. Ok (vc\<lparr>clocks := cs\<rparr>))"

text \<open>The loop runs to the smaller of the two sizes.\<close>

fun vc_before_loop :: "int list \<Rightarrow> int list \<Rightarrow> bool" where
  "vc_before_loop (x # xs) (y # ys) = (if x > y then False else vc_before_loop xs ys)"
| "vc_before_loop _ _ = True"

definition vector_clock_happens_before :: "vector_clock \<Rightarrow> vector_clock \<Rightarrow> bool" where
  "vector_clock_happens_before vc other_vc = vc_before_loop (clocks vc) (clocks other_vc)"

section \<open>Threads and locks\<close>

record thread_t =
  th_idx :: int
  th_vc :: "vector_clock option"

record lock_t =
  lk_vc :: "vector_clock option"

definition deref :: "'a option \<Rightarrow> 'a res" where
  "deref p = (case p of None \<Rightarrow> Undef | Some x \<Rightarrow> Ok x)"

definition thread_init :: "mem_env \<Rightarrow> int \<Rightarrow> (int \<times> thread_t) res" where
  "thread_init mem thread_idx =
     (let t = \<lparr>th_idx = thread_idx, th_vc = None\<rparr> in
      if \<not> mem_malloc mem sizeof_vector_clock then Ok (-1, t)
      else case vector_clock_init mem VC_INITIAL_SZ of
        (ret, None) \<Rightarrow> Ok (-1, t)
      | (ret, Some vc) \<Rightarrow> res_bind (vector_clock_increment vc thread_idx) (\<lambda>vc. Ok (1, t\<lparr>th_vc := Some vc\<rparr>)))"

definition thread_get_clock :: "thread_t \<Rightarrow> int res" where
  "thread_get_clock t = res_bind (deref (th_vc t)) (\<lambda>vc. Ok (vector_clock_get vc (th_idx t)))"

definition thread_increment :: "thread_t \<Rightarrow> thread_t res" where
  "thread_increment t =
     res_bind (deref (th_vc t)) (\<lambda>vc.
     res_bind (vector_clock_increment vc (th_idx t)) (\<lambda>vc. Ok (t\<lparr>th_vc := Some vc\<rparr>)))"

definition thread_update_vc :: "thread_t \<Rightarrow> vector_clock option \<Rightarrow> thread_t res" where
  "thread_update_vc t other_clock =
     res_bind (deref (th_vc t)) (\<lambda>vc.
     res_bind (deref other_clock) (\<lambda>other.
     res_bind (vector_clock_update vc other) (\<lambda>vc. Ok (t\<lparr>th_vc := Some vc\<rparr>))))"

text \<open>Two threads of the list, which may be the same one: every step works on the list.\<close>

definition upd_at :: "'a list \<Rightarrow> int \<Rightarrow> ('a \<Rightarrow> 'a res) \<Rightarrow> 'a list res" where
  "upd_at xs i f = res_bind (arr_get xs i) (\<lambda>x. res_bind (f x) (arr_set xs i))"

definition thread_fork :: "int \<Rightarrow> int \<Rightarrow> thread_t list \<Rightarrow> thread_t list res" where
  "thread_fork parent child ts =
     res_bind (arr_get ts parent) (\<lambda>p.
     res_bind (upd_at ts child (\<lambda>t. thread_update_vc t (th_vc p))) (\<lambda>ts.
     upd_at ts parent thread_increment))"

definition thread_join :: "int \<Rightarrow> int \<Rightarrow> thread_t list \<Rightarrow> thread_t list res" where
  "thread_join parent child ts =
     res_bind (arr_get ts child) (\<lambda>c.
     res_bind (upd_at ts parent (\<lambda>t. thread_update_vc t (th_vc c))) (\<lambda>ts.
     upd_at ts child thread_increment))"

definition lock_init :: "mem_env \<Rightarrow> int \<times> lock_t" where
  "lock_init mem =
     (if \<not> mem_malloc mem sizeof_vector_clock then (-1, \<lparr>lk_vc = None\<rparr>)
      else case vector_clock_init mem VC_INITIAL_SZ of
        (ret, None) \<Rightarrow> (-1, \<lparr>lk_vc = None\<rparr>)
      | (ret, Some vc) \<Rightarrow> (1, \<lparr>lk_vc = Some vc\<rparr>))"

definition lock_acquire :: "lock_t \<Rightarrow> thread_t \<Rightarrow> thread_t res" where
  "lock_acquire l t = thread_update_vc t (lk_vc l)"

definition lock_release :: "lock_t \<Rightarrow> thread_t \<Rightarrow> (lock_t \<times> thread_t) res" where
  "lock_release l t =
     res_bind (deref (lk_vc l)) (\<lambda>lvc.
     res_bind (deref (th_vc t)) (\<lambda>tvc.
     res_bind (vector_clock_update lvc tvc) (\<lambda>lvc.
     res_bind (thread_increment t) (\<lambda>t. Ok (l\<lparr>lk_vc := Some lvc\<rparr>, t)))))"

section \<open>Variables of DJIT\<close>

record djit_variable =
  dj_rx :: vector_clock
  dj_wx :: vector_clock

text \<open>Without the memory for both clocks the variable is unusable.\<close>

definition djit_variable_init :: "mem_env \<Rightarrow> nat \<Rightarrow> (int \<times> djit_variable option) res" where
  "djit_variable_init mem i =
     (if \<not> mem_malloc mem sizeof_vector_clock then Ok (-1, None)
      else case vector_clock_init mem VC_INITIAL_SZ of
        (ret, None) \<Rightarrow> Ok (-1, None)
      | (ret, Some rx) \<Rightarrow> (case vector_clock_init mem VC_INITIAL_SZ of
            (ret, None) \<Rightarrow> Ok (-1, None)
          | (ret, Some wx) \<Rightarrow> Ok (1, Some \<lparr>dj_rx = rx, dj_wx = wx\<rparr>)))"

definition djit_read_is_race_free :: "djit_variable \<Rightarrow> vector_clock \<Rightarrow> bool" where
  "djit_read_is_race_free v thread_clock = vector_clock_happens_before (dj_wx v) thread_clock"

definition djit_write_is_race_free :: "djit_variable \<Rightarrow> vector_clock \<Rightarrow> bool" where
  "djit_write_is_race_free v thread_clock \<longleftrightarrow>
     vector_clock_happens_before (dj_wx v) thread_clock \<and> vector_clock_happens_before (dj_rx v) thread_clock"

definition djit_update_read :: "djit_variable \<Rightarrow> thread_t \<Rightarrow> (bool \<times> djit_variable) res" where
  "djit_update_read v t =
     res_bind (deref (th_vc t)) (\<lambda>vc.
     if djit_read_is_race_free v vc then
       res_bind (thread_get_clock t) (\<lambda>c.
       res_bind (vector_clock_set (dj_rx v) (th_idx t) c) (\<lambda>rx. Ok (True, v\<lparr>dj_rx := rx\<rparr>)))
     else Ok (False, v))"

definition djit_update_write :: "djit_variable \<Rightarrow> thread_t \<Rightarrow> (bool \<times> djit_variable) res" where
  "djit_update_write v t =
     res_bind (deref (th_vc t)) (\<lambda>vc.
     if djit_write_is_race_free v vc then
       res_bind (thread_get_clock t) (\<lambda>c.
       res_bind (vector_clock_set (dj_wx v) (th_idx t) c) (\<lambda>wx. Ok (True, v\<lparr>dj_wx := wx\<rparr>)))
     else Ok (False, v))"

section \<open>Variables of FastTrack\<close>

record epoch_t =
  ep_clock :: int
  ep_thread :: int

definition epoch_init :: epoch_t where
  "epoch_init = \<lparr>ep_clock = 0, ep_thread = 0\<rparr>"

definition epoch_set :: "epoch_t \<Rightarrow> int \<Rightarrow> int \<Rightarrow> epoch_t" where
  "epoch_set e thread_id c = e\<lparr>ep_clock := c, ep_thread := thread_id\<rparr>"

text \<open>The result is an int; the callers only test it for zero. A negative index is a large unsigned one.\<close>

definition epoch_happens_before_vc :: "epoch_t \<Rightarrow> vector_clock \<Rightarrow> int" where
  "epoch_happens_before_vc e vc =
     (if ep_thread e < 0 \<or> ep_thread e \<ge> int (length (clocks vc)) then -1
      else if ep_clock e \<le> vector_clock_get vc (ep_thread e) then 1 else 0)"

record ft_variable =
  ft_rx_vc :: vector_clock
  ft_rx_epoch :: epoch_t
  ft_wx_epoch :: epoch_t
  is_shared :: bool

text \<open>
  The results of \<open>malloc\<close> are not checked, and \<open>is_shared\<close> is not set: its value is what the \<open>i\<close>-th variable's memory
  happens to contain. The clock array is first used when a read is recorded, so an unallocated one is unusable.
\<close>

definition ft_variable_init :: "(nat \<Rightarrow> bool) \<Rightarrow> mem_env \<Rightarrow> nat \<Rightarrow> (int \<times> ft_variable option) res" where
  "ft_variable_init uninit mem i =
     (if \<not> mem_malloc mem sizeof_vector_clock \<or> \<not> mem_malloc mem sizeof_epoch then Mem_Fault
      else case vector_clock_init mem VC_INITIAL_SZ of
        (ret, None) \<Rightarrow> Ok (1, None)
      | (ret, Some rx) \<Rightarrow> Ok (1, Some \<lparr>ft_rx_vc = rx, ft_rx_epoch = epoch_init, ft_wx_epoch = epoch_init, is_shared = uninit i\<rparr>))"

definition ft_update_read :: "ft_variable \<Rightarrow> thread_t \<Rightarrow> (bool \<times> ft_variable) res" where
  "ft_update_read v t =
     res_bind (thread_get_clock t) (\<lambda>c.
     res_bind (deref (th_vc t)) (\<lambda>vc.
     if ep_thread (ft_rx_epoch v) = th_idx t \<and> ep_clock (ft_rx_epoch v) = c then Ok (True, v)
     else if is_shared v \<and> vector_clock_get (ft_rx_vc v) (th_idx t) = c then Ok (True, v)
     else if epoch_happens_before_vc (ft_wx_epoch v) vc = 0 then Ok (False, v)
     else if is_shared v then
       res_bind (vector_clock_set_checked (ft_rx_vc v) (th_idx t) c) (\<lambda>rx. Ok (True, v\<lparr>ft_rx_vc := rx\<rparr>))
     else if epoch_happens_before_vc (ft_rx_epoch v) vc \<noteq> 0 then
       Ok (True, v\<lparr>ft_rx_epoch := epoch_set (ft_rx_epoch v) (th_idx t) c\<rparr>)
     else
       res_bind (vector_clock_set_checked (ft_rx_vc v) (ep_thread (ft_rx_epoch v)) (ep_clock (ft_rx_epoch v))) (\<lambda>rx.
       res_bind (vector_clock_set_checked rx (th_idx t) c) (\<lambda>rx. Ok (True, v\<lparr>ft_rx_vc := rx, is_shared := True\<rparr>)))))"

definition ft_update_write :: "ft_variable \<Rightarrow> thread_t \<Rightarrow> (bool \<times> ft_variable) res" where
  "ft_update_write v t =
     res_bind (thread_get_clock t) (\<lambda>c.
     res_bind (deref (th_vc t)) (\<lambda>vc.
     if ep_thread (ft_wx_epoch v) = th_idx t \<and> ep_clock (ft_wx_epoch v) = c then Ok (True, v)
     else if epoch_happens_before_vc (ft_wx_epoch v) vc = 0 then Ok (False, v)
     else if (if \<not> is_shared v then epoch_happens_before_vc (ft_rx_epoch v) vc = 0
              else \<not> vector_clock_happens_before (ft_rx_vc v) vc) then Ok (False, v)
     else Ok (True, v\<lparr>ft_wx_epoch := epoch_set (ft_wx_epoch v) (th_idx t) c\<rparr>)))"

section \<open>Lists\<close>

text \<open>The lists of threads, locks and variables: an array of pointers that grows by doubling, and a table from keys to indices.\<close>

record 'a index_list =
  items :: "'a list"
  list_capacity :: nat
  index_ht :: mambo_ht

definition list_init :: "mem_env \<Rightarrow> mambo_ht \<Rightarrow> 'a index_list res" where
  "list_init mem ht =
     (if \<not> mem_malloc mem (of_nat (8 * VC_INITIAL_SZ)) \<or> \<not> mem_malloc mem 88 then Mem_Fault
      else res_bind (mambo_ht_init (\<lambda>n. mem_calloc mem n sizeof_ht_entry) 0 ht (of_nat VC_INITIAL_SZ) 0 90 True) (\<lambda>(ret, ht).
        Ok \<lparr>items = [], list_capacity = VC_INITIAL_SZ, index_ht = ht\<rparr>))"

text \<open>Appending an object that \<open>mk\<close> makes for the next index; the result of the insertion into the table is ignored.\<close>

definition list_append :: "mem_env \<Rightarrow> uintptr \<Rightarrow> (nat \<Rightarrow> 'a res) \<Rightarrow> 'a index_list \<Rightarrow> uintptr \<Rightarrow> (int \<times> 'a index_list) res" where
  "list_append mem obj_size mk l key =
     (let n = length (items l) in
      res_bind (if n = list_capacity l then
                  if mem_malloc mem (of_nat (8 * (2 * n))) then Ok (l\<lparr>list_capacity := 2 * n\<rparr>) else Mem_Fault
                else Ok l) (\<lambda>l.
      if \<not> mem_malloc mem obj_size then Mem_Fault
      else
        res_bind (mk n) (\<lambda>x.
        res_bind (mambo_ht_add (\<lambda>n. mem_calloc mem n sizeof_ht_entry) 0 0 (index_ht l) key (of_nat n)) (\<lambda>(ret, ht).
        Ok (int n, l\<lparr>items := items l @ [x], index_ht := ht\<rparr>)))))"

definition list_smart_get :: "mem_env \<Rightarrow> uintptr \<Rightarrow> (nat \<Rightarrow> 'a res) \<Rightarrow> 'a index_list \<Rightarrow> uintptr \<Rightarrow> (int \<times> 'a index_list) res" where
  "list_smart_get mem obj_size mk l key =
     res_bind (mambo_ht_get 0 0 (index_ht l) key) (\<lambda>r.
     case r of
       (ret, Some index) \<Rightarrow> Ok (uint index, l)
     | (ret, None) \<Rightarrow> list_append mem obj_size mk l key)"

definition thread_list_smart_get :: "mem_env \<Rightarrow> thread_t index_list \<Rightarrow> uintptr \<Rightarrow> (int \<times> thread_t index_list) res" where
  "thread_list_smart_get mem =
     list_smart_get mem sizeof_thread (\<lambda>n. res_bind (thread_init mem (int n)) (\<lambda>(ret, t). Ok t))"

definition lock_list_smart_get :: "mem_env \<Rightarrow> lock_t index_list \<Rightarrow> uintptr \<Rightarrow> (int \<times> lock_t index_list) res" where
  "lock_list_smart_get mem = list_smart_get mem sizeof_lock (\<lambda>n. Ok (snd (lock_init mem)))"

text \<open>The detector the plugin is built with.\<close>

record 'v detector =
  det_size :: uintptr
  det_init :: "mem_env \<Rightarrow> nat \<Rightarrow> (int \<times> 'v option) res"
  det_read :: "'v \<Rightarrow> thread_t \<Rightarrow> (bool \<times> 'v) res"
  det_write :: "'v \<Rightarrow> thread_t \<Rightarrow> (bool \<times> 'v) res"

definition DJIT :: "djit_variable detector" where
  "DJIT = \<lparr>det_size = 16, det_init = djit_variable_init, det_read = djit_update_read, det_write = djit_update_write\<rparr>"

definition FASTTRACK :: "(nat \<Rightarrow> bool) \<Rightarrow> ft_variable detector" where
  "FASTTRACK uninit = \<lparr>det_size = 32, det_init = ft_variable_init uninit, det_read = ft_update_read, det_write = ft_update_write\<rparr>"

definition variable_list_smart_get ::
    "mem_env \<Rightarrow> 'v detector \<Rightarrow> 'v option index_list \<Rightarrow> uintptr \<Rightarrow> (int \<times> 'v option index_list) res" where
  "variable_list_smart_get mem det =
     list_smart_get mem (det_size det) (\<lambda>n. res_bind (det_init det mem n) (\<lambda>(ret, v). Ok v))"

section \<open>Processing events\<close>

record 'v race_state =
  rs_threads :: "thread_t index_list"
  rs_locks :: "lock_t index_list"
  rs_variables :: "'v option index_list"

definition race_init :: "mem_env \<Rightarrow> mambo_ht \<Rightarrow> 'v race_state res" where
  "race_init mem ht =
     res_bind (list_init mem ht) (\<lambda>ts.
     res_bind (list_init mem ht) (\<lambda>ls.
     res_bind (list_init mem ht) (\<lambda>vs. Ok \<lparr>rs_threads = ts, rs_locks = ls, rs_variables = vs\<rparr>)))"

definition get_thread :: "mem_env \<Rightarrow> int \<Rightarrow> 'v race_state \<Rightarrow> (int \<times> 'v race_state) res" where
  "get_thread mem thread_id st =
     res_bind (thread_list_smart_get mem (rs_threads st) (word_of_int thread_id)) (\<lambda>(i, l). Ok (i, st\<lparr>rs_threads := l\<rparr>))"

definition get_lock :: "mem_env \<Rightarrow> uintptr \<Rightarrow> 'v race_state \<Rightarrow> (int \<times> 'v race_state) res" where
  "get_lock mem addr st =
     res_bind (lock_list_smart_get mem (rs_locks st) addr) (\<lambda>(i, l). Ok (i, st\<lparr>rs_locks := l\<rparr>))"

definition get_variable :: "mem_env \<Rightarrow> 'v detector \<Rightarrow> uintptr \<Rightarrow> 'v race_state \<Rightarrow> (int \<times> 'v race_state) res" where
  "get_variable mem det addr st =
     res_bind (variable_list_smart_get mem det (rs_variables st) addr) (\<lambda>(i, l). Ok (i, st\<lparr>rs_variables := l\<rparr>))"

definition upd_threads :: "(thread_t list \<Rightarrow> thread_t list res) \<Rightarrow> 'v race_state \<Rightarrow> 'v race_state res" where
  "upd_threads f st =
     res_bind (f (items (rs_threads st))) (\<lambda>ts. Ok (st\<lparr>rs_threads := (rs_threads st)\<lparr>items := ts\<rparr>\<rparr>))"

definition process_fork :: "mem_env \<Rightarrow> int \<Rightarrow> int \<Rightarrow> 'v race_state \<Rightarrow> 'v race_state res" where
  "process_fork mem parent child st =
     res_bind (get_thread mem child st) (\<lambda>(c, st).
     if parent \<noteq> 0 then
       res_bind (get_thread mem parent st) (\<lambda>(p, st). upd_threads (thread_fork p c) st)
     else Ok st)"

definition process_join :: "mem_env \<Rightarrow> int \<Rightarrow> int \<Rightarrow> 'v race_state \<Rightarrow> 'v race_state res" where
  "process_join mem parent child st =
     res_bind (get_thread mem child st) (\<lambda>(c, st).
     res_bind (get_thread mem parent st) (\<lambda>(p, st). upd_threads (thread_join p c) st))"

definition process_lock :: "mem_env \<Rightarrow> int \<Rightarrow> uintptr \<Rightarrow> 'v race_state \<Rightarrow> 'v race_state res" where
  "process_lock mem thread_id addr st =
     res_bind (get_thread mem thread_id st) (\<lambda>(t, st).
     res_bind (get_lock mem addr st) (\<lambda>(k, st).
     res_bind (arr_get (items (rs_locks st)) k) (\<lambda>l.
     upd_threads (\<lambda>ts. upd_at ts t (lock_acquire l)) st)))"

definition process_unlock :: "mem_env \<Rightarrow> int \<Rightarrow> uintptr \<Rightarrow> 'v race_state \<Rightarrow> 'v race_state res" where
  "process_unlock mem thread_id addr st =
     res_bind (get_thread mem thread_id st) (\<lambda>(t, st).
     res_bind (get_lock mem addr st) (\<lambda>(k, st).
     res_bind (arr_get (items (rs_locks st)) k) (\<lambda>l.
     res_bind (arr_get (items (rs_threads st)) t) (\<lambda>th.
     res_bind (lock_release l th) (\<lambda>(l, th).
     res_bind (arr_set (items (rs_locks st)) k l) (\<lambda>ls.
     res_bind (arr_set (items (rs_threads st)) t th) (\<lambda>ts.
     Ok (st\<lparr>rs_threads := (rs_threads st)\<lparr>items := ts\<rparr>, rs_locks := (rs_locks st)\<lparr>items := ls\<rparr>\<rparr>))))))))"

text \<open>The result is false when a race is reported.\<close>

definition process_access ::
    "mem_env \<Rightarrow> 'v detector \<Rightarrow> ('v \<Rightarrow> thread_t \<Rightarrow> (bool \<times> 'v) res) \<Rightarrow> int \<Rightarrow> uintptr \<Rightarrow> 'v race_state \<Rightarrow> (bool \<times> 'v race_state) res" where
  "process_access mem det upd thread_id addr st =
     res_bind (get_thread mem thread_id st) (\<lambda>(t, st).
     res_bind (get_variable mem det addr st) (\<lambda>(x, st).
     res_bind (arr_get (items (rs_threads st)) t) (\<lambda>th.
     res_bind (arr_get (items (rs_variables st)) x) (\<lambda>v.
     res_bind (deref v) (\<lambda>v.
     res_bind (upd v th) (\<lambda>(ok, v).
     res_bind (arr_set (items (rs_variables st)) x (Some v)) (\<lambda>vs.
     Ok (ok, st\<lparr>rs_variables := (rs_variables st)\<lparr>items := vs\<rparr>\<rparr>))))))))"

definition process_read :: "mem_env \<Rightarrow> 'v detector \<Rightarrow> int \<Rightarrow> uintptr \<Rightarrow> 'v race_state \<Rightarrow> (bool \<times> 'v race_state) res" where
  "process_read mem det = process_access mem det (det_read det)"

definition process_write :: "mem_env \<Rightarrow> 'v detector \<Rightarrow> int \<Rightarrow> uintptr \<Rightarrow> 'v race_state \<Rightarrow> (bool \<times> 'v race_state) res" where
  "process_write mem det = process_access mem det (det_write det)"

definition handle_read_write :: "mem_env \<Rightarrow> 'v detector \<Rightarrow> bool \<Rightarrow> int \<Rightarrow> uintptr \<Rightarrow> 'v race_state \<Rightarrow> (bool \<times> 'v race_state) res" where
  "handle_read_write mem det is_load thread_id addr st =
     (if addr = 0 then Ok (True, st)
      else if is_load then process_read mem det thread_id addr st
      else process_write mem det thread_id addr st)"

text \<open>A sequence of events and the verdicts on the accesses in it.\<close>

datatype race_event = Fork int int | Join int int | Lock int uintptr | Unlock int uintptr | Access bool int uintptr

definition race_step :: "mem_env \<Rightarrow> 'v detector \<Rightarrow> race_event \<Rightarrow> 'v race_state \<Rightarrow> (bool \<times> 'v race_state) res" where
  "race_step mem det e st =
     (case e of
        Fork p c \<Rightarrow> res_bind (process_fork mem p c st) (\<lambda>st. Ok (True, st))
      | Join p c \<Rightarrow> res_bind (process_join mem p c st) (\<lambda>st. Ok (True, st))
      | Lock t l \<Rightarrow> res_bind (process_lock mem t l st) (\<lambda>st. Ok (True, st))
      | Unlock t l \<Rightarrow> res_bind (process_unlock mem t l st) (\<lambda>st. Ok (True, st))
      | Access ld t a \<Rightarrow> handle_read_write mem det ld t a st)"

fun race_run :: "mem_env \<Rightarrow> 'v detector \<Rightarrow> race_event list \<Rightarrow> 'v race_state \<Rightarrow> (bool list \<times> 'v race_state) res" where
  "race_run mem det [] st = Ok ([], st)"
| "race_run mem det (e # es) st =
     res_bind (race_step mem det e st) (\<lambda>(v, st).
     res_bind (race_run mem det es st) (\<lambda>(vs, st). Ok (v # vs, st)))"

end
