(* ===== verification/Race_Clocks.thy ===== *)
theory Race_Clocks
  imports Race_Detector
begin

text \<open>
  The two data race detectors give the same verdicts. The clocks of the threads and locks form a system in which every
  thread is ahead of what the others know of it; along every step of such a system the epochs FastTrack keeps determine the
  clocks DJIT keeps. A locale states what two detectors must satisfy to be interchangeable in the plugin.
\<close>

section \<open>Clocks as functions\<close>

type_synonym clock = "nat \<Rightarrow> int"

definition vc_ok :: "vector_clock \<Rightarrow> bool" where
  "vc_ok vc \<longleftrightarrow> length (clocks vc) = VC_INITIAL_SZ"

definition vclk :: "vector_clock \<Rightarrow> clock" where
  "vclk vc i = (if i < VC_INITIAL_SZ then clocks vc ! i else 0)"

lemma vc_ok_length [simp]: "vc_ok vc \<Longrightarrow> length (clocks vc) = VC_INITIAL_SZ"
  by (simp add: vc_ok_def)

lemma vc_zero: "vc_ok \<lparr>clocks = replicate VC_INITIAL_SZ 0\<rparr>" "vclk \<lparr>clocks = replicate VC_INITIAL_SZ 0\<rparr> = (\<lambda>_. 0)"
  by (auto simp: vc_ok_def vclk_def)

lemma vclk_get: "vc_ok vc \<Longrightarrow> 0 \<le> i \<Longrightarrow> i < int VC_INITIAL_SZ \<Longrightarrow> vector_clock_get vc i = vclk vc (nat i)"
  by (auto simp: vector_clock_get_def vclk_def)

lemma vclk_set:
  assumes "vc_ok vc" "0 \<le> i" "i < int VC_INITIAL_SZ"
  obtains vc' where "vector_clock_set vc i c = Ok vc'" "vector_clock_set_checked vc i c = Ok vc'" "vc_ok vc'" "vclk vc' = (vclk vc)(nat i := c)"
proof -
  let ?vc = "vc\<lparr>clocks := (clocks vc)[nat i := c]\<rparr>"
  have "vclk ?vc = (vclk vc)(nat i := c)" "vc_ok ?vc" using assms by (auto simp: vclk_def vc_ok_def fun_eq_iff nth_list_update)
  then show thesis
    by (intro that [of ?vc]) (use assms in \<open>auto simp: vector_clock_set_def vector_clock_set_checked_def res_assert_def\<close>)
qed

lemma vclk_increment:
  assumes "vc_ok vc" "0 \<le> i" "i < int VC_INITIAL_SZ"
  obtains vc' where "vector_clock_increment vc i = (if vclk vc (nat i) = INT_MAX then Undef else Ok vc')" "vc_ok vc'"
    "vclk vc' = (vclk vc)(nat i := vclk vc (nat i) + 1)"
proof -
  let ?vc = "vc\<lparr>clocks := (clocks vc)[nat i := clocks vc ! nat i + 1]\<rparr>"
  have "vclk ?vc = (vclk vc)(nat i := vclk vc (nat i) + 1)" "vc_ok ?vc"
    using assms by (auto simp: vclk_def vc_ok_def fun_eq_iff nth_list_update)
  then show thesis
    by (intro that [of ?vc]) (use assms in \<open>auto simp: vector_clock_increment_def res_assert_def vclk_def\<close>)
qed

lemma vc_update_loop_max:
  assumes "length xs = n + length ys"
  shows "vc_update_loop (int n) xs ys = Ok (take n xs @ map2 max (drop n xs) ys)"
  using assms
proof (induction ys arbitrary: n xs)
  case (Cons y ys)
  have n: "n < length xs" using Cons.prems by simp
  let ?xs = "xs[n := max (xs ! n) y]"
  have "res_bind (if xs ! n < y then arr_set xs (int n) y else Ok xs) (\<lambda>xs. vc_update_loop (int n + 1) xs ys) = vc_update_loop (int (Suc n)) ?xs ys"
    using n by (auto simp: max_def add.commute)
  also have "\<dots> = Ok (take (Suc n) ?xs @ map2 max (drop (Suc n) ?xs) ys)"
    by (rule Cons.IH) (use Cons.prems in simp)
  finally show ?case
    using n by (simp add: take_Suc_conv_app_nth Cons_nth_drop_Suc [symmetric])
qed simp

lemma vclk_update:
  assumes "vc_ok a" "vc_ok b"
  obtains c where "vector_clock_update a b = Ok c" "vc_ok c" "vclk c = sup (vclk a) (vclk b)"
proof -
  let ?c = "a\<lparr>clocks := map2 max (clocks a) (clocks b)\<rparr>"
  have "vclk ?c = sup (vclk a) (vclk b)" "vc_ok ?c" using assms by (auto simp: vclk_def vc_ok_def fun_eq_iff sup_max)
  then show thesis
    by (intro that [of ?c]) (use assms vc_update_loop_max [of "clocks a" 0 "clocks b"] in \<open>simp_all add: vector_clock_update_def\<close>)
qed

lemma vc_before_loop_iff: "vc_before_loop xs ys \<longleftrightarrow> (\<forall>i < min (length xs) (length ys). xs ! i \<le> ys ! i)"
proof (induction xs ys rule: vc_before_loop.induct)
  case (1 x xs y ys)
  then show ?case by (auto simp: All_less_Suc2)
qed simp_all

lemma vclk_before: "vc_ok a \<Longrightarrow> vc_ok b \<Longrightarrow> vector_clock_happens_before a b \<longleftrightarrow> vclk a \<le> vclk b"
  by (auto simp: vector_clock_happens_before_def vc_before_loop_iff vclk_def le_fun_def)

section \<open>Systems of clocks\<close>

text \<open>The clocks \<open>T\<close> of the threads and \<open>L\<close> of the locks: no clock has seen the current epoch of another thread.\<close>

definition sys_ok :: "clock list \<Rightarrow> clock set \<Rightarrow> bool" where
  "sys_ok T L \<longleftrightarrow> length T \<le> VC_INITIAL_SZ \<and> (\<forall>V \<in> set T \<union> L. \<forall>i. 0 \<le> V i) \<and>
     (\<forall>i < length T. 0 < (T ! i) i) \<and>
     (\<forall>i < length T. \<forall>j < length T. j \<noteq> i \<longrightarrow> (T ! j) i < (T ! i) i) \<and>
     (\<forall>V \<in> L. \<forall>i < length T. V i < (T ! i) i) \<and>
     (\<forall>V \<in> set T \<union> L. \<forall>i \<ge> length T. V i = 0)"

definition tick :: "nat \<Rightarrow> clock list \<Rightarrow> clock list" where
  "tick i T = T[i := (T ! i)(i := (T ! i) i + 1)]"

inductive evolves :: "clock list \<Rightarrow> clock set \<Rightarrow> clock list \<Rightarrow> clock set \<Rightarrow> bool" where
  acquire: "i < length T \<Longrightarrow> V \<in> L \<Longrightarrow> evolves T L (T[i := sup (T ! i) V]) L"
| release: "i < length T \<Longrightarrow> V \<in> L \<Longrightarrow> L' \<subseteq> insert (sup V (T ! i)) L \<Longrightarrow> evolves T L (tick i T) L'"
| send: "i < length T \<Longrightarrow> j < length T \<Longrightarrow> evolves T L (tick i (T[j := sup (T ! j) (T ! i)])) L"
| new_thread: "length T < VC_INITIAL_SZ \<Longrightarrow> evolves T L (T @ [(\<lambda>_. 0)(length T := 1)]) L"
| new_lock: "evolves T L T (insert (\<lambda>_. 0) L)"

lemma tick_simps [simp]: "length (tick i T) = length T" "i < length T \<Longrightarrow> tick i T ! k = (if k = i then (T ! i)(i := (T ! i) i + 1) else T ! k)"
  by (simp_all add: tick_def nth_list_update)

lemma sys_okD:
  assumes "sys_ok T L"
  shows "length T \<le> VC_INITIAL_SZ" "V \<in> set T \<union> L \<Longrightarrow> 0 \<le> V i" "i < length T \<Longrightarrow> 0 < (T ! i) i"
    "i < length T \<Longrightarrow> j < length T \<Longrightarrow> j \<noteq> i \<Longrightarrow> (T ! j) i < (T ! i) i" "V \<in> L \<Longrightarrow> i < length T \<Longrightarrow> V i < (T ! i) i"
    "V \<in> set T \<union> L \<Longrightarrow> length T \<le> i \<Longrightarrow> V i = 0" "k < length T \<Longrightarrow> 0 \<le> (T ! k) i" "k < length T \<Longrightarrow> length T \<le> i \<Longrightarrow> (T ! k) i = 0"
  using assms unfolding sys_ok_def by auto

lemma sys_okI:
  assumes "length T \<le> VC_INITIAL_SZ" "\<And>k i. k < length T \<Longrightarrow> 0 \<le> (T ! k) i" "\<And>V i. V \<in> L \<Longrightarrow> 0 \<le> V i"
    "\<And>i. i < length T \<Longrightarrow> 0 < (T ! i) i" "\<And>i j. i < length T \<Longrightarrow> j < length T \<Longrightarrow> j \<noteq> i \<Longrightarrow> (T ! j) i < (T ! i) i"
    "\<And>V i. V \<in> L \<Longrightarrow> i < length T \<Longrightarrow> V i < (T ! i) i"
    "\<And>k i. k < length T \<Longrightarrow> length T \<le> i \<Longrightarrow> (T ! k) i = 0" "\<And>V i. V \<in> L \<Longrightarrow> length T \<le> i \<Longrightarrow> V i = 0"
  shows "sys_ok T L"
  using assms unfolding sys_ok_def by (auto simp: in_set_conv_nth)

text \<open>A join of clocks with a strictly known bound, and the tick of the sender.\<close>

lemma sys_ok_mono: "sys_ok T L \<Longrightarrow> L' \<subseteq> L \<Longrightarrow> sys_ok T L'"
  unfolding sys_ok_def by blast

lemma sys_ok_tick:
  assumes "sys_ok T L" "i < length T"
  shows "sys_ok (tick i T) (insert (T ! i) L)"
proof -
  note s = sys_okD [OF assms(1)]
  have lt: "(T ! j) k < (tick i T ! k) k" if "k < length T" "j < length T" "j \<noteq> k \<or> k = i" for j k
    using s(4) [OF that(1,2)] that assms(2) by (cases "j = k") auto
  show ?thesis
  proof (rule sys_okI)
    fix V k assume V: "V \<in> insert (T ! i) L" and k: "k < length (tick i T)"
    show "V k < (tick i T ! k) k"
    proof (cases "V \<in> L")
      case True
      then show ?thesis using s(5) [OF True, of k] k assms(2) by auto
    next
      case False
      then show ?thesis using lt [of k i] V k assms(2) by auto
    qed
  next
    fix k j assume "k < length (tick i T)" "j < length (tick i T)" "j \<noteq> k"
    then show "(tick i T ! j) k < (tick i T ! k) k" using lt [of k j] assms(2) by auto
  qed (use s assms(2) in \<open>auto simp: add_nonneg_pos\<close>)
qed

lemma sys_ok_join:
  assumes "sys_ok T L" "i < length T" "V \<in> L"
  shows "sys_ok (T[i := sup (T ! i) V]) L"
proof -
  note s = sys_okD [OF assms(1)]
  have own: "sup (T ! i) V i = (T ! i) i" using s(5) [OF assms(3,2)] by (simp add: sup_max)
  show ?thesis
  proof (rule sys_okI)
    fix k j assume k: "k < length (T[i := sup (T ! i) V])" "j < length (T[i := sup (T ! i) V])" "j \<noteq> k"
    then show "(T[i := sup (T ! i) V] ! j) k < (T[i := sup (T ! i) V] ! k) k"
      using s(4) [of k j] s(5) [OF assms(3), of k] own assms(2) by (auto simp: nth_list_update sup_max)
  next
    fix W k assume "W \<in> L" "k < length (T[i := sup (T ! i) V])"
    then show "W k < (T[i := sup (T ! i) V] ! k) k" using s(5) [of W k] own assms(2) by (auto simp: nth_list_update)
  next
    fix k assume "k < length (T[i := sup (T ! i) V])"
    then show "0 < (T[i := sup (T ! i) V] ! k) k" using s(3) [of k] own assms(2) by (auto simp: nth_list_update)
  next
    fix k m assume "k < length (T[i := sup (T ! i) V])" "length (T[i := sup (T ! i) V]) \<le> m"
    then show "(T[i := sup (T ! i) V] ! k) m = 0"
      using s(8) [of k m] s(8) [of i m] s(6) [of V m] assms(2,3) by (auto simp: nth_list_update)
  qed (use s assms in \<open>auto simp: nth_list_update sup_max le_max_iff_disj\<close>)
qed

lemma sys_ok_lock:
  assumes "sys_ok T L" "V \<in> L" "W \<in> L"
  shows "sys_ok T (insert (sup V W) L)"
proof -
  note s = sys_okD [OF assms(1)]
  show ?thesis
  proof (rule sys_okI)
    fix U m assume "U \<in> insert (sup V W) L" "length T \<le> m"
    then show "U m = 0" using s(6) [of V m] s(6) [of W m] s(6) [of U m] assms(2,3) by auto
  qed (use s assms(2,3) in \<open>auto simp: sup_max le_max_iff_disj\<close>)
qed

lemma tick_join:
  assumes "i < length T" "j < length T"
  shows "tick i (T[j := sup (T ! j) (T ! i)]) = (tick i T)[j := sup (tick i T ! j) (T ! i)]"
proof (rule nth_equalityI)
  fix k assume k: "k < length (tick i (T[j := sup (T ! j) (T ! i)]))"
  have "sup ((T ! i)(i := (T ! i) i + 1)) (T ! i) = (T ! i)(i := (T ! i) i + 1)"
    by (auto simp: fun_eq_iff sup_max)
  with k assms show "tick i (T[j := sup (T ! j) (T ! i)]) ! k = (tick i T)[j := sup (tick i T ! j) (T ! i)] ! k"
    by (auto simp: nth_list_update)
qed simp

lemma evolves_sys_ok: "evolves T L T' L' \<Longrightarrow> sys_ok T L \<Longrightarrow> sys_ok T' L'"
proof (induction rule: evolves.induct)
  case (acquire i T V L)
  then show ?case by (simp add: sys_ok_join)
next
  case (release i T V L L')
  have "sys_ok (tick i T) (insert (sup V (T ! i)) (insert (T ! i) L))"
    using release by (intro sys_ok_lock sys_ok_tick) auto
  then show ?case by (rule sys_ok_mono) (use release(3) in auto)
next
  case (send i T j L)
  have "sys_ok ((tick i T)[j := sup (tick i T ! j) (T ! i)]) (insert (T ! i) L)"
    using send by (intro sys_ok_join sys_ok_tick) auto
  then show ?case using tick_join [OF send(1,2)] by (auto elim: sys_ok_mono)
next
  case (new_thread T L)
  note s = sys_okD [OF new_thread(2)]
  show ?case
  proof (rule sys_okI)
    let ?T = "T @ [(\<lambda>_. 0)(length T := 1)]"
    fix i j assume "i < length ?T" "j < length ?T" "j \<noteq> i"
    then show "(?T ! j) i < (?T ! i) i" using s(8) [of j i] s(3,4) by (auto simp: nth_append less_Suc_eq)
  next
    let ?T = "T @ [(\<lambda>_. 0)(length T := 1)]"
    fix V i assume "V \<in> L" "i < length ?T"
    then show "V i < (?T ! i) i" using s(6) [of V i] s(5) by (auto simp: nth_append less_Suc_eq)
  qed (use new_thread(1) s in \<open>auto simp: nth_append less_Suc_eq\<close>)
next
  case (new_lock T L)
  note s = sys_okD [OF new_lock(1)]
  show ?case by (rule sys_okI) (use s in auto)
qed


section \<open>Epochs that determine clock entries\<close>

text \<open>Every clock that has seen epoch \<open>r\<close> of thread \<open>i\<close> has seen \<open>x\<close> of thread \<open>j\<close>; this stays so when the system goes on.\<close>

definition seen :: "int \<Rightarrow> nat \<Rightarrow> int \<Rightarrow> nat \<Rightarrow> clock \<Rightarrow> bool" where
  "seen r i x j V \<longleftrightarrow> (r \<le> V i \<longrightarrow> x \<le> V j)"

definition dominates :: "clock list \<Rightarrow> clock set \<Rightarrow> int \<Rightarrow> nat \<Rightarrow> int \<Rightarrow> nat \<Rightarrow> bool" where
  "dominates T L r i x j \<longleftrightarrow> x \<le> 0 \<or> 0 < r \<and> (\<forall>V \<in> set T \<union> L. seen r i x j V)"

lemma seen_sup: "seen r i x j U \<Longrightarrow> seen r i x j V \<Longrightarrow> seen r i x j (sup U V)"
  by (auto simp: seen_def sup_max le_max_iff_disj)

lemma seen_tick: "seen r i x j V \<Longrightarrow> (i = k \<Longrightarrow> r \<le> V k) \<Longrightarrow> seen r i x j (V(k := V k + 1))"
  by (auto simp: seen_def)

lemma dominates_evolves:
  assumes "evolves T L T' L'" "dominates T L r i x j" "sys_ok T L" "i < length T \<Longrightarrow> r \<le> (T ! i) i" "length T \<le> i \<Longrightarrow> r = 0"
  shows "dominates T' L' r i x j"
proof (cases "x \<le> 0")
  case False
  then have r: "0 < r" and al: "\<And>V. V \<in> set T \<union> L \<Longrightarrow> seen r i x j V" using assms(2) by (auto simp: dominates_def)
  then have i: "i < length T" "r \<le> (T ! i) i" using assms(4,5) by force+
  have nth: "seen r i x j (T ! k)" if "k < length T" for k using al that by simp
  have tk: "seen r i x j ((T ! k)(k := (T ! k) k + 1))" if "k < length T" for k
    using i by (intro seen_tick nth that) auto
  have "\<forall>V \<in> set T' \<union> L'. seen r i x j V"
    using assms(1)
  proof cases
    case (acquire k V)
    have "seen r i x j (sup (T ! k) V)" using acquire by (intro seen_sup nth al) auto
    then show ?thesis using acquire al nth by (auto simp: in_set_conv_nth nth_list_update)
  next
    case (release k V)
    have "seen r i x j (sup V (T ! k))" using release by (intro seen_sup nth al) auto
    then show ?thesis using release al nth tk [of k] by (auto simp: in_set_conv_nth tick_def nth_list_update)
  next
    case (send k m)
    have "seen r i x j (sup (tick k T ! m) (T ! k))" using send nth tk by (intro seen_sup) auto
    then show ?thesis
      using send al nth tk [of k] tick_join [OF send(3,4)] by (auto simp: in_set_conv_nth nth_list_update)
  next
    case new_thread
    have "seen r i x j ((\<lambda>_. 0)(length T := 1))" using r i by (auto simp: seen_def)
    then show ?thesis using new_thread al by auto
  next
    case new_lock
    have "seen r i x j (\<lambda>_. 0)" using r by (auto simp: seen_def)
    then show ?thesis using new_lock al by auto
  qed
  then show ?thesis using r by (simp add: dominates_def)
qed (simp add: dominates_def)

text \<open>An entry that is the current epoch of its thread was so before, and the thread's clock has only grown.\<close>

lemma evolves_mono:
  assumes "evolves T L T' L'" "i < length T"
  shows "i < length T' \<and> T ! i \<le> T' ! i"
  using assms(1)
proof cases
  case (send k m)
  then show ?thesis using assms(2) tick_join [OF send(3,4)] by (auto simp: nth_list_update le_fun_def sup_max)
qed (use assms(2) in \<open>auto simp: nth_list_update nth_append le_fun_def tick_def sup_max\<close>)

lemma evolves_current:
  assumes "evolves T L T' L'" "sys_ok T L" "i < length T'" "r = (T' ! i) i" "i < length T \<Longrightarrow> r \<le> (T ! i) i" "length T \<le> i \<Longrightarrow> r = 0"
  shows "i < length T" "r = (T ! i) i" "T ! i \<le> T' ! i"
proof -
  have "sys_ok T' L'" using assms evolves_sys_ok by blast
  then have "0 < r" using assms(3,4) sys_okD(3) by blast
  then show i: "i < length T" using assms(6) by force
  show le: "T ! i \<le> T' ! i" by (rule evolves_mono [OF assms(1) i, THEN conjunct2])
  show "r = (T ! i) i" using le_funD [OF le, of i] assms(4) assms(5) [OF i] by simp
qed

lemma evolves_length: "evolves T L T' L' \<Longrightarrow> length T \<le> length T'"
  by (cases rule: evolves.cases) auto

section \<open>DJIT and FastTrack\<close>

text \<open>The read and write clocks \<open>rx\<close>, \<open>wx\<close> of DJIT, and the read clock \<open>rv\<close> and epochs of FastTrack.\<close>

definition clocks_bounded :: "clock list \<Rightarrow> clock \<Rightarrow> clock \<Rightarrow> bool" where
  "clocks_bounded T rx wx \<longleftrightarrow> (\<forall>i < length T. rx i \<le> (T ! i) i \<and> wx i \<le> (T ! i) i) \<and> (\<forall>i \<ge> length T. rx i = 0 \<and> wx i = 0)"

definition clocks_current :: "clock list \<Rightarrow> clock \<Rightarrow> clock \<Rightarrow> bool" where
  "clocks_current T rx wx \<longleftrightarrow> (\<forall>i < length T. (rx i = (T ! i) i \<longrightarrow> wx \<le> T ! i) \<and> (wx i = (T ! i) i \<longrightarrow> rx \<le> T ! i))"

definition write_epoch_ok :: "clock list \<Rightarrow> clock set \<Rightarrow> clock \<Rightarrow> epoch_t \<Rightarrow> bool" where
  "write_epoch_ok T L wx e \<longleftrightarrow> 0 \<le> ep_thread e \<and> ep_thread e < int VC_INITIAL_SZ \<and> wx (nat (ep_thread e)) = ep_clock e \<and>
     (\<forall>j. dominates T L (ep_clock e) (nat (ep_thread e)) (wx j) j)"

definition read_shared_ok :: "clock list \<Rightarrow> clock set \<Rightarrow> clock \<Rightarrow> clock \<Rightarrow> bool" where
  "read_shared_ok T L rx rv \<longleftrightarrow> (\<forall>j. \<exists>i. dominates T L (rv i) i (rx j) j)"

definition reads_ok :: "clock list \<Rightarrow> clock set \<Rightarrow> clock \<Rightarrow> clock \<Rightarrow> epoch_t \<Rightarrow> bool \<Rightarrow> bool" where
  "reads_ok T L rx rv e shared \<longleftrightarrow> (\<forall>i. 0 \<le> rv i \<and> rv i \<le> rx i) \<and> 0 \<le> ep_thread e \<and> ep_thread e < int VC_INITIAL_SZ \<and>
     ep_clock e \<le> rx (nat (ep_thread e)) \<and>
     (if shared then read_shared_ok T L rx rv else rv = (\<lambda>_. 0) \<and> write_epoch_ok T L rx e)"

definition agree :: "clock list \<Rightarrow> clock set \<Rightarrow> djit_variable \<Rightarrow> ft_variable \<Rightarrow> bool" where
  "agree T L d f \<longleftrightarrow> vc_ok (dj_rx d) \<and> vc_ok (dj_wx d) \<and> vc_ok (ft_rx_vc f) \<and> (\<forall>i. 0 \<le> vclk (dj_wx d) i) \<and>
     clocks_bounded T (vclk (dj_rx d)) (vclk (dj_wx d)) \<and> clocks_current T (vclk (dj_rx d)) (vclk (dj_wx d)) \<and>
     write_epoch_ok T L (vclk (dj_wx d)) (ft_wx_epoch f) \<and>
     reads_ok T L (vclk (dj_rx d)) (vclk (ft_rx_vc f)) (ft_rx_epoch f) (is_shared f)"

lemma clocks_bounded_evolves:
  assumes ev: "evolves T L T' L'" and ok: "sys_ok T L" and b: "clocks_bounded T rx wx"
  shows "clocks_bounded T' rx wx"
proof -
  have "rx i \<le> (T' ! i) i \<and> wx i \<le> (T' ! i) i" if "i < length T'" for i
  proof (cases "i < length T")
    case True
    have "(T ! i) i \<le> (T' ! i) i" using evolves_mono [OF ev True] by (simp add: le_fun_def)
    then show ?thesis using b True by (auto simp: clocks_bounded_def)
  next
    case False
    then show ?thesis using b sys_okD(3) [OF evolves_sys_ok [OF ev ok] that] by (simp add: clocks_bounded_def)
  qed
  then show ?thesis using b evolves_length [OF ev] by (auto simp: clocks_bounded_def)
qed

lemma clocks_current_evolves:
  assumes ev: "evolves T L T' L'" and ok: "sys_ok T L" and b: "clocks_bounded T rx wx" and c: "clocks_current T rx wx"
  shows "clocks_current T' rx wx"
proof -
  have bd: "i < length T \<Longrightarrow> rx i \<le> (T ! i) i" "length T \<le> i \<Longrightarrow> rx i = 0"
    "i < length T \<Longrightarrow> wx i \<le> (T ! i) i" "length T \<le> i \<Longrightarrow> wx i = 0" for i
    using b by (simp_all add: clocks_bounded_def)
  have "wx \<le> T' ! i" if "i < length T'" "rx i = (T' ! i) i" for i
    using evolves_current [OF ev ok that bd(1,2)] c order_trans unfolding clocks_current_def by blast
  moreover have "rx \<le> T' ! i" if "i < length T'" "wx i = (T' ! i) i" for i
    using evolves_current [OF ev ok that bd(3,4)] c order_trans unfolding clocks_current_def by blast
  ultimately show ?thesis by (simp add: clocks_current_def)
qed

lemma write_epoch_evolves:
  assumes "evolves T L T' L'" "sys_ok T L" "\<And>i. i < length T \<Longrightarrow> wx i \<le> (T ! i) i" "\<And>i. length T \<le> i \<Longrightarrow> wx i = 0" "write_epoch_ok T L wx e"
  shows "write_epoch_ok T' L' wx e"
  using assms(5) dominates_evolves [OF assms(1) _ assms(2)] assms(3,4) [of "nat (ep_thread e)"] by (simp add: write_epoch_ok_def)

lemma agree_evolves:
  assumes ev: "evolves T L T' L'" and ok: "sys_ok T L" and ag: "agree T L d f"
  shows "agree T' L' d f"
proof -
  let ?rx = "vclk (dj_rx d)" and ?wx = "vclk (dj_wx d)" and ?rv = "vclk (ft_rx_vc f)"
  have b: "clocks_bounded T ?rx ?wx" and r: "reads_ok T L ?rx ?rv (ft_rx_epoch f) (is_shared f)" using ag by (simp_all add: agree_def)
  have rv: "i < length T \<Longrightarrow> ?rv i \<le> (T ! i) i" "length T \<le> i \<Longrightarrow> ?rv i = 0" for i
    using b r by (auto simp: clocks_bounded_def reads_ok_def intro: order_trans)
       (metis order_antisym)
  have "read_shared_ok T' L' ?rx ?rv" if "read_shared_ok T L ?rx ?rv"
    unfolding read_shared_ok_def
  proof
    fix j
    obtain i where "dominates T L (?rv i) i (?rx j) j" using \<open>read_shared_ok T L ?rx ?rv\<close> by (auto simp: read_shared_ok_def)
    then show "\<exists>i. dominates T' L' (?rv i) i (?rx j) j" using dominates_evolves [OF ev _ ok] rv [of i] by blast
  qed
  then have "reads_ok T' L' ?rx ?rv (ft_rx_epoch f) (is_shared f)"
    using r write_epoch_evolves [OF ev ok, of ?rx] b by (auto simp: reads_ok_def clocks_bounded_def)
  then show ?thesis
    using ag clocks_bounded_evolves [OF ev ok b] clocks_current_evolves [OF ev ok b] write_epoch_evolves [OF ev ok, of ?wx] b
    by (auto simp: agree_def clocks_bounded_def)
qed


text \<open>A thread of the system.\<close>

definition thread_at :: "clock list \<Rightarrow> thread_t \<Rightarrow> nat \<Rightarrow> bool" where
  "thread_at T t i \<longleftrightarrow> i < length T \<and> th_idx t = int i \<and> (\<exists>vc. th_vc t = Some vc \<and> vc_ok vc \<and> vclk vc = T ! i)"

lemma epoch_covers:
  assumes "write_epoch_ok T L x e" "sys_ok T L" "V \<in> set T \<union> L"
  shows "x \<le> V \<longleftrightarrow> ep_clock e \<le> V (nat (ep_thread e))"
proof
  assume le: "ep_clock e \<le> V (nat (ep_thread e))"
  have "x j \<le> V j" for j
    using assms(1,3) le sys_okD(2) [OF assms(2,3), of j] unfolding write_epoch_ok_def dominates_def seen_def by (meson order_trans)
  then show "x \<le> V" by (simp add: le_fun_def)
next
  assume "x \<le> V"
  from le_funD [OF this, of "nat (ep_thread e)"] show "ep_clock e \<le> V (nat (ep_thread e))" using assms(1) by (simp add: write_epoch_ok_def)
qed

lemma shared_covers:
  assumes "read_shared_ok T L x y" "sys_ok T L" "V \<in> set T \<union> L" "\<And>i. y i \<le> x i"
  shows "x \<le> V \<longleftrightarrow> y \<le> V"
proof
  assume le: "y \<le> V"
  have "x j \<le> V j" for j
  proof -
    obtain i where "dominates T L (y i) i (x j) j" using assms(1) by (auto simp: read_shared_ok_def)
    then show ?thesis using assms(3) le_funD [OF le, of i] sys_okD(2) [OF assms(2,3), of j] unfolding dominates_def seen_def by (meson order_trans)
  qed
  then show "x \<le> V" by (simp add: le_fun_def)
qed (use assms(4) in \<open>auto simp: le_fun_def intro: order_trans\<close>)

lemma reads_cover:
  assumes "reads_ok T L rx rv e sh" "sys_ok T L" "V \<in> set T \<union> L"
  shows "rx \<le> V \<longleftrightarrow> (if sh then rv \<le> V else ep_clock e \<le> V (nat (ep_thread e)))"
  using assms(1) epoch_covers [OF _ assms(2,3)] shared_covers [OF _ assms(2,3)] by (auto simp: reads_ok_def)

text \<open>The current epoch of a thread is known to this thread only.\<close>

lemma own_epoch:
  assumes "sys_ok T L" "i < length T" "V \<in> set T \<union> L" "(T ! i) i \<le> V i"
  shows "V = T ! i"
proof (cases "V \<in> L")
  case True
  then show ?thesis using sys_okD(5) [OF assms(1) True assms(2)] assms(4) by simp
next
  case False
  then obtain k where "k < length T" "V = T ! k" using assms(3) by (auto simp: in_set_conv_nth)
  then show ?thesis using sys_okD(4) [OF assms(1,2), of k] assms(4) by force
qed

lemma own_write_epoch:
  assumes "sys_ok T L" "i < length T" "x \<le> T ! i" "c = (T ! i) i"
  shows "write_epoch_ok T L (x(i := c)) (epoch_set e (int i) c)"
proof -
  have "dominates T L c i ((x(i := c)) j) j" for j
    using own_epoch [OF assms(1,2)] sys_okD(3) [OF assms(1,2)] assms(3,4) unfolding dominates_def seen_def by (auto simp: le_fun_def)
  then show ?thesis using assms(2) sys_okD(1) [OF assms(1)] by (simp add: write_epoch_ok_def epoch_set_def)
qed

lemma epoch_before:
  assumes "vc_ok vc" "0 \<le> ep_thread e" "ep_thread e < int VC_INITIAL_SZ"
  shows "epoch_happens_before_vc e vc = (if ep_clock e \<le> vclk vc (nat (ep_thread e)) then 1 else 0)"
  using assms vclk_get [OF assms] by (simp add: epoch_happens_before_vc_def)

lemma thread_clock:
  assumes "thread_at T t i" "length T \<le> VC_INITIAL_SZ"
  shows "thread_get_clock t = Ok ((T ! i) i)"
proof -
  obtain vc where "th_vc t = Some vc" "vc_ok vc" "vclk vc = T ! i" "th_idx t = int i" "i < VC_INITIAL_SZ"
    using assms by (auto simp: thread_at_def)
  then show ?thesis using vclk_get [of vc "int i"] by (simp add: thread_get_clock_def deref_def)
qed

text \<open>Recording an access.\<close>

lemma current_read:
  assumes "sys_ok T L" "i < length T" "clocks_current T rx wx" "wx \<le> T ! i"
  shows "clocks_current T (rx(i := (T ! i) i)) wx"
proof -
  have "rx(i := (T ! i) i) \<le> T ! k" if "k < length T" "wx k = (T ! k) k" for k
  proof (cases "k = i")
    case True
    then show ?thesis using assms(3) that by (auto simp: clocks_current_def le_fun_def)
  next
    case False
    then show ?thesis using sys_okD(4) [OF assms(1) that(1) assms(2)] le_funD [OF assms(4), of k] that(2) by simp
  qed
  then show ?thesis using assms(3,4) by (auto simp: clocks_current_def)
qed

lemma current_write: 
  assumes "sys_ok T L" "i < length T" "clocks_current T rx wx" "rx \<le> T ! i"
  shows "clocks_current T rx (wx(i := (T ! i) i))"
proof -
  have "clocks_current T wx rx" using assms(3) by (auto simp: clocks_current_def)
  from current_read [OF assms(1,2) this assms(4)] show ?thesis by (auto simp: clocks_current_def)
qed

lemma bounded_record:
  assumes "clocks_bounded T rx wx" "i < length T"
  shows "clocks_bounded T (rx(i := (T ! i) i)) wx" "clocks_bounded T rx (wx(i := (T ! i) i))"
  using assms by (auto simp: clocks_bounded_def)

lemma djit_update_write_eq:
  assumes "thread_at T t i" "length T \<le> VC_INITIAL_SZ" "vc_ok (dj_rx d)" "vc_ok (dj_wx d)"
  obtains wx' where "djit_update_write d t = Ok (if vclk (dj_wx d) \<le> T ! i \<and> vclk (dj_rx d) \<le> T ! i then (True, d\<lparr>dj_wx := wx'\<rparr>) else (False, d))"
    "vc_ok wx'" "vclk wx' = (vclk (dj_wx d))(i := (T ! i) i)"
proof -
  obtain vc where vc: "th_vc t = Some vc" "vc_ok vc" "vclk vc = T ! i" "th_idx t = int i" "i < VC_INITIAL_SZ"
    using assms by (auto simp: thread_at_def)
  obtain wx' where "vector_clock_set (dj_wx d) (int i) ((T ! i) i) = Ok wx'" "vc_ok wx'" "vclk wx' = (vclk (dj_wx d))(i := (T ! i) i)"
    using vclk_set [OF assms(4), of "int i" "(T ! i) i"] vc(5) by auto
  then show thesis
    using vc assms(3,4) thread_clock [OF assms(1,2)]
    by (intro that) (auto simp: djit_update_write_def djit_write_is_race_free_def deref_def vclk_before)
qed

lemma djit_update_read_eq:
  assumes "thread_at T t i" "length T \<le> VC_INITIAL_SZ" "vc_ok (dj_rx d)" "vc_ok (dj_wx d)"
  obtains rx' where "djit_update_read d t = Ok (if vclk (dj_wx d) \<le> T ! i then (True, d\<lparr>dj_rx := rx'\<rparr>) else (False, d))"
    "vc_ok rx'" "vclk rx' = (vclk (dj_rx d))(i := (T ! i) i)"
proof -
  obtain vc where vc: "th_vc t = Some vc" "vc_ok vc" "vclk vc = T ! i" "th_idx t = int i" "i < VC_INITIAL_SZ"
    using assms by (auto simp: thread_at_def)
  obtain rx' where "vector_clock_set (dj_rx d) (int i) ((T ! i) i) = Ok rx'" "vc_ok rx'" "vclk rx' = (vclk (dj_rx d))(i := (T ! i) i)"
    using vclk_set [OF assms(3), of "int i" "(T ! i) i"] vc(5) by auto
  then show thesis
    using vc assms(3,4) thread_clock [OF assms(1,2)]
    by (intro that) (auto simp: djit_update_read_def djit_read_is_race_free_def deref_def vclk_before)
qed


text \<open>The three ways in which FastTrack records a read.\<close>

lemma reads_exclusive:
  assumes "sys_ok T L" "i < length T" "reads_ok T L rx rv e False" "rx \<le> T ! i"
  shows "reads_ok T L (rx(i := (T ! i) i)) rv (epoch_set e (int i) ((T ! i) i)) False"
  using assms(3) own_write_epoch [OF assms(1,2,4) refl] sys_okD(1) [OF assms(1)] sys_okD(3) [OF assms(1,2)] assms(2)
  by (auto simp: reads_ok_def epoch_set_def)

lemma dominates_own: "sys_ok T L \<Longrightarrow> i < length T \<Longrightarrow> dominates T L ((T ! i) i) i ((T ! i) i) i"
  using sys_okD(3) by (auto simp: dominates_def seen_def)

lemma reads_shared:
  assumes ok: "sys_ok T L" "i < length T" and r: "reads_ok T L rx rv e True" and b: "rx i \<le> (T ! i) i"
  shows "reads_ok T L (rx(i := (T ! i) i)) (rv(i := (T ! i) i)) e True"
proof -
  let ?c = "(T ! i) i"
  have "\<exists>k. dominates T L ((rv(i := ?c)) k) k ((rx(i := ?c)) j) j" for j
  proof (cases "j = i")
    case True
    then show ?thesis using dominates_own [OF ok] by (intro exI [of _ i]) simp
  next
    case False
    obtain k where k: "dominates T L (rv k) k (rx j) j" using r by (auto simp: reads_ok_def read_shared_ok_def)
    have "rv i \<le> ?c" using r b by (auto simp: reads_ok_def intro: order_trans)
    then have "dominates T L ((rv(i := ?c)) k) k (rx j) j"
      using k sys_okD(3) [OF ok] by (auto simp: dominates_def seen_def)
    then show ?thesis using False by (intro exI [of _ k]) simp
  qed
  then show ?thesis using r b sys_okD(3) [OF ok] by (auto simp: reads_ok_def read_shared_ok_def)
qed

lemma reads_become_shared:
  assumes ok: "sys_ok T L" "i < length T" and r: "reads_ok T L rx rv e False" and n: "nat (ep_thread e) \<noteq> i"
  shows "reads_ok T L (rx(i := (T ! i) i)) ((rv(nat (ep_thread e) := ep_clock e))(i := (T ! i) i)) e True"
proof -
  let ?c = "(T ! i) i" and ?k = "nat (ep_thread e)" and ?rv = "(rv(nat (ep_thread e) := ep_clock e))(i := (T ! i) i)"
  have w: "write_epoch_ok T L rx e" "rv = (\<lambda>_. 0)" using r by (simp_all add: reads_ok_def)
  have nn: "0 \<le> rx j" for j using r by (auto simp: reads_ok_def)
  have ne: "0 \<le> ep_clock e" using nn [of ?k] w(1) by (simp add: write_epoch_ok_def)
  have "\<exists>k. dominates T L (?rv k) k ((rx(i := ?c)) j) j" for j
  proof (cases "j = i")
    case True
    then show ?thesis using dominates_own [OF ok] by (intro exI [of _ i]) simp
  next
    case False
    then show ?thesis using w(1) n by (intro exI [of _ ?k]) (simp add: write_epoch_ok_def)
  qed
  then show ?thesis using r w n nn ne sys_okD(3) [OF ok] by (auto simp: reads_ok_def read_shared_ok_def write_epoch_ok_def)
qed

lemma agreeD:
  assumes "agree T L d f"
  shows "vc_ok (dj_rx d)" "vc_ok (dj_wx d)" "vc_ok (ft_rx_vc f)" "clocks_bounded T (vclk (dj_rx d)) (vclk (dj_wx d))"
    "clocks_current T (vclk (dj_rx d)) (vclk (dj_wx d))" "write_epoch_ok T L (vclk (dj_wx d)) (ft_wx_epoch f)"
    "reads_ok T L (vclk (dj_rx d)) (vclk (ft_rx_vc f)) (ft_rx_epoch f) (is_shared f)"
  using assms by (simp_all add: agree_def)

lemma agree_write:
  assumes ok: "sys_ok T L" and ag: "agree T L d f" and t: "thread_at T t i"
  shows "\<exists>v d' f'. djit_update_write d t = Ok (v, d') \<and> ft_update_write f t = Ok (v, f') \<and> agree T L d' f'"
proof -
  let ?rx = "vclk (dj_rx d)" and ?wx = "vclk (dj_wx d)" and ?C = "T ! i" and ?c = "(T ! i) i"
  note a = agreeD [OF ag] and l = sys_okD(1) [OF ok]
  obtain vc where vc: "th_vc t = Some vc" "vc_ok vc" "vclk vc = ?C" "th_idx t = int i" "i < length T" using t by (auto simp: thread_at_def)
  have C: "?C \<in> set T \<union> L" using vc(5) by simp
  obtain wx' where w: "djit_update_write d t = Ok (if ?wx \<le> ?C \<and> ?rx \<le> ?C then (True, d\<lparr>dj_wx := wx'\<rparr>) else (False, d))"
      "vc_ok wx'" "vclk wx' = ?wx(i := ?c)"
    using djit_update_write_eq [OF t l a(1,2)] by metis
  have we: "0 \<le> ep_thread (ft_wx_epoch f)" "ep_thread (ft_wx_epoch f) < int VC_INITIAL_SZ" and re: "0 \<le> ep_thread (ft_rx_epoch f)" "ep_thread (ft_rx_epoch f) < int VC_INITIAL_SZ"
    using a(6,7) by (auto simp: write_epoch_ok_def reads_ok_def)
  note f = ft_update_write_def thread_clock [OF t l] deref_def vc epoch_before [OF vc(2) we, unfolded vc(3)] epoch_before [OF vc(2) re, unfolded vc(3)]
    epoch_covers [OF a(6) ok C, symmetric] vclk_before [OF a(3) vc(2), unfolded vc(3)]
  have rc: "(if \<not> is_shared f then \<not> ep_clock (ft_rx_epoch f) \<le> ?C (nat (ep_thread (ft_rx_epoch f))) else \<not> vclk (ft_rx_vc f) \<le> ?C) \<longleftrightarrow> \<not> ?rx \<le> ?C"
    using reads_cover [OF a(7) ok C] by auto
  show ?thesis
  proof (cases "?wx \<le> ?C \<and> ?rx \<le> ?C")
    case True
    have n: "0 \<le> ?c" using sys_okD(3) [OF ok vc(5)] by simp
    show ?thesis
    proof (cases "ep_thread (ft_wx_epoch f) = int i \<and> ep_clock (ft_wx_epoch f) = ?c")
      case same: True
      then have "?wx(i := ?c) = ?wx" using a(6) by (auto simp: write_epoch_ok_def)
      then show ?thesis using same True w ag by (intro exI [of _ True] exI [of _ "d\<lparr>dj_wx := wx'\<rparr>"] exI [of _ f]) (simp add: f agree_def)
    next
      case False
      let ?f = "f\<lparr>ft_wx_epoch := epoch_set (ft_wx_epoch f) (int i) ?c\<rparr>"
      have "ft_update_write f t = Ok (True, ?f)" using False True rc by (auto simp: f split: if_splits)
      moreover have "agree T L (d\<lparr>dj_wx := wx'\<rparr>) ?f"
        using ag True n w(2,3) own_write_epoch [OF ok vc(5) _ refl, of ?wx "ft_wx_epoch f"] current_write [OF ok vc(5) a(5)] bounded_record(2) [OF a(4) vc(5)]
        by (simp add: agree_def)
      ultimately show ?thesis using True w(1) by (intro exI [of _ True] exI [of _ "d\<lparr>dj_wx := wx'\<rparr>"] exI [of _ ?f]) simp
    qed
  next
    case False
    have "\<not> (ep_thread (ft_wx_epoch f) = int i \<and> ep_clock (ft_wx_epoch f) = ?c)"
    proof
      assume s: "ep_thread (ft_wx_epoch f) = int i \<and> ep_clock (ft_wx_epoch f) = ?c"
      then have "?wx i = ?c" using a(6) by (auto simp: write_epoch_ok_def)
      then have "?rx \<le> ?C" using a(5) vc(5) by (auto simp: clocks_current_def)
      moreover have "?wx \<le> ?C" using epoch_covers [OF a(6) ok C] s by simp
      ultimately show False using False by simp
    qed
    then have "ft_update_write f t = Ok (False, f)" using False rc by (auto simp: f split: if_splits)
    then show ?thesis using False w(1) ag by auto
  qed
qed


lemma agree_read:
  assumes ok: "sys_ok T L" and ag: "agree T L d f" and t: "thread_at T t i"
  shows "\<exists>v d' f'. djit_update_read d t = Ok (v, d') \<and> ft_update_read f t = Ok (v, f') \<and> agree T L d' f'"
proof -
  let ?rx = "vclk (dj_rx d)" and ?wx = "vclk (dj_wx d)" and ?rv = "vclk (ft_rx_vc f)" and ?C = "T ! i" and ?c = "(T ! i) i"
    and ?e = "ft_rx_epoch f"
  note a = agreeD [OF ag] and l = sys_okD(1) [OF ok]
  obtain vc where vc: "th_vc t = Some vc" "vc_ok vc" "vclk vc = ?C" "th_idx t = int i" "i < length T" using t by (auto simp: thread_at_def)
  have C: "?C \<in> set T \<union> L" and i: "i < VC_INITIAL_SZ" using vc(5) l by simp_all
  obtain rx' where w: "djit_update_read d t = Ok (if ?wx \<le> ?C then (True, d\<lparr>dj_rx := rx'\<rparr>) else (False, d))" "vc_ok rx'" "vclk rx' = ?rx(i := ?c)"
    using djit_update_read_eq [OF t l a(1,2)] by metis
  have we: "0 \<le> ep_thread (ft_wx_epoch f)" "ep_thread (ft_wx_epoch f) < int VC_INITIAL_SZ" and re: "0 \<le> ep_thread ?e" "ep_thread ?e < int VC_INITIAL_SZ"
    and rv: "?rv i \<le> ?rx i" and ec: "ep_clock ?e \<le> ?rx (nat (ep_thread ?e))"
    using a(6,7) by (auto simp: write_epoch_ok_def reads_ok_def)
  have b: "?rx i \<le> ?c" using a(4) vc(5) by (simp add: clocks_bounded_def)
  note f = ft_update_read_def thread_clock [OF t l] deref_def vc epoch_before [OF vc(2) we, unfolded vc(3)] epoch_before [OF vc(2) re, unfolded vc(3)]
    epoch_covers [OF a(6) ok C, symmetric] vclk_get [OF a(3), of "int i", simplified i]
  let ?seen = "ep_thread ?e = int i \<and> ep_clock ?e = ?c \<or> is_shared f \<and> ?rv i = ?c"
  consider (same) ?seen | (race) "\<not> ?seen" "\<not> ?wx \<le> ?C" | (new) "\<not> ?seen" "?wx \<le> ?C" by blast
  then show ?thesis
  proof cases
    case same
    then have "?rx i = ?c" using b rv ec by auto
    then have "?wx \<le> ?C" "?rx(i := ?c) = ?rx" using a(5) vc(5) by (auto simp: clocks_current_def)
    moreover have "ft_update_read f t = Ok (True, f)" using same i by (auto simp: f)
    ultimately show ?thesis using w ag by (intro exI [of _ True] exI [of _ "d\<lparr>dj_rx := rx'\<rparr>"] exI [of _ f]) (simp add: agree_def)
  next
    case race
    then have "ft_update_read f t = Ok (False, f)" using i by (auto simp: f)
    then show ?thesis using race w(1) ag by (intro exI [of _ False] exI [of _ d] exI [of _ f]) simp
  next
    case new
    have "\<exists>f'. ft_update_read f t = Ok (True, f') \<and> vc_ok (ft_rx_vc f') \<and> ft_wx_epoch f' = ft_wx_epoch f \<and>
        reads_ok T L (?rx(i := ?c)) (vclk (ft_rx_vc f')) (ft_rx_epoch f') (is_shared f')"
    proof (cases "is_shared f")
      case True
      obtain rv' where r: "vector_clock_set_checked (ft_rx_vc f) (int i) ?c = Ok rv'" "vc_ok rv'" "vclk rv' = ?rv(i := ?c)"
        using vclk_set [OF a(3), of "int i" ?c] i by auto
      then show ?thesis
        using new True i reads_shared [OF ok vc(5), where rx = ?rx and rv = ?rv and e = ?e] b a(7) by (intro exI [of _ "f\<lparr>ft_rx_vc := rv'\<rparr>"]) (auto simp: f)
    next
      case excl: False
      then have ro: "reads_ok T L ?rx ?rv ?e False" using a(7) by simp
      show ?thesis
      proof (cases "ep_clock ?e \<le> ?C (nat (ep_thread ?e))")
        case True
        then have "?rx \<le> ?C" using reads_cover [OF ro ok C] by simp
        then show ?thesis
          using new excl True i reads_exclusive [OF ok vc(5) ro] a(3)
          by (intro exI [of _ "f\<lparr>ft_rx_epoch := epoch_set ?e (int i) ?c\<rparr>"]) (auto simp: f)
      next
        case False
        have n: "nat (ep_thread ?e) \<noteq> i" using False ec b by auto
        obtain r1 where r1: "vector_clock_set_checked (ft_rx_vc f) (ep_thread ?e) (ep_clock ?e) = Ok r1" "vc_ok r1"
            "vclk r1 = ?rv(nat (ep_thread ?e) := ep_clock ?e)"
          using vclk_set [OF a(3) re] by metis
        obtain r2 where r2: "vector_clock_set_checked r1 (int i) ?c = Ok r2" "vc_ok r2" "vclk r2 = (vclk r1)(i := ?c)"
          using vclk_set [OF r1(2), of "int i" ?c] i by auto
        show ?thesis
          using new excl False i r1 r2 reads_become_shared [OF ok vc(5) ro n]
          by (intro exI [of _ "f\<lparr>ft_rx_vc := r2, is_shared := True\<rparr>"]) (auto simp: f)
      qed
    qed
    then obtain f' where f': "ft_update_read f t = Ok (True, f')" "vc_ok (ft_rx_vc f')" "ft_wx_epoch f' = ft_wx_epoch f"
        "reads_ok T L (?rx(i := ?c)) (vclk (ft_rx_vc f')) (ft_rx_epoch f') (is_shared f')" by blast
    have "agree T L (d\<lparr>dj_rx := rx'\<rparr>) f'"
      using ag f' w(2,3) current_read [OF ok vc(5) a(5) new(2)] bounded_record(1) [OF a(4) vc(5)] by (simp add: agree_def)
    then show ?thesis using f'(1) w(1) new(2) by (intro exI [of _ True] exI [of _ "d\<lparr>dj_rx := rx'\<rparr>"] exI [of _ f']) simp
  qed
qed


end
