(* ===== verification/Race_Equal.thy ===== *)
theory Race_Equal
  imports Race_Clocks
begin

text \<open>
  Detectors that can be exchanged: the plugin, built with either of two detectors whose variables stay related, gives the
  same verdict on every access of every sequence of events. DJIT and FastTrack are such detectors.
\<close>

section \<open>Threads and locks without variables\<close>

definition res_map :: "('a \<Rightarrow> 'b) \<Rightarrow> 'a res \<Rightarrow> 'b res" where
  "res_map f r = res_bind r (\<lambda>x. Ok (f x))"

lemma res_map_simps [simp]:
  "res_map f (Ok x) = Ok (f x)" "res_map f Assert_Fail = Assert_Fail" "res_map f Spin = Spin" "res_map f Mem_Fault = Mem_Fault"
  "res_map f Undef = Undef" "res_map f No_Fuel = No_Fuel"
  by (simp_all add: res_map_def)

lemma res_bind_map: "res_bind (res_map f r) g = res_bind r (\<lambda>x. g (f x))"
  by (cases r) auto

lemma res_map_bind: "res_map f (res_bind r g) = res_bind r (\<lambda>x. res_map f (g x))"
  by (cases r) auto

definition strip :: "'v race_state \<Rightarrow> unit race_state" where
  "strip st = \<lparr>rs_threads = rs_threads st, rs_locks = rs_locks st, rs_variables = \<lparr>items = [], list_capacity = 0, index_ht = index_ht (rs_variables st)\<rparr>\<rparr>"

definition with_vars :: "'v option index_list \<Rightarrow> unit race_state \<Rightarrow> 'v race_state" where
  "with_vars vs u = \<lparr>rs_threads = rs_threads u, rs_locks = rs_locks u, rs_variables = vs\<rparr>"

lemma with_vars_simps [simp]:
  "rs_threads (with_vars vs u) = rs_threads u" "rs_locks (with_vars vs u) = rs_locks u" "rs_variables (with_vars vs u) = vs"
  "with_vars (rs_variables st) (strip st) = st" "rs_threads (strip st) = rs_threads st" "rs_locks (strip st) = rs_locks st"
  by (simp_all add: with_vars_def strip_def)

text \<open>The operations that do not concern variables.\<close>

lemma with_vars_get_thread: "get_thread mem i (with_vars vs u) = res_map (\<lambda>(k, u). (k, with_vars vs u)) (get_thread mem i u)"
  by (simp add: get_thread_def res_map_bind with_vars_def case_prod_unfold)

lemma with_vars_get_lock: "get_lock mem a (with_vars vs u) = res_map (\<lambda>(k, u). (k, with_vars vs u)) (get_lock mem a u)"
  by (simp add: get_lock_def res_map_bind with_vars_def case_prod_unfold)

lemma with_vars_upd_threads: "upd_threads f (with_vars vs u) = res_map (with_vars vs) (upd_threads f u)"
  by (simp add: upd_threads_def res_map_bind with_vars_def)

lemmas with_vars_ops = with_vars_get_thread with_vars_get_lock with_vars_upd_threads

lemma with_vars_fork: "process_fork mem p c (with_vars vs u) = res_map (with_vars vs) (process_fork mem p c u)"
  by (simp add: process_fork_def with_vars_ops res_bind_map res_map_bind case_prod_unfold if_distrib [of "res_map _"] cong: if_cong)

lemma with_vars_join: "process_join mem p c (with_vars vs u) = res_map (with_vars vs) (process_join mem p c u)"
  by (simp add: process_join_def with_vars_ops res_bind_map res_map_bind case_prod_unfold)

lemma with_vars_lock: "process_lock mem t a (with_vars vs u) = res_map (with_vars vs) (process_lock mem t a u)"
  by (simp add: process_lock_def with_vars_ops res_bind_map res_map_bind case_prod_unfold)

lemma with_vars_unlock: "process_unlock mem t a (with_vars vs u) = res_map (with_vars vs) (process_unlock mem t a u)"
  by (simp add: process_unlock_def with_vars_ops res_bind_map res_map_bind case_prod_unfold) (simp add: with_vars_def)

section \<open>Steps of the system\<close>

definition threads_ok :: "thread_t list \<Rightarrow> bool" where
  "threads_ok ts \<longleftrightarrow> (\<forall>i < length ts. th_idx (ts ! i) = int i \<and> (\<exists>vc. th_vc (ts ! i) = Some vc \<and> vc_ok vc))"

definition tclk :: "thread_t list \<Rightarrow> clock list" where
  "tclk ts = map (\<lambda>t. vclk (the (th_vc t))) ts"

definition locks_ok :: "lock_t list \<Rightarrow> bool" where
  "locks_ok ls \<longleftrightarrow> (\<forall>l \<in> set ls. \<exists>vc. lk_vc l = Some vc \<and> vc_ok vc)"

definition lclk :: "lock_t list \<Rightarrow> clock set" where
  "lclk ls = (\<lambda>l. vclk (the (lk_vc l))) ` set ls"

text \<open>The clocks of a state, and a state the system invariant holds in.\<close>

definition race_ok :: "'v race_state \<Rightarrow> bool" where
  "race_ok st \<longleftrightarrow> threads_ok (items (rs_threads st)) \<and> locks_ok (items (rs_locks st)) \<and>
     sys_ok (tclk (items (rs_threads st))) (lclk (items (rs_locks st)))"

definition clock_step :: "clock list \<times> clock set \<Rightarrow> clock list \<times> clock set \<Rightarrow> bool" where
  "clock_step s s' \<longleftrightarrow> evolves (fst s) (snd s) (fst s') (snd s')"

definition clocks_of :: "'v race_state \<Rightarrow> clock list \<times> clock set" where
  "clocks_of st = (tclk (items (rs_threads st)), lclk (items (rs_locks st)))"

definition leads_to :: "'v race_state \<Rightarrow> 'v race_state \<Rightarrow> bool" where
  "leads_to st st' \<longleftrightarrow> race_ok st' \<and> clock_step\<^sup>*\<^sup>* (clocks_of st) (clocks_of st')"

lemma leads_to_refl: "race_ok st \<Longrightarrow> leads_to st st"
  by (simp add: leads_to_def)

lemma leads_to_trans: "leads_to st st' \<Longrightarrow> leads_to st' st'' \<Longrightarrow> leads_to st st''"
  by (auto simp: leads_to_def)

lemma leads_to_step:
  assumes "race_ok st" "evolves (tclk (items (rs_threads st))) (lclk (items (rs_locks st))) (tclk (items (rs_threads st'))) (lclk (items (rs_locks st')))"
    "threads_ok (items (rs_threads st'))" "locks_ok (items (rs_locks st'))"
  shows "leads_to st st'"
  using assms evolves_sys_ok [OF assms(2)] by (auto simp: leads_to_def race_ok_def clock_step_def clocks_of_def)

lemma tclk_simps [simp]:
  "length (tclk ts) = length ts" "i < length ts \<Longrightarrow> tclk ts ! i = vclk (the (th_vc (ts ! i)))"
  "tclk (ts[i := t]) = (tclk ts)[i := vclk (the (th_vc t))]" "tclk (ts @ [t]) = tclk ts @ [vclk (the (th_vc t))]"
  by (simp_all add: tclk_def map_update)

lemma threads_ok_at: "threads_ok ts \<Longrightarrow> i < length ts \<Longrightarrow> thread_at (tclk ts) (ts ! i) i"
  by (auto simp: threads_ok_def thread_at_def)

lemma threads_ok_update:
  assumes "threads_ok ts" "i < length ts" "th_vc t = Some vc" "vc_ok vc" "th_idx t = th_idx (ts ! i)"
  shows "threads_ok (ts[i := t])"
  using assms by (auto simp: threads_ok_def nth_list_update)

lemma thread_update_vc_eq:
  assumes "threads_ok ts" "i < length ts" "o' = Some w" "vc_ok w"
  obtains t where "thread_update_vc (ts ! i) o' = Ok t" "threads_ok (ts[i := t])" "vclk (the (th_vc t)) = sup (tclk ts ! i) (vclk w)" "th_idx t = int i"
proof -
  obtain vc where vc: "th_vc (ts ! i) = Some vc" "vc_ok vc" "th_idx (ts ! i) = int i" using assms(1,2) by (auto simp: threads_ok_def)
  obtain c where c: "vector_clock_update vc w = Ok c" "vc_ok c" "vclk c = sup (vclk vc) (vclk w)" using vclk_update [OF vc(2) assms(4)] .
  show thesis
    by (rule that [of "(ts ! i)\<lparr>th_vc := Some c\<rparr>"])
      (use vc c assms in \<open>auto simp: thread_update_vc_def deref_def intro!: threads_ok_update\<close>)
qed

lemma thread_increment_eq:
  assumes "threads_ok ts" "i < length ts" "length ts \<le> VC_INITIAL_SZ" "thread_increment (ts ! i) = Ok t"
  shows "threads_ok (ts[i := t])" "vclk (the (th_vc t)) = (tclk ts ! i)(i := (tclk ts ! i) i + 1)"
proof -
  obtain vc where vc: "th_vc (ts ! i) = Some vc" "vc_ok vc" "th_idx (ts ! i) = int i" using assms(1,2) by (auto simp: threads_ok_def)
  obtain c where c: "vector_clock_increment vc (int i) = (if vclk vc i = INT_MAX then Undef else Ok c)" "vc_ok c" "vclk c = (vclk vc)(i := vclk vc i + 1)"
    using vclk_increment [OF vc(2), of "int i"] assms(2,3) by auto
  have t: "t = (ts ! i)\<lparr>th_vc := Some c\<rparr>" using assms(4) vc c(1) by (auto simp: thread_increment_def deref_def res_bind_eq_Ok split: if_splits)
  show "threads_ok (ts[i := t])" "vclk (the (th_vc t)) = (tclk ts ! i)(i := (tclk ts ! i) i + 1)"
    using vc c assms(1,2) t by (auto intro!: threads_ok_update)
qed


section \<open>The operations as steps\<close>

definition mem_ok :: "mem_env \<Rightarrow> bool" where
  "mem_ok mem \<longleftrightarrow> (\<forall>n. mem_malloc mem n) \<and> mem_calloc mem (of_nat VC_INITIAL_SZ) 4"

lemma list_smart_get_items:
  assumes "list_smart_get mem sz mk l key = Ok (i, l')"
  shows "items l' = items l \<or> (\<exists>x. mk (length (items l)) = Ok x \<and> items l' = items l @ [x])"
proof -
  have "\<exists>x. mk (length (items l)) = Ok x \<and> items l' = items l @ [x]" if "list_append mem sz mk l key = Ok (i, l')"
    using that by (auto simp: list_append_def Let_def res_bind_eq_Ok split: if_splits)
  then show ?thesis
    using assms by (auto simp: list_smart_get_def res_bind_eq_Ok split: option.splits prod.splits)
qed

lemma thread_init_new:
  assumes "mem_ok mem" "thread_init mem (int n) = Ok (r, t)"
  shows "n < VC_INITIAL_SZ" "th_idx t = int n" "\<exists>vc. th_vc t = Some vc \<and> vc_ok vc \<and> vclk vc = (\<lambda>_. 0)(n := 1)"
proof -
  let ?z = "\<lparr>clocks = replicate VC_INITIAL_SZ 0\<rparr>"
  have i: "vector_clock_init mem VC_INITIAL_SZ = (1, Some ?z)" "mem_malloc mem sizeof_vector_clock"
    using assms(1) by (simp_all add: mem_ok_def vector_clock_init_def)
  then obtain vc where vc: "vector_clock_increment ?z (int n) = Ok vc" "t = \<lparr>th_idx = int n, th_vc = Some vc\<rparr>"
    using assms(2) by (auto simp: thread_init_def res_bind_eq_Ok)
  show n: "n < VC_INITIAL_SZ" using vc(1) by (simp add: vector_clock_increment_def res_assert_def split: if_splits)
  obtain vc' where "vector_clock_increment ?z (int n) = (if vclk ?z n = INT_MAX then Undef else Ok vc')" "vc_ok vc'" "vclk vc' = (vclk ?z)(n := vclk ?z n + 1)"
    using vclk_increment [OF vc_zero(1), of "int n"] n by auto
  then show "th_idx t = int n" "\<exists>vc. th_vc t = Some vc \<and> vc_ok vc \<and> vclk vc = (\<lambda>_. 0)(n := 1)"
    using vc vc_zero(2) by (auto split: if_splits)
qed

lemma lock_init_new:
  assumes "mem_ok mem"
  shows "\<exists>vc. lk_vc (snd (lock_init mem)) = Some vc \<and> vc_ok vc \<and> vclk vc = (\<lambda>_. 0)"
  using assms vc_zero by (simp add: mem_ok_def lock_init_def vector_clock_init_def)

lemma get_thread_leads:
  assumes "mem_ok mem" "race_ok st" "get_thread mem k st = Ok (i, st')"
  shows "leads_to st st'" "rs_locks st' = rs_locks st" "rs_variables st' = rs_variables st"
proof -
  obtain l where l: "thread_list_smart_get mem (rs_threads st) (word_of_int k) = Ok (i, l)" "st' = st\<lparr>rs_threads := l\<rparr>"
    using assms(3) by (auto simp: get_thread_def res_bind_eq_Ok)
  then show "rs_locks st' = rs_locks st" "rs_variables st' = rs_variables st" by simp_all
  let ?ts = "items (rs_threads st)"
  consider "items l = ?ts" | t r where "thread_init mem (int (length ?ts)) = Ok (r, t)" "items l = ?ts @ [t]"
    using list_smart_get_items [OF l(1) [unfolded thread_list_smart_get_def]] by (auto simp: res_bind_eq_Ok)
  then show "leads_to st st'"
  proof cases
    case 1
    then show ?thesis using assms(2) l(2) by (simp add: leads_to_def race_ok_def clocks_of_def)
  next
    case 2
    note t = thread_init_new [OF assms(1) 2(1)]
    have "evolves (tclk ?ts) L (tclk ?ts @ [(\<lambda>_. 0)(length (tclk ?ts) := 1)]) L" for L
      by (rule new_thread) (use t(1) in simp)
    moreover have "threads_ok (?ts @ [t])" using assms(2) t by (auto simp: race_ok_def threads_ok_def nth_append less_Suc_eq)
    ultimately show ?thesis
      using assms(2) l(2) 2(2) t(3) by (intro leads_to_step) (auto simp: race_ok_def)
  qed
qed

lemma get_lock_leads:
  assumes "mem_ok mem" "race_ok st" "get_lock mem a st = Ok (i, st')"
  shows "leads_to st st'" "rs_threads st' = rs_threads st" "rs_variables st' = rs_variables st"
proof -
  obtain l where l: "lock_list_smart_get mem (rs_locks st) a = Ok (i, l)" "st' = st\<lparr>rs_locks := l\<rparr>"
    using assms(3) by (auto simp: get_lock_def res_bind_eq_Ok)
  then show "rs_threads st' = rs_threads st" "rs_variables st' = rs_variables st" by simp_all
  let ?ls = "items (rs_locks st)"
  consider "items l = ?ls" | "items l = ?ls @ [snd (lock_init mem)]"
    using list_smart_get_items [OF l(1) [unfolded lock_list_smart_get_def]] by auto
  then show "leads_to st st'"
  proof cases
    case 1
    then show ?thesis using assms(2) l(2) by (simp add: leads_to_def race_ok_def clocks_of_def)
  next
    case 2
    have "lclk (items l) = insert (\<lambda>_. 0) (lclk ?ls)" using lock_init_new [OF assms(1)] by (auto simp: lclk_def 2)
    moreover have "locks_ok (items l)" using assms(2) lock_init_new [OF assms(1)] by (auto simp: race_ok_def locks_ok_def 2)
    ultimately show ?thesis
      using assms(2) l(2) by (intro leads_to_step) (auto simp: race_ok_def intro: evolves.new_lock)
  qed
qed

text \<open>Fork and join send the clock of one thread to the other, which then ticks.\<close>

lemma send_leads:
  assumes st: "race_ok st" and r: "arr_get (items (rs_threads st)) i = Ok s" "upd_at (items (rs_threads st)) j (\<lambda>t. thread_update_vc t (th_vc s)) = Ok ts"
    "upd_at ts i thread_increment = Ok ts'"
  shows "leads_to st (st\<lparr>rs_threads := (rs_threads st)\<lparr>items := ts'\<rparr>\<rparr>)"
proof -
  let ?ts = "items (rs_threads st)" and ?n = "nat i" and ?m = "nat j"
  have ok: "threads_ok ?ts" "length ?ts \<le> VC_INITIAL_SZ" using st sys_okD(1) by (fastforce simp: race_ok_def)+
  obtain t where t: "0 \<le> i" "?n < length ?ts" "s = ?ts ! ?n" "0 \<le> j" "?m < length ?ts" "thread_update_vc (?ts ! ?m) (th_vc s) = Ok t" "ts = ?ts[?m := t]"
    using r(1,2) by (auto simp: upd_at_def arr_get_eq_Ok arr_set_eq_Ok res_bind_eq_Ok nat_less_iff)
  obtain w where w: "th_vc s = Some w" "vc_ok w" "vclk w = tclk ?ts ! ?n" using ok(1) t(2,3) by (auto simp: threads_ok_def)
  obtain t0 where t0: "thread_update_vc (?ts ! ?m) (th_vc s) = Ok t0" "threads_ok (?ts[?m := t0])" "vclk (the (th_vc t0)) = sup (tclk ?ts ! ?m) (vclk w)"
    using thread_update_vc_eq [OF ok(1) t(5) w(1,2)] by metis
  have tt: "t0 = t" using t0(1) t(6) by simp
  obtain u where u: "thread_increment (ts ! ?n) = Ok u" "ts' = ts[?n := u]"
    using r(3) by (auto simp: upd_at_def arr_get_eq_Ok arr_set_eq_Ok res_bind_eq_Ok)
  have ts: "threads_ok ts" "tclk ts = (tclk ?ts)[?m := sup (tclk ?ts ! ?m) (tclk ?ts ! ?n)]" "length ts = length ?ts"
    using t0(2,3) w(3) t(7) tt by simp_all
  note inc = thread_increment_eq [OF ts(1) _ _ u(1)]
  have "evolves (tclk ?ts) L (tick ?n ((tclk ?ts)[?m := sup (tclk ?ts ! ?m) (tclk ?ts ! ?n)])) L" for L
    by (rule evolves.send) (use t in simp_all)
  moreover have "tclk ts' = tick ?n (tclk ts)" "threads_ok ts'" using inc ts(3) t(2) ok(2) u(2) by (simp_all add: tick_def)
  ultimately show ?thesis using st by (intro leads_to_step) (simp_all add: race_ok_def ts(2))
qed


lemma process_fork_leads:
  assumes "mem_ok mem" "race_ok st" "process_fork mem p c st = Ok st'"
  shows "leads_to st st'"
proof -
  obtain i st1 where c: "get_thread mem c st = Ok (i, st1)"
      "(if p \<noteq> 0 then res_bind (get_thread mem p st1) (\<lambda>(k, st). upd_threads (thread_fork k i) st) else Ok st1) = Ok st'"
    using assms(3) by (auto simp: process_fork_def res_bind_eq_Ok)
  note l1 = get_thread_leads(1) [OF assms(1,2) c(1)]
  show ?thesis
  proof (cases "p = 0")
    case True
    then show ?thesis using c(2) l1 by simp
  next
    case False
    then obtain k st2 where k: "get_thread mem p st1 = Ok (k, st2)" "upd_threads (thread_fork k i) st2 = Ok st'"
      using c(2) by (auto simp: res_bind_eq_Ok)
    note l2 = get_thread_leads(1) [OF assms(1) _ k(1)]
    have ok: "race_ok st1" using l1 by (simp add: leads_to_def)
    then have "race_ok st2" using l2 by (simp add: leads_to_def)
    from send_leads [OF this, where i = k and j = i] k(2) have "leads_to st2 st'"
      by (auto simp: upd_threads_def thread_fork_def res_bind_eq_Ok)
    then show ?thesis using l1 l2 [OF ok] leads_to_trans by blast
  qed
qed

lemma process_join_leads:
  assumes "mem_ok mem" "race_ok st" "process_join mem p c st = Ok st'"
  shows "leads_to st st'"
proof -
  obtain i st1 k st2 where c: "get_thread mem c st = Ok (i, st1)" and k: "get_thread mem p st1 = Ok (k, st2)" "upd_threads (thread_join k i) st2 = Ok st'"
    using assms(3) by (auto simp: process_join_def res_bind_eq_Ok)
  note l1 = get_thread_leads(1) [OF assms(1,2) c] and l2 = get_thread_leads(1) [OF assms(1) _ k(1)]
  have ok: "race_ok st1" using l1 by (simp add: leads_to_def)
  then have "race_ok st2" using l2 by (simp add: leads_to_def)
  from send_leads [OF this, where i = i and j = k] k(2) have "leads_to st2 st'"
    by (auto simp: upd_threads_def thread_join_def res_bind_eq_Ok)
  then show ?thesis using l1 l2 [OF ok] leads_to_trans by blast
qed

lemma locks_ok_at:
  assumes "locks_ok ls" "k < length ls"
  obtains vc where "lk_vc (ls ! k) = Some vc" "vc_ok vc" "vclk vc \<in> lclk ls"
proof -
  obtain vc where vc: "lk_vc (ls ! k) = Some vc" "vc_ok vc" using bspec [OF assms(1) [unfolded locks_ok_def] nth_mem [OF assms(2)]] by blast
  then have "vclk vc \<in> lclk ls" using nth_mem [OF assms(2)] unfolding lclk_def by (intro image_eqI [of _ _ "ls ! k"]) simp_all
  then show thesis using vc that by blast
qed

lemma process_lock_leads:
  assumes "mem_ok mem" "race_ok st" "process_lock mem t a st = Ok st'"
  shows "leads_to st st'"
proof -
  obtain i st1 k st2 l ts where c: "get_thread mem t st = Ok (i, st1)" "get_lock mem a st1 = Ok (k, st2)"
      "arr_get (items (rs_locks st2)) k = Ok l" "upd_at (items (rs_threads st2)) i (lock_acquire l) = Ok ts"
      "st' = st2\<lparr>rs_threads := (rs_threads st2)\<lparr>items := ts\<rparr>\<rparr>"
    using assms(3) by (auto simp: process_lock_def upd_threads_def res_bind_eq_Ok)
  note l1 = get_thread_leads(1) [OF assms(1,2) c(1)] and l2 = get_lock_leads(1) [OF assms(1) _ c(2)]
  have ok1: "race_ok st1" using l1 by (simp add: leads_to_def)
  then have st2: "race_ok st2" using l2 by (simp add: leads_to_def)
  let ?ts = "items (rs_threads st2)" and ?ls = "items (rs_locks st2)"
  have ok: "threads_ok ?ts" "locks_ok ?ls" using st2 by (simp_all add: race_ok_def)
  obtain u where u: "nat i < length ?ts" "lock_acquire l (?ts ! nat i) = Ok u" "ts = ?ts[nat i := u]"
    using c(4) by (auto simp: upd_at_def arr_get_eq_Ok arr_set_eq_Ok res_bind_eq_Ok nat_less_iff)
  obtain w where w: "lk_vc l = Some w" "vc_ok w" "vclk w \<in> lclk ?ls"
    using c(3) locks_ok_at [OF ok(2), of "nat k"] by (auto simp: arr_get_eq_Ok nat_less_iff)
  obtain u0 where u0: "thread_update_vc (?ts ! nat i) (lk_vc l) = Ok u0" "threads_ok (?ts[nat i := u0])" "vclk (the (th_vc u0)) = sup (tclk ?ts ! nat i) (vclk w)"
    using thread_update_vc_eq [OF ok(1) u(1) w(1,2)] by metis
  have "u0 = u" using u0(1) u(2) by (simp add: lock_acquire_def)
  moreover have "evolves (tclk ?ts) (lclk ?ls) ((tclk ?ts)[nat i := sup (tclk ?ts ! nat i) (vclk w)]) (lclk ?ls)"
    by (rule evolves.acquire) (use u w in simp_all)
  ultimately have "leads_to st2 st'"
    using st2 ok(2) u0 u(3) c(5) by (intro leads_to_step) simp_all
  then show ?thesis using l1 l2 [OF ok1] leads_to_trans by blast
qed

lemma process_unlock_leads:
  assumes "mem_ok mem" "race_ok st" "process_unlock mem t a st = Ok st'"
  shows "leads_to st st'"
proof -
  obtain i st1 k st2 l th l' th' where c: "get_thread mem t st = Ok (i, st1)" "get_lock mem a st1 = Ok (k, st2)"
      "arr_get (items (rs_locks st2)) k = Ok l" "arr_get (items (rs_threads st2)) i = Ok th" "lock_release l th = Ok (l', th')"
      "st' = st2\<lparr>rs_threads := (rs_threads st2)\<lparr>items := (items (rs_threads st2))[nat i := th']\<rparr>,
        rs_locks := (rs_locks st2)\<lparr>items := (items (rs_locks st2))[nat k := l']\<rparr>\<rparr>"
    using assms(3) by (auto simp: process_unlock_def res_bind_eq_Ok arr_set_eq_Ok)
  note l1 = get_thread_leads(1) [OF assms(1,2) c(1)] and l2 = get_lock_leads(1) [OF assms(1) _ c(2)]
  have ok1: "race_ok st1" using l1 by (simp add: leads_to_def)
  then have st2: "race_ok st2" using l2 by (simp add: leads_to_def)
  let ?ts = "items (rs_threads st2)" and ?ls = "items (rs_locks st2)"
  have ok: "threads_ok ?ts" "locks_ok ?ls" "length ?ts \<le> VC_INITIAL_SZ" using st2 sys_okD(1) by (fastforce simp: race_ok_def)+
  have i: "nat i < length ?ts" "th = ?ts ! nat i" and k: "nat k < length ?ls" "l = ?ls ! nat k"
    using c(3,4) by (auto simp: arr_get_eq_Ok nat_less_iff)
  obtain w where w: "lk_vc l = Some w" "vc_ok w" "vclk w \<in> lclk ?ls" using k locks_ok_at [OF ok(2) k(1)] by metis
  obtain vc where vc: "th_vc th = Some vc" "vc_ok vc" "vclk vc = tclk ?ts ! nat i" using ok(1) i by (auto simp: threads_ok_def)
  obtain lc where lc: "vector_clock_update w vc = Ok lc" "vc_ok lc" "vclk lc = sup (vclk w) (vclk vc)" using vclk_update [OF w(2) vc(2)] .
  have r: "l' = l\<lparr>lk_vc := Some lc\<rparr>" "thread_increment (?ts ! nat i) = Ok th'"
    using c(5) w vc lc i(2) by (auto simp: lock_release_def deref_def res_bind_eq_Ok)
  note inc = thread_increment_eq [OF ok(1) i(1) ok(3) r(2)]
  have sub: "lclk (?ls[nat k := l']) \<subseteq> insert (sup (vclk w) (tclk ?ts ! nat i)) (lclk ?ls)"
    using set_update_subset_insert [of ?ls "nat k" l'] lc(3) vc(3) r(1) by (auto simp: lclk_def)
  have "evolves (tclk ?ts) (lclk ?ls) (tick (nat i) (tclk ?ts)) (lclk (?ls[nat k := l']))"
    by (rule evolves.release [OF _ w(3) sub]) (use i in simp)
  moreover have "locks_ok (?ls[nat k := l'])"
    using ok(2) lc(2) r(1) set_update_subset_insert [of ?ls "nat k" l'] by (auto simp: locks_ok_def)
  ultimately have "leads_to st2 st'"
    using st2 inc c(6) by (intro leads_to_step) (simp_all add: tick_def)
  then show ?thesis using l1 l2 [OF ok1] leads_to_trans by blast
qed


section \<open>Interchangeable detectors\<close>

lemma rel_res_bind:
  "rel_res P a b \<Longrightarrow> (\<And>x y. P x y \<Longrightarrow> rel_res Q (f x) (g y)) \<Longrightarrow> rel_res Q (res_bind a f) (res_bind b g)"
  by (cases a; cases b) auto

lemma rel_res_same: "(\<And>x. a = Ok x \<Longrightarrow> P x x) \<Longrightarrow> rel_res P a a"
  by (cases a) auto

lemma rel_res_map: "(\<And>x. a = Ok x \<Longrightarrow> P (f x) (g x)) \<Longrightarrow> rel_res P (res_map f a) (res_map g a)"
  by (cases a) auto

locale interchangeable =
  fixes mem :: mem_env and d1 :: "'v detector" and d2 :: "'w detector"
    and R :: "clock list \<Rightarrow> clock set \<Rightarrow> 'v \<Rightarrow> 'w \<Rightarrow> bool"
  assumes mem: "mem_ok mem"
    and on_init: "\<exists>r v s w. det_init d1 mem n = Ok (r, Some v) \<and> det_init d2 mem n = Ok (s, Some w) \<and> (\<forall>T L. sys_ok T L \<longrightarrow> R T L v w)"
    and on_step: "evolves T L T' L' \<Longrightarrow> sys_ok T L \<Longrightarrow> R T L v w \<Longrightarrow> R T' L' v w"
    and on_read: "sys_ok T L \<Longrightarrow> R T L v w \<Longrightarrow> thread_at T t i \<Longrightarrow>
      \<exists>ok v' w'. det_read d1 v t = Ok (ok, v') \<and> det_read d2 w t = Ok (ok, w') \<and> R T L v' w'"
    and on_write: "sys_ok T L \<Longrightarrow> R T L v w \<Longrightarrow> thread_at T t i \<Longrightarrow>
      \<exists>ok v' w'. det_write d1 v t = Ok (ok, v') \<and> det_write d2 w t = Ok (ok, w') \<and> R T L v' w'"
begin

definition var_related :: "clock list \<times> clock set \<Rightarrow> 'v option \<Rightarrow> 'w option \<Rightarrow> bool" where
  "var_related c x y \<longleftrightarrow> (\<exists>v w. x = Some v \<and> y = Some w \<and> R (fst c) (snd c) v w)"

definition related :: "'v race_state \<Rightarrow> 'w race_state \<Rightarrow> bool" where
  "related s s' \<longleftrightarrow> race_ok s \<and> strip s = strip s' \<and> list_capacity (rs_variables s) = list_capacity (rs_variables s') \<and>
     list_all2 (var_related (clocks_of s)) (items (rs_variables s)) (items (rs_variables s'))"

lemma relatedD:
  assumes "related s s'"
  shows "race_ok s" "rs_threads s' = rs_threads s" "rs_locks s' = rs_locks s" "index_ht (rs_variables s') = index_ht (rs_variables s)"
    "list_all2 (var_related (clocks_of s)) (items (rs_variables s)) (items (rs_variables s'))" "clocks_of s' = clocks_of s"
    "list_capacity (rs_variables s') = list_capacity (rs_variables s)"
  using assms by (auto simp: related_def strip_def clocks_of_def)

lemma var_related_steps:
  assumes "clock_step\<^sup>*\<^sup>* c c'" "sys_ok (fst c) (snd c)" "var_related c x y"
  shows "var_related c' x y \<and> sys_ok (fst c') (snd c')"
  using assms
proof (induction rule: rtranclp_induct)
  case (step c' c'')
  then show ?case using evolves_sys_ok on_step unfolding clock_step_def var_related_def by blast
qed simp

lemma related_with_vars:
  assumes r: "related s s'" and u: "leads_to (strip s) u"
  shows "related (with_vars (rs_variables s) u) (with_vars (rs_variables s') u)"
proof -
  have c: "clocks_of (strip s) = clocks_of s" "clocks_of (with_vars vs u) = clocks_of u" for vs :: "'v option index_list"
    by (simp_all add: clocks_of_def)
  have ok: "sys_ok (fst (clocks_of s)) (snd (clocks_of s))" using relatedD(1) [OF r] by (simp add: race_ok_def clocks_of_def)
  have "var_related (clocks_of u) x y" if "var_related (clocks_of s) x y" for x y
    using var_related_steps [OF _ ok that] u c(1) by (simp add: leads_to_def)
  then have "list_all2 (var_related (clocks_of u)) (items (rs_variables s)) (items (rs_variables s'))"
    using relatedD(5) [OF r] by (auto elim: list_all2_mono)
  moreover have "race_ok (with_vars (rs_variables s) u)" using u by (simp add: leads_to_def race_ok_def)
  ultimately show ?thesis using r relatedD(4) [OF r] by (simp add: related_def c(2)) (simp add: strip_def with_vars_def)
qed

lemma race_ok_strip: "related s s' \<Longrightarrow> race_ok (strip s)"
  using relatedD(1) by (simp add: race_ok_def)

lemma sync_related:
  assumes r: "related s s'" and g: "\<And>u. g (strip s) = Ok u \<Longrightarrow> leads_to (strip s) u"
    and f: "f s = res_map (with_vars (rs_variables s)) (g (strip s))" "f' s' = res_map (with_vars (rs_variables s')) (g (strip s'))"
  shows "rel_res related (f s) (f' s')"
proof -
  have "strip s' = strip s" using r by (simp add: related_def)
  then show ?thesis unfolding f using related_with_vars [OF r g] by (auto intro: rel_res_map)
qed

lemma sync_op:
  assumes "related s s'" "\<And>st st'. race_ok st \<Longrightarrow> g st = Ok st' \<Longrightarrow> leads_to st st'"
    "\<And>vs u. f (with_vars vs u) = res_map (with_vars vs) (g u)" "\<And>vs u. f' (with_vars vs u) = res_map (with_vars vs) (g u)"
  shows "rel_res related (f s) (f' s')"
  using assms(1)
proof (rule sync_related)
  show "f s = res_map (with_vars (rs_variables s)) (g (strip s))" "f' s' = res_map (with_vars (rs_variables s')) (g (strip s'))"
    using assms(3) [of "rs_variables s" "strip s"] assms(4) [of "rs_variables s'" "strip s'"] by simp_all
qed (rule assms(2) [OF race_ok_strip [OF assms(1)]])


lemma get_thread_related:
  assumes r: "related s s'"
  shows "rel_res (\<lambda>(i, s) (j, s'). i = j \<and> related s s') (get_thread mem t s) (get_thread mem t s')"
proof -
  have e: "strip s' = strip s" using r by (simp add: related_def)
  have "get_thread mem t s = res_map (\<lambda>(k, u). (k, with_vars (rs_variables s) u)) (get_thread mem t (strip s))"
    using with_vars_get_thread [of mem t "rs_variables s" "strip s"] by simp
  moreover have "get_thread mem t s' = res_map (\<lambda>(k, u). (k, with_vars (rs_variables s') u)) (get_thread mem t (strip s'))"
    using with_vars_get_thread [of mem t "rs_variables s'" "strip s'"] by simp
  moreover have "related (with_vars (rs_variables s) u) (with_vars (rs_variables s') u)" if "get_thread mem t (strip s) = Ok (k, u)" for k u
    by (rule related_with_vars [OF r get_thread_leads(1) [OF mem race_ok_strip [OF r] that]])
  ultimately show ?thesis by (auto simp: e intro!: rel_res_map)
qed

lemma related_vars:
  assumes "related s s'" "index_ht l = index_ht l'" "list_capacity l = list_capacity l'" "list_all2 (var_related (clocks_of s)) (items l) (items l')"
  shows "related (s\<lparr>rs_variables := l\<rparr>) (s'\<lparr>rs_variables := l'\<rparr>)"
  using assms relatedD [OF assms(1)] unfolding related_def race_ok_def clocks_of_def strip_def by simp

lemma get_variable_related:
  assumes r: "related s s'"
  shows "rel_res (\<lambda>(i, s) (j, s'). i = j \<and> related s s') (get_variable mem d1 a s) (get_variable mem d2 a s')"
proof -
  note d = relatedD [OF r]
  let ?l = "rs_variables s" and ?l' = "rs_variables s'"
  define N where "N = length (items ?l)"
  have n: "length (items ?l') = N" "length (items ?l) = N" using list_all2_lengthD [OF d(5)] by (simp_all add: N_def)
  have m: "mem_malloc mem k" for k using mem by (simp add: mem_ok_def)
  obtain i v j w where vw: "det_init d1 mem N = Ok (i, Some v)" "det_init d2 mem N = Ok (j, Some w)"
      "\<And>T L. sys_ok T L \<Longrightarrow> R T L v w"
    using on_init [of N] by blast
  have vr: "var_related (clocks_of s) (Some v) (Some w)" using vw(3) d(1) by (simp add: var_related_def race_ok_def clocks_of_def)
  have app: "rel_res (\<lambda>(i, l) (j, l'). i = j \<and> index_ht l = index_ht l' \<and> list_capacity l = list_capacity l' \<and>
      list_all2 (var_related (clocks_of s)) (items l) (items l'))
    (list_append mem (det_size d1) (\<lambda>n. res_bind (det_init d1 mem n) (\<lambda>(ret, v). Ok v)) ?l a)
    (list_append mem (det_size d2) (\<lambda>n. res_bind (det_init d2 mem n) (\<lambda>(ret, v). Ok v)) ?l' a)"
    using d vr unfolding list_append_def Let_def n
    by (cases "list_capacity ?l = N") (auto simp: m vw d intro!: rel_res_bind [OF rel_res_same [of _ "(=)"]] list_all2_appendI)
  have "rel_res (\<lambda>(i, l) (j, l'). i = j \<and> index_ht l = index_ht l' \<and> list_capacity l = list_capacity l' \<and>
      list_all2 (var_related (clocks_of s)) (items l) (items l'))
    (variable_list_smart_get mem d1 ?l a) (variable_list_smart_get mem d2 ?l' a)"
    unfolding variable_list_smart_get_def list_smart_get_def d(4)
    by (rule rel_res_bind [OF rel_res_same [of _ "(=)"]]) (use app d in \<open>auto split: option.splits\<close>)
  then show ?thesis
    unfolding get_variable_def by (rule rel_res_bind) (auto intro!: related_vars r)
qed

lemma access_related:
  assumes r: "related s s'"
    and upd: "\<And>T L v w t i. sys_ok T L \<Longrightarrow> R T L v w \<Longrightarrow> thread_at T t i \<Longrightarrow>
      \<exists>ok v' w'. f v t = Ok (ok, v') \<and> g w t = Ok (ok, w') \<and> R T L v' w'"
  shows "rel_res (\<lambda>(v, s) (w, s'). v = w \<and> related s s') (process_access mem d1 f t a s) (process_access mem d2 g t a s')"
  unfolding process_access_def
proof (rule rel_res_bind [OF get_thread_related [OF r]], clarify)
  fix i s1 s1'
  assume r1: "related s1 s1'"
  show "rel_res (\<lambda>(v, s) (w, s'). v = w \<and> related s s')
    (res_bind (get_variable mem d1 a s1) (\<lambda>(x, st). res_bind (arr_get (items (rs_threads st)) i) (\<lambda>th. res_bind (arr_get (items (rs_variables st)) x) (\<lambda>v.
      res_bind (deref v) (\<lambda>v. res_bind (f v th) (\<lambda>(ok, v). res_bind (arr_set (items (rs_variables st)) x (Some v)) (\<lambda>vs.
        Ok (ok, st\<lparr>rs_variables := (rs_variables st)\<lparr>items := vs\<rparr>\<rparr>))))))))
    (res_bind (get_variable mem d2 a s1') (\<lambda>(x, st). res_bind (arr_get (items (rs_threads st)) i) (\<lambda>th. res_bind (arr_get (items (rs_variables st)) x) (\<lambda>v.
      res_bind (deref v) (\<lambda>v. res_bind (g v th) (\<lambda>(ok, v). res_bind (arr_set (items (rs_variables st)) x (Some v)) (\<lambda>vs.
        Ok (ok, st\<lparr>rs_variables := (rs_variables st)\<lparr>items := vs\<rparr>\<rparr>))))))))"
  proof (rule rel_res_bind [OF get_variable_related [OF r1]], clarify)
    fix x s2 s2'
    assume r2: "related s2 s2'"
    note d = relatedD [OF r2]
    let ?vs = "items (rs_variables s2)" and ?vs' = "items (rs_variables s2')" and ?ts = "items (rs_threads s2)"
    have n: "length ?vs' = length ?vs" using list_all2_lengthD [OF d(5)] by simp
    show "rel_res (\<lambda>(v, s) (w, s'). v = w \<and> related s s')
      (res_bind (arr_get ?ts i) (\<lambda>th. res_bind (arr_get ?vs x) (\<lambda>v. res_bind (deref v) (\<lambda>v. res_bind (f v th) (\<lambda>(ok, v).
        res_bind (arr_set ?vs x (Some v)) (\<lambda>vs. Ok (ok, s2\<lparr>rs_variables := (rs_variables s2)\<lparr>items := vs\<rparr>\<rparr>)))))))
      (res_bind (arr_get (items (rs_threads s2')) i) (\<lambda>th. res_bind (arr_get ?vs' x) (\<lambda>v. res_bind (deref v) (\<lambda>v. res_bind (g v th) (\<lambda>(ok, v).
        res_bind (arr_set ?vs' x (Some v)) (\<lambda>vs. Ok (ok, s2'\<lparr>rs_variables := (rs_variables s2')\<lparr>items := vs\<rparr>\<rparr>)))))))"
    proof (cases "0 \<le> i \<and> i < int (length ?ts) \<and> 0 \<le> x \<and> x < int (length ?vs)")
      case False
      then show ?thesis by (auto simp: d(2) n arr_get_def)
    next
      case True
      obtain v w where vw: "?vs ! nat x = Some v" "?vs' ! nat x = Some w" "R (fst (clocks_of s2)) (snd (clocks_of s2)) v w"
        using list_all2_nthD [OF d(5), of "nat x"] True by (auto simp: var_related_def nat_less_iff)
      have "thread_at (fst (clocks_of s2)) (?ts ! nat i) (nat i)" using d(1) True threads_ok_at by (simp add: race_ok_def clocks_of_def nat_less_iff)
      moreover have "sys_ok (fst (clocks_of s2)) (snd (clocks_of s2))" using d(1) by (simp add: race_ok_def clocks_of_def)
      ultimately obtain ok v' w' where u: "f v (?ts ! nat i) = Ok (ok, v')" "g w (?ts ! nat i) = Ok (ok, w')"
          "var_related (clocks_of s2) (Some v') (Some w')"
        using upd vw(3) unfolding var_related_def by blast
      have "list_all2 (var_related (clocks_of s2)) (?vs[nat x := Some v']) (?vs'[nat x := Some w'])"
        using d(5) u(3) by (rule list_all2_update_cong)
      then show ?thesis
        using True vw u d by (auto simp: n deref_def intro!: related_vars r2)
    qed
  qed
qed

lemma step_related:
  assumes r: "related s s'"
  shows "rel_res (\<lambda>(v, s) (w, s'). v = w \<and> related s s') (race_step mem d1 e s) (race_step mem d2 e s')"
proof (cases e)
  case (Fork p c)
  have "rel_res related (process_fork mem p c s) (process_fork mem p c s')"
    by (rule sync_op [OF r, where g = "process_fork mem p c"]) (simp_all add: process_fork_leads [OF mem] with_vars_fork)
  then show ?thesis unfolding Fork race_step_def by (simp, rule rel_res_bind) simp
next
  case (Join p c)
  have "rel_res related (process_join mem p c s) (process_join mem p c s')"
    by (rule sync_op [OF r, where g = "process_join mem p c"]) (simp_all add: process_join_leads [OF mem] with_vars_join)
  then show ?thesis unfolding Join race_step_def by (simp, rule rel_res_bind) simp
next
  case (Lock t a)
  have "rel_res related (process_lock mem t a s) (process_lock mem t a s')"
    by (rule sync_op [OF r, where g = "process_lock mem t a"]) (simp_all add: process_lock_leads [OF mem] with_vars_lock)
  then show ?thesis unfolding Lock race_step_def by (simp, rule rel_res_bind) simp
next
  case (Unlock t a)
  have "rel_res related (process_unlock mem t a s) (process_unlock mem t a s')"
    by (rule sync_op [OF r, where g = "process_unlock mem t a"]) (simp_all add: process_unlock_leads [OF mem] with_vars_unlock)
  then show ?thesis unfolding Unlock race_step_def by (simp, rule rel_res_bind) simp
next
  case (Access ld t a)
  then show ?thesis
    using r access_related [OF r on_read] access_related [OF r on_write]
    by (simp add: race_step_def handle_read_write_def process_read_def process_write_def)
qed

lemma run_related:
  assumes "related s s'"
  shows "rel_res (\<lambda>(vs, s) (ws, s'). vs = ws \<and> related s s') (race_run mem d1 es s) (race_run mem d2 es s')"
  using assms
proof (induction es arbitrary: s s')
  case (Cons e es)
  show ?case unfolding race_run.simps
  proof (rule rel_res_bind [OF step_related [OF Cons.prems]], clarify)
    fix v s1 s1' assume "related s1 s1'"
    from Cons.IH [OF this] show "rel_res (\<lambda>(vs, s) (ws, s'). vs = ws \<and> related s s')
      (res_bind (race_run mem d1 es s1) (\<lambda>(vs, st). Ok (v # vs, st))) (res_bind (race_run mem d2 es s1') (\<lambda>(vs, st). Ok (v # vs, st)))"
      by (rule rel_res_bind) auto
  qed
qed simp

end


section \<open>DJIT and FastTrack are interchangeable\<close>

text \<open>A memory that delivers everything but the arrays of the hash tables, for which \<open>calloc_ok\<close> decides.\<close>

definition small_mem :: "(uintptr \<Rightarrow> bool) \<Rightarrow> mem_env" where
  "small_mem calloc_ok = \<lparr>mem_malloc = (\<lambda>_. True), mem_calloc = (\<lambda>n sz. sz = 4 \<or> calloc_ok n)\<rparr>"

lemma small_mem_ok: "mem_ok (small_mem calloc_ok)"
  by (simp add: small_mem_def mem_ok_def)

lemma agree_init:
  "\<exists>r v s w. det_init DJIT (small_mem calloc_ok) n = Ok (r, Some v) \<and> det_init (FASTTRACK uninit) (small_mem calloc_ok) n = Ok (s, Some w) \<and>
     (\<forall>T L. sys_ok T L \<longrightarrow> agree T L v w)"
proof -
  let ?z = "\<lparr>clocks = replicate VC_INITIAL_SZ 0\<rparr>" and ?m = "small_mem calloc_ok"
  let ?d = "\<lparr>dj_rx = ?z, dj_wx = ?z\<rparr>"
    and ?f = "\<lparr>ft_rx_vc = ?z, ft_rx_epoch = epoch_init, ft_wx_epoch = epoch_init, is_shared = uninit n\<rparr>"
  have i: "vector_clock_init ?m VC_INITIAL_SZ = (1, Some ?z)" "mem_malloc ?m k" for k by (simp_all add: vector_clock_init_def small_mem_def)
  have ag: "agree T L ?d ?f" if ok: "sys_ok T L" for T L
  proof -
    have "clocks_current T (\<lambda>_. 0) (\<lambda>_. 0)" using sys_okD(3) [OF ok] by (force simp: clocks_current_def)
    moreover have "clocks_bounded T (\<lambda>_. 0) (\<lambda>_. 0)" using sys_okD(3) [OF ok] by (force simp: clocks_bounded_def)
    ultimately show ?thesis
      using vc_zero by (simp add: agree_def write_epoch_ok_def reads_ok_def read_shared_ok_def epoch_init_def dominates_def VC_INITIAL_SZ_def)
  qed
  have "det_init DJIT ?m n = Ok (1, Some ?d)" by (simp add: DJIT_def djit_variable_init_def i)
  moreover have "det_init (FASTTRACK uninit) ?m n = Ok (1, Some ?f)" by (simp add: FASTTRACK_def ft_variable_init_def i)
  ultimately show ?thesis using ag by blast
qed

interpretation ft: interchangeable "small_mem calloc_ok" DJIT "FASTTRACK uninit" agree for calloc_ok uninit
proof unfold_locales
  fix n
  show "\<exists>r v s w. det_init DJIT (small_mem calloc_ok) n = Ok (r, Some v) \<and> det_init (FASTTRACK uninit) (small_mem calloc_ok) n = Ok (s, Some w) \<and>
      (\<forall>T L. sys_ok T L \<longrightarrow> agree T L v w)" by (rule agree_init)
qed (auto simp: small_mem_ok agree_evolves DJIT_def FASTTRACK_def dest: agree_read agree_write)

text \<open>The verdicts on the accesses of a sequence of events, from the start of the plugin on.\<close>

definition race_verdicts :: "mem_env \<Rightarrow> 'v detector \<Rightarrow> mambo_ht \<Rightarrow> race_event list \<Rightarrow> bool list res" where
  "race_verdicts mem det ht es = res_bind (race_init mem ht) (\<lambda>st. res_map fst (race_run mem det es st))"

lemma race_init_related: "rel_res ft.related (race_init mem ht) (race_init mem ht)"
proof -
  have rel: "ft.related \<lparr>rs_threads = \<lparr>items = [], list_capacity = n, index_ht = h\<rparr>, rs_locks = \<lparr>items = [], list_capacity = n, index_ht = h\<rparr>,
      rs_variables = \<lparr>items = [], list_capacity = n, index_ht = h\<rparr>\<rparr>
    \<lparr>rs_threads = \<lparr>items = [], list_capacity = n, index_ht = h\<rparr>, rs_locks = \<lparr>items = [], list_capacity = n, index_ht = h\<rparr>,
      rs_variables = \<lparr>items = [], list_capacity = n, index_ht = h\<rparr>\<rparr>" for n h
    by (simp add: ft.related_def strip_def race_ok_def threads_ok_def locks_ok_def sys_ok_def tclk_def lclk_def)
  show ?thesis
    using rel by (cases "mambo_ht_init (\<lambda>n. mem_calloc mem n sizeof_ht_entry) 0 ht (of_nat VC_INITIAL_SZ) 0 90 True")
      (auto simp: race_init_def list_init_def)
qed

lemma verdicts_equal:
  "race_verdicts (small_mem calloc_ok) (FASTTRACK uninit) ht es = race_verdicts (small_mem calloc_ok) DJIT ht es"
proof -
  have fin: "res_map fst a = res_map fst b" if "rel_res (\<lambda>(vs, s) (ws, s'). vs = ws \<and> ft.related s s') a b" for a b
    using that by (cases a; cases b) auto
  have "rel_res (=) (race_verdicts (small_mem calloc_ok) DJIT ht es) (race_verdicts (small_mem calloc_ok) (FASTTRACK uninit) ht es)"
    unfolding race_verdicts_def
    by (rule rel_res_bind [OF race_init_related]) (simp add: fin [OF ft.run_related] res.rel_eq)
  then show ?thesis by (simp add: res.rel_eq)
qed

text \<open>C6: FastTrack is equivalent to DJIT: on every sequence of fork, join, lock, unlock, read and write events both detectors give
  the same verdict on every access, also behind races that were reported, and they fail in the same cases (more than eight
  threads, a clock that overflows, a hash table that cannot grow). The flag \<open>is_shared\<close>, which is never initialised, has no
  influence on the verdicts.\<close>

theorem fasttrack_equals_djit:
  "race_verdicts (small_mem calloc_ok) (FASTTRACK uninit) ht es = race_verdicts (small_mem calloc_ok) DJIT ht es"
  by (rule verdicts_equal)

end
