(* ===== verification/Race_Spec.thy ===== *)
theory Race_Spec
  imports Race_Equal
begin

text \<open>
  What the detectors promise, stated without clocks: an access is reported exactly when an earlier conflicting access that was
  not reported does not happen before it. Happens-before is described by what every thread knows: which accesses precede its
  next step through the order of its own steps, forks, joins and the locks it has taken. The clocks of DJIT, found through
  the hash tables of the plugin, represent this knowledge.
\<close>

section \<open>Happens-before as knowledge\<close>

record hb_state =
  known :: "int \<Rightarrow> nat set"
  passed :: "uintptr \<Rightarrow> nat set"
  hb_reads :: "uintptr \<Rightarrow> nat set"
  hb_writes :: "uintptr \<Rightarrow> nat set"
  hb_now :: nat

definition hb_init :: hb_state where
  "hb_init = \<lparr>known = (\<lambda>_. {}), passed = (\<lambda>_. {}), hb_reads = (\<lambda>_. {}), hb_writes = (\<lambda>_. {}), hb_now = 0\<rparr>"

text \<open>The accesses are numbered; a reported access is not taken into account later on.\<close>

definition hb_access :: "bool \<Rightarrow> int \<Rightarrow> uintptr \<Rightarrow> hb_state \<Rightarrow> bool \<times> hb_state" where
  "hb_access ld t a s =
     (let now = hb_now s; s' = s\<lparr>known := (known s)(t := insert now (known s t)), hb_now := now + 1\<rparr> in
      if hb_writes s a \<subseteq> known s t \<and> (ld \<or> hb_reads s a \<subseteq> known s t) then
        (True, if ld then s'\<lparr>hb_reads := (hb_reads s)(a := insert now (hb_reads s a))\<rparr>
               else s'\<lparr>hb_writes := (hb_writes s)(a := insert now (hb_writes s a))\<rparr>)
      else (False, s))"

definition hb_step :: "race_event \<Rightarrow> hb_state \<Rightarrow> bool \<times> hb_state" where
  "hb_step e s =
     (case e of
        Fork p c \<Rightarrow> (True, if p \<noteq> 0 then s\<lparr>known := (known s)(c := known s c \<union> known s p)\<rparr> else s)
      | Join p c \<Rightarrow> (True, s\<lparr>known := (known s)(p := known s p \<union> known s c)\<rparr>)
      | Lock t l \<Rightarrow> (True, s\<lparr>known := (known s)(t := known s t \<union> passed s l)\<rparr>)
      | Unlock t l \<Rightarrow> (True, s\<lparr>passed := (passed s)(l := passed s l \<union> known s t)\<rparr>)
      | Access ld t a \<Rightarrow> if a = 0 then (True, s) else hb_access ld t a s)"

fun hb_run :: "race_event list \<Rightarrow> hb_state \<Rightarrow> bool list" where
  "hb_run [] s = []"
| "hb_run (e # es) s = (case hb_step e s of (v, s') \<Rightarrow> v # hb_run es s')"

section \<open>Objects found through the tables\<close>

text \<open>A list whose table leads to the right places.\<close>

definition index_ok :: "'a index_list \<Rightarrow> bool" where
  "index_ok l \<longleftrightarrow> ht_ok (index_ht l) \<and> allow_resize (index_ht l) \<and> length (items l) = card (dom (ht_view (index_ht l))) \<and>
     length (items l) < 2 ^ 50 \<and>
     (\<forall>k w. ht_view (index_ht l) k = Some w \<longrightarrow> k \<noteq> 0 \<and> unat w < length (items l)) \<and>
     (\<forall>k k' w. ht_view (index_ht l) k = Some w \<longrightarrow> ht_view (index_ht l) k' = Some w \<longrightarrow> k = k')"

definition index_of :: "'a index_list \<Rightarrow> uintptr \<Rightarrow> nat option" where
  "index_of l k = map_option unat (ht_view (index_ht l) k)"

definition big_mem :: mem_env where
  "big_mem = small_mem (\<lambda>n. unat n \<le> 2 ^ 57)"

lemma big_mem_simps [simp]: "mem_malloc big_mem n" "mem_ok big_mem" "mem_calloc big_mem n sizeof_ht_entry \<longleftrightarrow> unat n \<le> 2 ^ 57"
  using small_mem_ok by (simp_all add: big_mem_def small_mem_def sizeof_ht_entry_def)

lemma list_smart_get_known:
  assumes "index_ok l" "index_of l k = Some i"
  shows "list_smart_get mem sz mk l k = Ok (int i, l)" "i < length (items l)"
  using assms ht_get_view [of "index_ht l" k]
  by (auto simp: list_smart_get_def index_ok_def index_of_def mambo_ht_get_def)

lemma list_smart_get_new:
  assumes l: "index_ok l" "index_of l k = None" "k \<noteq> 0" "length (items l) + 1 < 2 ^ 50" and mk: "mk (length (items l)) = Ok x"
  obtains l' where "list_smart_get big_mem sz mk l k = Ok (int (length (items l)), l')" "index_ok l'" "items l' = items l @ [x]"
    "index_of l' = (index_of l)(k \<mapsto> length (items l))" "dom (ht_view (index_ht l')) = insert k (dom (ht_view (index_ht l)))"
proof -
  let ?n = "length (items l)" and ?ht = "index_ht l"
  have ok: "ht_ok ?ht" "allow_resize ?ht" "ht_view ?ht k = None" using l(1,2) by (simp_all add: index_ok_def index_of_def)
  have fin: "finite (dom (ht_view ?ht))" by (simp add: ht_view_def finite_dom_map_of)
  have ec: "unat (entry_count ?ht) = ?n" using ht_count_view [OF ok(1)] l(1) by (simp add: index_ok_def)
  have no: "\<not> (\<exists>n :: uintptr. \<not> unat n \<le> 2 ^ 57 \<and> unat n \<le> 20 * (unat (entry_count ?ht) + 1))"
  proof
    assume "\<exists>n :: uintptr. \<not> unat n \<le> 2 ^ 57 \<and> unat n \<le> 20 * (unat (entry_count ?ht) + 1)"
    then have "2 ^ 57 < 20 * (?n + 1)" unfolding ec by force
    then show False using l(4) by simp
  qed
  obtain ht' where h: "mambo_ht_add_nolock (\<lambda>n. unat n \<le> 2 ^ 57) ?ht k (of_nat ?n) = Ok (0, ht')" "ht_ok ht'"
      "ht_view ht' = (ht_view ?ht)(k \<mapsto> of_nat ?n)" and ar: "allow_resize ht'"
    using add_nolock_resizing [of "\<lambda>n. unat n \<le> 2 ^ 57", OF _ ok(1) l(3) ok(2), of "of_nat ?n"] no by blast
  have un: "unat (of_nat ?n :: uintptr) = ?n" using l(4) by (intro unat_of_nat64) simp
  let ?l' = "(if ?n = list_capacity l then l\<lparr>list_capacity := 2 * ?n\<rparr> else l)\<lparr>items := items l @ [x], index_ht := ht'\<rparr>"
  have "mambo_ht_get 0 0 ?ht k = Ok (-1, None)" using ht_get_view [OF ok(1), of k] ok(3) by (simp add: mambo_ht_get_def)
  then have "list_smart_get big_mem sz mk l k = Ok (int ?n, ?l')"
    using mk h(1) by (cases "list_capacity l = ?n") (simp_all add: list_smart_get_def list_append_def Let_def mambo_ht_add_def)
  moreover have "index_ok ?l'"
  proof -
    have it: "items ?l' = items l @ [x]" "index_ht ?l' = ht'" by simp_all
    have le: "unat w < ?n" if "ht_view ?ht k' = Some w" for k' w using l(1) that unfolding index_ok_def by blast
    have nz: "k' \<noteq> 0" if "ht_view ?ht k' = Some w" for k' w using l(1) that unfolding index_ok_def by blast
    have inj: "k1 = k2" if "ht_view ?ht k1 = Some w" "ht_view ?ht k2 = Some w" for k1 k2 w using l(1) that unfolding index_ok_def by blast
    have "card (dom (ht_view ht')) = Suc ?n" using fin ok(3) l(1) by (simp add: h(3) index_ok_def domIff)
    moreover have "k' \<noteq> 0 \<and> unat w < Suc ?n" if "ht_view ht' k' = Some w" for k' w
      using that le [of k' w] nz [of k' w] l(3) un by (auto simp: h(3) split: if_splits)
    moreover have "k1 = k2" if "ht_view ht' k1 = Some w" "ht_view ht' k2 = Some w" for k1 k2 w
      using that le [of k1 w] le [of k2 w] inj [of k1 w k2] un by (auto simp: h(3) split: if_splits)
    ultimately show ?thesis unfolding index_ok_def it using h(2) ar l(4) by auto
  qed
  moreover have "index_of ?l' = (index_of l)(k \<mapsto> ?n)" using h(3) un by (auto simp: index_of_def fun_eq_iff)
  ultimately show thesis using h(3) by (intro that [of ?l']) auto
qed


section \<open>Clocks as knowledge\<close>

text \<open>An event is an access that was not reported; \<open>own\<close> gives the index of its thread and \<open>clk\<close> the thread's clock at that time.\<close>

definition knows :: "(nat \<Rightarrow> nat) \<Rightarrow> (nat \<Rightarrow> int) \<Rightarrow> nat \<Rightarrow> clock \<Rightarrow> nat set" where
  "knows own clk now C = {e. e < now \<and> clk e \<le> C (own e)}"

definition events_ok :: "(nat \<Rightarrow> nat) \<Rightarrow> (nat \<Rightarrow> int) \<Rightarrow> nat \<Rightarrow> clock list \<Rightarrow> bool" where
  "events_ok own clk now T \<longleftrightarrow> (\<forall>e < now. own e < length T \<and> 0 < clk e \<and> clk e \<le> (T ! own e) (own e))"

lemma knows_sup: "knows own clk now (sup U V) = knows own clk now U \<union> knows own clk now V"
  by (auto simp: knows_def sup_max le_max_iff_disj)

lemma knows_zero: "events_ok own clk now T \<Longrightarrow> (\<And>i. i < length T \<Longrightarrow> V i = 0) \<Longrightarrow> knows own clk now V = {}"
  by (auto simp: knows_def events_ok_def)

lemma knows_tick:
  assumes "events_ok own clk now T" "i < length T" "T ! i \<le> V" "V i = (T ! i) i"
  shows "knows own clk now (V(i := V i + 1)) = knows own clk now V"
  using assms by (auto simp: knows_def events_ok_def)

lemma events_ok_mono:
  assumes "events_ok own clk now T" "length T \<le> length T'" "\<And>i. i < length T \<Longrightarrow> (T ! i) i \<le> (T' ! i) i"
  shows "events_ok own clk now T'"
  using assms unfolding events_ok_def by (meson order_trans less_le_trans)

text \<open>The clock of a variable represents a set of events.\<close>

definition represents :: "(nat \<Rightarrow> nat) \<Rightarrow> (nat \<Rightarrow> int) \<Rightarrow> nat \<Rightarrow> nat set \<Rightarrow> clock \<Rightarrow> bool" where
  "represents own clk now E C \<longleftrightarrow> (\<forall>e \<in> E. e < now \<and> clk e \<le> C (own e)) \<and> (\<forall>i. C i \<le> 0 \<or> (\<exists>e \<in> E. own e = i \<and> clk e = C i))"

lemma represents_before:
  assumes "represents own clk now E C" "\<And>i. 0 \<le> V i"
  shows "C \<le> V \<longleftrightarrow> E \<subseteq> knows own clk now V"
proof
  assume le: "C \<le> V"
  then have "clk e \<le> V (own e)" if "e \<in> E" for e
    using assms(1) that le_funD [OF le, of "own e"] unfolding represents_def by (meson order_trans)
  then show "E \<subseteq> knows own clk now V" using assms(1) by (auto simp: represents_def knows_def)
next
  assume sub: "E \<subseteq> knows own clk now V"
  have "C i \<le> V i" for i
  proof (cases "C i \<le> 0")
    case True
    then show ?thesis using assms(2) [of i] by simp
  next
    case False
    then obtain e where "e \<in> E" "own e = i" "clk e = C i" using assms(1) unfolding represents_def by blast
    then show ?thesis using sub by (auto simp: knows_def)
  qed
  then show "C \<le> V" by (simp add: le_fun_def)
qed

text \<open>A new event.\<close>

lemma knows_event:
  assumes "sys_ok T L" "i < length T" "V \<in> set T \<union> L"
  shows "knows (own(now := i)) (clk(now := (T ! i) i)) (Suc now) V = knows own clk now V \<union> (if V = T ! i then {now} else {})"
  using own_epoch [OF assms(1,2,3)] by (auto simp: knows_def less_Suc_eq)

lemma events_ok_event:
  "events_ok own clk now T \<Longrightarrow> sys_ok T L \<Longrightarrow> i < length T \<Longrightarrow> events_ok (own(now := i)) (clk(now := (T ! i) i)) (Suc now) T"
  using sys_okD(3) by (auto simp: events_ok_def less_Suc_eq)

lemma represents_old:
  "represents own clk now E C \<Longrightarrow> represents (own(now := i)) (clk(now := c)) (Suc now) E C"
  unfolding represents_def by (auto; force)

lemma represents_event:
  assumes "represents own clk now E C" "events_ok own clk now T" "i < length T"
  shows "represents (own(now := i)) (clk(now := (T ! i) i)) (Suc now) (insert now E) (C(i := (T ! i) i))"
proof -
  have "clk e \<le> (if own e = i then (T ! i) i else C (own e))" "e \<noteq> now" "e < now" if "e \<in> E" for e
    using assms that by (auto simp: represents_def events_ok_def)
  then show ?thesis using assms(1) unfolding represents_def by (auto simp: less_Suc_eq) (metis less_irrefl)+
qed


section \<open>States that represent knowledge\<close>

definition known_ok :: "(nat \<Rightarrow> nat) \<Rightarrow> (nat \<Rightarrow> int) \<Rightarrow> nat \<Rightarrow> int set \<Rightarrow> (int \<Rightarrow> nat set) \<Rightarrow> thread_t index_list \<Rightarrow> bool" where
  "known_ok own clk now P kn l \<longleftrightarrow> (\<forall>t \<in> P. kn t =
     (case index_of l (word_of_int t) of None \<Rightarrow> {} | Some i \<Rightarrow> knows own clk now (tclk (items l) ! i)))"

definition passed_ok :: "(nat \<Rightarrow> nat) \<Rightarrow> (nat \<Rightarrow> int) \<Rightarrow> nat \<Rightarrow> (uintptr \<Rightarrow> nat set) \<Rightarrow> lock_t index_list \<Rightarrow> bool" where
  "passed_ok own clk now ps l \<longleftrightarrow> (\<forall>a. a \<noteq> 0 \<longrightarrow> ps a =
     (case index_of l a of None \<Rightarrow> {} | Some k \<Rightarrow> knows own clk now (vclk (the (lk_vc (items l ! k))))))"

definition var_ok :: "(nat \<Rightarrow> nat) \<Rightarrow> (nat \<Rightarrow> int) \<Rightarrow> nat \<Rightarrow> nat set \<Rightarrow> nat set \<Rightarrow> djit_variable option \<Rightarrow> bool" where
  "var_ok own clk now rd wr x \<longleftrightarrow> (\<exists>v. x = Some v \<and> vc_ok (dj_rx v) \<and> vc_ok (dj_wx v) \<and>
     represents own clk now rd (vclk (dj_rx v)) \<and> represents own clk now wr (vclk (dj_wx v)))"

definition vars_ok ::
    "(nat \<Rightarrow> nat) \<Rightarrow> (nat \<Rightarrow> int) \<Rightarrow> nat \<Rightarrow> (uintptr \<Rightarrow> nat set) \<Rightarrow> (uintptr \<Rightarrow> nat set) \<Rightarrow> djit_variable option index_list \<Rightarrow> bool" where
  "vars_ok own clk now rd wr l \<longleftrightarrow> (\<forall>a. a \<noteq> 0 \<longrightarrow>
     (case index_of l a of None \<Rightarrow> rd a = {} \<and> wr a = {} | Some x \<Rightarrow> var_ok own clk now (rd a) (wr a) (items l ! x)))"

definition implements ::
    "(nat \<Rightarrow> nat) \<Rightarrow> (nat \<Rightarrow> int) \<Rightarrow> nat \<Rightarrow> int set \<Rightarrow> hb_state \<Rightarrow> djit_variable race_state \<Rightarrow> bool" where
  "implements own clk m P s st \<longleftrightarrow> race_ok st \<and>
     index_ok (rs_threads st) \<and> dom (ht_view (index_ht (rs_threads st))) \<subseteq> word_of_int ` P \<and>
     index_ok (rs_locks st) \<and> length (items (rs_locks st)) \<le> m \<and> index_ok (rs_variables st) \<and> length (items (rs_variables st)) \<le> m \<and>
     (\<forall>i < length (items (rs_threads st)). (tclk (items (rs_threads st)) ! i) i \<le> int m + 1) \<and>
     events_ok own clk (hb_now s) (tclk (items (rs_threads st))) \<and>
     known_ok own clk (hb_now s) P (known s) (rs_threads st) \<and> passed_ok own clk (hb_now s) (passed s) (rs_locks st) \<and>
     vars_ok own clk (hb_now s) (hb_reads s) (hb_writes s) (rs_variables st)"

text \<open>The threads of the program: at most as many as a clock has entries, with positive identifiers.\<close>

definition tids_ok :: "int set \<Rightarrow> bool" where
  "tids_ok P \<longleftrightarrow> finite P \<and> card P \<le> VC_INITIAL_SZ \<and> P \<subseteq> {0<..<2 ^ 31}"

lemma tids_word:
  assumes "tids_ok P"
  shows "t \<in> P \<Longrightarrow> (word_of_int t :: uintptr) \<noteq> 0" "t \<in> P \<Longrightarrow> t' \<in> P \<Longrightarrow> (word_of_int t :: uintptr) = word_of_int t' \<longleftrightarrow> t = t'"
proof -
  have u: "uint (word_of_int t :: uintptr) = t" if "t \<in> P" for t
    using assms that by (subst uint_word_of_int_eq) (force simp: tids_ok_def take_bit_int_eq_self)
  show "t \<in> P \<Longrightarrow> (word_of_int t :: uintptr) \<noteq> 0" using u [of t] assms by (force simp: tids_ok_def)
  show "t \<in> P \<Longrightarrow> t' \<in> P \<Longrightarrow> (word_of_int t :: uintptr) = word_of_int t' \<longleftrightarrow> t = t'" using u by metis
qed

lemma index_of_items [simp]: "index_of (l\<lparr>items := xs\<rparr>) = index_of l" "index_ok l \<Longrightarrow> length xs = length (items l) \<Longrightarrow> index_ok (l\<lparr>items := xs\<rparr>)"
  by (auto simp: index_of_def index_ok_def)

lemma index_of_inj: "index_ok l \<Longrightarrow> index_of l k = Some i \<Longrightarrow> index_of l k' = Some i \<Longrightarrow> k = k'"
proof -
  assume l: "index_ok l" and "index_of l k = Some i" "index_of l k' = Some i"
  then obtain w w' where w: "ht_view (index_ht l) k = Some w" "ht_view (index_ht l) k' = Some w'" "unat w = unat w'"
    unfolding index_of_def by auto
  then have "w = w'" by (simp add: word_unat_eq_iff)
  then show "k = k'" using l w unfolding index_ok_def by blast
qed

lemma index_of_less: "index_ok l \<Longrightarrow> index_of l k = Some i \<Longrightarrow> i < length (items l)"
  unfolding index_ok_def index_of_def by auto

lemma thread_init_total:
  assumes "n < VC_INITIAL_SZ"
  obtains t where "thread_init big_mem (int n) = Ok (1, t)"
proof -
  let ?z = "\<lparr>clocks = replicate VC_INITIAL_SZ 0\<rparr>"
  have i: "vector_clock_init big_mem VC_INITIAL_SZ = (1, Some ?z)" by (simp add: vector_clock_init_def big_mem_def small_mem_def)
  obtain vc where vc: "vector_clock_increment ?z (int n) = (if vclk ?z n = INT_MAX then Undef else Ok vc)"
    using vclk_increment [OF vc_zero(1), of "int n"] assms by auto
  then have "vector_clock_increment ?z (int n) = Ok vc" by (simp add: vc_zero(2) INT_MAX_def)
  then show thesis by (intro that) (simp add: thread_init_def i)
qed

lemma room_for_thread:
  assumes "tids_ok P" "t \<in> P" "index_ok l" "dom (ht_view (index_ht l)) \<subseteq> word_of_int ` P" "index_of l (word_of_int t) = None"
  shows "length (items l) < VC_INITIAL_SZ"
proof -
  let ?D = "dom (ht_view (index_ht l))" and ?k = "word_of_int t :: uintptr"
  have P: "finite P" "card P \<le> VC_INITIAL_SZ" using assms(1) by (simp_all add: tids_ok_def)
  have n: "length (items l) = card ?D" using assms(3) unfolding index_ok_def by blast
  have k: "?k \<notin> ?D" "finite ?D" using assms(5) by (simp_all add: index_of_def domIff ht_view_def finite_dom_map_of)
  have "insert ?k ?D \<subseteq> word_of_int ` P" using assms(2,4) by simp
  then have "card (insert ?k ?D) \<le> card P" using P(1) by (meson card_mono card_image_le finite_imageI order_trans)
  then show ?thesis using k n P(2) by simp
qed

lemma thread_list_new:
  assumes "index_ok l" "index_of l k = None" "k \<noteq> 0" "length (items l) < VC_INITIAL_SZ" "thread_init big_mem (int (length (items l))) = Ok (1, x)"
  obtains l' where "thread_list_smart_get big_mem l k = Ok (int (length (items l)), l')" "index_ok l'" "items l' = items l @ [x]"
    "index_of l' = (index_of l)(k \<mapsto> length (items l))" "dom (ht_view (index_ht l')) = insert k (dom (ht_view (index_ht l)))"
proof -
  let ?mk = "\<lambda>n. res_bind (thread_init big_mem (int n)) (\<lambda>(ret, t). Ok t)"
  have "length (items l) + 1 < 2 ^ 50" using assms(4) by (simp add: VC_INITIAL_SZ_def)
  moreover have "?mk (length (items l)) = Ok x" using assms(5) by simp
  ultimately show thesis
    using list_smart_get_new [OF assms(1-3), where mk = ?mk and x = x and sz = sizeof_thread] that
    unfolding thread_list_smart_get_def by blast
qed

text \<open>Looking a thread up changes nothing that is represented.\<close>

lemma get_thread_total:
  assumes im: "implements own clk m P s st" and P: "tids_ok P" "t \<in> P"
  obtains i st' where "get_thread big_mem t st = Ok (int i, st')" "implements own clk m P s st'" "index_of (rs_threads st') (word_of_int t) = Some i"
    "i < length (items (rs_threads st'))" "rs_locks st' = rs_locks st" "rs_variables st' = rs_variables st"
    "\<forall>k j. index_of (rs_threads st) k = Some j \<longrightarrow> index_of (rs_threads st') k = Some j"
proof (cases "index_of (rs_threads st) (word_of_int t)")
  case (Some i)
  have "index_ok (rs_threads st)" using im by (simp add: implements_def)
  from list_smart_get_known [OF this Some] show thesis
    using im Some by (intro that [of i st]) (simp_all add: get_thread_def thread_list_smart_get_def)
next
  case None
  let ?l = "rs_threads st" and ?k = "word_of_int t :: uintptr"
  let ?ts = "items ?l" and ?T = "tclk (items ?l)"
  have l: "index_ok ?l" "race_ok st" "dom (ht_view (index_ht ?l)) \<subseteq> word_of_int ` P" using im by (simp_all add: implements_def)
  have k: "?k \<notin> dom (ht_view (index_ht ?l))" using None by (simp add: index_of_def domIff)
  have n: "length ?ts < VC_INITIAL_SZ" by (rule room_for_thread [OF P l(1) l(3) None])
  then obtain x where x: "thread_init big_mem (int (length ?ts)) = Ok (1, x)" by (rule thread_init_total)
  obtain l' where l': "thread_list_smart_get big_mem ?l ?k = Ok (int (length ?ts), l')" "index_ok l'" "items l' = ?ts @ [x]"
      "index_of l' = (index_of ?l)(?k \<mapsto> length ?ts)" "dom (ht_view (index_ht l')) = insert ?k (dom (ht_view (index_ht ?l)))"
    by (rule thread_list_new [OF l(1) None tids_word(1) [OF P] n x])
  have g: "get_thread big_mem t st = Ok (int (length ?ts), st\<lparr>rs_threads := l'\<rparr>)" using l'(1) by (simp add: get_thread_def)
  have ok: "race_ok (st\<lparr>rs_threads := l'\<rparr>)" using get_thread_leads(1) [OF big_mem_simps(2) l(2) g] by (simp add: leads_to_def)
  obtain vc where vc: "th_vc x = Some vc" "vclk vc = (\<lambda>_. 0)(length ?ts := 1)" using thread_init_new(3) [OF big_mem_simps(2) x] by blast
  have T: "tclk (items l') = ?T @ [(\<lambda>_. 0)(length ?ts := 1)]" using vc by (simp add: l'(3))
  have ev: "events_ok own clk (hb_now s) ?T" using im by (simp add: implements_def)
  have z: "knows own clk (hb_now s) ((\<lambda>_. 0)(length ?ts := 1)) = {}" by (rule knows_zero [OF ev]) simp
  have "known_ok own clk (hb_now s) P (known s) l'"
    unfolding known_ok_def
  proof
    fix u assume u: "u \<in> P"
    have "known s u = (case index_of ?l (word_of_int u) of None \<Rightarrow> {} | Some i \<Rightarrow> knows own clk (hb_now s) (?T ! i))"
      using im u by (simp add: implements_def known_ok_def)
    then show "known s u = (case index_of l' (word_of_int u) of None \<Rightarrow> {} | Some i \<Rightarrow> knows own clk (hb_now s) (tclk (items l') ! i))"
      using None z index_of_less [OF l(1)] unfolding T l'(4) by (auto simp: nth_append split: option.splits)
  qed
  moreover have "events_ok own clk (hb_now s) (tclk (items l'))" by (rule events_ok_mono [OF ev]) (simp_all add: T nth_append)
  moreover have "(tclk (items l') ! i) i \<le> int m + 1" if "i < length (items l')" for i
    using that im vc unfolding T l'(3) by (auto simp: implements_def nth_append less_Suc_eq)
  ultimately have "implements own clk m P s (st\<lparr>rs_threads := l'\<rparr>)"
    using im ok l' P(2) by (simp add: implements_def)
  then show thesis
    using g l' None by (intro that [of "length ?ts" "st\<lparr>rs_threads := l'\<rparr>"]) (auto simp: fun_upd_def)
qed


section \<open>Synchronisation\<close>

lemma thread_increment_total:
  assumes "threads_ok ts" "i < length ts" "length ts \<le> VC_INITIAL_SZ" "(tclk ts ! i) i < INT_MAX"
  obtains t where "thread_increment (ts ! i) = Ok t" "threads_ok (ts[i := t])" "tclk (ts[i := t]) = tick i (tclk ts)"
proof -
  obtain vc where vc: "th_vc (ts ! i) = Some vc" "vc_ok vc" "th_idx (ts ! i) = int i" using assms(1,2) by (auto simp: threads_ok_def)
  obtain c where "vector_clock_increment vc (int i) = (if vclk vc i = INT_MAX then Undef else Ok c)"
    using vclk_increment [OF vc(2), of "int i"] assms(2,3) by auto
  then have t: "thread_increment (ts ! i) = Ok ((ts ! i)\<lparr>th_vc := Some c\<rparr>)" using vc assms(2,4) by (simp add: thread_increment_def deref_def)
  show thesis
    using t thread_increment_eq [OF assms(1-3) t] by (intro that [OF t]) (simp_all only: tclk_simps tick_def)
qed

lemma send_total:
  assumes ok: "threads_ok ts" "length ts \<le> VC_INITIAL_SZ" and i: "i < length ts" "j < length ts" and b: "(tclk ts ! i) i < INT_MAX"
  obtains ts1 ts' where "upd_at ts (int j) (\<lambda>t. thread_update_vc t (th_vc (ts ! i))) = Ok ts1" "upd_at ts1 (int i) thread_increment = Ok ts'"
    "tclk ts' = tick i ((tclk ts)[j := sup (tclk ts ! j) (tclk ts ! i)])" "length ts' = length ts"
proof -
  obtain w where w: "th_vc (ts ! i) = Some w" "vc_ok w" "vclk w = tclk ts ! i" using ok(1) i(1) by (auto simp: threads_ok_def)
  obtain u where u: "thread_update_vc (ts ! j) (th_vc (ts ! i)) = Ok u" "threads_ok (ts[j := u])" "vclk (the (th_vc u)) = sup (tclk ts ! j) (vclk w)"
    using thread_update_vc_eq [OF ok(1) i(2) w(1,2)] by metis
  have t1: "tclk (ts[j := u]) = (tclk ts)[j := sup (tclk ts ! j) (tclk ts ! i)]" using u(3) w(3) by (simp add: tclk_simps(3))
  have "(tclk (ts[j := u]) ! i) i < INT_MAX" using b i unfolding t1 by (cases "i = j") simp_all
  then obtain t where t: "thread_increment (ts[j := u] ! i) = Ok t" "tclk (ts[j := u, i := t]) = tick i (tclk (ts[j := u]))"
    using thread_increment_total [OF u(2), of i] i ok(2) by auto
  show thesis
  proof (rule that [of "ts[j := u]" "ts[j := u, i := t]"])
    show "upd_at ts (int j) (\<lambda>t. thread_update_vc t (th_vc (ts ! i))) = Ok (ts[j := u])" using u(1) i by (simp add: upd_at_def)
    show "upd_at (ts[j := u]) (int i) thread_increment = Ok (ts[j := u, i := t])" using t(1) i by (simp add: upd_at_def)
  qed (use t(2) t1 in simp_all)
qed

lemma implements_threads:
  assumes im: "implements own clk m P s st" and ok: "race_ok (st\<lparr>rs_threads := (rs_threads st)\<lparr>items := ts\<rparr>\<rparr>)"
    and n: "length ts = length (items (rs_threads st))"
    and mono: "\<And>i. i < length ts \<Longrightarrow> (tclk (items (rs_threads st)) ! i) i \<le> (tclk ts ! i) i \<and> (tclk ts ! i) i \<le> (tclk (items (rs_threads st)) ! i) i + 1"
    and kn: "\<And>t. t \<in> P \<Longrightarrow> kn t = (case index_of (rs_threads st) (word_of_int t) of None \<Rightarrow> {} | Some i \<Rightarrow> knows own clk (hb_now s) (tclk ts ! i))"
  shows "implements own clk (Suc m) P (s\<lparr>known := kn\<rparr>) (st\<lparr>rs_threads := (rs_threads st)\<lparr>items := ts\<rparr>\<rparr>)"
proof -
  have "index_ok ((rs_threads st)\<lparr>items := ts\<rparr>)" using im n by (simp add: implements_def)
  moreover have "(tclk ts ! i) i \<le> int (Suc m) + 1" if "i < length ts" for i
  proof -
    have "(tclk (items (rs_threads st)) ! i) i \<le> int m + 1" using im that n unfolding implements_def by auto
    then show ?thesis using mono [OF that] by simp
  qed
  moreover have "events_ok own clk (hb_now s) (tclk ts)"
  proof (rule events_ok_mono)
    show "events_ok own clk (hb_now s) (tclk (items (rs_threads st)))" using im by (simp add: implements_def)
    show "(tclk (items (rs_threads st)) ! i) i \<le> (tclk ts ! i) i" if "i < length (tclk (items (rs_threads st)))" for i
      using mono [of i] that n by simp
  qed (use n in simp)
  moreover have "known_ok own clk (hb_now s) P kn ((rs_threads st)\<lparr>items := ts\<rparr>)"
    unfolding known_ok_def by (simp add: kn split: option.split)
  ultimately show ?thesis using im ok by (simp add: implements_def)
qed

lemma implements_Suc: "implements own clk m P s st \<Longrightarrow> implements own clk (Suc m) P s st"
  unfolding implements_def by (auto simp: le_Suc_eq intro: order_trans)

text \<open>The thread with index \<open>i\<close> sends its clock to the thread with index \<open>j\<close>.\<close>

lemma knows_send:
  assumes "events_ok own clk now T" "i < length T" "j < length T" "k < length T"
  shows "knows own clk now (tick i (T[j := sup (T ! j) (T ! i)]) ! k) = (if k = j then knows own clk now (T ! j) \<union> knows own clk now (T ! i) else knows own clk now (T ! k))"
proof -
  have "knows own clk now ((T ! i)(i := (T ! i) i + 1)) = knows own clk now (T ! i)" using assms(1,2) by (intro knows_tick) simp_all
  then show ?thesis using assms(2-4) by (auto simp: nth_list_update knows_sup)
qed

lemma send_implements:
  assumes im: "implements own clk m P s st" and m: "int m + 1 < INT_MAX" and P: "tids_ok P" "t \<in> P" "u \<in> P"
    and i: "index_of (rs_threads st) (word_of_int t) = Some i" and j: "index_of (rs_threads st) (word_of_int u) = Some j"
  obtains ts ts' where "upd_at (items (rs_threads st)) (int j) (\<lambda>x. thread_update_vc x (th_vc (items (rs_threads st) ! i))) = Ok ts"
    "upd_at ts (int i) thread_increment = Ok ts'"
    "implements own clk (Suc m) P (s\<lparr>known := (known s)(u := known s u \<union> known s t)\<rparr>) (st\<lparr>rs_threads := (rs_threads st)\<lparr>items := ts'\<rparr>\<rparr>)"
proof -
  let ?l = "rs_threads st" let ?ts = "items ?l" let ?T = "tclk ?ts"
  have ix: "index_ok ?l" and rk: "race_ok st" and ev: "events_ok own clk (hb_now s) ?T" using im by (simp_all add: implements_def)
  have ij: "i < length ?ts" "j < length ?ts" using index_of_less [OF ix] i j by blast+
  have ok: "threads_ok ?ts" "sys_ok ?T (lclk (items (rs_locks st)))" using rk by (simp_all add: race_ok_def)
  have le: "length ?ts \<le> VC_INITIAL_SZ" using sys_okD(1) [OF ok(2)] by simp
  have "(?T ! i) i \<le> int m + 1" using im ij(1) unfolding implements_def by blast
  then have b: "(?T ! i) i < INT_MAX" using m by simp
  obtain ts ts' where ts: "upd_at ?ts (int j) (\<lambda>x. thread_update_vc x (th_vc (?ts ! i))) = Ok ts" "upd_at ts (int i) thread_increment = Ok ts'"
      "tclk ts' = tick i (?T[j := sup (?T ! j) (?T ! i)])" "length ts' = length ?ts"
    by (rule send_total [OF ok(1) le ij b])
  let ?st = "st\<lparr>rs_threads := ?l\<lparr>items := ts'\<rparr>\<rparr>" and ?kn = "(known s)(u := known s u \<union> known s t)"
  have "race_ok ?st" using send_leads [OF rk _ ts(1,2)] ij(1) by (simp add: leads_to_def)
  moreover have "(?T ! k) k \<le> (tclk ts' ! k) k \<and> (tclk ts' ! k) k \<le> (?T ! k) k + 1" if k: "k < length ts'" for k
    using k ij ts(4) sys_okD(4) [OF ok(2), of k i] unfolding ts(3) by (auto simp: nth_list_update sup_max)
  moreover have "?kn x = (case index_of ?l (word_of_int x) of None \<Rightarrow> {} | Some k \<Rightarrow> knows own clk (hb_now s) (tclk ts' ! k))" if x: "x \<in> P" for x
  proof -
    have kn: "known s y = (case index_of ?l (word_of_int y) of None \<Rightarrow> {} | Some k \<Rightarrow> knows own clk (hb_now s) (?T ! k))" if "y \<in> P" for y
      using im that by (simp add: implements_def known_ok_def)
    show ?thesis
    proof (cases "index_of ?l (word_of_int x)")
      case None
      then show ?thesis using kn [OF x] j by auto
    next
      case (Some k)
      have "k = j \<longleftrightarrow> x = u" using index_of_inj [OF ix] Some j tids_word(2) [OF P(1) x P(3)] by auto
      then show ?thesis
        using Some kn [OF x] kn [OF P(2)] kn [OF P(3)] i j knows_send [OF ev, of i j k] ij index_of_less [OF ix Some] unfolding ts(3) by auto
    qed
  qed
  ultimately have "implements own clk (Suc m) P (s\<lparr>known := ?kn\<rparr>) ?st" using ts(4) by (intro implements_threads [OF im]) blast+
  then show thesis using ts(1,2) by (intro that)
qed

lemma fork_implements:
  assumes im: "implements own clk m P s st" and m: "int m + 1 < INT_MAX" and P: "tids_ok P" "p \<in> P \<or> p = 0" "c \<in> P"
  shows "\<exists>st'. process_fork big_mem p c st = Ok st' \<and> implements own clk (Suc m) P (snd (hb_step (Fork p c) s)) st'"
proof -
  obtain j st1 where c: "get_thread big_mem c st = Ok (int j, st1)" "implements own clk m P s st1" "index_of (rs_threads st1) (word_of_int c) = Some j"
    using get_thread_total [OF im P(1,3)] by metis
  show ?thesis
  proof (cases "p = 0")
    case True
    have "implements own clk (Suc m) P s st1" using c(2) by (rule implements_Suc)
    then show ?thesis using True c(1) by (simp add: process_fork_def hb_step_def)
  next
    case False
    then have p: "p \<in> P" using P(2) by simp
    obtain i st2 where g: "get_thread big_mem p st1 = Ok (int i, st2)" "implements own clk m P s st2" "index_of (rs_threads st2) (word_of_int p) = Some i"
        "i < length (items (rs_threads st2))" "rs_locks st2 = rs_locks st1" "rs_variables st2 = rs_variables st1"
        and ix: "\<forall>k j. index_of (rs_threads st1) k = Some j \<longrightarrow> index_of (rs_threads st2) k = Some j"
      by (rule get_thread_total [OF c(2) P(1) p])
    note g = g(1-4) ix [rule_format, OF c(3)]
    obtain ts ts' where "upd_at (items (rs_threads st2)) (int j) (\<lambda>x. thread_update_vc x (th_vc (items (rs_threads st2) ! i))) = Ok ts"
        "upd_at ts (int i) thread_increment = Ok ts'"
        "implements own clk (Suc m) P (s\<lparr>known := (known s)(c := known s c \<union> known s p)\<rparr>) (st2\<lparr>rs_threads := (rs_threads st2)\<lparr>items := ts'\<rparr>\<rparr>)"
      by (rule send_implements [OF g(2) m P(1) p P(3) g(3,5)])
    then show ?thesis
      using False c(1) g(1,4) by (simp add: process_fork_def hb_step_def upd_threads_def thread_fork_def)
  qed
qed

lemma join_implements:
  assumes im: "implements own clk m P s st" and m: "int m + 1 < INT_MAX" and P: "tids_ok P" "p \<in> P" "c \<in> P"
  shows "\<exists>st'. process_join big_mem p c st = Ok st' \<and> implements own clk (Suc m) P (snd (hb_step (Join p c) s)) st'"
proof -
  obtain j st1 where c: "get_thread big_mem c st = Ok (int j, st1)" "implements own clk m P s st1" "index_of (rs_threads st1) (word_of_int c) = Some j"
    using get_thread_total [OF im P(1,3)] by metis
  obtain i st2 where g: "get_thread big_mem p st1 = Ok (int i, st2)" "implements own clk m P s st2" "index_of (rs_threads st2) (word_of_int p) = Some i"
      "i < length (items (rs_threads st2))" "rs_locks st2 = rs_locks st1" "rs_variables st2 = rs_variables st1"
      and ix: "\<forall>k j. index_of (rs_threads st1) k = Some j \<longrightarrow> index_of (rs_threads st2) k = Some j"
    by (rule get_thread_total [OF c(2) P(1,2)])
  note g = g(1-3) ix [rule_format, OF c(3)]
  have "index_ok (rs_threads st2)" using g(2) by (simp add: implements_def)
  then have lt: "j < length (items (rs_threads st2))" using g(4) by (rule index_of_less)
  obtain ts ts' where "upd_at (items (rs_threads st2)) (int i) (\<lambda>x. thread_update_vc x (th_vc (items (rs_threads st2) ! j))) = Ok ts"
      "upd_at ts (int j) thread_increment = Ok ts'"
      "implements own clk (Suc m) P (s\<lparr>known := (known s)(p := known s p \<union> known s c)\<rparr>) (st2\<lparr>rs_threads := (rs_threads st2)\<lparr>items := ts'\<rparr>\<rparr>)"
    by (rule send_implements [OF g(2) m P(1,3,2) g(4,3)])
  then show ?thesis
    using g(1) c(1) lt by (simp add: process_join_def hb_step_def upd_threads_def thread_join_def)
qed

text \<open>Locks.\<close>

lemma get_lock_total:
  assumes im: "implements own clk m P s st" and m: "m + 1 < 2 ^ 50" and a: "a \<noteq> 0"
  obtains k st' where "get_lock big_mem a st = Ok (int k, st')" "implements own clk (Suc m) P s st'" "index_of (rs_locks st') a = Some k"
    "rs_threads st' = rs_threads st"
proof (cases "index_of (rs_locks st) a")
  case (Some k)
  have "index_ok (rs_locks st)" using im by (simp add: implements_def)
  from list_smart_get_known [OF this Some] show thesis
    using implements_Suc [OF im] Some by (intro that [of k st]) (simp_all add: get_lock_def lock_list_smart_get_def)
next
  case None
  let ?l = "rs_locks st" and ?x = "snd (lock_init big_mem)"
  have l: "index_ok ?l" "race_ok st" "length (items ?l) \<le> m" using im by (simp_all add: implements_def)
  have n: "length (items ?l) + 1 < 2 ^ 50" using l(3) m by linarith
  obtain l' where l': "list_smart_get big_mem sizeof_lock (\<lambda>n. Ok ?x) ?l a = Ok (int (length (items ?l)), l')" "index_ok l'" "items l' = items ?l @ [?x]"
      "index_of l' = (index_of ?l)(a \<mapsto> length (items ?l))" "dom (ht_view (index_ht l')) = insert a (dom (ht_view (index_ht ?l)))"
    by (rule list_smart_get_new [OF l(1) None a n refl])
  have g: "get_lock big_mem a st = Ok (int (length (items ?l)), st\<lparr>rs_locks := l'\<rparr>)" using l'(1) by (simp add: get_lock_def lock_list_smart_get_def)
  have ok: "race_ok (st\<lparr>rs_locks := l'\<rparr>)" using get_lock_leads(1) [OF big_mem_simps(2) l(2) g] by (simp add: leads_to_def)
  have ev: "events_ok own clk (hb_now s) (tclk (items (rs_threads st)))" using im by (simp add: implements_def)
  have z: "knows own clk (hb_now s) (vclk (the (lk_vc ?x))) = {}"
    using lock_init_new [OF big_mem_simps(2)] by (intro knows_zero [OF ev]) auto
  have "passed_ok own clk (hb_now s) (passed s) l'"
    unfolding passed_ok_def
  proof (intro allI impI)
    fix b :: uintptr assume b: "b \<noteq> 0"
    have "passed s b = (case index_of ?l b of None \<Rightarrow> {} | Some k \<Rightarrow> knows own clk (hb_now s) (vclk (the (lk_vc (items ?l ! k)))))"
      using im b by (simp add: implements_def passed_ok_def)
    then show "passed s b = (case index_of l' b of None \<Rightarrow> {} | Some k \<Rightarrow> knows own clk (hb_now s) (vclk (the (lk_vc (items l' ! k)))))"
      using None z index_of_less [OF l(1), of b] unfolding l'(3,4) by (auto simp: nth_append split: option.splits)
  qed
  then have "implements own clk (Suc m) P s (st\<lparr>rs_locks := l'\<rparr>)"
    using implements_Suc [OF im] ok l'(2,3) l(3) by (simp add: implements_def)
  then show thesis
    using g l'(4) by (intro that [of "length (items ?l)" "st\<lparr>rs_locks := l'\<rparr>"]) simp_all
qed

lemma implementsD:
  assumes "implements own clk m P s st"
  shows "race_ok st" "index_ok (rs_threads st)" "index_ok (rs_locks st)" "index_ok (rs_variables st)"
    "events_ok own clk (hb_now s) (tclk (items (rs_threads st)))" "i < length (items (rs_threads st)) \<Longrightarrow> (tclk (items (rs_threads st)) ! i) i \<le> int m + 1"
    "threads_ok (items (rs_threads st))" "locks_ok (items (rs_locks st))" "sys_ok (tclk (items (rs_threads st))) (lclk (items (rs_locks st)))"
    "length (items (rs_threads st)) \<le> VC_INITIAL_SZ"
    "t \<in> P \<Longrightarrow> known s t = (case index_of (rs_threads st) (word_of_int t) of None \<Rightarrow> {} | Some k \<Rightarrow> knows own clk (hb_now s) (tclk (items (rs_threads st)) ! k))"
    "a \<noteq> 0 \<Longrightarrow> passed s a = (case index_of (rs_locks st) a of None \<Rightarrow> {} | Some k \<Rightarrow> knows own clk (hb_now s) (vclk (the (lk_vc (items (rs_locks st) ! k)))))"
    "length (items (rs_locks st)) \<le> m" "length (items (rs_variables st)) \<le> m"
proof -
  show ok: "race_ok st" using assms by (simp add: implements_def)
  show sy: "sys_ok (tclk (items (rs_threads st))) (lclk (items (rs_locks st)))" using ok by (simp add: race_ok_def)
  show "length (items (rs_threads st)) \<le> VC_INITIAL_SZ" using sys_okD(1) [OF sy] by simp
  show "i < length (items (rs_threads st)) \<Longrightarrow> (tclk (items (rs_threads st)) ! i) i \<le> int m + 1" using assms unfolding implements_def by blast
qed (use assms in \<open>simp_all add: implements_def known_ok_def passed_ok_def race_ok_def\<close>)

lemma lock_implements:
  assumes im: "implements own clk m P s st" and m: "m + 1 < 2 ^ 50" and P: "tids_ok P" "t \<in> P" and a: "a \<noteq> 0"
  shows "\<exists>st'. process_lock big_mem t a st = Ok st' \<and> implements own clk (Suc (Suc m)) P (snd (hb_step (Lock t a) s)) st'"
proof -
  obtain i st1 where c: "get_thread big_mem t st = Ok (int i, st1)" "implements own clk m P s st1" "index_of (rs_threads st1) (word_of_int t) = Some i"
    using get_thread_total [OF im P] by metis
  obtain k st2 where g: "get_lock big_mem a st1 = Ok (int k, st2)" "implements own clk (Suc m) P s st2" "index_of (rs_locks st2) a = Some k" "rs_threads st2 = rs_threads st1"
    by (rule get_lock_total [OF c(2) m a])
  note d = implementsD [OF g(2)]
  let ?l = "rs_threads st2" let ?ts = "items ?l" let ?T = "tclk ?ts"
  have i: "index_of ?l (word_of_int t) = Some i" "i < length ?ts" using c(3) g(4) index_of_less [OF d(2)] by simp_all
  have k: "k < length (items (rs_locks st2))" using g(3) index_of_less [OF d(3)] by simp
  obtain w where w: "lk_vc (items (rs_locks st2) ! k) = Some w" "vc_ok w" "vclk w \<in> lclk (items (rs_locks st2))" by (rule locks_ok_at [OF d(8) k])
  obtain u where u: "thread_update_vc (?ts ! i) (lk_vc (items (rs_locks st2) ! k)) = Ok u" "threads_ok (?ts[i := u])" "vclk (the (th_vc u)) = sup (?T ! i) (vclk w)"
    "th_idx u = int i" by (rule thread_update_vc_eq [OF d(7) i(2) w(1,2)])
  let ?st = "st2\<lparr>rs_threads := ?l\<lparr>items := ?ts[i := u]\<rparr>\<rparr>" and ?kn = "(known s)(t := known s t \<union> passed s a)"
  have T: "tclk (?ts[i := u]) = ?T[i := sup (?T ! i) (vclk w)]" unfolding tclk_simps(3) u(3) ..
  have p: "process_lock big_mem t a st = Ok ?st"
    using c(1) g(1) i(2) k u(1) by (simp add: process_lock_def upd_threads_def upd_at_def lock_acquire_def)
  have "race_ok ?st" using process_lock_leads [OF big_mem_simps(2) implementsD(1) [OF im] p] by (simp add: leads_to_def)
  moreover have "(?T ! j) j \<le> (tclk (?ts[i := u]) ! j) j \<and> (tclk (?ts[i := u]) ! j) j \<le> (?T ! j) j + 1" if j: "j < length (?ts[i := u])" for j
    using j i(2) sys_okD(5) [OF d(9) w(3), of j] unfolding T by (auto simp: nth_list_update sup_max)
  moreover have "?kn x = (case index_of ?l (word_of_int x) of None \<Rightarrow> {} | Some j \<Rightarrow> knows own clk (hb_now s) (tclk (?ts[i := u]) ! j))" if x: "x \<in> P" for x
  proof (cases "index_of ?l (word_of_int x)")
    case None
    then show ?thesis using d(11) [OF x] i(1) by auto
  next
    case (Some j)
    have "j = i \<longleftrightarrow> x = t" using index_of_inj [OF d(2)] Some i(1) tids_word(2) [OF P(1) x P(2)] by auto
    moreover have "known s t = knows own clk (hb_now s) (?T ! i)" "passed s a = knows own clk (hb_now s) (vclk w)" using d(11) [OF P(2)] d(12) [OF a] i(1) g(3) w(1) by simp_all
    ultimately show ?thesis using Some d(11) [OF x] i(2) index_of_less [OF d(2) Some] unfolding T by (auto simp: nth_list_update knows_sup)
  qed
  ultimately have "implements own clk (Suc (Suc m)) P (s\<lparr>known := ?kn\<rparr>) ?st" by (intro implements_threads [OF g(2)]) simp_all
  then show ?thesis using p by (simp add: hb_step_def)
qed

lemma implements_tick:
  assumes im: "implements own clk m P s st" and i: "i < length (items (rs_threads st))"
    and t: "threads_ok ((items (rs_threads st))[i := u])" "tclk ((items (rs_threads st))[i := u]) = tick i (tclk (items (rs_threads st)))"
  shows "implements own clk (Suc m) P s (st\<lparr>rs_threads := (rs_threads st)\<lparr>items := (items (rs_threads st))[i := u]\<rparr>\<rparr>)"
proof -
  note d = implementsD [OF im]
  let ?T = "tclk (items (rs_threads st))" and ?ts = "(items (rs_threads st))[i := u]" and ?L = "lclk (items (rs_locks st))"
  have "sys_ok (tick i ?T) ?L" by (rule sys_ok_mono [OF sys_ok_tick [OF d(9)]]) (use i in auto)
  then have "race_ok (st\<lparr>rs_threads := (rs_threads st)\<lparr>items := ?ts\<rparr>\<rparr>)" using t d(8) unfolding race_ok_def by (simp del: tclk_simps)
  moreover have "(?T ! j) j \<le> (tclk ?ts ! j) j \<and> (tclk ?ts ! j) j \<le> (?T ! j) j + 1" if "j < length ?ts" for j
    using that i unfolding t(2) by auto
  moreover have "known s x = (case index_of (rs_threads st) (word_of_int x) of None \<Rightarrow> {} | Some j \<Rightarrow> knows own clk (hb_now s) (tclk ?ts ! j))" if x: "x \<in> P" for x
    using d(11) [OF x] knows_tick [OF d(5), of i "?T ! i"] i unfolding t(2) by (auto split: option.split)
  ultimately have "implements own clk (Suc m) P (s\<lparr>known := known s\<rparr>) (st\<lparr>rs_threads := (rs_threads st)\<lparr>items := ?ts\<rparr>\<rparr>)"
    by (intro implements_threads [OF im]) simp_all
  then show ?thesis by simp
qed

lemma implements_locks:
  assumes im: "implements own clk m P s st" and ok: "race_ok (st\<lparr>rs_locks := (rs_locks st)\<lparr>items := ls\<rparr>\<rparr>)" and n: "length ls = length (items (rs_locks st))"
    and ps: "\<And>a. a \<noteq> 0 \<Longrightarrow> ps a = (case index_of (rs_locks st) a of None \<Rightarrow> {} | Some k \<Rightarrow> knows own clk (hb_now s) (vclk (the (lk_vc (ls ! k)))))"
  shows "implements own clk m P (s\<lparr>passed := ps\<rparr>) (st\<lparr>rs_locks := (rs_locks st)\<lparr>items := ls\<rparr>\<rparr>)"
proof -
  have "passed_ok own clk (hb_now s) ps ((rs_locks st)\<lparr>items := ls\<rparr>)" unfolding passed_ok_def by (simp add: ps split: option.split)
  then show ?thesis using im ok n by (simp add: implements_def)
qed

lemma unlock_implements:
  assumes im: "implements own clk m P s st" and m: "m + 1 < 2 ^ 50" "int m + 2 < INT_MAX" and P: "tids_ok P" "t \<in> P" and a: "a \<noteq> 0"
  shows "\<exists>st'. process_unlock big_mem t a st = Ok st' \<and> implements own clk (Suc (Suc m)) P (snd (hb_step (Unlock t a) s)) st'"
proof -
  obtain i st1 where c: "get_thread big_mem t st = Ok (int i, st1)" "implements own clk m P s st1" "index_of (rs_threads st1) (word_of_int t) = Some i"
    using get_thread_total [OF im P] by metis
  obtain k st2 where g: "get_lock big_mem a st1 = Ok (int k, st2)" "implements own clk (Suc m) P s st2" "index_of (rs_locks st2) a = Some k" "rs_threads st2 = rs_threads st1"
    by (rule get_lock_total [OF c(2) m(1) a])
  note d = implementsD [OF g(2)]
  let ?ts = "items (rs_threads st2)" and ?ls = "items (rs_locks st2)" let ?T = "tclk ?ts"
  have i: "index_of (rs_threads st2) (word_of_int t) = Some i" "i < length ?ts" using c(3) g(4) index_of_less [OF d(2)] by simp_all
  have k: "k < length ?ls" using g(3) index_of_less [OF d(3)] by simp
  obtain w where w: "lk_vc (?ls ! k) = Some w" "vc_ok w" "vclk w \<in> lclk ?ls" by (rule locks_ok_at [OF d(8) k])
  obtain v where v: "th_vc (?ts ! i) = Some v" "vc_ok v" "vclk v = ?T ! i" using threads_ok_at [OF d(7) i(2)] by (auto simp: thread_at_def)
  obtain c' where c': "vector_clock_update w v = Ok c'" "vc_ok c'" "vclk c' = sup (vclk w) (vclk v)" by (rule vclk_update [OF w(2) v(2)])
  have b: "(?T ! i) i < INT_MAX" using d(6) [OF i(2)] m(2) by simp
  obtain u where u: "thread_increment (?ts ! i) = Ok u" "threads_ok (?ts[i := u])" "tclk (?ts[i := u]) = tick i ?T"
    by (rule thread_increment_total [OF d(7) i(2) d(10) b])
  let ?l = "(?ls ! k)\<lparr>lk_vc := Some c'\<rparr>"
  let ?st3 = "st2\<lparr>rs_threads := (rs_threads st2)\<lparr>items := ?ts[i := u]\<rparr>\<rparr>"
  let ?st = "?st3\<lparr>rs_locks := (rs_locks ?st3)\<lparr>items := ?ls[k := ?l]\<rparr>\<rparr>" and ?ps = "(passed s)(a := passed s a \<union> known s t)"
  have p: "process_unlock big_mem t a st = Ok ?st"
    using c(1) g(1) i(2) k u(1) w(1) v(1) c'(1) by (simp add: process_unlock_def lock_release_def deref_def)
  have "implements own clk (Suc (Suc m)) P (s\<lparr>passed := ?ps\<rparr>) ?st"
  proof (rule implements_locks [OF implements_tick [OF g(2) i(2) u(2,3)]])
    show "race_ok ?st" using process_unlock_leads [OF big_mem_simps(2) implementsD(1) [OF im] p] by (simp add: leads_to_def)
    fix b :: uintptr assume b: "b \<noteq> 0"
    have "passed s a = knows own clk (hb_now s) (vclk w)" "known s t = knows own clk (hb_now s) (vclk v)" using d(11) [OF P(2)] d(12) [OF a] i(1) g(3) w(1) v(3) by simp_all
    moreover have "b = a \<longleftrightarrow> j = k" if "index_of (rs_locks st2) b = Some j" for j using index_of_inj [OF d(3)] g(3) that by auto
    ultimately show "?ps b = (case index_of (rs_locks ?st3) b of None \<Rightarrow> {} | Some j \<Rightarrow> knows own clk (hb_now s) (vclk (the (lk_vc (?ls[k := ?l] ! j)))))"
      using d(12) [OF b] g(3) k c'(3) by (auto simp: nth_list_update knows_sup split: option.split)
  qed simp
  then show ?thesis using p by (simp add: hb_step_def)
qed

section \<open>Accesses\<close>

lemma get_variable_total:
  assumes im: "implements own clk m P s st" and m: "m + 1 < 2 ^ 50" and a: "a \<noteq> 0"
  obtains x st' where "get_variable big_mem DJIT a st = Ok (int x, st')" "implements own clk (Suc m) P s st'" "index_of (rs_variables st') a = Some x"
    "rs_threads st' = rs_threads st"
proof (cases "index_of (rs_variables st) a")
  case (Some x)
  from list_smart_get_known [OF implementsD(4) [OF im] Some] show thesis
    using implements_Suc [OF im] Some by (intro that [of x st]) (simp_all add: get_variable_def variable_list_smart_get_def)
next
  case None
  note d = implementsD [OF im]
  let ?z = "\<lparr>clocks = replicate VC_INITIAL_SZ 0\<rparr>" let ?v = "\<lparr>dj_rx = ?z, dj_wx = ?z\<rparr>" and ?l = "rs_variables st"
  let ?mk = "\<lambda>n. res_bind (det_init DJIT big_mem n) (\<lambda>(ret, v). Ok v)"
  have "vector_clock_init big_mem VC_INITIAL_SZ = (1, Some ?z)" by (simp add: vector_clock_init_def big_mem_def small_mem_def)
  then have mk: "?mk (length (items ?l)) = Ok (Some ?v)" by (simp add: DJIT_def djit_variable_init_def)
  have n: "length (items ?l) + 1 < 2 ^ 50" using d(14) m by linarith
  obtain l' where l': "list_smart_get big_mem (det_size DJIT) ?mk ?l a = Ok (int (length (items ?l)), l')" "index_ok l'" "items l' = items ?l @ [Some ?v]"
      "index_of l' = (index_of ?l)(a \<mapsto> length (items ?l))" "dom (ht_view (index_ht l')) = insert a (dom (ht_view (index_ht ?l)))"
    by (rule list_smart_get_new [where mk = ?mk, OF d(4) None a n mk])
  have g: "get_variable big_mem DJIT a st = Ok (int (length (items ?l)), st\<lparr>rs_variables := l'\<rparr>)" using l'(1) by (simp add: get_variable_def variable_list_smart_get_def)
  have z: "var_ok own clk (hb_now s) {} {} (Some ?v)" using vc_zero by (simp add: var_ok_def represents_def)
  have "vars_ok own clk (hb_now s) (hb_reads s) (hb_writes s) l'"
    unfolding vars_ok_def
  proof (intro allI impI)
    fix b :: uintptr assume b: "b \<noteq> 0"
    have "case index_of ?l b of None \<Rightarrow> hb_reads s b = {} \<and> hb_writes s b = {} | Some x \<Rightarrow> var_ok own clk (hb_now s) (hb_reads s b) (hb_writes s b) (items ?l ! x)"
      using im b by (simp add: implements_def vars_ok_def)
    then show "case index_of l' b of None \<Rightarrow> hb_reads s b = {} \<and> hb_writes s b = {} | Some x \<Rightarrow> var_ok own clk (hb_now s) (hb_reads s b) (hb_writes s b) (items l' ! x)"
      using None z index_of_less [OF d(4), of b] unfolding l'(3,4) by (auto simp: nth_append split: option.splits)
  qed
  moreover have "race_ok (st\<lparr>rs_variables := l'\<rparr>)" using d(1) by (simp add: race_ok_def)
  ultimately have "implements own clk (Suc m) P s (st\<lparr>rs_variables := l'\<rparr>)"
    using implements_Suc [OF im] l'(2,3) d(14) by (simp add: implements_def)
  then show thesis
    using g l'(4) by (intro that [of "length (items ?l)" "st\<lparr>rs_variables := l'\<rparr>"]) simp_all
qed

text \<open>An access that is not reported becomes an event; what is known of the earlier ones stays.\<close>

lemma known_event:
  assumes im: "implements own clk m P s st" and P: "tids_ok P" "t \<in> P" and i: "index_of (rs_threads st) (word_of_int t) = Some i"
  defines "c \<equiv> (tclk (items (rs_threads st)) ! i) i"
  shows "known_ok (own(hb_now s := i)) (clk(hb_now s := c)) (Suc (hb_now s)) P ((known s)(t := insert (hb_now s) (known s t))) (rs_threads st)"
    "passed_ok (own(hb_now s := i)) (clk(hb_now s := c)) (Suc (hb_now s)) (passed s) (rs_locks st)"
proof -
  note d = implementsD [OF im]
  let ?T = "tclk (items (rs_threads st))" and ?ls = "items (rs_locks st)"
  let ?own = "own(hb_now s := i)" and ?clk = "clk(hb_now s := c)"
  have il: "i < length ?T" using i index_of_less [OF d(2)] by simp
  have new: "knows ?own ?clk (Suc (hb_now s)) V = knows own clk (hb_now s) V \<union> (if V = ?T ! i then {hb_now s} else {})" if "V \<in> set ?T \<union> lclk ?ls" for V
    unfolding c_def by (rule knows_event [OF d(9) il that])
  show "known_ok ?own ?clk (Suc (hb_now s)) P ((known s)(t := insert (hb_now s) (known s t))) (rs_threads st)"
    unfolding known_ok_def
  proof
    fix x assume x: "x \<in> P"
    show "((known s)(t := insert (hb_now s) (known s t))) x =
      (case index_of (rs_threads st) (word_of_int x) of None \<Rightarrow> {} | Some j \<Rightarrow> knows ?own ?clk (Suc (hb_now s)) (?T ! j))"
    proof (cases "index_of (rs_threads st) (word_of_int x)")
      case None
      then show ?thesis using d(11) [OF x] i by auto
    next
      case (Some j)
      have j: "j < length ?T" using Some index_of_less [OF d(2)] by simp
      have "j = i \<longleftrightarrow> x = t" using index_of_inj [OF d(2)] Some i tids_word(2) [OF P(1) x P(2)] by auto
      moreover have "?T ! j = ?T ! i \<longleftrightarrow> j = i" using sys_okD(4) [OF d(9) il j] by (metis less_irrefl)
      ultimately show ?thesis using Some d(11) [OF x] new [of "?T ! j"] nth_mem [OF j] by (cases "x = t") (simp_all del: tclk_simps)
    qed
  qed
  show "passed_ok ?own ?clk (Suc (hb_now s)) (passed s) (rs_locks st)"
    unfolding passed_ok_def
  proof (intro allI impI)
    fix b :: uintptr assume b: "b \<noteq> 0"
    show "passed s b = (case index_of (rs_locks st) b of None \<Rightarrow> {} | Some k \<Rightarrow> knows ?own ?clk (Suc (hb_now s)) (vclk (the (lk_vc (?ls ! k)))))"
    proof (cases "index_of (rs_locks st) b")
      case None
      then show ?thesis using d(12) [OF b] by simp
    next
      case (Some k)
      obtain w where w: "lk_vc (?ls ! k) = Some w" "vc_ok w" "vclk w \<in> lclk ?ls" by (rule locks_ok_at [OF d(8) index_of_less [OF d(3) Some]])
      have "vclk w \<noteq> ?T ! i" using sys_okD(5) [OF d(9) w(3) il] by auto
      then show ?thesis using Some d(12) [OF b] new [of "vclk w"] w(1,3) by simp
    qed
  qed
qed

lemma implements_event:
  assumes im: "implements own clk m P s st" and P: "tids_ok P" "t \<in> P" and i: "index_of (rs_threads st) (word_of_int t) = Some i"
    and x: "index_of (rs_variables st) a = Some x"
  defines "own' \<equiv> own(hb_now s := i)" and "clk' \<equiv> clk(hb_now s := (tclk (items (rs_threads st)) ! i) i)"
  assumes v: "var_ok own' clk' (Suc (hb_now s)) rd wr (Some v)"
  shows "implements own' clk' m P (s\<lparr>known := (known s)(t := insert (hb_now s) (known s t)), hb_now := Suc (hb_now s),
      hb_reads := (hb_reads s)(a := rd), hb_writes := (hb_writes s)(a := wr)\<rparr>)
    (st\<lparr>rs_variables := (rs_variables st)\<lparr>items := (items (rs_variables st))[x := Some v]\<rparr>\<rparr>)"
proof -
  note d = implementsD [OF im] and k = known_event [OF im P i, folded own'_def clk'_def]
  let ?vs = "items (rs_variables st)" and ?T = "tclk (items (rs_threads st))"
  have xl: "x < length ?vs" using x index_of_less [OF d(4)] by simp
  have il: "i < length ?T" using i index_of_less [OF d(2)] by simp
  have "events_ok own' clk' (Suc (hb_now s)) ?T" unfolding own'_def clk'_def by (rule events_ok_event [OF d(5) d(9) il])
  moreover have "vars_ok own' clk' (Suc (hb_now s)) ((hb_reads s)(a := rd)) ((hb_writes s)(a := wr)) ((rs_variables st)\<lparr>items := ?vs[x := Some v]\<rparr>)"
    unfolding vars_ok_def index_of_items
  proof (intro allI impI)
    fix b :: uintptr assume b: "b \<noteq> 0"
    have old: "case index_of (rs_variables st) b of None \<Rightarrow> hb_reads s b = {} \<and> hb_writes s b = {} | Some y \<Rightarrow> var_ok own clk (hb_now s) (hb_reads s b) (hb_writes s b) (?vs ! y)"
      using im b by (simp add: implements_def vars_ok_def)
    have up: "var_ok own' clk' (Suc (hb_now s)) R W y" if "var_ok own clk (hb_now s) R W y" for R W y
      using that unfolding own'_def clk'_def by (auto simp: var_ok_def intro: represents_old)
    have ba: "b = a \<longleftrightarrow> y = x" if "index_of (rs_variables st) b = Some y" for y using index_of_inj [OF d(4)] x that by auto
    show "case index_of (rs_variables st) b of None \<Rightarrow> ((hb_reads s)(a := rd)) b = {} \<and> ((hb_writes s)(a := wr)) b = {}
      | Some y \<Rightarrow> var_ok own' clk' (Suc (hb_now s)) (((hb_reads s)(a := rd)) b) (((hb_writes s)(a := wr)) b) (items ((rs_variables st)\<lparr>items := ?vs[x := Some v]\<rparr>) ! y)"
    proof (cases "index_of (rs_variables st) b")
      case None
      then show ?thesis using old x by auto
    next
      case (Some y)
      then show ?thesis using old ba [OF Some] v up [of _ _ "?vs ! y"] xl by (auto simp: nth_list_update)
    qed
  qed
  moreover have "race_ok (st\<lparr>rs_variables := (rs_variables st)\<lparr>items := ?vs[x := Some v]\<rparr>\<rparr>)" using d(1) by (simp add: race_ok_def)
  ultimately show ?thesis using im k xl by (simp add: implements_def)
qed

lemma represents_current:
  assumes "implements own clk m P s st" "i < length (items (rs_threads st))" "represents own clk (hb_now s) E C"
  shows "C \<le> tclk (items (rs_threads st)) ! i \<longleftrightarrow> E \<subseteq> knows own clk (hb_now s) (tclk (items (rs_threads st)) ! i)"
  using sys_okD(7) [OF implementsD(9) [OF assms(1)], of i] assms(2) by (intro represents_before [OF assms(3)]) simp

lemma access_implements:
  assumes im: "implements own clk m P s st" and m: "m + 1 < 2 ^ 50" and P: "tids_ok P" "t \<in> P" and a: "a \<noteq> 0"
  shows "\<exists>own' clk' st'. handle_read_write big_mem DJIT ld t a st = Ok (fst (hb_access ld t a s), st') \<and>
    implements own' clk' (Suc m) P (snd (hb_access ld t a s)) st'"
proof -
  obtain i st1 where c: "get_thread big_mem t st = Ok (int i, st1)" "implements own clk m P s st1" "index_of (rs_threads st1) (word_of_int t) = Some i"
    using get_thread_total [OF im P] by metis
  obtain x st2 where g: "get_variable big_mem DJIT a st1 = Ok (int x, st2)" "implements own clk (Suc m) P s st2" "index_of (rs_variables st2) a = Some x" "rs_threads st2 = rs_threads st1"
    by (rule get_variable_total [OF c(2) m a])
  note d = implementsD [OF g(2)]
  let ?ts = "items (rs_threads st2)" and ?vs = "items (rs_variables st2)" let ?T = "tclk ?ts"
  let ?now = "hb_now s" let ?own = "own(?now := i)" and ?clk = "clk(?now := (?T ! i) i)"
  have i: "index_of (rs_threads st2) (word_of_int t) = Some i" "i < length ?ts" using c(3) g(4) index_of_less [OF d(2)] by simp_all
  have x: "x < length ?vs" using g(3) index_of_less [OF d(4)] by simp
  have "var_ok own clk ?now (hb_reads s a) (hb_writes s a) (?vs ! x)"
    using g(2,3) a unfolding implements_def vars_ok_def by (metis option.simps(5))
  then obtain v where v: "?vs ! x = Some v" "vc_ok (dj_rx v)" "vc_ok (dj_wx v)" "represents own clk ?now (hb_reads s a) (vclk (dj_rx v))"
      "represents own clk ?now (hb_writes s a) (vclk (dj_wx v))" unfolding var_ok_def by blast
  have kn: "known s t = knows own clk ?now (?T ! i)" using d(11) [OF P(2)] i(1) by simp
  have at: "thread_at ?T (?ts ! i) i" by (rule threads_ok_at [OF d(7) i(2)])
  have T: "length ?T \<le> VC_INITIAL_SZ" "i < length ?T" using d(10) i(2) by simp_all
  note rc = represents_current [OF g(2) i(2) v(4), folded kn] represents_current [OF g(2) i(2) v(5), folded kn]
  note ev = implements_event [OF g(2) P i(1) g(3)]
  have st: "st2\<lparr>rs_variables := (rs_variables st2)\<lparr>items := ?vs[x := Some v]\<rparr>\<rparr> = st2" using v(1) x by (metis index_list.surjective index_list.update_convs(1) list_update_id race_state.surjective race_state.update_convs(3))
  show ?thesis
  proof (cases ld)
    case True
    obtain rx where r: "djit_update_read v (?ts ! i) = Ok (if vclk (dj_wx v) \<le> ?T ! i then (True, v\<lparr>dj_rx := rx\<rparr>) else (False, v))"
        "vc_ok rx" "vclk rx = (vclk (dj_rx v))(i := (?T ! i) i)"
      by (rule djit_update_read_eq [OF at T(1) v(2,3)])
    have "var_ok ?own ?clk (Suc ?now) (insert ?now (hb_reads s a)) (hb_writes s a) (Some (v\<lparr>dj_rx := rx\<rparr>))"
      using v r(2,3) represents_event [OF v(4) d(5) T(2)] represents_old [OF v(5)] by (simp add: var_ok_def)
    note new = ev [OF this]
    show ?thesis
    proof (cases "hb_writes s a \<subseteq> known s t")
      case free: True
      then show ?thesis
        using True c(1) g(1) i(2) x v(1) r(1) rc(2) new a
        by (intro exI [of _ ?own] exI [of _ ?clk]) (simp add: handle_read_write_def process_read_def process_access_def DJIT_def deref_def hb_access_def Let_def del: tclk_simps(2))
    next
      case race: False
      then show ?thesis
        using True c(1) g(1,2) i(2) x v(1) r(1) rc(2) a st
        by (intro exI [of _ own] exI [of _ clk]) (simp add: handle_read_write_def process_read_def process_access_def DJIT_def deref_def hb_access_def Let_def del: tclk_simps(2))
    qed
  next
    case False
    obtain wx where r: "djit_update_write v (?ts ! i) = Ok (if vclk (dj_wx v) \<le> ?T ! i \<and> vclk (dj_rx v) \<le> ?T ! i then (True, v\<lparr>dj_wx := wx\<rparr>) else (False, v))"
        "vc_ok wx" "vclk wx = (vclk (dj_wx v))(i := (?T ! i) i)"
      by (rule djit_update_write_eq [OF at T(1) v(2,3)])
    have "var_ok ?own ?clk (Suc ?now) (hb_reads s a) (insert ?now (hb_writes s a)) (Some (v\<lparr>dj_wx := wx\<rparr>))"
      using v r(2,3) represents_event [OF v(5) d(5) T(2)] represents_old [OF v(4)] by (simp add: var_ok_def)
    note new = ev [OF this]
    show ?thesis
    proof (cases "hb_writes s a \<subseteq> known s t \<and> hb_reads s a \<subseteq> known s t")
      case free: True
      then show ?thesis
        using False c(1) g(1) i(2) x v(1) r(1) rc new a
        by (intro exI [of _ ?own] exI [of _ ?clk]) (simp add: handle_read_write_def process_write_def process_access_def DJIT_def deref_def hb_access_def Let_def del: tclk_simps(2))
    next
      case race: False
      then have "hb_access ld t a s = (False, s)" "djit_update_write v (?ts ! i) = Ok (False, v)" using r(1) rc False by (auto simp: hb_access_def Let_def)
      then show ?thesis
        using False c(1) g(1,2) i(2) x v(1) a st
        by (intro exI [of _ own] exI [of _ clk]) (simp add: handle_read_write_def process_write_def process_access_def DJIT_def deref_def del: tclk_simps(2))
    qed
  qed
qed

section \<open>The detectors report what does not happen before\<close>

text \<open>The events the plugin delivers: threads of the program, locks and variables at addresses other than null.\<close>

fun event_ok :: "int set \<Rightarrow> race_event \<Rightarrow> bool" where
  "event_ok P (Fork p c) \<longleftrightarrow> (p \<in> P \<or> p = 0) \<and> c \<in> P"
| "event_ok P (Join p c) \<longleftrightarrow> p \<in> P \<and> c \<in> P"
| "event_ok P (Lock t a) \<longleftrightarrow> t \<in> P \<and> a \<noteq> 0"
| "event_ok P (Unlock t a) \<longleftrightarrow> t \<in> P \<and> a \<noteq> 0"
| "event_ok P (Access ld t a) \<longleftrightarrow> t \<in> P"

lemma step_implements:
  assumes im: "implements own clk m P s st" and m: "m + 2 < 2 ^ 31 - 1" and P: "tids_ok P" and e: "event_ok P e"
  shows "\<exists>own' clk' st'. race_step big_mem DJIT e st = Ok (fst (hb_step e s), st') \<and> implements own' clk' (Suc (Suc m)) P (snd (hb_step e s)) st'"
proof -
  have b: "int m + 1 < INT_MAX" "int m + 2 < INT_MAX" "m + 1 < 2 ^ 50" using m by (simp_all add: INT_MAX_def)
  show ?thesis
  proof (cases e)
    case (Fork p c)
    then show ?thesis using fork_implements [OF im b(1) P, of p c] e implements_Suc by (fastforce simp: race_step_def hb_step_def)
  next
    case (Join p c)
    then show ?thesis using join_implements [OF im b(1) P, of p c] e implements_Suc by (fastforce simp: race_step_def hb_step_def)
  next
    case (Lock t a)
    then show ?thesis using lock_implements [OF im b(3) P, of t a] e by (fastforce simp: race_step_def hb_step_def)
  next
    case (Unlock t a)
    then show ?thesis using unlock_implements [OF im b(3,2) P, of t a] e by (fastforce simp: race_step_def hb_step_def)
  next
    case (Access ld t a)
    show ?thesis
    proof (cases "a = 0")
      case True
      then show ?thesis using Access im by (auto simp: race_step_def hb_step_def handle_read_write_def intro!: implements_Suc)
    next
      case False
      then show ?thesis using Access access_implements [OF im b(3) P, of t a ld] e implements_Suc by (fastforce simp: race_step_def hb_step_def)
    qed
  qed
qed

lemma run_implements:
  assumes "implements own clk m P s st" "m + 2 * length es < 2 ^ 31 - 1" "tids_ok P" "list_all (event_ok P) es"
  shows "\<exists>st'. race_run big_mem DJIT es st = Ok (hb_run es s, st')"
  using assms
proof (induction es arbitrary: own clk m s st)
  case (Cons e es)
  have m: "m + 2 < 2 ^ 31 - 1" "Suc (Suc m) + 2 * length es < 2 ^ 31 - 1" using Cons.prems(2) by simp_all
  have e: "event_ok P e" "list_all (event_ok P) es" using Cons.prems(4) by simp_all
  obtain own' clk' st' where "race_step big_mem DJIT e st = Ok (fst (hb_step e s), st')" "implements own' clk' (Suc (Suc m)) P (snd (hb_step e s)) st'"
    using step_implements [OF Cons.prems(1) m(1) Cons.prems(3) e(1)] by blast
  then show ?case using Cons.IH [OF _ m(2) Cons.prems(3) e(2)] by (fastforce simp: case_prod_beta)
qed simp

definition fresh_ht :: "mambo_ht \<Rightarrow> mambo_ht" where
  "fresh_ht ht = ht\<lparr>mht_entries := replicate 8 zero_entry, entry_count := 0, mht_size := 8, allow_resize := True, fill_factor := 90,
     index_shift := 0, resize_threshold := threshold_of 8 90\<rparr>"

lemma list_init_fresh: "list_init big_mem ht = Ok \<lparr>items = [], list_capacity = VC_INITIAL_SZ, index_ht = fresh_ht ht\<rparr>"
proof -
  have "round_size 8 1 = Ok 8" by (simp add: round_size.simps [of 8 1] round_size.simps [of 8 2] round_size.simps [of 8 4] round_size.simps [of 8 8])
  then show ?thesis by (simp add: list_init_def mambo_ht_init_def VC_INITIAL_SZ_def calloc_entries_def fresh_ht_def)
qed

lemma fresh_index:
  "index_ok \<lparr>items = [], list_capacity = n, index_ht = fresh_ht ht\<rparr>" "index_of \<lparr>items = xs, list_capacity = n, index_ht = fresh_ht ht\<rparr> = Map.empty"
  "ht_view (fresh_ht ht) = Map.empty"
proof -
  have "ht_config_ok (fresh_ht ht)" unfolding ht_config_ok_def by (auto simp: fresh_ht_def intro!: exI [of _ 3])
  then have "ht_ok (fresh_ht ht) \<and> ht_view (fresh_ht ht) = Map.empty" by (rule ht_ok_empty) (simp_all add: fresh_ht_def)
  then show "index_ok \<lparr>items = [], list_capacity = n, index_ht = fresh_ht ht\<rparr>" "index_of \<lparr>items = xs, list_capacity = n, index_ht = fresh_ht ht\<rparr> = Map.empty"
    "ht_view (fresh_ht ht) = Map.empty"
    by (simp_all add: index_ok_def index_of_def fresh_ht_def fun_eq_iff)
qed

lemma race_init_implements:
  obtains st where "race_init big_mem ht = Ok st" "implements own clk 0 P hb_init st"
proof -
  let ?st = "\<lparr>rs_threads = \<lparr>items = [], list_capacity = VC_INITIAL_SZ, index_ht = fresh_ht ht\<rparr>, rs_locks = \<lparr>items = [], list_capacity = VC_INITIAL_SZ, index_ht = fresh_ht ht\<rparr>,
    rs_variables = \<lparr>items = [], list_capacity = VC_INITIAL_SZ, index_ht = fresh_ht ht\<rparr>\<rparr>"
  have "race_init big_mem ht = Ok ?st" by (simp add: race_init_def list_init_fresh)
  moreover have "race_ok ?st" by (simp add: race_ok_def threads_ok_def locks_ok_def sys_ok_def tclk_def lclk_def)
  then have "implements own clk 0 P hb_init ?st"
    by (simp add: implements_def fresh_index events_ok_def known_ok_def passed_ok_def vars_ok_def hb_init_def)
  ultimately show thesis by (rule that)
qed

lemma djit_verdicts:
  assumes "tids_ok P" "list_all (event_ok P) es" "length es < 2 ^ 30"
  shows "race_verdicts big_mem DJIT ht es = Ok (hb_run es hb_init)"
proof -
  obtain st :: "djit_variable race_state" where st: "race_init big_mem ht = Ok st" "implements (\<lambda>_. 0) (\<lambda>_. 0) 0 P hb_init st"
    by (rule race_init_implements)
  have "0 + 2 * length es < 2 ^ 31 - 1" using assms(3) by simp
  from run_implements [OF st(2) this assms(1,2)] show ?thesis using st(1) by (auto simp: race_verdicts_def)
qed

text \<open>C3: Both detectors report exactly the unordered accesses: for at most eight threads and fewer than \<open>2^30\<close> events, the plugin built with
  DJIT or with FastTrack never fails, and its verdict on an access is that of the specification: it is free of a race exactly
  when every earlier conflicting access that was not reported itself happens before it, that is, is known to the thread through its own
  steps, forks, joins and the locks it has taken.\<close>

theorem races_are_unordered:
  assumes "tids_ok P" "list_all (event_ok P) es" "length es < 2 ^ 30"
  shows "race_verdicts big_mem DJIT ht es = Ok (hb_run es hb_init) \<and> race_verdicts big_mem (FASTTRACK uninit) ht es = Ok (hb_run es hb_init)"
  using djit_verdicts [OF assms] verdicts_equal [of "\<lambda>n. unat n \<le> 2 ^ 57"] by (simp add: big_mem_def)

text \<open>Two threads write under a lock, then one of them writes without it.\<close>

definition two_writers :: "race_event list" where
  "two_writers = [Fork 0 100, Fork 100 101, Lock 100 16, Access False 100 64, Unlock 100 16, Lock 101 16, Access True 101 64, Unlock 101 16,
     Access False 100 64, Join 100 101, Access False 100 64]"

theorem races_are_unordered_witness:
  "race_verdicts big_mem (FASTTRACK (\<lambda>_. True)) small_ht two_writers = Ok [True, True, True, True, True, True, True, True, False, True, True]"
proof -
  have "tids_ok {100, 101}" by (simp add: tids_ok_def VC_INITIAL_SZ_def)
  moreover have "list_all (event_ok {100, 101}) two_writers" by (simp add: two_writers_def)
  moreover have "hb_run two_writers hb_init = [True, True, True, True, True, True, True, True, False, True, True]"
    by (simp add: two_writers_def hb_step_def hb_access_def hb_init_def Let_def)
  ultimately show ?thesis using races_are_unordered [of "{100, 101}" two_writers small_ht "\<lambda>_. True"] by (simp add: two_writers_def)
qed

end
