(* ===== verification/A64_Load_Store.thy ===== *)
theory A64_Load_Store
  imports A64_Scan
begin

text \<open>
  What a plugin learns about the memory accesses and branches of the guest (\<open>api/load_store.c\<close> and
  \<open>api/branch_decoder_support.c\<close>, the AArch64 build): whether an instruction loads or stores, how many bytes, the code that
  computes the address it accesses, and what kind of branch it is. The instruction's word is read through \<open>guest\<close> at the
  context's read address; the fields are those of \<open>pie/a64.txt\<close>.
\<close>

section \<open>Instructions and fields\<close>

definition A64_LDX_STX :: a64_instruction where "A64_LDX_STX = 26"
definition A64_LDP_STP :: a64_instruction where "A64_LDP_STP = 28"
definition A64_LDR_STR_IMMED :: a64_instruction where "A64_LDR_STR_IMMED = 29"
definition A64_LDR_STR_REG :: a64_instruction where "A64_LDR_STR_REG = 30"
definition A64_LDR_STR_UNSIGNED_IMMED :: a64_instruction where "A64_LDR_STR_UNSIGNED_IMMED = 31"
definition A64_LDX_STX_MULTIPLE :: a64_instruction where "A64_LDX_STX_MULTIPLE = 32"
definition A64_LDX_STX_MULTIPLE_POST :: a64_instruction where "A64_LDX_STX_MULTIPLE_POST = 33"
definition A64_LDX_STX_SINGLE :: a64_instruction where "A64_LDX_STX_SINGLE = 34"
definition A64_LDX_STX_SINGLE_POST :: a64_instruction where "A64_LDX_STX_SINGLE_POST = 35"
definition A64_LDADD :: a64_instruction where "A64_LDADD = 36"
definition A64_LDCLR :: a64_instruction where "A64_LDCLR = 37"
definition A64_LDEOR :: a64_instruction where "A64_LDEOR = 38"
definition A64_LDSMAX :: a64_instruction where "A64_LDSMAX = 39"
definition A64_LDSMIN :: a64_instruction where "A64_LDSMIN = 40"
definition A64_LDUMAX :: a64_instruction where "A64_LDUMAX = 41"
definition A64_LDUMIN :: a64_instruction where "A64_LDUMIN = 42"
definition A64_LDSET :: a64_instruction where "A64_LDSET = 43"
definition A64_SWP :: a64_instruction where "A64_SWP = 44"

lemmas a64_memory_instructions = A64_LDR_LIT_def A64_LDX_STX_def A64_LDP_STP_def A64_LDR_STR_IMMED_def A64_LDR_STR_REG_def
  A64_LDR_STR_UNSIGNED_IMMED_def A64_LDX_STX_MULTIPLE_def A64_LDX_STX_MULTIPLE_POST_def A64_LDX_STX_SINGLE_def
  A64_LDX_STX_SINGLE_POST_def A64_LDADD_def A64_LDCLR_def A64_LDEOR_def A64_LDSMAX_def A64_LDSMIN_def A64_LDUMAX_def
  A64_LDUMIN_def A64_LDSET_def A64_SWP_def

text \<open>Atomic memory operations with a branch of their own in the switches below, and those without.\<close>

definition atomic_handled :: "a64_instruction set" where
  "atomic_handled = {A64_LDADD, A64_LDCLR, A64_LDEOR, A64_LDSET, A64_SWP}"

definition atomic_forgotten :: "a64_instruction set" where
  "atomic_forgotten = {A64_LDSMAX, A64_LDSMIN, A64_LDUMAX, A64_LDUMIN}"

record ldx_fields =
  ldx_size :: u32
  ldx_o2 :: u32
  ldx_l :: u32
  ldx_o1 :: u32
  ldx_rn :: u32

definition a64_LDX_STX_decode_fields :: "u32 \<Rightarrow> ldx_fields" where
  "a64_LDX_STX_decode_fields w = \<lparr>ldx_size = fld w 31 30, ldx_o2 = fld w 23 23, ldx_l = fld w 22 22, ldx_o1 = fld w 21 21, ldx_rn = fld w 9 5\<rparr>"

record ldp_fields =
  ldp_opc :: u32
  ldp_v :: u32
  ldp_type :: u32
  ldp_l :: u32
  ldp_imm7 :: u32
  ldp_rn :: u32

definition a64_LDP_STP_decode_fields :: "u32 \<Rightarrow> ldp_fields" where
  "a64_LDP_STP_decode_fields w = \<lparr>ldp_opc = fld w 31 30, ldp_v = fld w 26 26, ldp_type = fld w 24 23, ldp_l = fld w 22 22,
     ldp_imm7 = fld w 21 15, ldp_rn = fld w 9 5\<rparr>"

text \<open>The three forms of LDR and STR share the fields \<open>size, V, opc\<close> and \<open>Rn\<close>.\<close>

record ldr_fields =
  ldr_size :: u32
  ldr_v :: u32
  ldr_opc :: u32
  ldr_rn :: u32

definition ldr_common :: "u32 \<Rightarrow> ldr_fields" where
  "ldr_common w = \<lparr>ldr_size = fld w 31 30, ldr_v = fld w 26 26, ldr_opc = fld w 23 22, ldr_rn = fld w 9 5\<rparr>"

definition a64_LDR_STR_unsigned_immed_decode_fields :: "u32 \<Rightarrow> ldr_fields \<times> u32" where
  "a64_LDR_STR_unsigned_immed_decode_fields w = (ldr_common w, fld w 21 10)"

text \<open>\<open>imm9\<close> and \<open>type\<close>.\<close>

definition a64_LDR_STR_immed_decode_fields :: "u32 \<Rightarrow> ldr_fields \<times> u32 \<times> u32" where
  "a64_LDR_STR_immed_decode_fields w = (ldr_common w, fld w 20 12, fld w 11 10)"

text \<open>\<open>Rm\<close>, \<open>option\<close> and \<open>S\<close>.\<close>

definition a64_LDR_STR_reg_decode_fields :: "u32 \<Rightarrow> ldr_fields \<times> u32 \<times> u32 \<times> u32" where
  "a64_LDR_STR_reg_decode_fields w = (ldr_common w, fld w 20 16, fld w 15 13, fld w 12 12)"

text \<open>\<open>Q, opcode, Rn\<close>.\<close>

definition a64_LDx_STx_multiple_decode_fields :: "u32 \<Rightarrow> u32 \<times> u32 \<times> u32" where
  "a64_LDx_STx_multiple_decode_fields w = (fld w 30 30, fld w 15 12, fld w 9 5)"

text \<open>\<open>R, opcode, size, Rn\<close>.\<close>

definition a64_LDx_STx_single_decode_fields :: "u32 \<Rightarrow> u32 \<times> u32 \<times> u32 \<times> u32" where
  "a64_LDx_STx_single_decode_fields w = (fld w 21 21, fld w 15 13, fld w 11 10, fld w 9 5)"

text \<open>\<open>size, Rn\<close>.\<close>

definition a64_LDADD_decode_fields :: "u32 \<Rightarrow> u32 \<times> u32" where
  "a64_LDADD_decode_fields w = (fld w 31 30, fld w 9 5)"

section \<open>Loads and stores\<close>

definition IS_LOAD :: u32 where "IS_LOAD = push_bit 22 1"

text \<open>The pair \<open>is_load, is_store\<close>.\<close>

definition a64_is_load_or_store :: "a64_instruction \<Rightarrow> u32 \<Rightarrow> bool \<times> bool" where
  "a64_is_load_or_store inst w =
     (if inst = A64_LDR_LIT then
        case a64_LDR_lit_decode_fields w of (opc, v, _, _) \<Rightarrow> if opc = 3 \<and> v = 0 then (False, False) else (True, False)
      else if inst \<in> {A64_LDX_STX, A64_LDP_STP, A64_LDX_STX_MULTIPLE, A64_LDX_STX_MULTIPLE_POST, A64_LDX_STX_SINGLE, A64_LDX_STX_SINGLE_POST} then
        if w AND IS_LOAD \<noteq> 0 then (True, False) else (False, True)
      else if inst \<in> {A64_LDR_STR_IMMED, A64_LDR_STR_REG, A64_LDR_STR_UNSIGNED_IMMED} then
        let f = fst (a64_LDR_STR_unsigned_immed_decode_fields w) in
        if ldr_size f = 3 \<and> ldr_v f = 0 \<and> ldr_opc f = 2 then (False, False)
        else if drop_bit 22 w AND 3 \<noteq> 0 then (True, False) else (False, True)
      else if inst \<in> atomic_handled then (True, True)
      else (False, False))"

definition mambo_is_load :: "a64_instruction \<Rightarrow> u32 \<Rightarrow> bool" where
  "mambo_is_load inst w = fst (a64_is_load_or_store inst w)"

definition mambo_is_store :: "a64_instruction \<Rightarrow> u32 \<Rightarrow> bool" where
  "mambo_is_store inst w = snd (a64_is_load_or_store inst w)"

definition mambo_is_load_or_store :: "a64_instruction \<Rightarrow> u32 \<Rightarrow> bool" where
  "mambo_is_load_or_store inst w = (case a64_is_load_or_store inst w of (l, s) \<Rightarrow> l \<or> s)"

section \<open>Sizes\<close>

text \<open>A failed lookup of the opcode of a multiple-structure access ends the process.\<close>

definition a64_get_ld_st_size :: "a64_instruction \<Rightarrow> u32 \<Rightarrow> int res" where
  "a64_get_ld_st_size inst w =
     (if inst = A64_LDR_LIT then
        case a64_LDR_lit_decode_fields w of (opc, v, _, _) \<Rightarrow>
          Ok (if v \<noteq> 0 then push_bit (unat opc) 4 else push_bit (unat (opc AND 1)) 4)
      else if inst = A64_LDP_STP then
        let f = a64_LDP_STP_decode_fields w in
        Ok (if ldp_v f \<noteq> 0 then push_bit (unat (ldp_opc f)) 8 else push_bit (unat (drop_bit 1 (ldp_opc f))) 8)
      else if inst \<in> {A64_LDR_STR_REG, A64_LDR_STR_IMMED, A64_LDR_STR_UNSIGNED_IMMED} then
        let f = fst (a64_LDR_STR_unsigned_immed_decode_fields w) in
        Ok (if ldr_v f \<noteq> 0 then push_bit (unat (ldr_size f + push_bit 2 (drop_bit 1 (ldr_opc f)))) 1 else push_bit (unat (ldr_size f)) 1)
      else if inst = A64_LDX_STX then
        let f = a64_LDX_STX_decode_fields w in Ok (push_bit (unat (ldx_size f + ldx_o1 f)) 1)
      else if inst \<in> {A64_LDX_STX_MULTIPLE, A64_LDX_STX_MULTIPLE_POST} then
        case a64_LDx_STx_multiple_decode_fields w of (q, op, _) \<Rightarrow>
          res_bind (if op = 0 \<or> op = 2 then Ok 4 else if op = 4 \<or> op = 6 then Ok 3 else if op = 8 \<or> op = 0xA then Ok 2
                    else if op = 7 then Ok 1 else Assert_Fail) (\<lambda>regs.
          Ok (regs * push_bit (unat q) 8))
      else if inst \<in> {A64_LDX_STX_SINGLE, A64_LDX_STX_SINGLE_POST} then
        case a64_LDx_STx_single_decode_fields w of (r, op, sz, _) \<Rightarrow>
          let regs = uint ((push_bit 1 (op AND 1) OR r) + 1); scale = drop_bit 1 op;
              scale = (if scale = 3 then sz else if scale = 2 then (if sz AND 1 \<noteq> 0 then 3 else scale) else scale)
          in Ok (push_bit (unat scale) 1 * regs)
      else if inst \<in> atomic_handled then case a64_LDADD_decode_fields w of (sz, _) \<Rightarrow> Ok (push_bit (unat sz) 1)
      else Ok (-1))"

definition mambo_get_ld_st_size :: "a64_instruction \<Rightarrow> u32 \<Rightarrow> int res" where
  "mambo_get_ld_st_size inst w = a64_get_ld_st_size inst w"

section \<open>Addresses\<close>

definition sign_extend32 :: "nat \<Rightarrow> u32 \<Rightarrow> int" where
  "sign_extend32 bits val = (let C = word_of_int (- (2 ^ (bits - 1))) in sint ((val + C) XOR C))"

definition generate_addr :: "emit_ctx \<Rightarrow> int \<Rightarrow> int \<Rightarrow> int \<Rightarrow> int \<Rightarrow> emit_ctx res" where
  "generate_addr e reg rn rm offset =
     res_bind (res_assert (rm \<noteq> uint sp)) (\<lambda>_.
     let apply_offset = (if rn = uint sp then plugin_pushed_reg_count (fst e) * 8 else 0) in
     if rm \<le> - uint (reg_invalid AArch64) \<or> rm \<ge> uint (reg_invalid AArch64) then
       res_bind (emit_add_sub_i e reg rn (offset + apply_offset)) (\<lambda>(_, e). Ok e)
     else
       case emit_a64_add_sub_ext e reg rn rm (offset AND 7) (drop_bit 3 offset) of (_, e) \<Rightarrow>
       if apply_offset \<noteq> 0 then
         res_bind (res_assert (apply_offset \<le> 0xFFF \<and> apply_offset > 0)) (\<lambda>_.
         res_bind (emit_add_sub_i e reg reg apply_offset) (\<lambda>(_, e). Ok e))
       else Ok e)"

text \<open>A base register without an offset.\<close>

definition base_addr :: "emit_ctx \<Rightarrow> int \<Rightarrow> u32 \<Rightarrow> int \<Rightarrow> (int \<times> emit_ctx) res" where
  "base_addr e reg rn offset =
     res_bind (generate_addr e reg (uint rn) (uint (reg_invalid AArch64)) offset) (\<lambda>e. Ok (0, e))"

definition a64_calc_ld_st_addr :: "(uintptr \<Rightarrow> u32) \<Rightarrow> emit_ctx \<Rightarrow> int \<Rightarrow> (int \<times> emit_ctx) res" where
  "a64_calc_ld_st_addr guest e reg =
     (let inst = ctx_inst (fst e); p = read_address (fst e); w = guest p in
      if inst = int A64_LDP_STP then
        let f = a64_LDP_STP_decode_fields w;
            offset = push_bit (unat (2 + drop_bit (unat (1 - ldp_v f)) (ldp_opc f))) (sign_extend32 7 (ldp_imm7 f))
        in base_addr e reg (ldp_rn f) (if ldp_type f \<noteq> 1 then offset else 0)
      else if inst = int A64_LDR_STR_UNSIGNED_IMMED then
        case a64_LDR_STR_unsigned_immed_decode_fields w of (f, imm12) \<Rightarrow>
          base_addr e reg (ldr_rn f) (sint (push_bit (unat (push_bit 2 (ldr_v f AND drop_bit 1 (ldr_opc f)) + ldr_size f)) imm12))
      else if inst = int A64_LDR_STR_IMMED then
        case a64_LDR_STR_immed_decode_fields w of (f, imm9, ty) \<Rightarrow>
          base_addr e reg (ldr_rn f) (if ty \<noteq> 1 then sign_extend32 9 imm9 else 0)
      else if inst = int A64_LDR_LIT then
        case a64_LDR_lit_decode_fields w of (opc, v, imm19, rt) \<Rightarrow>
          Ok (0, emit_set_reg e (word_of_int reg) (p + push_bit 2 (sign_extend64 19 (ucast imm19))))
      else if inst = int A64_LDR_STR_REG then
        case a64_LDR_STR_reg_decode_fields w of (f, rm, opt, s) \<Rightarrow>
          if rm = 31 then base_addr e reg (ldr_rn f) 0
          else
            let shift = (if s \<noteq> 0 then push_bit 2 (ldr_v f AND drop_bit 1 (ldr_opc f)) + ldr_size f else 0) in
            res_bind (generate_addr e reg (uint (ldr_rn f)) (uint rm) (sint (push_bit 3 shift OR opt))) (\<lambda>e. Ok (0, e))
      else if inst = int A64_LDX_STX then base_addr e reg (ldx_rn (a64_LDX_STX_decode_fields w)) 0
      else if inst = int A64_LDX_STX_MULTIPLE \<or> inst = int A64_LDX_STX_MULTIPLE_POST then
        case a64_LDx_STx_multiple_decode_fields w of (q, op, rn) \<Rightarrow> base_addr e reg rn 0
      else if inst = int A64_LDX_STX_SINGLE \<or> inst = int A64_LDX_STX_SINGLE_POST then
        case a64_LDx_STx_single_decode_fields w of (r, op, sz, rn) \<Rightarrow> base_addr e reg rn 0
      else if inst \<in> int ` atomic_handled then
        case a64_LDADD_decode_fields w of (sz, rn) \<Rightarrow> base_addr e reg rn 0
      else Ok (-1, e))"

definition mambo_calc_ld_st_addr :: "(uintptr \<Rightarrow> u32) \<Rightarrow> emit_ctx \<Rightarrow> int \<Rightarrow> (int \<times> emit_ctx) res" where
  "mambo_calc_ld_st_addr guest e reg = a64_calc_ld_st_addr guest e reg"

section \<open>Branches\<close>

type_synonym mambo_branch_type = u32

definition BRANCH_NONE :: mambo_branch_type where "BRANCH_NONE = push_bit 0 1"
definition BRANCH_DIRECT :: mambo_branch_type where "BRANCH_DIRECT = push_bit 1 1"
definition BRANCH_INDIRECT :: mambo_branch_type where "BRANCH_INDIRECT = push_bit 2 1"
definition BRANCH_RETURN :: mambo_branch_type where "BRANCH_RETURN = push_bit 3 1"
definition BRANCH_COND :: mambo_branch_type where "BRANCH_COND = push_bit 4 1"
definition BRANCH_COND_PSR :: mambo_branch_type where "BRANCH_COND_PSR = push_bit 5 1"
definition BRANCH_COND_CBZ :: mambo_branch_type where "BRANCH_COND_CBZ = push_bit 6 1"
definition BRANCH_COND_TBZ :: mambo_branch_type where "BRANCH_COND_TBZ = push_bit 7 1"
definition BRANCH_CALL :: mambo_branch_type where "BRANCH_CALL = push_bit 9 1"

lemmas branch_types = BRANCH_NONE_def BRANCH_DIRECT_def BRANCH_INDIRECT_def BRANCH_RETURN_def BRANCH_COND_def BRANCH_COND_PSR_def
  BRANCH_COND_CBZ_def BRANCH_COND_TBZ_def BRANCH_CALL_def

definition mambo_get_branch_type :: "a64_instruction \<Rightarrow> u32 \<Rightarrow> mambo_branch_type" where
  "mambo_get_branch_type inst w =
     (if inst = A64_CBZ_CBNZ then BRANCH_DIRECT OR BRANCH_COND OR BRANCH_COND_CBZ
      else if inst = A64_B_COND then BRANCH_DIRECT OR BRANCH_COND OR BRANCH_COND_PSR
      else if inst = A64_TBZ_TBNZ then BRANCH_DIRECT OR BRANCH_COND OR BRANCH_COND_TBZ
      else if inst = A64_BR then BRANCH_INDIRECT
      else if inst = A64_BLR then BRANCH_INDIRECT OR BRANCH_CALL
      else if inst = A64_RET then BRANCH_INDIRECT OR BRANCH_RETURN
      else if inst = A64_B_BL then
        (case a64_B_BL_decode_fields w of (op, imm26) \<Rightarrow> if op = 1 then BRANCH_DIRECT OR BRANCH_CALL else BRANCH_DIRECT)
      else BRANCH_NONE)"

section \<open>The accesses of the architecture\<close>

text \<open>
  The loads and stores of the instruction classes above by the architecture's encoding tables: compare-and-swap shares the
  class of the exclusive accesses, and for vector registers \<open>opc = 2\<close> is the store of 128 bits.
\<close>

definition is_cas :: "u32 \<Rightarrow> bool" where
  "is_cas w \<longleftrightarrow> (let f = a64_LDX_STX_decode_fields w in ldx_o1 f = 1 \<and> (ldx_o2 f = 1 \<or> ldx_size f < 2))"

definition is_prefetch :: "a64_instruction \<Rightarrow> u32 \<Rightarrow> bool" where
  "is_prefetch inst w \<longleftrightarrow>
     (if inst = A64_LDR_LIT then fld w 31 30 = 3 \<and> fld w 26 26 = 0
      else inst \<in> {A64_LDR_STR_IMMED, A64_LDR_STR_REG, A64_LDR_STR_UNSIGNED_IMMED} \<and> fld w 31 30 = 3 \<and> fld w 26 26 = 0 \<and> fld w 23 22 = 2)"

definition a64_access :: "a64_instruction \<Rightarrow> u32 \<Rightarrow> bool \<times> bool" where
  "a64_access inst w =
     (let L = bit w 22 in
      if is_prefetch inst w then (False, False)
      else if inst = A64_LDR_LIT then (True, False)
      else if inst = A64_LDX_STX then (L \<or> is_cas w, \<not> L \<or> is_cas w)
      else if inst \<in> {A64_LDP_STP, A64_LDX_STX_MULTIPLE, A64_LDX_STX_MULTIPLE_POST, A64_LDX_STX_SINGLE, A64_LDX_STX_SINGLE_POST} then (L, \<not> L)
      else if inst \<in> {A64_LDR_STR_IMMED, A64_LDR_STR_REG, A64_LDR_STR_UNSIGNED_IMMED} then
        let load = (if bit w 26 then L else L \<or> bit w 23) in (load, \<not> load)
      else if inst \<in> atomic_handled \<union> atomic_forgotten then (True, True)
      else (False, False))"

definition vector_store_128 :: "a64_instruction \<Rightarrow> u32 \<Rightarrow> bool" where
  "vector_store_128 inst w \<longleftrightarrow> inst \<in> {A64_LDR_STR_IMMED, A64_LDR_STR_REG, A64_LDR_STR_UNSIGNED_IMMED} \<and> bit w 26 \<and> fld w 23 22 = 2"

lemma fld_bit: "fld w n n = (if bit w n then 1 else 0)" if "n < 32"
  using that by (intro bit_word_eqI) (auto simp: fld_def bit_simps intro: gr0I)

lemma fld_2: "fld w (Suc n) n = (if bit w (Suc n) then 2 else 0) + (if bit w n then 1 else 0)" if "Suc n < 32"
proof -
  have "fld w (Suc n) n = (if bit w (Suc n) then 2 else 0) OR (if bit w n then 1 else 0)"
    using that by (intro bit_word_eqI) (auto simp: fld_def bit_simps mask_eq_exp_minus_1 less_Suc_eq numeral_2_eq_2)
  then show ?thesis by (auto split: if_splits)
qed

lemma is_load_bit: "w AND IS_LOAD \<noteq> 0 \<longleftrightarrow> bit w 22"
proof -
  have "IS_LOAD = 2 ^ 22" by (simp add: IS_LOAD_def)
  then show ?thesis using and_exp_eq_0_iff_not_bit [of w 22] by (simp only: not_not)
qed

lemmas fld_bits = fld_2 [of 30, simplified] fld_2 [of 22, simplified] fld_bit [of 26, simplified] fld_bit [of 21, simplified] fld_bit [of 22, simplified] fld_bit [of 23, simplified]

text \<open>The scale of an access through \<open>size, V, opc\<close>: 16 bytes for the 128-bit vector forms.\<close>

definition ldr_scale :: "u32 \<Rightarrow> nat" where
  "ldr_scale w = (if bit w 26 \<and> bit w 23 then 4 else 0) + unat (fld w 31 30)"

definition ldp_scale :: "u32 \<Rightarrow> nat" where
  "ldp_scale w = 2 + (if bit w 26 then unat (fld w 31 30) else unat (fld w 31 30) div 2)"

text \<open>How many registers a multiple-structure access transfers, by its opcode, and the bytes of an element of a single-structure access.\<close>

definition structure_regs :: "u32 \<Rightarrow> nat option" where
  "structure_regs w =
     (let op = fld w 15 12 in
      if op \<in> {0, 2} then Some 4 else if op \<in> {4, 6} then Some 3 else if op \<in> {8, 10} then Some 2 else if op = 7 then Some 1 else None)"

definition element_bytes :: "u32 \<Rightarrow> nat" where
  "element_bytes w =
     (if bit w 15 then if bit w 14 then 2 ^ unat (fld w 11 10) else if bit w 10 then 8 else 4 else if bit w 14 then 2 else 1)"

text \<open>The bytes an instruction accesses; CASP compares a pair of registers of 32 or 64 bits.\<close>

definition a64_access_size :: "a64_instruction \<Rightarrow> u32 \<Rightarrow> nat" where
  "a64_access_size inst w =
     (let sz = 2 ^ unat (fld w 31 30) in
      if inst = A64_LDR_LIT then if bit w 26 then 4 * sz else if bit w 30 then 8 else 4
      else if inst = A64_LDP_STP then 2 * 2 ^ ldp_scale w
      else if inst \<in> {A64_LDR_STR_IMMED, A64_LDR_STR_REG, A64_LDR_STR_UNSIGNED_IMMED} then 2 ^ ldr_scale w
      else if inst = A64_LDX_STX then if is_cas w then if bit w 23 then sz else 8 * sz else if bit w 21 then 2 * sz else sz
      else if inst \<in> {A64_LDX_STX_MULTIPLE, A64_LDX_STX_MULTIPLE_POST} then the (structure_regs w) * (if bit w 30 then 16 else 8)
      else if inst \<in> {A64_LDX_STX_SINGLE, A64_LDX_STX_SINGLE_POST} then
        (1 + (if bit w 21 then 1 else 0) + (if bit w 13 then 2 else 0)) * element_bytes w
      else sz)"

definition memory_access :: "a64_instruction set" where
  "memory_access = {A64_LDR_LIT, A64_LDP_STP, A64_LDR_STR_IMMED, A64_LDR_STR_REG, A64_LDR_STR_UNSIGNED_IMMED, A64_LDX_STX, A64_LDX_STX_MULTIPLE,
     A64_LDX_STX_MULTIPLE_POST, A64_LDX_STX_SINGLE, A64_LDX_STX_SINGLE_POST}"

lemma size_ldr_lit: "mambo_get_ld_st_size A64_LDR_LIT w = Ok (int (a64_access_size A64_LDR_LIT w))"
  by (cases "bit w 31"; cases "bit w 30"; cases "bit w 26")
     (simp_all add: mambo_get_ld_st_size_def a64_get_ld_st_size_def a64_access_size_def a64_LDR_lit_decode_fields_def fld_bits Let_def)

lemma size_ldp: "mambo_get_ld_st_size A64_LDP_STP w = Ok (int (a64_access_size A64_LDP_STP w))"
  by (cases "bit w 31"; cases "bit w 30"; cases "bit w 26")
     (simp_all add: mambo_get_ld_st_size_def a64_get_ld_st_size_def a64_access_size_def a64_LDP_STP_decode_fields_def ldp_scale_def fld_bits Let_def
       a64_memory_instructions)

lemma size_ldr:
  assumes "inst \<in> {A64_LDR_STR_IMMED, A64_LDR_STR_REG, A64_LDR_STR_UNSIGNED_IMMED}"
  shows "mambo_get_ld_st_size inst w = Ok (int (a64_access_size inst w))"
proof -
  have n: "inst \<noteq> A64_LDR_LIT" "inst \<noteq> A64_LDP_STP" using assms by (auto simp: a64_memory_instructions)
  have r: "inst \<in> {A64_LDR_STR_REG, A64_LDR_STR_IMMED, A64_LDR_STR_UNSIGNED_IMMED}" using assms by blast
  have "push_bit (unat (fld w 31 30 + push_bit 2 (drop_bit 1 (fld w 23 22)))) 1 = (2 ^ ldr_scale w :: int)" if "bit w 26"
    by (cases "bit w 31"; cases "bit w 30"; cases "bit w 23"; cases "bit w 22") (simp_all add: fld_bits ldr_scale_def that)
  moreover have "push_bit (unat (fld w 31 30)) 1 = (2 ^ ldr_scale w :: int)" if "\<not> bit w 26"
    by (simp add: ldr_scale_def that push_bit_of_1)
  moreover have "fld w 26 26 \<noteq> 0 \<longleftrightarrow> bit w 26" by (simp add: fld_bits)
  ultimately show ?thesis
    unfolding mambo_get_ld_st_size_def a64_get_ld_st_size_def a64_access_size_def a64_LDR_STR_unsigned_immed_decode_fields_def ldr_common_def Let_def
      if_not_P [OF n(1)] if_not_P [OF n(2)] if_P [OF r] if_P [OF assms]
    by (cases "bit w 26") simp_all
qed

lemma size_ldx:
  "mambo_get_ld_st_size A64_LDX_STX w = Ok (int (if is_cas w then 2 * 2 ^ unat (fld w 31 30) else a64_access_size A64_LDX_STX w))"
proof -
  have "push_bit (unat (fld w 31 30 + fld w 21 21)) 1 = (int ((if bit w 21 then 2 else 1) * 2 ^ unat (fld w 31 30)))"
    by (cases "bit w 31"; cases "bit w 30"; cases "bit w 21") (simp_all add: fld_bits)
  moreover have "is_cas w \<Longrightarrow> bit w 21" by (auto simp: is_cas_def a64_LDX_STX_decode_fields_def fld_bits Let_def split: if_splits)
  ultimately show ?thesis
    by (auto simp: mambo_get_ld_st_size_def a64_get_ld_st_size_def a64_access_size_def a64_LDX_STX_decode_fields_def Let_def a64_memory_instructions)
qed

lemma size_multiple:
  assumes "inst \<in> {A64_LDX_STX_MULTIPLE, A64_LDX_STX_MULTIPLE_POST}"
  shows "mambo_get_ld_st_size inst w = (if structure_regs w = None then Assert_Fail else Ok (int (a64_access_size inst w)))"
proof -
  have n: "inst \<notin> {A64_LDR_LIT, A64_LDP_STP, A64_LDX_STX, A64_LDR_STR_IMMED, A64_LDR_STR_REG, A64_LDR_STR_UNSIGNED_IMMED}"
    using assms by (auto simp: a64_memory_instructions)
  have q: "push_bit (unat (fld w 30 30)) 8 = (int (if bit w 30 then 16 else 8))" by (simp add: fld_bit)
  show ?thesis
    using assms n q
    by (simp add: mambo_get_ld_st_size_def a64_get_ld_st_size_def a64_access_size_def a64_LDx_STx_multiple_decode_fields_def structure_regs_def Let_def)
qed

lemma size_single:
  assumes "inst \<in> {A64_LDX_STX_SINGLE, A64_LDX_STX_SINGLE_POST}"
  shows "mambo_get_ld_st_size inst w = Ok (int (a64_access_size inst w))"
proof -
  have n: "inst \<notin> {A64_LDR_LIT, A64_LDP_STP, A64_LDX_STX, A64_LDR_STR_IMMED, A64_LDR_STR_REG, A64_LDR_STR_UNSIGNED_IMMED,
      A64_LDX_STX_MULTIPLE, A64_LDX_STX_MULTIPLE_POST}"
    using assms by (auto simp: a64_memory_instructions)
  let ?op = "fld w 15 13" and ?sz = "fld w 11 10"
  have op: "?op AND 1 = fld w 13 13" "drop_bit 1 ?op = fld w 15 14"
    by (rule bit_word_eqI, auto simp: fld_def bit_simps mask_eq_exp_minus_1 bit_1_iff)+
  have bits: "fld w 15 14 = (if bit w 15 then 2 else 0) + (if bit w 14 then 1 else 0)" "?sz = (if bit w 11 then 2 else 0) + (if bit w 10 then 1 else 0)"
      "fld w 13 13 = (if bit w 13 then 1 else 0)" "fld w 21 21 = (if bit w 21 then 1 else 0)"
    using fld_2 [of 14 w] fld_2 [of 10 w] fld_bit [of 13 w] fld_bit [of 21 w] by simp_all
  have regs: "uint ((push_bit 1 (fld w 13 13) OR fld w 21 21) + 1) = int (1 + (if bit w 21 then 1 else 0) + (if bit w 13 then 2 else 0))"
    unfolding bits by simp
  have scale: "push_bit (unat (if fld w 15 14 = 3 then ?sz else if fld w 15 14 = 2 then (if ?sz AND 1 \<noteq> 0 then 3 else fld w 15 14) else fld w 15 14)) 1
      = int (element_bytes w)"
    unfolding element_bytes_def bits by (cases "bit w 15"; cases "bit w 14"; cases "bit w 11"; cases "bit w 10") simp_all
  have "mambo_get_ld_st_size inst w = Ok (push_bit (unat (if drop_bit 1 ?op = 3 then ?sz
      else if drop_bit 1 ?op = 2 then (if ?sz AND 1 \<noteq> 0 then 3 else drop_bit 1 ?op) else drop_bit 1 ?op)) 1 * uint ((push_bit 1 (?op AND 1) OR fld w 21 21) + 1))"
    unfolding mambo_get_ld_st_size_def a64_get_ld_st_size_def a64_LDx_STx_single_decode_fields_def Let_def prod.case using assms n by simp
  also have "\<dots> = Ok (int (element_bytes w) * int (1 + (if bit w 21 then 1 else 0) + (if bit w 13 then 2 else 0)))"
    unfolding op regs scale ..
  also have "\<dots> = Ok (int (a64_access_size inst w))"
    unfolding a64_access_size_def Let_def using assms n by (simp add: mult.commute del: of_nat_add)
  finally show ?thesis .
qed

lemma size_other:
  assumes "inst \<notin> memory_access"
  shows "mambo_get_ld_st_size inst w = Ok (if inst \<in> atomic_handled then 2 ^ unat (fld w 31 30) else -1)"
  using assms unfolding memory_access_def
  by (simp add: mambo_get_ld_st_size_def a64_get_ld_st_size_def a64_LDADD_decode_fields_def push_bit_of_1)

lemma access_reported:
  "(mambo_is_load inst w, mambo_is_store inst w) =
     (if inst = A64_LDX_STX \<and> is_cas w then (bit w 22, \<not> bit w 22)
      else if vector_store_128 inst w then (True, False)
      else if inst \<in> atomic_forgotten then (False, False)
      else a64_access inst w)"
proof -
  have opc: "drop_bit 22 w AND 3 = fld w 23 22" by (simp add: fld_def mask_eq_exp_minus_1)
  have sets: "atomic_handled = {36, 37, 38, 43, 44}" "atomic_forgotten = {39, 40, 41, 42}" by (simp_all add: atomic_handled_def atomic_forgotten_def a64_memory_instructions)
  have "inst < 26 \<or> 44 < inst \<or> inst \<in> {26, 27} \<or> inst \<in> {28, 32, 33, 34, 35} \<or> inst \<in> {29, 30, 31} \<or> inst \<in> {36, 37, 38, 39, 40, 41, 42, 43, 44}"
    unfolding insert_iff empty_iff by arith
  then consider "inst = 26" | "inst = 27" | "inst \<in> {28, 32, 33, 34, 35}" | "inst \<in> {29, 30, 31}" | "inst \<in> {36, 37, 38, 39, 40, 41, 42, 43, 44}" | "inst < 26 \<or> 44 < inst"
    by blast
  then show ?thesis
  proof cases
    case 1
    then show ?thesis by (simp add: mambo_is_load_def mambo_is_store_def a64_is_load_or_store_def a64_access_def vector_store_128_def is_prefetch_def sets a64_memory_instructions is_load_bit)
  next
    case 2
    then show ?thesis by (simp add: mambo_is_load_def mambo_is_store_def a64_is_load_or_store_def a64_access_def vector_store_128_def is_prefetch_def sets a64_memory_instructions a64_LDR_lit_decode_fields_def Let_def)
  next
    case 3
    then show ?thesis by (auto simp: mambo_is_load_def mambo_is_store_def a64_is_load_or_store_def a64_access_def vector_store_128_def is_prefetch_def sets a64_memory_instructions is_load_bit)
  next
    case 4
    then show ?thesis
      by (auto simp: mambo_is_load_def mambo_is_store_def a64_is_load_or_store_def a64_access_def vector_store_128_def is_prefetch_def sets a64_memory_instructions
        a64_LDR_STR_unsigned_immed_decode_fields_def ldr_common_def opc fld_bits Let_def split: if_splits)
  next
    case 5
    then show ?thesis by (auto simp: mambo_is_load_def mambo_is_store_def a64_is_load_or_store_def a64_access_def vector_store_128_def is_prefetch_def sets a64_memory_instructions)
  next
    case 6
    then show ?thesis by (auto simp: mambo_is_load_def mambo_is_store_def a64_is_load_or_store_def a64_access_def vector_store_128_def is_prefetch_def sets a64_memory_instructions)
  qed
qed

lemma size_reported:
  "mambo_get_ld_st_size inst w =
     (if inst \<in> {A64_LDX_STX_MULTIPLE, A64_LDX_STX_MULTIPLE_POST} \<and> structure_regs w = None then Assert_Fail
      else if inst = A64_LDX_STX \<and> is_cas w then Ok (2 * 2 ^ unat (fld w 31 30))
      else if inst \<in> memory_access \<union> atomic_handled then Ok (int (a64_access_size inst w))
      else Ok (-1))"
proof -
  consider "inst = A64_LDR_LIT" | "inst = A64_LDP_STP" | "inst \<in> {A64_LDR_STR_IMMED, A64_LDR_STR_REG, A64_LDR_STR_UNSIGNED_IMMED}" | "inst = A64_LDX_STX"
    | "inst \<in> {A64_LDX_STX_MULTIPLE, A64_LDX_STX_MULTIPLE_POST}" | "inst \<in> {A64_LDX_STX_SINGLE, A64_LDX_STX_SINGLE_POST}" | "inst \<notin> memory_access"
    unfolding memory_access_def by blast
  then show ?thesis
  proof cases
    case 1
    have "inst \<notin> {A64_LDX_STX, A64_LDX_STX_MULTIPLE, A64_LDX_STX_MULTIPLE_POST}" "inst \<in> memory_access"
      using 1 by (auto simp: memory_access_def a64_memory_instructions)
    then show ?thesis using size_ldr_lit [of w] 1 by simp
  next
    case 2
    have "inst \<notin> {A64_LDX_STX, A64_LDX_STX_MULTIPLE, A64_LDX_STX_MULTIPLE_POST}" "inst \<in> memory_access"
      using 2 by (auto simp: memory_access_def a64_memory_instructions)
    then show ?thesis using size_ldp [of w] 2 by simp
  next
    case 3
    have "inst \<notin> {A64_LDX_STX, A64_LDX_STX_MULTIPLE, A64_LDX_STX_MULTIPLE_POST}" "inst \<in> memory_access"
      using 3 by (auto simp: memory_access_def a64_memory_instructions)
    then show ?thesis using size_ldr [OF 3, of w] by simp
  next
    case 4
    then show ?thesis using size_ldx [of w] by (simp add: memory_access_def a64_memory_instructions)
  next
    case 5
    then have "inst \<noteq> A64_LDX_STX" "inst \<in> memory_access" by (auto simp: memory_access_def a64_memory_instructions)
    then show ?thesis using size_multiple [OF 5, of w] 5 by simp
  next
    case 6
    have "inst \<notin> {A64_LDX_STX, A64_LDX_STX_MULTIPLE, A64_LDX_STX_MULTIPLE_POST}" "inst \<in> memory_access"
      using 6 by (auto simp: memory_access_def a64_memory_instructions)
    then show ?thesis using size_single [OF 6, of w] by simp
  next
    case 7
    have "a64_access_size inst w = 2 ^ unat (fld w 31 30)" using 7 by (simp add: a64_access_size_def memory_access_def Let_def)
    moreover have "inst \<notin> {A64_LDX_STX, A64_LDX_STX_MULTIPLE, A64_LDX_STX_MULTIPLE_POST}" using 7 by (auto simp: memory_access_def)
    ultimately show ?thesis using 7 size_other [OF 7, of w] by simp
  qed
qed


section \<open>The addresses of the architecture\<close>

text \<open>The address an instruction at \<open>pc\<close> accesses; post-indexed accesses use the base register as it is.\<close>

definition a64_address :: "a64_instruction \<Rightarrow> u32 \<Rightarrow> uintptr \<Rightarrow> a64_state \<Rightarrow> uintptr" where
  "a64_address inst w pc s =
     (let base = xreg_sp s (ucast (fld w 9 5)) in
      if inst = A64_LDR_LIT then pc + 4 * scast (ucast (fld w 23 5) :: 19 word)
      else if inst = A64_LDP_STP then
        if fld w 24 23 = 1 then base else base + 2 ^ ldp_scale w * scast (ucast (fld w 21 15) :: 7 word)
      else if inst = A64_LDR_STR_UNSIGNED_IMMED then base + 2 ^ ldr_scale w * ucast (fld w 21 10)
      else if inst = A64_LDR_STR_IMMED then
        if fld w 11 10 = 1 then base else base + scast (ucast (fld w 20 12) :: 9 word)
      else if inst = A64_LDR_STR_REG then
        base + extended (ucast (fld w 15 13)) (xreg s (ucast (fld w 20 16))) (if bit w 12 then ldr_scale w else 0)
      else base)"

text \<open>Accesses whose address can be computed; vector forms beyond 128 bits do not exist.\<close>

definition addressable :: "a64_instruction \<Rightarrow> u32 \<Rightarrow> bool" where
  "addressable inst w \<longleftrightarrow> inst \<in> {A64_LDR_LIT, A64_LDX_STX, A64_LDP_STP, A64_LDR_STR_IMMED, A64_LDR_STR_REG, A64_LDR_STR_UNSIGNED_IMMED,
       A64_LDX_STX_MULTIPLE, A64_LDX_STX_MULTIPLE_POST, A64_LDX_STX_SINGLE, A64_LDX_STX_SINGLE_POST} \<union> atomic_handled \<and>
     (inst \<in> {A64_LDR_STR_REG, A64_LDR_STR_UNSIGNED_IMMED} \<longrightarrow> ldr_scale w \<le> 4)"

lemma sign_extend32_sint:
  fixes v :: "'a::len word"
  assumes "LENGTH('a) < 32"
  shows "sign_extend32 LENGTH('a) (ucast v) = sint v"
proof -
  have "sign_extend32 LENGTH('a) (ucast v) = sint (scast v :: u32)"
    using sign_extend_scast [of v, where ?'b = 32] assms by (simp add: sign_extend32_def Let_def)
  also have "\<dots> = sint v" using assms by (simp add: sint_up_scast is_up_def source_size target_size)
  finally show ?thesis .
qed

lemma ucast_fld32: "unat x < 2 ^ LENGTH('a::len) \<Longrightarrow> ucast (ucast x :: 'a word) = x" for x :: u32
proof -
  assume "unat x < 2 ^ LENGTH('a)"
  then have "take_bit LENGTH('a) x = x"
    by (metis unsigned_take_bit_eq take_bit_nat_eq_self unsigned_word_eqI)
  then have "bit x n \<Longrightarrow> n < LENGTH('a)" for n by (metis bit_take_bit_iff)
  then show ?thesis by (intro bit_word_eqI) (auto simp: bit_simps)
qed

lemma word_of_int_sint_shift: "word_of_int (push_bit k (sint v)) = (2 ^ k * scast v :: uintptr)" for v :: "'a::len word"
  by (simp add: push_bit_eq_mult)

text \<open>Code for \<open>rn + off\<close>, where the stack pointer stands for its value before the pushes.\<close>

definition before_pushes :: "emit_ctx \<Rightarrow> a64_state \<Rightarrow> a64_state" where
  "before_pushes e s = s\<lparr>sp_reg := sp_reg s + word_of_int (8 * plugin_pushed_reg_count (fst e))\<rparr>"

definition computes :: "nat \<Rightarrow> (int \<times> emit_ctx) res \<Rightarrow> emit_ctx \<Rightarrow> int \<Rightarrow> (a64_state \<Rightarrow> uintptr) \<Rightarrow> bool" where
  "computes n r e reg v \<longleftrightarrow> (\<exists>xs. r = Ok (0, with_write_p (emit_seq xs) e) \<and> length xs \<le> n \<and>
     (\<forall>s. run_seq xs s = Some (add_state (word_of_int reg) (v s) (length xs) s)))"

lemma add_sub_i_computes:
  assumes "\<bar>off\<bar> \<le> 0xFFFFFF" "0 \<le> reg" "reg < 31" "0 \<le> rn" "rn < 32"
  shows "computes 2 (emit_add_sub_i e reg rn off) e reg (\<lambda>s. xreg_sp s (word_of_int rn) + word_of_int off)"
proof (cases "off = 0")
  case False
  then show ?thesis using add_sub_i_runs [OF False assms(1), of e reg rn] unfolding computes_def by metis
next
  case True
  show ?thesis
  proof (cases "reg = rn")
    case same: True
    have "add_state (word_of_int rn) (xreg_sp s (word_of_int rn)) 0 s = s" for s by (simp add: add_state_def set_xreg_sp_def xreg_sp_def)
    then show ?thesis using True same by (auto simp: computes_def emit_add_sub_i_def with_write_p_def intro!: exI [of _ "[]"])
  next
    case False
    have "\<exists>i. emit_mov e reg rn = with_write_p (emit_seq [i]) e \<and> (\<forall>s. a64_exec i s = Some (add_state (word_of_int reg) (xreg_sp s (word_of_int rn)) 1 s))"
    proof -
      have "reg \<noteq> 31 \<or> rn = 31" "reg < 32" using assms(3) by simp_all
      then show ?thesis using exec_mov [of reg rn e] assms(2,4,5) by blast
    qed
    then show ?thesis using True False by (auto simp: computes_def emit_add_sub_i_def add_state_def)
  qed
qed

lemma xreg_before: "rn < 32 \<Longrightarrow> xreg_sp (before_pushes e s) (ucast rn) =
    xreg_sp s (ucast rn) + word_of_int (if rn = 31 then 8 * plugin_pushed_reg_count (fst e) else 0)" for rn :: u32
proof -
  assume "rn < 32"
  then have "unat rn < 2 ^ LENGTH(5)" by (simp add: word_less_nat_alt)
  then have "ucast (ucast rn :: 5 word) = rn" by (rule ucast_fld32)
  then have "(ucast rn :: 5 word) = 31 \<longleftrightarrow> rn = 31" by (auto dest: arg_cong [where f = "ucast :: 5 word \<Rightarrow> u32"])
  then show ?thesis by (simp add: before_pushes_def xreg_sp_def)
qed

lemma base_addr_computes:
  assumes "\<bar>off\<bar> < 2 ^ 20" "0 \<le> reg" "reg < 31" "rn < 32" "0 \<le> plugin_pushed_reg_count (fst e)" "plugin_pushed_reg_count (fst e) < 512"
  shows "computes 2 (base_addr e reg rn off) e reg (\<lambda>s. xreg_sp (before_pushes e s) (ucast rn) + word_of_int off)"
proof -
  let ?o = "off + (if rn = 31 then plugin_pushed_reg_count (fst e) * 8 else 0)"
  have u: "0 \<le> uint rn" "uint rn < 32" "uint rn = 31 \<longleftrightarrow> rn = 31" using assms(4) by (simp_all add: word_less_def word_uint_eq_iff)
  have "\<bar>?o\<bar> \<le> 0xFFFFFF" using assms(1,5,6) by auto
  from add_sub_i_computes [OF this assms(2,3) u(1,2), of e]
  obtain xs where xs: "emit_add_sub_i e reg (uint rn) ?o = Ok (0, with_write_p (emit_seq xs) e)" "length xs \<le> 2"
      "\<forall>s. run_seq xs s = Some (add_state (word_of_int reg) (xreg_sp s (word_of_int (uint rn)) + word_of_int ?o) (length xs) s)"
    unfolding computes_def by blast
  have v: "xreg_sp s (word_of_int (uint rn)) + word_of_int ?o = xreg_sp (before_pushes e s) (ucast rn) + word_of_int off" for s
    by (simp add: xreg_before [OF assms(4)])
  show ?thesis
    unfolding computes_def
  proof (intro exI [of _ xs] conjI)
    show "base_addr e reg rn off = Ok (0, with_write_p (emit_seq xs) e)"
      using u(3) xs(1) by (cases "rn = 31") (simp_all add: base_addr_def generate_addr_def res_assert_def sp_def)
    show "\<forall>s. run_seq xs s = Some (add_state (word_of_int reg) (xreg_sp (before_pushes e s) (ucast rn) + word_of_int off) (length xs) s)"
      using xs(3) unfolding v .
  qed (rule xs(2))
qed

lemma emit_then:
  "emit_a64 i e = with_write_p (emit_seq [i]) e"
  "with_write_p (emit_seq ys) (with_write_p (emit_seq xs) e) = with_write_p (emit_seq (xs @ ys)) e"
  "plugin_pushed_reg_count (fst (with_write_p f e)) = plugin_pushed_reg_count (fst e)"
  by (simp_all add: emit_a64_def with_write_p_def Let_def)

lemma ext_exec:
  fixes rm opt :: u32
  assumes "sh \<le> 4"
  shows "a64_exec (a64_ADD_SUB_ext_reg 1 0 0 (ucast rm) (ucast opt) (of_nat sh) rn rd) s =
    Some (add_state rd (xreg_sp s rn + extended (ucast opt) (xreg s (ucast rm)) sh) 1 s)"
proof -
  have "unat (of_nat sh :: 3 word) = sh" using assms by (simp add: unat_of_nat take_bit_nat_eq_self)
  moreover from this have "(of_nat sh :: 3 word) \<le> 4" using assms by (simp add: word_le_nat_alt)
  ultimately show ?thesis by (simp add: a64_exec.simps Let_def add_state_def next_pc_def set_xreg_sp_def)
qed

lemma ext_computes:
  fixes rn rm opt :: u32
  assumes reg: "0 \<le> reg" "reg < 31" and r: "rn < 32" "rm < 31" "opt < 8" "sh \<le> 4"
    and c: "0 \<le> plugin_pushed_reg_count (fst e)" "plugin_pushed_reg_count (fst e) < 512"
  shows "computes 3 (res_bind (generate_addr e reg (uint rn) (uint rm) (int (8 * sh + unat opt))) (\<lambda>e. Ok (0, e))) e reg
    (\<lambda>s. xreg_sp (before_pushes e s) (ucast rn) + extended (ucast opt) (xreg s (ucast rm)) sh)"
proof -
  let ?i = "a64_ADD_SUB_ext_reg 1 0 0 (ucast rm) (ucast opt) (of_nat sh) (ucast rn) (word_of_int reg)"
  let ?e = "with_write_p (emit_seq [?i]) e" and ?a = "if rn = 31 then plugin_pushed_reg_count (fst e) * 8 else 0"
  have o: "unat opt < 8" using r(3) by (simp add: word_less_nat_alt)
  have m: "0 \<le> uint rm" "uint rm < 31" "uint rn = 31 \<longleftrightarrow> rn = 31" using r(2) by (simp_all add: word_less_def word_uint_eq_iff)
  have off: "int (8 * sh + unat opt) AND 7 = uint opt" "drop_bit 3 (int (8 * sh + unat opt)) = int sh"
  proof -
    have "int (8 * sh + unat opt) AND 7 = int (8 * sh + unat opt) mod 8" using take_bit_eq_mask [of 3 "int (8 * sh + unat opt)"] by (simp add: take_bit_eq_mod mask_eq_exp_minus_1)
    also have "\<dots> = int ((8 * sh + unat opt) mod 8)" by (simp only: zmod_int of_nat_numeral)
    also have "(8 * sh + unat opt) mod 8 = unat opt" using o by simp
    finally show "int (8 * sh + unat opt) AND 7 = uint opt" by simp
    have "drop_bit 3 (int (8 * sh + unat opt)) = int (8 * sh + unat opt) div 8" by (simp only: drop_bit_eq_div) simp
    also have "\<dots> = int ((8 * sh + unat opt) div 8)" by (simp only: zdiv_int of_nat_numeral)
    also have "(8 * sh + unat opt) div 8 = sh" using o by simp
    finally show "drop_bit 3 (int (8 * sh + unat opt)) = int sh" .
  qed
  define N where "N = int (8 * sh + unat opt)"
  have nm: "\<not> uint rm \<le> - 32" "\<not> 32 \<le> uint rm" "uint rm \<noteq> 31" "\<not> uint rm < 0" "\<bar>uint rm\<bar> = uint rm" using m(1,2) by linarith+
  have g: "generate_addr e reg (uint rn) (uint rm) N =
      (if ?a \<noteq> 0 then res_bind (res_assert (?a \<le> 0xFFF \<and> ?a > 0)) (\<lambda>_. res_bind (emit_add_sub_i ?e reg reg ?a) (\<lambda>(_, e). Ok e)) else Ok ?e)"
    using m(3) r(4) off [folded N_def] by (simp add: nm generate_addr_def res_assert_def sp_def emit_a64_add_sub_ext_def emit_then(1) Let_def)
  have run: "run_seq [?i] s = Some (add_state (word_of_int reg) (xreg_sp s (ucast rn) + extended (ucast opt) (xreg s (ucast rm)) sh) 1 s)" for s
    by (simp add: ext_exec [OF r(4)] add_state_def)
  show ?thesis
  proof (cases "?a = 0")
    case True
    then show ?thesis
      unfolding computes_def N_def [symmetric] g using run True by (intro exI [of _ "[?i]"]) (auto simp: xreg_before [OF r(1)])
  next
    case False
    have "\<bar>?a\<bar> \<le> 0xFFFFFF" "?a \<le> 0xFFF \<and> ?a > 0" using c False by (auto split: if_splits)
    from add_sub_i_computes [OF this(1) reg reg(1), of ?e] reg(2) obtain xs where xs: "emit_add_sub_i ?e reg reg ?a = Ok (0, with_write_p (emit_seq xs) ?e)" "length xs \<le> 2"
        "\<forall>s. run_seq xs s = Some (add_state (word_of_int reg) (xreg_sp s (word_of_int reg) + word_of_int ?a) (length xs) s)"
      unfolding computes_def by auto
    have "run_seq ([?i] @ xs) s = Some (add_state (word_of_int reg) (xreg_sp (before_pushes e s) (ucast rn) + extended (ucast opt) (xreg s (ucast rm)) sh) (length ([?i] @ xs)) s)" for s
    proof -
      let ?v = "xreg_sp s (ucast rn) + extended (ucast opt) (xreg s (ucast rm)) sh" let ?s = "add_state (word_of_int reg) ?v 1 s"
      have "run_seq ([?i] @ xs) s = run_seq xs ?s" by (simp only: run_seq_append run Option.bind.simps)
      also have "\<dots> = Some (add_state (word_of_int reg) (xreg_sp ?s (word_of_int reg) + word_of_int ?a) (length xs) ?s)" using xs(3) by blast
      also have "\<dots> = Some (add_state (word_of_int reg) (?v + word_of_int ?a) (1 + length xs) s)" by (simp only: add_state_simps)
      also have "?v + word_of_int ?a = xreg_sp (before_pushes e s) (ucast rn) + extended (ucast opt) (xreg s (ucast rm)) sh" by (simp add: xreg_before [OF r(1)])
      finally show ?thesis by simp
    qed
    then show ?thesis
      unfolding computes_def N_def [symmetric] g using False xs(1,2) \<open>?a \<le> 0xFFF \<and> ?a > 0\<close>
      by (intro exI [of _ "[?i] @ xs"]) (simp add: res_assert_def emit_then)
  qed
qed

lemma fld_bounds: "fld w 9 5 < 32" "fld w 20 16 < 32" "fld w 15 13 < 8" "fld w 21 10 < 4096"
  using fld_less [of 5 9 w] fld_less [of 16 20 w] fld_less [of 13 15 w] fld_less [of 10 21 w] by (simp_all add: word_less_nat_alt)

lemma computes_cong:
  assumes "computes n r e reg v" "n \<le> n'" "\<And>s. v s = v' s"
  shows "computes n' r e reg v'"
proof -
  have "v = v'" using assms(3) by (rule ext)
  then show ?thesis using assms(1,2) unfolding computes_def by (blast intro: order_trans)
qed

lemma ldr_shift: "unat (push_bit 2 (fld w 26 26 AND drop_bit 1 (fld w 23 22)) + fld w 31 30) = ldr_scale w"
  by (cases "bit w 26"; cases "bit w 23"; cases "bit w 22"; cases "bit w 31"; cases "bit w 30") (simp_all add: ldr_scale_def fld_bits)

lemma ldp_shift: "unat (2 + drop_bit (unat (1 - fld w 26 26)) (fld w 31 30)) = ldp_scale w"
  by (cases "bit w 26"; cases "bit w 31"; cases "bit w 30") (simp_all add: ldp_scale_def fld_bits)

lemma computes_lit:
  assumes "0 \<le> reg" "reg < 31"
  shows "computes 4 (Ok (0, emit_set_reg e (word_of_int reg) a)) e reg (\<lambda>s. a)"
proof -
  have "(word_of_int reg :: 5 word) \<noteq> 31" using assms by (simp add: word_uint_eq_iff uint_word_of_int take_bit_int_eq_self)
  then show ?thesis
    unfolding computes_def using run_mov mov_seq_length(1) [of "word_of_int reg" a]
    by (intro exI [of _ "mov_seq (word_of_int reg) a"]) (auto simp: emit_set_reg_def a64_copy_to_reg_64bits_seq with_write_p_def add_state_def set_xreg_sp_def)
qed

lemma extended_zero: "extended opt 0 n = 0"
  by (simp add: extended_def Let_def)

lemma xreg_before_pushes [simp]: "xreg (before_pushes e s) r = xreg s r"
  by (simp add: before_pushes_def xreg_def)

lemma ldr_offset:
  assumes "ldr_scale w \<le> 4"
  shows "\<bar>sint (push_bit (ldr_scale w) (fld w 21 10))\<bar> < 2 ^ 20" "word_of_int (sint (push_bit (ldr_scale w) (fld w 21 10))) = (2 ^ ldr_scale w * ucast (fld w 21 10) :: uintptr)"
proof -
  let ?v = "push_bit (ldr_scale w) (fld w 21 10)" and ?u = "uint (fld w 21 10)"
  have u: "?u < 4096" using fld_bounds(4) [of w] by (simp add: word_less_def)
  have "(2 :: int) ^ ldr_scale w \<le> 2 ^ 4" using assms by (intro power_increasing) simp_all
  then have b: "2 ^ ldr_scale w * ?u \<le> 16 * 4095" using u by (intro mult_mono) simp_all
  have v: "?v = word_of_int (2 ^ ldr_scale w * ?u)" by (simp add: push_bit_eq_mult mult.commute)
  have "sint ?v = 2 ^ ldr_scale w * ?u"
    unfolding v sint_sbintrunc' using b by (intro signed_take_bit_int_eq_self) (auto intro: order_trans [of _ 0])
  then show "\<bar>sint ?v\<bar> < 2 ^ 20" "word_of_int (sint ?v) = (2 ^ ldr_scale w * ucast (fld w 21 10) :: uintptr)"
    using b by simp_all
qed

lemma imm_offset:
  fixes x :: "'a::len word"
  assumes "LENGTH('a) \<le> 9" "k \<le> 5"
  shows "\<bar>push_bit k (sint x)\<bar> < 2 ^ 20"
proof -
  have "- (2 ^ (LENGTH('a) - 1)) \<le> sint x" "sint x < 2 ^ (LENGTH('a) - 1)" using sint_ge [of x] sint_lt [of x] by auto
  moreover have "(2 :: int) ^ (LENGTH('a) - 1) \<le> 2 ^ 8" using assms(1) by (intro power_increasing) simp_all
  ultimately have x: "\<bar>sint x\<bar> \<le> 256" by simp
  have "(2 :: int) ^ k \<le> 2 ^ 5" using assms(2) by (intro power_increasing) simp_all
  then have "\<bar>sint x\<bar> * 2 ^ k \<le> 256 * 32" using x by (intro mult_mono) simp_all
  then show ?thesis by (simp add: push_bit_eq_mult abs_mult)
qed

lemma ext_operand:
  fixes a opt :: u32
  assumes "unat a \<le> 4" "opt < 8"
  shows "sint (push_bit 3 a OR opt) = int (8 * unat a + unat opt)"
proof -
  have o: "unat opt < 8" using assms(2) by (simp add: word_less_nat_alt)
  have "unat (take_bit 3 opt) = unat opt" using o by (simp add: unsigned_take_bit_eq take_bit_nat_eq_self)
  then have t: "take_bit 3 opt = opt" by (rule unsigned_word_eqI)
  have "push_bit 3 a AND take_bit 3 opt = 0" by (intro bit_word_eqI) (auto simp: bit_simps)
  then have "push_bit 3 a OR opt = push_bit 3 a + opt" by (metis t disjunctive_add_eq_or)
  also have "\<dots> = of_nat (8 * unat a + unat opt)" by (simp add: push_bit_eq_mult mult.commute)
  finally have "push_bit 3 a OR opt = word_of_int (int (8 * unat a + unat opt))" by simp
  then have "sint (push_bit 3 a OR opt) = signed_take_bit 31 (int (8 * unat a + unat opt))" by (simp only: sint_sbintrunc') simp
  also have "\<dots> = int (8 * unat a + unat opt)"
  proof (rule signed_take_bit_int_eq_self)
    have "8 * unat a + unat opt < 2 ^ 31" using o assms(1) by simp
    then show "int (8 * unat a + unat opt) < 2 ^ 31" by (metis of_nat_less_iff of_nat_power of_nat_numeral)
  qed (rule order_trans [OF _ of_nat_0_le_iff], simp)
  finally show ?thesis .
qed

lemma calc_computes:
  assumes a: "addressable inst w" and ctx: "ctx_inst (fst e) = int inst" "guest (read_address (fst e)) = w"
    and reg: "0 \<le> reg" "reg < 31" and c: "0 \<le> plugin_pushed_reg_count (fst e)" "plugin_pushed_reg_count (fst e) < 512"
  shows "computes 4 (mambo_calc_ld_st_addr guest e reg) e reg (\<lambda>s. a64_address inst w (read_address (fst e)) (before_pushes e s))"
proof -
  have base: "computes 4 (base_addr e reg (fld w 9 5) off) e reg (\<lambda>s. xreg_sp (before_pushes e s) (ucast (fld w 9 5)) + v)"
    if "\<bar>off\<bar> < 2 ^ 20" "word_of_int off = v" for off v
    by (rule computes_cong [OF base_addr_computes [OF that(1) reg fld_bounds(1) c]]) (simp_all add: that(2))
  note defs = mambo_calc_ld_st_addr_def a64_calc_ld_st_addr_def ctx Let_def a64_memory_instructions atomic_handled_def a64_address_def
  consider (lit) "inst = A64_LDR_LIT" | (ldp) "inst = A64_LDP_STP" | (ui) "inst = A64_LDR_STR_UNSIGNED_IMMED" | (im) "inst = A64_LDR_STR_IMMED"
    | (rg) "inst = A64_LDR_STR_REG" | (oth) "inst \<in> {A64_LDX_STX, A64_LDX_STX_MULTIPLE, A64_LDX_STX_MULTIPLE_POST, A64_LDX_STX_SINGLE, A64_LDX_STX_SINGLE_POST} \<union> atomic_handled"
    using a unfolding addressable_def by blast
  then show ?thesis
  proof cases
    case lit
    have "unat (fld w 23 5) < 2 ^ LENGTH(19)" using fld_less [of 5 23 w] by simp
    then have "ucast (ucast (fld w 23 5) :: 19 word) = (ucast (fld w 23 5) :: uintptr)" by (rule ucast_fld)
    then have "sign_extend64 19 (ucast (fld w 23 5)) = scast (ucast (fld w 23 5) :: 19 word)" using sign_extend64_scast [of "ucast (fld w 23 5) :: 19 word"] by simp
    then show ?thesis using lit computes_lit [OF reg] by (simp add: defs a64_LDR_lit_decode_fields_def push_bit_eq_mult mult.commute)
  next
    case ldp
    have "unat (fld w 21 15) < 2 ^ LENGTH(7)" using fld_less [of 15 21 w] by simp
    then have "ucast (ucast (fld w 21 15) :: 7 word) = fld w 21 15" by (rule ucast_fld32)
    then have s: "sign_extend32 7 (fld w 21 15) = sint (ucast (fld w 21 15) :: 7 word)" using sign_extend32_sint [of "ucast (fld w 21 15) :: 7 word"] by simp
    have k: "ldp_scale w \<le> 5" by (simp add: ldp_scale_def fld_bits)
    show ?thesis
      using ldp base [OF imm_offset [OF _ k, of "ucast (fld w 21 15) :: 7 word"] word_of_int_sint_shift] base [of 0 0]
      by (simp add: defs a64_LDP_STP_decode_fields_def ldp_shift s)
  next
    case ui
    have "ldr_scale w \<le> 4" using a ui by (simp add: addressable_def)
    from base [OF ldr_offset [OF this]] show ?thesis
      using ui by (simp add: defs a64_LDR_STR_unsigned_immed_decode_fields_def ldr_common_def ldr_shift [simplified])
  next
    case im
    have "unat (fld w 20 12) < 2 ^ LENGTH(9)" using fld_less [of 12 20 w] by simp
    then have "ucast (ucast (fld w 20 12) :: 9 word) = fld w 20 12" by (rule ucast_fld32)
    then have s: "sign_extend32 9 (fld w 20 12) = sint (ucast (fld w 20 12) :: 9 word)" using sign_extend32_sint [of "ucast (fld w 20 12) :: 9 word"] by simp
    show ?thesis
      using im base [OF imm_offset [of 0 "ucast (fld w 20 12) :: 9 word"] word_of_int_sint_shift] base [of 0 0]
      by (simp add: defs a64_LDR_STR_immed_decode_fields_def ldr_common_def s)
  next
    case rg
    let ?a = "if bit w 12 then push_bit 2 (fld w 26 26 AND drop_bit 1 (fld w 23 22)) + fld w 31 30 else 0"
    have a: "unat ?a = (if bit w 12 then ldr_scale w else 0)" "unat ?a \<le> 4" using a rg by (simp_all add: addressable_def ldr_shift [simplified])
    show ?thesis
    proof (cases "fld w 20 16 = 31")
      case True
      then show ?thesis using rg base [of 0 0] by (simp add: defs a64_LDR_STR_reg_decode_fields_def ldr_common_def xreg_def extended_zero)
    next
      case False
      have "fld w 20 16 \<le> 31" using fld_bounds(2) [of w] by (simp add: word_le_nat_alt word_less_nat_alt)
      then have m: "fld w 20 16 < 31" using False by (rule order.not_eq_order_implies_strict [rotated])
      have b: "(if fld w 12 12 \<noteq> 0 then x else (0 :: u32)) = (if bit w 12 then x else 0)" for x using fld_bit [of 12 w] by simp
      note ext = ext_computes [OF reg fld_bounds(1) m fld_bounds(3) a(2) c]
      have calc: "mambo_calc_ld_st_addr guest e reg =
          res_bind (generate_addr e reg (uint (fld w 9 5)) (uint (fld w 20 16)) (sint (push_bit 3 ?a OR fld w 15 13))) (\<lambda>e. Ok (0, e))"
        using rg False unfolding defs a64_LDR_STR_reg_decode_fields_def ldr_common_def by (simp del: push_bit_and add: b)
      show ?thesis
        unfolding calc ext_operand [OF a(2) fld_bounds(3)] by (rule computes_cong [OF ext]) (simp_all add: a(1) rg a64_address_def a64_memory_instructions)
    qed
  next
    case oth
    then show ?thesis
      using base [of 0 0] by (auto simp: defs a64_LDX_STX_decode_fields_def a64_LDx_STx_multiple_decode_fields_def a64_LDx_STx_single_decode_fields_def a64_LDADD_decode_fields_def)
  qed
qed

section \<open>Addresses after a push\<close>

lemma chunks_count: "2 * chunks rs = length rs + (if odd (length rs) then 1 else 0)"
  by (induction rs rule: chunks.induct) auto

text \<open>Whether the address of an access depends on the stack pointer.\<close>

definition sp_based :: "a64_instruction \<Rightarrow> u32 \<Rightarrow> bool" where
  "sp_based inst w \<longleftrightarrow> inst \<noteq> A64_LDR_LIT \<and> fld w 9 5 = 31"

lemma a64_address_sp:
  "a64_address inst w pc (s\<lparr>sp_reg := sp_reg s - d\<rparr>) = a64_address inst w pc s - (if sp_based inst w then d else 0)"
proof -
  have "unat (fld w 9 5) < 2 ^ LENGTH(5)" using fld_less [of 5 9 w] by simp
  then have "ucast (ucast (fld w 9 5) :: 5 word) = fld w 9 5" by (rule ucast_fld32)
  then have r: "(ucast (fld w 9 5) :: 5 word) = 31 \<longleftrightarrow> fld w 9 5 = 31" by (auto dest: arg_cong [where f = "ucast :: 5 word \<Rightarrow> u32"])
  have x: "xreg (s\<lparr>sp_reg := q\<rparr>) m = xreg s m" for q m by (simp add: xreg_def)
  show ?thesis
    by (cases "fld w 9 5 = 31") (simp_all add: a64_address_def sp_based_def Let_def x xreg_sp_def r)
qed

lemma a64_address_regs:
  "xregs s' = xregs s \<Longrightarrow> sp_reg s' = sp_reg s \<Longrightarrow> a64_address inst w pc s' = a64_address inst w pc s"
proof -
  assume "xregs s' = xregs s" "sp_reg s' = sp_reg s"
  then have "xreg s' r = xreg s r" "xreg_sp s' r = xreg_sp s r" for r by (simp_all add: xreg_def xreg_sp_def)
  then show ?thesis unfolding a64_address_def by (simp only:)
qed

text \<open>C9: The code a plugin emits to compute the address of the guest's access, behind a push of the registers it uses, leaves the
  architecture's address in the chosen register and every other register and the flags as they were, for every addressing
  mode. After a push of an odd number of registers, which moves the stack pointer by a further eight bytes, the address of
  an access through the stack pointer is eight too low.\<close>

theorem mambo_calc_ld_st_addr_after_push:
  assumes a: "addressable inst w" and ctx: "ctx_inst c = int inst" "guest (read_address c) = w" and reg: "0 \<le> reg" "reg < 31"
    and regs: "\<not> bit regs 31" and cnt: "0 \<le> plugin_pushed_reg_count c" "plugin_pushed_reg_count c < 400"
    and s: "aligned_to 16 (sp_reg s)" "pc_reg s = write_p c"
  shows "\<exists>e e' s'. emit_push (c, code) regs = Ok e \<and> mambo_calc_ld_st_addr guest e reg = Ok (0, e') \<and> reaches (snd e') s s' \<and>
    pc_reg s' = write_p (fst e') \<and> flags s' = flags s \<and>
    xregs s' = (xregs s)(nat reg := a64_address inst w (read_address c) (before_pushes (c, code) s) -
      (if odd (count_bits regs) \<and> sp_based inst w then 8 else 0))"
proof -
  let ?rs = "regs_of regs" let ?n = "length ?rs" let ?ch = "16 * of_nat (chunks ?rs) :: uintptr"
  let ?w = "emit_seq (push_seq ?rs) (code, write_p c)"
  let ?e = "(c\<lparr>plugin_pushed_reg_count := plugin_pushed_reg_count c + int ?n, write_p := snd ?w\<rparr>, fst ?w)"
  have e: "emit_push (c, code) regs = Ok ?e" by (simp add: emit_push_def emit_a64_push_emits Let_def)
  have cnt': "0 \<le> plugin_pushed_reg_count (fst ?e)" "plugin_pushed_reg_count (fst ?e) < 512" using cnt regs_of_length [of regs] by simp_all
  obtain xs where xs: "mambo_calc_ld_st_addr guest ?e reg = Ok (0, with_write_p (emit_seq xs) ?e)" "length xs \<le> 4"
      "\<forall>s. run_seq xs s = Some (add_state (word_of_int reg) (a64_address inst w (read_address c) (before_pushes ?e s)) (length xs) s)"
    using calc_computes [OF a _ _ reg cnt', of guest] ctx unfolding computes_def by auto
  obtain m where m: "run_seq (push_seq ?rs) s = Some (s\<lparr>sp_reg := sp_reg s - ?ch, mem := m, pc_reg := slot (pc_reg s) (length (push_seq ?rs))\<rparr>)"
    using run_push_seq [OF s(1) regs_of_no_sp [OF regs] regs_of_length] by blast
  let ?s1 = "s\<lparr>sp_reg := sp_reg s - ?ch, mem := m, pc_reg := slot (pc_reg s) (length (push_seq ?rs))\<rparr>"
  let ?v = "a64_address inst w (read_address c) (before_pushes ?e ?s1)"
  let ?s' = "add_state (word_of_int reg) ?v (length xs) ?s1"
  have run: "run_seq (push_seq ?rs @ xs) s = Some ?s'" using m xs(3) by (simp add: run_seq_append)
  have len: "length (push_seq ?rs @ xs) < 2 ^ 60" using xs(2) regs_of_length [of regs] chunks_le [of ?rs] by (simp add: push_pop_length)
  let ?e' = "with_write_p (emit_seq xs) ?e"
  have c: "snd ?e' = fst (emit_seq (push_seq ?rs @ xs) (code, pc_reg s))" "write_p (fst ?e') = snd (emit_seq (push_seq ?rs @ xs) (code, pc_reg s))"
    using s(2) by (simp_all add: with_write_p_def Let_def)
  have "reaches (snd ?e') s ?s'" "pc_reg ?s' = write_p (fst ?e')" using emit_seq_run [OF run len, of code] unfolding c by blast+
  moreover have "?v = a64_address inst w (read_address c) (before_pushes (c, code) s) - (if odd (count_bits regs) \<and> sp_based inst w then 8 else 0)"
  proof -
    let ?b = "before_pushes (c, code) s"
    have "int (16 * chunks ?rs) = 8 * int ?n + (if odd ?n then 8 else 0)" using chunks_count [of ?rs] by presburger
    then have "?ch = word_of_int (8 * int ?n + (if odd ?n then 8 else 0))" by (metis of_int_of_nat_eq of_nat_mult of_nat_numeral)
    then have "sp_reg (before_pushes ?e ?s1) = sp_reg ?b - (if odd ?n then 8 else 0)" by (auto simp: before_pushes_def algebra_simps)
    then have "?v = a64_address inst w (read_address c) (?b\<lparr>sp_reg := sp_reg ?b - (if odd ?n then 8 else 0)\<rparr>)"
      by (intro a64_address_regs) (simp_all add: before_pushes_def)
    then show ?thesis unfolding a64_address_sp by (simp add: count_bits_regs)
  qed
  moreover have "xregs ?s' = (xregs s)(nat reg := ?v)" "flags ?s' = flags s"
  proof -
    have "(word_of_int reg :: 5 word) \<noteq> 31" "unat (word_of_int reg :: 5 word) = nat reg"
      using reg by (simp_all add: word_uint_eq_iff uint_word_of_int take_bit_int_eq_self unat_eq_nat_uint)
    then show "xregs ?s' = (xregs s)(nat reg := ?v)" "flags ?s' = flags s" by (simp_all add: add_state_def set_xreg_sp_def)
  qed
  ultimately show ?thesis using e xs(1) by (intro exI [of _ ?e] exI [of _ ?e'] exI [of _ ?s']) simp
qed

text \<open>A store of X5 at SP + 16, with X0 pushed before its address is computed.\<close>

theorem mambo_calc_ld_st_addr_after_push_witness:
  "\<exists>e e' s'. emit_push (witness_ctx\<lparr>ctx_inst := 31\<rparr>, Map.empty) 1 = Ok e \<and> mambo_calc_ld_st_addr (\<lambda>_. 0xF9000BE5) e 0 = Ok (0, e') \<and>
     reaches (snd e') witness_state s' \<and> xregs s' 0 = 0x7010 - 8"
proof -
  let ?c = "witness_ctx\<lparr>ctx_inst := 31\<rparr>"
  have w: "ldr_scale 0xF9000BE5 = 3" "sp_based 31 0xF9000BE5" "fld 0xF9000BE5 21 10 = 2" "\<not> bit (1 :: u32) 31" "odd (count_bits 1)" by code_simp+
  have "addressable 31 0xF9000BE5" using w(1) by (simp add: addressable_def a64_memory_instructions)
  moreover have "a64_address 31 0xF9000BE5 0x400000 (before_pushes (?c, Map.empty) witness_state) = 0x7010"
    using w by (simp add: a64_address_def a64_memory_instructions before_pushes_def witness_ctx_def witness_state_def xreg_sp_def sp_based_def)
  ultimately show ?thesis
    using mambo_calc_ld_st_addr_after_push [of 31 "0xF9000BE5" ?c "\<lambda>_. 0xF9000BE5" 0 1 witness_state Map.empty] w(2,4,5) witness_near(2)
    by (fastforce simp: witness_ctx_def witness_state_def)
qed

section \<open>Branches and blocks\<close>

text \<open>The instructions that plugins see as branches are exactly those that end a block for the scanner.\<close>

lemma branch_type_ends_block:
  "mambo_get_branch_type inst w \<noteq> BRANCH_NONE \<longleftrightarrow> (\<exists>t. t \<noteq> unknown \<and> pass1_a64 (Suc 0) (\<lambda>_. inst) guest p = Ok t)"
proof -
  have "BRANCH_DIRECT \<noteq> BRANCH_NONE" "BRANCH_INDIRECT \<noteq> BRANCH_NONE" "BRANCH_DIRECT OR BRANCH_COND OR BRANCH_COND_CBZ \<noteq> BRANCH_NONE"
    "BRANCH_DIRECT OR BRANCH_COND OR BRANCH_COND_PSR \<noteq> BRANCH_NONE" "BRANCH_DIRECT OR BRANCH_COND OR BRANCH_COND_TBZ \<noteq> BRANCH_NONE"
    "BRANCH_INDIRECT OR BRANCH_CALL \<noteq> BRANCH_NONE" "BRANCH_INDIRECT OR BRANCH_RETURN \<noteq> BRANCH_NONE" "BRANCH_DIRECT OR BRANCH_CALL \<noteq> BRANCH_NONE"
    by (simp_all add: branch_types)
  then show ?thesis by (auto simp: mambo_get_branch_type_def a64_instructions split: prod.split if_splits)
qed

end
