(* ===== verification/Naive_Stdlib.thy ===== *)
theory Naive_Stdlib
  imports Mambo_Prelude "HOL-Library.List_Lexorder"
begin

text \<open>
  The string functions that memcheck substitutes for those of the C library (\<open>plugins/memcheck/naive_stdlib.c\<close>), on a
  memory of bytes; \<open>char\<close> is unsigned on AArch64. A loop that does not end has the value \<open>None\<close>.
\<close>

type_synonym bytes = "uintptr \<Rightarrow> 8 word"

section \<open>The functions\<close>

partial_function (option) bcmp_loop :: "bytes \<Rightarrow> uintptr \<Rightarrow> uintptr \<Rightarrow> uintptr \<Rightarrow> uintptr \<Rightarrow> int option" where
  "bcmp_loop m a b n i = (if i < n then if m (a + i) \<noteq> m (b + i) then Some (-1) else bcmp_loop m a b n (i + 1) else Some 0)"

definition memcheck_bcmp :: "bytes \<Rightarrow> uintptr \<Rightarrow> uintptr \<Rightarrow> uintptr \<Rightarrow> int option" where
  "memcheck_bcmp m s1 s2 n = bcmp_loop m s1 s2 n 0"

text \<open>A null pointer is \<open>0\<close>. The searched character is an \<open>int\<close>, which \<open>index\<close> and \<open>rindex\<close> compare without converting it.\<close>

partial_function (option) index_loop :: "bytes \<Rightarrow> uintptr \<Rightarrow> int \<Rightarrow> uintptr option" where
  "index_loop m p c = (if m p \<noteq> 0 then if uint (m p) = c then Some p else index_loop m (p + 1) c
     else if c = 0 \<and> m p = 0 then Some p else Some 0)"

definition memcheck_index :: "bytes \<Rightarrow> uintptr \<Rightarrow> int \<Rightarrow> uintptr option" where
  "memcheck_index m s c = index_loop m s c"

partial_function (option) memchr_loop :: "bytes \<Rightarrow> uintptr \<Rightarrow> int \<Rightarrow> uintptr \<Rightarrow> uintptr \<Rightarrow> uintptr option" where
  "memchr_loop m p c n i = (if i < n then if m (p + i) = word_of_int c then Some (p + i) else memchr_loop m p c n (i + 1) else Some 0)"

definition memcheck_memchr :: "bytes \<Rightarrow> uintptr \<Rightarrow> int \<Rightarrow> uintptr \<Rightarrow> uintptr option" where
  "memcheck_memchr m s c n = memchr_loop m s c n 0"

definition SIZE_MAX :: uintptr where "SIZE_MAX = -1"

definition memcheck_rawmemchr :: "bytes \<Rightarrow> uintptr \<Rightarrow> int \<Rightarrow> uintptr option" where
  "memcheck_rawmemchr m s c = memcheck_memchr m s c SIZE_MAX"

partial_function (option) rindex_loop :: "bytes \<Rightarrow> uintptr \<Rightarrow> int \<Rightarrow> uintptr \<Rightarrow> uintptr option" where
  "rindex_loop m p c ret = (if m p \<noteq> 0 then rindex_loop m (p + 1) c (if uint (m p) = c then p else ret)
     else if c = 0 \<and> m p = 0 then Some p else Some ret)"

definition memcheck_rindex :: "bytes \<Rightarrow> uintptr \<Rightarrow> int \<Rightarrow> uintptr option" where
  "memcheck_rindex m s c = rindex_loop m s c 0"

text \<open>The loop condition also tests the pointers before they are incremented. The results are the returned pointer and the memory.\<close>

partial_function (option) memcheck_stpcpy :: "bytes \<Rightarrow> uintptr \<Rightarrow> uintptr \<Rightarrow> (uintptr \<times> bytes) option" where
  "memcheck_stpcpy m dest src =
     (let m' = m(dest := m src) in
      if m' src \<noteq> 0 \<and> src \<noteq> 0 \<and> dest \<noteq> 0 then memcheck_stpcpy m' (dest + 1) (src + 1)
      else if m' src \<noteq> 0 \<and> src \<noteq> 0 then Some (dest + 1, m') else Some (dest, m'))"

text \<open>The comparison of the first two characters that differ, or of the terminators.\<close>

definition char_order :: "8 word \<Rightarrow> 8 word \<Rightarrow> int" where
  "char_order a b = (if a < b then -1 else if a > b then 1 else 0)"

partial_function (option) strcmp_loop :: "bytes \<Rightarrow> uintptr \<Rightarrow> uintptr \<Rightarrow> uintptr \<Rightarrow> uintptr option" where
  "strcmp_loop m s1 s2 i = (if m (s1 + i) = m (s2 + i) \<and> m (s1 + i) \<noteq> 0 then strcmp_loop m s1 s2 (i + 1) else Some i)"

definition memcheck_strcmp :: "bytes \<Rightarrow> uintptr \<Rightarrow> uintptr \<Rightarrow> int option" where
  "memcheck_strcmp m s1 s2 = map_option (\<lambda>i. char_order (m (s1 + i)) (m (s2 + i))) (strcmp_loop m s1 s2 0)"

partial_function (option) strcpy_loop :: "bytes \<Rightarrow> uintptr \<Rightarrow> uintptr \<Rightarrow> uintptr \<Rightarrow> (uintptr \<times> bytes) option" where
  "strcpy_loop m dest src i = (if m (src + i) \<noteq> 0 then strcpy_loop (m(dest + i := m (src + i))) dest src (i + 1) else Some (i, m))"

definition memcheck_strcpy :: "bytes \<Rightarrow> uintptr \<Rightarrow> uintptr \<Rightarrow> (uintptr \<times> bytes) option" where
  "memcheck_strcpy m dest src = map_option (\<lambda>(i, m). (dest, m(dest + i := 0))) (strcpy_loop m dest src 0)"

partial_function (option) strlen_loop :: "bytes \<Rightarrow> uintptr \<Rightarrow> uintptr \<Rightarrow> uintptr option" where
  "strlen_loop m s len = (if m (s + len) \<noteq> 0 then strlen_loop m s (len + 1) else Some len)"

definition memcheck_strlen :: "bytes \<Rightarrow> uintptr \<Rightarrow> uintptr option" where
  "memcheck_strlen m s = strlen_loop m s 0"

partial_function (option) strncmp_loop :: "bytes \<Rightarrow> uintptr \<Rightarrow> uintptr \<Rightarrow> uintptr \<Rightarrow> uintptr \<Rightarrow> uintptr option" where
  "strncmp_loop m s1 s2 n i = (if m (s1 + i) = m (s2 + i) \<and> m (s1 + i) \<noteq> 0 \<and> i + 1 < n then strncmp_loop m s1 s2 n (i + 1) else Some i)"

definition memcheck_strncmp :: "bytes \<Rightarrow> uintptr \<Rightarrow> uintptr \<Rightarrow> uintptr \<Rightarrow> int option" where
  "memcheck_strncmp m s1 s2 n =
     (if n = 0 then Some 0 else map_option (\<lambda>i. char_order (m (s1 + i)) (m (s2 + i))) (strncmp_loop m s1 s2 n 0))"

partial_function (option) strnlen_loop :: "bytes \<Rightarrow> uintptr \<Rightarrow> uintptr \<Rightarrow> uintptr \<Rightarrow> uintptr option" where
  "strnlen_loop m s maxlen len = (if len < maxlen \<and> m (s + len) \<noteq> 0 then strnlen_loop m s maxlen (len + 1) else Some len)"

definition memcheck_strnlen :: "bytes \<Rightarrow> uintptr \<Rightarrow> uintptr \<Rightarrow> uintptr option" where
  "memcheck_strnlen m s maxlen = strnlen_loop m s maxlen 0"

partial_function (option) strchrnul_loop :: "bytes \<Rightarrow> uintptr \<Rightarrow> int \<Rightarrow> uintptr option" where
  "strchrnul_loop m p c = (if m p \<noteq> word_of_int c \<and> m p \<noteq> 0 then strchrnul_loop m (p + 1) c else Some p)"

definition memcheck_strchrnul :: "bytes \<Rightarrow> uintptr \<Rightarrow> int \<Rightarrow> uintptr option" where
  "memcheck_strchrnul m s c = strchrnul_loop m s c"

text \<open>
  The inner loop of \<open>strspn\<close> and \<open>strcspn\<close>: whether a character is in a string. Its index is an \<open>int\<close>, which does not
  overflow on sets of fewer than \<open>2^31\<close> characters; the model reads the set through a pointer.
\<close>

partial_function (option) member_loop :: "bytes \<Rightarrow> 8 word \<Rightarrow> uintptr \<Rightarrow> bool option" where
  "member_loop m ch p = (if m p \<noteq> 0 then if ch = m p then Some True else member_loop m ch (p + 1) else Some False)"

partial_function (option) strspn_loop :: "bytes \<Rightarrow> uintptr \<Rightarrow> uintptr \<Rightarrow> uintptr \<Rightarrow> uintptr option" where
  "strspn_loop m p accept len =
     (if m p \<noteq> 0 then
        Option.bind (member_loop m (m p) accept) (\<lambda>match.
        if \<not> match then Some len else strspn_loop m (p + 1) accept (len + 1))
      else Some len)"

definition memcheck_strspn :: "bytes \<Rightarrow> uintptr \<Rightarrow> uintptr \<Rightarrow> uintptr option" where
  "memcheck_strspn m s accept = strspn_loop m s accept 0"

partial_function (option) strcspn_loop :: "bytes \<Rightarrow> uintptr \<Rightarrow> uintptr \<Rightarrow> uintptr \<Rightarrow> uintptr option" where
  "strcspn_loop m p reject len =
     (if m p \<noteq> 0 then
        Option.bind (member_loop m (m p) reject) (\<lambda>match.
        if match then Some len else strcspn_loop m (p + 1) reject (len + 1))
      else Some len)"

definition memcheck_strcspn :: "bytes \<Rightarrow> uintptr \<Rightarrow> uintptr \<Rightarrow> uintptr option" where
  "memcheck_strcspn m s reject = strcspn_loop m s reject 0"

section \<open>Strings\<close>

text \<open>A terminated string in memory.\<close>

fun cstring :: "bytes \<Rightarrow> uintptr \<Rightarrow> 8 word list \<Rightarrow> bool" where
  "cstring m s [] \<longleftrightarrow> m s = 0"
| "cstring m s (x # xs) \<longleftrightarrow> m s = x \<and> x \<noteq> 0 \<and> cstring m (s + 1) xs"

lemma strlen_loop_eq: "cstring m (s + len) xs \<Longrightarrow> strlen_loop m s len = Some (len + of_nat (length xs))"
  by (induction xs arbitrary: len) (subst strlen_loop.simps; simp add: add.assoc)+

lemma member_loop_eq: "cstring m p xs \<Longrightarrow> member_loop m ch p = Some (ch \<in> set xs)"
  by (induction xs arbitrary: p) (subst member_loop.simps; simp)+

lemma span_loops_eq:
  assumes "cstring m chars cs"
  shows "cstring m p xs \<Longrightarrow> strspn_loop m p chars len = Some (len + of_nat (length (takeWhile (\<lambda>c. c \<in> set cs) xs)))"
    "cstring m p xs \<Longrightarrow> strcspn_loop m p chars len = Some (len + of_nat (length (takeWhile (\<lambda>c. c \<notin> set cs) xs)))"
  by (induction xs arbitrary: p len)
     ((subst strspn_loop.simps | subst strcspn_loop.simps); simp add: member_loop_eq [OF assms] add.assoc)+

lemma strchrnul_loop_eq: "cstring m p xs \<Longrightarrow> strchrnul_loop m p c = Some (p + of_nat (length (takeWhile (\<lambda>x. x \<noteq> word_of_int c) xs)))"
  by (induction xs arbitrary: p) (subst strchrnul_loop.simps; simp add: add.assoc)+

text \<open>The lexicographic order of strings.\<close>

definition str_order :: "8 word list \<Rightarrow> 8 word list \<Rightarrow> int" where
  "str_order xs ys = (if xs < ys then -1 else if xs > ys then 1 else 0)"

lemma str_order_simps [simp]:
  "str_order [] [] = 0" "str_order [] (y # ys) = -1" "str_order (x # xs) [] = 1"
  "str_order (x # xs) (y # ys) = (if x = y then str_order xs ys else char_order x y)"
  by (auto simp: str_order_def char_order_def)

lemma char_order_zero [simp]: "char_order a a = 0" "a \<noteq> 0 \<Longrightarrow> char_order 0 a = -1" "a \<noteq> 0 \<Longrightarrow> char_order a 0 = 1"
  by (simp_all add: char_order_def word_gt_0)

abbreviation order_at :: "bytes \<Rightarrow> uintptr \<Rightarrow> uintptr \<Rightarrow> uintptr option \<Rightarrow> int option" where
  "order_at m s1 s2 r \<equiv> map_option (\<lambda>i. char_order (m (s1 + i)) (m (s2 + i))) r"

lemma strcmp_loop_eq:
  "cstring m (s1 + i) xs \<Longrightarrow> cstring m (s2 + i) ys \<Longrightarrow> order_at m s1 s2 (strcmp_loop m s1 s2 i) = Some (str_order xs ys)"
proof (induction xs arbitrary: i ys)
  case Nil
  then show ?case by (cases ys) (subst strcmp_loop.simps; simp)+
next
  case (Cons x xs)
  show ?case
  proof (cases ys)
    case Nil
    then show ?thesis using Cons.prems by (subst strcmp_loop.simps) simp
  next
    case ys: (Cons y ys')
    then show ?thesis using Cons.IH [of "i + 1" ys'] Cons.prems by (subst strcmp_loop.simps) (simp add: add.assoc)
  qed
qed

lemma next_index:
  fixes i n :: uintptr
  assumes "i < n"
  shows "unat (n - i) = Suc (unat (n - (i + 1)))" "i + 1 \<le> n" "i \<noteq> -1"
proof -
  have i: "unat i < unat n" using assms by (simp add: word_less_nat_alt)
  show le: "i + 1 \<le> n" using assms by (rule inc_le)
  show "i \<noteq> -1" using assms word_n1_ge [of n] by auto
  then have "1 + i \<noteq> 0" by (simp add: add_eq_0_iff)
  then have "unat (i + 1) = Suc (unat i)" using unatSuc [of i] by (simp add: add.commute)
  then show "unat (n - i) = Suc (unat (n - (i + 1)))"
    using i le assms by (simp add: unat_sub less_imp_le)
qed

lemma strncmp_loop_eq:
  "cstring m (s1 + i) xs \<Longrightarrow> cstring m (s2 + i) ys \<Longrightarrow> i < n \<Longrightarrow>
     order_at m s1 s2 (strncmp_loop m s1 s2 n i) = Some (str_order (take (unat (n - i)) xs) (take (unat (n - i)) ys))"
proof (induction xs arbitrary: i ys)
  case Nil
  then show ?case using next_index(1) [of i n] by (cases ys) (subst strncmp_loop.simps; simp)+
next
  case (Cons x xs)
  note k = next_index [OF Cons.prems(3)]
  show ?case
  proof (cases ys)
    case Nil
    then show ?thesis using Cons.prems k(1) by (subst strncmp_loop.simps) simp
  next
    case ys: (Cons y ys')
    have "n - (i + 1) = 0" if "\<not> i + 1 < n" using that k(2) by simp
    then show ?thesis using Cons.IH [of "i + 1" ys'] Cons.prems ys k(1) by (subst strncmp_loop.simps) (auto simp: add.assoc)
  qed
qed

lemma strnlen_loop_eq:
  "cstring m (s + len) xs \<Longrightarrow> len \<le> n \<Longrightarrow> strnlen_loop m s n len = Some (len + of_nat (min (unat (n - len)) (length xs)))"
proof (induction xs arbitrary: len)
  case Nil
  then show ?case by (subst strnlen_loop.simps) simp
next
  case (Cons x xs)
  show ?case
  proof (cases "len < n")
    case True
    then show ?thesis using Cons next_index [OF True] by (subst strnlen_loop.simps) (simp add: add.assoc)
  next
    case False
    then have "len = n" using Cons.prems(2) by simp
    then show ?thesis by (subst strnlen_loop.simps) simp
  qed
qed

lemma index_split:
  fixes i n :: uintptr
  assumes "i < n"
  shows "(\<forall>j. i \<le> j \<and> j < n \<longrightarrow> Q j) \<longleftrightarrow> Q i \<and> (\<forall>j. i + 1 \<le> j \<and> j < n \<longrightarrow> Q j)"
proof -
  have "i \<le> j \<longleftrightarrow> j = i \<or> i + 1 \<le> j" for j using next_index(3) [OF assms] by (auto simp: inc_less_eq_iff)
  then show ?thesis using assms by auto
qed

lemma index_induct [consumes 1, case_names stop step]:
  fixes i n :: uintptr
  assumes "i \<le> n" "P n" "\<And>i. i < n \<Longrightarrow> P (i + 1) \<Longrightarrow> P i"
  shows "P i"
  using assms(1)
proof (induction "unat (n - i)" arbitrary: i)
  case 0
  then have "n - i = 0" by (simp only: unat_eq_zero [symmetric])
  then have "i = n" by (simp only: right_minus_eq)
  then show ?case using assms(2) by simp
next
  case (Suc k)
  have "i \<noteq> n"
  proof
    assume "i = n"
    then have "unat (n - i) = 0" by (simp only: diff_self unat_0)
    then show False using Suc.hyps(2) by simp
  qed
  then have "i < n" using Suc.prems by (metis order_le_less)
  note n = next_index [OF this]
  have "k = unat (n - (i + 1))" using n(1) Suc.hyps(2) by simp
  then have "P (i + 1)" using n(2) by (rule Suc.hyps(1))
  with \<open>i < n\<close> show ?case by (rule assms(3))
qed

lemma bcmp_loop_eq:
  assumes "i \<le> n"
  shows "bcmp_loop m a b n i = Some (if \<forall>j. i \<le> j \<and> j < n \<longrightarrow> m (a + j) = m (b + j) then 0 else -1)"
  using assms
proof (induction rule: index_induct)
  case stop
  then show ?case by (subst bcmp_loop.simps) auto
next
  case (step i)
  then show ?case by (subst bcmp_loop.simps) (simp add: index_split)
qed

text \<open>The first position from \<open>i\<close> on with the character.\<close>

lemma memchr_loop_eq:
  assumes "i \<le> n"
  shows "\<exists>r. memchr_loop m p c n i = Some r \<and>
    (if \<exists>j. i \<le> j \<and> j < n \<and> m (p + j) = word_of_int c
     then \<exists>j. i \<le> j \<and> j < n \<and> r = p + j \<and> m (p + j) = word_of_int c \<and> (\<forall>k. i \<le> k \<and> k < j \<longrightarrow> m (p + k) \<noteq> word_of_int c)
     else r = 0)"
  using assms
proof (induction rule: index_induct)
  case stop
  then show ?case by (subst memchr_loop.simps) auto
next
  case (step i)
  show ?case
  proof (cases "m (p + i) = word_of_int c")
    case True
    then show ?thesis using step(1) by (subst memchr_loop.simps) auto
  next
    case False
    have l: "memchr_loop m p c n i = memchr_loop m p c n (i + 1)" using step(1) False by (subst memchr_loop.simps) simp
    have le: "i \<le> j \<longleftrightarrow> j = i \<or> i + 1 \<le> j" for j using next_index(3) [OF step(1)] by (auto simp: inc_less_eq_iff)
    have ex: "(\<exists>j. i \<le> j \<and> j < n \<and> m (p + j) = word_of_int c) \<longleftrightarrow> (\<exists>j. i + 1 \<le> j \<and> j < n \<and> m (p + j) = word_of_int c)" using False le by auto
    obtain r where r: "memchr_loop m p c n (i + 1) = Some r" "if \<exists>j. i + 1 \<le> j \<and> j < n \<and> m (p + j) = word_of_int c
       then \<exists>j. i + 1 \<le> j \<and> j < n \<and> r = p + j \<and> m (p + j) = word_of_int c \<and> (\<forall>k. i + 1 \<le> k \<and> k < j \<longrightarrow> m (p + k) \<noteq> word_of_int c)
       else r = 0" using step(2) by blast
    show ?thesis
    proof (intro exI [of _ r] conjI)
      show "if \<exists>j. i \<le> j \<and> j < n \<and> m (p + j) = word_of_int c
         then \<exists>j. i \<le> j \<and> j < n \<and> r = p + j \<and> m (p + j) = word_of_int c \<and> (\<forall>k. i \<le> k \<and> k < j \<longrightarrow> m (p + k) \<noteq> word_of_int c)
         else r = 0"
      proof (cases "\<exists>j. i + 1 \<le> j \<and> j < n \<and> m (p + j) = word_of_int c")
        case True
        then obtain j where "i + 1 \<le> j" "j < n" "r = p + j" "m (p + j) = word_of_int c" "\<forall>k. i + 1 \<le> k \<and> k < j \<longrightarrow> m (p + k) \<noteq> word_of_int c"
          using r(2) by (auto split: if_splits)
        then show ?thesis using True False le unfolding ex by (auto intro!: exI [of _ j])
      next
        case no: False
        then have "r = 0" using r(2) by (simp only: if_False)
        then show ?thesis using no ex by (simp only: if_False)
      qed
    qed (use r(1) l in simp)
  qed
qed

lemma index_loop_eq:
  "cstring m p xs \<Longrightarrow> index_loop m p c =
     Some (if c = 0 then p + of_nat (length xs) else if \<exists>x \<in> set xs. uint x = c then p + of_nat (length (takeWhile (\<lambda>x. uint x \<noteq> c) xs)) else 0)"
proof (induction xs arbitrary: p)
  case Nil
  then show ?case by (subst index_loop.simps) simp
next
  case (Cons x xs)
  have "uint x \<noteq> 0" using Cons.prems by (simp add: uint_0_iff)
  then show ?case using Cons by (subst index_loop.simps) (auto simp: add.assoc)
qed

lemma rindex_loop_eq:
  "cstring m p xs \<Longrightarrow> rindex_loop m p c ret =
     Some (if c = 0 then p + of_nat (length xs)
           else if \<exists>x \<in> set xs. uint x = c then p + of_nat (length (dropWhile (\<lambda>x. uint x \<noteq> c) (rev xs))) - 1 else ret)"
proof (induction xs arbitrary: p ret)
  case Nil
  then show ?case by (subst rindex_loop.simps) simp
next
  case (Cons x xs)
  have "uint x \<noteq> 0" using Cons.prems by (simp add: uint_0_iff)
  then show ?case using Cons by (subst rindex_loop.simps) (auto simp: add.assoc dropWhile_append)
qed

text \<open>Writing a string.\<close>

fun put_string :: "bytes \<Rightarrow> uintptr \<Rightarrow> 8 word list \<Rightarrow> bytes" where
  "put_string m d [] = m"
| "put_string m d (x # xs) = put_string (m(d := x)) (d + 1) xs"

definition apart :: "uintptr \<Rightarrow> uintptr \<Rightarrow> nat \<Rightarrow> bool" where
  "apart d s n \<longleftrightarrow> (\<forall>j \<le> n. \<forall>k \<le> n. d + of_nat j \<noteq> s + of_nat k)"

lemma apart_Suc: "apart d s (Suc n) \<Longrightarrow> apart (d + 1) (s + 1) n" "apart d s n \<Longrightarrow> k \<le> n \<Longrightarrow> s + of_nat k \<noteq> d"
proof -
  assume a: "apart d s (Suc n)"
  have "d + 1 + of_nat j \<noteq> s + 1 + of_nat k" if "j \<le> n" "k \<le> n" for j k
    using a [unfolded apart_def, rule_format, of "Suc j" "Suc k"] that by (simp add: add.assoc)
  then show "apart (d + 1) (s + 1) n" by (simp add: apart_def)
next
  assume "apart d s n" "k \<le> n"
  then show "s + of_nat k \<noteq> d" using spec [of _ 0] by (force simp: apart_def)
qed

lemma cstring_upd: "cstring m s xs \<Longrightarrow> (\<And>k. k \<le> length xs \<Longrightarrow> s + of_nat k \<noteq> d) \<Longrightarrow> cstring (m(d := x)) s xs"
proof (induction xs arbitrary: s)
  case Nil
  then show ?case using Nil.prems(2) [of 0] by simp
next
  case (Cons y ys)
  have "s + 1 + of_nat k \<noteq> d" if "k \<le> length ys" for k using Cons.prems(2) [of "Suc k"] that by (simp add: add.assoc)
  then show ?case using Cons.IH [of "s + 1"] Cons.prems(1) Cons.prems(2) [of 0] by simp
qed

lemma strcpy_loop_eq:
  "cstring m (src + i) xs \<Longrightarrow> apart (dest + i) (src + i) (length xs) \<Longrightarrow>
     strcpy_loop m dest src i = Some (i + of_nat (length xs), put_string m (dest + i) xs)"
proof (induction xs arbitrary: m i)
  case Nil
  then show ?case by (subst strcpy_loop.simps) simp
next
  case (Cons x xs)
  have "cstring (m(dest + i := x)) (src + i) (x # xs)" using Cons.prems apart_Suc(2) [of _ _ _] by (intro cstring_upd) auto
  then have "cstring (m(dest + i := x)) (src + (i + 1)) xs" by (simp add: add.assoc)
  moreover have "apart (dest + (i + 1)) (src + (i + 1)) (length xs)"
    using Cons.prems(2) apart_Suc(1) [of "dest + i" "src + i" "length xs"] by (simp add: add.assoc)
  ultimately have "strcpy_loop (m(dest + i := x)) dest src (i + 1) = Some (i + 1 + of_nat (length xs), put_string (m(dest + i := x)) (dest + (i + 1)) xs)"
    by (rule Cons.IH)
  then show ?case using Cons.prems(1) by (subst strcpy_loop.simps) (simp del: fun_upd_apply add: add.assoc)
qed

text \<open>Neither string reaches the null pointer.\<close>

definition not_null :: "uintptr \<Rightarrow> nat \<Rightarrow> bool" where
  "not_null p n \<longleftrightarrow> (\<forall>j \<le> n. p + of_nat j \<noteq> 0)"

lemma not_null_Suc: "not_null p (Suc n) \<Longrightarrow> not_null (p + 1) n" "not_null p n \<Longrightarrow> p \<noteq> 0"
  by (force simp: not_null_def add.assoc dest: spec [of _ "Suc _"], force simp: not_null_def)

lemma stpcpy_eq:
  "cstring m src xs \<Longrightarrow> apart dest src (length xs) \<Longrightarrow> not_null src (length xs) \<Longrightarrow> not_null dest (length xs) \<Longrightarrow>
     memcheck_stpcpy m dest src = Some (dest + of_nat (length xs), put_string m dest (xs @ [0]))"
proof (induction xs arbitrary: m src dest)
  case Nil
  then show ?case using apart_Suc(2) [of dest src 0 0] by (subst memcheck_stpcpy.simps) simp
next
  case (Cons x xs)
  have "cstring (m(dest := x)) src (x # xs)" using Cons.prems(1,2) apart_Suc(2) [of dest src] by (intro cstring_upd) auto
  then have "cstring (m(dest := x)) (src + 1) xs" "(m(dest := x)) src = x" "x \<noteq> 0" by (auto simp only: cstring.simps)
  moreover have "memcheck_stpcpy (m(dest := x)) (dest + 1) (src + 1) = Some (dest + 1 + of_nat (length xs), put_string (m(dest := x)) (dest + 1) (xs @ [0]))"
    using Cons.prems apart_Suc(1) [of dest src "length xs"] not_null_Suc(1) [of src "length xs"] not_null_Suc(1) [of dest "length xs"]
    by (intro Cons.IH calculation(1)) simp_all
  moreover have "src \<noteq> 0" "dest \<noteq> 0" using Cons.prems(3,4) not_null_Suc(2) by blast+
  ultimately show ?case using Cons.prems(1) by (subst memcheck_stpcpy.simps) (simp del: fun_upd_apply add: Let_def add.assoc)
qed

lemma put_string_other: "(\<And>j. j < length xs \<Longrightarrow> a \<noteq> d + of_nat j) \<Longrightarrow> put_string m d xs a = m a"
proof (induction xs arbitrary: m d)
  case (Cons x xs)
  have "a \<noteq> d + 1 + of_nat j" if "j < length xs" for j using Cons.prems [of "Suc j"] that by (simp add: add.assoc)
  then have "put_string (m(d := x)) (d + 1) xs a = (m(d := x)) a" by (rule Cons.IH)
  then show ?case using Cons.prems [of 0] by simp
qed simp

lemma put_string_append: "put_string m d (xs @ [x]) = (put_string m d xs)(d + of_nat (length xs) := x)"
  by (induction xs arbitrary: m d) (simp_all del: fun_upd_apply add: add.assoc)

lemma cstring_nth: "cstring m s xs \<Longrightarrow> i < length xs \<Longrightarrow> m (s + of_nat i) = xs ! i \<and> xs ! i \<noteq> 0" "cstring m s xs \<Longrightarrow> m (s + of_nat (length xs)) = 0"
proof (induction xs arbitrary: s i)
  case (Cons x xs)
  {
    case 1
    then show ?case using Cons.IH(1) [of "s + 1" "i - 1"] by (cases i) (auto simp: add.assoc)
  next
    case 2
    then show ?case using Cons.IH(2) [of "s + 1"] by (simp add: add.assoc)
  }
qed simp_all

text \<open>A terminated string is shorter than the address space.\<close>

lemma cstring_length: "cstring m s xs \<Longrightarrow> length xs < 2 ^ 64"
proof (rule ccontr)
  assume s: "cstring m s xs" and "\<not> length xs < 2 ^ 64"
  then have l: "length xs = 2 ^ 64 + (length xs - 2 ^ 64)" by simp
  have "(of_nat (length xs) :: uintptr) = of_nat (length xs - 2 ^ 64)"
    by (subst l) (simp only: of_nat_add word_exp_length_eq_0 of_nat_power of_nat_numeral len_bit0 len_num1, simp)
  moreover have "length xs - 2 ^ 64 < length xs" using \<open>\<not> length xs < 2 ^ 64\<close> by (intro diff_less) auto
  ultimately show False using cstring_nth [OF s] by metis
qed

lemma put_string_cstring:
  "0 \<notin> set xs \<Longrightarrow> length xs < 2 ^ 64 \<Longrightarrow> cstring (put_string m d (xs @ [0])) d xs"
proof (induction xs arbitrary: m d)
  case (Cons x xs)
  have "d \<noteq> d + 1 + of_nat j" if "j < length (xs @ [0])" for j
  proof
    assume "d = d + 1 + of_nat j"
    then have "(of_nat (Suc j) :: uintptr) = 0" by simp
    then show False using that Cons.prems(2) by (simp only: word_of_nat_eq_0_iff) (auto dest!: dvd_imp_le)
  qed
  then have "put_string (m(d := x)) (d + 1) (xs @ [0]) d = x" by (subst put_string_other) simp_all
  moreover have "cstring (put_string (m(d := x)) (d + 1) (xs @ [0])) (d + 1) xs" using Cons.prems by (intro Cons.IH) simp_all
  ultimately show ?case using Cons.prems(1) by (auto simp del: fun_upd_apply)
qed simp

section \<open>Correctness\<close>

text \<open>The searching functions on a character of a string; \<open>index\<close> and \<open>rindex\<close> for an argument in the range of \<open>char\<close>.\<close>

lemma char_arg: "0 \<le> c \<Longrightarrow> c < 256 \<Longrightarrow> (uint x = c) = (x = word_of_int c)" for x :: "8 word"
  by (auto simp: uint_word_of_int take_bit_int_eq_self)

lemma char_arg_zero: "0 \<le> c \<Longrightarrow> c < 256 \<Longrightarrow> ((word_of_int c :: 8 word) = 0) = (c = 0)"
  using char_arg [of c 0] by auto

lemma index_in_range:
  assumes "cstring m s xs" "0 \<le> c" "c < 256"
  shows "memcheck_index m s c = Some (if c = 0 then s + of_nat (length xs)
      else if word_of_int c \<in> set xs then s + of_nat (length (takeWhile (\<lambda>x. x \<noteq> word_of_int c) xs)) else 0)"
    "memcheck_rindex m s c = Some (if c = 0 then s + of_nat (length xs)
      else if word_of_int c \<in> set xs then s + of_nat (length (dropWhile (\<lambda>x. x \<noteq> word_of_int c) (rev xs))) - 1 else 0)"
  using index_loop_eq [OF assms(1), of c] rindex_loop_eq [OF assms(1), of c 0]
  by (simp_all add: memcheck_index_def memcheck_rindex_def char_arg [OF assms(2,3)])

definition first_byte :: "bytes \<Rightarrow> uintptr \<Rightarrow> 8 word \<Rightarrow> uintptr \<Rightarrow> bool" where
  "first_byte m s ch j \<longleftrightarrow> m (s + j) = ch \<and> (\<forall>k < j. m (s + k) \<noteq> ch)"

lemma memchr_first:
  "\<exists>r. memcheck_memchr m s c n = Some r \<and>
     (if \<exists>j < n. m (s + j) = word_of_int c then \<exists>j < n. r = s + j \<and> first_byte m s (word_of_int c) j else r = 0)"
  using memchr_loop_eq [of 0 n m s c] by (simp add: memcheck_memchr_def first_byte_def cong: if_cong)

lemma rawmemchr_first:
  assumes "j < SIZE_MAX" "m (s + j) = word_of_int c"
  shows "\<exists>i. memcheck_rawmemchr m s c = Some (s + i) \<and> first_byte m s (word_of_int c) i"
proof -
  from assms have "\<exists>j < SIZE_MAX. m (s + j) = word_of_int c" by blast
  with memchr_first [of m s c SIZE_MAX] show ?thesis unfolding memcheck_rawmemchr_def by (simp only: if_True) blast
qed

text \<open>C40: The reading functions of the naive C library return, and return what the C standard says. On terminated strings
  \<open>strlen\<close> gives the length, \<open>strnlen\<close> the length up to a bound, \<open>strcmp\<close> the sign of the lexicographic order of the characters as
  unsigned bytes, \<open>strncmp\<close> that of the first \<open>n\<close> characters, \<open>strspn\<close> and \<open>strcspn\<close> the length of the longest prefix of
  characters in, or not in, the other string, \<open>strchrnul\<close> the first position of the character, else the end, and \<open>index\<close> and \<open>rindex\<close>, for an
  argument between 0 and 255, its first and last position or a null pointer. On any memory \<open>bcmp\<close> gives 0 exactly for equal bytes, \<open>memchr\<close>
  finds the first occurrence or gives a null pointer, and \<open>rawmemchr\<close> finds the first occurrence when there is one. For other
  arguments \<open>index\<close> and \<open>rindex\<close> do not conform, as is shown below.
\<close>

theorem naive_stdlib_reads:
  assumes "cstring m s xs" "cstring m t ys"
  shows "(\<exists>k. memcheck_strlen m s = Some k \<and> unat k = length xs) \<and>
    (\<exists>k. memcheck_strnlen m s n = Some k \<and> unat k = min (unat n) (length xs)) \<and>
    memcheck_strcmp m s t = Some (str_order xs ys) \<and>
    memcheck_strncmp m s t n = Some (str_order (take (unat n) xs) (take (unat n) ys)) \<and>
    memcheck_strspn m s t = Some (of_nat (length (takeWhile (\<lambda>c. c \<in> set ys) xs))) \<and>
    memcheck_strcspn m s t = Some (of_nat (length (takeWhile (\<lambda>c. c \<notin> set ys) xs))) \<and>
    memcheck_strchrnul m s c = Some (s + of_nat (length (takeWhile (\<lambda>x. x \<noteq> word_of_int c) xs))) \<and>
    (0 \<le> c \<and> c < 256 \<longrightarrow>
      memcheck_index m s c = Some (if c = 0 then s + of_nat (length xs)
        else if word_of_int c \<in> set xs then s + of_nat (length (takeWhile (\<lambda>x. x \<noteq> word_of_int c) xs)) else 0) \<and>
      memcheck_rindex m s c = Some (if c = 0 then s + of_nat (length xs)
        else if word_of_int c \<in> set xs then s + of_nat (length (dropWhile (\<lambda>x. x \<noteq> word_of_int c) (rev xs))) - 1 else 0)) \<and>
    memcheck_bcmp m a b n = Some (if \<forall>j < n. m (a + j) = m (b + j) then 0 else -1) \<and>
    (\<exists>r. memcheck_memchr m a c n = Some r \<and>
      (if \<exists>j < n. m (a + j) = word_of_int c then \<exists>j < n. r = a + j \<and> first_byte m a (word_of_int c) j else r = 0)) \<and>
    ((\<exists>j < SIZE_MAX. m (a + j) = word_of_int c) \<longrightarrow>
      (\<exists>j. memcheck_rawmemchr m a c = Some (a + j) \<and> first_byte m a (word_of_int c) j))"
proof -
  note l = cstring_length [OF assms(1)]
  have u: "unat (of_nat k :: uintptr) = k" if "k \<le> length xs" for k using that l by (simp add: unat_of_nat take_bit_nat_eq_self)
  have "\<exists>k. memcheck_strlen m s = Some k \<and> unat k = length xs"
    using strlen_loop_eq [of m s 0 xs] assms(1) u by (simp add: memcheck_strlen_def)
  moreover have "\<exists>k. memcheck_strnlen m s n = Some k \<and> unat k = min (unat n) (length xs)"
    using strnlen_loop_eq [of m s 0 xs n] assms(1) u by (simp add: memcheck_strnlen_def)
  moreover have "memcheck_strcmp m s t = Some (str_order xs ys)"
    using strcmp_loop_eq [of m s 0 xs t ys] assms by (simp add: memcheck_strcmp_def)
  moreover have "memcheck_strncmp m s t n = Some (str_order (take (unat n) xs) (take (unat n) ys))"
    using strncmp_loop_eq [of m s 0 xs t ys n] assms by (simp add: memcheck_strncmp_def word_gt_0)
  moreover have "memcheck_strspn m s t = Some (of_nat (length (takeWhile (\<lambda>c. c \<in> set ys) xs)))"
    "memcheck_strcspn m s t = Some (of_nat (length (takeWhile (\<lambda>c. c \<notin> set ys) xs)))"
    using span_loops_eq [OF assms(2,1), of 0] by (simp_all add: memcheck_strspn_def memcheck_strcspn_def)
  moreover have "memcheck_strchrnul m s c = Some (s + of_nat (length (takeWhile (\<lambda>x. x \<noteq> word_of_int c) xs)))"
    using strchrnul_loop_eq [OF assms(1)] by (simp add: memcheck_strchrnul_def)
  moreover have "memcheck_bcmp m a b n = Some (if \<forall>j < n. m (a + j) = m (b + j) then 0 else -1)"
    using bcmp_loop_eq [of 0 n m a b] by (simp add: memcheck_bcmp_def)
  ultimately show ?thesis
    using index_in_range [OF assms(1), of c] memchr_first [of m a c n] rawmemchr_first [of _ m a c] by blast
qed

text \<open>The strings \<open>ab\<close> at 16 and \<open>ac\<close> at 32.\<close>

definition two_strings :: bytes where
  "two_strings = (\<lambda>_. 0)(16 := 97, 17 := 98, 32 := 97, 33 := 99)"

theorem naive_stdlib_reads_witness:
  "memcheck_strcmp two_strings 16 32 = Some (-1) \<and> memcheck_strncmp two_strings 16 32 1 = Some 0 \<and>
   memcheck_strspn two_strings 16 32 = Some 1 \<and> (\<exists>k. memcheck_strlen two_strings 16 = Some k \<and> unat k = Suc (Suc 0)) \<and>
   memcheck_index two_strings 16 98 = Some 17 \<and> memcheck_bcmp two_strings 16 32 1 = Some 0"
proof -
  have "cstring two_strings 16 [97, 98]" "cstring two_strings 32 [97, 99]" by (simp_all add: two_strings_def)
  note r = naive_stdlib_reads [OF this, of 1 98 16 32]
  have one: "(\<forall>j < 1. two_strings (16 + j) = two_strings (32 + j)) = True" by (simp add: two_strings_def word_less_1)
  show ?thesis using r unfolding one by (simp add: char_order_def)
qed

text \<open>The copying functions terminate the copy and change nothing else: when the strings do not overlap, afterwards the
  destination holds the source string, every byte outside the destination is as before, and \<open>strcpy\<close> returns the
  destination, \<open>stpcpy\<close> the address of the terminator.
\<close>

theorem naive_stdlib_copies:
  assumes "cstring m src xs" "apart dest src (length xs)" "not_null src (length xs)" "not_null dest (length xs)"
  shows "\<exists>m'. memcheck_strcpy m dest src = Some (dest, m') \<and> memcheck_stpcpy m dest src = Some (dest + of_nat (length xs), m') \<and>
     cstring m' dest xs \<and> (\<forall>a. (\<forall>j \<le> length xs. a \<noteq> dest + of_nat j) \<longrightarrow> m' a = m a)"
proof -
  let ?m = "put_string m dest (xs @ [0])"
  have "0 \<notin> set xs" using cstring_nth(1) [OF assms(1)] by (metis in_set_conv_nth)
  then have "cstring ?m dest xs" using cstring_length [OF assms(1)] by (rule put_string_cstring)
  moreover have "memcheck_strcpy m dest src = Some (dest, ?m)"
    using strcpy_loop_eq [of m src 0 xs dest] assms(1,2) by (simp add: memcheck_strcpy_def put_string_append del: fun_upd_apply)
  moreover have "?m a = m a" if "\<forall>j \<le> length xs. a \<noteq> dest + of_nat j" for a using that by (intro put_string_other) auto
  ultimately show ?thesis using stpcpy_eq [OF assms] by blast
qed

lemma upto_2: "(\<forall>j \<le> 2. P j) \<longleftrightarrow> P 0 \<and> P 1 \<and> P (2 :: nat)"
  by (auto simp: numeral_2_eq_2 le_Suc_eq)

theorem naive_stdlib_copies_witness:
  "\<exists>m'. memcheck_strcpy two_strings 32 16 = Some (32, m') \<and> cstring m' 32 [97, 98]"
proof -
  have "apart 32 16 2" "not_null 16 2" "not_null 32 2" by (simp_all add: apart_def not_null_def upto_2)
  moreover have "length [97, 98 :: 8 word] = 2" "cstring two_strings 16 [97, 98]" by (simp_all add: two_strings_def)
  ultimately show ?thesis using naive_stdlib_copies [of two_strings 16 "[97, 98]" 32] by metis
qed

text \<open>\<open>index\<close> and \<open>rindex\<close> find the first and the last occurrence of a character code from 0 to 255, the terminator
  included, but they compare the characters with the \<open>int\<close> argument itself instead of its conversion to a character: for
  an argument outside that range, such as the negative value of a signed character, they return a null pointer even when
  the converted character occurs in the string.
\<close>

theorem memcheck_index_unconverted:
  assumes "cstring m s xs"
  shows "0 < c \<and> c < 256 \<Longrightarrow> memcheck_index m s c =
      Some (if word_of_int c \<in> set xs then s + of_nat (length (takeWhile (\<lambda>x. x \<noteq> word_of_int c) xs)) else 0)"
    "0 < c \<and> c < 256 \<Longrightarrow> memcheck_rindex m s c =
      Some (if word_of_int c \<in> set xs then s + of_nat (length (dropWhile (\<lambda>x. x \<noteq> word_of_int c) (rev xs))) - 1 else 0)"
    "memcheck_index m s 0 = Some (s + of_nat (length xs))" "memcheck_rindex m s 0 = Some (s + of_nat (length xs))"
    "c < 0 \<or> 256 \<le> c \<Longrightarrow> memcheck_index m s c = Some 0 \<and> memcheck_rindex m s c = Some 0"
proof -
  have eq: "uint x = c \<longleftrightarrow> x = word_of_int c" if "0 < c \<and> c < 256" for x :: "8 word"
    using that by (auto simp: word_uint_eq_iff uint_word_of_int take_bit_int_eq_self)
  have "0 \<le> uint x \<and> uint x < 256" for x :: "8 word" using uint_lt2p [of x] by simp
  then have no: "uint x \<noteq> c" if "c < 0 \<or> 256 \<le> c" for x :: "8 word" using that by (metis linorder_not_less)
  note d = memcheck_index_def memcheck_rindex_def index_loop_eq [OF assms] rindex_loop_eq [OF assms]
  show "0 < c \<and> c < 256 \<Longrightarrow> memcheck_index m s c =
      Some (if word_of_int c \<in> set xs then s + of_nat (length (takeWhile (\<lambda>x. x \<noteq> word_of_int c) xs)) else 0)"
    "0 < c \<and> c < 256 \<Longrightarrow> memcheck_rindex m s c =
      Some (if word_of_int c \<in> set xs then s + of_nat (length (dropWhile (\<lambda>x. x \<noteq> word_of_int c) (rev xs))) - 1 else 0)"
    using eq by (simp_all add: d)
  show "memcheck_index m s 0 = Some (s + of_nat (length xs))" "memcheck_rindex m s 0 = Some (s + of_nat (length xs))"
    "c < 0 \<or> 256 \<le> c \<Longrightarrow> memcheck_index m s c = Some 0 \<and> memcheck_rindex m s c = Some 0"
    using no by (auto simp: d)
qed

theorem memcheck_index_unconverted_witness:
  "word_of_int (-159) = (97 :: 8 word) \<and> memcheck_index two_strings 16 97 = Some 16 \<and> memcheck_index two_strings 16 (-159) = Some 0"
proof -
  have "cstring two_strings 16 [97, 98]" by (simp add: two_strings_def)
  note i = memcheck_index_unconverted [OF this]
  show ?thesis using i(1) [of 97] i(5) [of "-159"] by simp
qed

end
