(* ===== verification/Memcheck.thy ===== *)
theory Memcheck
  imports Naive_Stdlib A64_Load_Store Plugin_Hash
begin

text \<open>
  The memory checker (\<open>plugins/memcheck/memcheck.c\<close>, the AArch64 build with the compact shadow memory): one shadow bit per byte
  of application memory, at \<open>RESERVED_BASE\<close> and above, set while the byte may be accessed. The hooks of the allocator functions
  and of memory mappings keep the bits, and code emitted before every load and store tests them.
\<close>

section \<open>The shadow memory\<close>

definition RESERVED_BASE :: uintptr where "RESERVED_BASE = 0x4000000000"
definition IS_STORE :: uintptr where "IS_STORE = push_bit 15 1"
definition MAGIC_FREED :: uintptr where "MAGIC_FREED = -1 - 1"

definition memset :: "bytes \<Rightarrow> uintptr \<Rightarrow> 8 word \<Rightarrow> uintptr \<Rightarrow> bytes" where
  "memset m p v n = (\<lambda>a. if a - p < n then v else m a)"

text \<open>Marking a range whose start is not a multiple of eight shifts by the size of the range and then loops forever.\<close>

definition memcheck_mark :: "bytes \<Rightarrow> uintptr \<Rightarrow> uintptr \<Rightarrow> bool \<Rightarrow> bytes res" where
  "memcheck_mark m start sz valid =
     res_bind (res_assert (start < RESERVED_BASE \<and> start + sz < RESERVED_BASE \<and> start + sz \<ge> start)) (\<lambda>_.
     if sz = 0 then Ok m
     else
       let shadow_addr = RESERVED_BASE + start div 8; start_b_offset = start AND 7 in
       if start_b_offset \<noteq> 0 then if max sz 8 \<ge> 31 then Undef else Spin
       else
         let end_b_offset = start + sz; end_b_size = end_b_offset AND 7;
             eb = RESERVED_BASE + end_b_offset div 8; bits = drop_bit (8 - unat end_b_size) 0xFF;
             (m, sz) =
               (if end_b_size \<noteq> 0 then (m(eb := if valid then m eb OR bits else m eb AND NOT bits), sz - end_b_size)
                else (m, sz)) in
         Ok (if sz \<noteq> 0 then memset m shadow_addr (if valid then 0xFF else 0) (sz div 8) else m))"

definition memcheck_mark_valid :: "bytes \<Rightarrow> uintptr \<Rightarrow> uintptr \<Rightarrow> bytes res" where
  "memcheck_mark_valid m start sz = memcheck_mark m start sz True"

definition memcheck_mark_invalid :: "bytes \<Rightarrow> uintptr \<Rightarrow> uintptr \<Rightarrow> bytes res" where
  "memcheck_mark_invalid m start sz = memcheck_mark m start sz False"

section \<open>The hooks\<close>

text \<open>\<open>in_malloc\<close> is the field of a thread's data, none before \<open>memcheck_pre_thread_handler\<close> has run.\<close>

record memcheck_state =
  shadow_mem :: bytes
  allocs :: mambo_ht
  loader_base :: uintptr
  in_malloc :: "nat \<rightharpoonup> uintptr"

text \<open>What the hooks print.\<close>

datatype memcheck_msg = Invalid_Free uintptr | Double_Free uintptr

definition memcheck_alloc_hook :: "(uintptr \<Rightarrow> bool) \<Rightarrow> memcheck_state \<Rightarrow> uintptr \<Rightarrow> uintptr \<Rightarrow> memcheck_state res" where
  "memcheck_alloc_hook calloc_ok s start sz =
     res_bind (mambo_ht_add calloc_ok 0 0 (allocs s) start sz) (\<lambda>(ret, ht).
     res_bind (res_assert (ret = 0)) (\<lambda>_.
     res_bind (memcheck_mark_valid (shadow_mem s) start sz) (\<lambda>m. Ok (s\<lparr>allocs := ht, shadow_mem := m\<rparr>))))"

definition memcheck_free_hook :: "(uintptr \<Rightarrow> bool) \<Rightarrow> memcheck_state \<Rightarrow> uintptr \<Rightarrow> (memcheck_msg list \<times> memcheck_state) res" where
  "memcheck_free_hook calloc_ok s start =
     (if start = 0 then Ok ([], s)
      else
        res_bind (mambo_ht_get 0 0 (allocs s) start) (\<lambda>(ret, v).
        case v of
          None \<Rightarrow> Ok ([Invalid_Free start], s)
        | Some sz \<Rightarrow>
            if ret \<noteq> 0 then Ok ([Invalid_Free start], s)
            else if sz = MAGIC_FREED then Ok ([Double_Free start], s)
            else
              res_bind (mambo_ht_add calloc_ok 0 0 (allocs s) start MAGIC_FREED) (\<lambda>(ret, ht).
              res_bind (res_assert (ret = 0)) (\<lambda>_.
              res_bind (memcheck_mark_invalid (shadow_mem s) start sz) (\<lambda>m. Ok ([], s\<lparr>allocs := ht, shadow_mem := m\<rparr>))))))"

definition memcheck_malloc_usable_size :: "memcheck_state \<Rightarrow> uintptr \<Rightarrow> uintptr res" where
  "memcheck_malloc_usable_size s p =
     res_bind (mambo_ht_get 0 0 (allocs s) p) (\<lambda>(_, v). Ok (case v of None \<Rightarrow> 0 | Some sz \<Rightarrow> sz))"

text \<open>The stubs that the emitted calls run (\<open>memcheck.S\<close>); a thread without data is not instrumented.\<close>

definition add_in_malloc :: "memcheck_state \<Rightarrow> nat \<Rightarrow> uintptr \<Rightarrow> memcheck_state res" where
  "add_in_malloc s td n = (case in_malloc s td of None \<Rightarrow> Assert_Fail | Some k \<Rightarrow> Ok (s\<lparr>in_malloc := (in_malloc s)(td \<mapsto> k + n)\<rparr>))"

definition memcheck_malloc_pre :: "memcheck_state \<Rightarrow> nat \<Rightarrow> memcheck_state res" where
  "memcheck_malloc_pre s td = add_in_malloc s td 1"

definition memcheck_malloc_post :: "(uintptr \<Rightarrow> bool) \<Rightarrow> memcheck_state \<Rightarrow> nat \<Rightarrow> uintptr \<Rightarrow> uintptr \<Rightarrow> memcheck_state res" where
  "memcheck_malloc_post calloc_ok s td address sz =
     res_bind (add_in_malloc s td (-1)) (\<lambda>s. if address = 0 then Ok s else memcheck_alloc_hook calloc_ok s address sz)"

definition memcheck_free_pre :: "(uintptr \<Rightarrow> bool) \<Rightarrow> memcheck_state \<Rightarrow> nat \<Rightarrow> uintptr \<Rightarrow> (memcheck_msg list \<times> memcheck_state) res" where
  "memcheck_free_pre calloc_ok s td address = res_bind (add_in_malloc s td 1) (\<lambda>s. memcheck_free_hook calloc_ok s address)"

definition memcheck_free_post :: "memcheck_state \<Rightarrow> nat \<Rightarrow> memcheck_state res" where
  "memcheck_free_post s td = add_in_malloc s td (-1)"

definition MAP_INTERP :: int where "MAP_INTERP = 0x40000000"

text \<open>The data of the event's thread; an event of no thread, or before the thread's start, has none.\<close>

definition thread_in_malloc :: "memcheck_state \<Rightarrow> mambo_context \<Rightarrow> uintptr option" where
  "thread_in_malloc s ctx = Option.bind (ctx_thread ctx) (in_malloc s)"

definition memcheck_vm_op_handler :: "memcheck_state \<Rightarrow> mambo_context \<Rightarrow> memcheck_state res" where
  "memcheck_vm_op_handler s ctx =
     (if thread_in_malloc s ctx = None \<or> thread_in_malloc s ctx = Some 0 then
        res_bind (mambo_get_vm_op ctx) (\<lambda>op.
        res_bind (mambo_get_vm_addr ctx) (\<lambda>addr.
        res_bind (mambo_get_vm_size ctx) (\<lambda>sz.
        case op of
          VM_MAP \<Rightarrow>
            res_bind (memcheck_mark_valid (shadow_mem s) addr sz) (\<lambda>m.
            res_bind (mambo_get_vm_flags ctx) (\<lambda>flags.
            Ok (s\<lparr>shadow_mem := m, loader_base := if loader_base s = 0 \<and> flags AND MAP_INTERP \<noteq> 0 then addr else loader_base s\<rparr>)))
        | VM_UNMAP \<Rightarrow> res_bind (memcheck_mark_invalid (shadow_mem s) addr sz) (\<lambda>m. Ok (s\<lparr>shadow_mem := m\<rparr>))
        | VM_PROT \<Rightarrow> Ok s)))
      else Ok s)"

definition memcheck_pre_thread_handler :: "memcheck_state \<Rightarrow> nat \<Rightarrow> memcheck_state" where
  "memcheck_pre_thread_handler s td = s\<lparr>in_malloc := (in_malloc s)(td \<mapsto> 0)\<rparr>"

section \<open>Marking\<close>

text \<open>Whether the shadow memory has an application address marked as valid.\<close>

definition valid_at :: "bytes \<Rightarrow> uintptr \<Rightarrow> bool" where
  "valid_at m a \<longleftrightarrow> bit (m (RESERVED_BASE + a div 8)) (unat a mod 8)"

lemma low_bits: "a AND 7 = of_nat (unat a mod 8)" for a :: uintptr
proof -
  have "a AND 7 = take_bit 3 a" by (simp add: take_bit_eq_mask mask_eq_exp_minus_1)
  also have "\<dots> = of_nat (unat a mod 8)" by (simp add: word_unat_eq_iff unsigned_take_bit_eq take_bit_eq_mod unat_of_nat mod_mod_cancel unat_mod)
  finally show ?thesis .
qed

lemma unat_low_bits: "unat (a AND 7) = unat a mod 8" for a :: uintptr
  unfolding low_bits by (simp add: unat_of_nat64)

lemma low_bits_zero: "a AND 7 = 0 \<longleftrightarrow> unat a mod 8 = 0" for a :: uintptr
  by (metis unat_low_bits unat_0 unat_eq_zero)

lemma word_diff_less:
  fixes x y n :: uintptr
  assumes "unat y + unat n < 2 ^ 64"
  shows "x - y < n \<longleftrightarrow> unat y \<le> unat x \<and> unat x < unat y + unat n"
proof (cases "y \<le> x")
  case True
  then show ?thesis by (auto simp: word_less_nat_alt word_le_nat_alt unat_sub)
next
  case False
  then have "unat (x - y) = unat x + 2 ^ 64 - unat y" by (simp add: unat_sub_if_size size_word.rep_eq word_le_nat_alt)
  then show ?thesis using False assms by (auto simp: word_less_nat_alt word_le_nat_alt)
qed

lemma unat_div8: "unat (a div 8) = unat a div 8" for a :: uintptr
  by (simp add: unat_div)

lemma end_bits: "k \<le> 8 \<Longrightarrow> drop_bit (8 - k) (0xFF :: 8 word) = mask k"
proof -
  assume "k \<le> 8"
  then have "drop_bit (8 - k) (mask 8 :: 8 word) = mask k" by (auto intro!: bit_word_eqI simp: bit_simps)
  moreover have "(0xFF :: 8 word) = mask 8" by (simp add: mask_eq_exp_minus_1)
  ultimately show ?thesis by simp
qed

lemma range_word:
  fixes a start sz :: uintptr
  assumes "start + sz \<ge> start"
  shows "unat (start + sz) = unat start + unat sz"
  using assms by (rule iffD1 [OF unat_plus_simple])

lemma range8:
  fixes x s n k :: nat
  assumes "k < 8"
  shows "8 * s \<le> x \<and> x < 8 * s + (8 * n + k) \<longleftrightarrow> s \<le> x div 8 \<and> (x div 8 < s + n \<or> x div 8 = s + n \<and> x mod 8 < k)"
proof -
  obtain d r where "x = 8 * d + r" "r < 8" by (metis mult_div_mod_eq mod_less_divisor zero_less_numeral)
  then have x: "x = 8 * d + r" "r < 8" "x div 8 = d" "x mod 8 = r" by simp_all
  have "8 * s \<le> 8 * d + r \<longleftrightarrow> s \<le> d" "8 * d + r < 8 * s + (8 * n + k) \<longleftrightarrow> d < s + n \<or> d = s + n \<and> r < k"
    using x(2) assms by linarith+
  then show ?thesis unfolding x(3,4) by (simp only: x(1))
qed

text \<open>Marking a range from a multiple of eight on changes exactly the bits of the range.\<close>

lemma memcheck_mark_exact:
  assumes start: "start AND 7 = 0" and range: "start + sz \<ge> start" "start + sz < RESERVED_BASE"
  shows "\<exists>m'. memcheck_mark m start sz v = Ok m' \<and> (\<forall>a < RESERVED_BASE. valid_at m' a = (if start \<le> a \<and> a < start + sz then v else valid_at m a))"
proof (cases "sz = 0")
  case True
  then show ?thesis using range by (auto simp: memcheck_mark_def res_assert_def)
next
  case False
  let ?S = "unat start" and ?N = "unat sz" and ?E = "unat start + unat sz"
  have E: "unat (start + sz) = ?E" using range(1) by (rule range_word)
  have lt: "?E < 2 ^ 38" using range(2) by (simp add: word_less_nat_alt E RESERVED_BASE_def)
  have S: "?S mod 8 = 0" using start by (simp add: low_bits_zero)
  then have k: "?E mod 8 = ?N mod 8" by (metis add_0 mod_add_left_eq)
  let ?k = "?E mod 8" let ?eb = "RESERVED_BASE + (start + sz) div 8"
  let ?m1 = "if ?k \<noteq> 0 then m(?eb := if v then m ?eb OR mask ?k else m ?eb AND NOT (mask ?k)) else m"
  define kw where "kw = (start + sz) AND 7"
  define sz' where "sz' = (if ?k \<noteq> 0 then sz - kw else sz)"
  have kw: "unat kw = ?k" by (simp only: kw_def unat_low_bits E)
  then have "kw \<le> sz" using k by (simp add: word_le_nat_alt mod_less_eq_dividend)
  then have sz': "unat sz' = 8 * (?N div 8)" using k kw by (auto simp: sz'_def unat_sub minus_mod_eq_mult_div)
  let ?m = "if sz' \<noteq> 0 then memset ?m1 (RESERVED_BASE + start div 8) (if v then 0xFF else 0) (sz' div 8) else ?m1"
  have mark: "memcheck_mark m start sz v = Ok ?m"
  proof -
    have s: "start < RESERVED_BASE" using range by simp
    have nz: "kw \<noteq> 0 \<longleftrightarrow> ?k \<noteq> 0" using kw by (metis unat_0 unat_eq_zero)
    have "drop_bit (8 - unat kw) (0xFF :: 8 word) = mask ?k" unfolding kw by (rule end_bits) simp
    then show ?thesis using s range start False nz unfolding memcheck_mark_def res_assert_def Let_def kw_def [symmetric] sz'_def by simp
  qed
  moreover have "valid_at ?m a = (if start \<le> a \<and> a < start + sz then v else valid_at m a)" if a: "a < RESERVED_BASE" for a
  proof -
    have al: "unat a < 2 ^ 38" using a by (simp add: word_less_nat_alt RESERVED_BASE_def)
    have in_set: "RESERVED_BASE + a div 8 - (RESERVED_BASE + start div 8) < sz' div 8 \<longleftrightarrow> ?S div 8 \<le> unat a div 8 \<and> unat a div 8 < ?S div 8 + ?N div 8"
    proof -
      have "unat (start div 8) + unat (sz' div 8) < 2 ^ 64" using lt by (simp add: unat_div8 sz')
      from word_diff_less [OF this, of "a div 8"] show ?thesis by (simp add: unat_div8 sz')
    qed
    have eb: "RESERVED_BASE + a div 8 = ?eb \<longleftrightarrow> unat a div 8 = ?E div 8"
      unfolding add_left_cancel word_unat_eq_iff [of "a div 8"] unat_div8 E ..
    have rng: "start \<le> a \<and> a < start + sz \<longleftrightarrow> ?S \<le> unat a \<and> unat a < ?E" by (simp add: word_le_nat_alt word_less_nat_alt E)
    have bits: "bit (0xFF :: 8 word) (unat a mod 8)" "bit (mask ?k :: 8 word) (unat a mod 8) \<longleftrightarrow> unat a mod 8 < ?k"
    proof -
      have "bit (mask 8 :: 8 word) (unat a mod 8)" by (simp add: bit_mask_iff)
      then show "bit (0xFF :: 8 word) (unat a mod 8)" by (simp add: mask_eq_exp_minus_1)
    qed (simp add: bit_mask_iff)
    have z: "sz' = 0 \<longleftrightarrow> ?N div 8 = 0" using sz' by (metis mult_eq_0_iff unat_eq_zero zero_neq_numeral)
    have SN: "?S = 8 * (?S div 8)" "?N = 8 * (?N div 8) + ?N mod 8" using S by (metis add_0_right mult_div_mod_eq, simp)
    then have mid: "?E div 8 = ?S div 8 + ?N div 8" by (metis add.commute div_mult_self4 zero_neq_numeral)
    have ranges: "?S \<le> unat a \<and> unat a < ?E \<longleftrightarrow> ?S div 8 \<le> unat a div 8 \<and> (unat a div 8 < ?S div 8 + ?N div 8 \<or> unat a div 8 = ?E div 8 \<and> unat a mod 8 < ?k)"
      using range8 [of "?N mod 8" "?S div 8" "unat a" "?N div 8"] SN unfolding mid k by simp
    show ?thesis
    proof (cases "?S div 8 \<le> unat a div 8 \<and> unat a div 8 < ?S div 8 + ?N div 8")
      case True
      then show ?thesis using in_set bits(1) ranges rng z by (auto simp: valid_at_def memset_def)
    next
      case False
      then have ns: "\<not> RESERVED_BASE + a div 8 - (RESERVED_BASE + start div 8) < sz' div 8" using in_set by blast
      have "(if sz' \<noteq> 0 then memset m1 (RESERVED_BASE + start div 8) x (sz' div 8) else m1) (RESERVED_BASE + a div 8) = m1 (RESERVED_BASE + a div 8)" for m1 x
        unfolding memset_def using ns by (cases "sz' = 0") (simp_all only: if_False if_True simp_thms)
      then have "valid_at ?m a = valid_at ?m1 a" unfolding valid_at_def by (simp only:)
      also have "\<dots> = (if unat a div 8 = ?E div 8 \<and> unat a mod 8 < ?k then v else valid_at m a)"
        using eb bits(2) by (auto simp: valid_at_def bit_simps)
      finally show ?thesis using False ranges rng mid by auto
    qed
  qed
  ultimately show ?thesis by blast
qed

section \<open>The heap as the program sees it\<close>

text \<open>
  The abstract state: the allocated blocks with their sizes, the blocks freed and not allocated again, the memory mapped by the
  program itself, and how deep each thread is inside the allocator.
\<close>

record heap =
  held :: "uintptr \<rightharpoonup> uintptr"
  freed :: "uintptr set"
  mapped :: "uintptr set"
  depth :: "nat \<rightharpoonup> uintptr"

definition block :: "uintptr \<Rightarrow> uintptr \<Rightarrow> uintptr set" where
  "block p n = {a. p \<le> a \<and> a < p + n}"

definition fits :: "uintptr \<Rightarrow> uintptr \<Rightarrow> bool" where
  "fits p n \<longleftrightarrow> p AND 7 = 0 \<and> p \<le> p + n \<and> p + n < RESERVED_BASE"

definition held_bytes :: "heap \<Rightarrow> uintptr set" where
  "held_bytes h = {a. \<exists>p n. held h p = Some n \<and> a \<in> block p n}"

datatype heap_event =
    Malloc_Pre nat
  | Malloc_Post nat uintptr uintptr
  | Free_Pre nat uintptr
  | Free_Post nat
  | Vm_Op mambo_context
  | New_Thread nat

definition memcheck_event :: "(uintptr \<Rightarrow> bool) \<Rightarrow> heap_event \<Rightarrow> memcheck_state \<Rightarrow> (memcheck_msg list \<times> memcheck_state) res" where
  "memcheck_event calloc_ok e s =
     (case e of
        Malloc_Pre t \<Rightarrow> res_bind (memcheck_malloc_pre s t) (\<lambda>s. Ok ([], s))
      | Malloc_Post t p n \<Rightarrow> res_bind (memcheck_malloc_post calloc_ok s t p n) (\<lambda>s. Ok ([], s))
      | Free_Pre t p \<Rightarrow> memcheck_free_pre calloc_ok s t p
      | Free_Post t \<Rightarrow> res_bind (memcheck_free_post s t) (\<lambda>s. Ok ([], s))
      | Vm_Op ctx \<Rightarrow> res_bind (memcheck_vm_op_handler s ctx) (\<lambda>s. Ok ([], s))
      | New_Thread t \<Rightarrow> Ok ([], memcheck_pre_thread_handler s t))"

fun memcheck_run :: "(uintptr \<Rightarrow> bool) \<Rightarrow> heap_event list \<Rightarrow> memcheck_state \<Rightarrow> (memcheck_msg list \<times> memcheck_state) res" where
  "memcheck_run calloc_ok [] s = Ok ([], s)"
| "memcheck_run calloc_ok (e # evs) s =
     res_bind (memcheck_event calloc_ok e s) (\<lambda>(msgs, s).
     res_bind (memcheck_run calloc_ok evs s) (\<lambda>(msgs', s). Ok (msgs @ msgs', s)))"

definition bump :: "nat \<Rightarrow> uintptr \<Rightarrow> heap \<Rightarrow> heap" where
  "bump t n h = h\<lparr>depth := (depth h)(t := map_option (\<lambda>k. k + n) (depth h t))\<rparr>"

definition outside_malloc :: "heap \<Rightarrow> mambo_context \<Rightarrow> bool" where
  "outside_malloc h ctx \<longleftrightarrow> Option.bind (ctx_thread ctx) (depth h) \<in> {None, Some 0}"

definition heap_vm :: "mambo_context \<Rightarrow> heap \<Rightarrow> heap" where
  "heap_vm ctx h =
     (case ctx_u ctx of
        Vm_ctx v \<Rightarrow>
          if \<not> outside_malloc h ctx then h
          else (case vm_op v of
            VM_MAP \<Rightarrow> h\<lparr>mapped := mapped h \<union> block (vm_addr v) (vm_size v)\<rparr>
          | VM_UNMAP \<Rightarrow> h\<lparr>mapped := mapped h - block (vm_addr v) (vm_size v)\<rparr>
          | VM_PROT \<Rightarrow> h)
      | _ \<Rightarrow> h)"

definition heap_step :: "heap_event \<Rightarrow> heap \<Rightarrow> memcheck_msg list \<times> heap" where
  "heap_step e h =
     (case e of
        Malloc_Pre t \<Rightarrow> ([], bump t 1 h)
      | Malloc_Post t p n \<Rightarrow>
          let h = bump t (-1) h in ([], if p = 0 then h else h\<lparr>held := (held h)(p \<mapsto> n), freed := freed h - {p}\<rparr>)
      | Free_Pre t p \<Rightarrow>
          let h = bump t 1 h in
          if p = 0 then ([], h)
          else if p \<in> dom (held h) then ([], h\<lparr>held := (held h)(p := None), freed := insert p (freed h)\<rparr>)
          else ([if p \<in> freed h then Double_Free p else Invalid_Free p], h)
      | Free_Post t \<Rightarrow> ([], bump t (-1) h)
      | Vm_Op ctx \<Rightarrow> ([], heap_vm ctx h)
      | New_Thread t \<Rightarrow> ([], h\<lparr>depth := (depth h)(t \<mapsto> 0)\<rparr>))"

fun heap_run :: "heap_event list \<Rightarrow> heap \<Rightarrow> memcheck_msg list \<times> heap" where
  "heap_run [] h = ([], h)"
| "heap_run (e # evs) h = (let (msgs, h) = heap_step e h; (msgs', h) = heap_run evs h in (msgs @ msgs', h))"

text \<open>
  What the allocator and the kernel promise: a block returned by the allocator is aligned and overlaps neither another
  allocated block nor the program's own mappings, and the program does not map or unmap allocated blocks.
\<close>

definition allowed :: "heap_event \<Rightarrow> heap \<Rightarrow> bool" where
  "allowed e h =
     (case e of
        Malloc_Pre t \<Rightarrow> depth h t \<noteq> None
      | Malloc_Post t p n \<Rightarrow> depth h t \<noteq> None \<and>
          (p \<noteq> 0 \<longrightarrow> fits p n \<and> held h p = None \<and> block p n \<inter> (held_bytes h \<union> mapped h) = {})
      | Free_Pre t p \<Rightarrow> depth h t \<noteq> None
      | Free_Post t \<Rightarrow> depth h t \<noteq> None
      | Vm_Op ctx \<Rightarrow> event_type ctx = VM_OP_C \<and>
          (case ctx_u ctx of Vm_ctx v \<Rightarrow> fits (vm_addr v) (vm_size v) \<and> block (vm_addr v) (vm_size v) \<inter> held_bytes h = {} | _ \<Rightarrow> False)
      | New_Thread t \<Rightarrow> True)"

fun allowed_run :: "heap_event list \<Rightarrow> heap \<Rightarrow> bool" where
  "allowed_run [] h \<longleftrightarrow> True"
| "allowed_run (e # evs) h \<longleftrightarrow> allowed e h \<and> allowed_run evs (snd (heap_step e h))"

definition heap_ok :: "heap \<Rightarrow> bool" where
  "heap_ok h \<longleftrightarrow> (\<forall>p n. held h p = Some n \<longrightarrow> p \<noteq> 0 \<and> fits p n \<and> block p n \<inter> mapped h = {}) \<and>
     (\<forall>p q n k. held h p = Some n \<and> held h q = Some k \<and> p \<noteq> q \<longrightarrow> block p n \<inter> block q k = {}) \<and>
     freed h \<inter> dom (held h) = {} \<and> 0 \<notin> freed h"

definition alloc_entry :: "heap \<Rightarrow> uintptr \<Rightarrow> uintptr option" where
  "alloc_entry h p = (case held h p of Some n \<Rightarrow> Some n | None \<Rightarrow> if p \<in> freed h then Some MAGIC_FREED else None)"

definition tracks :: "memcheck_state \<Rightarrow> heap \<Rightarrow> bool" where
  "tracks s h \<longleftrightarrow> heap_ok h \<and> ht_ok (allocs s) \<and> allow_resize (allocs s) \<and> ht_view (allocs s) = alloc_entry h \<and>
     in_malloc s = depth h \<and> (\<forall>a < RESERVED_BASE. valid_at (shadow_mem s) a \<longleftrightarrow> a \<in> mapped h \<union> held_bytes h)"

lemma mark_tracks:
  assumes "fits p n"
  shows "\<exists>m'. memcheck_mark m p n v = Ok m' \<and> (\<forall>a < RESERVED_BASE. valid_at m' a = (if a \<in> block p n then v else valid_at m a))"
  using memcheck_mark_exact [of p n m v] assms by (simp add: fits_def block_def)

text \<open>Recording a block in the table.\<close>

lemma allocs_add:
  assumes c: "\<forall>n. calloc_ok n \<longrightarrow> unat n \<le> 2 ^ 57" and ht: "ht_ok ht" "allow_resize ht" and p: "p \<noteq> 0"
  shows "(\<exists>ht'. mambo_ht_add calloc_ok 0 0 ht p v = Ok (0, ht') \<and> ht_ok ht' \<and> allow_resize ht' \<and> ht_view ht' = (ht_view ht)(p \<mapsto> v)) \<or>
    (mambo_ht_add calloc_ok 0 0 ht p v = Assert_Fail \<and> (\<exists>n. \<not> calloc_ok n \<and> unat n \<le> 20 * (card (dom (ht_view ht)) + 1)))"
  using add_nolock_resizing [of calloc_ok, OF _ ht(1) p ht(2), of v] c by (auto simp: mambo_ht_add_def ht_count_view [OF ht(1)])

definition out_of_memory :: "(uintptr \<Rightarrow> bool) \<Rightarrow> heap \<Rightarrow> nat \<Rightarrow> bool" where
  "out_of_memory calloc_ok h k \<longleftrightarrow> (\<exists>n. \<not> calloc_ok n \<and> unat n \<le> 20 * (card (dom (held h) \<union> freed h) + k))"

lemma dom_alloc_entry: "dom (alloc_entry h) = dom (held h) \<union> freed h"
  by (auto simp: alloc_entry_def split: option.splits if_splits)

definition step_ok :: "(uintptr \<Rightarrow> bool) \<Rightarrow> (memcheck_msg list \<times> memcheck_state) res \<Rightarrow> memcheck_msg list \<times> heap \<Rightarrow> heap \<Rightarrow> nat \<Rightarrow> bool" where
  "step_ok calloc_ok r r' h k \<longleftrightarrow> (\<exists>s'. r = Ok (fst r', s') \<and> tracks s' (snd r')) \<or> (r = Assert_Fail \<and> out_of_memory calloc_ok h k)"

lemma add_in_malloc_tracks:
  assumes "tracks s h" "depth h t \<noteq> None"
  shows "\<exists>s'. add_in_malloc s t n = Ok s' \<and> tracks s' (bump t n h)"
  using assms by (auto simp: add_in_malloc_def tracks_def bump_def heap_ok_def held_bytes_def alloc_entry_def fun_eq_iff)

lemma bump_simps [simp]: "held (bump t n h) = held h" "freed (bump t n h) = freed h" "mapped (bump t n h) = mapped h" "held_bytes (bump t n h) = held_bytes h"
  by (simp_all add: bump_def held_bytes_def)

lemma heap_ok_add:
  assumes "heap_ok h" "p \<noteq> 0" "fits p n" "held h p = None" "block p n \<inter> (held_bytes h \<union> mapped h) = {}"
  shows "heap_ok (h\<lparr>held := (held h)(p \<mapsto> n), freed := freed h - {p}\<rparr>)"
    "held_bytes (h\<lparr>held := (held h)(p \<mapsto> n), freed := freed h - {p}\<rparr>) = held_bytes h \<union> block p n"
proof -
  show "held_bytes (h\<lparr>held := (held h)(p \<mapsto> n), freed := freed h - {p}\<rparr>) = held_bytes h \<union> block p n"
  proof (rule set_eqI)
    fix a
    have "(\<exists>q k. ((held h)(p \<mapsto> n)) q = Some k \<and> a \<in> block q k) \<longleftrightarrow> (\<exists>q k. held h q = Some k \<and> a \<in> block q k) \<or> a \<in> block p n"
      using assms(4) by (metis fun_upd_other fun_upd_same option.distinct(1) option.inject)
    then show "a \<in> held_bytes (h\<lparr>held := (held h)(p \<mapsto> n), freed := freed h - {p}\<rparr>) \<longleftrightarrow> a \<in> held_bytes h \<union> block p n"
      by (simp add: held_bytes_def)
  qed
  have "block p n \<inter> block q k = {}" "block q k \<inter> block p n = {}" if "held h q = Some k" for q k using assms(5) that by (auto simp: held_bytes_def)
  then show "heap_ok (h\<lparr>held := (held h)(p \<mapsto> n), freed := freed h - {p}\<rparr>)" using assms by (auto simp: heap_ok_def)
qed

lemma heap_ok_remove:
  assumes "heap_ok h" "held h p = Some n"
  shows "heap_ok (h\<lparr>held := (held h)(p := None), freed := insert p (freed h)\<rparr>)"
    "held_bytes (h\<lparr>held := (held h)(p := None), freed := insert p (freed h)\<rparr>) = held_bytes h - block p n"
proof -
  show "heap_ok (h\<lparr>held := (held h)(p := None), freed := insert p (freed h)\<rparr>)" using assms by (auto simp: heap_ok_def)
  have disj: "block q k \<inter> block p n = {}" if "held h q = Some k" "q \<noteq> p" for q k using assms that by (auto simp: heap_ok_def)
  show "held_bytes (h\<lparr>held := (held h)(p := None), freed := insert p (freed h)\<rparr>) = held_bytes h - block p n"
  proof (intro set_eqI)
    fix a
    have "(\<exists>q k. ((held h)(p := None)) q = Some k \<and> a \<in> block q k) \<longleftrightarrow> (\<exists>q k. held h q = Some k \<and> a \<in> block q k) \<and> a \<notin> block p n"
    proof -
      have "((held h)(p := None)) q = Some k \<longleftrightarrow> held h q = Some k \<and> q \<noteq> p" for q k by simp
      moreover have "a \<notin> block p n" if "held h q = Some k" "q \<noteq> p" "a \<in> block q k" for q k using disj [OF that(1,2)] that(3) by blast
      ultimately show ?thesis using assms(2) by (metis option.inject)
    qed
    then show "a \<in> held_bytes (h\<lparr>held := (held h)(p := None), freed := insert p (freed h)\<rparr>) \<longleftrightarrow> a \<in> held_bytes h - block p n"
      by (simp add: held_bytes_def)
  qed
qed


lemma alloc_hook_tracks:
  assumes c: "\<forall>n. calloc_ok n \<longrightarrow> unat n \<le> 2 ^ 57" and t: "tracks s h"
    and a: "p \<noteq> 0" "fits p n" "held h p = None" "block p n \<inter> (held_bytes h \<union> mapped h) = {}"
  shows "(\<exists>s'. memcheck_alloc_hook calloc_ok s p n = Ok s' \<and> tracks s' (h\<lparr>held := (held h)(p \<mapsto> n), freed := freed h - {p}\<rparr>)) \<or>
    memcheck_alloc_hook calloc_ok s p n = Assert_Fail \<and> out_of_memory calloc_ok h 1"
proof -
  let ?h = "h\<lparr>held := (held h)(p \<mapsto> n), freed := freed h - {p}\<rparr>"
  note t' = t [unfolded tracks_def]
  obtain m where m: "memcheck_mark (shadow_mem s) p n True = Ok m" "\<forall>a < RESERVED_BASE. valid_at m a = (if a \<in> block p n then True else valid_at (shadow_mem s) a)"
    using mark_tracks [OF a(2)] by blast
  note ok = heap_ok_add [OF conjunct1 [OF t'] a]
  have e: "(alloc_entry h)(p \<mapsto> n) = alloc_entry ?h" by (auto simp: alloc_entry_def fun_eq_iff)
  from allocs_add [OF c _ _ a(1), of "allocs s" n] t' consider
      (add) ht where "mambo_ht_add calloc_ok 0 0 (allocs s) p n = Ok (0, ht)" "ht_ok ht" "allow_resize ht" "ht_view ht = (alloc_entry h)(p \<mapsto> n)"
    | (oom) "mambo_ht_add calloc_ok 0 0 (allocs s) p n = Assert_Fail" "out_of_memory calloc_ok h 1"
    by (auto simp: out_of_memory_def dom_alloc_entry)
  then show ?thesis
  proof cases
    case add
    have "tracks (s\<lparr>allocs := ht, shadow_mem := m\<rparr>) ?h" using add t' ok m(2) e by (simp add: tracks_def)
    then show ?thesis using add(1) m(1) by (simp add: memcheck_alloc_hook_def memcheck_mark_valid_def res_assert_def)
  next
    case oom
    then show ?thesis by (simp add: memcheck_alloc_hook_def)
  qed
qed

lemma free_hook_tracks:
  assumes c: "\<forall>n. calloc_ok n \<longrightarrow> unat n \<le> 2 ^ 57" and t: "tracks s h"
  shows "step_ok calloc_ok (memcheck_free_hook calloc_ok s p)
    (if p = 0 then ([], h)
     else if p \<in> dom (held h) then ([], h\<lparr>held := (held h)(p := None), freed := insert p (freed h)\<rparr>)
     else ([if p \<in> freed h then Double_Free p else Invalid_Free p], h)) h 1"
proof (cases "p = 0")
  case True
  then show ?thesis using t by (simp add: step_ok_def memcheck_free_hook_def)
next
  case p: False
  note t' = t [unfolded tracks_def]
  have get: "mambo_ht_get 0 0 (allocs s) p = Ok (case alloc_entry h p of None \<Rightarrow> (-1, None) | Some v \<Rightarrow> (0, Some v))"
    using ht_get_view [of "allocs s" p] t' by (simp add: mambo_ht_get_def)
  show ?thesis
  proof (cases "held h p")
    case None
    then show ?thesis using t p get by (auto simp: step_ok_def memcheck_free_hook_def alloc_entry_def domIff)
  next
    case (Some n)
    let ?h = "h\<lparr>held := (held h)(p := None), freed := insert p (freed h)\<rparr>"
    have f: "fits p n" "block p n \<inter> mapped h = {}" using t' Some by (auto simp: heap_ok_def)
    have "unat (p + n) = unat p + unat n" "unat (p + n) < 2 ^ 38"
      using f(1) range_word [of p n] by (simp_all add: fits_def word_less_nat_alt RESERVED_BASE_def)
    then have "n \<noteq> MAGIC_FREED" by (auto simp: MAGIC_FREED_def)
    note ok = heap_ok_remove [OF conjunct1 [OF t'] Some]
    obtain m where m: "memcheck_mark (shadow_mem s) p n False = Ok m" "\<forall>a < RESERVED_BASE. valid_at m a = (if a \<in> block p n then False else valid_at (shadow_mem s) a)"
      using mark_tracks [OF f(1)] by blast
    have e: "(alloc_entry h)(p \<mapsto> MAGIC_FREED) = alloc_entry ?h" by (auto simp: alloc_entry_def fun_eq_iff)
    from allocs_add [OF c _ _ p, of "allocs s" MAGIC_FREED] t' consider
        (add) ht where "mambo_ht_add calloc_ok 0 0 (allocs s) p MAGIC_FREED = Ok (0, ht)" "ht_ok ht" "allow_resize ht" "ht_view ht = (alloc_entry h)(p \<mapsto> MAGIC_FREED)"
      | (oom) "mambo_ht_add calloc_ok 0 0 (allocs s) p MAGIC_FREED = Assert_Fail" "out_of_memory calloc_ok h 1"
      by (auto simp: out_of_memory_def dom_alloc_entry)
    then show ?thesis
    proof cases
      case add
      have "tracks (s\<lparr>allocs := ht, shadow_mem := m\<rparr>) ?h" using add t' ok m(2) e f(2) by (auto simp: tracks_def)
      then show ?thesis using add(1) m(1) p get Some \<open>n \<noteq> MAGIC_FREED\<close>
        by (simp add: step_ok_def memcheck_free_hook_def memcheck_mark_invalid_def res_assert_def alloc_entry_def domIff)
    next
      case oom
      then show ?thesis using p get Some \<open>n \<noteq> MAGIC_FREED\<close> by (simp add: step_ok_def memcheck_free_hook_def alloc_entry_def domIff)
    qed
  qed
qed

lemma vm_op_tracks:
  assumes t: "tracks s h" and v: "event_type ctx = VM_OP_C" "ctx_u ctx = Vm_ctx v" and f: "fits (vm_addr v) (vm_size v)"
    and d: "block (vm_addr v) (vm_size v) \<inter> held_bytes h = {}"
  shows "\<exists>s'. memcheck_vm_op_handler s ctx = Ok s' \<and> tracks s' (heap_vm ctx h)"
proof (cases "outside_malloc h ctx")
  case False
  then show ?thesis using t v by (auto simp: memcheck_vm_op_handler_def heap_vm_def outside_malloc_def thread_in_malloc_def tracks_def)
next
  case True
  let ?b = "block (vm_addr v) (vm_size v)"
  note t' = t [unfolded tracks_def]
  have o: "thread_in_malloc s ctx = None \<or> thread_in_malloc s ctx = Some 0" using True t' by (auto simp: outside_malloc_def thread_in_malloc_def)
  have acc: "mambo_get_vm_op ctx = Ok (vm_op v)" "mambo_get_vm_addr ctx = Ok (vm_addr v)" "mambo_get_vm_size ctx = Ok (vm_size v)" "mambo_get_vm_flags ctx = Ok (vm_flags v)"
    using v by (simp_all add: mambo_get_vm_op_def mambo_get_vm_addr_def mambo_get_vm_size_def mambo_get_vm_flags_def vm_event_def res_assert_def)
  have upd: "heap_ok (h\<lparr>mapped := mapped h \<union> ?b\<rparr>)" "heap_ok (h\<lparr>mapped := mapped h - ?b\<rparr>)"
    using t' d by (auto simp: heap_ok_def held_bytes_def)
  have same: "held_bytes (h\<lparr>mapped := M\<rparr>) = held_bytes h" "alloc_entry (h\<lparr>mapped := M\<rparr>) = alloc_entry h" for M by (simp_all add: held_bytes_def alloc_entry_def fun_eq_iff)
  obtain m where m: "memcheck_mark (shadow_mem s) (vm_addr v) (vm_size v) (vm_op v = VM_MAP) = Ok m"
      "\<forall>a < RESERVED_BASE. valid_at m a = (if a \<in> ?b then vm_op v = VM_MAP else valid_at (shadow_mem s) a)"
    using mark_tracks [OF f] by blast
  show ?thesis
  proof (cases "vm_op v")
    case VM_MAP
    then show ?thesis using t' o acc m upd same True v
      by (simp add: memcheck_vm_op_handler_def heap_vm_def memcheck_mark_valid_def tracks_def)
  next
    case VM_UNMAP
    have "valid_at m a \<longleftrightarrow> a \<in> mapped h - ?b \<union> held_bytes h" if "a < RESERVED_BASE" for a using m(2) that t' d VM_UNMAP by auto
    then show ?thesis using t' o acc m upd same True v VM_UNMAP
      by (simp add: memcheck_vm_op_handler_def heap_vm_def memcheck_mark_invalid_def tracks_def)
  next
    case VM_PROT
    then show ?thesis using t o acc True v by (simp add: memcheck_vm_op_handler_def heap_vm_def)
  qed
qed

lemma out_of_memory_bump: "out_of_memory calloc_ok (bump t n h) k = out_of_memory calloc_ok h k"
  by (simp add: out_of_memory_def)

lemma memcheck_event_tracks:
  assumes c: "\<forall>n. calloc_ok n \<longrightarrow> unat n \<le> 2 ^ 57" and t: "tracks s h" and a: "allowed e h"
  shows "step_ok calloc_ok (memcheck_event calloc_ok e s) (heap_step e h) h 1"
proof (cases e)
  case (Malloc_Pre td)
  then show ?thesis using add_in_malloc_tracks [OF t, of td 1] a
    by (auto simp: step_ok_def memcheck_event_def heap_step_def allowed_def memcheck_malloc_pre_def)
next
  case (Malloc_Post td p n)
  obtain s1 where s1: "add_in_malloc s td (-1) = Ok s1" "tracks s1 (bump td (-1) h)"
    using add_in_malloc_tracks [OF t, of td "-1"] a Malloc_Post by (auto simp: allowed_def)
  show ?thesis
  proof (cases "p = 0")
    case True
    then show ?thesis using s1 Malloc_Post by (simp add: step_ok_def memcheck_event_def heap_step_def memcheck_malloc_post_def)
  next
    case False
    have "fits p n" "held (bump td (-1) h) p = None" "block p n \<inter> (held_bytes (bump td (-1) h) \<union> mapped (bump td (-1) h)) = {}"
      using a Malloc_Post False by (simp_all add: allowed_def)
    from alloc_hook_tracks [OF c s1(2) False this] show ?thesis
      using s1(1) Malloc_Post False
      by (auto simp: step_ok_def memcheck_event_def heap_step_def memcheck_malloc_post_def out_of_memory_bump Let_def simp del: bump_simps(4))
  qed
next
  case (Free_Pre td p)
  obtain s1 where s1: "add_in_malloc s td 1 = Ok s1" "tracks s1 (bump td 1 h)"
    using add_in_malloc_tracks [OF t, of td 1] a Free_Pre by (auto simp: allowed_def)
  then show ?thesis using free_hook_tracks [OF c s1(2), of p] Free_Pre
    by (simp add: step_ok_def memcheck_event_def heap_step_def memcheck_free_pre_def out_of_memory_bump Let_def)
next
  case (Free_Post td)
  then show ?thesis using add_in_malloc_tracks [OF t, of td "-1"] a
    by (auto simp: step_ok_def memcheck_event_def heap_step_def allowed_def memcheck_free_post_def)
next
  case (Vm_Op ctx)
  then obtain v where "event_type ctx = VM_OP_C" "ctx_u ctx = Vm_ctx v" "fits (vm_addr v) (vm_size v)" "block (vm_addr v) (vm_size v) \<inter> held_bytes h = {}"
    using a by (auto simp: allowed_def split: ctx_union.splits)
  then show ?thesis using vm_op_tracks [OF t, of ctx v] Vm_Op by (auto simp: step_ok_def memcheck_event_def heap_step_def)
next
  case (New_Thread td)
  have "tracks (memcheck_pre_thread_handler s td) (h\<lparr>depth := (depth h)(td \<mapsto> 0)\<rparr>)"
    using t by (simp add: tracks_def memcheck_pre_thread_handler_def heap_ok_def held_bytes_def alloc_entry_def fun_eq_iff)
  then show ?thesis using New_Thread by (simp add: step_ok_def memcheck_event_def heap_step_def)
qed

lemma step_blocks:
  assumes "finite (dom (held h) \<union> freed h)"
  shows "card (dom (held (snd (heap_step e h))) \<union> freed (snd (heap_step e h))) \<le> Suc (card (dom (held h) \<union> freed h))"
proof -
  have "\<exists>p. dom (held (snd (heap_step e h))) \<union> freed (snd (heap_step e h)) \<subseteq> insert p (dom (held h) \<union> freed h)"
    by (cases e) (auto simp: heap_step_def heap_vm_def Let_def bump_def split: ctx_union.splits vm_op_t.splits)
  then obtain p where "dom (held (snd (heap_step e h))) \<union> freed (snd (heap_step e h)) \<subseteq> insert p (dom (held h) \<union> freed h)" by blast
  then have "card (dom (held (snd (heap_step e h))) \<union> freed (snd (heap_step e h))) \<le> card (insert p (dom (held h) \<union> freed h))"
    using assms by (intro card_mono) auto
  then show ?thesis using assms by (simp add: card_insert_if split: if_splits)
qed

lemma tracks_finite: "tracks s h \<Longrightarrow> finite (dom (held h) \<union> freed h)"
proof -
  assume "tracks s h"
  moreover have "finite (dom (ht_view (allocs s)))" unfolding ht_view_def by (rule finite_dom_map_of)
  ultimately show ?thesis using dom_alloc_entry [of h] by (simp only: tracks_def)
qed

lemma out_of_memory_mono:
  assumes "out_of_memory calloc_ok h' k'" "card (dom (held h') \<union> freed h') + k' \<le> card (dom (held h) \<union> freed h) + k"
  shows "out_of_memory calloc_ok h k"
proof -
  obtain n where n: "\<not> calloc_ok n" "unat n \<le> 20 * (card (dom (held h') \<union> freed h') + k')" using assms(1) by (auto simp: out_of_memory_def)
  have "unat n \<le> 20 * (card (dom (held h) \<union> freed h) + k)" by (rule order_trans [OF n(2) mult_le_mono2 [OF assms(2)]])
  then show ?thesis using n(1) unfolding out_of_memory_def by blast
qed

lemma memcheck_run_tracks:
  assumes c: "\<forall>n. calloc_ok n \<longrightarrow> unat n \<le> 2 ^ 57"
  shows "tracks s h \<Longrightarrow> allowed_run evs h \<Longrightarrow> step_ok calloc_ok (memcheck_run calloc_ok evs s) (heap_run evs h) h (length evs)"
proof (induction evs arbitrary: s h)
  case Nil
  then show ?case by (simp add: step_ok_def)
next
  case (Cons e evs)
  have step: "step_ok calloc_ok (memcheck_event calloc_ok e s) (heap_step e h) h 1"
    using Cons.prems by (intro memcheck_event_tracks [OF c]) simp_all
  obtain ms h' where h': "heap_step e h = (ms, h')" by fastforce
  obtain ms' h'' where h'': "heap_run evs h' = (ms', h'')" by fastforce
  from step consider (ok) s' where "memcheck_event calloc_ok e s = Ok (ms, s')" "tracks s' h'"
    | (oom) "memcheck_event calloc_ok e s = Assert_Fail" "out_of_memory calloc_ok h 1"
    by (auto simp: step_ok_def h')
  then show ?case
  proof cases
    case oom
    then have "out_of_memory calloc_ok h (length (e # evs))" by (elim out_of_memory_mono) simp
    then show ?thesis using oom(1) by (simp add: step_ok_def)
  next
    case ok
    have "step_ok calloc_ok (memcheck_run calloc_ok evs s') (ms', h'') h' (length evs)"
      using Cons.IH [OF ok(2)] Cons.prems(2) h' h'' by simp
    moreover have "out_of_memory calloc_ok h (length (e # evs))" if "out_of_memory calloc_ok h' (length evs)"
      using that step_blocks [OF tracks_finite [OF Cons.prems(1)], of e] h' by (elim out_of_memory_mono) simp
    ultimately show ?thesis using ok(1) h' h'' by (auto simp: step_ok_def)
  qed
qed

section \<open>Correctness of the hooks\<close>

text \<open>C7: The memory checker keeps an exact picture of the heap. For every sequence of allocator calls, frees, mappings and thread
  starts in which the allocator hands out aligned blocks that overlap no allocated block and no mapping, a byte is marked valid
  exactly when the program mapped it or it belongs to an allocated block, a double free is reported exactly for a block that was
  freed and not allocated again, and an invalid free exactly for an address that was never allocated. The only other outcome is
  the assertion after a failed allocation of a table of at most twenty times the number of blocks.
\<close>

theorem memcheck_tracks_heap:
  assumes "\<forall>n. calloc_ok n \<longrightarrow> unat n \<le> 2 ^ 57" "tracks s h" "allowed_run evs h"
  shows "(\<exists>s'. memcheck_run calloc_ok evs s = Ok (fst (heap_run evs h), s') \<and> tracks s' (snd (heap_run evs h))) \<or>
    (memcheck_run calloc_ok evs s = Assert_Fail \<and>
      (\<exists>n. \<not> calloc_ok n \<and> unat n \<le> 20 * (card (dom (held h) \<union> freed h) + length evs)))"
  using memcheck_run_tracks [OF assms] by (simp add: step_ok_def out_of_memory_def)

text \<open>A block is allocated, freed twice, and an address freed that was never allocated.\<close>

definition witness_memcheck :: memcheck_state where
  "witness_memcheck = \<lparr>shadow_mem = \<lambda>_. 0, allocs = small_ht\<lparr>entry_count := 0, mht_entries := replicate 2 zero_entry\<rparr>,
     loader_base = 0, in_malloc = Map.empty\<rparr>"

definition witness_heap :: heap where
  "witness_heap = \<lparr>held = Map.empty, freed = {}, mapped = {}, depth = Map.empty\<rparr>"

definition witness_events :: "heap_event list" where
  "witness_events = [New_Thread 0, Malloc_Pre 0, Malloc_Post 0 0x1000 24, Free_Pre 0 0x1000, Free_Post 0, Free_Pre 0 0x1000, Free_Post 0, Free_Pre 0 0x2000]"

lemma witness_memcheck_tracks: "tracks witness_memcheck witness_heap"
  using small_ht_empty
  by (auto simp: tracks_def witness_memcheck_def witness_heap_def heap_ok_def held_bytes_def alloc_entry_def valid_at_def small_ht_def fun_eq_iff)

theorem memcheck_tracks_heap_witness:
  "\<exists>s'. memcheck_run (\<lambda>n. n \<le> 1000) witness_events witness_memcheck = Ok ([Double_Free 0x1000, Invalid_Free 0x2000], s')"
proof -
  have c: "\<forall>n :: uintptr. n \<le> 1000 \<longrightarrow> unat n \<le> 2 ^ 57" by (auto simp: word_le_nat_alt)
  have "allowed_run witness_events witness_heap"
    by (simp add: witness_events_def witness_heap_def allowed_def heap_step_def Let_def bump_def fits_def RESERVED_BASE_def held_bytes_def)
  moreover have "fst (heap_run witness_events witness_heap) = [Double_Free 0x1000, Invalid_Free 0x2000]"
    by (simp add: witness_events_def witness_heap_def heap_step_def Let_def bump_def)
  moreover have "n \<le> 1000" if "unat n \<le> 20 * (card (dom (held witness_heap) \<union> freed witness_heap) + length witness_events)" for n :: uintptr
    using that by (simp add: witness_events_def witness_heap_def word_le_nat_alt)
  ultimately show ?thesis using memcheck_tracks_heap [OF c witness_memcheck_tracks, of witness_events] by auto
qed

end
