(* ===== verification/Memcheck_Access.thy ===== *)
theory Memcheck_Access
  imports Memcheck
begin

text \<open>
  The instrumentation that the memory checker emits (\<open>plugins/memcheck/memcheck.c\<close>, the AArch64 build with the compact shadow
  memory): the check before every load and store, executed as machine code, and the calls around the allocator's functions.
\<close>

section \<open>Emitting the instrumentation\<close>

definition x3 :: "5 word" where "x3 = 3"
definition x19 :: "5 word" where "x19 = 19"

text \<open>The address of the thread's \<open>in_malloc\<close> counter; a thread without data fails the assertion.\<close>

definition set_in_malloc_ptr :: "uintptr option \<Rightarrow> emit_ctx \<Rightarrow> 5 word \<Rightarrow> emit_ctx res" where
  "set_in_malloc_ptr td e reg = (case td of None \<Rightarrow> Assert_Fail | Some in_malloc_addr \<Rightarrow> Ok (emit_set_reg e reg in_malloc_addr))"

definition memcheck_inst_aarch64 :: "emit_ctx \<Rightarrow> int \<Rightarrow> emit_ctx" where
  "memcheck_inst_aarch64 e sz =
     (let e = emit_a64 (a64_logical_immed 1 0 1 0 2 x0 x1) e;
          e = emit_a64 (a64_logical_immed 1 0 1 0 37 x0 x2) e;
          e = emit_a64 (a64_BFM 1 2 1 3 0x3F x2 x2) e;
          e = emit_a64 (a64_logical_immed 1 1 1 26 0 x2 x2) e;
          e = emit_a64 (a64_logical_immed 1 1 1 0 (word_of_int (sz - 1)) 0x1F x3) e;
          e = emit_a64 (a64_data_proc_reg2 1 x1 0x8 x3 x3) e;
          e = emit_a64 (a64_LDR_STR_unsigned_immed 3 0 1 0 x2 x1) e;
          e = emit_a64 (a64_logical_reg 1 0 0 0 x3 0 x1 x1) e
      in emit_a64 (a64_logical_reg 1 2 0 0 x3 0 x1 x1) e)"

text \<open>Store exclusives are not instrumented.\<close>

definition memcheck_should_ignore :: "a64_instruction \<Rightarrow> u32 \<Rightarrow> bool" where
  "memcheck_should_ignore inst w =
     (inst = A64_LDX_STX \<and>
      (let f = a64_LDX_STX_decode_fields w in ldx_o2 f = 0 \<and> ldx_l f = 0 \<and> ldx_o1 f = 0))"

text \<open>The part of \<open>memcheck_pre_inst_handler\<close> that tests the access, between the conditional branches around it.\<close>

definition memcheck_test :: "(uintptr \<Rightarrow> u32) \<Rightarrow> uintptr option \<Rightarrow> uintptr \<Rightarrow> emit_ctx \<Rightarrow> emit_ctx res" where
  "memcheck_test guest td memcheck_unalloc e =
     (let inst = nat (ctx_inst (fst e)); w = guest (mambo_get_source_addr (fst e)) in
      res_bind (mambo_get_ld_st_size inst w) (\<lambda>access_size.
      let is_store = mambo_is_store inst w in
      res_bind (emit_push e (reg_bit 0 OR reg_bit 1 OR reg_bit 2 OR reg_bit 3)) (\<lambda>e.
      res_bind (mambo_calc_ld_st_addr guest e 0) (\<lambda>(_, e).
      let e = memcheck_inst_aarch64 e (min access_size 56);
          (ret, c, zbr) = mambo_reserve_branch_cbz (fst e) \<lparr>loc = 0\<rparr> in
      if ret \<noteq> 0 then Undef
      else
        res_bind (emit_push (c, snd e) (reg_bit 4 OR reg_bit (ucast lr))) (\<lambda>e.
        let e = emit_set_reg e 1 (word_of_int access_size OR (if is_store then IS_STORE else 0));
            e = emit_set_reg e 2 (mambo_get_source_addr (fst e)) in
        res_bind (set_in_malloc_ptr td e 3) (\<lambda>e.
        res_bind (emit_fcall e memcheck_unalloc) (\<lambda>e.
        res_bind (emit_pop e (reg_bit 4 OR reg_bit (ucast lr))) (\<lambda>e.
        let (_, e) = emit_local_branch_cbz e zbr 1 in
        emit_pop e (reg_bit 0 OR reg_bit 1 OR reg_bit 2 OR reg_bit 3)))))))))"

definition memcheck_pre_inst_handler :: "(uintptr \<Rightarrow> u32) \<Rightarrow> uintptr option \<Rightarrow> uintptr \<Rightarrow> emit_ctx \<Rightarrow> emit_ctx res" where
  "memcheck_pre_inst_handler guest td memcheck_unalloc e =
     (let inst = nat (ctx_inst (fst e)); w = guest (mambo_get_source_addr (fst e)); cond = mambo_get_cond (fst e) in
      if \<not> mambo_is_load_or_store inst w \<or> memcheck_should_ignore inst w then Ok e
      else if cond = AL then memcheck_test guest td memcheck_unalloc e
      else
        let (ret, c, cond_br) = mambo_reserve_branch (fst e) \<lparr>loc = 0\<rparr> in
        res_bind (res_assert (ret = 0)) (\<lambda>_.
        res_bind (memcheck_test guest td memcheck_unalloc (c, snd e)) (\<lambda>e.
        res_bind (emit_local_branch_cond e cond_br (invert_cond cond)) (\<lambda>(ret, e).
        res_bind (res_assert (ret = 0)) (\<lambda>_. Ok e)))))"

section \<open>Around the allocator's functions\<close>

definition sr1 :: "5 word" where "sr1 = es + 1"
definition sr2 :: "5 word" where "sr2 = es + 2"

abbreviation sr_mask :: u32 where "sr_mask \<equiv> reg_bit (ucast sr1) OR reg_bit (ucast sr2)"

text \<open>The arguments \<open>pre\<close> and \<open>post\<close> are the addresses of the assembly stubs that are called.\<close>

definition memcheck_inst_alloc_reg :: "uintptr option \<Rightarrow> uintptr \<Rightarrow> emit_ctx \<Rightarrow> int \<Rightarrow> emit_ctx res" where
  "memcheck_inst_alloc_reg td pre e reg =
     res_bind (set_in_malloc_ptr td (emit_mov e (uint es) reg) (es - 1)) (\<lambda>e. emit_fcall e pre)"

definition memcheck_inst_alloc0 :: "uintptr option \<Rightarrow> uintptr \<Rightarrow> emit_ctx \<Rightarrow> emit_ctx res" where
  "memcheck_inst_alloc0 td pre e = memcheck_inst_alloc_reg td pre e 0"

definition memcheck_inst_alloc1 :: "uintptr option \<Rightarrow> uintptr \<Rightarrow> emit_ctx \<Rightarrow> emit_ctx res" where
  "memcheck_inst_alloc1 td pre e = memcheck_inst_alloc_reg td pre e 1"

definition memcheck_inst_alloc_post :: "uintptr option \<Rightarrow> uintptr \<Rightarrow> emit_ctx \<Rightarrow> emit_ctx res" where
  "memcheck_inst_alloc_post td post e = res_bind (set_in_malloc_ptr td e (es - 1)) (\<lambda>e. emit_fcall e post)"

definition memcheck_inst_posix_memalign :: "uintptr option \<Rightarrow> uintptr \<Rightarrow> emit_ctx \<Rightarrow> emit_ctx res" where
  "memcheck_inst_posix_memalign td pre e =
     res_bind (emit_push e sr_mask) (\<lambda>e.
     let e = emit_mov e (uint es) 2; e = emit_mov e (uint sr1) 0 in
     res_bind (set_in_malloc_ptr td e (es - 1)) (\<lambda>e. emit_fcall e pre))"

definition memcheck_inst_posix_memalign_post :: "uintptr option \<Rightarrow> uintptr \<Rightarrow> emit_ctx \<Rightarrow> emit_ctx res" where
  "memcheck_inst_posix_memalign_post td post e =
     (let e = emit_mov e (uint sr2) 0;
          e = emit_a64 (a64_LDR_STR_unsigned_immed 3 0 1 0 sr1 0) e in
      res_bind (set_in_malloc_ptr td e (es - 1)) (\<lambda>e.
      res_bind (emit_fcall e post) (\<lambda>e.
      emit_pop (emit_mov e 0 (uint sr2)) sr_mask)))"

definition memcheck_inst_calloc :: "uintptr option \<Rightarrow> uintptr \<Rightarrow> emit_ctx \<Rightarrow> emit_ctx res" where
  "memcheck_inst_calloc td pre e =
     res_bind (set_in_malloc_ptr td (emit_a64 (a64_data_proc_reg3 1 0 x0 0 0x1F x1 x19) e) (es - 1)) (\<lambda>e. emit_fcall e pre)"

definition memcheck_inst_realloc :: "uintptr option \<Rightarrow> uintptr \<Rightarrow> emit_ctx \<Rightarrow> emit_ctx res" where
  "memcheck_inst_realloc td free_pre e =
     res_bind (set_in_malloc_ptr td (emit_mov e (uint es) 1) (es - 1)) (\<lambda>e. emit_fcall e free_pre)"

definition memcheck_inst_free :: "uintptr option \<Rightarrow> uintptr \<Rightarrow> emit_ctx \<Rightarrow> emit_ctx res" where
  "memcheck_inst_free td free_pre e = res_bind (set_in_malloc_ptr td e (es - 1)) (\<lambda>e. emit_fcall e free_pre)"

definition memcheck_inst_free_post :: "uintptr option \<Rightarrow> uintptr \<Rightarrow> emit_ctx \<Rightarrow> emit_ctx res" where
  "memcheck_inst_free_post td free_post e = res_bind (set_in_malloc_ptr td e (es - 1)) (\<lambda>e. emit_fcall e free_post)"

definition memcheck_inst_ignored_fn :: "uintptr option \<Rightarrow> uintptr \<Rightarrow> emit_ctx \<Rightarrow> emit_ctx res" where
  "memcheck_inst_ignored_fn td pre e = res_bind (set_in_malloc_ptr td e (es - 1)) (\<lambda>e. emit_fcall e pre)"

definition memcheck_inst_ignored_fn_post :: "uintptr option \<Rightarrow> uintptr \<Rightarrow> emit_ctx \<Rightarrow> emit_ctx res" where
  "memcheck_inst_ignored_fn_post td free_post e = res_bind (set_in_malloc_ptr td e (es - 1)) (\<lambda>e. emit_fcall e free_post)"

section \<open>The check as machine code\<close>

text \<open>The bytes of the machine's memory, and the address whose shadow bits stand for an address.\<close>

definition bytes_of :: "(uintptr \<Rightarrow> uintptr) \<Rightarrow> bytes" where
  "bytes_of m a = ucast (drop_bit (8 * unat (a AND 7)) (m (a AND NOT 7)))"

definition shadowed :: "uintptr \<Rightarrow> uintptr" where
  "shadowed a = a AND (RESERVED_BASE - 1)"

definition check_seq :: "int \<Rightarrow> a64_inst list" where
  "check_seq sz =
     [a64_logical_immed 1 0 1 0 2 x0 x1, a64_logical_immed 1 0 1 0 37 x0 x2, a64_BFM 1 2 1 3 0x3F x2 x2,
      a64_logical_immed 1 1 1 26 0 x2 x2, a64_logical_immed 1 1 1 0 (word_of_int (sz - 1)) 0x1F x3, a64_data_proc_reg2 1 x1 0x8 x3 x3,
      a64_LDR_STR_unsigned_immed 3 0 1 0 x2 x1, a64_logical_reg 1 0 0 0 x3 0 x1 x1, a64_logical_reg 1 2 0 0 x3 0 x1 x1]"

lemma memcheck_inst_emits: "memcheck_inst_aarch64 e sz = with_write_p (emit_seq (check_seq sz)) e"
  by (simp add: memcheck_inst_aarch64_def check_seq_def emit_then)

definition load64 :: "(uintptr \<Rightarrow> uintptr) \<Rightarrow> uintptr \<Rightarrow> uintptr" where
  "load64 m a = (if aligned_to 8 a then m a else unaligned_load m a)"

definition shadow_word :: "uintptr \<Rightarrow> uintptr" where
  "shadow_word a = drop_bit 3 (shadowed a) OR RESERVED_BASE"

definition access_mask :: "uintptr \<Rightarrow> int \<Rightarrow> uintptr" where
  "access_mask a sz = push_bit (unat (a AND 7) mod 64) (mask (nat sz))"

lemma regs_x: "x0 = 0" "x1 = 1" "x2 = 2" "x3 = 3" by (simp_all add: x0_def x1_def x2_def x3_def)

lemma imm6: "0 \<le> k \<Longrightarrow> k < 64 \<Longrightarrow> unat (word_of_int k :: 6 word) = nat k"
  unfolding unat_eq_nat_uint uint_word_of_int by (simp add: take_bit_int_eq_self)

lemma word_rotr_none: "word_rotr 0 w = w"
  by (intro bit_word_eqI) (simp add: bit_word_rotr_iff)

lemma exec_mask_imm:
  assumes "0 < sz" "sz \<le> 56"
  shows "a64_exec (a64_logical_immed 1 1 1 0 (word_of_int (sz - 1)) 0x1F x3) s = Some (next_pc (set_xreg x3 (mask (nat sz)) s))"
proof -
  define imm where "imm = (word_of_int (sz - 1) :: 6 word)"
  have u: "unat imm = nat (sz - 1)" using assms unfolding imm_def by (intro imm6) simp_all
  moreover have "imm \<noteq> 63" using u assms by auto
  moreover have "Suc (nat (sz - 1)) = nat sz" using assms by simp
  ultimately show ?thesis unfolding imm_def [symmetric] by (simp add: a64_exec.simps xreg_def regs_x set_xreg_def set_xreg_sp_def word_rotr_none)
qed

lemma exec_load64: "a64_exec (a64_LDR_STR_unsigned_immed 3 0 1 0 x2 x1) s = Some (next_pc (set_xreg x1 (load64 (mem s) (xreg s x2)) s))"
  by (simp add: a64_exec.simps Let_def regs_x base_ok_def xreg_sp_def xreg_def load64_def load_store_def)

lemma exec_alias:
  "a64_exec (a64_logical_immed 1 0 1 0 2 x0 x1) s = Some (next_pc (set_xreg x1 (xreg s x0 AND 7) s))"
  "a64_exec (a64_logical_immed 1 0 1 0 37 x0 x2) s = Some (next_pc (set_xreg x2 (shadowed (xreg s x0)) s))"
  "a64_exec (a64_logical_immed 1 1 1 26 0 x2 x2) s = Some (next_pc (set_xreg x2 (xreg s x2 OR RESERVED_BASE) s))"
proof -
  have "word_rotr 26 (mask 1) = RESERVED_BASE" by code_simp
  moreover have "mask 38 = RESERVED_BASE - 1" "mask 3 = (7 :: uintptr)" by (simp_all add: RESERVED_BASE_def mask_eq_exp_minus_1)
  ultimately show "a64_exec (a64_logical_immed 1 0 1 0 2 x0 x1) s = Some (next_pc (set_xreg x1 (xreg s x0 AND 7) s))"
    "a64_exec (a64_logical_immed 1 0 1 0 37 x0 x2) s = Some (next_pc (set_xreg x2 (shadowed (xreg s x0)) s))"
    "a64_exec (a64_logical_immed 1 1 1 26 0 x2 x2) s = Some (next_pc (set_xreg x2 (xreg s x2 OR RESERVED_BASE) s))"
    by (simp_all add: a64_exec.simps regs_x set_xreg_def set_xreg_sp_def shadowed_def word_rotr_none)
qed

lemma exec_lsr3: "a64_exec (a64_BFM 1 2 1 3 0x3F x2 x2) s = Some (next_pc (set_xreg x2 (drop_bit 3 (xreg s x2)) s))"
proof -
  have "take_bit (Suc (63 - 3)) (drop_bit 3 v) = drop_bit 3 v" for v :: uintptr
    by (intro bit_word_eqI) (auto simp: bit_simps dest: bit_imp_le_length)
  then show ?thesis by (simp add: a64_exec.simps regs_x)
qed

lemma exec_rest:
  "a64_exec (a64_data_proc_reg2 1 x1 0x8 x3 x3) s = Some (next_pc (set_xreg x3 (push_bit (unat (xreg s x1) mod 64) (xreg s x3)) s))"
  "a64_exec (a64_logical_reg 1 0 0 0 x3 0 x1 x1) s = Some (next_pc (set_xreg x1 (xreg s x1 AND xreg s x3) s))"
  "a64_exec (a64_logical_reg 1 2 0 0 x3 0 x1 x1) s = Some (next_pc (set_xreg x1 (xreg s x1 XOR xreg s x3) s))"
  by (simp_all add: a64_exec.simps shifted_def)

lemma run_check:
  assumes "0 < sz" "sz \<le> 56"
  shows "run_seq (check_seq sz) s = Some (s\<lparr>xregs := (xregs s)(1 := (load64 (mem s) (shadow_word (xregs s 0)) AND access_mask (xregs s 0) sz) XOR access_mask (xregs s 0) sz,
      2 := shadow_word (xregs s 0), 3 := access_mask (xregs s 0) sz), pc_reg := slot (pc_reg s) 9\<rparr>)"
proof -
  define imm where "imm = (word_of_int (sz - 1) :: 6 word)"
  note ex = exec_alias [unfolded regs_x] exec_lsr3 [unfolded regs_x] exec_mask_imm [OF assms, folded imm_def, unfolded regs_x]
    exec_rest [unfolded regs_x] exec_load64 [unfolded regs_x]
  have "slot (pc_reg s) 9 = pc_reg s + 36" by (simp add: slot_def)
  moreover have "(xregs s)(2 := d, 3 := f, Suc 0 := i) = (xregs s)(Suc 0 := i, 2 := d, 3 := f)" for d f i by (simp add: fun_eq_iff)
  ultimately show ?thesis
    unfolding check_seq_def imm_def [symmetric] by (simp add: ex regs_x set_xreg_def xreg_def next_pc_def access_mask_def shadow_word_def)
qed

section \<open>What the check computes\<close>

lemma seven: "bit (7 :: int) n \<longleftrightarrow> n < 3" "bit (-8 :: int) n \<longleftrightarrow> 3 \<le> n"
proof -
  have "bit (mask 3 :: int) n \<longleftrightarrow> n < 3" by (auto simp: bit_mask_iff)
  then show 7: "bit (7 :: int) n \<longleftrightarrow> n < 3" by (simp add: mask_eq_exp_minus_1)
  have "(-8 :: int) = NOT 7" by simp
  then show "bit (-8 :: int) n \<longleftrightarrow> 3 \<le> n" using 7 by (auto simp only: bit_not_int_iff)
qed

lemma small_bits: "n < 8 \<Longrightarrow> bit (of_nat n :: uintptr) i \<Longrightarrow> i < 3"
proof -
  assume "n < 8" "bit (of_nat n :: uintptr) i"
  then have "take_bit 3 n = n" "bit n i" by (simp_all add: take_bit_nat_eq_self bit_simps)
  then show ?thesis by (metis bit_take_bit_iff)
qed

lemma cell_offset:
  fixes lo :: uintptr
  assumes "lo AND 7 = 0" "n < 8"
  shows "(lo + of_nat n) AND NOT 7 = lo" "unat ((lo + of_nat n) AND 7) = n"
proof -
  have l: "3 \<le> i" if "bit lo i" for i
  proof (rule ccontr)
    assume "\<not> 3 \<le> i"
    then have "bit (lo AND 7) i" using that by (simp add: bit_and_iff seven)
    then show False using assms(1) by simp
  qed
  have nl: "\<not> bit lo i" if "i < 3" for i using l that by fastforce
  have sb: "\<not> bit (of_nat n :: uintptr) i" if "3 \<le> i" for i using small_bits [OF assms(2)] that by fastforce
  have "lo AND of_nat n = 0" using l small_bits [OF assms(2)] by (intro bit_word_eqI) (auto simp: bit_simps dest: leD)
  then have "lo + of_nat n = lo OR of_nat n" by (rule disjunctive_add_eq_or)
  then show "(lo + of_nat n) AND NOT 7 = lo"
    using l sb by (auto intro!: bit_word_eqI simp: bit_and_iff bit_or_iff seven)
  have "(lo OR of_nat n) AND 7 = of_nat n"
    using nl small_bits [OF assms(2)] by (auto intro!: bit_word_eqI simp: bit_and_iff bit_or_iff seven)
  then show "unat ((lo + of_nat n) AND 7) = n" using \<open>lo + of_nat n = lo OR of_nat n\<close> assms(2) by (simp add: unat_of_nat64)
qed

lemma cell_split: "a = (a AND NOT 7) + of_nat (unat (a AND 7))" "(a AND NOT 7) AND 7 = 0" "unat (a AND 7) < 8" for a :: uintptr
proof -
  have "(a AND NOT 7) AND (a AND 7) = 0" by (intro bit_word_eqI) (auto simp: bit_and_iff seven)
  moreover have "(a AND NOT 7) OR (a AND 7) = a" by (intro bit_word_eqI) (auto simp: bit_and_iff bit_or_iff seven)
  ultimately have "(a AND NOT 7) + (a AND 7) = a" using disjunctive_add_eq_or by metis
  then show "a = (a AND NOT 7) + of_nat (unat (a AND 7))" by simp
  show "(a AND NOT 7) AND 7 = 0" by (intro bit_word_eqI) (auto simp: bit_and_iff seven)
  show "unat (a AND 7) < 8" by (simp add: unat_low_bits)
qed

lemma bytes_of_cell:
  assumes "lo AND 7 = 0" "n < 8" "r < 8"
  shows "bit (bytes_of m (lo + of_nat n)) r \<longleftrightarrow> bit (m lo) (8 * n + r)"
  using assms(3) cell_offset [OF assms(1,2)] by (simp add: bytes_of_def bit_simps)

lemma load64_bit:
  assumes "i < 64"
  shows "bit (load64 m a) i \<longleftrightarrow> bit (bytes_of m (a + of_nat (i div 8))) (i mod 8)"
proof -
  define lo k j r where "lo = a AND NOT 7" and "k = unat (a AND 7)" and "j = i div 8" and "r = i mod 8"
  have a: "a = lo + of_nat k" "lo AND 7 = 0" "k < 8" using cell_split [of a] by (simp_all add: lo_def k_def)
  have i: "i = 8 * j + r" "r < 8" "j < 8" using assms by (simp_all add: j_def r_def)
  have al: "aligned_to 8 a \<longleftrightarrow> k = 0" by (simp add: aligned_to_def k_def unat_eq_zero)
  have load: "bit (load64 m a) i \<longleftrightarrow> (if k + j < 8 then bit (m lo) (8 * (k + j) + r) else bit (m (lo + 8)) (8 * (k + j - 8) + r))"
  proof (cases "k = 0")
    case True
    then show ?thesis using a i al by (simp add: load64_def)
  next
    case False
    have "bit (load64 m a) i \<longleftrightarrow> bit (m lo) (8 * k + i) \<or> 64 - 8 * k \<le> i \<and> bit (m (lo + 8)) (i - (64 - 8 * k))"
      using False al assms by (simp add: load64_def unaligned_load_def Let_def lo_def k_def bit_or_iff bit_drop_bit_eq bit_push_bit_iff)
    moreover have "8 * k + i = 8 * (k + j) + r" using i(1) by simp
    moreover have "64 - 8 * k \<le> i \<longleftrightarrow> 8 \<le> k + j" using i a(3) by linarith
    moreover have "i - (64 - 8 * k) = 8 * (k + j - 8) + r" if "8 \<le> k + j" using that i(1) a(3) by linarith
    moreover have "\<not> bit (m lo) (8 * (k + j) + r)" if "8 \<le> k + j" using that by (auto dest: bit_imp_le_length)
    ultimately show ?thesis by auto
  qed
  show ?thesis
  proof (cases "k + j < 8")
    case True
    have "a + of_nat j = lo + of_nat (k + j)" unfolding a(1) by (simp add: add.assoc)
    from bytes_of_cell [OF a(2) True i(2), of m, folded this] show ?thesis unfolding load j_def [symmetric] r_def [symmetric] using True by simp
  next
    case False
    have "unat (lo + 8) mod 8 = unat lo mod 8" by (simp add: unat_word_ariths mod_mod_cancel)
    then have lo8: "(lo + 8) AND 7 = 0" using a(2) by (simp add: low_bits_zero)
    have "of_nat (k + j) = (8 :: uintptr) + of_nat (k + j - 8)" using False by (metis add_diff_inverse_nat of_nat_add of_nat_numeral)
    then have e: "a + of_nat j = (lo + 8) + of_nat (k + j - 8)" unfolding a(1) by (simp add: add.assoc)
    have "k + j - 8 < 8" using a(3) i(3) by simp
    from bytes_of_cell [OF lo8 this i(2), of m, folded e] show ?thesis unfolding load j_def [symmetric] r_def [symmetric] using False by simp
  qed
qed

text \<open>The result of the check is zero exactly when every byte of the access is marked.\<close>

lemma shadowed_facts: "unat (shadowed a) < 2 ^ 38" "unat (shadowed a) mod 8 = unat (a AND 7)" "shadow_word a = RESERVED_BASE + shadowed a div 8"
proof -
  have s: "shadowed a = take_bit 38 a" by (simp add: shadowed_def RESERVED_BASE_def take_bit_eq_mask mask_eq_exp_minus_1)
  show "unat (shadowed a) < 2 ^ 38" unfolding s by (simp only: unsigned_take_bit_eq take_bit_nat_less_exp)
  have "unat (shadowed a) mod 8 = unat a mod 2 ^ 38 mod 8" by (simp add: s unsigned_take_bit_eq take_bit_eq_mod unat_mod)
  then show "unat (shadowed a) mod 8 = unat (a AND 7)" by (simp add: unat_low_bits mod_mod_cancel)
  have rb: "RESERVED_BASE = 2 ^ 38" by (simp add: RESERVED_BASE_def)
  have "drop_bit 3 (shadowed a) AND RESERVED_BASE = 0" unfolding s rb and_exp_eq_0_iff_not_bit by (simp add: bit_simps)
  then have "drop_bit 3 (shadowed a) OR RESERVED_BASE = drop_bit 3 (shadowed a) + RESERVED_BASE" by (rule disjunctive_add_eq_or [symmetric])
  then show "shadow_word a = RESERVED_BASE + shadowed a div 8" by (simp add: shadow_word_def drop_bit_eq_div)
qed

lemma shadow_bit:
  assumes "i + unat (a AND 7) < 64"
  shows "bit (load64 m (shadow_word a)) (unat (a AND 7) + i) \<longleftrightarrow> valid_at (bytes_of m) (shadowed a + of_nat i)"
proof -
  define S k where "S = unat (shadowed a)" and "k = unat (a AND 7)"
  have S: "S < 2 ^ 38" "S mod 8 = k" using shadowed_facts [of a] by (simp_all add: S_def k_def)
  have u: "unat (shadowed a + of_nat i) = S + i" using S(1) assms by (simp add: S_def unat_word_ariths unat_of_nat64)
  have d: "(S + i) div 8 = S div 8 + (k + i) div 8" "(S + i) mod 8 = (k + i) mod 8"
    using S(2) by (metis add.assoc div_mult_self4 mult_div_mod_eq zero_neq_numeral add.commute, metis mod_add_left_eq)
  have "(shadowed a + of_nat i) div 8 = shadowed a div 8 + of_nat ((k + i) div 8)"
    using S(1) assms by (simp add: word_unat_eq_iff unat_div8 u d(1) unat_word_ariths unat_of_nat64 S_def [symmetric] k_def [symmetric])
  then show ?thesis
    using load64_bit [of "k + i" m "shadow_word a"] assms by (simp add: valid_at_def u d(2) shadowed_facts(3) k_def add.assoc add.commute)
qed

lemma check_zero:
  assumes "0 < sz" "sz \<le> 56"
  shows "(load64 m (shadow_word a) AND access_mask a sz) XOR access_mask a sz = 0 \<longleftrightarrow> (\<forall>i < nat sz. valid_at (bytes_of m) (shadowed a + of_nat i))"
proof -
  let ?L = "load64 m (shadow_word a)" and ?M = "access_mask a sz" and ?k = "unat (a AND 7)"
  have k: "?k < 8" by (rule cell_split(3))
  have M: "bit ?M n \<longleftrightarrow> ?k \<le> n \<and> n - ?k < nat sz" for n
    using k assms by (auto simp: access_mask_def bit_push_bit_iff bit_mask_iff)
  have "(?L AND ?M) XOR ?M = 0 \<longleftrightarrow> (\<forall>n. bit ?M n \<longrightarrow> bit ?L n)"
  proof
    assume "(?L AND ?M) XOR ?M = 0"
    then have "\<not> bit ((?L AND ?M) XOR ?M) n" for n by simp
    then show "\<forall>n. bit ?M n \<longrightarrow> bit ?L n" by (auto simp: bit_xor_iff bit_and_iff)
  qed (auto intro!: bit_word_eqI simp: bit_xor_iff bit_and_iff)
  also have "\<dots> \<longleftrightarrow> (\<forall>i < nat sz. bit ?L (?k + i))" unfolding M by (metis add_diff_cancel_left' le_add1 le_add_diff_inverse)
  also have "\<dots> \<longleftrightarrow> (\<forall>i < nat sz. valid_at (bytes_of m) (shadowed a + of_nat i))" using shadow_bit [of _ a m] k assms by simp
  finally show ?thesis .
qed

section \<open>The emitted code\<close>

text \<open>Code emitted at the write pointer, with the change of the count of pushed registers.\<close>

definition emitted :: "a64_inst list \<Rightarrow> int \<Rightarrow> emit_ctx \<Rightarrow> emit_ctx" where
  "emitted xs n e =
     (let w = emit_seq xs (snd e, write_p (fst e)) in
      ((fst e)\<lparr>plugin_pushed_reg_count := plugin_pushed_reg_count (fst e) + n, write_p := snd w\<rparr>, fst w))"

lemma emitted_append: "emitted ys k (emitted xs n e) = emitted (xs @ ys) (n + k) e"
  by (simp add: emitted_def Let_def)

lemma emitted_fields:
  "write_p (fst (emitted xs n e)) = slot (write_p (fst e)) (length xs)" "plugin_pushed_reg_count (fst (emitted xs n e)) = plugin_pushed_reg_count (fst e) + n"
  "read_address (fst (emitted xs n e)) = read_address (fst e)" "ctx_inst (fst (emitted xs n e)) = ctx_inst (fst e)" "ctx_cond (fst (emitted xs n e)) = ctx_cond (fst e)"
  by (simp_all add: emitted_def Let_def emit_seq_snd)

lemma emitted_rewind: "((fst (emitted xs n e))\<lparr>write_p := q, write_p := slot (write_p (fst e)) (length xs)\<rparr>, snd (emitted xs n e)) = emitted xs n e"
  by (simp add: emitted_def Let_def emit_seq_snd)

lemma emitted_write: "with_write_p (emit_seq xs) e = emitted xs 0 e"
  by (simp add: emitted_def with_write_p_def Let_def)

lemma emitted_push: "emit_push e regs = Ok (emitted (push_seq (regs_of regs)) (int (length (regs_of regs))) e)"
  by (simp add: emit_push_def emit_a64_push_emits emitted_def Let_def)

lemma emitted_pop:
  "int (length (regs_of regs)) \<le> plugin_pushed_reg_count (fst e) \<Longrightarrow> emit_pop e regs = Ok (emitted (pop_seq (regs_of regs)) (- int (length (regs_of regs))) e)"
  by (simp add: emit_pop_def emit_a64_pop_emits emitted_def Let_def res_assert_def)

lemma emitted_set_reg: "emit_set_reg e r v = emitted (mov_seq r v) 0 e"
  by (simp add: emit_set_reg_def a64_copy_to_reg_64bits_seq emitted_write [symmetric] with_write_p_def)

text \<open>The checker's code is out of the range of a direct branch above the application's, as its build instructions demand.\<close>

definition far_above :: "uintptr \<Rightarrow> uintptr \<Rightarrow> bool" where
  "far_above p f \<longleftrightarrow> 0 < p \<and> p < RESERVED_BASE \<and> p + 0x10000000 \<le> f \<and> f < 2 ^ 62"

lemma far_above_slot:
  assumes "far_above p f" "n < 64"
  shows "unat (slot p n) = unat p + 4 * n" "0x8000000 < sint (f - slot p n)"
proof -
  have p: "unat p < 2 ^ 38" "unat p + 0x10000000 \<le> unat f" "unat f < 2 ^ 62"
  proof -
    show l: "unat p < 2 ^ 38" and "unat f < 2 ^ 62" using assms(1) by (simp_all add: far_above_def word_less_nat_alt RESERVED_BASE_def)
    then have "unat (p + 0x10000000) = unat p + 0x10000000" by (simp add: unat_word_ariths)
    then show "unat p + 0x10000000 \<le> unat f" using assms(1) by (simp add: far_above_def word_le_nat_alt)
  qed
  show s: "unat (slot p n) = unat p + 4 * n" using p(1) assms(2) by (simp add: slot_def unat_word_ariths unat_of_nat64)
  have le: "slot p n \<le> f" using s p assms(2) by (simp add: word_le_nat_alt)
  then have u: "unat (f - slot p n) = unat f - (unat p + 4 * n)" by (simp add: unat_sub s)
  then have i: "uint (f - slot p n) = int (unat f - (unat p + 4 * n))" by (simp add: uint_nat)
  moreover have "unat f - (unat p + 4 * n) < 2 ^ 62" using p(3) by linarith
  ultimately have "uint (f - slot p n) < 2 ^ 62" by simp
  moreover have "- (2 ^ 63) \<le> uint (f - slot p n)" by (rule order_trans [of _ 0]) simp_all
  ultimately have "sint (f - slot p n) = uint (f - slot p n)" by (simp add: sint_uint signed_take_bit_int_eq_self)
  moreover have "0x8000000 < int (unat f - (unat p + 4 * n))" using p assms(2) by linarith
  ultimately show "0x8000000 < sint (f - slot p n)" using i by (simp only:)
qed

lemma emitted_fcall:
  assumes "0x8000000 < sint (f - write_p (fst e))"
  shows "emit_fcall e f = Ok (emitted (mov_seq lr f @ [a64_BLR lr]) 0 e)"
  using assms by (simp add: emit_fcall_def emit_branch_cond_at_def Let_def emitted_set_reg emit_then(1) emitted_write emitted_append)

definition cbz_inst :: "uintptr \<Rightarrow> uintptr \<Rightarrow> a64_inst" where
  "cbz_inst p t = a64_CBZ_CBNZ 1 0 (word_of_int (drop_bit 2 (sint (t - p)))) 1"

lemma emitted_cbz:
  assumes "length ys < 64"
  shows "emit_local_branch_cbz (emitted ys n (c\<lparr>write_p := p + 4\<rparr>, code)) \<lparr>loc = p\<rparr> 1 =
    (0, emitted (cbz_inst p (slot p (Suc (length ys))) # ys) n (c\<lparr>write_p := p\<rparr>, code))"
proof -
  have d: "sint (slot p (Suc (length ys)) - p) = 4 * int (Suc (length ys))" using assms by (intro sint_slot) simp
  have "(4 * int (Suc (length ys))) AND 3 = 0" by (rule four_aligned)
  then have "a64_cbz_cbnz_helper p False (slot p (Suc (length ys))) 1 1 code' = (0, put_inst p (cbz_inst p (slot p (Suc (length ys)))) code')" for code'
    unfolding a64_cbz_cbnz_helper_def Let_def d cbz_inst_def using assms by (simp add: MB_def del: of_nat_Suc)
  moreover have "length ys < 2 ^ 60" using assms by simp
  ultimately show ?thesis
    by (simp add: emit_local_branch_cbz_def emit_local_branch_cbz_cbnz_def emit_branch_cbz_cbnz_at_def mambo_get_cc_addr_def emitted_def Let_def
        emit_seq_snd emit_seq_patch emit_inst_def)
qed

definition access_meta :: "int \<Rightarrow> bool \<Rightarrow> uintptr" where
  "access_meta sz store = word_of_int sz OR (if store then IS_STORE else 0)"

definition report_seq :: "uintptr \<Rightarrow> uintptr \<Rightarrow> uintptr \<Rightarrow> uintptr \<Rightarrow> a64_inst list" where
  "report_seq meta ra td f =
     push_seq [4, 30] @ mov_seq 1 meta @ mov_seq 2 ra @ mov_seq 3 td @ mov_seq lr f @ [a64_BLR lr] @ pop_seq [4, 30]"

definition test_seq :: "uintptr \<Rightarrow> int \<Rightarrow> a64_inst list \<Rightarrow> a64_inst list \<Rightarrow> a64_inst list" where
  "test_seq p sz xs report =
     (let q = slot p (length (push_seq [0, 1, 2, 3] @ xs @ check_seq (min sz 56))) in
      (push_seq [0, 1, 2, 3] @ xs @ check_seq (min sz 56)) @ (cbz_inst q (slot q (Suc (length report))) # report) @ pop_seq [0, 1, 2, 3])"

lemma test_masks: "regs_of (reg_bit 0 OR reg_bit 1 OR reg_bit 2 OR reg_bit 3) = [0, 1, 2, 3]" "regs_of (reg_bit 4 OR reg_bit (ucast lr)) = [4, 30]"
  by code_simp+

lemma report_length: "length (report_seq meta ra td f) \<le> 19"
  using mov_seq_length(1) [of 1 meta] mov_seq_length(1) [of 2 ra] mov_seq_length(1) [of 3 td] mov_seq_length(1) [of lr f] by (simp add: report_seq_def)

lemma memcheck_test_emits:
  assumes a: "addressable inst w" and ctx: "ctx_inst c = int inst" "guest (read_address c) = w" "plugin_pushed_reg_count c = 0"
    and sz: "mambo_get_ld_st_size inst w = Ok sz" and far: "far_above (write_p c) f"
  shows "\<exists>xs. memcheck_test guest (Some td) f (c, code) = Ok (emitted (test_seq (write_p c) sz xs (report_seq (access_meta sz (mambo_is_store inst w)) (read_address c) td f)) 0 (c, code)) \<and>
    length xs \<le> 4 \<and> (\<forall>s. run_seq xs s = Some (add_state 0 (a64_address inst w (read_address c) (s\<lparr>sp_reg := sp_reg s + 32\<rparr>)) (length xs) s))"
proof -
  let ?e = "(c, code)"
  define e1 where "e1 = emitted (push_seq [0, 1, 2, 3]) 4 ?e"
  have "computes 4 (mambo_calc_ld_st_addr guest e1 0) e1 0 (\<lambda>s. a64_address inst w (read_address (fst e1)) (before_pushes e1 s))"
    using ctx by (intro calc_computes [OF a]) (simp_all add: emitted_fields e1_def)
  then obtain xs where xs: "mambo_calc_ld_st_addr guest e1 0 = Ok (0, emitted xs 0 e1)" "length xs \<le> 4"
      "\<forall>s. run_seq xs s = Some (add_state 0 (a64_address inst w (read_address c) (s\<lparr>sp_reg := sp_reg s + 32\<rparr>)) (length xs) s)"
    using ctx(3) by (auto simp: computes_def emitted_write emitted_fields before_pushes_def e1_def)
  define A q m where "A = push_seq [0, 1, 2, 3] @ xs @ check_seq (min sz 56)" and "q = slot (write_p c) (length A)" and "m = access_meta sz (mambo_is_store inst w)"
  define P where "P = push_seq [4, 30]"
  define R where "R = P @ mov_seq 1 m @ mov_seq 2 (read_address c) @ mov_seq 3 td"
  define F where "F = mov_seq lr f @ [a64_BLR lr]"
  define T where "T = report_seq m (read_address c) td f"
  have T: "T = (R @ F) @ pop_seq [4, 30]" by (simp add: R_def F_def T_def P_def report_seq_def)
  have e2: "memcheck_inst_aarch64 (emitted xs 0 e1) (min sz 56) = emitted A 4 ?e" by (simp add: memcheck_inst_emits emitted_write emitted_append A_def e1_def)
  have lA: "length A < 16" using xs(2) by (simp add: check_seq_def A_def)
  have lR: "length R < 16"
    using mov_seq_length(1) [of 1 m] mov_seq_length(1) [of 2 "read_address c"] mov_seq_length(1) [of 3 td] by (simp add: R_def P_def)
  have q: "q \<noteq> 0"
  proof -
    have "unat q = unat (write_p c) + 4 * length A" unfolding q_def using lA by (intro far_above_slot [OF far]) simp
    moreover have "0 < unat (write_p c)" using far by (simp add: far_above_def word_less_nat_alt)
    ultimately show ?thesis by auto
  qed
  define c2 code2 where "c2 = (fst (emitted A 4 ?e))\<lparr>write_p := q + 4\<rparr>" and "code2 = snd (emitted A 4 ?e)"
  have res: "mambo_reserve_branch_cbz (fst (emitted A 4 ?e)) \<lparr>loc = 0\<rparr> = (0, c2, \<lparr>loc = q\<rparr>)"
    using q by (simp add: mambo_reserve_branch_cbz_def mambo_reserve_def emitted_fields c2_def q_def)
  have c2: "plugin_pushed_reg_count c2 = 4" "read_address c2 = read_address c" "write_p c2 = q + 4" using ctx(3) by (simp_all add: c2_def emitted_fields)
  have call: "emit_fcall (emitted R 2 (c2, code2)) f = Ok (emitted (R @ F) 2 (c2, code2))"
  proof -
    have "slot (q + 4) (length R) = slot (write_p c) (length A + Suc (length R))" by (simp add: q_def)
    then show ?thesis
      using far_above_slot(2) [OF far, of "length A + Suc (length R)"] lA lR emitted_fcall [of f "emitted R 2 (c2, code2)"] by (simp add: emitted_fields c2 emitted_append F_def)
  qed
  have set: "emit_set_reg (emit_set_reg (emit_set_reg (emitted P 2 (c2, code2)) 1 m) 2 (read_address c)) 3 td = emitted R 2 (c2, code2)"
    by (simp add: emitted_set_reg emitted_append R_def)
  have ra: "read_address (fst (emit_set_reg (emitted P 2 (c2, code2)) 1 m)) = read_address c" by (simp add: emitted_set_reg emitted_fields c2)
  have push: "emit_push ?e (reg_bit 0 OR reg_bit 1 OR reg_bit 2 OR reg_bit 3) = Ok e1" "emit_push (c2, code2) (reg_bit 4 OR reg_bit (ucast lr)) = Ok (emitted P 2 (c2, code2))"
    by (simp_all add: emitted_push test_masks P_def e1_def)
  have pop1: "emit_pop (emitted (R @ F) 2 (c2, code2)) (reg_bit 4 OR reg_bit (ucast lr)) = Ok (emitted T 0 (c2, code2))"
    unfolding T by (subst emitted_pop) (simp_all add: test_masks emitted_fields c2 emitted_append)
  have base: "(c2\<lparr>write_p := q\<rparr>, code2) = emitted A 4 ?e"
    unfolding c2_def code2_def q_def using emitted_rewind [where xs = A and n = 4 and e = ?e and q = "slot (write_p c) (length A) + 4"] by simp
  have cbz: "emit_local_branch_cbz (emitted T 0 (c2, code2)) \<lparr>loc = q\<rparr> 1 = (0, emitted (A @ cbz_inst q (slot q (Suc (length T))) # T) 4 ?e)"
    using emitted_cbz [where ys = T and n = 0 and c = c2 and p = q and code = code2] report_length [of m "read_address c" td f]
    unfolding base T_def by (simp add: c2_def emitted_append)
  have pop2: "emit_pop (emitted (A @ cbz_inst q (slot q (Suc (length T))) # T) 4 ?e) (reg_bit 0 OR reg_bit 1 OR reg_bit 2 OR reg_bit 3) =
      Ok (emitted (test_seq (write_p c) sz xs T) 0 ?e)"
    by (subst emitted_pop) (simp_all add: test_masks emitted_fields ctx(3) emitted_append test_seq_def Let_def A_def q_def)
  have "memcheck_test guest (Some td) f ?e = Ok (emitted (test_seq (write_p c) sz xs T) 0 ?e)"
    unfolding memcheck_test_def Let_def mambo_get_source_addr_def
    by (simp del: if_split add: ctx sz push xs(1) e2 res code2_def [symmetric] access_meta_def [symmetric] m_def [symmetric] ra set_in_malloc_ptr_def set call pop1 cbz pop2)
  then show ?thesis using xs(2,3) unfolding T_def m_def by blast
qed

section \<open>Running the emitted code\<close>

lemma exec_cbz:
  assumes "pc_reg s = p" "n \<le> 64"
  shows "a64_exec (cbz_inst p (slot p n)) s = Some (s\<lparr>pc_reg := if xregs s 1 = 0 then slot p n else p + 4\<rparr>)"
proof -
  have d: "sint (slot p n - p) = 4 * int n" using assms(2) by (rule sint_slot)
  have "push_bit 2 (scast (word_of_int (drop_bit 2 (sint (slot p n - p))) :: 19 word)) = slot p n - p"
    using assms(2) by (intro branch_offset) (simp_all add: d four_aligned)
  then show ?thesis using assms(1) by (simp add: cbz_inst_def a64_exec.simps branch_to next_pc_def Let_def xreg_def)
qed

text \<open>What the checker's report function guarantees when it returns: the stack above its stack pointer and all registers that the emitted code does not save.\<close>

definition returned :: "a64_state \<Rightarrow> a64_state \<Rightarrow> bool" where
  "returned s s' \<longleftrightarrow> pc_reg s' = xregs s 30 \<and> sp_reg s' = sp_reg s \<and> flags s' = flags s \<and>
     (\<forall>r. r \<notin> {0, 1, 2, 3, 4, 30} \<longrightarrow> xregs s' r = xregs s r) \<and> (\<forall>a \<in> stack_frame (sp_reg s) 3. mem s' a = mem s a)"

definition resumed :: "uintptr \<Rightarrow> a64_state \<Rightarrow> a64_state \<Rightarrow> bool" where
  "resumed p s s' \<longleftrightarrow> pc_reg s' = p \<and> xregs s' = xregs s \<and> sp_reg s' = sp_reg s \<and> flags s' = flags s"

lemma report_runs:
  assumes code: "code_seq code (pc_reg s) (report_seq meta ra td f)" and al: "aligned_to 16 (sp_reg s)"
  shows "\<exists>s1. reaches code s s1 \<and> pc_reg s1 = f \<and> sp_reg s1 = sp_reg s - 16 \<and> flags s1 = flags s \<and>
    (\<forall>r. r \<notin> {1, 2, 3, 30} \<longrightarrow> xregs s1 r = xregs s r) \<and> xregs s1 1 = meta \<and> xregs s1 2 = ra \<and> xregs s1 3 = td \<and>
    (\<forall>a. a \<notin> stack_frame (sp_reg s - 16) 1 \<longrightarrow> mem s1 a = mem s a) \<and>
    (\<forall>s2. returned s1 s2 \<longrightarrow> reaches code s2 (s2\<lparr>sp_reg := sp_reg s, xregs := (xregs s2)(4 := xregs s 4, 30 := xregs s 30),
       pc_reg := slot (pc_reg s) (length (report_seq meta ra td f))\<rparr>))"
proof -
  define U where "U = push_seq [4, 30] @ mov_seq 1 meta @ mov_seq 2 ra @ mov_seq 3 td @ mov_seq lr f"
  let ?p = "sp_reg s - 16"
  obtain m where m: "run_seq (push_seq [4, 30]) s = Some (s\<lparr>sp_reg := ?p, mem := m, pc_reg := slot (pc_reg s) 1\<rparr>)" "aligned_to 16 ?p"
      "stack_holds [4, 30] ?p m (xregs s)" "\<forall>a. a \<notin> stack_frame ?p 1 \<longrightarrow> m a = mem s a"
  proof -
    have "chunks [4, 30] = 1" "length (push_seq [4, 30]) = 1" by simp_all
    then show thesis using run_push_seq [OF al, of "[4, 30]"] that by fastforce
  qed
  let ?s0 = "s\<lparr>sp_reg := ?p, mem := m, xregs := (xregs s)(1 := meta, 2 := ra, 3 := td, 30 := f), pc_reg := slot (pc_reg s) (length U)\<rparr>"
  have "run_seq U s = Some ?s0"
    unfolding U_def run_seq_append m(1) by (simp add: run_seq_append run_mov lr_def)
  moreover have seq: "report_seq meta ra td f = U @ [a64_BLR lr] @ pop_seq [4, 30]" by (simp add: report_seq_def U_def)
  ultimately have 1: "reaches code s ?s0" using run_seq_reaches [of U s ?s0 code] code by simp
  let ?s1 = "?s0\<lparr>xregs := (xregs ?s0)(30 := slot (pc_reg s) (Suc (length U))), pc_reg := f\<rparr>"
  have 2: "reaches code ?s0 ?s1"
    using code unfolding seq by (intro reaches_one [of _ _ "a64_BLR lr"]) (simp_all add: a64_exec.simps lr_def set_xreg_def xreg_def)
  have ret: "reaches code s2 (s2\<lparr>sp_reg := sp_reg s, xregs := (xregs s2)(4 := xregs s 4, 30 := xregs s 30), pc_reg := slot (pc_reg s) (length (report_seq meta ra td f))\<rparr>)"
    if r: "returned ?s1 s2" for s2
  proof -
    have "stack_frame ?p 1 \<subseteq> stack_frame ?p 3" by (auto simp: stack_frame_def)
    moreover have "\<forall>a \<in> stack_frame ?p 3. mem s2 a = m a" and sp: "sp_reg s2 = ?p" using r by (simp_all add: returned_def)
    moreover have "chunks [4, 30] = 1" by simp
    ultimately have "stack_holds [4, 30] ?p (mem s2) (xregs s)" by (intro stack_holds_cong [OF m(3)]) auto
    then have "stack_holds [4, 30] (sp_reg s2) (mem s2) (xregs s)" unfolding sp .
    from run_pop_seq [OF _ _ this] m(2) sp have "run_seq (pop_seq [4, 30]) s2 = Some (s2\<lparr>sp_reg := sp_reg s,
        xregs := (\<lambda>x. if x \<in> set [4, 30] then xregs s x else xregs s2 x), pc_reg := slot (pc_reg s2) 1\<rparr>)"
      by simp
    moreover have "(\<lambda>x. if x \<in> set [4, 30] then xregs s x else xregs s2 x) = (xregs s2)(4 := xregs s 4, 30 := xregs s 30)" by auto
    ultimately have run: "run_seq (pop_seq [4, 30]) s2 = Some (s2\<lparr>sp_reg := sp_reg s, xregs := (xregs s2)(4 := xregs s 4, 30 := xregs s 30), pc_reg := slot (pc_reg s2) 1\<rparr>)" by simp
    have "pc_reg s2 = slot (pc_reg s) (Suc (length U))" using r by (simp add: returned_def)
    then show ?thesis using run_seq_reaches [OF run, of code] code unfolding seq by simp
  qed
  show ?thesis
  proof (intro exI [of _ ?s1] conjI allI impI)
    show "reaches code s ?s1" by (rule reaches_trans [OF 1 2])
    show "mem ?s1 a = mem s a" if "a \<notin> stack_frame ?p 1" for a using m(4) that by simp
    show "reaches code s2 (s2\<lparr>sp_reg := sp_reg s, xregs := (xregs s2)(4 := xregs s 4, 30 := xregs s 30), pc_reg := slot (pc_reg s) (length (report_seq meta ra td f))\<rparr>)"
      if "returned ?s1 s2" for s2 using that by (rule ret)
  qed simp_all
qed

text \<open>The application's stack lies below the shadow memory.\<close>

lemma unat_cell: "unat (y AND NOT 7) = 8 * (unat y div 8)" for y :: uintptr
proof -
  have "y AND NOT 7 = y - of_nat (unat (y AND 7))" using cell_split(1) [of y] by (metis add_diff_cancel_right')
  moreover have "(of_nat (unat (y AND 7)) :: uintptr) \<le> y" unfolding unat_low_bits by (simp add: word_le_nat_alt unat_of_nat64 mod_less_eq_dividend)
  ultimately have "unat (y AND NOT 7) = unat y - unat y mod 8" unfolding unat_low_bits by (simp add: unat_sub unat_of_nat64)
  then show ?thesis by (simp add: minus_mod_eq_mult_div)
qed

lemma frame_below:
  assumes "a \<in> stack_frame (b - 32) 2" "32 \<le> b" "b \<le> RESERVED_BASE"
  shows "unat a < 2 ^ 38"
proof -
  obtain k where k: "k < 4" "a = b - 32 + of_nat (8 * k)" using assms(1) by (auto simp: stack_frame_def)
  have u: "unat (b - 32) = unat b - 32" "unat b \<le> 2 ^ 38" "32 \<le> unat b"
    using assms(2,3) by (simp_all add: unat_sub word_le_nat_alt RESERVED_BASE_def)
  have "unat (of_nat (8 * k) :: uintptr) = 8 * k" using k(1) by (intro unat_of_nat64) simp
  then have "unat a = unat b - 32 + 8 * k" using u k by (simp add: unat_word_ariths)
  then show ?thesis using u k(1) by linarith
qed

lemma shadow_untouched:
  assumes "\<forall>a. a \<notin> stack_frame (b - 32) 2 \<longrightarrow> m' a = m a" "32 \<le> b" "b \<le> RESERVED_BASE" "unat x < 2 ^ 38 + 64"
  shows "valid_at (bytes_of m') x = valid_at (bytes_of m) x"
proof -
  let ?y = "RESERVED_BASE + x div 8"
  have "unat ?y = 2 ^ 38 + unat x div 8" using assms(4) by (simp add: RESERVED_BASE_def unat_word_ariths unat_div8)
  then have "2 ^ 38 \<le> unat (?y AND NOT 7)" unfolding unat_cell by simp
  then have "?y AND NOT 7 \<notin> stack_frame (b - 32) 2" using frame_below [OF _ assms(2,3)] leD by blast
  then show ?thesis using assms(1) by (simp add: valid_at_def bytes_of_def)
qed

definition all_valid :: "(uintptr \<Rightarrow> uintptr) \<Rightarrow> uintptr \<Rightarrow> int \<Rightarrow> bool" where
  "all_valid m a sz \<longleftrightarrow> (\<forall>i < nat sz. valid_at (bytes_of m) (shadowed a + of_nat i))"

lemma all_valid_untouched:
  assumes "\<forall>a. a \<notin> stack_frame (b - 32) 2 \<longrightarrow> m' a = m a" "32 \<le> b" "b \<le> RESERVED_BASE" "sz \<le> 56"
  shows "all_valid m' a sz = all_valid m a sz"
proof -
  have "unat (shadowed a + of_nat i) < 2 ^ 38 + 64" if "i < nat sz" for i
    using that assms(4) shadowed_facts(1) [of a] by (simp add: unat_word_ariths unat_of_nat64)
  then show ?thesis using shadow_untouched [OF assms(1-3)] by (auto simp: all_valid_def)
qed

lemma test_runs:
  assumes code: "code_seq code p (test_seq p sz xs (report_seq meta ra td f))" and xs: "length xs \<le> 4"
      "\<forall>s. run_seq xs s = Some (add_state 0 (a64_address inst w ra (s\<lparr>sp_reg := sp_reg s + 32\<rparr>)) (length xs) s)"
    and sz: "0 < sz" and s: "pc_reg s = p" "aligned_to 16 (sp_reg s)" "32 \<le> sp_reg s" "sp_reg s \<le> RESERVED_BASE"
  defines "n \<equiv> length (test_seq p sz xs (report_seq meta ra td f))" and "a \<equiv> a64_address inst w ra s"
  shows "if all_valid (mem s) a (min sz 56)
    then \<exists>s'. reaches code s s' \<and> resumed (slot p n) s s' \<and> (\<forall>x. x \<notin> stack_frame (sp_reg s - 32) 2 \<longrightarrow> mem s' x = mem s x)
    else \<exists>s1. reaches code s s1 \<and> pc_reg s1 = f \<and> xregs s1 0 = a \<and> xregs s1 1 = meta \<and> xregs s1 2 = ra \<and> xregs s1 3 = td \<and>
      (\<forall>s2. returned s1 s2 \<longrightarrow> (\<exists>s'. reaches code s2 s' \<and> resumed (slot p n) s s'))"
proof -
  define A T where "A = push_seq [0, 1, 2, 3] @ xs @ check_seq (min sz 56)" and "T = report_seq meta ra td f"
  define q t where "q = slot p (length A)" and "t = slot q (Suc (length T))"
  let ?sp = "sp_reg s - 32"
  have seq: "test_seq p sz xs T = A @ (cbz_inst q t # T) @ pop_seq [0, 1, 2, 3]" by (simp add: test_seq_def Let_def A_def q_def t_def)
  have c: "code_seq code p A" "code q = Some (cbz_inst q t)" "code_seq code (q + 4) T" "code_seq code t (pop_seq [0, 1, 2, 3])"
    using code unfolding T_def [symmetric] seq by (simp_all add: q_def t_def del: pop_seq.simps)
  have n_eq: "slot p n = slot t (length (pop_seq [0, 1, 2, 3]))" by (simp add: n_def T_def [symmetric] seq t_def q_def)
  obtain m where m: "run_seq (push_seq [0, 1, 2, 3]) s = Some (s\<lparr>sp_reg := ?sp, mem := m, pc_reg := slot p 2\<rparr>)" "aligned_to 16 ?sp"
      "stack_holds [0, 1, 2, 3] ?sp m (xregs s)" "\<forall>x. x \<notin> stack_frame ?sp 2 \<longrightarrow> m x = mem s x"
  proof -
    have k: "chunks [0, 1, 2, 3] = 2" "length (push_seq [0, 1, 2, 3]) = 2" by simp_all
    have "16 * of_nat 2 = (32 :: uintptr)" by simp
    then show thesis using run_push_seq [OF s(2), of "[0, 1, 2, 3]"] that unfolding k s(1) by fastforce
  qed
  let ?M = "access_mask a (min sz 56)" let ?v = "(load64 m (shadow_word a) AND ?M) XOR ?M"
  let ?s1 = "s\<lparr>sp_reg := ?sp, mem := m, xregs := (xregs s)(0 := a, 1 := ?v, 2 := shadow_word a, 3 := ?M), pc_reg := q\<rparr>"
  define s0 where "s0 = s\<lparr>sp_reg := ?sp, mem := m, pc_reg := slot p 2\<rparr>"
  have run: "run_seq A s = Some ?s1"
  proof -
    have "a64_address inst w ra (s0\<lparr>sp_reg := sp_reg s0 + 32\<rparr>) = a" unfolding a_def s0_def by (rule a64_address_regs) simp_all
    then have 1: "run_seq xs s0 = Some (add_state 0 a (length xs) s0)" using xs(2) by simp
    have "length (check_seq (min sz 56)) = 9" by (simp add: check_seq_def)
    then have "q = slot p (2 + length xs + 9)" by (simp add: q_def A_def)
    then have 2: "run_seq (check_seq (min sz 56)) (add_state 0 a (length xs) s0) = Some ?s1"
      using run_check [of "min sz 56" "add_state 0 a (length xs) s0"] sz by (simp add: add_state_def set_xreg_sp_def s0_def)
    show ?thesis unfolding A_def run_seq_append m(1) s0_def [symmetric] by (simp only: Option.bind.simps 1 2)
  qed
  have "reaches code s ?s1" by (rule conjunct1 [OF run_seq_reaches [OF run]]) (use c(1) s(1) in simp)
  moreover have "a64_exec (cbz_inst q t) ?s1 = Some (?s1\<lparr>pc_reg := if xregs ?s1 1 = 0 then t else q + 4\<rparr>)"
    unfolding t_def using report_length [of meta ra td f] by (intro exec_cbz) (simp_all add: T_def)
  ultimately have br: "reaches code s (?s1\<lparr>pc_reg := if xregs ?s1 1 = 0 then t else q + 4\<rparr>)"
    using c(2) by (elim reaches_trans) (intro reaches_one, simp_all)
  have v: "xregs ?s1 1 = 0 \<longleftrightarrow> all_valid (mem s) a (min sz 56)"
    using check_zero [of "min sz 56" m a] all_valid_untouched [OF m(4) s(3,4), of "min sz 56" a] sz by (simp add: all_valid_def)
  have pop: "reaches code s2 (s2\<lparr>sp_reg := sp_reg s, xregs := xregs s, pc_reg := slot p n\<rparr>)"
    if "pc_reg s2 = t" "sp_reg s2 = ?sp" "\<forall>x \<in> stack_frame ?sp 2. mem s2 x = m x" "\<forall>r. r \<notin> {0, 1, 2, 3} \<longrightarrow> xregs s2 r = xregs s r" for s2
  proof -
    have k: "chunks [0, 1, 2, 3] = 2" by simp
    have "stack_holds [0, 1, 2, 3] (sp_reg s2) (mem s2) (xregs s)"
      unfolding that(2) by (rule stack_holds_cong [OF m(3)]) (use that(3) in \<open>unfold k, blast\<close>)
    moreover have "aligned_to 16 (sp_reg s2)" "\<forall>r \<in> set [0, 1, 2, 3]. r < (31 :: nat)" using that(2) m(2) by simp_all
    ultimately have run: "run_seq (pop_seq [0, 1, 2, 3]) s2 = Some (s2\<lparr>sp_reg := sp_reg s2 + 16 * of_nat (chunks [0, 1, 2, 3]),
        xregs := (\<lambda>x. if x \<in> set [0, 1, 2, 3] then xregs s x else xregs s2 x), pc_reg := slot (pc_reg s2) (length (pop_seq [0, 1, 2, 3]))\<rparr>)"
      by (intro run_pop_seq)
    have "sp_reg s2 + 16 * of_nat (chunks [0, 1, 2, 3]) = sp_reg s" by (simp add: that(2))
    moreover have "(\<lambda>x. if x \<in> set [0, 1, 2, 3] then xregs s x else xregs s2 x) = xregs s" using that(4) by auto
    moreover have "slot (pc_reg s2) (length (pop_seq [0, 1, 2, 3])) = slot p n" by (simp only: n_eq that(1))
    ultimately have "run_seq (pop_seq [0, 1, 2, 3]) s2 = Some (s2\<lparr>sp_reg := sp_reg s, xregs := xregs s, pc_reg := slot p n\<rparr>)" using run by (simp only:)
    from run_seq_reaches [OF this, of code] show ?thesis using c(4) that(1) by (simp only:)
  qed
  show ?thesis
  proof (cases "all_valid (mem s) a (min sz 56)")
    case True
    let ?s2 = "?s1\<lparr>pc_reg := t\<rparr>"
    have "reaches code ?s2 (?s2\<lparr>sp_reg := sp_reg s, xregs := xregs s, pc_reg := slot p n\<rparr>)" by (rule pop) auto
    moreover have "reaches code s ?s2" using br v True by simp
    ultimately have "reaches code s (?s2\<lparr>sp_reg := sp_reg s, xregs := xregs s, pc_reg := slot p n\<rparr>)" by (rule reaches_trans [rotated])
    then show ?thesis using True m(4) by (auto simp: resumed_def intro!: exI)
  next
    case False
    let ?s2 = "?s1\<lparr>pc_reg := q + 4\<rparr>"
    have r0: "reaches code s ?s2" using br v False by simp
    have "code_seq code (pc_reg ?s2) (report_seq meta ra td f)" "aligned_to 16 (sp_reg ?s2)" using c(3) m(2) by (simp_all add: T_def)
    from report_runs [OF this] obtain s3 where s3: "reaches code ?s2 s3" "pc_reg s3 = f" "sp_reg s3 = ?sp - 16" "flags s3 = flags s"
        "\<forall>r. r \<notin> {1, 2, 3, 30} \<longrightarrow> xregs s3 r = xregs ?s2 r" "xregs s3 1 = meta" "xregs s3 2 = ra" "xregs s3 3 = td"
        "\<forall>x. x \<notin> stack_frame (?sp - 16) 1 \<longrightarrow> mem s3 x = m x"
        "\<forall>s4. returned s3 s4 \<longrightarrow> reaches code s4 (s4\<lparr>sp_reg := ?sp, xregs := (xregs s4)(4 := xregs ?s2 4, 30 := xregs ?s2 30), pc_reg := slot (q + 4) (length T)\<rparr>)"
      by (auto simp: T_def)
    have home: "\<exists>s'. reaches code s4 s' \<and> resumed (slot p n) s s'" if r: "returned s3 s4" for s4
    proof -
      let ?s5 = "s4\<lparr>sp_reg := ?sp, xregs := (xregs s4)(4 := xregs ?s2 4, 30 := xregs ?s2 30), pc_reg := t\<rparr>"
      have fr: "stack_frame (?sp - 16) 3 = {?sp - 16, ?sp - 8} \<union> stack_frame ?sp 2" "stack_frame (?sp - 16) 1 = {?sp - 16, ?sp - 8}"
        using stack_frame_Suc [of "?sp - 16" 2] stack_frame_Suc [of "?sp - 16" 0] by (simp_all add: stack_frame_def)
      have "mem s4 x = m x" if "x \<in> stack_frame ?sp 2" for x
      proof -
        have "x \<notin> stack_frame (?sp - 16) 1" using frame_above [of 2 ?sp] that unfolding fr by auto
        then have "mem s3 x = m x" using s3(9) by blast
        moreover have "mem s4 x = mem s3 x" using r that unfolding returned_def s3(3) fr by blast
        ultimately show ?thesis by simp
      qed
      moreover have "xregs s4 x = xregs s x" if "x \<notin> {0, 1, 2, 3, 4, 30}" for x
      proof -
        have "xregs s4 x = xregs s3 x" using r that unfolding returned_def by blast
        also have "\<dots> = xregs ?s2 x" using s3(5) that by blast
        finally show ?thesis using that by simp
      qed
      ultimately have "reaches code ?s5 (?s5\<lparr>sp_reg := sp_reg s, xregs := xregs s, pc_reg := slot p n\<rparr>)" by (intro pop) auto
      moreover have "reaches code s4 ?s5" using s3(10) r by (simp add: t_def)
      ultimately have "reaches code s4 (?s5\<lparr>sp_reg := sp_reg s, xregs := xregs s, pc_reg := slot p n\<rparr>)" by (rule reaches_trans [rotated])
      moreover have "flags s4 = flags s" using r s3(4) by (simp add: returned_def)
      ultimately show ?thesis by (auto simp: resumed_def intro!: exI)
    qed
    have "xregs s3 0 = a" using s3(5) by simp
    then show ?thesis using False reaches_trans [OF r0 s3(1)] s3(2,6,7,8) home by auto
  qed
qed

section \<open>Correctness of the instrumentation\<close>

text \<open>C5: The code emitted before a load or store tests exactly the bytes of the access, up to 56 of them. If all of them are marked valid in
  the shadow memory, it runs to its end with every register, the flags and the stack pointer as they were, and has written only
  below the stack pointer. Otherwise it calls the checker's report function with the address accessed, the size and direction, the address of the instruction
  and the thread's allocator counter, and when that returns the program goes on with all its registers restored. This
  includes accesses relative to the stack pointer, which the emitted code has moved. The checker's own code must be out of branch range.
\<close>

theorem memcheck_access_checked:
  assumes "addressable inst w" "mambo_is_load_or_store inst w" "\<not> memcheck_should_ignore inst w" "mambo_get_ld_st_size inst w = Ok sz" "0 < sz"
    and "ctx_inst c = int inst" "guest (read_address c) = w" "ctx_cond c = AL" "plugin_pushed_reg_count c = 0" "far_above (write_p c) f"
    and "pc_reg s = write_p c" "aligned_to 16 (sp_reg s)" "32 \<le> sp_reg s" "sp_reg s \<le> RESERVED_BASE"
  shows "\<exists>c' code'. memcheck_pre_inst_handler guest (Some td) f (c, code) = Ok (c', code') \<and> plugin_pushed_reg_count c' = 0 \<and>
    (if all_valid (mem s) (a64_address inst w (read_address c) s) (min sz 56)
     then \<exists>s'. reaches code' s s' \<and> resumed (write_p c') s s' \<and> (\<forall>x. x \<notin> stack_frame (sp_reg s - 32) 2 \<longrightarrow> mem s' x = mem s x)
     else \<exists>s1. reaches code' s s1 \<and> pc_reg s1 = f \<and> xregs s1 0 = a64_address inst w (read_address c) s \<and>
       xregs s1 1 = access_meta sz (mambo_is_store inst w) \<and> xregs s1 2 = read_address c \<and> xregs s1 3 = td \<and>
       (\<forall>s2. returned s1 s2 \<longrightarrow> (\<exists>s'. reaches code' s2 s' \<and> resumed (write_p c') s s')))"
proof -
  let ?T = "report_seq (access_meta sz (mambo_is_store inst w)) (read_address c) td f"
  obtain xs where xs: "memcheck_test guest (Some td) f (c, code) = Ok (emitted (test_seq (write_p c) sz xs ?T) 0 (c, code))" "length xs \<le> 4"
      "\<forall>s. run_seq xs s = Some (add_state 0 (a64_address inst w (read_address c) (s\<lparr>sp_reg := sp_reg s + 32\<rparr>)) (length xs) s)"
    using memcheck_test_emits [where guest = guest and td = td and code = code, OF assms(1,6,7,9,4,10)] by blast
  let ?xs = "test_seq (write_p c) sz xs ?T"
  define e' where "e' = emitted ?xs 0 (c, code)"
  have h: "memcheck_pre_inst_handler guest (Some td) f (c, code) = Ok (fst e', snd e')"
    using assms(2,3,6,7,8) xs(1) by (simp add: memcheck_pre_inst_handler_def Let_def mambo_get_source_addr_def mambo_get_cond_def e'_def)
  have "length ?xs \<le> 50" using xs(2) report_length [of "access_meta sz (mambo_is_store inst w)" "read_address c" td f]
    by (simp add: test_seq_def Let_def check_seq_def)
  then have "length ?xs < 2 ^ 60" by simp
  then have "code_seq (snd e') (write_p c) ?xs" using emit_seq_code [of ?xs "(code, write_p c)"] by (simp add: e'_def emitted_def Let_def)
  note run = test_runs [OF this xs(2,3) assms(5,11-14)]
  have wp: "slot (write_p c) (length ?xs) = write_p (fst e')" and "plugin_pushed_reg_count (fst e') = 0"
    using assms(9) by (simp_all add: e'_def emitted_fields)
  then show ?thesis using h run [unfolded wp] by blast
qed

text \<open>A store of eight bytes at SP + 16, none of which is marked.\<close>

theorem memcheck_access_checked_witness:
  "\<exists>c' code' s1. memcheck_pre_inst_handler (\<lambda>_. 0xF9000BE5) (Some 0x60000000) 0x7000000000 (witness_ctx\<lparr>ctx_inst := 31, ctx_cond := AL\<rparr>, Map.empty) = Ok (c', code') \<and>
     reaches code' witness_state s1 \<and> pc_reg s1 = 0x7000000000 \<and> xregs s1 0 = 0x7010 \<and> xregs s1 1 = 0x8008"
proof -
  let ?c = "witness_ctx\<lparr>ctx_inst := 31, ctx_cond := AL\<rparr>"
  have w: "ldr_scale 0xF9000BE5 = 3" "fld 0xF9000BE5 21 10 = 2" "ucast (fld 0xF9000BE5 9 5) = (31 :: 5 word)" by code_simp+
  have acc: "mambo_is_load_or_store 31 0xF9000BE5" "\<not> memcheck_should_ignore 31 0xF9000BE5" "mambo_get_ld_st_size 31 0xF9000BE5 = Ok 8"
    "access_meta 8 (mambo_is_store 31 0xF9000BE5) = 0x8008" "far_above 0x50010000 0x7000000000" by code_simp+
  have ad: "addressable 31 0xF9000BE5" using w(1) by (simp add: addressable_def a64_memory_instructions)
  have a: "a64_address 31 0xF9000BE5 0x400000 witness_state = 0x7010"
    using w by (simp add: a64_address_def a64_memory_instructions witness_state_def xreg_sp_def)
  have "\<not> valid_at (bytes_of (mem witness_state)) x" for x by (simp add: valid_at_def bytes_of_def witness_state_def)
  then have "\<not> all_valid (mem witness_state) 0x7010 (min 8 56)" by (simp add: all_valid_def exI [of _ 0])
  then show ?thesis
    using memcheck_access_checked [OF ad acc(1-3), of ?c "\<lambda>_. 0xF9000BE5" "0x7000000000" witness_state "0x60000000" Map.empty] acc(4,5) a witness_near(2)
    by (simp add: witness_ctx_def witness_state_def RESERVED_BASE_def) blast
qed

end
