(* ===== verification/Memcheck_Setup.thy ===== *)
theory Memcheck_Setup
  imports Memcheck_Access
begin

text \<open>
  The start of the memory checker (\<open>memcheck_init_plugin\<close> and \<open>memcheck_install_naive_stdlib\<close>): the reservation of the shadow memory, the
  marking of the kernel's pages, the table of allocations and the registration of all callbacks.
\<close>

section \<open>Replaced functions\<close>

text \<open>A replaced function continues at the replacement; all fourteen handlers have this form.\<close>

definition memcheck_replace :: "uintptr \<Rightarrow> mambo_context \<Rightarrow> mambo_context res" where
  "memcheck_replace replacement ctx =
     res_bind (mambo_set_source_addr ctx replacement) (\<lambda>(ret, ctx). res_bind (res_assert (ret = 0)) (\<lambda>_. Ok ctx))"

definition memcheck_replace_malloc_usable_size ::
    "uintptr \<Rightarrow> uintptr \<Rightarrow> uintptr \<Rightarrow> a64_code \<Rightarrow> mambo_context \<Rightarrow> (mambo_context \<times> a64_code) res" where
  "memcheck_replace_malloc_usable_size safe_fcall_trampoline usable_size memcheck_ret code ctx =
     res_bind (code_of (ctx_u ctx)) (\<lambda>c.
     res_bind (emit_safe_fcall safe_fcall_trampoline (c, code) usable_size MAX_FCALL_ARGS) (\<lambda>(ret, c, code).
     res_bind (res_assert (ret = 0)) (\<lambda>_.
     res_bind (memcheck_replace memcheck_ret (set_code ctx c)) (\<lambda>ctx. Ok (ctx, code)))))"

section \<open>Registration\<close>

text \<open>A sequence of calls of \<open>mambo_register_function_cb\<close>, each followed by the assertion that it succeeded.\<close>

type_synonym function_hook = "string \<times> mambo_callback option \<times> mambo_callback option \<times> int"

fun register_functions :: "'a dbm_global_scheme \<Rightarrow> mambo_context \<Rightarrow> function_hook list \<Rightarrow> 'a dbm_global_scheme res" where
  "register_functions g ctx [] = Ok g"
| "register_functions g ctx ((name, pre, post, args) # hooks) =
     res_bind (mambo_register_function_cb g ctx name pre post args) (\<lambda>(ret, g).
     res_bind (res_assert (ret = MAMBO_SUCCESS)) (\<lambda>_. register_functions g ctx hooks))"

text \<open>\<open>cb\<close> is the address of the handler of a given name. The misspelt \<open>alligned_alloc\<close> is the source's.\<close>

definition memcheck_functions :: "(string \<Rightarrow> mambo_callback) \<Rightarrow> function_hook list" where
  "memcheck_functions cb =
     (let alloc = (\<lambda>name pre n. (name, Some (cb pre), Some (cb ''memcheck_inst_alloc_post''), n)) in
      [alloc ''malloc'' ''memcheck_inst_alloc0'' 1,
       alloc ''valloc'' ''memcheck_inst_alloc0'' 1,
       alloc ''pvalloc'' ''memcheck_inst_alloc0'' 1,
       alloc ''alligned_alloc'' ''memcheck_inst_alloc1'' 2,
       alloc ''memalign'' ''memcheck_inst_alloc1'' 2,
       alloc ''__libc_memalign'' ''memcheck_inst_alloc1'' 2,
       (''posix_memalign'', Some (cb ''memcheck_inst_posix_memalign''), Some (cb ''memcheck_inst_posix_memalign_post''), 3),
       alloc ''calloc'' ''memcheck_inst_calloc'' 2,
       alloc ''realloc'' ''memcheck_inst_realloc'' 2,
       (''free'', Some (cb ''memcheck_inst_free''), Some (cb ''memcheck_inst_free_post''), 1),
       (''__malloc_arena_thread_freeres'', Some (cb ''memcheck_inst_ignored_fn''), Some (cb ''memcheck_inst_ignored_fn_post''), 1),
       (''malloc_usable_size'', Some (cb ''memcheck_replace_malloc_usable_size''), None, 1)])"

definition naive_names :: "string list" where
  "naive_names = [''bcmp'', ''index'', ''memchr'', ''rawmemchr'', ''rindex'', ''stpcpy'', ''strchrnul'', ''strcmp'', ''strcpy'', ''strlen'',
     ''strncmp'', ''strnlen'', ''strspn'', ''strcspn'']"

definition memcheck_install_naive_stdlib :: "'a dbm_global_scheme \<Rightarrow> mambo_context \<Rightarrow> (string \<Rightarrow> mambo_callback) \<Rightarrow> 'a dbm_global_scheme res" where
  "memcheck_install_naive_stdlib g ctx cb =
     register_functions g ctx (map (\<lambda>name. (name, Some (cb (''memcheck_replace_'' @ name)), None, 1)) naive_names)"

section \<open>The start of the plugin\<close>

text \<open>
  \<open>os_mmap\<close> gives the kernel's replies to the calls of \<open>mmap\<close>, by the number of the call, the requested address and the length; \<open>os_munmap\<close> is the result of
  \<open>munmap\<close> and \<open>os_vdso\<close> that of \<open>getauxval\<close>.
\<close>

record os_env =
  os_mmap :: "nat \<Rightarrow> uintptr \<Rightarrow> uintptr \<Rightarrow> uintptr"
  os_munmap :: int
  os_vdso :: uintptr

definition PAGE_SIZE :: uintptr where "PAGE_SIZE = 4096"
definition SHADOW_SIZE :: uintptr where "SHADOW_SIZE = RESERVED_BASE div 8"
definition VDSO_SIZE :: uintptr where "VDSO_SIZE = PAGE_SIZE * 2"
definition INITIAL_RES_SIZE :: uintptr where "INITIAL_RES_SIZE = 0x1000000000"
definition MAP_FAILED :: uintptr where "MAP_FAILED = -1"

text \<open>
  The loops that take all address space left, in ever smaller pieces, each until the kernel refuses; from call \<open>n\<close> on. The result is the number of
  the next call. The fuel counts the calls and the test that ends the outer loop.
\<close>

fun reserve_rest :: "nat \<Rightarrow> os_env \<Rightarrow> nat \<Rightarrow> uintptr \<Rightarrow> nat res" where
  "reserve_rest 0 os n sz = No_Fuel"
| "reserve_rest (Suc fuel) os n sz =
     (if sz \<ge> PAGE_SIZE then
        if os_mmap os n 0 sz \<noteq> MAP_FAILED then reserve_rest fuel os (n + 1) sz else reserve_rest fuel os (n + 1) (sz div 2)
      else Ok n)"

definition mark_valid_alias :: "os_env \<Rightarrow> nat \<Rightarrow> bytes \<Rightarrow> uintptr \<Rightarrow> uintptr \<Rightarrow> bytes res" where
  "mark_valid_alias os n m addr sz =
     (let alias = addr AND (RESERVED_BASE - 1) in
      res_bind (res_assert (alias = addr \<or> os_mmap os n alias sz = alias)) (\<lambda>_. memcheck_mark_valid m alias sz))"

text \<open>The mappings of \<open>memcheck_init_plugin\<close>: the shadow memory as the kernel provides it, with the kernel's pages marked.\<close>

definition reserve_memory :: "nat \<Rightarrow> os_env \<Rightarrow> bytes res" where
  "reserve_memory fuel os =
     (let guard_page = os_mmap os 0 (RESERVED_BASE - PAGE_SIZE) PAGE_SIZE; app_base = max 0x8000 PAGE_SIZE;
          app_size = guard_page - app_base; vdso_base = os_vdso os in
      res_bind (res_assert (guard_page = RESERVED_BASE - PAGE_SIZE)) (\<lambda>_.
      res_bind (res_assert (os_mmap os 1 RESERVED_BASE SHADOW_SIZE = RESERVED_BASE)) (\<lambda>_.
      res_bind (res_assert (os_mmap os 2 app_base app_size = app_base)) (\<lambda>_.
      res_bind (reserve_rest fuel os 3 INITIAL_RES_SIZE) (\<lambda>n.
      res_bind (res_assert (os_munmap os = 0)) (\<lambda>_.
      if vdso_base \<noteq> 0 then mark_valid_alias os n (\<lambda>_. 0) (vdso_base - PAGE_SIZE) VDSO_SIZE else Ok (\<lambda>_. 0)))))))"

definition memcheck_init_plugin ::
    "nat \<Rightarrow> os_env \<Rightarrow> (uintptr \<Rightarrow> bool) \<Rightarrow> (string \<Rightarrow> mambo_callback) \<Rightarrow> memcheck_state \<Rightarrow> 'a dbm_global_scheme \<Rightarrow>
     (memcheck_state \<times> 'a dbm_global_scheme) res" where
  "memcheck_init_plugin fuel os calloc_ok cb s g =
     (case mambo_register_plugin g of
        (None, g) \<Rightarrow> Assert_Fail
      | (Some ctx, g) \<Rightarrow>
          res_bind (reserve_memory fuel os) (\<lambda>m.
          res_bind (mambo_ht_init calloc_ok 0 (allocs s) 10000 2 70 True) (\<lambda>(ret, ht).
          res_bind (res_assert (ret = 0)) (\<lambda>_.
          res_bind (mambo_register_pre_thread_cb g ctx (Some (cb ''memcheck_pre_thread_handler''))) (\<lambda>(ret, g).
          res_bind (res_assert (ret = MAMBO_SUCCESS)) (\<lambda>_.
          res_bind (mambo_register_pre_inst_cb g ctx (Some (cb ''memcheck_pre_inst_handler''))) (\<lambda>(ret, g).
          res_bind (res_assert (ret = MAMBO_SUCCESS)) (\<lambda>_.
          res_bind (mambo_register_vm_op_cb g ctx (Some (cb ''memcheck_vm_op_handler''))) (\<lambda>(ret, g).
          res_bind (res_assert (ret = MAMBO_SUCCESS)) (\<lambda>_.
          res_bind (register_functions g ctx (memcheck_functions cb)) (\<lambda>g.
          res_bind (memcheck_install_naive_stdlib g ctx cb) (\<lambda>g.
          Ok (s\<lparr>shadow_mem := m, allocs := ht\<rparr>, g)))))))))))))"

section \<open>Correctness\<close>

lemma register_functions_ok:
  assumes "\<forall>(name, pre, post, args) \<in> set hooks. pre \<noteq> None \<and> 0 \<le> args \<and> args \<le> ARG_LIMIT" "distinct (map fst hooks)"
  shows "watch_ok (watched_functions g) \<Longrightarrow> \<not> funcs_lock (watched_functions g) \<Longrightarrow> set (map fst hooks) \<inter> set (watch_names (watched_functions g)) = {} \<Longrightarrow>
    func_count (watched_functions g) + int (length hooks) \<le> MAX_WATCHED_FUNCS \<Longrightarrow>
    \<exists>g'. register_functions g ctx hooks = Ok g' \<and> watch_ok (watched_functions g') \<and> \<not> funcs_lock (watched_functions g') \<and>
      watch_names (watched_functions g') = watch_names (watched_functions g) @ map fst hooks \<and>
      func_count (watched_functions g') = func_count (watched_functions g) + int (length hooks) \<and> plugins g' = plugins g"
  using assms
proof (induction hooks arbitrary: g)
  case Nil
  then show ?case by simp
next
  case (Cons h hooks)
  obtain name pre post args where h: "h = (name, pre, post, args)" by (cases h)
  obtain wf where wf: "function_watch_add (watched_functions g) name (plugin_id ctx) pre post = Ok (0, wf)" "watch_ok wf" "\<not> funcs_lock wf"
      "watch_names wf = watch_names (watched_functions g) @ [name]" "func_count wf = func_count (watched_functions g) + 1"
    using function_watch_add_ok [OF Cons.prems(1,2), of name "plugin_id ctx" pre post] Cons.prems(3,4) h by auto
  let ?g = "g\<lparr>watched_functions := wf\<rparr>"
  have reg: "mambo_register_function_cb g ctx name pre post args = Ok (0, ?g)" using wf(1) Cons.prems(5) h by (auto simp: mambo_register_function_cb_def)
  have "\<exists>g'. register_functions ?g ctx hooks = Ok g' \<and> watch_ok (watched_functions g') \<and> \<not> funcs_lock (watched_functions g') \<and>
      watch_names (watched_functions g') = watch_names (watched_functions ?g) @ map fst hooks \<and>
      func_count (watched_functions g') = func_count (watched_functions ?g) + int (length hooks) \<and> plugins g' = plugins ?g"
    using Cons.prems h wf by (intro Cons.IH) auto
  then show ?case using reg h wf by (auto simp: MAMBO_SUCCESS_def res_assert_def)
qed

lemma register_cb_ok:
  assumes g: "global_ok g" and p: "0 \<le> plugin_id ctx" "plugin_id ctx < MAX_PLUGIN_NO" and i: "0 \<le> i" "i < CALLBACK_MAX_IDX"
    and free: "cbs (plugins g ! nat (plugin_id ctx)) ! nat i = None"
  shows "\<exists>g'. mambo_register_cb g ctx i (Some f) = Ok (MAMBO_SUCCESS, g') \<and> global_ok g' \<and> watched_functions g' = watched_functions g \<and>
    (\<forall>j. 0 \<le> j \<and> j \<noteq> i \<longrightarrow> cbs (plugins g' ! nat (plugin_id ctx)) ! nat j = cbs (plugins g ! nat (plugin_id ctx)) ! nat j)"
proof -
  let ?p = "nat (plugin_id ctx)"
  have u: "unsigned_id (plugin_id ctx) = plugin_id ctx" using p by (simp add: unsigned_id_def MAX_PLUGIN_NO_def uint_word_of_int take_bit_int_eq_self)
  have l: "plugin_id ctx < int (length (plugins g))" "?p < length (plugins g)" using g p by (auto simp: global_ok_def)
  then have c: "int (length (cbs (plugins g ! ?p))) = CALLBACK_MAX_IDX" using g by (simp add: global_ok_def)
  let ?q = "(plugins g ! ?p)\<lparr>cbs := (cbs (plugins g ! ?p))[nat i := Some f]\<rparr>" let ?g = "g\<lparr>plugins := (plugins g)[?p := ?q]\<rparr>"
  have "mambo_register_cb g ctx i (Some f) = Ok (MAMBO_SUCCESS, ?g)"
    using p i l c free by (simp add: mambo_register_cb_def u Let_def arr_get_def arr_set_def)
  moreover have "global_ok ?g" using g c by (auto simp: global_ok_def dest: set_update_subset_insert [THEN subsetD])
  ultimately show ?thesis using i l by (intro exI [of _ ?g]) (simp add: nat_eq_iff2)
qed

lemma allocs_init:
  assumes "calloc_ok 16384"
  shows "\<exists>ht'. mambo_ht_init calloc_ok 0 ht 10000 2 70 True = Ok (0, ht') \<and> ht_ok ht' \<and> ht_view ht' = Map.empty \<and> allow_resize ht'"
proof -
  have r: "round_size 10000 1 = Ok 16384" by (simp add: round_size.simps)
  define ht' where "ht' = ht\<lparr>mht_entries := replicate (unat (16384 :: uintptr)) zero_entry, entry_count := 0, mht_size := 16384,
      allow_resize := True, fill_factor := 70, index_shift := 2, resize_threshold := threshold_of 16384 70\<rparr>"
  have "ht_config_ok ht'" unfolding ht_config_ok_def by (auto simp: ht'_def intro: exI [of _ 14])
  then have "ht_ok ht' \<and> ht_view ht' = Map.empty" by (rule ht_ok_empty) (simp_all add: ht'_def)
  moreover have "mambo_ht_init calloc_ok 0 ht 10000 2 70 True = Ok (0, ht')"
    using assms r by (simp add: mambo_ht_init_def calloc_entries_def ht'_def)
  moreover have "allow_resize ht'" by (simp add: ht'_def)
  ultimately show ?thesis by blast
qed

lemma allocs_init_fails: "\<not> calloc_ok 16384 \<Longrightarrow> \<exists>ht'. mambo_ht_init calloc_ok 0 ht 10000 2 70 True = Ok (-1, ht')"
proof -
  have "round_size 10000 1 = Ok 16384" by (simp add: round_size.simps)
  then show "\<not> calloc_ok 16384 \<Longrightarrow> ?thesis" by (simp add: mambo_ht_init_def calloc_entries_def)
qed

lemma hook_lists:
  "\<forall>(name, pre, post, args) \<in> set (memcheck_functions cb). pre \<noteq> None \<and> 0 \<le> args \<and> args \<le> ARG_LIMIT" "distinct (map fst (memcheck_functions cb))"
  "length (memcheck_functions cb) = 12" "distinct naive_names" "length naive_names = 14" "set (map fst (memcheck_functions cb)) \<inter> set naive_names = {}"
  by (simp_all add: memcheck_functions_def naive_names_def ARG_LIMIT_def Let_def)

text \<open>The reservation ends when the kernel has given away all it has: each refusal halves the size, and \<open>2 ^ k\<close> pages take \<open>k + 1\<close> refusals.\<close>

definition granted_from :: "os_env \<Rightarrow> nat \<Rightarrow> nat set" where
  "granted_from os n = {i. n \<le> i \<and> (\<exists>sz. os_mmap os i 0 sz \<noteq> MAP_FAILED)}"

lemma page_halves: "(2 ^ (12 + k) :: uintptr) \<ge> PAGE_SIZE" "0 < k \<Longrightarrow> (2 ^ (12 + k) :: uintptr) div 2 = 2 ^ (12 + (k - 1))" if "k \<le> 24"
proof -
  have u: "unat (2 ^ (12 + k) :: uintptr) = 2 ^ (12 + k)" using that by (intro unat_pow64) simp
  have "(2 :: nat) ^ 12 \<le> 2 ^ (12 + k)" by (rule power_increasing) simp_all
  then show "(2 ^ (12 + k) :: uintptr) \<ge> PAGE_SIZE" using u by (simp add: word_le_nat_alt PAGE_SIZE_def)
  have v: "unat (2 ^ (12 + (k - 1)) :: uintptr) = 2 ^ (12 + (k - 1))" using that by (intro unat_pow64) simp
  assume "0 < k"
  then have "(2 :: nat) ^ (12 + k) = 2 * 2 ^ (12 + (k - 1))" by (simp flip: power_Suc)
  then show "(2 ^ (12 + k) :: uintptr) div 2 = 2 ^ (12 + (k - 1))" using u v by (simp add: word_unat_eq_iff unat_div_distrib)
qed

lemma reserve_rest_done: "sz < PAGE_SIZE \<Longrightarrow> reserve_rest (Suc fuel) os n sz = Ok n"
  by (simp add: not_le [symmetric])

lemma reserve_rest_ends:
  assumes "finite (granted_from os n)" "card (granted_from os n) + k + 2 \<le> fuel" "k \<le> 24"
  shows "\<exists>n'. reserve_rest fuel os n (2 ^ (12 + k)) = Ok n'"
  using assms
proof (induction fuel arbitrary: n k)
  case (Suc fuel)
  have sub: "granted_from os (n + 1) \<subseteq> granted_from os n" by (auto simp: granted_from_def)
  have fin: "finite (granted_from os (n + 1))" using finite_subset [OF sub Suc.prems(1)] .
  show ?case
  proof (cases "os_mmap os n 0 (2 ^ (12 + k)) = MAP_FAILED")
    case True
    show ?thesis
    proof (cases "k = 0")
      case k: True
      obtain f where f: "fuel = Suc f" using Suc.prems(2) by (cases fuel) auto
      have "(2 ^ (12 + k) :: uintptr) div 2 < PAGE_SIZE" using k by (simp add: PAGE_SIZE_def)
      then show ?thesis using True page_halves(1) [OF Suc.prems(3)] reserve_rest_done f by simp
    next
      case False
      then have "\<exists>n'. reserve_rest fuel os (n + 1) (2 ^ (12 + (k - 1))) = Ok n'"
        using Suc.prems card_mono [OF Suc.prems(1) sub] fin by (intro Suc.IH) auto
      then show ?thesis using True False page_halves [OF Suc.prems(3)] by simp
    qed
  next
    case False
    then have "n \<in> granted_from os n" "n \<notin> granted_from os (n + 1)" by (auto simp: granted_from_def)
    then have "card (granted_from os (n + 1)) < card (granted_from os n)" using sub by (intro psubset_card_mono Suc.prems(1)) auto
    then have "\<exists>n'. reserve_rest fuel os (n + 1) (2 ^ (12 + k)) = Ok n'" using Suc.prems fin by (intro Suc.IH) auto
    then show ?thesis using False page_halves(1) [OF Suc.prems(3)] by simp
  qed
qed simp

text \<open>What the checker asks of the kernel and asserts: three mappings at fixed addresses, the release of the guest's range and, unless the kernel's pages lie in the
  guest's range, a mapping of their alias, which must end below the shadow memory.\<close>

definition vdso_alias :: "os_env \<Rightarrow> uintptr" where
  "vdso_alias os = shadowed (os_vdso os - PAGE_SIZE)"

definition memory_granted :: "os_env \<Rightarrow> nat \<Rightarrow> bool" where
  "memory_granted os n \<longleftrightarrow> os_mmap os 0 (RESERVED_BASE - PAGE_SIZE) PAGE_SIZE = RESERVED_BASE - PAGE_SIZE \<and>
     os_mmap os 1 RESERVED_BASE SHADOW_SIZE = RESERVED_BASE \<and>
     os_mmap os 2 0x8000 (RESERVED_BASE - PAGE_SIZE - 0x8000) = 0x8000 \<and> os_munmap os = 0 \<and>
     (os_vdso os \<noteq> 0 \<longrightarrow> vdso_alias os + VDSO_SIZE < RESERVED_BASE \<and>
       (vdso_alias os = os_vdso os - PAGE_SIZE \<or> os_mmap os n (vdso_alias os) VDSO_SIZE = vdso_alias os))"

lemma alias_fits:
  assumes "os_vdso os AND 0xFFF = 0"
  shows "fits (vdso_alias os) VDSO_SIZE \<longleftrightarrow> vdso_alias os + VDSO_SIZE < RESERVED_BASE"
proof -
  let ?v = "os_vdso os - PAGE_SIZE"
  have "os_vdso os AND 7 = (os_vdso os AND 0xFFF) AND 7" by (simp add: and.assoc)
  then have "unat (?v + 4096) mod 8 = 0" using assms low_bits_zero [of "os_vdso os"] by (simp add: PAGE_SIZE_def)
  moreover have "unat (?v + 4096) mod 8 = (unat ?v + 4096) mod 8" unfolding unat_word_ariths(1) by (subst mod_mod_cancel) simp_all
  moreover have "(unat ?v + 4096) mod 8 = unat ?v mod 8" by presburger
  ultimately have z: "?v AND 7 = 0" by (simp add: low_bits_zero)
  have "vdso_alias os AND 7 = (os_vdso os - PAGE_SIZE) AND 7" by (simp add: vdso_alias_def shadowed_def RESERVED_BASE_def and.assoc)
  moreover have "uint (vdso_alias os) \<le> 0x3FFFFFFFFF"
    using uint_and_mask_le [of "0x3FFFFFFFFF" ?v] by (simp add: vdso_alias_def shadowed_def RESERVED_BASE_def)
  then have "vdso_alias os \<le> vdso_alias os + VDSO_SIZE"
    by (simp add: no_olen_add VDSO_SIZE_def PAGE_SIZE_def)
  ultimately show ?thesis using z by (simp add: fits_def)
qed

lemma reserve_memory_outcomes:
  assumes page: "os_vdso os AND 0xFFF = 0" and rest: "reserve_rest fuel os 3 INITIAL_RES_SIZE = Ok n"
  shows "if memory_granted os n
    then \<exists>m. reserve_memory fuel os = Ok m \<and> (\<forall>a < RESERVED_BASE. valid_at m a \<longleftrightarrow> os_vdso os \<noteq> 0 \<and> a \<in> block (vdso_alias os) VDSO_SIZE)
    else reserve_memory fuel os = Assert_Fail"
proof -
  have base: "max 0x8000 PAGE_SIZE = 0x8000" by (simp add: PAGE_SIZE_def)
  have out: "\<not> a + VDSO_SIZE < RESERVED_BASE \<Longrightarrow> memcheck_mark_valid m a VDSO_SIZE = Assert_Fail" for m a
    by (simp add: memcheck_mark_valid_def memcheck_mark_def res_assert_def)
  have mark: "mark_valid_alias os n m (os_vdso os - PAGE_SIZE) VDSO_SIZE =
      (if vdso_alias os = os_vdso os - PAGE_SIZE \<or> os_mmap os n (vdso_alias os) VDSO_SIZE = vdso_alias os
       then memcheck_mark_valid m (vdso_alias os) VDSO_SIZE else Assert_Fail)" for m
    by (simp add: mark_valid_alias_def vdso_alias_def shadowed_def Let_def res_assert_def)
  show ?thesis
  proof (cases "memory_granted os n \<and> os_vdso os \<noteq> 0")
    case True
    then have "fits (vdso_alias os) VDSO_SIZE" using alias_fits [OF page] by (simp add: memory_granted_def)
    from mark_tracks [OF this, of "\<lambda>_. 0" True] obtain m where m: "memcheck_mark_valid (\<lambda>_. 0) (vdso_alias os) VDSO_SIZE = Ok m"
        "\<forall>a < RESERVED_BASE. valid_at m a \<longleftrightarrow> a \<in> block (vdso_alias os) VDSO_SIZE"
      by (auto simp: memcheck_mark_valid_def valid_at_def)
    have "reserve_memory fuel os = Ok m" using True m(1) by (simp add: reserve_memory_def memory_granted_def base rest mark Let_def res_assert_def)
    then show ?thesis using True m(2) by simp
  next
    case False
    then show ?thesis
      by (auto simp: reserve_memory_def memory_granted_def base rest mark out Let_def res_assert_def valid_at_def split: if_splits)
  qed
qed

text \<open>The registrations: the plugin's own slot, three callbacks and the watched functions.\<close>

lemma memcheck_registers:
  assumes "global_ok g" "free_plugin g < MAX_PLUGIN_NO" "\<forall>i. 0 \<le> i \<and> i < CALLBACK_MAX_IDX \<longrightarrow> cbs (plugins g ! nat (free_plugin g)) ! nat i = None"
    and "watch_ok (watched_functions g)" "\<not> funcs_lock (watched_functions g)" "func_count (watched_functions g) \<le> 14"
    and "(set (map fst (memcheck_functions cb)) \<union> set naive_names) \<inter> set (watch_names (watched_functions g)) = {}"
  shows "\<exists>ctx g0 g1 g2 g3 g4 g5. mambo_register_plugin g = (Some ctx, g0) \<and>
    mambo_register_cb g0 ctx PRE_THREAD_C (Some (cb ''memcheck_pre_thread_handler'')) = Ok (MAMBO_SUCCESS, g1) \<and>
    mambo_register_cb g1 ctx PRE_INST_C (Some (cb ''memcheck_pre_inst_handler'')) = Ok (MAMBO_SUCCESS, g2) \<and>
    mambo_register_cb g2 ctx VM_OP_C (Some (cb ''memcheck_vm_op_handler'')) = Ok (MAMBO_SUCCESS, g3) \<and>
    register_functions g3 ctx (memcheck_functions cb) = Ok g4 \<and> memcheck_install_naive_stdlib g4 ctx cb = Ok g5 \<and>
    watch_names (watched_functions g5) = watch_names (watched_functions g) @ map fst (memcheck_functions cb) @ naive_names"
proof -
  define ctx where "ctx = (set_mambo_context (reg_ctx g) None PLUGIN_REG)\<lparr>plugin_id := free_plugin g\<rparr>"
  define g0 where "g0 = g\<lparr>free_plugin := free_plugin g + 1, reg_ctx := ctx\<rparr>"
  have reg: "mambo_register_plugin g = (Some ctx, g0)" using assms(2) by (simp add: mambo_register_plugin_def ctx_def g0_def Let_def)
  have ctx: "0 \<le> plugin_id ctx" "plugin_id ctx < MAX_PLUGIN_NO" "plugin_id ctx = free_plugin g" using assms(1,2) by (simp_all add: ctx_def global_ok_def)
  have g0: "global_ok g0" "watched_functions g0 = watched_functions g" "plugins g0 = plugins g" using assms(1) by (simp_all add: g0_def global_ok_def)
  let ?cbs = "\<lambda>g. cbs (plugins g ! nat (plugin_id ctx))"
  note cb_ok = register_cb_ok [OF _ ctx(1,2)] and idx = PRE_THREAD_C_def PRE_INST_C_def VM_OP_C_def CALLBACK_MAX_IDX_def
  have range: "0 \<le> PRE_THREAD_C" "PRE_THREAD_C < CALLBACK_MAX_IDX" "0 \<le> PRE_INST_C" "PRE_INST_C < CALLBACK_MAX_IDX" "0 \<le> VM_OP_C" "VM_OP_C < CALLBACK_MAX_IDX"
    and differ: "PRE_INST_C \<noteq> PRE_THREAD_C" "VM_OP_C \<noteq> PRE_THREAD_C" "VM_OP_C \<noteq> PRE_INST_C"
    by (simp_all add: idx)
  have free: "?cbs g0 ! nat PRE_THREAD_C = None" "?cbs g0 ! nat PRE_INST_C = None" "?cbs g0 ! nat VM_OP_C = None"
    unfolding g0(3) ctx(3) using assms(3) range by blast+
  obtain g1 where g1: "mambo_register_cb g0 ctx PRE_THREAD_C (Some (cb ''memcheck_pre_thread_handler'')) = Ok (MAMBO_SUCCESS, g1)" "global_ok g1"
      "watched_functions g1 = watched_functions g0" "\<forall>j. 0 \<le> j \<and> j \<noteq> PRE_THREAD_C \<longrightarrow> ?cbs g1 ! nat j = ?cbs g0 ! nat j"
    using cb_ok [OF g0(1) range(1,2) free(1)] by blast
  have free1: "?cbs g1 ! nat PRE_INST_C = None" "?cbs g1 ! nat VM_OP_C = None"
    using g1(4) [rule_format, of PRE_INST_C] g1(4) [rule_format, of VM_OP_C] range differ free by metis+
  obtain g2 where g2: "mambo_register_cb g1 ctx PRE_INST_C (Some (cb ''memcheck_pre_inst_handler'')) = Ok (MAMBO_SUCCESS, g2)" "global_ok g2"
      "watched_functions g2 = watched_functions g1" "\<forall>j. 0 \<le> j \<and> j \<noteq> PRE_INST_C \<longrightarrow> ?cbs g2 ! nat j = ?cbs g1 ! nat j"
    using cb_ok [OF g1(2) range(3,4) free1(1)] by blast
  have free2: "?cbs g2 ! nat VM_OP_C = None" using g2(4) [rule_format, of VM_OP_C] range differ free1 by metis
  obtain g3 where g3: "mambo_register_cb g2 ctx VM_OP_C (Some (cb ''memcheck_vm_op_handler'')) = Ok (MAMBO_SUCCESS, g3)" "watched_functions g3 = watched_functions g2"
    using cb_ok [OF g2(2) range(5,6) free2] by blast
  have w3: "watched_functions g3 = watched_functions g" using g0(2) g1(3) g2(3) g3(2) by simp
  note hooks = hook_lists(1-3) [of cb] hook_lists(4,5) hook_lists(6) [of cb]
  obtain g4 where g4: "register_functions g3 ctx (memcheck_functions cb) = Ok g4" "watch_ok (watched_functions g4)" "\<not> funcs_lock (watched_functions g4)"
      "watch_names (watched_functions g4) = watch_names (watched_functions g) @ map fst (memcheck_functions cb)"
      "func_count (watched_functions g4) = func_count (watched_functions g) + 12"
    using register_functions_ok [OF hooks(1,2), of g3 ctx] assms(4-7) w3 hooks(3) by (auto simp: MAX_WATCHED_FUNCS_def)
  let ?naive = "map (\<lambda>name. (name, Some (cb (''memcheck_replace_'' @ name)), None, 1)) naive_names :: function_hook list"
  have n: "\<forall>(name, pre, post, args) \<in> set ?naive. pre \<noteq> None \<and> 0 \<le> args \<and> args \<le> ARG_LIMIT" "map fst ?naive = naive_names" "length ?naive = 14"
    using hooks(5) by (auto simp: ARG_LIMIT_def comp_def)
  obtain g5 where g5: "memcheck_install_naive_stdlib g4 ctx cb = Ok g5"
      "watch_names (watched_functions g5) = watch_names (watched_functions g) @ map fst (memcheck_functions cb) @ naive_names"
    using register_functions_ok [OF n(1), of g4 ctx, unfolded n(2,3)] hooks(4,6) g4(2-5) assms(6,7) by (auto simp: memcheck_install_naive_stdlib_def MAX_WATCHED_FUNCS_def)
  show ?thesis using reg g1(1) g2(1) g3(1) g4(1) g5 by blast
qed

text \<open>C39: The start of the memory checker, whatever the kernel replies. The loop that reserves the rest of the address space ends, after as many calls as
  the kernel grants and twenty-five refusals. If the kernel then has given the three mappings, the release and the alias of its own pages where they are
  asserted to be, and the table of allocations can be allocated, the plugin establishes the picture of the heap that its hooks maintain: no block is
  allocated or freed, exactly the alias of the kernel's pages is marked valid, and all twenty-six functions it hooks or replaces are watched. In every other
  case an assertion fails. The plugin starts with a free plugin slot, room in the table of watched functions and no other plugin watching one of the
  functions; the kernel's pages are page aligned, and the kernel grants only finitely many mappings.
\<close>

theorem memcheck_init_ready:
  assumes "finite (granted_from os 3)" "card (granted_from os 3) + 26 \<le> fuel" "os_vdso os AND 0xFFF = 0"
    and "global_ok g" "free_plugin g < MAX_PLUGIN_NO" "\<forall>i. 0 \<le> i \<and> i < CALLBACK_MAX_IDX \<longrightarrow> cbs (plugins g ! nat (free_plugin g)) ! nat i = None"
    and "watch_ok (watched_functions g)" "\<not> funcs_lock (watched_functions g)" "func_count (watched_functions g) \<le> 14"
    and "(set (map fst (memcheck_functions cb)) \<union> set naive_names) \<inter> set (watch_names (watched_functions g)) = {}"
  shows "\<exists>n. reserve_rest fuel os 3 INITIAL_RES_SIZE = Ok n \<and>
    (if memory_granted os n \<and> calloc_ok 16384
     then \<exists>s' g'. memcheck_init_plugin fuel os calloc_ok cb s g = Ok (s', g') \<and>
       tracks s' \<lparr>held = Map.empty, freed = {}, mapped = (if os_vdso os = 0 then {} else block (vdso_alias os) VDSO_SIZE), depth = in_malloc s\<rparr> \<and>
       watch_names (watched_functions g') = watch_names (watched_functions g) @ map fst (memcheck_functions cb) @ naive_names
     else memcheck_init_plugin fuel os calloc_ok cb s g = Assert_Fail)"
proof -
  obtain n where n: "reserve_rest fuel os 3 INITIAL_RES_SIZE = Ok n"
    using reserve_rest_ends [OF assms(1), of 24 fuel] assms(2) by (auto simp: INITIAL_RES_SIZE_def)
  from memcheck_registers [OF assms(4-10)] obtain ctx g0 g1 g2 g3 g4 g5
    where reg: "mambo_register_plugin g = (Some ctx, g0)"
      "mambo_register_cb g0 ctx PRE_THREAD_C (Some (cb ''memcheck_pre_thread_handler'')) = Ok (MAMBO_SUCCESS, g1)"
      "mambo_register_cb g1 ctx PRE_INST_C (Some (cb ''memcheck_pre_inst_handler'')) = Ok (MAMBO_SUCCESS, g2)"
      "mambo_register_cb g2 ctx VM_OP_C (Some (cb ''memcheck_vm_op_handler'')) = Ok (MAMBO_SUCCESS, g3)"
      "register_functions g3 ctx (memcheck_functions cb) = Ok g4" "memcheck_install_naive_stdlib g4 ctx cb = Ok g5"
    and names: "watch_names (watched_functions g5) = watch_names (watched_functions g) @ map fst (memcheck_functions cb) @ naive_names"
    by blast
  note step = memcheck_init_plugin_def reg mambo_register_pre_thread_cb_def mambo_register_pre_inst_cb_def mambo_register_vm_op_cb_def res_assert_def
  note mem = reserve_memory_outcomes [OF assms(3) n]
  consider "\<not> memory_granted os n" | "memory_granted os n" "\<not> calloc_ok 16384" | "memory_granted os n" "calloc_ok 16384" by blast
  then show ?thesis
  proof cases
    case 1
    then have "reserve_memory fuel os = Assert_Fail" using mem by simp
    then have "memcheck_init_plugin fuel os calloc_ok cb s g = Assert_Fail" by (simp add: step)
    then show ?thesis using n 1 by simp
  next
    case 2
    then obtain m ht where "reserve_memory fuel os = Ok m" "mambo_ht_init calloc_ok 0 (allocs s) 10000 2 70 True = Ok (-1, ht)"
      using mem allocs_init_fails [of calloc_ok "allocs s"] by auto
    then have "memcheck_init_plugin fuel os calloc_ok cb s g = Assert_Fail" by (simp add: step)
    then show ?thesis using n 2 by simp
  next
    case 3
    then obtain m where m: "reserve_memory fuel os = Ok m" "\<forall>a < RESERVED_BASE. valid_at m a \<longleftrightarrow> os_vdso os \<noteq> 0 \<and> a \<in> block (vdso_alias os) VDSO_SIZE"
      using mem by auto
    obtain ht where ht: "mambo_ht_init calloc_ok 0 (allocs s) 10000 2 70 True = Ok (0, ht)" "ht_ok ht" "ht_view ht = Map.empty" "allow_resize ht"
      using allocs_init [of calloc_ok "allocs s"] 3(2) by blast
    have "memcheck_init_plugin fuel os calloc_ok cb s g = Ok (s\<lparr>shadow_mem := m, allocs := ht\<rparr>, g5)" using m(1) ht(1) by (simp add: step)
    moreover have "tracks (s\<lparr>shadow_mem := m, allocs := ht\<rparr>)
        \<lparr>held = Map.empty, freed = {}, mapped = (if os_vdso os = 0 then {} else block (vdso_alias os) VDSO_SIZE), depth = in_malloc s\<rparr>"
      using ht m(2) by (auto simp: tracks_def heap_ok_def held_bytes_def alloc_entry_def fun_eq_iff)
    ultimately show ?thesis using n 3 names by auto
  qed
qed

definition fresh_global :: dbm_global where
  "fresh_global = \<lparr>exec_allocs = \<lparr>mem_size = 0, entry_count = 0, im_entries = [], im_closed = []\<rparr>, g_threads = None, exit_group = 0, free_plugin = 0,
     plugins = replicate 10 \<lparr>cbs = replicate 15 None, plugin_data = 0\<rparr>,
     watched_functions = \<lparr>func_count = 0, funcs_lock = False, funcs = replicate 40 \<lparr>wf_name = [], wf_plugin_id = 0, pre_callback = None, post_callback = None\<rparr>,
       funcp_count = 0, funcps_lock = False, funcps = replicate 80 \<lparr>wfp_addr = 0, wfp_func = 0\<rparr>\<rparr>,
     reg_ctx = \<lparr>ctx_thread = None, event_type = 0, plugin_id = 0, ctx_u = No_ctx\<rparr>\<rparr>"

text \<open>A kernel that grants the three fixed mappings, two more of the rest of the address space and, after twenty-five refusals, the alias.\<close>

definition willing_os :: os_env where
  "willing_os = \<lparr>os_mmap = (\<lambda>n a sz. if n < 3 \<or> a \<noteq> 0 then a else if n < 5 then 0x7000000000 else MAP_FAILED), os_munmap = 0, os_vdso = 0x7FFFF7FFE000\<rparr>"

theorem memcheck_init_ready_witness:
  "\<exists>s' g'. memcheck_init_plugin 28 willing_os (\<lambda>_. True) (\<lambda>_. 7) witness_memcheck fresh_global = Ok (s', g') \<and>
     length (watch_names (watched_functions g')) = 26 \<and> (\<forall>a < RESERVED_BASE. valid_at (shadow_mem s') a \<longleftrightarrow> a \<in> block (shadowed 0x7FFFF7FFD000) 0x2000)"
proof -
  have "granted_from willing_os 3 = {3, 4}" by (auto simp: granted_from_def willing_os_def MAP_FAILED_def split: if_splits)
  then have a: "finite (granted_from willing_os 3)" "card (granted_from willing_os 3) + 26 \<le> 28" "os_vdso willing_os AND 0xFFF = 0"
    by (simp_all add: willing_os_def)
  have v: "vdso_alias willing_os = shadowed 0x7FFFF7FFD000" "os_vdso willing_os \<noteq> 0" "VDSO_SIZE = 0x2000"
    by (simp_all add: willing_os_def vdso_alias_def VDSO_SIZE_def PAGE_SIZE_def)
  have granted: "memory_granted willing_os n" for n
    unfolding memory_granted_def v(1,3) by (simp add: willing_os_def shadowed_def RESERVED_BASE_def PAGE_SIZE_def SHADOW_SIZE_def)
  have g: "global_ok fresh_global" "free_plugin fresh_global < MAX_PLUGIN_NO" "watch_ok (watched_functions fresh_global)"
      "\<not> funcs_lock (watched_functions fresh_global)" "func_count (watched_functions fresh_global) \<le> 14" "watch_names (watched_functions fresh_global) = []"
    by (simp_all add: fresh_global_def global_ok_def watch_ok_def watch_names_def MAX_PLUGIN_NO_def CALLBACK_MAX_IDX_def MAX_WATCHED_FUNCS_def
        MAX_WATCHED_FUNC_PTRS_def)
  have c: "\<forall>i. 0 \<le> i \<and> i < CALLBACK_MAX_IDX \<longrightarrow> cbs (plugins fresh_global ! nat (free_plugin fresh_global)) ! nat i = None"
  proof (intro allI impI)
    fix i :: int
    assume "0 \<le> i \<and> i < CALLBACK_MAX_IDX"
    then have "nat i < 15" unfolding CALLBACK_MAX_IDX_def by linarith
    moreover have "cbs (plugins fresh_global ! nat (free_plugin fresh_global)) = replicate 15 None" by (simp add: fresh_global_def)
    ultimately show "cbs (plugins fresh_global ! nat (free_plugin fresh_global)) ! nat i = None" by (metis nth_replicate)
  qed
  have none: "(set (map fst (memcheck_functions (\<lambda>_. 7))) \<union> set naive_names) \<inter> set (watch_names (watched_functions fresh_global)) = {}"
    by (simp add: g(6))
  have len: "length (watch_names (watched_functions fresh_global) @ map fst (memcheck_functions cb) @ naive_names) = 26" for cb
    by (simp add: g(6) hook_lists)
  from memcheck_init_ready [OF a g(1,2) c g(3-5) none, of "\<lambda>_. True" witness_memcheck]
  obtain s' g' where r: "memcheck_init_plugin 28 willing_os (\<lambda>_. True) (\<lambda>_. 7) witness_memcheck fresh_global = Ok (s', g')"
      "tracks s' \<lparr>held = Map.empty, freed = {}, mapped = block (vdso_alias willing_os) VDSO_SIZE, depth = in_malloc witness_memcheck\<rparr>"
      "watch_names (watched_functions g') = watch_names (watched_functions fresh_global) @ map fst (memcheck_functions (\<lambda>_. 7)) @ naive_names"
    using granted v(2) by auto
  have "\<forall>a < RESERVED_BASE. valid_at (shadow_mem s') a \<longleftrightarrow> a \<in> block (shadowed 0x7FFFF7FFD000) 0x2000"
    using r(2) unfolding v(1,3) by (simp add: tracks_def held_bytes_def)
  then show ?thesis using r(1,3) len by metis
qed

end
