(* ===== verification/Spec2Isabelle.thy ===== *)
theory Spec2Isabelle
  imports Mambo_Prelude Code_Cache_Hash Interval_Map Reg_List Link_Pool Plugin_Hash Dbm_Types Code_Cache A64_Machine A64_Emit A64_Dispatch A64_Inline_Lookup Plugin_Types Function_Watch A64_Helpers Plugin_Api A64_Scan A64_Fragment A64_Traces Race_Detector Race_Clocks Race_Equal Race_Spec A64_Load_Store Naive_Stdlib Memcheck Memcheck_Access Memcheck_Setup
begin

text \<open>
  \<^bold>\<open>MAMBO, a dynamic binary modification tool.\<close> MAMBO runs a guest program from a code cache. The
  dispatcher (\<open>dispatcher.c\<close>) is entered with the guest address to continue at; it looks the address up in a hash table
  (\<open>common.c\<close>) and, if there is no translation, has the architecture's scanner (\<open>arch/aarch64/scanner_a64.c\<close>) copy the
  guest's instructions into a fragment of the code cache (\<open>dbm.c\<close>), with position-dependent instructions and branches
  replaced. Direct exits are linked to their targets afterwards (\<open>arch/aarch64/dispatcher_aarch64.c\<close>), register branches run an
  inline hash lookup, and hot blocks are compiled into traces (\<open>traces.c\<close>). Plugins (\<open>api/\<close>) register callbacks that the
  scanner delivers while it translates, and emit code of their own into the fragments; \<open>plugins/\<close> has example plugins.

  \<^bold>\<open>Conventions.\<close> The development follows the 64-bit AArch64 build with the default options. Every operation of the
  C code is one HOL definition of the same name, with the state it reads and writes passed explicitly. Pointers and
  \<open>uintptr_t\<close> are 64-bit words, \<open>uint32_t\<close> 32-bit words, \<open>int\<close> and \<open>size_t\<close> values are \<open>int\<close> and \<open>nat\<close> where no overflow
  can happen, with the overflow written out as \<open>Undef\<close> otherwise. The type \<open>'a res\<close> of \<open>Mambo_Prelude\<close> has the outcomes of
  C code: \<open>Ok\<close>, a failed \<open>assert\<close> or an exit with an error message (\<open>Assert_Fail\<close>), an endless loop (\<open>Spin\<close>), an access outside
  an array or through a null pointer (\<open>Mem_Fault\<close>), undefined behaviour (\<open>Undef\<close>) and \<open>No_Fuel\<close> for a loop that is cut off.
  Results of \<open>malloc\<close>, \<open>calloc\<close>, \<open>mmap\<close>, the pthread functions, libelf and the generated instruction decoder are
  arguments of the definitions that use them.

  \<^bold>\<open>Data structures.\<close>
  \<^item> \<open>Mambo_Prelude\<close>: the type of results, checked array accesses, word lemmas, and the locale \<open>kv_table\<close> of a key-value
    table, interpreted by both hash tables.
  \<^item> \<open>Code_Cache_Hash\<close> (\<open>common.c\<close>: \<open>hash_lookup\<close>, \<open>hash_add\<close>, \<open>hash_init\<close>) refines a map; insertion into a full table never returns.
  \<^item> \<open>Interval_Map\<close> (\<open>common.c\<close>: \<open>interval_map_*\<close>): what adding and deleting ranges cover, and where they lose entries.
  \<^item> \<open>Reg_List\<close>, \<open>Link_Pool\<close> (\<open>common.c\<close>): register masks and the pool of link cells.
  \<^item> \<open>Plugin_Hash\<close> (\<open>api/hash_table.c\<close>) refines a map with resizing.

  \<^bold>\<open>The translator.\<close>
  \<^item> \<open>Dbm_Types\<close>, \<open>Code_Cache\<close> (\<open>dbm.h\<close>, \<open>dbm.c\<close>): the thread structure, allocation of fragments, flushing, links, \<open>lookup_or_scan\<close>. The
    locales \<open>block_scanner\<close> and \<open>framed_scanner\<close> state what the manager needs of an architecture's scanner.
  \<^item> \<open>A64_Machine\<close>: the emitted instructions and what they do to the registers, the stack and memory. This is the architecture's
    documented behaviour and the specification of emitted code.
  \<^item> \<open>A64_Emit\<close>, \<open>A64_Inline_Lookup\<close>, \<open>A64_Scan\<close>, \<open>A64_Fragment\<close> (\<open>scanner_a64.c\<close>): branch helpers, exits, the inline lookup, and the scanner with
    the delivery of plugin events. Executed as machine code, exits reach the dispatcher with the address at which the guest
    would continue, the inline lookup agrees with the hash table, a straight-line block runs the guest's instructions in order. The
    scanner interprets \<open>framed_scanner\<close>.
  \<^item> \<open>A64_Dispatch\<close> (\<open>dispatcher_aarch64.c\<close>): a linked exit reaches its targets directly.
  \<^item> \<open>A64_Traces\<close> (\<open>traces.c\<close>, \<open>dispatcher.c\<close>): the trace compiler and the whole dispatcher: it keeps the code cache consistent and links
    the exit it was called from.

  \<^bold>\<open>Plugins.\<close>
  \<^item> \<open>Plugin_Types\<close>, \<open>Plugin_Api\<close> (\<open>api/plugin_support.*\<close>, \<open>api/internal.c\<close>): contexts, registration, delivery of events, scratch registers.
  \<^item> \<open>Function_Watch\<close> (\<open>elf/symbol_parser.c\<close>): the tables of watched functions.
  \<^item> \<open>A64_Helpers\<close> (\<open>api/helpers.c\<close>): what the emitted pushes, pops, additions, counters and calls do as machine code.
  \<^item> \<open>A64_Load_Store\<close> (\<open>api/load_store.c\<close>, \<open>api/branch_decoder_support.c\<close>): which accesses and branches are reported to plugins, and that the
    emitted address computation gives the address the guest's instruction accesses.
  \<^item> \<open>Naive_Stdlib\<close>, \<open>Memcheck\<close>, \<open>Memcheck_Access\<close>, \<open>Memcheck_Setup\<close> (\<open>plugins/memcheck\<close>): the string functions of the memory checker, its
    shadow memory, which refines the abstract heap, the emitted check of every access, which as machine code reports exactly the accesses
    to bytes that are not marked, and the start of the plugin for every sequence of replies of the kernel to its \<open>mmap\<close> calls. The four build on the plugin hash table, the emission helpers, the address
    helpers and the watched functions.
  \<^item> \<open>Race_Detector\<close> (\<open>plugins/datarace\<close>): vector clocks, DJIT and FastTrack and the processing of events. \<open>Race_Clocks\<close> and \<open>Race_Equal\<close> show
    that the two detectors are equivalent (the locale \<open>interchangeable\<close> states when detectors can be exchanged), \<open>Race_Spec\<close> that
    they implement the happens-before order.

  \<^bold>\<open>Bounds and fuel.\<close> The loops that push and pop registers have fuel 32, one round per register of the mask, and never run out of it. The
  scanner and its first pass read instructions until they meet a branch, so they take the number of instructions as fuel; the
  theorems about them show that fuel for the length of the block is enough. Relinking walks a chain of links with the
  length of the pool as fuel, which bounds every acyclic chain. Probe loops of the hash tables are recursive on the number of slots left:
  back at the start without a change they spin. The loops over strings are partial functions whose value \<open>None\<close> means that they run on for
  ever; the theorems about them show that they return on terminated strings. The memory checker takes all address space left in mappings of ever smaller
  size, each size until the kernel refuses; this loop has the number of \<open>mmap\<close> calls as fuel, and as many calls as the kernel grants plus
  twenty-five refusals, one per size, are enough.

  \<^bold>\<open>Not modelled.\<close> The AArch32 and RISC-V translators and their branches of shared functions, since one build contains one of
  the three; the assembly trampolines, whose contracts are hypotheses; system calls, signals and the ELF loader, whose behaviour is
  mostly the kernel's; the plugins that only print, and the printing of the memory checker's reports. Mutual exclusion is modelled where the code misuses it (\<open>Function_Watch\<close>);
  elsewhere every operation is one step.
\<close>

end
